(* ===== verification/Prelude.thy ===== *)
theory Prelude
  imports Main "HOL-Library.Word"
begin

text \<open>
  Shared vocabulary of the EquinoxDB development: the machine types of the Go source, the
  errors and panics its functions return, the result type with its sequencing combinator,
  and the list, option and word lemmas the component theories share.
\<close>

unbundle bit_operations_syntax

section \<open>Machine types\<close>

text \<open>
  \<open>byte\<close>, \<open>uint16\<close>, \<open>uint32\<close> and \<open>uint64\<close> keep their width. A Go \<open>int64\<close> that the
  code computes with is the same 64 bits, read with \<open>sint\<close>; the conversions
  \<open>uint64(x)\<close> and \<open>int64(x)\<close> are then the identity.
\<close>

type_synonym byte = "8 word"
type_synonym u16 = "16 word"
type_synonym u32 = "32 word"
type_synonym u64 = "64 word"
type_synonym bytes = "byte list"

section \<open>Errors and results\<close>

text \<open>
  One constructor per error value the modelled functions return; the message text is left
  out. \<open>Panic\<close> is a Go run-time panic (an index or slice bound out of range, a write to a
  nil map, an explicit \<open>panic\<close>). \<open>Diverged\<close> stands for a loop of the
  code that does not end; where a loop is given fuel, it is the value when the fuel runs out.
\<close>

datatype error =
    ErrValueOutOfBounds | ErrInvalidSelector | ErrSliceLenRemaining | ErrNotMultipleOf8
  | ErrUnknownEncoding | ErrNotEnoughData | ErrInvalidRunLength | ErrInvalidRepeat
  | ErrUnexpectedCount | ErrMultipleOf8Expected | ErrInvalidCount
  | ErrTimestampLength | ErrTimestampData | ErrInvalidBlockType | ErrUnknownBlockType
  | ErrShortBlock | ErrInvalidStringLength | ErrLengthOverflow | ErrShortBuffer
  | ErrSnappy | ErrFieldTypeConflict | ErrUnsupportedType | ErrIncorrectValue
  | ErrWALCorrupt | ErrEOF | ErrShortBuf | ErrEmptyHeader | ErrFileNotFound
  | ErrInvalidOffset | ErrIllegalLifeCycle | ErrNoRoom | ErrMaxKeyLength
  | ErrMaxBlocks | ErrNoValues | ErrTooLarge | ErrFileExists
  | ErrReadMagic | ErrNotSST | ErrReadVersion | ErrVersion | ErrIndexTooSmall | ErrIndexStart
  | ErrIndexKeyLength | ErrIndexCount | ErrIndexMinTime | ErrIndexMaxTime
  | ErrMaxIndexEntries | ErrEntriesHeader | ErrKeyNotFound | ErrSSTClosed
  | ErrDeleteDuringIteration | ErrUnsupportedNaN | ErrUnknownTombstone | ErrBadTombstone | ErrPtrLength | ErrDecodePtr | ErrInvalidFid | ErrMissingFields | ErrMissingTag | ErrInvalidNumber | ErrInvalidPoint | ErrUnsupportedValue
  | ErrUnknownFieldType | ErrMaxFileExceeded | ErrSnapshotsDisabled | ErrCompactionsDisabled
  | ErrCompactionInProgress | ErrCompactionAborted | ErrInvalidIndexEntry | ErrBadFileName
  | Panic | Diverged

type_synonym 'a result = "error + 'a"

text \<open>Run \<open>r\<close>; return its error, or go on with its value (\<open>if err != nil \{ return err \}\<close>).\<close>

definition bind_result :: "'a result \<Rightarrow> ('a \<Rightarrow> 'b result) \<Rightarrow> 'b result" where
  "bind_result r f = (case r of Inl e \<Rightarrow> Inl e | Inr x \<Rightarrow> f x)"

lemma bind_result_simps [simp]:
  "bind_result (Inl e) f = Inl e"
  "bind_result (Inr x) f = f x"
  by (simp_all add: bind_result_def)

lemma bind_result_eq_Inr:
  "bind_result r f = Inr y \<longleftrightarrow> (\<exists>x. r = Inr x \<and> f x = Inr y)"
  by (cases r) auto

lemma bind_result_InrE:
  "bind_result r f = Inr y \<Longrightarrow> (\<And>x. r = Inr x \<Longrightarrow> f x = Inr y \<Longrightarrow> P) \<Longrightarrow> P"
  by (auto simp: bind_result_eq_Inr)

section \<open>Collections of facts\<close>

named_theorems codec_simps \<open>defining equations the codec round trips unfold\<close>
named_theorems roundtrip \<open>decode-after-encode facts\<close>
named_theorems ordered_simps \<open>facts on strictly ascending timestamp lists\<close>

section \<open>Lists\<close>

lemma take_append_exact [simp]: "n = length xs \<Longrightarrow> take n (xs @ ys) = xs"
  by simp

lemma drop_append_exact [simp]: "n = length xs \<Longrightarrow> drop n (xs @ ys) = ys"
  by simp

lemma list_all_take: "list_all P xs \<Longrightarrow> list_all P (take n xs)"
  by (auto simp: list_all_iff dest: in_set_takeD)

lemma list_all_drop: "list_all P xs \<Longrightarrow> list_all P (drop n xs)"
  by (auto simp: list_all_iff dest: in_set_dropD)

lemma takeWhile_length_take:
  "n \<le> length (takeWhile P xs) \<Longrightarrow> list_all P (take n xs)"
  by (metis list_all_iff set_takeWhileD list_all_take takeWhile_eq_take take_take min.absorb1)

section \<open>Words\<close>

text \<open>A value that fits \<open>b\<close> bits is its own low \<open>b\<close> bits.\<close>

lemma take_bit_word_id: "(w :: 'a::len word) < 2 ^ b \<Longrightarrow> b < LENGTH('a) \<Longrightarrow> take_bit b w = w"
  by (metis less_mask_eq take_bit_eq_mask)

lemma unat_exp2:
  assumes "b < LENGTH('a)"
  shows "unat (2 ^ b :: 'a::len word) = 2 ^ b"
proof -
  have "unat (of_nat (2 ^ b) :: 'a word) = 2 ^ b mod 2 ^ LENGTH('a)"
    by (rule unat_of_nat)
  moreover have "(2 :: nat) ^ b < 2 ^ LENGTH('a)"
    using assms by (intro power_strict_increasing) simp_all
  ultimately show ?thesis by simp
qed

lemma le_exp2_minus_1:
  assumes "(v :: 'a::len word) \<le> 2 ^ b - 1" and "b < LENGTH('a)"
  shows "take_bit b v = v"
proof -
  have "0 < unat (2 ^ b :: 'a word)"
    using assms(2) by (simp add: unat_exp2)
  then have "unat (2 ^ b - 1 :: 'a word) = 2 ^ b - 1"
    using assms(2) by (simp add: unat_minus_one unat_exp2 unat_gt_0)
  with assms(1) have "unat v \<le> 2 ^ b - 1" by (simp add: word_le_nat_alt)
  moreover have "(0 :: nat) < 2 ^ b" by simp
  ultimately have "unat v < unat (2 ^ b :: 'a word)"
    unfolding unat_exp2 [OF assms(2)] by linarith
  then show ?thesis
    using assms(2) by (simp add: take_bit_word_id word_less_nat_alt)
qed

lemma take_bit_widen: "take_bit m (w :: 'a::len word) = w \<Longrightarrow> m \<le> n \<Longrightarrow> take_bit n w = w"
  by (metis take_bit_take_bit min.absorb2)

lemma drop_push_bit_id:
  fixes q :: "'a::len word"
  assumes "take_bit (LENGTH('a) - b) q = q"
  shows "drop_bit b (push_bit b q) = q"
proof (rule bit_word_eqI)
  fix n assume "n < LENGTH('a)"
  moreover have "bit q n \<Longrightarrow> n < LENGTH('a) - b"
    using assms by (metis bit_take_bit_iff)
  ultimately show "bit (drop_bit b (push_bit b q)) n = bit q n"
    by (auto simp: bit_simps)
qed

lemma drop_bit_small: "take_bit b (v :: 'a::len word) = v \<Longrightarrow> drop_bit b v = 0"
  by (metis drop_bit_take_bit diff_self_eq_0 take_bit_0)

end
