(* ===== verification/GoBinary.thy ===== *)
theory GoBinary
  imports Prelude
begin

text \<open>
  The part of Go's standard package \<open>encoding/binary\<close> the storage engine uses: big-endian
  words (\<open>BigEndian.PutUint64\<close> and its kin) and unsigned varints (\<open>PutUvarint\<close>,
  \<open>Uvarint\<close>), with the round trips every codec rests on.
\<close>

section \<open>Big-endian words\<close>

text \<open>\<open>be_put n w\<close>: the low \<open>n\<close> bytes of \<open>w\<close>, most significant first.\<close>

fun be_put :: "nat \<Rightarrow> 'a::len word \<Rightarrow> bytes" where
  "be_put 0 w = []"
| "be_put (Suc n) w = be_put n (drop_bit 8 w) @ [ucast w]"

definition be_get :: "bytes \<Rightarrow> 'a::len word" where
  "be_get bs = foldl (\<lambda>a b. push_bit 8 a OR ucast b) 0 bs"

lemma length_be_put [simp]: "length (be_put n w) = n"
  by (induction n arbitrary: w) auto

lemma be_put_Nil_iff [simp]: "be_put n w = [] \<longleftrightarrow> n = 0"
  by (metis length_be_put length_0_conv)

lemma be_get_snoc: "be_get (bs @ [b]) = push_bit 8 (be_get bs) OR ucast b"
  by (simp add: be_get_def)

lemma be_get_Nil [simp]: "be_get [] = 0"
  by (simp add: be_get_def)

lemma bit_be_step:
  fixes w :: "'a::len word"
  shows "push_bit 8 (take_bit m (drop_bit 8 w)) OR ucast (ucast w :: byte) = take_bit (m + 8) w"
  by (rule bit_word_eqI) (auto simp: bit_simps)

lemma be_get_put_take_bit: "be_get (be_put n (w :: 'a::len word)) = take_bit (8 * n) w"
proof (induction n arbitrary: w)
  case 0
  then show ?case by simp
next
  case (Suc n)
  show ?case using bit_be_step [of "8 * n" w] by (simp add: be_get_snoc Suc add.commute)
qed

lemma be_get_put [simp, roundtrip]:
  "8 * n = LENGTH('a) \<Longrightarrow> be_get (be_put n (w :: 'a::len word)) = w"
  by (simp add: be_get_put_take_bit)

text \<open>The widths the source writes.\<close>

abbreviation put_u64 :: "u64 \<Rightarrow> bytes" where "put_u64 \<equiv> be_put 8"
abbreviation put_u32 :: "u32 \<Rightarrow> bytes" where "put_u32 \<equiv> be_put 4"
abbreviation put_u16 :: "u16 \<Rightarrow> bytes" where "put_u16 \<equiv> be_put 2"

text \<open>\<open>BigEndian.Uint64(b)\<close> and its kin read the first bytes of \<open>b\<close>.\<close>

definition get_u64 :: "bytes \<Rightarrow> u64" where "get_u64 b = be_get (take 8 b)"
definition get_u32 :: "bytes \<Rightarrow> u32" where "get_u32 b = be_get (take 4 b)"
definition get_u16 :: "bytes \<Rightarrow> u16" where "get_u16 b = be_get (take 2 b)"

lemma get_put_append [simp, roundtrip]:
  "get_u64 (put_u64 w @ rest) = w" "get_u64 (put_u64 w) = w"
  "get_u32 (put_u32 x @ rest) = x" "get_u32 (put_u32 x) = x"
  "get_u16 (put_u16 y @ rest) = y" "get_u16 (put_u16 y) = y"
  by (simp_all add: get_u64_def get_u32_def get_u16_def)

section \<open>Unsigned varints\<close>

text \<open>\<open>PutUvarint\<close>: seven bits per byte, least significant first, the high bit set on all but the last.\<close>

lemma unat_drop_bit_7_less: "(128 :: u64) \<le> x \<Longrightarrow> unat (drop_bit 7 x) < unat x"
  by (simp add: drop_bit_eq_div unat_div word_le_nat_alt)

function put_uvarint :: "u64 \<Rightarrow> bytes" where
  "put_uvarint x =
     (if 128 \<le> x then (ucast x OR 128) # put_uvarint (drop_bit 7 x) else [ucast x])"
  by pat_completeness auto
termination
  by (relation "measure unat") (auto simp: unat_drop_bit_7_less)

declare put_uvarint.simps [simp del]

text \<open>
  \<open>Uvarint\<close> returns the value and the number of bytes read: 0 when the buffer is too
  short, and minus the number of bytes read when the value overflows 64 bits.
\<close>

fun uvarint_from :: "nat \<Rightarrow> u64 \<Rightarrow> bytes \<Rightarrow> u64 \<times> int" where
  "uvarint_from i x [] = (0, 0)"
| "uvarint_from i x (b # bs) =
     (if i = 10 then (0, - int (i + 1))
      else if b < 128 then
        (if i = 9 \<and> 1 < b then (0, - int (i + 1))
         else (x OR push_bit (7 * i) (ucast b), int (i + 1)))
      else uvarint_from (Suc i) (x OR push_bit (7 * i) (ucast (b AND 127))) bs)"

definition uvarint :: "bytes \<Rightarrow> u64 \<times> int" where
  "uvarint b = uvarint_from 0 0 b"

lemma put_uvarint_not_Nil [simp]: "put_uvarint x \<noteq> []"
  by (subst put_uvarint.simps) simp

lemma length_put_uvarint_pos [simp]: "0 < length (put_uvarint x)"
  by simp

lemma ucast_small_byte:
  "(x :: u64) < 128 \<Longrightarrow> ucast (ucast x :: byte) = x"
proof -
  assume "x < 128"
  then have "take_bit 8 x = x"
    using take_bit_word_id [of x 8] by (simp add: order_less_trans)
  moreover have "ucast (ucast x :: byte) = take_bit 8 x"
    by (rule bit_word_eqI) (auto simp: bit_simps)
  ultimately show ?thesis by simp
qed

lemma ucast_less_byte: "(x :: u64) < n \<Longrightarrow> n \<le> 128 \<Longrightarrow> (ucast x :: byte) < ucast n"
  by (simp add: word_less_nat_alt word_le_nat_alt unsigned_ucast_eq take_bit_eq_mod)

lemma varint_high_bit: "\<not> ((b :: byte) OR 128) < 128"
  using le_word_or2 [of 128 b] by (simp add: not_less or.commute)

lemma varint_low_bits: "ucast (((ucast (x :: u64) :: byte) OR 128) AND 127) = take_bit 7 x"
proof -
  have "(128 :: byte) = push_bit 7 1" and "(127 :: byte) = mask 7"
    by (simp_all add: mask_eq_exp_minus_1)
  moreover have "ucast (((ucast x :: byte) OR push_bit 7 1) AND mask 7) = take_bit 7 x"
    by (rule bit_word_eqI) (auto simp del: push_bit_of_1 simp: bit_simps bit_1_iff)
  ultimately show ?thesis by metis
qed

lemma varint_split: "take_bit 7 (x :: u64) OR push_bit 7 (drop_bit 7 x) = x"
proof (rule bit_word_eqI)
  fix n assume "n < LENGTH(64)"
  then show "bit (take_bit 7 x OR push_bit 7 (drop_bit 7 x)) n = bit x n"
    by (cases "n < 7") (auto simp: bit_simps)
qed

lemma uvarint_from_put:
  "unat x < 2 ^ (64 - 7 * i) \<Longrightarrow> i \<le> 9 \<Longrightarrow>
   uvarint_from i acc (put_uvarint x @ rest) =
     (acc OR push_bit (7 * i) x, int (i + length (put_uvarint x)))"
proof (induction x arbitrary: i acc rule: put_uvarint.induct)
  case (1 x)
  show ?case
  proof (cases "128 \<le> x")
    case False
    then have small: "ucast (ucast x :: byte) = x" "(ucast x :: byte) < 128"
      using ucast_less_byte [of x 128] by (simp_all add: ucast_small_byte not_le)
    have "i = 9 \<Longrightarrow> \<not> 1 < (ucast x :: byte)"
      using "1.prems" ucast_less_byte [of x 2] by (auto simp: word_less_nat_alt not_less)
    with False small "1.prems" show ?thesis
      by (auto simp: put_uvarint.simps [of x])
  next
    case True
    have i8: "i \<le> 8"
    proof (rule ccontr)
      assume "\<not> i \<le> 8"
      with "1.prems" have "i = 9" by simp
      with "1.prems" True show False by (simp add: word_le_nat_alt)
    qed
    have "unat (drop_bit 7 x) < 2 ^ (64 - 7 * Suc i)"
    proof -
      have "64 - 7 * i = (64 - 7 * Suc i) + 7" using i8 by simp
      then have "(2 :: nat) ^ (64 - 7 * i) = 2 ^ (64 - 7 * Suc i) * 2 ^ 7"
        by (simp only: power_add)
      with "1.prems" have "unat x < 2 ^ (64 - 7 * Suc i) * 2 ^ 7" by simp
      then show ?thesis
        by (simp add: drop_bit_eq_div unat_div less_mult_imp_div_less)
    qed
    then have "uvarint_from (Suc i) (acc OR push_bit (7 * i) (take_bit 7 x)) (put_uvarint (drop_bit 7 x) @ rest) =
      (acc OR push_bit (7 * i) (take_bit 7 x) OR push_bit (7 * Suc i) (drop_bit 7 x),
       int (Suc i + length (put_uvarint (drop_bit 7 x))))"
      using "1.IH" [OF True] i8 by (simp add: or.assoc)
    moreover have "push_bit (7 * i) (take_bit 7 x) OR push_bit (7 * Suc i) (drop_bit 7 x) = push_bit (7 * i) x"
      using arg_cong [OF varint_split, of "push_bit (7 * i)" x]
      by (simp add: push_bit_push_bit add.commute)
    ultimately show ?thesis
      using True i8 by (simp add: put_uvarint.simps [of x] varint_high_bit varint_low_bits or.assoc)
  qed
qed

lemma uvarint_put [simp, roundtrip]:
  "uvarint (put_uvarint x @ rest) = (x, int (length (put_uvarint x)))"
  using uvarint_from_put [of x 0 0 rest] unsigned_less [of x] by (simp add: uvarint_def)

lemma uvarint_put_Nil [simp, roundtrip]:
  "uvarint (put_uvarint x) = (x, int (length (put_uvarint x)))"
  using uvarint_put [of x "[]"] by simp

end
