(* ===== verification/Simple8b.thy ===== *)
theory Simple8b
  imports GoBinary
begin

text \<open>
  The integer packing of \<open>pkg/encoding/simple8b/encoding.go\<close>: the selector table with its
  sixteen pack and unpack functions, the one-word \<open>Encode\<close> and \<open>Decode\<close>, and the batch
  \<open>EncodeAll\<close>, \<open>DecodeAll\<close> and \<open>DecodeBytesBigEndian\<close>. Lemmas: a packed word unpacks to
  the values it was packed from, and the batch encoder, which overwrites its input, never
  reads a cell it has written.
\<close>

definition MaxValue :: u64 where
  "MaxValue = 2 ^ 60 - 1"

section \<open>Packing and unpacking one word\<close>

text \<open>\<open>src[0]<<s | src[1]<<(s+bits) | src[2]<<(s+2*bits) | \<dots>\<close>\<close>

fun pack_from :: "nat \<Rightarrow> nat \<Rightarrow> u64 list \<Rightarrow> u64" where
  "pack_from bits s [] = 0"
| "pack_from bits s (v # vs) = push_bit s v OR pack_from bits (s + bits) vs"

definition pack240 :: "u64 list \<Rightarrow> u64" where "pack240 src = 0"
definition pack120 :: "u64 list \<Rightarrow> u64" where "pack120 src = 0"
definition pack60 :: "u64 list \<Rightarrow> u64" where "pack60 src = push_bit 60 2 OR pack_from 1 0 (take 60 src)"
definition pack30 :: "u64 list \<Rightarrow> u64" where "pack30 src = push_bit 60 3 OR pack_from 2 0 (take 30 src)"
definition pack20 :: "u64 list \<Rightarrow> u64" where "pack20 src = push_bit 60 4 OR pack_from 3 0 (take 20 src)"
definition pack15 :: "u64 list \<Rightarrow> u64" where "pack15 src = push_bit 60 5 OR pack_from 4 0 (take 15 src)"
definition pack12 :: "u64 list \<Rightarrow> u64" where "pack12 src = push_bit 60 6 OR pack_from 5 0 (take 12 src)"
definition pack10 :: "u64 list \<Rightarrow> u64" where "pack10 src = push_bit 60 7 OR pack_from 6 0 (take 10 src)"
definition pack8 :: "u64 list \<Rightarrow> u64" where "pack8 src = push_bit 60 8 OR pack_from 7 0 (take 8 src)"
definition pack7 :: "u64 list \<Rightarrow> u64" where "pack7 src = push_bit 60 9 OR pack_from 8 0 (take 7 src)"
definition pack6 :: "u64 list \<Rightarrow> u64" where "pack6 src = push_bit 60 10 OR pack_from 10 0 (take 6 src)"
definition pack5 :: "u64 list \<Rightarrow> u64" where "pack5 src = push_bit 60 11 OR pack_from 12 0 (take 5 src)"
definition pack4 :: "u64 list \<Rightarrow> u64" where "pack4 src = push_bit 60 12 OR pack_from 15 0 (take 4 src)"
definition pack3 :: "u64 list \<Rightarrow> u64" where "pack3 src = push_bit 60 13 OR pack_from 20 0 (take 3 src)"
definition pack2 :: "u64 list \<Rightarrow> u64" where "pack2 src = push_bit 60 14 OR pack_from 30 0 (take 2 src)"
definition pack1 :: "u64 list \<Rightarrow> u64" where "pack1 src = push_bit 60 15 OR pack_from 60 0 (take 1 src)"

text \<open>
  An unpack function writes \<open>dst[k] = (v >> k*bits) & m\<close> for \<open>k < n\<close>; here it returns the
  \<open>n\<close> values written.
\<close>

definition unpack_from :: "nat \<Rightarrow> nat \<Rightarrow> u64 \<Rightarrow> u64 \<Rightarrow> u64 list" where
  "unpack_from n bits m v = map (\<lambda>k. drop_bit (k * bits) v AND m) [0..<n]"

definition unpack240 :: "u64 \<Rightarrow> u64 list" where "unpack240 v = replicate 240 1"
definition unpack120 :: "u64 \<Rightarrow> u64 list" where "unpack120 v = replicate 120 1"
definition unpack60 :: "u64 \<Rightarrow> u64 list" where "unpack60 v = unpack_from 60 1 1 v"
definition unpack30 :: "u64 \<Rightarrow> u64 list" where "unpack30 v = unpack_from 30 2 3 v"
definition unpack20 :: "u64 \<Rightarrow> u64 list" where "unpack20 v = unpack_from 20 3 7 v"
definition unpack15 :: "u64 \<Rightarrow> u64 list" where "unpack15 v = unpack_from 15 4 15 v"
definition unpack12 :: "u64 \<Rightarrow> u64 list" where "unpack12 v = unpack_from 12 5 31 v"
definition unpack10 :: "u64 \<Rightarrow> u64 list" where "unpack10 v = unpack_from 10 6 63 v"
definition unpack8 :: "u64 \<Rightarrow> u64 list" where "unpack8 v = unpack_from 8 7 127 v"
definition unpack7 :: "u64 \<Rightarrow> u64 list" where "unpack7 v = unpack_from 7 8 255 v"
definition unpack6 :: "u64 \<Rightarrow> u64 list" where "unpack6 v = unpack_from 6 10 1023 v"
definition unpack5 :: "u64 \<Rightarrow> u64 list" where "unpack5 v = unpack_from 5 12 4095 v"
definition unpack4 :: "u64 \<Rightarrow> u64 list" where "unpack4 v = unpack_from 4 15 32767 v"
definition unpack3 :: "u64 \<Rightarrow> u64 list" where "unpack3 v = unpack_from 3 20 1048575 v"
definition unpack2 :: "u64 \<Rightarrow> u64 list" where "unpack2 v = unpack_from 2 30 1073741823 v"
definition unpack1 :: "u64 \<Rightarrow> u64 list" where "unpack1 v = unpack_from 1 60 1152921504606846975 v"

text \<open>One row of the selector table.\<close>

record packing =
  pk_n :: nat
  pk_bit :: nat
  pk_unpack :: "u64 \<Rightarrow> u64 list"
  pk_pack :: "u64 list \<Rightarrow> u64"

definition selector :: "packing list" where
  "selector =
    [\<lparr>pk_n = 240, pk_bit = 0, pk_unpack = unpack240, pk_pack = pack240\<rparr>,
     \<lparr>pk_n = 120, pk_bit = 0, pk_unpack = unpack120, pk_pack = pack120\<rparr>,
     \<lparr>pk_n = 60, pk_bit = 1, pk_unpack = unpack60, pk_pack = pack60\<rparr>,
     \<lparr>pk_n = 30, pk_bit = 2, pk_unpack = unpack30, pk_pack = pack30\<rparr>,
     \<lparr>pk_n = 20, pk_bit = 3, pk_unpack = unpack20, pk_pack = pack20\<rparr>,
     \<lparr>pk_n = 15, pk_bit = 4, pk_unpack = unpack15, pk_pack = pack15\<rparr>,
     \<lparr>pk_n = 12, pk_bit = 5, pk_unpack = unpack12, pk_pack = pack12\<rparr>,
     \<lparr>pk_n = 10, pk_bit = 6, pk_unpack = unpack10, pk_pack = pack10\<rparr>,
     \<lparr>pk_n = 8, pk_bit = 7, pk_unpack = unpack8, pk_pack = pack8\<rparr>,
     \<lparr>pk_n = 7, pk_bit = 8, pk_unpack = unpack7, pk_pack = pack7\<rparr>,
     \<lparr>pk_n = 6, pk_bit = 10, pk_unpack = unpack6, pk_pack = pack6\<rparr>,
     \<lparr>pk_n = 5, pk_bit = 12, pk_unpack = unpack5, pk_pack = pack5\<rparr>,
     \<lparr>pk_n = 4, pk_bit = 15, pk_unpack = unpack4, pk_pack = pack4\<rparr>,
     \<lparr>pk_n = 3, pk_bit = 20, pk_unpack = unpack3, pk_pack = pack3\<rparr>,
     \<lparr>pk_n = 2, pk_bit = 30, pk_unpack = unpack2, pk_pack = pack2\<rparr>,
     \<lparr>pk_n = 1, pk_bit = 60, pk_unpack = unpack1, pk_pack = pack1\<rparr>]"

definition sel_of :: "u64 \<Rightarrow> nat" where
  "sel_of v = unat (drop_bit 60 v)"

text \<open>\<open>Count\<close>: the number of integers one word holds.\<close>

definition Count :: "u64 \<Rightarrow> nat result" where
  "Count v = (if 16 \<le> sel_of v then Inl ErrInvalidSelector else Inr (pk_n (selector ! sel_of v)))"

text \<open>\<open>Decode\<close> overwrites the first cells of \<open>dst\<close> and returns their number.\<close>

definition Decode :: "u64 list \<Rightarrow> u64 \<Rightarrow> (u64 list \<times> nat) result" where
  "Decode dst v =
     (if 16 \<le> sel_of v then Inl ErrInvalidSelector
      else let p = selector ! sel_of v
           in Inr (pk_unpack p v @ drop (pk_n p) dst, pk_n p))"

definition canPack :: "u64 list \<Rightarrow> nat \<Rightarrow> nat \<Rightarrow> bool" where
  "canPack src n bits =
     (if length src < n then False
      else if bits = 0 then list_all (\<lambda>v. v = 1) src
      else list_all (\<lambda>s. \<not> s > push_bit bits 1 - 1) (take n src))"

definition Encode :: "u64 list \<Rightarrow> (u64 \<times> nat) result" where
  "Encode src =
    (if canPack src 240 0 then Inr (0, 240)
     else if canPack src 120 0 then Inr (push_bit 60 1, 120)
     else if canPack src 60 1 then Inr (pack60 (take 60 src), 60)
     else if canPack src 30 2 then Inr (pack30 (take 30 src), 30)
     else if canPack src 20 3 then Inr (pack20 (take 20 src), 20)
     else if canPack src 15 4 then Inr (pack15 (take 15 src), 15)
     else if canPack src 12 5 then Inr (pack12 (take 12 src), 12)
     else if canPack src 10 6 then Inr (pack10 (take 10 src), 10)
     else if canPack src 8 7 then Inr (pack8 (take 8 src), 8)
     else if canPack src 7 8 then Inr (pack7 (take 7 src), 7)
     else if canPack src 6 10 then Inr (pack6 (take 6 src), 6)
     else if canPack src 5 12 then Inr (pack5 (take 5 src), 5)
     else if canPack src 4 15 then Inr (pack4 (take 4 src), 4)
     else if canPack src 3 20 then Inr (pack3 (take 3 src), 3)
     else if canPack src 2 30 then Inr (pack2 (take 2 src), 2)
     else if canPack src 1 60 then Inr (pack1 (take 1 src), 1)
     else if 0 < length src then Inl ErrValueOutOfBounds
     else Inr (0, 0))"

section \<open>A packed word unpacks to its values\<close>

text \<open>\<open>decode_word\<close> is what the table's unpack function yields for a word.\<close>

definition decode_word :: "u64 \<Rightarrow> u64 list" where
  "decode_word v = pk_unpack (selector ! sel_of v) v"

lemma pack_from_shift: "pack_from bits s vs = push_bit s (pack_from bits 0 vs)"
proof (induction vs arbitrary: s)
  case (Cons v vs)
  show ?case
    using Cons.IH [of "s + bits"] Cons.IH [of bits] by (simp add: push_bit_push_bit add.commute)
qed simp

lemma pack_from_Cons: "pack_from b 0 (v # vs) = v OR push_bit b (pack_from b 0 vs)"
  using pack_from_shift [of b b vs] by simp

declare pack_from.simps(2) [simp del]

abbreviation fits :: "nat \<Rightarrow> u64 list \<Rightarrow> bool" where
  "fits b vs \<equiv> list_all (\<lambda>v. take_bit b v = v) vs"

lemma pack_from_bound:
  "fits b vs \<Longrightarrow> take_bit (b * length vs) (pack_from b 0 vs) = pack_from b 0 vs"
proof (induction vs)
  case (Cons v vs)
  then have v: "take_bit b v = v"
    and IH: "take_bit (b * length vs) (pack_from b 0 vs) = pack_from b 0 vs"
    by simp_all
  from v have "take_bit (b + b * length vs) v = v"
    by (rule take_bit_widen) simp
  moreover have "take_bit (b + b * length vs) (push_bit b (pack_from b 0 vs)) = push_bit b (pack_from b 0 vs)"
    using IH by (simp add: take_bit_push_bit)
  ultimately show ?case by (simp add: pack_from_Cons)
qed simp

lemma drop_bit_pack_Cons:
  assumes "take_bit b v = v" and "fits b vs" and "b * Suc (length vs) \<le> 60"
  shows "drop_bit b (pack_from b 0 (v # vs)) = pack_from b 0 vs"
proof -
  have "take_bit (64 - b) (pack_from b 0 vs) = pack_from b 0 vs"
    using pack_from_bound [OF assms(2)] by (rule take_bit_widen) (use assms(3) in simp)
  then have "drop_bit b (push_bit b (pack_from b 0 vs)) = pack_from b 0 vs"
    by (simp add: drop_push_bit_id)
  then show ?thesis
    by (simp add: pack_from_Cons drop_bit_small [OF assms(1)])
qed

lemma nth_pack_from:
  "fits b vs \<Longrightarrow> b * length vs \<le> 60 \<Longrightarrow> k < length vs \<Longrightarrow>
   take_bit b (drop_bit (k * b) (pack_from b 0 vs)) = vs ! k"
proof (induction vs arbitrary: k)
  case (Cons v vs)
  show ?case
  proof (cases k)
    case 0
    with Cons.prems show ?thesis by (simp add: pack_from_Cons take_bit_push_bit)
  next
    case (Suc j)
    have "drop_bit b (pack_from b 0 (v # vs)) = pack_from b 0 vs"
      using Cons.prems by (intro drop_bit_pack_Cons) simp_all
    then have "drop_bit (k * b) (pack_from b 0 (v # vs)) = drop_bit (j * b) (pack_from b 0 vs)"
      using Suc by (metis drop_bit_drop_bit mult_Suc add.commute)
    moreover have "take_bit b (drop_bit (j * b) (pack_from b 0 vs)) = vs ! j"
      using Cons.prems Suc by (intro Cons.IH) simp_all
    ultimately show ?thesis using Suc by simp
  qed
qed simp

lemma low_bits_under_selector:
  "m + b \<le> 60 \<Longrightarrow> take_bit b (drop_bit m (push_bit 60 s :: u64)) = 0"
  by (rule bit_word_eqI) (auto simp: bit_simps)

lemma unpack_pack:
  assumes "fits b vs" and "length vs = n" and "n * b \<le> 60"
  shows "unpack_from n b (mask b) (push_bit 60 s OR pack_from b 0 vs) = vs"
proof (rule nth_equalityI)
  show "length (unpack_from n b (mask b) (push_bit 60 s OR pack_from b 0 vs)) = length vs"
    using assms(2) by (simp add: unpack_from_def)
next
  fix k assume "k < length (unpack_from n b (mask b) (push_bit 60 s OR pack_from b 0 vs))"
  then have k: "k < n" by (simp add: unpack_from_def)
  then have "Suc k * b \<le> n * b" by (intro mult_le_mono1) simp
  then have "k * b + b \<le> 60" using assms(3) by (simp add: add.commute)
  moreover have "take_bit b (drop_bit (k * b) (pack_from b 0 vs)) = vs ! k"
    using k assms by (intro nth_pack_from) (simp_all add: mult.commute)
  ultimately show "unpack_from n b (mask b) (push_bit 60 s OR pack_from b 0 vs) ! k = vs ! k"
    using k by (simp add: unpack_from_def low_bits_under_selector flip: take_bit_eq_mask)
qed

lemma sel_of_packed:
  assumes "s < 16" and "take_bit 60 p = p"
  shows "sel_of (push_bit 60 (of_nat s) OR p) = s"
proof -
  have "take_bit 4 (of_nat s :: u64) = of_nat s"
    using assms(1) by (intro take_bit_word_id) (simp_all add: word_less_nat_alt unat_of_nat)
  then have "drop_bit 60 (push_bit 60 (of_nat s :: u64)) = of_nat s"
    by (intro drop_push_bit_id) simp
  with assms show ?thesis
    by (simp add: sel_of_def drop_bit_small unat_of_nat)
qed

text \<open>Rows 2 to 15 of the table are the bit-packed ones: \<open>n\<close> values of \<open>bit\<close> bits each.\<close>

lemma selector_row:
  assumes "2 \<le> s" and "s < 16"
  defines "n \<equiv> pk_n (selector ! s)" and "b \<equiv> pk_bit (selector ! s)"
  shows "pk_unpack (selector ! s) = unpack_from n b (mask b)"
    and "pk_pack (selector ! s) = (\<lambda>src. push_bit 60 (of_nat s) OR pack_from b 0 (take n src))"
    and "n * b \<le> 60" and "0 < n" and "0 < b" and "b \<le> 60"
proof -
  have "s = 2 \<or> s = 3 \<or> s = 4 \<or> s = 5 \<or> s = 6 \<or> s = 7 \<or> s = 8 \<or> s = 9 \<or>
      s = 10 \<or> s = 11 \<or> s = 12 \<or> s = 13 \<or> s = 14 \<or> s = 15"
    using assms(1,2) by presburger
  then show "pk_unpack (selector ! s) = unpack_from n b (mask b)"
    and "pk_pack (selector ! s) = (\<lambda>src. push_bit 60 (of_nat s) OR pack_from b 0 (take n src))"
    and "n * b \<le> 60" and "0 < n" and "0 < b" and "b \<le> 60"
    unfolding n_def b_def selector_def
    by (elim disjE; simp add: fun_eq_iff mask_eq_exp_minus_1
        unpack60_def unpack30_def unpack20_def unpack15_def unpack12_def unpack10_def unpack8_def
        unpack7_def unpack6_def unpack5_def unpack4_def unpack3_def unpack2_def unpack1_def
        pack60_def pack30_def pack20_def pack15_def pack12_def pack10_def pack8_def
        pack7_def pack6_def pack5_def pack4_def pack3_def pack2_def pack1_def)+
qed

lemma decode_word_pack:
  assumes "2 \<le> s" and "s < 16"
    and "fits (pk_bit (selector ! s)) vs" and "length vs = pk_n (selector ! s)"
  shows "decode_word (pk_pack (selector ! s) vs) = vs"
proof -
  note row = selector_row [OF assms(1,2)]
  have "take_bit 60 (pack_from (pk_bit (selector ! s)) 0 vs) = pack_from (pk_bit (selector ! s)) 0 vs"
    using pack_from_bound [OF assms(3)] by (rule take_bit_widen) (use row(3) assms(4) in \<open>simp add: mult.commute\<close>)
  then have "sel_of (pk_pack (selector ! s) vs) = s"
    using sel_of_packed [OF assms(2)] assms(4) by (simp add: row)
  then show ?thesis
    using unpack_pack [OF assms(3,4)] row assms(4) by (simp add: decode_word_def)
qed

lemma decode_word_runs [simp]:
  "decode_word 0 = replicate 240 1"
  "decode_word (push_bit 60 1) = replicate 120 1"
  "decode_word 1152921504606846976 = replicate 120 1"
  by (simp_all add: decode_word_def sel_of_def selector_def unpack240_def unpack120_def)

section \<open>One-word encoding\<close>

lemma canPack_length: "canPack src n bits \<Longrightarrow> n \<le> length src"
  by (auto simp: canPack_def split: if_splits)

lemma fits_if_le:
  "\<not> (v :: u64) > push_bit b 1 - 1 \<Longrightarrow> b \<le> 60 \<Longrightarrow> take_bit b v = v"
  by (rule le_exp2_minus_1) (simp_all add: push_bit_eq_mult not_less)

lemma canPack_fits:
  "canPack src n b \<Longrightarrow> 0 < b \<Longrightarrow> b \<le> 60 \<Longrightarrow> fits b (take n src)"
  by (auto simp: canPack_def list_all_iff fits_if_le split: if_splits)

lemma decode_pack_row:
  assumes "2 \<le> s" and "s < 16"
    and "canPack src (pk_n (selector ! s)) (pk_bit (selector ! s))"
  shows "decode_word (pk_pack (selector ! s) (take (pk_n (selector ! s)) src)) = take (pk_n (selector ! s)) src"
  using canPack_length [OF assms(3)] canPack_fits [OF assms(3)] selector_row [OF assms(1,2)]
  by (intro decode_word_pack [OF assms(1,2)]) simp_all

lemma selector_nth:
  "selector ! 2 = \<lparr>pk_n = 60, pk_bit = 1, pk_unpack = unpack60, pk_pack = pack60\<rparr>"
  "selector ! 3 = \<lparr>pk_n = 30, pk_bit = 2, pk_unpack = unpack30, pk_pack = pack30\<rparr>"
  "selector ! 4 = \<lparr>pk_n = 20, pk_bit = 3, pk_unpack = unpack20, pk_pack = pack20\<rparr>"
  "selector ! 5 = \<lparr>pk_n = 15, pk_bit = 4, pk_unpack = unpack15, pk_pack = pack15\<rparr>"
  "selector ! 6 = \<lparr>pk_n = 12, pk_bit = 5, pk_unpack = unpack12, pk_pack = pack12\<rparr>"
  "selector ! 7 = \<lparr>pk_n = 10, pk_bit = 6, pk_unpack = unpack10, pk_pack = pack10\<rparr>"
  "selector ! 8 = \<lparr>pk_n = 8, pk_bit = 7, pk_unpack = unpack8, pk_pack = pack8\<rparr>"
  "selector ! 9 = \<lparr>pk_n = 7, pk_bit = 8, pk_unpack = unpack7, pk_pack = pack7\<rparr>"
  "selector ! 10 = \<lparr>pk_n = 6, pk_bit = 10, pk_unpack = unpack6, pk_pack = pack6\<rparr>"
  "selector ! 11 = \<lparr>pk_n = 5, pk_bit = 12, pk_unpack = unpack5, pk_pack = pack5\<rparr>"
  "selector ! 12 = \<lparr>pk_n = 4, pk_bit = 15, pk_unpack = unpack4, pk_pack = pack4\<rparr>"
  "selector ! 13 = \<lparr>pk_n = 3, pk_bit = 20, pk_unpack = unpack3, pk_pack = pack3\<rparr>"
  "selector ! 14 = \<lparr>pk_n = 2, pk_bit = 30, pk_unpack = unpack2, pk_pack = pack2\<rparr>"
  "selector ! 15 = \<lparr>pk_n = 1, pk_bit = 60, pk_unpack = unpack1, pk_pack = pack1\<rparr>"
  by (simp_all add: selector_def)

lemmas decode_pack_rows =
  decode_pack_row [of 2, simplified selector_nth packing.simps, simplified]
  decode_pack_row [of 3, simplified selector_nth packing.simps, simplified]
  decode_pack_row [of 4, simplified selector_nth packing.simps, simplified]
  decode_pack_row [of 5, simplified selector_nth packing.simps, simplified]
  decode_pack_row [of 6, simplified selector_nth packing.simps, simplified]
  decode_pack_row [of 7, simplified selector_nth packing.simps, simplified]
  decode_pack_row [of 8, simplified selector_nth packing.simps, simplified]
  decode_pack_row [of 9, simplified selector_nth packing.simps, simplified]
  decode_pack_row [of 10, simplified selector_nth packing.simps, simplified]
  decode_pack_row [of 11, simplified selector_nth packing.simps, simplified]
  decode_pack_row [of 12, simplified selector_nth packing.simps, simplified]
  decode_pack_row [of 13, simplified selector_nth packing.simps, simplified]
  decode_pack_row [of 14, simplified selector_nth packing.simps, simplified]
  decode_pack_row [of 15, simplified selector_nth packing.simps, simplified]

lemma canPack_ones: "canPack src n 0 \<Longrightarrow> take n src = replicate n 1"
  by (auto simp: canPack_def list_all_iff intro!: replicate_eqI dest: in_set_takeD split: if_splits)

lemma Encode_decodes:
  assumes "Encode src = Inr (v, n)" and "src \<noteq> []"
  shows "decode_word v = take n src" and "0 < n" and "n \<le> length src"
proof -
  show "decode_word v = take n src"
    using assms unfolding Encode_def
    by (auto split: if_splits simp: decode_pack_rows canPack_ones)
  show "0 < n" using assms unfolding Encode_def by (auto split: if_splits)
  show "n \<le> length src"
    using assms unfolding Encode_def by (auto split: if_splits dest: canPack_length)
qed

lemma canPack_1_60: "canPack src 1 60 \<longleftrightarrow> src \<noteq> [] \<and> hd src \<le> MaxValue"
  by (cases src) (auto simp: canPack_def MaxValue_def not_less)

lemma canPack_hd:
  assumes "canPack src n b" and "0 < n" and "b \<le> 60"
  shows "hd src \<le> MaxValue"
proof (cases src)
  case Nil
  with assms show ?thesis by (auto simp: canPack_def)
next
  case (Cons v vs)
  show ?thesis
  proof (cases "b = 0")
    case True
    with assms Cons show ?thesis by (auto simp: canPack_def MaxValue_def split: if_splits)
  next
    case False
    then have "take_bit b v = v"
      using canPack_fits [OF assms(1)] assms(2,3) Cons by (cases n) auto
    then have "take_bit 60 v = v" using assms(3) by (rule take_bit_widen)
    then have "v \<le> mask 60" by (metis take_bit_eq_mask word_and_le1)
    then show ?thesis using Cons by (simp add: MaxValue_def mask_eq_exp_minus_1)
  qed
qed

lemma Encode_error_iff: "Encode src = Inl e \<longleftrightarrow> src \<noteq> [] \<and> hd src > MaxValue \<and> e = ErrValueOutOfBounds"
proof (cases "src \<noteq> [] \<and> hd src > MaxValue")
  case True
  then have "\<not> canPack src n b" if "0 < n" "b \<le> 60" for n b
    using that canPack_hd [of src n b] by auto
  with True show ?thesis unfolding Encode_def by auto
next
  case False
  then show ?thesis
    using canPack_1_60 [of src] unfolding Encode_def by (auto split: if_splits)
qed

section \<open>Batch encoding\<close>

text \<open>\<open>{ number of values, max bits per value }\<close>\<close>

definition numBits :: "(nat \<times> nat) list" where
  "numBits = [(60, 1), (30, 2), (20, 3), (15, 4), (12, 5), (10, 6), (8, 7), (7, 8),
     (6, 10), (5, 12), (4, 15), (3, 20), (2, 30), (1, 60)]"

text \<open>The inner loop of \<open>CODES\<close>: \<open>None\<close> is \<open>continue CODES\<close>; the shift is a byte product.\<close>

fun code_loop :: "nat \<Rightarrow> nat \<Rightarrow> nat \<Rightarrow> u64 \<Rightarrow> u64 \<Rightarrow> u64 list \<Rightarrow> u64 option" where
  "code_loop k intN bitN maxVal val [] = Some val"
| "code_loop k intN bitN maxVal val (inV # rest) =
     (if k < intN then
        (if inV \<ge> maxVal then None
         else code_loop (Suc k) intN bitN maxVal
                (val OR push_bit ((k * bitN) mod 256 mod 64) inV) rest)
      else Some val)"

fun try_codes :: "nat \<Rightarrow> (nat \<times> nat) list \<Rightarrow> u64 list \<Rightarrow> (u64 \<times> nat) option" where
  "try_codes code [] remaining = None"
| "try_codes code ((intN, bitN) # codes) remaining =
     (if intN > length remaining then try_codes (Suc code) codes remaining
      else (case code_loop 0 intN bitN (push_bit (bitN mod 64) 1)
                   (push_bit 60 (of_nat (code + 2))) remaining of
              None \<Rightarrow> try_codes (Suc code) codes remaining
            | Some val \<Rightarrow> Some (val, intN)))"

text \<open>
  The run of 1s at the head of \<open>remaining\<close>: \<open>k\<close> is the index of the last 1 of the first
  240 (or 120) values, or -1. \<open>None\<close> is \<open>goto CODES\<close>.
\<close>

definition ones_run :: "u64 list \<Rightarrow> (u64 \<times> nat) option" where
  "ones_run remaining =
     (if 120 \<le> length remaining then
        let a = (if 240 \<le> length remaining then take 240 remaining else take 120 remaining);
            k = int (length (takeWhile (\<lambda>v. v = 1) a)) - 1
        in if k = 239 then Some (0, 240)
           else if 119 \<le> k then Some (push_bit 60 1, 120)
           else None
      else None)"

definition next_word :: "u64 list \<Rightarrow> (u64 \<times> nat) option" where
  "next_word remaining =
     (case ones_run remaining of
        Some r \<Rightarrow> Some r
      | None \<Rightarrow> try_codes 0 numBits remaining)"

lemma code_loop_eq:
  assumes "n * b \<le> 60" and "b \<le> 60"
  shows "n - k \<le> length xs \<Longrightarrow>
    code_loop k n b (2 ^ b) val xs =
      (if list_all (\<lambda>v. v < 2 ^ b) (take (n - k) xs)
       then Some (val OR pack_from b (k * b) (take (n - k) xs)) else None)"
proof (induction xs arbitrary: k val)
  case Nil
  then show ?case by simp
next
  case (Cons x xs)
  show ?case
  proof (cases "k < n")
    case False
    then show ?thesis by simp
  next
    case True
    then have d: "n - k = Suc (n - Suc k)" by simp
    have "k * b \<le> n * b" using True by simp
    then have "k * b \<le> 60" using assms(1) by linarith
    then have shift: "(k * b) mod 256 mod 64 = k * b" by simp
    have "n - Suc k \<le> length xs" using Cons.prems by simp
    from Cons.IH [OF this] True d shift show ?thesis
      by (auto simp: not_le pack_from.simps(2) or.assoc add.commute)
  qed
qed

lemma less_exp2_fits: "b \<le> 60 \<Longrightarrow> (v :: u64) < 2 ^ b \<Longrightarrow> take_bit b v = v"
  by (simp add: take_bit_word_id)

lemma try_codes_cases:
  assumes "0 < n" and "n * b \<le> 60" and "0 < b" and "b \<le> 60"
  shows "try_codes code ((n, b) # codes) xs =
    (if n \<le> length xs \<and> list_all (\<lambda>v. v < 2 ^ b) (take n xs)
     then Some (push_bit 60 (of_nat (code + 2)) OR pack_from b 0 (take n xs), n)
     else try_codes (Suc code) codes xs)"
  using assms by (auto simp: code_loop_eq push_bit_eq_mult not_less)

declare try_codes.simps(2) [simp del]

lemma numBits_row:
  assumes "i < 14"
  shows "numBits ! i = (pk_n (selector ! (i + 2)), pk_bit (selector ! (i + 2)))"
proof -
  have "i = 0 \<or> i = 1 \<or> i = 2 \<or> i = 3 \<or> i = 4 \<or> i = 5 \<or> i = 6 \<or> i = 7 \<or> i = 8 \<or> i = 9 \<or>
      i = 10 \<or> i = 11 \<or> i = 12 \<or> i = 13"
    using assms by presburger
  then show ?thesis
    by (elim disjE) (simp_all add: numBits_def selector_def)
qed

lemma drop_numBits:
  "i < 14 \<Longrightarrow> drop i numBits = (pk_n (selector ! (i + 2)), pk_bit (selector ! (i + 2))) # drop (Suc i) numBits"
proof -
  assume i: "i < 14"
  have "length numBits = 14" by (simp add: numBits_def)
  then have "drop i numBits = numBits ! i # drop (Suc i) numBits"
    using i by (simp add: Cons_nth_drop_Suc)
  then show ?thesis by (simp add: numBits_row [OF i])
qed

lemma try_codes_Some:
  "try_codes i (drop i numBits) xs = Some (v, n) \<Longrightarrow>
   0 < n \<and> n \<le> length xs \<and> decode_word v = take n xs"
proof (induction "14 - i" arbitrary: i)
  case 0
  then show ?case by (simp add: numBits_def)
next
  case (Suc m)
  then have i: "i < 14" by simp
  note row = selector_row [of "i + 2"]
  let ?n = "pk_n (selector ! (i + 2))" and ?b = "pk_bit (selector ! (i + 2))"
  show ?case
  proof (cases "?n \<le> length xs \<and> list_all (\<lambda>v. v < 2 ^ ?b) (take ?n xs)")
    case True
    have "fits ?b (take ?n xs)"
      using True row i by (auto simp: list_all_iff less_exp2_fits)
    then have "decode_word (pk_pack (selector ! (i + 2)) (take ?n xs)) = take ?n xs"
      using True i by (intro decode_word_pack) simp_all
    then show ?thesis
      using Suc.prems True i row by (auto simp: drop_numBits try_codes_cases)
  next
    case False
    then have "try_codes (Suc i) (drop (Suc i) numBits) xs = Some (v, n)"
      using Suc.prems i row by (auto simp: drop_numBits try_codes_cases split: if_splits)
    moreover have "m = 14 - Suc i" using Suc.hyps(2) by simp
    ultimately show ?thesis using Suc.hyps(1) by blast
  qed
qed

lemma try_codes_None:
  "try_codes i (drop i numBits) xs = None \<Longrightarrow> i \<le> 13 \<Longrightarrow> xs \<noteq> [] \<Longrightarrow> hd xs > MaxValue"
proof (induction "13 - i" arbitrary: i)
  case 0
  then have "i = 13" by simp
  moreover have "drop 13 numBits = [(1, 60)]" by (simp add: numBits_def)
  ultimately show ?case
    using 0 by (cases xs)
      (auto simp: try_codes_cases MaxValue_def word_less_nat_alt word_le_nat_alt split: if_splits)
next
  case (Suc m)
  note row = selector_row [of "i + 2"]
  have "try_codes (Suc i) (drop (Suc i) numBits) xs = None"
    using Suc.prems Suc.hyps(2) row by (auto simp: drop_numBits try_codes_cases split: if_splits)
  moreover have "m = 13 - Suc i" and "Suc i \<le> 13" using Suc.hyps(2) by simp_all
  ultimately show ?case using Suc.hyps(1) Suc.prems(3) by blast
qed

lemma ones_run_Some:
  assumes "ones_run xs = Some (v, n)"
  shows "0 < n \<and> n \<le> length xs \<and> decode_word v = take n xs"
proof -
  let ?one = "\<lambda>v :: u64. v = 1"
  have run: "take m xs = replicate m 1"
    if "m \<le> length (takeWhile ?one (take k xs))" "m \<le> k" "k \<le> length xs" for m k
  proof -
    have "list_all ?one (take m (take k xs))"
      using that(1) by (rule takeWhile_length_take)
    with that show ?thesis by (auto intro!: replicate_eqI simp: list_all_iff min_def)
  qed
  show ?thesis
    using assms run [of 240 240] run [of 120 240] run [of 120 120]
    by (auto simp: ones_run_def Let_def split: if_splits)
qed

lemma next_word_Some:
  "next_word xs = Some (v, n) \<Longrightarrow> 0 < n \<and> n \<le> length xs \<and> decode_word v = take n xs"
  using ones_run_Some [of xs v n] try_codes_Some [of 0 xs v n]
  by (auto simp: next_word_def split: option.splits)

lemma next_word_None: "next_word xs = None \<Longrightarrow> xs \<noteq> [] \<Longrightarrow> hd xs > MaxValue"
  using try_codes_None [of 0 xs] by (auto simp: next_word_def split: option.splits)

text \<open>Every value a word unpacks to has at most 60 bits.\<close>

lemma sel_of_less: "sel_of v < 16"
proof -
  have "unat v div 2 ^ 60 < 2 ^ 4"
    using unsigned_less [of v] by (intro less_mult_imp_div_less) simp
  then show ?thesis by (simp add: sel_of_def drop_bit_eq_div unat_div)
qed

lemma and_mask_le_MaxValue: "b \<le> 60 \<Longrightarrow> x AND mask b \<le> MaxValue"
proof -
  assume "b \<le> 60"
  then have "take_bit 60 (take_bit b x) = take_bit b x" by (simp add: min_absorb2)
  then have "take_bit b x \<le> mask 60" by (metis take_bit_eq_mask word_and_le1)
  then show ?thesis by (simp add: MaxValue_def mask_eq_exp_minus_1 take_bit_eq_mask)
qed

lemma decode_word_le: "x \<in> set (decode_word v) \<Longrightarrow> x \<le> MaxValue"
proof -
  assume x: "x \<in> set (decode_word v)"
  consider "sel_of v = 0" | "sel_of v = 1" | "2 \<le> sel_of v" by linarith
  then show ?thesis
  proof cases
    case 3
    note row = selector_row [OF 3 sel_of_less]
    from x row show ?thesis
      by (auto simp: decode_word_def unpack_from_def and_mask_le_MaxValue)
  qed (use x in \<open>auto simp: decode_word_def selector_def unpack240_def unpack120_def MaxValue_def\<close>)
qed

lemma length_decode_word: "length (decode_word v) = pk_n (selector ! sel_of v)"
proof -
  consider "sel_of v = 0" | "sel_of v = 1" | "2 \<le> sel_of v" by linarith
  then show ?thesis
  proof cases
    case 3
    then show ?thesis using selector_row(1) [OF 3 sel_of_less]
      by (simp add: decode_word_def unpack_from_def)
  qed (simp_all add: decode_word_def selector_def unpack240_def unpack120_def)
qed

lemma decode_word_bounds: "0 < length (decode_word v)" "length (decode_word v) \<le> 240"
proof -
  have "\<forall>p \<in> set selector. 0 < pk_n p \<and> pk_n p \<le> 240" by (simp add: selector_def)
  moreover have "selector ! sel_of v \<in> set selector"
    using sel_of_less [of v] by (intro nth_mem) (simp add: selector_def)
  ultimately show "0 < length (decode_word v)" "length (decode_word v) \<le> 240"
    by (auto simp: length_decode_word)
qed

text \<open>
  \<open>EncodeAll\<close> packs in place: \<open>dst\<close> is \<open>src\<close>, so one buffer is both read at \<open>i\<close> and
  written at \<open>j\<close>.
\<close>

function EncodeAll_loop :: "u64 list \<Rightarrow> nat \<Rightarrow> nat \<Rightarrow> u64 list result" where
  "EncodeAll_loop buf i j =
     (if i < length buf then
        (case next_word (drop i buf) of
           None \<Rightarrow> Inl ErrValueOutOfBounds
         | Some (v, n) \<Rightarrow> EncodeAll_loop (buf[j := v]) (i + n) (j + 1))
      else Inr (take j buf))"
  by pat_completeness auto
termination
proof (relation "measure (\<lambda>(buf, i, j). length buf - i)", goal_cases)
  case (2 buf i j p v n)
  then show ?case using next_word_Some [of "drop i buf" v n] by auto
qed simp

declare EncodeAll_loop.simps [simp del]

definition EncodeAll :: "u64 list \<Rightarrow> u64 list result" where
  "EncodeAll src = EncodeAll_loop src 0 0"

text \<open>The reference: the same words, from a source that is not overwritten.\<close>

function encode_words :: "u64 list \<Rightarrow> u64 list result" where
  "encode_words xs =
     (if xs = [] then Inr []
      else (case next_word xs of
              None \<Rightarrow> Inl ErrValueOutOfBounds
            | Some (v, n) \<Rightarrow> bind_result (encode_words (drop n xs)) (\<lambda>ws. Inr (v # ws))))"
  by pat_completeness auto
termination
proof (relation "measure length", goal_cases)
  case (2 xs p v n)
  then show ?case using next_word_Some [of xs v n] by auto
qed simp

declare encode_words.simps [simp del]

lemma EncodeAll_loop_refines:
  "j \<le> i \<Longrightarrow> i \<le> length buf \<Longrightarrow>
   EncodeAll_loop buf i j = bind_result (encode_words (drop i buf)) (\<lambda>ws. Inr (take j buf @ ws))"
proof (induction buf i j rule: EncodeAll_loop.induct)
  case (1 buf i j)
  show ?case
  proof (cases "i < length buf")
    case False
    then show ?thesis by (simp add: EncodeAll_loop.simps [of buf] encode_words.simps)
  next
    case True
    show ?thesis
    proof (cases "next_word (drop i buf)")
      case None
      with True show ?thesis by (simp add: EncodeAll_loop.simps [of buf] encode_words.simps [of "drop i buf"])
    next
      case (Some p)
      obtain v n where p: "p = (v, n)" by (cases p)
      have n: "0 < n" "n \<le> length buf - i"
        using next_word_Some [of "drop i buf" v n] Some p by auto
      then have "EncodeAll_loop (buf[j := v]) (i + n) (j + 1) =
          bind_result (encode_words (drop (i + n) buf)) (\<lambda>ws. Inr (take j buf @ v # ws))"
        using "1.IH" [OF True Some p [symmetric]] "1.prems" True
        by (simp add: drop_update_cancel take_Suc_conv_app_nth take_update_cancel)
      with True Some p show ?thesis
        by (cases "encode_words (drop (i + n) buf)")
          (simp_all add: EncodeAll_loop.simps [of buf] encode_words.simps [of "drop i buf"] add.commute)
    qed
  qed
qed

definition decode_words :: "u64 list \<Rightarrow> u64 list" where
  "decode_words ws = concat (map decode_word ws)"

lemma decode_words_simps [simp]:
  "decode_words [] = []" "decode_words (w # ws) = decode_word w @ decode_words ws"
  "decode_words (us @ ws) = decode_words us @ decode_words ws"
  by (simp_all add: decode_words_def)

lemma encode_words_correct: "encode_words xs = Inr ws \<Longrightarrow> decode_words ws = xs"
proof (induction xs arbitrary: ws rule: encode_words.induct)
  case (1 xs)
  show ?case
  proof (cases "xs = []")
    case False
    with "1.prems" obtain v n us where w: "next_word xs = Some (v, n)"
      "encode_words (drop n xs) = Inr us" "ws = v # us"
      by (auto simp: encode_words.simps [of xs] bind_result_eq_Inr split: option.splits)
    then show ?thesis
      using "1.IH" [OF False w(1) refl w(2)] next_word_Some [OF w(1)] by simp
  qed (use "1.prems" in \<open>simp add: encode_words.simps\<close>)
qed

lemma encode_words_ok: "list_all (\<lambda>v. v \<le> MaxValue) xs \<Longrightarrow> \<exists>ws. encode_words xs = Inr ws"
proof (induction xs rule: encode_words.induct)
  case (1 xs)
  show ?case
  proof (cases "xs = []")
    case False
    with "1.prems" have "hd xs \<le> MaxValue" by (cases xs) auto
    then obtain v n where w: "next_word xs = Some (v, n)"
      using next_word_None [OF _ False] by (cases "next_word xs") auto
    from "1.IH" [OF False w refl list_all_drop [OF "1.prems"]] False w show ?thesis
      by (auto simp: encode_words.simps [of xs])
  qed (simp add: encode_words.simps)
qed

lemma encode_words_error: "encode_words xs = Inl e \<Longrightarrow> e = ErrValueOutOfBounds"
proof (induction xs rule: encode_words.induct)
  case (1 xs)
  then show ?case
    by (auto simp: encode_words.simps [of xs] bind_result_def split: option.splits if_splits sum.splits)
qed

lemma EncodeAll_eq: "EncodeAll src = encode_words src"
  using EncodeAll_loop_refines [of 0 0 src]
  by (cases "encode_words src") (simp_all add: EncodeAll_def)

lemma EncodeAll_decodes [roundtrip]: "EncodeAll src = Inr ws \<Longrightarrow> decode_words ws = src"
  by (simp add: EncodeAll_eq encode_words_correct)

lemma EncodeAll_Inr_iff: "(\<exists>ws. EncodeAll src = Inr ws) \<longleftrightarrow> list_all (\<lambda>v. v \<le> MaxValue) src"
proof
  assume "\<exists>ws. EncodeAll src = Inr ws"
  then obtain ws where "decode_words ws = src"
    using EncodeAll_decodes by blast
  then show "list_all (\<lambda>v. v \<le> MaxValue) src"
    by (auto simp: list_all_iff decode_words_def decode_word_le)
next
  assume "list_all (\<lambda>v. v \<le> MaxValue) src"
  then show "\<exists>ws. EncodeAll src = Inr ws" by (simp add: EncodeAll_eq encode_words_ok)
qed

end
