(* ===== verification/Simple8bStream.thy ===== *)
theory Simple8bStream
  imports Simple8b
begin

text \<open>
  The byte-level half of \<open>pkg/encoding/simple8b/encoding.go\<close>: decoding big-endian words into
  a destination slice, counting, \<open>ForEach\<close> and \<open>CountBytesBetween\<close>, and the streaming
  \<open>Encoder\<close> and \<open>Decoder\<close> with their buffers. Lemmas: the encoder's buffer invariant and
  the sequence it represents, which every operation keeps, and that the decoder's
  \<open>Next\<close>/\<open>Read\<close> loop yields exactly that sequence.
\<close>

section \<open>Words as bytes\<close>

definition words_bytes :: "u64 list \<Rightarrow> bytes" where
  "words_bytes ws = concat (map put_u64 ws)"

lemma words_bytes_simps [simp]:
  "words_bytes [] = []" "words_bytes (w # ws) = put_u64 w @ words_bytes ws"
  "words_bytes (us @ ws) = words_bytes us @ words_bytes ws"
  by (simp_all add: words_bytes_def)

lemma length_words_bytes [simp]: "length (words_bytes ws) = 8 * length ws"
  by (induction ws) simp_all

section \<open>Decoding into a slice\<close>

text \<open>
  The unpack functions write through an unsafe pointer to \<open>dst[j]\<close>, which panics only if
  \<open>j\<close> is out of range. Cells past the end of \<open>dst\<close> are outside the model: the theorems
  give \<open>dst\<close> the length that \<open>CountBytes\<close> computes.
\<close>

definition write_at :: "nat \<Rightarrow> 'a list \<Rightarrow> 'a list \<Rightarrow> 'a list" where
  "write_at j vals dst = take (length dst) (take j dst @ vals @ drop (j + length vals) dst)"

fun DecodeAll_loop :: "u64 list \<Rightarrow> nat \<Rightarrow> u64 list \<Rightarrow> (u64 list \<times> nat) result" where
  "DecodeAll_loop dst j [] = Inr (dst, j)"
| "DecodeAll_loop dst j (v # src) =
     (let sel = unat (drop_bit 60 v AND 15)
      in if length dst \<le> j then Inl Panic
         else DecodeAll_loop (write_at j (pk_unpack (selector ! sel) v) dst) (j + pk_n (selector ! sel)) src)"

definition DecodeAll :: "u64 list \<Rightarrow> u64 list \<Rightarrow> (u64 list \<times> nat) result" where
  "DecodeAll dst src = DecodeAll_loop dst 0 src"

function DecodeBytes_loop :: "u64 list \<Rightarrow> nat \<Rightarrow> bytes \<Rightarrow> (u64 list \<times> nat) result" where
  "DecodeBytes_loop dst j src =
     (if src = [] then Inr (dst, j)
      else let v = get_u64 src; sel = unat (drop_bit 60 v AND 15)
           in if length dst \<le> j then Inl Panic
              else DecodeBytes_loop (write_at j (pk_unpack (selector ! sel) v) dst)
                     (j + pk_n (selector ! sel)) (drop 8 src))"
  by pat_completeness auto
termination by (relation "measure (\<lambda>(dst, j, src). length src)") auto

declare DecodeBytes_loop.simps [simp del]

definition DecodeBytesBigEndian :: "u64 list \<Rightarrow> bytes \<Rightarrow> (u64 list \<times> nat) result" where
  "DecodeBytesBigEndian dst src =
     (if length src mod 8 \<noteq> 0 then Inl ErrNotMultipleOf8 else DecodeBytes_loop dst 0 src)"

lemma sel_mask: "unat (drop_bit 60 v AND 15) = sel_of v" for v :: u64
proof -
  have "drop_bit 60 v < 16" using sel_of_less [of v] by (simp add: sel_of_def word_less_nat_alt)
  then have "take_bit 4 (drop_bit 60 v) = drop_bit 60 v" by (intro take_bit_word_id) simp_all
  then show ?thesis by (simp add: sel_of_def take_bit_eq_mask mask_eq_exp_minus_1)
qed

lemma length_write_at [simp]: "length (write_at j vals dst) = length dst"
  by (simp add: write_at_def)

lemma take_write_at: "j \<le> length dst \<Longrightarrow> j + length vals \<le> length dst \<Longrightarrow>
   take (j + length vals) (write_at j vals dst) = take j dst @ vals"
  by (simp add: write_at_def)

lemma drop_write_at: "j + length vals \<le> m \<Longrightarrow> m \<le> length dst \<Longrightarrow>
   drop m (write_at j vals dst) = drop m dst"
  by (simp add: write_at_def)

lemma DecodeAll_loop_eq:
  "j + length (decode_words ws) \<le> length dst \<Longrightarrow>
   DecodeAll_loop dst j ws =
     Inr (take j dst @ decode_words ws @ drop (j + length (decode_words ws)) dst, j + length (decode_words ws))"
proof (induction ws arbitrary: dst j)
  case Nil
  then show ?case by simp
next
  case (Cons w ws)
  let ?k = "j + length (decode_word w)"
  have "j < length dst" using Cons.prems decode_word_bounds(1) [of w] by (simp del: length_greater_0_conv)
  moreover have "DecodeAll_loop (write_at j (decode_word w) dst) ?k ws =
     Inr ((take j dst @ decode_word w) @ decode_words ws @ drop (?k + length (decode_words ws)) dst,
          ?k + length (decode_words ws))"
    using Cons.prems Cons.IH [of ?k "write_at j (decode_word w) dst"]
    by (simp add: take_write_at drop_write_at)
  ultimately show ?case
    by (simp add: Let_def sel_mask add.assoc flip: decode_word_def length_decode_word)
qed

lemma DecodeBytes_loop_words: "DecodeBytes_loop dst j (words_bytes ws) = DecodeAll_loop dst j ws"
proof (induction ws arbitrary: dst j)
  case Nil
  show ?case by (simp add: DecodeBytes_loop.simps)
next
  case (Cons w ws)
  show ?case
    by (subst DecodeBytes_loop.simps) (simp add: Cons Let_def)
qed

lemma DecodeBytesBigEndian_words [roundtrip]:
  assumes "length (decode_words ws) \<le> length dst"
  shows "DecodeBytesBigEndian dst (words_bytes ws) =
    Inr (decode_words ws @ drop (length (decode_words ws)) dst, length (decode_words ws))"
  using assms DecodeAll_loop_eq [of 0 ws dst]
  by (simp add: DecodeBytesBigEndian_def DecodeBytes_loop_words)

section \<open>Counting\<close>

function CountBytes_loop :: "nat \<Rightarrow> bytes \<Rightarrow> nat result" where
  "CountBytes_loop count b =
     (if 8 \<le> length b then
        (let sel = unat (drop_bit 60 (get_u64 b))
         in if 16 \<le> sel then Inl ErrInvalidSelector
            else CountBytes_loop (count + pk_n (selector ! sel)) (drop 8 b))
      else if 0 < length b then Inl ErrSliceLenRemaining
      else Inr count)"
  by pat_completeness auto
termination by (relation "measure (\<lambda>(count, b). length b)") auto

declare CountBytes_loop.simps [simp del]

definition CountBytes :: "bytes \<Rightarrow> nat result" where
  "CountBytes b = CountBytes_loop 0 b"

text \<open>\<open>fn\<close> may have effects: it maps the value and a state to "go on" and the next state.\<close>

fun ForEach_word :: "nat \<Rightarrow> nat \<Rightarrow> u64 \<Rightarrow> (u64 \<Rightarrow> 's \<Rightarrow> bool \<times> 's) \<Rightarrow> u64 \<Rightarrow> 's \<Rightarrow> bool \<times> 's" where
  "ForEach_word 0 bits m fn v s = (True, s)"
| "ForEach_word (Suc n) bits m fn v s =
     (let (go, s') = fn (v AND m) s
      in if \<not> go then (False, s') else ForEach_word n bits m fn (drop_bit bits v) s')"

function ForEach :: "bytes \<Rightarrow> (u64 \<Rightarrow> 's \<Rightarrow> bool \<times> 's) \<Rightarrow> 's \<Rightarrow> error option \<times> 's" where
  "ForEach b fn s =
     (if 8 \<le> length b then
        (let v = get_u64 b; sel = unat (drop_bit 60 v)
         in if 16 \<le> sel then (Some ErrInvalidSelector, s)
            else let p = selector ! sel;
                     (go, s') = ForEach_word (pk_n p) (pk_bit p) (NOT (push_bit (pk_bit p) (NOT 0))) fn v s
                 in if go then ForEach (drop 8 b) fn s' else (None, s'))
      else (None, s))"
  by pat_completeness auto
termination by (relation "measure (\<lambda>(b, fn, s). length b)") auto

declare ForEach.simps [simp del]

fun between_word :: "nat \<Rightarrow> nat \<Rightarrow> u64 \<Rightarrow> u64 \<Rightarrow> u64 \<Rightarrow> u64 \<Rightarrow> nat \<Rightarrow> nat" where
  "between_word 0 bits m mn mx v count = count"
| "between_word (Suc n) bits m mn mx v count =
     (let val = v AND m
      in if mn \<le> val \<and> val < mx then between_word n bits m mn mx (drop_bit bits v) (count + 1)
         else if mx < val then count
         else between_word n bits m mn mx (drop_bit bits v) count)"

function CountBytesBetween_loop :: "nat \<Rightarrow> bytes \<Rightarrow> u64 \<Rightarrow> u64 \<Rightarrow> nat result" where
  "CountBytesBetween_loop count b mn mx =
     (if 8 \<le> length b then
        (let v = get_u64 b; sel = unat (drop_bit 60 v)
         in if 16 \<le> sel then Inl ErrInvalidSelector
            else let p = selector ! sel
                 in if push_bit (pk_bit p) 1 - 1 < mn then CountBytesBetween_loop count (drop 8 b) mn mx
                    else CountBytesBetween_loop
                           (between_word (pk_n p) (pk_bit p) (NOT (push_bit (pk_bit p) (NOT 0))) mn mx v count)
                           (drop 8 b) mn mx)
      else if 0 < length b then Inl ErrSliceLenRemaining
      else Inr count)"
  by pat_completeness auto
termination by (relation "measure (\<lambda>(count, b, mn, mx). length b)") auto

declare CountBytesBetween_loop.simps [simp del]

definition CountBytesBetween :: "bytes \<Rightarrow> u64 \<Rightarrow> u64 \<Rightarrow> nat result" where
  "CountBytesBetween b mn mx = CountBytesBetween_loop 0 b mn mx"

lemma CountBytes_loop_words:
  "CountBytes_loop count (words_bytes ws) = Inr (count + length (decode_words ws))"
proof (induction ws arbitrary: count)
  case Nil
  show ?case by (simp add: CountBytes_loop.simps)
next
  case (Cons w ws)
  show ?case
    using sel_of_less [of w]
    by (subst CountBytes_loop.simps)
      (simp add: Cons Let_def length_decode_word add.assoc not_le flip: sel_of_def)
qed

lemma CountBytes_words [roundtrip]: "CountBytes (words_bytes ws) = Inr (length (decode_words ws))"
  by (simp add: CountBytes_def CountBytes_loop_words)

section \<open>The streaming encoder\<close>

record s8_encoder =
  e_buf :: "u64 list"
  e_h :: nat
  e_t :: nat
  e_bp :: nat
  e_bytes :: bytes
  e_b :: bytes

definition NewEncoder :: s8_encoder where
  "NewEncoder = \<lparr>e_buf = replicate 240 0, e_h = 0, e_t = 0, e_bp = 0,
     e_bytes = replicate 128 0, e_b = replicate 8 0\<rparr>"

definition Reset :: "s8_encoder \<Rightarrow> s8_encoder" where
  "Reset e = e\<lparr>e_t := 0, e_h := 0, e_bp := 0, e_buf := take 240 (e_buf e),
     e_b := take 8 (e_b e), e_bytes := take 128 (e_bytes e)\<rparr>"

text \<open>The methods return the error, if any, and the encoder they leave behind.\<close>

definition flush :: "s8_encoder \<Rightarrow> error option \<times> s8_encoder" where
  "flush e =
     (if e_t e = 0 then (None, e)
      else if \<not> (e_h e \<le> e_t e \<and> e_t e \<le> length (e_buf e)) then (Some Panic, e)
      else case Encode (drop (e_h e) (take (e_t e) (e_buf e))) of
             Inl err \<Rightarrow> (Some err, e)
           | Inr (encoded, n) \<Rightarrow>
               (let b = put_u64 encoded;
                    e1 = (if length (e_bytes e) < e_bp e + 8
                          then e\<lparr>e_b := b, e_bytes := e_bytes e @ b, e_bp := length (e_bytes e @ b)\<rparr>
                          else e\<lparr>e_b := b, e_bytes := write_at (e_bp e) b (e_bytes e), e_bp := e_bp e + 8\<rparr>);
                    e2 = e1\<lparr>e_h := e_h e + n\<rparr>
                in (None, if e_h e2 = e_t e2 then e2\<lparr>e_h := 0, e_t := 0\<rparr> else e2)))"

definition Write :: "u64 \<Rightarrow> s8_encoder \<Rightarrow> error option \<times> s8_encoder" where
  "Write v e =
     (let (err, e1) = (if length (e_buf e) \<le> e_t e then flush e else (None, e))
      in if err \<noteq> None then (err, e1)
         else let e2 = (if length (e_buf e1) \<le> e_t e1
                        then e1\<lparr>e_buf := drop (e_h e1) (e_buf e1) @ drop (length (e_buf e1) - e_h e1) (e_buf e1),
                                e_t := e_t e1 - e_h e1, e_h := 0\<rparr>
                        else e1)
              in if length (e_buf e2) \<le> e_t e2 then (Some Panic, e2)
                 else (None, e2\<lparr>e_buf := (e_buf e2)[e_t e2 := v], e_t := e_t e2 + 1\<rparr>))"

lemma flush_cases:
  assumes "flush e = (None, e')" and "e_t e \<noteq> 0"
  obtains encoded n where "e_h e \<le> e_t e" and "e_t e \<le> length (e_buf e)"
    and "Encode (drop (e_h e) (take (e_t e) (e_buf e))) = Inr (encoded, n)"
    and "e_buf e' = e_buf e"
    and "e_h e + n = e_t e \<Longrightarrow> e_h e' = 0 \<and> e_t e' = 0"
    and "e_h e + n \<noteq> e_t e \<Longrightarrow> e_h e' = e_h e + n \<and> e_t e' = e_t e"
    and "length (e_bytes e) < e_bp e + 8 \<Longrightarrow>
      e_bytes e' = e_bytes e @ put_u64 encoded \<and> e_bp e' = length (e_bytes e) + 8"
    and "\<not> length (e_bytes e) < e_bp e + 8 \<Longrightarrow>
      e_bytes e' = write_at (e_bp e) (put_u64 encoded) (e_bytes e) \<and> e_bp e' = e_bp e + 8"
  using assms that by (auto simp: flush_def Let_def split: if_splits sum.splits prod.splits)

text \<open>
  \<open>Bytes\<close> flushes until nothing is pending. Each flush packs at least one value, so the
  loop ends.
\<close>

function Bytes :: "s8_encoder \<Rightarrow> bytes result \<times> s8_encoder" where
  "Bytes e =
     (if 0 < e_t e then
        (case flush e of
           (Some err, e') \<Rightarrow> (Inl err, e')
         | (None, e') \<Rightarrow> Bytes e')
      else (if e_bp e \<le> length (e_bytes e) then Inr (take (e_bp e) (e_bytes e)) else Inl Panic, e))"
  by pat_completeness auto
termination
proof (relation "measure (\<lambda>e. if e_t e = 0 then 0 else Suc (e_t e - e_h e))", goal_cases)
  case (2 e p e')
  then have "flush e = (None, e')" and "e_t e \<noteq> 0" by simp_all
  then show ?case
  proof (cases rule: flush_cases)
    case (1 encoded n)
    let ?src = "drop (e_h e) (take (e_t e) (e_buf e))"
    show ?thesis
    proof (cases "?src = []")
      case True
      then have "n = 0" using 1(3) by (simp add: Encode_def canPack_def)
      moreover have "e_h e = e_t e" using True 1(1,2) by simp
      ultimately show ?thesis using 1 \<open>e_t e \<noteq> 0\<close> by simp
    next
      case False
      then have "0 < n" and "n \<le> length ?src" using Encode_decodes [OF 1(3)] by simp_all
      then show ?thesis using 1 \<open>e_t e \<noteq> 0\<close> by (cases "e_h e + n = e_t e") auto
    qed
  qed
qed simp

declare Bytes.simps [simp del]

text \<open>The callers write one value after another and stop at the first error.\<close>

fun write_all :: "u64 list \<Rightarrow> s8_encoder \<Rightarrow> error option \<times> s8_encoder" where
  "write_all [] e = (None, e)"
| "write_all (v # vs) e =
     (case Write v e of (Some err, e') \<Rightarrow> (Some err, e') | (None, e') \<Rightarrow> write_all vs e')"

text \<open>
  The buffer invariant, the values still pending, and the sequence of values an encoder
  represents: what its words decode to, followed by the pending ones.
\<close>

definition enc_inv :: "s8_encoder \<Rightarrow> bool" where
  "enc_inv e \<longleftrightarrow> length (e_buf e) = 240 \<and> e_h e \<le> e_t e \<and> e_t e \<le> 240 \<and> (e_t e = 0 \<or> e_h e < e_t e) \<and>
     8 dvd e_bp e \<and> 8 dvd length (e_bytes e) \<and> e_bp e \<le> length (e_bytes e) \<and> 128 \<le> length (e_bytes e) \<and>
     length (e_b e) = 8"

definition pending :: "s8_encoder \<Rightarrow> u64 list" where
  "pending e = drop (e_h e) (take (e_t e) (e_buf e))"

definition enc_rep :: "s8_encoder \<Rightarrow> u64 list \<Rightarrow> bool" where
  "enc_rep e xs \<longleftrightarrow> enc_inv e \<and> (\<exists>ws. take (e_bp e) (e_bytes e) = words_bytes ws \<and> decode_words ws @ pending e = xs)"

lemma pending_Nil_iff: "enc_inv e \<Longrightarrow> pending e = [] \<longleftrightarrow> e_t e = 0"
  by (auto simp: enc_inv_def pending_def)

lemma enc_rep_New: "enc_rep NewEncoder []"
proof -
  have "take (e_bp NewEncoder) (e_bytes NewEncoder) = words_bytes []" by (simp add: NewEncoder_def)
  moreover have "decode_words [] @ pending NewEncoder = []" by (simp add: NewEncoder_def pending_def)
  moreover have "enc_inv NewEncoder" by (simp add: NewEncoder_def enc_inv_def)
  ultimately show ?thesis unfolding enc_rep_def by blast
qed

lemma enc_rep_Reset: "enc_inv e \<Longrightarrow> enc_rep (Reset e) []"
proof -
  assume inv: "enc_inv e"
  have "take (e_bp (Reset e)) (e_bytes (Reset e)) = words_bytes []" by (simp add: Reset_def)
  moreover have "decode_words [] @ pending (Reset e) = []" by (simp add: Reset_def pending_def)
  moreover have "enc_inv (Reset e)"
    using inv by (auto simp: Reset_def enc_inv_def min_def)
  ultimately show ?thesis unfolding enc_rep_def by blast
qed

lemma flush_empty: "e_t e = 0 \<Longrightarrow> flush e = (None, e)"
  by (simp add: flush_def)

text \<open>The word goes right behind the ones written before, whether the buffer grows or not.\<close>

lemma flush_word_position:
  assumes "8 dvd bp" and "8 dvd length bs" and "bp \<le> length bs"
  shows "length bs < bp + 8 \<Longrightarrow> bp = length bs"
    and "\<not> length bs < bp + 8 \<Longrightarrow> take (bp + 8) (write_at bp (put_u64 w) bs) = take bp bs @ put_u64 w"
proof -
  assume "length bs < bp + 8"
  then show "bp = length bs" using assms by (auto elim!: dvdE)
next
  assume "\<not> length bs < bp + 8"
  then show "take (bp + 8) (write_at bp (put_u64 w) bs) = take bp bs @ put_u64 w"
    using take_write_at [of bp bs "put_u64 w"] by simp
qed

lemma enc_inv_flush:
  assumes "enc_inv e" and "flush e = (None, e')" and "e_t e \<noteq> 0"
  shows "enc_inv e'"
  using assms(2,3)
proof (cases rule: flush_cases)
  case (1 w n)
  have "pending e \<noteq> []" using assms(1,3) by (simp add: pending_Nil_iff)
  then have "0 < n" and "n \<le> length (pending e)"
    using Encode_decodes [of "pending e" w n] 1(3) by (simp_all add: pending_def)
  moreover have "length (e_b e') = 8"
    using assms(2) 1(1,2,3) assms(3) by (auto simp: flush_def Let_def split: if_splits)
  ultimately show ?thesis
    using 1 assms(1) flush_word_position(1) [of "e_bp e" "e_bytes e"]
    by (cases "e_h e + n = e_t e"; cases "length (e_bytes e) < e_bp e + 8")
      (auto simp: enc_inv_def pending_def dvd_add)
qed

lemma flush_pending:
  assumes "enc_inv e" and "flush e = (None, e')" and "e_t e \<noteq> 0"
  shows "\<exists>w n. Encode (pending e) = Inr (w, n) \<and> decode_word w @ pending e' = pending e"
  using assms(2,3)
proof (cases rule: flush_cases)
  case (1 w n)
  have "pending e \<noteq> []" using assms(1,3) by (simp add: pending_Nil_iff)
  then have "decode_word w = take n (pending e)" and "n \<le> length (pending e)"
    using Encode_decodes [of "pending e" w n] 1(3) by (simp_all add: pending_def)
  moreover have "pending e' = drop n (pending e)"
    using 1(4,5,6) by (cases "e_h e + n = e_t e") (auto simp: pending_def add.commute)
  ultimately have "decode_word w @ pending e' = pending e" by simp
  then show ?thesis using 1(3) by (metis pending_def)
qed

lemma enc_rep_flush:
  assumes "enc_rep e xs" and "flush e = (None, e')" and "e_t e \<noteq> 0"
  shows "enc_rep e' xs"
proof -
  from assms(1) obtain ws where inv: "enc_inv e"
    and ws: "take (e_bp e) (e_bytes e) = words_bytes ws" "decode_words ws @ pending e = xs"
    by (auto simp: enc_rep_def)
  from assms(2,3) show ?thesis
  proof (cases rule: flush_cases)
    case (1 w n)
    note pos = flush_word_position [of "e_bp e" "e_bytes e"]
    have "take (e_bp e') (e_bytes e') = words_bytes (ws @ [w])"
      using 1(7,8) pos inv ws(1) by (cases "length (e_bytes e) < e_bp e + 8") (auto simp: enc_inv_def)
    moreover have "decode_word w @ pending e' = pending e"
      using flush_pending [OF inv assms(2,3)] 1(3) by (simp add: pending_def)
    ultimately show ?thesis
      using enc_inv_flush [OF inv assms(2,3)] ws(2) unfolding enc_rep_def
      by (intro conjI exI [of _ "ws @ [w]"]) simp_all
  qed
qed

lemma flush_error_iff:
  assumes "enc_inv e"
  shows "fst (flush e) \<noteq> None \<longleftrightarrow> pending e \<noteq> [] \<and> hd (pending e) > MaxValue"
    and "flush e = (Some err, e') \<Longrightarrow> err = ErrValueOutOfBounds \<and> e' = e"
proof -
  have range: "e_h e \<le> e_t e \<and> e_t e \<le> length (e_buf e)" using assms by (simp add: enc_inv_def)
  show "fst (flush e) \<noteq> None \<longleftrightarrow> pending e \<noteq> [] \<and> hd (pending e) > MaxValue"
  proof (cases "e_t e = 0")
    case False
    then have ne: "pending e \<noteq> []" using assms by (simp add: pending_Nil_iff)
    have "fst (flush e) = (case Encode (pending e) of Inl err \<Rightarrow> Some err | Inr _ \<Rightarrow> None)"
      using False range by (auto simp: flush_def pending_def Let_def split: sum.splits prod.splits)
    then show ?thesis
      using ne Encode_error_iff [of "pending e"] by (cases "Encode (pending e)") auto
  qed (use assms in \<open>simp add: flush_empty pending_Nil_iff\<close>)
  show "flush e = (Some err, e') \<Longrightarrow> err = ErrValueOutOfBounds \<and> e' = e"
    using range Encode_error_iff [of "pending e"]
    by (auto simp: flush_def pending_def Let_def split: if_splits sum.splits prod.splits)
qed

lemma enc_rep_store:
  assumes "enc_rep e xs" and "e_t e < 240"
  shows "enc_rep (e\<lparr>e_buf := (e_buf e)[e_t e := v], e_t := e_t e + 1\<rparr>) (xs @ [v])"
proof -
  from assms(1) obtain ws where inv: "enc_inv e"
    and ws: "take (e_bp e) (e_bytes e) = words_bytes ws" "decode_words ws @ pending e = xs"
    by (auto simp: enc_rep_def)
  let ?e = "e\<lparr>e_buf := (e_buf e)[e_t e := v], e_t := e_t e + 1\<rparr>"
  have "take (Suc (e_t e)) ((e_buf e)[e_t e := v]) = take (e_t e) (e_buf e) @ [v]"
    using inv assms(2) by (simp add: enc_inv_def take_Suc_conv_app_nth)
  then have "pending ?e = pending e @ [v]"
    using inv assms(2) by (simp add: pending_def enc_inv_def)
  moreover have "enc_inv ?e" using inv assms(2) by (auto simp: enc_inv_def)
  ultimately show ?thesis
    using ws unfolding enc_rep_def by (intro conjI exI [of _ ws]) auto
qed

lemma enc_rep_shift:
  assumes "enc_rep e xs" and "e_t e \<noteq> 0"
  shows "enc_rep (e\<lparr>e_buf := drop (e_h e) (e_buf e) @ drop (length (e_buf e) - e_h e) (e_buf e),
    e_t := e_t e - e_h e, e_h := 0\<rparr>) xs"
  using assms by (auto simp: enc_rep_def enc_inv_def pending_def drop_take)

lemma enc_rep_Write_full:
  assumes rep: "enc_rep e xs" and full: "e_t e = 240" and fl: "flush e = (None, e1)"
  shows "\<exists>e'. Write v e = (None, e') \<and> enc_rep e' (xs @ [v])"
proof -
  have inv: "enc_inv e" using rep by (simp add: enc_rep_def)
  have t0: "e_t e \<noteq> 0" using full by simp
  have rep1: "enc_rep e1 xs" by (rule enc_rep_flush [OF rep fl t0])
  then have inv1: "enc_inv e1" by (simp add: enc_rep_def)
  have len: "length (e_buf e) = 240" "length (e_buf e1) = 240" using inv inv1 by (simp_all add: enc_inv_def)
  show ?thesis
  proof (cases "e_t e1 < 240")
    case True
    then show ?thesis using enc_rep_store [OF rep1 True, of v] fl len full by (simp add: Write_def)
  next
    case False
    from fl t0 have "0 < e_h e1"
    proof (cases rule: flush_cases)
      case (1 w n)
      have "pending e \<noteq> []" using inv t0 by (simp add: pending_Nil_iff)
      then have "0 < n" using Encode_decodes(2) [of "pending e" w n] 1(3) by (simp add: pending_def)
      then show ?thesis using 1(5,6) False by (cases "e_h e + n = e_t e") auto
    qed
    then have "e_t e1 - e_h e1 < 240" using inv1 by (auto simp: enc_inv_def)
    moreover have "e_t e1 \<noteq> 0" using False by simp
    ultimately show ?thesis
      using enc_rep_store [OF enc_rep_shift [OF rep1], of v] fl len False full inv1
      by (simp add: Write_def enc_inv_def)
  qed
qed

text \<open>A write succeeds, or the encoder holds a value too large to pack and is left as it was.\<close>

lemma enc_rep_Write:
  assumes rep: "enc_rep e xs"
  shows "(\<exists>e'. Write v e = (None, e') \<and> enc_rep e' (xs @ [v])) \<or>
    (Write v e = (Some ErrValueOutOfBounds, e) \<and> \<not> list_all (\<lambda>v. v \<le> MaxValue) xs)"
proof -
  have inv: "enc_inv e" using rep by (simp add: enc_rep_def)
  then have len: "length (e_buf e) = 240" "e_t e \<le> 240" by (simp_all add: enc_inv_def)
  consider "e_t e < 240" | e1 where "e_t e = 240" "flush e = (None, e1)"
    | err e1 where "e_t e = 240" "flush e = (Some err, e1)"
    using len by (cases "flush e"; cases "fst (flush e)") (auto simp: less_le)
  then show ?thesis
  proof cases
    case 1
    with len show ?thesis using enc_rep_store [OF rep, of v] by (simp add: Write_def)
  next
    case 2
    then show ?thesis using enc_rep_Write_full [OF rep] by simp
  next
    case 3
    have "err = ErrValueOutOfBounds" "e1 = e" using flush_error_iff(2) [OF inv 3(2)] by simp_all
    moreover have "pending e \<noteq> []" "hd (pending e) > MaxValue"
      using flush_error_iff(1) [OF inv] 3(2) by simp_all
    then have "\<not> list_all (\<lambda>v. v \<le> MaxValue) (pending e)" by (cases "pending e") auto
    then have "\<not> list_all (\<lambda>v. v \<le> MaxValue) xs" using rep by (auto simp: enc_rep_def)
    ultimately show ?thesis using 3 len by (simp add: Write_def)
  qed
qed

lemma enc_rep_write_all:
  assumes "enc_rep e xs"
  shows "(\<exists>e'. write_all vs e = (None, e') \<and> enc_rep e' (xs @ vs)) \<or>
    (fst (write_all vs e) = Some ErrValueOutOfBounds \<and> \<not> list_all (\<lambda>v. v \<le> MaxValue) (xs @ vs))"
  using assms
proof (induction vs arbitrary: e xs)
  case (Cons v vs)
  from enc_rep_Write [OF Cons.prems, of v] consider
    e' where "Write v e = (None, e')" "enc_rep e' (xs @ [v])"
    | "Write v e = (Some ErrValueOutOfBounds, e)" "\<not> list_all (\<lambda>v. v \<le> MaxValue) xs" by blast
  then show ?case
  proof cases
    case 1
    then show ?thesis using Cons.IH [OF 1(2)] by simp
  qed simp
qed simp

text \<open>\<open>Bytes\<close> yields words that decode to the whole sequence, or reports the value it cannot pack.\<close>

lemma enc_rep_Bytes:
  "enc_rep e xs \<Longrightarrow>
   (if list_all (\<lambda>v. v \<le> MaxValue) (pending e)
    then \<exists>ws e'. Bytes e = (Inr (words_bytes ws), e') \<and> decode_words ws = xs \<and> enc_rep e' xs
    else fst (Bytes e) = Inl ErrValueOutOfBounds)"
proof (induction e rule: Bytes.induct)
  case (1 e)
  have inv: "enc_inv e" using "1.prems" by (simp add: enc_rep_def)
  consider "e_t e = 0" | e1 where "e_t e \<noteq> 0" "flush e = (None, e1)"
    | err e1 where "e_t e \<noteq> 0" "flush e = (Some err, e1)"
    by (cases "flush e"; cases "fst (flush e)") auto
  then show ?case
  proof cases
    case 1
    then have "pending e = []" using inv by (simp add: pending_Nil_iff)
    moreover have "Bytes e = (Inr (take (e_bp e) (e_bytes e)), e)"
      using 1 inv by (simp add: Bytes.simps [of e] enc_inv_def)
    ultimately show ?thesis using "1.prems" by (auto simp: enc_rep_def)
  next
    case 2
    have rep1: "enc_rep e1 xs" by (rule enc_rep_flush [OF "1.prems" 2(2,1)])
    have "list_all (\<lambda>v. v \<le> MaxValue) (pending e1) = list_all (\<lambda>v. v \<le> MaxValue) (pending e)"
      using flush_pending [OF inv 2(2,1)] decode_word_le by (metis list_all_append list_all_iff)
    then show ?thesis using "1.IH" [OF _ 2(2) [symmetric] refl rep1] 2 by (simp add: Bytes.simps [of e])
  next
    case 3
    have "pending e \<noteq> []" "hd (pending e) > MaxValue"
      using flush_error_iff(1) [OF inv] 3(2) by simp_all
    then have "\<not> list_all (\<lambda>v. v \<le> MaxValue) (pending e)" by (cases "pending e") auto
    then show ?thesis using 3 flush_error_iff(2) [OF inv 3(2)] by (simp add: Bytes.simps [of e])
  qed
qed

section \<open>The streaming decoder\<close>

record s8_decoder =
  d_bytes :: bytes
  d_buf :: "u64 list"
  d_i :: nat
  d_n :: nat

definition NewDecoder :: "bytes \<Rightarrow> s8_decoder" where
  "NewDecoder b = \<lparr>d_bytes = b, d_buf = replicate 240 0, d_i = 0, d_n = 0\<rparr>"

definition SetBytes :: "bytes \<Rightarrow> s8_decoder \<Rightarrow> s8_decoder" where
  "SetBytes b d = d\<lparr>d_bytes := b, d_i := 0, d_n := 0\<rparr>"

definition read_word :: "s8_decoder \<Rightarrow> s8_decoder" where
  "read_word d =
     (if length (d_bytes d) < 8 then d
      else case Decode (d_buf d) (get_u64 (d_bytes d)) of
             Inl err \<Rightarrow> d\<lparr>d_bytes := drop 8 (d_bytes d), d_n := 0, d_i := 0\<rparr>
           | Inr (buf, n) \<Rightarrow> d\<lparr>d_bytes := drop 8 (d_bytes d), d_buf := buf, d_n := n, d_i := 0\<rparr>)"

definition Next :: "s8_decoder \<Rightarrow> bool \<times> s8_decoder" where
  "Next d =
     (let d1 = d\<lparr>d_i := d_i d + 1\<rparr>;
          d2 = (if d_n d1 \<le> d_i d1 then read_word d1 else d1)
      in (8 \<le> length (d_bytes d2) \<or> d_i d2 < d_n d2, d2))"

definition Read :: "s8_decoder \<Rightarrow> u64 result" where
  "Read d = (if d_i d < length (d_buf d) then Inr (d_buf d ! d_i d) else Inl Panic)"

lemma Decode_eq: "Decode dst v = Inr (decode_word v @ drop (length (decode_word v)) dst, length (decode_word v))"
  using sel_of_less [of v] by (simp add: Decode_def Let_def length_decode_word flip: decode_word_def)

lemma Next_unfold:
  "Next d =
     (if d_i d + 1 < d_n d then (True, d\<lparr>d_i := d_i d + 1\<rparr>)
      else if length (d_bytes d) < 8 then (False, d\<lparr>d_i := d_i d + 1\<rparr>)
      else let w = decode_word (get_u64 (d_bytes d))
           in (True, d\<lparr>d_bytes := drop 8 (d_bytes d), d_buf := w @ drop (length w) (d_buf d), d_n := length w, d_i := 0\<rparr>))"
  using decode_word_bounds(1) by (auto simp: Next_def read_word_def Decode_eq Let_def)

text \<open>The client's loop: \<open>for dec.Next() \{ out = append(out, dec.Read()) \}\<close>.\<close>

function collect :: "s8_decoder \<Rightarrow> u64 list result" where
  "collect d =
     (let (more, d') = Next d
      in if more then bind_result (Read d') (\<lambda>v. bind_result (collect d') (\<lambda>vs. Inr (v # vs))) else Inr [])"
  by pat_completeness auto
termination
proof (relation "measure (\<lambda>d. 241 * length (d_bytes d) + (d_n d - d_i d))", goal_cases)
  case (2 d p more d' v)
  then have "Next d = (True, d')" by simp
  then show ?case
    using decode_word_bounds(2) [of "get_u64 (d_bytes d)"]
    by (auto simp: Next_unfold Let_def split: if_splits)
qed simp

declare collect.simps [simp del]

lemma collect_eq:
  "d_bytes d = words_bytes ws \<Longrightarrow> length (d_buf d) = 240 \<Longrightarrow> d_n d \<le> 240 \<Longrightarrow>
   collect d = Inr (drop (Suc (d_i d)) (take (d_n d) (d_buf d)) @ decode_words ws)"
proof (induction d arbitrary: ws rule: collect.induct)
  case (1 d)
  consider "Suc (d_i d) < d_n d" | "d_n d \<le> Suc (d_i d)" "ws = []"
    | w us where "d_n d \<le> Suc (d_i d)" "ws = w # us"
    using not_less by (cases ws) blast+
  then show ?case
  proof cases
    case 1
    let ?d = "d\<lparr>d_i := d_i d + 1\<rparr>"
    have nx: "Next d = (True, ?d)" using 1 by (simp add: Next_unfold)
    have rd: "Read ?d = Inr (d_buf d ! Suc (d_i d))" using 1 "1.prems" by (simp add: Read_def)
    have "collect ?d = Inr (drop (Suc (Suc (d_i d))) (take (d_n d) (d_buf d)) @ decode_words ws)"
      using "1.IH" [OF nx [symmetric] refl TrueI, of ws] "1.prems" by simp
    moreover have "drop (Suc (d_i d)) (take (d_n d) (d_buf d)) =
        d_buf d ! Suc (d_i d) # drop (Suc (Suc (d_i d))) (take (d_n d) (d_buf d))"
      using 1 "1.prems" by (subst Cons_nth_drop_Suc [symmetric]) simp_all
    ultimately show ?thesis using nx rd by (simp add: collect.simps [of d])
  next
    case 2
    then show ?thesis using "1.prems" by (simp add: collect.simps [of d] Next_unfold)
  next
    case 3
    let ?w = "decode_word w"
    let ?d = "d\<lparr>d_bytes := words_bytes us, d_buf := ?w @ drop (length ?w) (d_buf d), d_n := length ?w, d_i := 0\<rparr>"
    have nx: "Next d = (True, ?d)" using 3 "1.prems" by (simp add: Next_unfold Let_def)
    obtain x xs where w: "?w = x # xs" using decode_word_bounds(1) [of w] by (cases ?w) auto
    then have rd: "Read ?d = Inr x" by (simp add: Read_def)
    have "collect ?d = Inr (xs @ decode_words us)"
      using "1.IH" [OF nx [symmetric] refl TrueI, of us] decode_word_bounds(2) [of w] "1.prems" w by simp
    then show ?thesis using nx rd 3 w "1.prems" by (simp add: collect.simps [of d])
  qed
qed

text \<open>The decoder the loop leaves behind.\<close>

function drain :: "s8_decoder \<Rightarrow> s8_decoder" where
  "drain d = (let (more, d') = Next d in if more then drain d' else d')"
  by pat_completeness auto
termination
proof (relation "measure (\<lambda>d. 241 * length (d_bytes d) + (d_n d - d_i d))", goal_cases)
  case (2 d p more d')
  then have "Next d = (True, d')" by simp
  then show ?case
    using decode_word_bounds(2) [of "get_u64 (d_bytes d)"]
    by (auto simp: Next_unfold Let_def split: if_splits)
qed simp

declare drain.simps [simp del]

lemma length_buf_drain: "length (d_buf d) = 240 \<Longrightarrow> length (d_buf (drain d)) = 240"
proof (induction d rule: drain.induct)
  case (1 d)
  obtain more d' where nx: "Next d = (more, d')" by fastforce
  then have "length (d_buf d') = 240"
    using "1.prems" decode_word_bounds(2) [of "get_u64 (d_bytes d)"]
    by (auto simp: Next_unfold Let_def split: if_splits)
  then show ?case using "1.IH" [OF nx [symmetric]] nx by (simp add: drain.simps [of d])
qed

lemma collect_SetBytes [roundtrip]:
  "length (d_buf d) = 240 \<Longrightarrow> collect (SetBytes (words_bytes ws) d) = Inr (decode_words ws)"
  using collect_eq [of "SetBytes (words_bytes ws) d" ws] by (simp add: SetBytes_def)

section \<open>Properties\<close>

text \<open>
  C1: The batch encoder and decoder are inverse. Whenever \<open>EncodeAll\<close>, which overwrites the
  slice it reads, succeeds, \<open>DecodeAll\<close> of its words into any slice that is long enough
  restores exactly the source values at the front, leaves the rest of the slice alone, and
  returns their number.
\<close>

theorem EncodeAll_DecodeAll:
  assumes "EncodeAll src = Inr ws" and "length src \<le> length dst"
  shows "DecodeAll dst ws = Inr (src @ drop (length src) dst, length src)"
  using DecodeAll_loop_eq [of 0 ws dst] EncodeAll_decodes [OF assms(1)] assms(2)
  by (simp add: DecodeAll_def)

lemma EncodeAll_single: "EncodeAll [7] = Inr [17293822569102704647]"
  by code_simp

theorem EncodeAll_DecodeAll_witness:
  "EncodeAll [7] = Inr [17293822569102704647] \<and> DecodeAll [0, 0] [17293822569102704647] = Inr ([7, 0], 1)"
  using EncodeAll_DecodeAll [OF EncodeAll_single, of "[0, 0]"] EncodeAll_single by simp

lemma length_decode_words: "length ws \<le> length (decode_words ws)"
proof (induction ws)
  case (Cons w ws)
  then show ?case using decode_word_bounds(1) [of w] by (simp del: length_greater_0_conv)
qed simp

lemma length_encode_words: "encode_words xs = Inr ws \<Longrightarrow> length ws \<le> length xs"
  using length_decode_words [of ws] by (simp add: encode_words_correct)

text \<open>
  C2: \<open>EncodeAll\<close> succeeds exactly when every value fits 60 bits, and then never produces
  more words than there are values (so writing in place is within bounds); otherwise it
  reports that a value is out of bounds.
\<close>

theorem EncodeAll_succeeds_iff:
  "case EncodeAll src of
     Inr ws \<Rightarrow> list_all (\<lambda>v. v \<le> MaxValue) src \<and> length ws \<le> length src
   | Inl err \<Rightarrow> err = ErrValueOutOfBounds \<and> \<not> list_all (\<lambda>v. v \<le> MaxValue) src"
proof (cases "EncodeAll src")
  case (Inl err)
  then show ?thesis
    using EncodeAll_Inr_iff [of src] by (auto simp: EncodeAll_eq encode_words_error)
next
  case (Inr ws)
  then show ?thesis
    using EncodeAll_Inr_iff [of src] by (auto simp: EncodeAll_eq length_encode_words)
qed

text \<open>
  C3: Writing any sequence of values to a fresh streaming encoder and asking for its bytes
  either yields bytes from which the streaming decoder reads back exactly that sequence and
  for which \<open>CountBytes\<close> returns its length, all values being at most \<open>MaxValue\<close>, or reports
  \<open>value out of bounds\<close>, and then some value is larger.
\<close>

theorem encoder_stream_roundtrip:
  "case write_all vs NewEncoder of
     (None, e) \<Rightarrow>
       (case fst (Bytes e) of
          Inr bs \<Rightarrow> collect (NewDecoder bs) = Inr vs \<and> CountBytes bs = Inr (length vs) \<and>
            list_all (\<lambda>v. v \<le> MaxValue) vs
        | Inl err \<Rightarrow> err = ErrValueOutOfBounds \<and> \<not> list_all (\<lambda>v. v \<le> MaxValue) vs)
   | (Some err, e) \<Rightarrow> err = ErrValueOutOfBounds \<and> \<not> list_all (\<lambda>v. v \<le> MaxValue) vs"
proof (cases "fst (write_all vs NewEncoder)")
  case None
  then obtain e where w: "write_all vs NewEncoder = (None, e)" "enc_rep e vs"
    using enc_rep_write_all [OF enc_rep_New, of vs] by auto
  show ?thesis
  proof (cases "list_all (\<lambda>v. v \<le> MaxValue) (pending e)")
    case True
    then obtain ws e' where b: "Bytes e = (Inr (words_bytes ws), e')" "decode_words ws = vs"
      using enc_rep_Bytes [OF w(2)] by auto
    moreover have "collect (NewDecoder (words_bytes ws)) = Inr vs"
      using collect_eq [of "NewDecoder (words_bytes ws)" ws] b(2) by (simp add: NewDecoder_def)
    moreover have "list_all (\<lambda>v. v \<le> MaxValue) (decode_words ws)"
      by (auto simp: decode_words_def list_all_iff decode_word_le)
    ultimately show ?thesis using w by (simp add: CountBytes_words)
  next
    case False
    then have "\<not> list_all (\<lambda>v. v \<le> MaxValue) vs" using w(2) by (auto simp: enc_rep_def)
    then show ?thesis using enc_rep_Bytes [OF w(2)] False w(1) by simp
  qed
next
  case (Some err)
  then show ?thesis
    using enc_rep_write_all [OF enc_rep_New, of vs] by (auto split: prod.splits)
qed

text \<open>
  The encoders a client can reach, with the values accepted since the last \<open>Reset\<close>. A
  failed \<open>Write\<close> and a failed \<open>Bytes\<close> leave the encoder in use.
\<close>

inductive enc_trace :: "s8_encoder \<Rightarrow> u64 list \<Rightarrow> bool" where
  trace_new: "enc_trace NewEncoder []"
| trace_write: "enc_trace e xs \<Longrightarrow> Write v e = (None, e') \<Longrightarrow> enc_trace e' (xs @ [v])"
| trace_write_error: "enc_trace e xs \<Longrightarrow> Write v e = (Some err, e') \<Longrightarrow> enc_trace e' xs"
| trace_bytes: "enc_trace e xs \<Longrightarrow> Bytes e = (r, e') \<Longrightarrow> enc_trace e' xs"
| trace_reset: "enc_trace e xs \<Longrightarrow> enc_trace (Reset e) []"

lemma enc_rep_after_Bytes: "enc_rep e xs \<Longrightarrow> enc_rep (snd (Bytes e)) xs"
proof (induction e rule: Bytes.induct)
  case (1 e)
  show ?case
  proof (cases "e_t e = 0")
    case False
    obtain r e1 where fl: "flush e = (r, e1)" by fastforce
    show ?thesis
    proof (cases r)
      case None
      then have rep1: "enc_rep e1 xs" using enc_rep_flush [OF "1.prems"] fl False by simp
      then show ?thesis
        using "1.IH" [OF _ fl [symmetric] None] False fl None by (simp add: Bytes.simps [of e])
    next
      case (Some err)
      then have "e1 = e" using flush_error_iff(2) [of e err e1] "1.prems" fl by (simp add: enc_rep_def)
      then show ?thesis using False fl Some "1.prems" by (simp add: Bytes.simps [of e])
    qed
  qed (use "1.prems" in \<open>simp add: Bytes.simps [of e]\<close>)
qed

lemma enc_trace_rep: "enc_trace e xs \<Longrightarrow> enc_rep e xs"
proof (induction rule: enc_trace.induct)
  case (trace_write e xs v e')
  then show ?case using enc_rep_Write [of e xs v] by auto
next
  case (trace_write_error e xs v err e')
  then show ?case using enc_rep_Write [of e xs v] by auto
next
  case (trace_bytes e xs r e')
  then show ?case using enc_rep_after_Bytes [of e xs] by simp
next
  case (trace_reset e xs)
  then show ?case using enc_rep_Reset by (simp add: enc_rep_def)
qed (rule enc_rep_New)

text \<open>
  C4: In every state a client can bring a streaming encoder to, by any sequence of writes,
  byte requests (failing ones included) and resets, the buffer indices satisfy the
  invariant, and a successful \<open>Bytes\<close> returns an encoding of exactly the values accepted
  since the last reset.
\<close>

theorem encoder_trace_refines_sequence:
  assumes "enc_trace e xs"
  shows "enc_inv e \<and> (\<forall>bs. fst (Bytes e) = Inr bs \<longrightarrow> collect (NewDecoder bs) = Inr xs)"
proof (intro conjI allI impI)
  have rep: "enc_rep e xs" using assms by (rule enc_trace_rep)
  then show "enc_inv e" by (simp add: enc_rep_def)
  fix bs assume "fst (Bytes e) = Inr bs"
  then obtain ws where "bs = words_bytes ws" "decode_words ws = xs"
    using enc_rep_Bytes [OF rep] by (auto split: if_splits)
  then show "collect (NewDecoder bs) = Inr xs"
    using collect_eq [of "NewDecoder bs" ws] by (simp add: NewDecoder_def)
qed

lemma enc_trace_one: "enc_trace (snd (Write 3 NewEncoder)) [3]"
proof -
  have "Write 3 NewEncoder = (None, snd (Write 3 NewEncoder))"
    by (simp add: Write_def NewEncoder_def)
  then show ?thesis using trace_write [OF trace_new] by fastforce
qed

theorem encoder_trace_refines_sequence_witness:
  "enc_trace (snd (Write 3 NewEncoder)) [3] \<and> enc_inv (snd (Write 3 NewEncoder)) \<and>
   fst (Bytes (snd (Write 3 NewEncoder))) = Inr [240, 0, 0, 0, 0, 0, 0, 3] \<and>
   collect (NewDecoder [240, 0, 0, 0, 0, 0, 0, 3]) = Inr [3]"
proof -
  have "fst (Bytes (snd (Write 3 NewEncoder))) = Inr [240, 0, 0, 0, 0, 0, 0, 3]"
    by code_simp
  then show ?thesis using encoder_trace_refines_sequence [OF enc_trace_one] enc_trace_one by blast
qed

end
