(* ===== verification/CodecUtils.thy ===== *)
theory CodecUtils
  imports Simple8bStream
begin

text \<open>
  The helpers the codecs of \<open>storage/codec\<close> share: zig-zag integers, block type bytes and the
  layout of a block (\<open>utils.go\<close>), the powers of ten the encoders scale by, and in-place delta
  and prefix-sum coding with the list functions that describe it.
\<close>

section \<open>Zig-zag integers\<close>

text \<open>An \<open>int64\<close> is its 64 bits; \<open>>>\<close> on it is \<open>signed_drop_bit\<close>.\<close>

definition ZigZagEncode :: "u64 \<Rightarrow> u64" where
  "ZigZagEncode x = push_bit 1 x XOR signed_drop_bit 63 x"

definition ZigZagDecode :: "u64 \<Rightarrow> u64" where
  "ZigZagDecode v = drop_bit 1 v XOR signed_drop_bit 63 (push_bit 63 (v AND 1))"

lemma bit_ZigZagEncode:
  "bit (ZigZagEncode x) n \<longleftrightarrow> n < 64 \<and> ((0 < n \<and> bit x (n - 1)) \<noteq> bit x 63)"
  unfolding ZigZagEncode_def bit_xor_iff bit_push_bit_iff bit_signed_drop_bit_iff
  by (cases "n = 0") (auto dest: bit_imp_le_length)

lemma bit_ZigZagDecode:
  "bit (ZigZagDecode v) n \<longleftrightarrow> n < 64 \<and> ((n < 63 \<and> bit v (Suc n)) \<noteq> bit v 0)"
  unfolding ZigZagDecode_def
  by (auto simp: bit_xor_iff bit_drop_bit_eq bit_push_bit_iff bit_signed_drop_bit_iff bit_and_iff
      dest: bit_imp_le_length)

lemma ZigZag_roundtrip [simp, roundtrip]: "ZigZagDecode (ZigZagEncode x) = x"
proof (rule bit_word_eqI)
  fix n assume "n < LENGTH(64)"
  then show "bit (ZigZagDecode (ZigZagEncode x)) n = bit x n"
    by (cases "n = 63") (auto simp: bit_ZigZagDecode bit_ZigZagEncode)
qed

lemma ZigZag_surj: "ZigZagEncode (ZigZagDecode v) = v"
proof (rule bit_word_eqI)
  fix n assume "n < LENGTH(64)"
  then show "bit (ZigZagEncode (ZigZagDecode v)) n = bit v n"
    by (cases n) (auto simp: bit_ZigZagDecode bit_ZigZagEncode)
qed

section \<open>Block types\<close>

definition BlockFloat64 :: byte where "BlockFloat64 = 0"
definition BlockInteger :: byte where "BlockInteger = 1"
definition BlockBoolean :: byte where "BlockBoolean = 2"
definition BlockString :: byte where "BlockString = 3"
definition BlockUnsigned :: byte where "BlockUnsigned = 4"
definition BlockValuePtrMask :: byte where "BlockValuePtrMask = 128"
definition encodedBlockHeaderSize :: nat where "encodedBlockHeaderSize = 1"

definition GetBaseType :: "byte \<Rightarrow> byte" where
  "GetBaseType b = b AND NOT BlockValuePtrMask"

definition WithPtrFlag :: "byte \<Rightarrow> byte" where
  "WithPtrFlag b = b OR BlockValuePtrMask"

definition BlockType :: "bytes \<Rightarrow> byte result" where
  "BlockType block =
     (case block of
        [] \<Rightarrow> Inl Panic
      | b # _ \<Rightarrow>
          (let blockType = b AND NOT BlockValuePtrMask
           in if blockType \<in> {BlockFloat64, BlockInteger, BlockUnsigned, BlockBoolean, BlockString}
              then Inr blockType else Inl ErrUnknownBlockType))"

definition IsPtrBlock :: "bytes \<Rightarrow> bool result" where
  "IsPtrBlock block =
     (case block of [] \<Rightarrow> Inl Panic | b # _ \<Rightarrow> Inr (b AND BlockValuePtrMask \<noteq> 0))"

definition PtrBlockCount :: "bytes \<Rightarrow> nat result" where
  "PtrBlockCount block =
     (case block of [] \<Rightarrow> Inl Panic | b # _ \<Rightarrow> Inr (unat (b AND NOT BlockValuePtrMask)))"

lemmas block_type_defs = BlockFloat64_def BlockInteger_def BlockBoolean_def BlockString_def
  BlockUnsigned_def BlockValuePtrMask_def

lemma GetBaseType_WithPtrFlag: "GetBaseType (WithPtrFlag b) = GetBaseType b"
  unfolding GetBaseType_def WithPtrFlag_def by (rule bit_word_eqI) (auto simp: bit_simps)

lemma IsPtrBlock_WithPtrFlag: "IsPtrBlock (WithPtrFlag b # rest) = Inr True"
proof -
  have "(b OR 128) AND 128 = (128 :: byte)" by (simp add: and.commute or.commute)
  then show ?thesis by (simp add: IsPtrBlock_def WithPtrFlag_def BlockValuePtrMask_def)
qed

section \<open>The layout of a block\<close>

definition packBlock :: "byte \<Rightarrow> bytes \<Rightarrow> bytes \<Rightarrow> bytes" where
  "packBlock typ ts values = typ # put_uvarint (of_nat (length ts)) @ ts @ values"

text \<open>\<open>tsIdx\<close> is computed in \<open>int\<close>, so a huge length wraps to a negative index and the slice expression panics.\<close>

definition unpackBlock :: "bytes \<Rightarrow> (bytes \<times> bytes) result" where
  "unpackBlock buf =
     (let (tsLen, i) = uvarint buf
      in if i \<le> 0 then Inl ErrTimestampLength
         else let tsIdx = sint (word_of_int i + tsLen)
              in if int (length buf) < tsIdx then Inl ErrTimestampData
                 else if tsIdx < i then Inl Panic
                 else Inr (drop (nat i) (take (nat tsIdx) buf), drop (nat tsIdx) buf))"

lemma length_put_uvarint_le: "unat x < 2 ^ (7 * k) \<Longrightarrow> 0 < k \<Longrightarrow> length (put_uvarint x) \<le> k"
proof (induction x arbitrary: k rule: put_uvarint.induct)
  case (1 x)
  show ?case
  proof (cases "128 \<le> x")
    case True
    then have "k \<noteq> 1" using "1.prems" by (auto simp: word_le_nat_alt)
    then obtain m where k: "k = Suc m" "0 < m" using "1.prems"(2) by (cases k) auto
    have "unat x < 2 ^ (7 * m) * 2 ^ 7"
      using "1.prems"(1) k by (simp add: power_add mult.commute)
    then have "unat (drop_bit 7 x) < 2 ^ (7 * m)"
      by (simp add: drop_bit_eq_div unat_div less_mult_imp_div_less)
    then show ?thesis using "1.IH" [OF True _ k(2)] k True by (simp add: put_uvarint.simps [of x])
  qed (use "1.prems" in \<open>simp add: put_uvarint.simps [of x]\<close>)
qed

lemma length_put_uvarint: "length (put_uvarint x) \<le> 10"
proof -
  have "unat x < 2 ^ 64" using unsigned_less [of x] by simp
  also have "(2 :: nat) ^ 64 \<le> 2 ^ (7 * 10)" by (intro power_increasing) simp_all
  finally show ?thesis by (rule length_put_uvarint_le) simp
qed

lemma unpackBlock_packBlock [roundtrip]:
  assumes "length ts < 2 ^ 62"
  shows "unpackBlock (tl (packBlock typ ts values)) = Inr (ts, values)"
proof -
  let ?n = "length (put_uvarint (of_nat (length ts)))"
  have n: "?n \<le> 10" by (rule length_put_uvarint)
  then have b: "int ?n + int (length ts) < 2 ^ 63" using assms by simp
  have "sint (word_of_int (int ?n) + of_nat (length ts) :: u64) = int ?n + int (length ts)"
  proof -
    have "word_of_int (int ?n) + of_nat (length ts) = (word_of_int (int ?n + int (length ts)) :: u64)"
      by simp
    moreover have "sint (word_of_int (int ?n + int (length ts)) :: u64) = int ?n + int (length ts)"
      using b by (simp only: sint_sbintrunc') (simp add: signed_take_bit_int_eq_self_iff)
    ultimately show ?thesis by metis
  qed
  then show ?thesis
    by (simp add: unpackBlock_def packBlock_def Let_def nat_add_distrib)
qed

end
