(* ===== verification/TimeCodec.thy ===== *)
theory TimeCodec
  imports CodecUtils
begin

text \<open>
  Timestamps, \<open>storage/codec/timestamp.go\<close>: the streaming \<open>encoder\<close> and \<open>TimeDecoder\<close>, and the
  batch \<open>TimeArrayEncodeAll\<close> and \<open>TimeArrayDecodeAll\<close>. Both encoders replace the timestamps by
  their differences in place and choose run-length, packed or raw format; the packed and
  run-length formats scale the differences down by a power of ten. An \<open>int64\<close> timestamp is
  its 64 bits, so the differences wrap as they do in Go.
\<close>

section \<open>Powers of ten\<close>

text \<open>
  \<open>uint64(math.Pow10(k))\<close> for a four-bit \<open>k\<close>, and \<open>byte(math.Log10(float64(div)))\<close>, which the
  code only applies to powers of ten up to \<open>10^12\<close>, where the floating-point functions are
  exact.
\<close>

definition pow10 :: "nat \<Rightarrow> u64" where
  "pow10 k = 10 ^ k"

function log10 :: "u64 \<Rightarrow> nat" where
  "log10 x = (if x < 10 then 0 else Suc (log10 (x div 10)))"
  by pat_completeness auto
termination
  by (relation "measure unat") (auto simp: unat_div not_less word_le_nat_alt)

declare log10.simps [simp del]

text \<open>The divisor search: \<open>for divisor > 1 && v%divisor != 0 \{ divisor /= 10 \}\<close>.\<close>

function reduce_div :: "u64 \<Rightarrow> u64 \<Rightarrow> u64" where
  "reduce_div d v = (if 1 < d \<and> v mod d \<noteq> 0 then reduce_div (d div 10) v else d)"
  by pat_completeness auto
termination
  by (relation "measure (\<lambda>(d, v). unat d)") (auto simp: unat_div word_less_nat_alt)

declare reduce_div.simps [simp del]

definition powers :: "u64 list" where
  "powers = map pow10 [0..<13]"

lemma unat_pow10: "k \<le> 12 \<Longrightarrow> unat (pow10 k) = 10 ^ k"
proof -
  assume "k \<le> 12"
  then have "(10 :: nat) ^ k \<le> 10 ^ 12" by (intro power_increasing) simp_all
  then have "(10 :: nat) ^ k < 2 ^ 64" by simp
  then have "unat (of_nat (10 ^ k) :: u64) = 10 ^ k" by (simp only: unat_of_nat) simp
  then show ?thesis by (simp add: pow10_def)
qed

lemma pow10_Suc_div: "k < 12 \<Longrightarrow> pow10 (Suc k) div 10 = pow10 k"
  by (rule word_unat_eq_iff [THEN iffD2]) (simp add: unat_div unat_pow10)

lemma pow10_Suc_ge: "k < 12 \<Longrightarrow> \<not> pow10 (Suc k) < 10"
  by (simp add: word_less_nat_alt unat_pow10)

lemma log10_pow10: "k \<le> 12 \<Longrightarrow> log10 (pow10 k) = k"
proof (induction k)
  case 0
  show ?case by (simp add: log10.simps pow10_def)
next
  case (Suc k)
  then show ?case using pow10_Suc_ge [of k] by (subst log10.simps) (simp add: pow10_Suc_div)
qed

lemma powers_pow10: "d \<in> set powers \<Longrightarrow> log10 d \<le> 12 \<and> pow10 (log10 d) = d"
  by (auto simp: powers_def log10_pow10)

lemma pow10_in_powers: "k \<le> 12 \<Longrightarrow> pow10 k \<in> set powers"
  by (auto simp: powers_def)

lemma powers_init [simp]: "1000000000000 \<in> set powers"
  using pow10_in_powers [of 12] by (simp add: pow10_def)

lemma powers_cases:
  assumes "d \<in> set powers"
  obtains "d = 1" | "1 < d" "d div 10 \<in> set powers" "unat (d div 10) dvd unat d"
proof -
  from assms obtain k where k: "d = pow10 k" "k \<le> 12" by (auto simp: powers_def)
  show thesis
  proof (cases k)
    case 0
    then show ?thesis using k that(1) by (simp add: pow10_def)
  next
    case (Suc j)
    then have "d div 10 = pow10 j" using k by (simp add: pow10_Suc_div)
    moreover have "(1 :: nat) < 10 ^ Suc j" by (rule one_less_power) simp_all
    then have "1 < d" using k Suc by (simp add: word_less_nat_alt unat_pow10)
    ultimately show ?thesis
      using k Suc that(2) by (simp add: pow10_in_powers unat_pow10)
  qed
qed

lemma reduce_div_props:
  "d \<in> set powers \<Longrightarrow> reduce_div d v \<in> set powers \<and> v mod reduce_div d v = 0 \<and>
     unat (reduce_div d v) dvd unat d"
proof (induction d v rule: reduce_div.induct)
  case (1 d v)
  show ?case
  proof (cases "1 < d \<and> v mod d \<noteq> 0")
    case True
    then have "d div 10 \<in> set powers" "unat (d div 10) dvd unat d"
      using True by (auto intro: powers_cases [OF "1.prems"])
    then show ?thesis
      using "1.IH" [OF True] True by (auto simp: reduce_div.simps [of d] intro: dvd_trans)
  next
    case False
    then have "v mod d = 0" by (cases rule: powers_cases [OF "1.prems"]) simp_all
    with False "1.prems" show ?thesis by (auto simp: reduce_div.simps [of d])
  qed
qed

lemma mod_0_mono: "unat d' dvd unat d \<Longrightarrow> (v :: u64) mod d = 0 \<Longrightarrow> v mod d' = 0"
proof -
  assume "unat d' dvd unat d" and "v mod d = 0"
  then have "unat v mod unat d = 0" by (metis unat_mod_distrib unat_0)
  then have "unat d' dvd unat v" using \<open>unat d' dvd unat d\<close> by (meson dvd_eq_mod_eq_0 dvd_trans)
  then show ?thesis by (simp add: word_unat_eq_iff unat_mod_distrib)
qed

lemma fold_reduce_div_props:
  "d \<in> set powers \<Longrightarrow> fold (\<lambda>v d. reduce_div d v) vs d \<in> set powers \<and>
     (\<forall>v \<in> set vs. v mod fold (\<lambda>v d. reduce_div d v) vs d = 0) \<and>
     unat (fold (\<lambda>v d. reduce_div d v) vs d) dvd unat d"
proof (induction vs arbitrary: d)
  case (Cons v vs)
  let ?d = "reduce_div d v"
  let ?f = "fold (\<lambda>v d. reduce_div d v) vs ?d"
  have step: "?d \<in> set powers" "v mod ?d = 0" "unat ?d dvd unat d"
    using reduce_div_props [OF Cons.prems, of v] by auto
  note IH = Cons.IH [OF step(1)]
  have "v mod ?f = 0" using mod_0_mono [OF _ step(2)] IH by blast
  moreover have "unat ?f dvd unat d" using IH step(3) dvd_trans by blast
  ultimately show ?case using IH by auto
qed simp

section \<open>Differences in place\<close>

fun diffs :: "u64 \<Rightarrow> u64 list \<Rightarrow> u64 list" where
  "diffs p [] = []"
| "diffs p (t # ts) = (t - p) # diffs t ts"

fun deltas_of :: "u64 list \<Rightarrow> u64 list" where
  "deltas_of [] = []"
| "deltas_of (t # ts) = t # diffs t ts"

fun prefix_sum :: "u64 \<Rightarrow> u64 list \<Rightarrow> u64 list" where
  "prefix_sum p [] = []"
| "prefix_sum p (x # xs) = (x + p) # prefix_sum (x + p) xs"

fun prefix_scale :: "u64 \<Rightarrow> u64 \<Rightarrow> u64 list \<Rightarrow> u64 list" where
  "prefix_scale d p [] = []"
| "prefix_scale d p (x # xs) = (let y = p + x * d in y # prefix_scale d y xs)"

lemma length_diffs [simp]: "length (diffs p ts) = length ts"
  by (induction ts arbitrary: p) auto

lemma length_deltas_of [simp]: "length (deltas_of ts) = length ts"
  by (cases ts) auto

lemma nth_diffs: "i < length ts \<Longrightarrow> diffs p ts ! i = ts ! i - (if i = 0 then p else ts ! (i - 1))"
  by (induction ts arbitrary: p i) (auto simp: nth_Cons split: nat.splits)

lemma nth_deltas_of: "0 < i \<Longrightarrow> i < length ts \<Longrightarrow> deltas_of ts ! i = ts ! i - ts ! (i - 1)"
  by (cases ts) (auto simp: nth_diffs nth_Cons split: nat.splits)

lemma prefix_sum_diffs [simp]: "prefix_sum p (diffs p ts) = ts"
  by (induction ts arbitrary: p) auto

lemma prefix_scale_sum: "prefix_scale d p xs = prefix_sum p (map (\<lambda>x. x * d) xs)"
  by (induction xs arbitrary: p) (auto simp: Let_def add.commute)

lemma div_times: "(v :: u64) mod d = 0 \<Longrightarrow> v div d * d = v"
  using div_mult_mod_eq [of v d] by simp

lemma prefix_scale_div:
  "(\<forall>v \<in> set (diffs p ts). v mod d = 0) \<Longrightarrow> prefix_scale d p (map (\<lambda>v. v div d) (diffs p ts)) = ts"
proof -
  assume "\<forall>v \<in> set (diffs p ts). v mod d = 0"
  then have "map (\<lambda>x. x * d) (map (\<lambda>v. v div d) (diffs p ts)) = diffs p ts"
    by (auto simp: div_times intro: map_idI)
  then show ?thesis by (simp add: prefix_scale_sum del: map_map)
qed

section \<open>The streaming encoder\<close>

text \<open>
  \<open>e.bytes\<close> is the output buffer of the last call; every byte of a result is written anew,
  so the buffer's contents are not part of the state.
\<close>

record time_encoder =
  te_ts :: "u64 list"
  te_enc :: s8_encoder

definition timeUncompressed :: byte where "timeUncompressed = 0"
definition timeCompressedPackedSimple :: byte where "timeCompressedPackedSimple = 1"
definition timeCompressedRLE :: byte where "timeCompressedRLE = 2"

lemmas time_encodings = timeUncompressed_def timeCompressedPackedSimple_def timeCompressedRLE_def

text \<open>The first byte: the encoding in the high four bits, the power of ten in the low four.\<close>

definition time_header :: "byte \<Rightarrow> nat \<Rightarrow> byte" where
  "time_header enc k = push_bit 4 enc OR of_nat k"

definition NewTimeEncoder :: time_encoder where
  "NewTimeEncoder = \<lparr>te_ts = [], te_enc = NewEncoder\<rparr>"

definition te_Reset :: "time_encoder \<Rightarrow> time_encoder" where
  "te_Reset e = \<lparr>te_ts = [], te_enc = Reset (te_enc e)\<rparr>"

definition te_Write :: "u64 \<Rightarrow> time_encoder \<Rightarrow> time_encoder" where
  "te_Write t e = e\<lparr>te_ts := te_ts e @ [t]\<rparr>"

text \<open>The loop of \<open>reduce\<close>, from index \<open>i\<close> down to 1.\<close>

fun reduce_loop :: "nat \<Rightarrow> u64 list \<Rightarrow> u64 \<Rightarrow> u64 \<Rightarrow> bool \<Rightarrow> u64 \<times> u64 \<times> bool \<times> u64 list" where
  "reduce_loop 0 deltas mx dv rle = (mx, dv, rle, deltas)"
| "reduce_loop (Suc k) deltas mx dv rle =
     (let i = Suc k;
          deltas' = deltas[i := deltas ! i - deltas ! (i - 1)];
          v = deltas' ! i;
          mx' = (if v > mx then v else mx);
          dv' = reduce_div dv v;
          rle' = (i = length deltas' - 1 \<or> rle \<and> deltas' ! (i + 1) = deltas' ! i)
      in reduce_loop k deltas' mx' dv' rle')"

definition reduce :: "u64 list \<Rightarrow> u64 \<times> u64 \<times> bool \<times> u64 list" where
  "reduce ts = reduce_loop (length ts - 1) ts 0 1000000000000 True"

definition encodeRaw :: "time_encoder \<Rightarrow> bytes result" where
  "encodeRaw e = Inr (push_bit 4 timeUncompressed # words_bytes (te_ts e))"

definition encodeRLE :: "u64 \<Rightarrow> u64 \<Rightarrow> u64 \<Rightarrow> nat \<Rightarrow> bytes result" where
  "encodeRLE first delta dv n =
     Inr ((time_header timeCompressedRLE (log10 dv)) #
          put_u64 first @ put_uvarint (delta div dv) @ put_uvarint (of_nat n))"

definition encodePacked :: "u64 \<Rightarrow> time_encoder \<Rightarrow> bytes result \<times> time_encoder" where
  "encodePacked dv e =
     (case te_ts e of
        [] \<Rightarrow> (Inl Panic, e)
      | first # rest \<Rightarrow>
          (case write_all (if 1 < dv then map (\<lambda>v. v div dv) rest else rest) (te_enc e) of
             (Some err, enc1) \<Rightarrow> (Inl err, e\<lparr>te_enc := enc1\<rparr>)
           | (None, enc1) \<Rightarrow>
               (let (r, enc2) = Bytes enc1
                in (bind_result r (\<lambda>deltas.
                      Inr ((time_header timeCompressedPackedSimple (log10 dv)) # put_u64 first @ deltas)),
                    e\<lparr>te_enc := enc2\<rparr>))))"

definition te_Bytes :: "time_encoder \<Rightarrow> bytes result \<times> time_encoder" where
  "te_Bytes e =
     (if length (te_ts e) = 0 then (Inr [], e)
      else let (m, dv, rle, dts) = reduce (te_ts e); e1 = e\<lparr>te_ts := dts\<rparr>
           in if rle \<and> 1 < length (te_ts e1)
              then (encodeRLE (te_ts e1 ! 0) (te_ts e1 ! 1) dv (length (te_ts e1)), e1)
              else if m > MaxValue then (encodeRaw e1, e1)
              else encodePacked dv e1)"

definition te_RawBytes :: "time_encoder \<Rightarrow> bytes result" where
  "te_RawBytes e = (if length (te_ts e) = 0 then Inr [] else encodeRaw e)"

subsection \<open>What \<open>reduce\<close> computes\<close>

lemma reduce_step_list:
  assumes "Suc k < length ts"
  defines "D \<equiv> deltas_of ts"
  defines "ds \<equiv> take (Suc (Suc k)) ts @ drop (Suc (Suc k)) D"
  shows "ds[Suc k := ds ! Suc k - ds ! k] = take (Suc k) ts @ drop (Suc k) D"
proof -
  have D: "length D = length ts" "D ! Suc k = ts ! Suc k - ts ! k"
    using assms(1) nth_deltas_of [of "Suc k" ts] by (simp_all add: D_def)
  have "ds ! Suc k = ts ! Suc k" "ds ! k = ts ! k"
    using assms(1) by (simp_all add: ds_def nth_append)
  then have "ds[Suc k := ds ! Suc k - ds ! k] = (take (Suc k) ts @ [D ! Suc k]) @ drop (Suc (Suc k)) D"
    using assms(1) D by (simp add: ds_def take_Suc_conv_app_nth [of "Suc k"] list_update_append)
  also have "\<dots> = take (Suc k) ts @ drop (Suc k) D"
    using assms(1) D(1) Cons_nth_drop_Suc [of "Suc k" D] by simp
  finally show ?thesis .
qed

abbreviation larger :: "u64 \<Rightarrow> u64 \<Rightarrow> u64" where
  "larger v m \<equiv> (if v > m then v else m)"

lemma reduce_loop_eq:
  assumes "D = deltas_of ts" and "i < length ts"
  shows "reduce_loop i (take (Suc i) ts @ drop (Suc i) D) mx dv rle =
    (fold larger (rev (take i (tl D))) mx, fold (\<lambda>v d. reduce_div d v) (rev (take i (tl D))) dv,
     (if i = 0 then rle
      else (i = length ts - 1 \<or> rle \<and> D ! (i + 1) = D ! i) \<and> (\<forall>j. 0 < j \<and> j < i \<longrightarrow> D ! (j + 1) = D ! j)), D)"
  using assms(2)
proof (induction i arbitrary: mx dv rle)
  case 0
  then obtain t ts' where "ts = t # ts'" by (cases ts) auto
  then show ?case using assms(1) by simp
next
  case (Suc k)
  let ?ds = "take (Suc k) ts @ drop (Suc k) D"
  have D: "length D = length ts" using assms(1) by simp
  then have "D \<noteq> []" using Suc.prems by auto
  have nth: "?ds ! Suc k = D ! Suc k" "Suc (Suc k) < length ts \<Longrightarrow> ?ds ! Suc (Suc k) = D ! Suc (Suc k)"
    using Suc.prems D by (simp_all add: nth_append)
  have vs: "rev (take (Suc k) (tl D)) = D ! Suc k # rev (take k (tl D))"
    using Suc.prems D by (simp add: take_Suc_conv_app_nth nth_tl)
  let ?rle = "Suc k = length ts - 1 \<or> rle \<and> D ! (Suc k + 1) = D ! Suc k"
  have len: "length ?ds = length ts" using Suc.prems D by simp
  have rle: "(Suc k = length ?ds - 1 \<or> rle \<and> ?ds ! (Suc k + 1) = D ! Suc k) = ?rle"
    using nth(2) Suc.prems unfolding len by (cases "Suc (Suc k) < length ts") auto
  have "reduce_loop (Suc k) (take (Suc (Suc k)) ts @ drop (Suc (Suc k)) D) mx dv rle =
      reduce_loop k ?ds (larger (D ! Suc k) mx) (reduce_div dv (D ! Suc k)) ?rle"
    unfolding reduce_loop.simps(2) Let_def diff_Suc_1
      reduce_step_list [OF Suc.prems, folded assms(1)] rle nth(1) by (rule refl)
  also have "\<dots> = (fold larger (rev (take (Suc k) (tl D))) mx,
      fold (\<lambda>v d. reduce_div d v) (rev (take (Suc k) (tl D))) dv,
      ?rle \<and> (\<forall>j. 0 < j \<and> j < Suc k \<longrightarrow> D ! (j + 1) = D ! j), D)"
    using Suc.prems unfolding vs by (subst Suc.IH) (auto simp: less_Suc_eq)
  finally show ?case by simp
qed

lemma reduce_eq:
  assumes "ts \<noteq> []"
  defines "D \<equiv> deltas_of ts"
  shows "reduce ts = (fold larger (rev (tl D)) 0, fold (\<lambda>v d. reduce_div d v) (rev (tl D)) 1000000000000,
    (\<forall>j. 0 < j \<and> j + 1 < length ts \<longrightarrow> D ! (j + 1) = D ! j), D)"
proof -
  have "reduce ts = reduce_loop (length ts - 1) (take (Suc (length ts - 1)) ts @ drop (Suc (length ts - 1)) D) 0 1000000000000 True"
    using assms(1) by (simp add: reduce_def D_def)
  also have "\<dots> = (fold larger (rev (tl D)) 0, fold (\<lambda>v d. reduce_div d v) (rev (tl D)) 1000000000000,
    (\<forall>j. 0 < j \<and> j + 1 < length ts \<longrightarrow> D ! (j + 1) = D ! j), D)"
    using assms(1) by (subst reduce_loop_eq [where ts = ts and D = D]) (auto simp: D_def)
  finally show ?thesis .
qed

lemma fold_larger: "x \<in> set vs \<or> x = m \<Longrightarrow> x \<le> fold larger vs m"
proof (induction vs arbitrary: m x)
  case (Cons v vs)
  have m: "m \<le> larger v m" "v \<le> larger v m" by (simp_all add: less_imp_le not_less)
  have le: "larger v m \<le> fold larger vs (larger v m)" by (rule Cons.IH) simp
  consider "x \<in> set vs" | "x = v" | "x = m" using Cons.prems by auto
  then show ?case
  proof cases
    case 1
    then show ?thesis using Cons.IH by simp
  next
    case 2
    then show ?thesis using order_trans [OF m(2) le] by simp
  next
    case 3
    then show ?thesis using order_trans [OF m(1) le] by simp
  qed
qed simp

section \<open>The format\<close>

text \<open>
  The bytes an encoder may produce for a list of timestamps: the run-length, packed and raw
  layouts, whichever way the words and the scale were chosen. The encoders are proved to
  produce it and the decoders to read it.
\<close>

fun arith :: "u64 \<Rightarrow> u64 \<Rightarrow> nat \<Rightarrow> u64 list" where
  "arith a d 0 = []"
| "arith a d (Suc n) = a # arith (a + d) d n"

inductive time_format :: "u64 list \<Rightarrow> bytes \<Rightarrow> bool" where
  tf_empty: "time_format [] []"
| tf_rle: "k \<le> 12 \<Longrightarrow> n < 2 ^ 63 \<Longrightarrow>
    time_format (arith first (v * pow10 k) n)
      ((time_header timeCompressedRLE k) # put_u64 first @ put_uvarint v @ put_uvarint (of_nat n))"
| tf_packed: "k \<le> 12 \<Longrightarrow>
    time_format (first # prefix_scale (pow10 k) first (decode_words ws))
      ((time_header timeCompressedPackedSimple k) # put_u64 first @ words_bytes ws)"
| tf_raw: "ts \<noteq> [] \<Longrightarrow> time_format ts (push_bit 4 timeUncompressed # words_bytes (deltas_of ts))"

inductive_cases time_format_NilE: "time_format ts []"

lemma length_arith [simp]: "length (arith a d n) = n"
  by (induction n arbitrary: a) auto

lemma diffs_replicate: "diffs p ts = replicate (length ts) d \<Longrightarrow> ts = arith (p + d) d (length ts)"
proof (induction ts arbitrary: p)
  case (Cons t ts)
  then have "t - p = d" and "diffs t ts = replicate (length ts) d" by simp_all
  then show ?case using Cons.IH [of t] by (auto simp: algebra_simps)
qed simp

lemma adjacent_equal:
  assumes "\<forall>j. 0 < j \<and> j + 1 < length xs \<longrightarrow> xs ! (j + 1) = xs ! j" and "1 < length xs"
  shows "tl xs = replicate (length xs - 1) (xs ! 1)"
proof -
  have "Suc j < length xs \<Longrightarrow> xs ! Suc j = xs ! 1" for j
  proof (induction j)
    case (Suc j)
    then have "xs ! (Suc j + 1) = xs ! Suc j" using assms(1) by simp
    then show ?case using Suc by simp
  qed simp
  then show ?thesis using assms(2)
    by (intro nth_equalityI) (simp_all only: length_tl length_replicate nth_tl nth_replicate less_diff_conv Suc_eq_plus1)
qed

text \<open>A constant difference is an arithmetic progression; the divisor found scales it exactly.\<close>

lemma rle_format:
  assumes len: "1 < length ts" "length ts < 2 ^ 63"
    and rle: "\<forall>j. 0 < j \<and> j + 1 < length ts \<longrightarrow> deltas_of ts ! (j + 1) = deltas_of ts ! j"
    and dv: "dv \<in> set powers" "(deltas_of ts ! 1) mod dv = 0"
  shows "encodeRLE (deltas_of ts ! 0) (deltas_of ts ! 1) dv (length ts) = Inr b \<Longrightarrow> time_format ts b"
proof -
  obtain t ts' where ts: "ts = t # ts'" using len by (cases ts) auto
  let ?d = "deltas_of ts ! 1"
  have "tl (deltas_of ts) = replicate (length (deltas_of ts) - 1) ?d"
    using adjacent_equal [of "deltas_of ts"] rle len by simp
  then have "ts' = arith (t + ?d) ?d (length ts')" using ts by (intro diffs_replicate) simp
  then have "ts = arith t ((?d div dv) * pow10 (log10 dv)) (length ts)"
    using ts dv powers_pow10 [OF dv(1)] by (simp add: div_times)
  moreover assume "encodeRLE (deltas_of ts ! 0) ?d dv (length ts) = Inr b"
  moreover have "deltas_of ts ! 0 = t" using ts by simp
  ultimately show ?thesis
    using tf_rle [of "log10 dv" "length ts" t "?d div dv"] powers_pow10 [OF dv(1)] len(2)
    by (simp add: encodeRLE_def)
qed

lemma packed_format:
  assumes "dv \<in> set powers" and "\<forall>v \<in> set (diffs t ts). v mod dv = 0"
    and "decode_words ws = (if 1 < dv then map (\<lambda>v. v div dv) (diffs t ts) else diffs t ts)"
  shows "time_format (t # ts)
    ((time_header timeCompressedPackedSimple (log10 dv)) # put_u64 t @ words_bytes ws)"
proof -
  have "decode_words ws = map (\<lambda>v. v div dv) (diffs t ts)"
  proof (cases "1 < dv")
    case False
    then have "dv = 1" by (auto intro: powers_cases [OF assms(1)])
    then show ?thesis using assms(3) by simp
  qed (use assms(3) in simp)
  then have "prefix_scale (pow10 (log10 dv)) t (decode_words ws) = ts"
    using prefix_scale_div [OF assms(2)] powers_pow10 [OF assms(1)] by simp
  then show ?thesis
    using tf_packed [of "log10 dv" t ws] powers_pow10 [OF assms(1)] by simp
qed

text \<open>The streaming encoder, from a fresh or reset state, produces the format and never fails.\<close>

lemma write_all_Bytes:
  assumes "enc_rep e []" and "list_all (\<lambda>v. v \<le> MaxValue) vs"
  obtains e1 ws e2 where "write_all vs e = (None, e1)" and "Bytes e1 = (Inr (words_bytes ws), e2)"
    and "decode_words ws = vs" and "enc_rep e2 vs"
proof -
  obtain e1 where e1: "write_all vs e = (None, e1)" "enc_rep e1 vs"
    using enc_rep_write_all [OF assms(1), of vs] assms(2) by auto
  moreover have "list_all (\<lambda>v. v \<le> MaxValue) (pending e1)"
    using e1(2) assms(2) by (auto simp: enc_rep_def)
  ultimately show thesis using enc_rep_Bytes [OF e1(2)] that by auto
qed

lemma word_div_le: "(v :: u64) div d \<le> v"
  by (simp add: word_le_nat_alt unat_div)

lemma te_Bytes_format:
  assumes "enc_rep (te_enc e) []" and "te_ts e = ts" and "length ts < 2 ^ 63"
  shows "\<exists>b e'. te_Bytes e = (Inr b, e') \<and> time_format ts b \<and> enc_inv (te_enc e')"
proof (cases ts)
  case Nil
  then show ?thesis using assms by (simp add: te_Bytes_def tf_empty enc_rep_def)
next
  case (Cons t ts')
  then have ne: "ts \<noteq> []" by simp
  define D where "D = deltas_of ts"
  define m where "m = fold larger (rev (tl D)) 0"
  define dv where "dv = fold (\<lambda>v d. reduce_div d v) (rev (tl D)) 1000000000000"
  define rle where "rle = (\<forall>j. 0 < j \<and> j + 1 < length ts \<longrightarrow> D ! (j + 1) = D ! j)"
  have red: "reduce ts = (m, dv, rle, D)"
    using reduce_eq [OF ne] unfolding D_def [symmetric] by (simp only: m_def dv_def rle_def)
  have D: "D = t # diffs t ts'" "length D = length ts" using Cons by (simp_all add: D_def)
  have dv: "dv \<in> set powers" "\<forall>v \<in> set (diffs t ts'). v mod dv = 0"
    using fold_reduce_div_props [OF powers_init, of "rev (tl D)"] D by (simp_all add: dv_def)
  have bytes: "te_Bytes e =
      (if rle \<and> 1 < length ts then (encodeRLE (D ! 0) (D ! 1) dv (length ts), e\<lparr>te_ts := D\<rparr>)
       else if m > MaxValue then (encodeRaw (e\<lparr>te_ts := D\<rparr>), e\<lparr>te_ts := D\<rparr>)
       else encodePacked dv (e\<lparr>te_ts := D\<rparr>))"
    using ne red D(2) assms(2) by (simp add: te_Bytes_def Let_def)
  consider "rle \<and> 1 < length ts" | "\<not> (rle \<and> 1 < length ts)" "m > MaxValue"
    | "\<not> (rle \<and> 1 < length ts)" "\<not> m > MaxValue" by blast
  then show ?thesis
  proof cases
    case 1
    then have "D ! 1 mod dv = 0" using dv(2) D Cons by (cases ts') auto
    then show ?thesis
      using rle_format [of ts dv] 1 assms(1,3) dv(1) unfolding bytes rle_def D_def
      by (auto simp: encodeRLE_def enc_rep_def)
  next
    case 2
    then show ?thesis
      using tf_raw [OF ne] assms(1) unfolding bytes
      by (auto simp: encodeRaw_def D_def enc_rep_def)
  next
    case 3
    let ?vs = "if 1 < dv then map (\<lambda>v. v div dv) (diffs t ts') else diffs t ts'"
    have "v \<le> MaxValue" if "v \<in> set (diffs t ts')" for v
      using fold_larger [of v "rev (tl D)" 0] that 3(2) D by (simp add: m_def)
    then have "list_all (\<lambda>v. v \<le> MaxValue) ?vs"
      by (auto simp: list_all_iff intro: order_trans [OF word_div_le])
    then obtain e1 ws e2 where w: "write_all ?vs (te_enc e) = (None, e1)"
      "Bytes e1 = (Inr (words_bytes ws), e2)" "decode_words ws = ?vs" "enc_rep e2 ?vs"
      by (rule write_all_Bytes [OF assms(1)])
    then have "te_Bytes e = (Inr ((time_header timeCompressedPackedSimple (log10 dv)) # put_u64 t @ words_bytes ws),
        e\<lparr>te_ts := D, te_enc := e2\<rparr>)"
      using 3 D(1) unfolding bytes by (auto simp: encodePacked_def)
    then show ?thesis using packed_format [OF dv w(3)] Cons w(4) by (simp add: enc_rep_def)
  qed
qed

section \<open>The streaming decoder\<close>

record TimeDecoder =
  td_v :: u64
  td_i :: int
  td_n :: int
  td_ts :: "u64 list"
  td_dec :: s8_decoder
  td_err :: "error option"
  td_rleDelta :: u64
  td_encoding :: byte

definition raw_words :: "bytes \<Rightarrow> u64 list" where
  "raw_words b = map (\<lambda>i. get_u64 (drop (i * 8) b)) [0..<length b div 8]"

definition decodeRaw :: "bytes \<Rightarrow> TimeDecoder \<Rightarrow> TimeDecoder" where
  "decodeRaw b d =
     d\<lparr>td_i := 0, td_ts := (case raw_words b of [] \<Rightarrow> [] | x # xs \<Rightarrow> x # prefix_sum x xs)\<rparr>"

definition decodePacked :: "bytes \<Rightarrow> TimeDecoder \<Rightarrow> TimeDecoder result" where
  "decodePacked b d =
     (if length b < 9 then Inr (d\<lparr>td_err := Some ErrNotEnoughData\<rparr>)
      else let dv = pow10 (unat (hd b AND 15));
               first = get_u64 (drop 1 b);
               dec = SetBytes (drop 9 b) (td_dec d)
           in bind_result (collect dec) (\<lambda>deltas.
                Inr (d\<lparr>td_dec := drain dec, td_i := 0,
                       td_ts := first # (if 1 < dv then prefix_scale dv first deltas
                                         else prefix_sum first deltas)\<rparr>)))"

definition decodeRLE :: "bytes \<Rightarrow> TimeDecoder \<Rightarrow> TimeDecoder result" where
  "decodeRLE b d =
     (if length b < 9 then Inr (d\<lparr>td_err := Some ErrNotEnoughData\<rparr>)
      else let m = pow10 (unat (hd b AND 15));
               first = get_u64 (drop 1 b);
               (value, n) = uvarint (drop 9 b)
           in if n \<le> 0 then Inr (d\<lparr>td_err := Some ErrInvalidRunLength\<rparr>)
              else let value' = value * m;
                       (count, n') = uvarint (drop (9 + nat n) b)
                   in if n' \<le> 0 then Inr (d\<lparr>td_err := Some ErrInvalidRepeat\<rparr>)
                      else Inr (d\<lparr>td_v := first - value', td_rleDelta := value', td_i := -1, td_n := sint count\<rparr>))"

definition td_decode :: "bytes \<Rightarrow> TimeDecoder \<Rightarrow> TimeDecoder result" where
  "td_decode b d =
     (if length b = 0 then Inr d
      else if td_encoding d = timeUncompressed then Inr (decodeRaw (drop 1 b) d)
      else if td_encoding d = timeCompressedRLE then decodeRLE b d
      else if td_encoding d = timeCompressedPackedSimple then decodePacked b d
      else Inr (d\<lparr>td_err := Some ErrUnknownEncoding\<rparr>))"

definition td_Init :: "bytes \<Rightarrow> TimeDecoder \<Rightarrow> TimeDecoder result" where
  "td_Init b d =
     td_decode b (d\<lparr>td_v := 0, td_i := 0, td_ts := [], td_err := None,
       td_encoding := (if 0 < length b then drop_bit 4 (hd b) else td_encoding d)\<rparr>)"

definition td_Next :: "TimeDecoder \<Rightarrow> bool \<times> TimeDecoder" where
  "td_Next d =
     (if td_err d \<noteq> None then (False, d)
      else if td_encoding d = timeCompressedRLE then
        (if td_n d \<le> td_i d then (False, d)
         else let d' = d\<lparr>td_i := td_i d + 1, td_v := td_v d + td_rleDelta d\<rparr>
              in (td_i d' < td_n d', d'))
      else if int (length (td_ts d)) \<le> td_i d then (False, d)
      else (True, d\<lparr>td_v := td_ts d ! nat (td_i d), td_i := td_i d + 1\<rparr>))"

definition td_Read :: "TimeDecoder \<Rightarrow> u64" where
  "td_Read d = td_v d"

text \<open>The client's loop: \<open>for dec.Next() \{ \<dots> dec.Read() \<dots> \}\<close>.\<close>

function td_collect :: "TimeDecoder \<Rightarrow> u64 list" where
  "td_collect d = (let (more, d') = td_Next d in if more then td_Read d' # td_collect d' else [])"
  by pat_completeness auto
termination
  by (relation "measure (\<lambda>d. nat ((if td_encoding d = timeCompressedRLE then td_n d else int (length (td_ts d))) - td_i d))")
    (auto simp: td_Next_def Let_def split: if_splits)

declare td_collect.simps [simp del]

lemma header_byte_all:
  "list_all (\<lambda>k. unat ((time_header timeCompressedRLE k) AND 15) = k \<and>
     drop_bit 4 (time_header timeCompressedRLE k) = timeCompressedRLE \<and>
     unat ((time_header timeCompressedPackedSimple k) AND 15) = k \<and>
     drop_bit 4 (time_header timeCompressedPackedSimple k) = timeCompressedPackedSimple) [0..<13]"
  by code_simp

lemma header_byte:
  assumes "k \<le> 12"
  shows "unat ((time_header timeCompressedRLE k) AND 15) = k"
    and "drop_bit 4 (time_header timeCompressedRLE k) = timeCompressedRLE"
    and "unat ((time_header timeCompressedPackedSimple k) AND 15) = k"
    and "drop_bit 4 (time_header timeCompressedPackedSimple k) = timeCompressedPackedSimple"
  using header_byte_all assms by (auto simp: list_all_iff)

lemma header_raw: "drop_bit 4 (push_bit 4 timeUncompressed) = timeUncompressed"
  by (simp add: timeUncompressed_def)

lemma time_encodings_distinct [simp]:
  "timeUncompressed \<noteq> timeCompressedRLE" "timeUncompressed \<noteq> timeCompressedPackedSimple"
  "timeCompressedPackedSimple \<noteq> timeCompressedRLE" "timeCompressedRLE \<noteq> timeUncompressed"
  "timeCompressedPackedSimple \<noteq> timeUncompressed" "timeCompressedRLE \<noteq> timeCompressedPackedSimple"
  by (simp_all add: time_encodings)

lemma raw_words_words_bytes [simp]: "raw_words (words_bytes ws) = ws"
proof (rule nth_equalityI)
  fix i assume "i < length (raw_words (words_bytes ws))"
  then have i: "i < length ws" by (simp add: raw_words_def)
  have "drop (i * 8) (words_bytes ws) = words_bytes (drop i ws)"
    by (induction ws arbitrary: i) (auto simp: drop_Cons split: nat.splits)
  moreover have "drop i ws = ws ! i # drop (Suc i) ws" using i by (simp add: Cons_nth_drop_Suc)
  ultimately show "raw_words (words_bytes ws) ! i = ws ! i" using i by (simp add: raw_words_def)
qed (simp add: raw_words_def)

lemma length_prefix_sum [simp]: "length (prefix_sum p xs) = length xs"
  by (induction xs arbitrary: p) auto

lemma prefix_deltas_of: "(case deltas_of ts of [] \<Rightarrow> [] | x # xs \<Rightarrow> x # prefix_sum x xs) = ts"
  by (cases ts) auto

lemma prefix_scale_1: "prefix_scale 1 p xs = prefix_sum p xs"
  by (simp add: prefix_scale_sum)

lemma pow10_choice:
  assumes "k \<le> 12"
  shows "(if 1 < pow10 k then prefix_scale (pow10 k) p xs else prefix_sum p xs) = prefix_scale (pow10 k) p xs"
proof (cases "1 < pow10 k")
  case False
  then have "pow10 k = 1" by (auto intro: powers_cases [OF pow10_in_powers [OF assms]])
  then show ?thesis by (simp add: prefix_scale_1)
qed simp

lemma td_collect_list:
  assumes "td_err d = None" and "td_encoding d \<noteq> timeCompressedRLE" and "0 \<le> td_i d"
  shows "td_collect d = drop (nat (td_i d)) (td_ts d)"
  using assms
proof (induction d rule: td_collect.induct)
  case (1 d)
  show ?case
  proof (cases "int (length (td_ts d)) \<le> td_i d")
    case True
    then show ?thesis using "1.prems" by (simp add: td_collect.simps [of d] td_Next_def)
  next
    case False
    let ?d = "d\<lparr>td_v := td_ts d ! nat (td_i d), td_i := td_i d + 1\<rparr>"
    have nx: "td_Next d = (True, ?d)" using False "1.prems" by (simp add: td_Next_def)
    then have "td_collect ?d = drop (nat (td_i d + 1)) (td_ts d)"
      using "1.IH" [OF nx [symmetric] refl TrueI] "1.prems" by simp
    moreover have "drop (nat (td_i d)) (td_ts d) = td_ts d ! nat (td_i d) # drop (nat (td_i d + 1)) (td_ts d)"
      using False "1.prems" by (simp add: Cons_nth_drop_Suc nat_add_distrib)
    ultimately show ?thesis using nx by (simp add: td_collect.simps [of d] td_Read_def)
  qed
qed

lemma td_collect_rle:
  assumes "td_err d = None" and "td_encoding d = timeCompressedRLE"
  shows "td_collect d = arith (td_v d + td_rleDelta d) (td_rleDelta d) (nat (td_n d - td_i d - 1))"
  using assms
proof (induction d rule: td_collect.induct)
  case (1 d)
  show ?case
  proof (cases "td_i d + 1 < td_n d")
    case False
    then show ?thesis using "1.prems" by (simp add: td_collect.simps [of d] td_Next_def Let_def)
  next
    case True
    let ?d = "d\<lparr>td_i := td_i d + 1, td_v := td_v d + td_rleDelta d\<rparr>"
    have nx: "td_Next d = (True, ?d)" using True "1.prems" by (simp add: td_Next_def Let_def)
    have "nat (td_n d - td_i d - 1) = Suc (nat (td_n d - td_i d - 2))" using True by simp
    then show ?thesis
      using "1.IH" [OF nx [symmetric] refl TrueI] "1.prems" nx
      by (simp add: td_collect.simps [of d] td_Read_def algebra_simps)
  qed
qed

lemma sint_of_nat_small: "n < 2 ^ 63 \<Longrightarrow> sint (of_nat n :: u64) = int n"
proof -
  assume n: "n < 2 ^ 63"
  have "sint (word_of_int (int n) :: u64) = int n"
    using n by (simp only: sint_sbintrunc') (simp add: signed_take_bit_int_eq_self_iff)
  then show ?thesis by simp
qed

lemma drop_header_value: "drop (9 + length v) (h # put_u64 f @ v @ rest) = rest"
proof -
  have "drop (9 + length v) (h # put_u64 f @ v @ rest) = drop (length v) (drop 9 (h # put_u64 f @ v @ rest))"
    by (simp only: drop_drop add.commute)
  then show ?thesis by simp
qed

lemma td_Init_format:
  assumes "time_format ts b" and "b \<noteq> [] \<or> td_encoding d \<noteq> timeCompressedRLE"
    and "length (d_buf (td_dec d)) = 240"
  shows "\<exists>d'. td_Init b d = Inr d' \<and> td_err d' = None \<and> td_collect d' = ts \<and> length (d_buf (td_dec d')) = 240"
  using assms(1)
proof cases
  case tf_empty
  then show ?thesis using assms(2,3) by (simp add: td_Init_def td_decode_def td_collect_list)
next
  case (tf_rle k n first v)
  then show ?thesis
    using assms(3) by (simp add: td_Init_def td_decode_def decodeRLE_def header_byte td_collect_rle
        sint_of_nat_small Let_def drop_header_value)
next
  case (tf_packed k first ws)
  then show ?thesis
    using assms(3) collect_SetBytes [of "td_dec d" ws]
    by (simp add: td_Init_def td_decode_def decodePacked_def header_byte td_collect_list Let_def pow10_choice
        length_buf_drain SetBytes_def)
next
  case tf_raw
  then show ?thesis
    using assms(3) by (simp add: td_Init_def td_decode_def decodeRaw_def header_raw td_collect_list prefix_deltas_of)
qed

section \<open>Counting\<close>

definition CountTimestamps :: "bytes \<Rightarrow> int result" where
  "CountTimestamps b =
     (if length b = 0 then Inr 0
      else let encoding = drop_bit 4 (hd b)
           in if encoding = timeUncompressed then Inr (int (length (drop 1 b) div 8))
              else if encoding = timeCompressedRLE then
                (if length b < 9 then Inl Panic
                 else let i = 9 + snd (uvarint (drop 9 b))
                      in if i < 0 \<or> int (length b) < i then Inl Panic
                         else Inr (sint (fst (uvarint (drop (nat i) b)))))
              else if encoding = timeCompressedPackedSimple then
                (if length b < 9 then Inl Panic
                 else Inr (case CountBytes (drop 9 b) of Inr count \<Rightarrow> int count + 1 | Inl _ \<Rightarrow> 1))
              else Inr 0)"

lemma CountTimestamps_format: "time_format ts b \<Longrightarrow> CountTimestamps b = Inr (int (length ts))"
proof (induction rule: time_format.cases)
  case tf_empty
  then show ?case by (simp add: CountTimestamps_def)
next
  case (tf_rle k n first v)
  then show ?case
    by (simp add: CountTimestamps_def header_byte Let_def nat_add_distrib drop_header_value sint_of_nat_small)
next
  case (tf_packed k first ws)
  then show ?case
    by (simp add: CountTimestamps_def header_byte Let_def CountBytes_words prefix_scale_sum)
next
  case (tf_raw ts)
  then show ?case by (simp add: CountTimestamps_def header_raw)
qed

section \<open>The batch encoder\<close>

fun delta_loop :: "nat \<Rightarrow> u64 list \<Rightarrow> u64 \<Rightarrow> u64 \<times> u64 list" where
  "delta_loop 0 deltas mx = (mx, deltas)"
| "delta_loop (Suc k) deltas mx =
     (let i = Suc k; deltas' = deltas[i := deltas ! i - deltas ! (i - 1)]
      in delta_loop k deltas' (if deltas' ! i > mx then deltas' ! i else mx))"

fun find_div :: "u64 \<Rightarrow> u64 list \<Rightarrow> u64" where
  "find_div dv [] = dv"
| "find_div dv (v # vs) = (if 1 < dv then find_div (reduce_div dv v) vs else dv)"

definition TimeArrayEncodeAll :: "u64 list \<Rightarrow> bytes result" where
  "TimeArrayEncodeAll src =
     (if length src = 0 then Inr []
      else let (mx, deltas) = (if 1 < length src then delta_loop (length src - 1) src 0 else (0, src));
               rle = (1 < length deltas \<and> list_all (\<lambda>d. deltas ! 1 = d) (drop 2 deltas))
           in if rle then
                (let v = deltas ! 1; dv = reduce_div 1000000000000 v
                 in Inr ((if 1 < dv then time_header timeCompressedRLE (log10 dv) else time_header timeCompressedRLE 0) #
                         put_u64 (deltas ! 0) @ put_uvarint (if 1 < dv then deltas ! 1 div dv else deltas ! 1) @
                         put_uvarint (of_nat (length deltas))))
              else if mx > MaxValue then
                Inr (push_bit 4 timeUncompressed # words_bytes deltas)
              else
                (let dv = find_div 1000000000000 (drop 1 deltas);
                     ds = (if 1 < dv then map (\<lambda>v. v div dv) (drop 1 deltas) else drop 1 deltas)
                 in bind_result (EncodeAll ds) (\<lambda>encoded.
                      Inr (time_header timeCompressedPackedSimple (log10 dv) # put_u64 (deltas ! 0) @ words_bytes encoded))))"

lemma delta_loop_reduce:
  "delta_loop i ds mx = (fst (reduce_loop i ds mx dv rle), snd (snd (snd (reduce_loop i ds mx dv rle))))"
  by (induction i arbitrary: ds mx dv rle) (simp_all add: Let_def)

lemma delta_loop_eq:
  assumes "ts \<noteq> []"
  shows "delta_loop (length ts - 1) ts 0 = (fold larger (rev (tl (deltas_of ts))) 0, deltas_of ts)"
  using reduce_eq [OF assms] delta_loop_reduce [of "length ts - 1" ts 0 1000000000000 True]
  by (simp add: reduce_def)

lemma reduce_div_1: "\<not> 1 < dv \<Longrightarrow> reduce_div dv v = dv"
  by (simp add: reduce_div.simps)

lemma find_div_fold: "find_div dv vs = fold (\<lambda>v d. reduce_div d v) vs dv"
proof (induction vs arbitrary: dv)
  case (Cons v vs)
  have "fold (\<lambda>v d. reduce_div d v) ws d = d" if "\<not> 1 < d" for ws d
    using that by (induction ws) (simp_all add: reduce_div_1)
  then show ?case using Cons by (simp add: reduce_div_1)
qed simp

definition max_delta :: "u64 list \<Rightarrow> u64" where
  "max_delta ts = fold larger (rev (tl (deltas_of ts))) 0"

definition rle_deltas :: "u64 list \<Rightarrow> bool" where
  "rle_deltas ts \<longleftrightarrow> 1 < length ts \<and> list_all (\<lambda>d. deltas_of ts ! 1 = d) (drop 2 (deltas_of ts))"

lemma list_all_adjacent:
  assumes "1 < length xs" and "list_all (\<lambda>d. xs ! 1 = d) (drop 2 xs)"
  shows "\<forall>j. 0 < j \<and> j + 1 < length xs \<longrightarrow> xs ! (j + 1) = xs ! j"
proof (intro allI impI)
  have all: "xs ! i = xs ! 1" if "0 < i" "i < length xs" for i
  proof (cases "i = 1")
    case False
    then have "2 \<le> i" using that(1) by linarith
    then obtain k where i: "i = 2 + k" using le_Suc_ex by blast
    then have "xs ! i = drop 2 xs ! k" using that by simp
    moreover have "drop 2 xs ! k \<in> set (drop 2 xs)" using that i by (intro nth_mem) simp
    ultimately show ?thesis using assms(2) by (auto simp: list_all_iff)
  qed simp
  fix j assume "0 < j \<and> j + 1 < length xs"
  then show "xs ! (j + 1) = xs ! j" using all [of j] all [of "j + 1"] by simp
qed

lemma TimeArrayEncodeAll_format:
  assumes "length ts < 2 ^ 63"
  shows "\<exists>b. TimeArrayEncodeAll ts = Inr b \<and> time_format ts b \<and>
    (b \<noteq> [] \<and> drop_bit 4 (hd b) = timeUncompressed \<longleftrightarrow> ts \<noteq> [] \<and> \<not> rle_deltas ts \<and> max_delta ts > MaxValue)"
proof (cases ts)
  case Nil
  then show ?thesis by (simp add: TimeArrayEncodeAll_def tf_empty)
next
  case (Cons t ts')
  define D where "D = deltas_of ts"
  have ne: "ts \<noteq> []" and D: "D = t # diffs t ts'" "length D = length ts" using Cons by (simp_all add: D_def)
  have loop: "(if 1 < length ts then delta_loop (length ts - 1) ts 0 else (0, ts)) = (max_delta ts, D)"
  proof (cases ts')
    case Nil
    then show ?thesis using Cons by (simp add: max_delta_def D_def)
  qed (use delta_loop_eq [OF ne] Cons in \<open>simp add: max_delta_def D_def\<close>)
  note unfolded = TimeArrayEncodeAll_def [of ts, unfolded loop Let_def prod.case D(2)]
  consider "rle_deltas ts" | "\<not> rle_deltas ts" "max_delta ts > MaxValue"
    | "\<not> rle_deltas ts" "\<not> max_delta ts > MaxValue" by blast
  then show ?thesis
  proof cases
    case 1
    let ?dv = "reduce_div 1000000000000 (D ! 1)"
    have dv: "?dv \<in> set powers" "D ! 1 mod ?dv = 0" using reduce_div_props [OF powers_init, of "D ! 1"] by simp_all
    have "\<not> 1 < ?dv \<Longrightarrow> ?dv = 1" by (auto intro: powers_cases [OF dv(1)])
    then have "TimeArrayEncodeAll ts = encodeRLE (D ! 0) (D ! 1) ?dv (length ts)"
      using 1 ne unfolding unfolded rle_deltas_def D_def [symmetric]
      by (cases "1 < ?dv") (simp_all add: encodeRLE_def log10.simps [of 1])
    moreover have "\<forall>j. 0 < j \<and> j + 1 < length ts \<longrightarrow> D ! (j + 1) = D ! j"
      using list_all_adjacent [of D] 1 D by (simp add: rle_deltas_def D_def)
    ultimately show ?thesis
      using rle_format [of ts ?dv] 1 assms dv powers_pow10 [OF dv(1)] unfolding D_def [symmetric]
      by (auto simp: encodeRLE_def rle_deltas_def header_byte)
  next
    case 2
    then have "TimeArrayEncodeAll ts = Inr (push_bit 4 timeUncompressed # words_bytes D)"
      using ne unfolding unfolded rle_deltas_def D_def [symmetric] by auto
    then show ?thesis using tf_raw [OF ne] 2 ne by (simp add: D_def header_raw)
  next
    case 3
    let ?dv = "find_div 1000000000000 (drop 1 D)"
    let ?vs = "if 1 < ?dv then map (\<lambda>v. v div ?dv) (diffs t ts') else diffs t ts'"
    have dv: "?dv \<in> set powers" "\<forall>v \<in> set (diffs t ts'). v mod ?dv = 0"
      using fold_reduce_div_props [OF powers_init, of "drop 1 D"] D by (simp_all add: find_div_fold)
    have "v \<le> MaxValue" if "v \<in> set (diffs t ts')" for v
      using fold_larger [of v "rev (tl D)" 0] that 3(2) D by (simp add: max_delta_def D_def)
    then have "list_all (\<lambda>v. v \<le> MaxValue) ?vs"
      by (auto simp: list_all_iff intro: order_trans [OF word_div_le])
    then obtain ws where ws: "EncodeAll ?vs = Inr ws" using EncodeAll_Inr_iff by blast
    then have "TimeArrayEncodeAll ts =
        Inr (time_header timeCompressedPackedSimple (log10 ?dv) # put_u64 t @ words_bytes ws)"
      using 3 ne D(1) unfolding unfolded rle_deltas_def D_def [symmetric] by auto
    then show ?thesis
      using packed_format [OF dv EncodeAll_decodes [OF ws]] Cons 3 powers_pow10 [OF dv(1)]
      by (simp add: header_byte)
  qed
qed

section \<open>The batch decoder\<close>

text \<open>
  \<open>dst\<close> is reused when its capacity, here its length, suffices; allocation is assumed to
  succeed.
\<close>

definition sized :: "nat \<Rightarrow> u64 list \<Rightarrow> u64 list" where
  "sized count dst = (if length dst < count then replicate count 0 else take count dst)"

definition timeBatchDecodeAllUncompressed :: "bytes \<Rightarrow> u64 list result" where
  "timeBatchDecodeAllUncompressed b =
     (if length (drop 1 b) mod 8 \<noteq> 0 then Inl ErrMultipleOf8Expected else Inr (raw_words (drop 1 b)))"

definition timeBatchDecodeAllSimple :: "bytes \<Rightarrow> u64 list \<Rightarrow> u64 list result" where
  "timeBatchDecodeAllSimple b dst =
     (if length b < 9 then Inl ErrNotEnoughData
      else let dv = pow10 (unat (hd b AND 15))
           in bind_result (CountBytes (drop 9 b)) (\<lambda>count0.
                let count = count0 + 1; buf = sized count dst; first = get_u64 (drop 1 b)
                in bind_result (DecodeBytesBigEndian (drop 1 buf) (drop 9 b)) (\<lambda>(rest, n).
                     if n \<noteq> count - 1 then Inl ErrUnexpectedCount
                     else Inr (first # (if 1 < dv then prefix_scale dv first rest else prefix_sum first rest)))))"

definition timeBatchDecodeAllRLE :: "bytes \<Rightarrow> u64 list result" where
  "timeBatchDecodeAllRLE b =
     (if length b < 9 then Inl ErrNotEnoughData
      else let m = pow10 (unat (hd b AND 15));
               first = get_u64 (drop 1 b);
               (delta, n) = uvarint (drop 9 b)
           in if n \<le> 0 then Inl ErrInvalidRunLength
              else let delta' = delta * m;
                       (count, n') = uvarint (drop (9 + nat n) b)
                   in if n' \<le> 0 then Inl ErrInvalidRepeat
                      else if sint count < 0 then Inl Panic
                      else Inr (arith first delta' (nat (sint count))))"

definition TimeArrayDecodeAll :: "bytes \<Rightarrow> u64 list \<Rightarrow> u64 list result" where
  "TimeArrayDecodeAll b dst =
     (if length b = 0 then Inr []
      else let encoding = drop_bit 4 (hd b)
           in if encoding > timeCompressedRLE then Inl ErrUnknownEncoding
              else if encoding = timeUncompressed then timeBatchDecodeAllUncompressed b
              else if encoding = timeCompressedPackedSimple then timeBatchDecodeAllSimple b dst
              else timeBatchDecodeAllRLE b)"

lemma length_sized [simp]: "length (sized count dst) = count"
  by (simp add: sized_def)

lemma TimeArrayDecodeAll_format:
  assumes "time_format ts b"
  shows "TimeArrayDecodeAll b dst =
    Inr (if b \<noteq> [] \<and> drop_bit 4 (hd b) = timeUncompressed then deltas_of ts else ts)"
  using assms
proof cases
  case tf_empty
  then show ?thesis by (simp add: TimeArrayDecodeAll_def)
next
  case (tf_rle k n first v)
  then show ?thesis
    by (simp add: TimeArrayDecodeAll_def timeBatchDecodeAllRLE_def header_byte Let_def drop_header_value sint_of_nat_small)
next
  case (tf_packed k first ws)
  have "timeCompressedPackedSimple < timeCompressedRLE" by (simp add: time_encodings)
  then show ?thesis using tf_packed
    by (simp add: TimeArrayDecodeAll_def timeBatchDecodeAllSimple_def header_byte Let_def CountBytes_words
        DecodeBytesBigEndian_words pow10_choice less_imp_le not_less)
next
  case tf_raw
  have "timeUncompressed < timeCompressedRLE" by (simp add: time_encodings)
  then show ?thesis using tf_raw
    by (simp add: TimeArrayDecodeAll_def timeBatchDecodeAllUncompressed_def header_raw less_imp_le not_less)
qed

section \<open>Properties\<close>

lemma te_ts_fold_Write: "te_ts (fold te_Write ts e) = te_ts e @ ts" "te_enc (fold te_Write ts e) = te_enc e"
  by (induction ts arbitrary: e) (simp_all add: te_Write_def)

lemma time_format_Nil_iff: "time_format ts b \<Longrightarrow> b = [] \<Longrightarrow> ts = []"
  by (auto elim: time_format_NilE)

text \<open>
  C5: Any sequence of timestamps written to a reset encoder is encoded without error, whatever
  format is chosen, \<open>CountTimestamps\<close> of the bytes is its length, and a \<open>TimeDecoder\<close>, which may
  have been used before, reads back exactly that sequence. (Its scratch array has 240 cells; a
  decoder left in run-length mode must not be given an empty buffer.)
\<close>

theorem time_stream_roundtrip:
  assumes "enc_inv (te_enc e)" and "length ts < 2 ^ 63"
    and "length (d_buf (td_dec d)) = 240" and "ts \<noteq> [] \<or> td_encoding d \<noteq> timeCompressedRLE"
  shows "\<exists>b e' d'. te_Bytes (fold te_Write ts (te_Reset e)) = (Inr b, e') \<and>
    CountTimestamps b = Inr (int (length ts)) \<and>
    td_Init b d = Inr d' \<and> td_err d' = None \<and> td_collect d' = ts"
proof -
  let ?e = "fold te_Write ts (te_Reset e)"
  have "enc_rep (te_enc ?e) []" and "te_ts ?e = ts"
    using enc_rep_Reset [OF assms(1)] by (simp_all add: te_ts_fold_Write te_Reset_def)
  then obtain b e' where b: "te_Bytes ?e = (Inr b, e')" "time_format ts b"
    using te_Bytes_format assms(2) by blast
  then have "b \<noteq> [] \<or> td_encoding d \<noteq> timeCompressedRLE" using assms(4) time_format_Nil_iff by blast
  then show ?thesis
    using b td_Init_format [OF b(2) _ assms(3)] CountTimestamps_format [OF b(2)] by blast
qed

definition fresh_decoder :: TimeDecoder where
  "fresh_decoder = \<lparr>td_v = 0, td_i = 0, td_n = 0, td_ts = [], td_dec = NewDecoder [], td_err = None,
     td_rleDelta = 0, td_encoding = 0\<rparr>"

lemma fresh_decoder_ok: "length (d_buf (td_dec fresh_decoder)) = 240"
  by (simp add: fresh_decoder_def NewDecoder_def)

lemma NewTimeEncoder_inv: "enc_inv (te_enc NewTimeEncoder)"
  using enc_rep_New by (simp add: NewTimeEncoder_def enc_rep_def)

theorem time_stream_roundtrip_witness:
  "enc_inv (te_enc NewTimeEncoder) \<and> length (d_buf (td_dec fresh_decoder)) = 240 \<and>
   (\<exists>b e' d'. te_Bytes (fold te_Write [10, 20, 35] (te_Reset NewTimeEncoder)) = (Inr b, e') \<and>
    CountTimestamps b = Inr 3 \<and>
    td_Init b fresh_decoder = Inr d' \<and> td_err d' = None \<and> td_collect d' = [10, 20, 35])"
  using time_stream_roundtrip [OF NewTimeEncoder_inv _ fresh_decoder_ok, of "[10, 20, 35]"]
    NewTimeEncoder_inv fresh_decoder_ok by simp

text \<open>
  C6: The batch encoder never fails, and what the batch decoder returns for its bytes is known
  exactly: the timestamps themselves, unless the differences are not all equal and one exceeds
  60 bits; the raw format then holds the differences, and the batch decoder returns those. The
  streaming \<open>TimeDecoder\<close> reads the timestamps in every case.
\<close>

theorem time_batch_roundtrip:
  assumes "length ts < 2 ^ 63" and "length (d_buf (td_dec d)) = 240" and "td_encoding d \<noteq> timeCompressedRLE"
  shows "\<exists>b d'. TimeArrayEncodeAll ts = Inr b \<and>
    TimeArrayDecodeAll b dst =
      Inr (if ts \<noteq> [] \<and> \<not> rle_deltas ts \<and> max_delta ts > MaxValue then deltas_of ts else ts) \<and>
    td_Init b d = Inr d' \<and> td_err d' = None \<and> td_collect d' = ts"
proof -
  obtain b where b: "TimeArrayEncodeAll ts = Inr b" "time_format ts b"
    "b \<noteq> [] \<and> drop_bit 4 (hd b) = timeUncompressed \<longleftrightarrow> ts \<noteq> [] \<and> \<not> rle_deltas ts \<and> max_delta ts > MaxValue"
    using TimeArrayEncodeAll_format [OF assms(1)] by blast
  obtain d' where "td_Init b d = Inr d'" "td_err d' = None" "td_collect d' = ts"
    using td_Init_format [OF b(2) _ assms(2)] assms(3) by blast
  then show ?thesis using b(1) TimeArrayDecodeAll_format [OF b(2), of dst, unfolded b(3)] by blast
qed

theorem time_batch_roundtrip_witness:
  "length (d_buf (td_dec fresh_decoder)) = 240 \<and> td_encoding fresh_decoder \<noteq> timeCompressedRLE \<and>
   (\<exists>b d'. TimeArrayEncodeAll [10, 20, 35] = Inr b \<and> TimeArrayDecodeAll b [] = Inr [10, 20, 35] \<and>
    td_Init b fresh_decoder = Inr d' \<and> td_err d' = None \<and> td_collect d' = [10, 20, 35])"
proof -
  have "td_encoding fresh_decoder \<noteq> timeCompressedRLE" by (simp add: fresh_decoder_def timeCompressedRLE_def)
  moreover have "\<not> max_delta [10, 20, 35] > MaxValue" by (simp add: max_delta_def MaxValue_def)
  ultimately show ?thesis
    using time_batch_roundtrip [of "[10, 20, 35]", OF _ fresh_decoder_ok, of "[]"] fresh_decoder_ok by simp
qed

text \<open>
  C7: The two readers of the raw format disagree. For the bytes of \<open>RawBytes\<close>, which hold
  absolute timestamps, the batch decoder returns the timestamps, while \<open>TimeDecoder\<close> returns
  their running sums.
\<close>

theorem raw_bytes_readers:
  assumes "te_ts e = t # ts" and "length (d_buf (td_dec d)) = 240"
  shows "\<exists>b d'. te_RawBytes e = Inr b \<and> TimeArrayDecodeAll b dst = Inr (t # ts) \<and>
    td_Init b d = Inr d' \<and> td_err d' = None \<and> td_collect d' = t # prefix_sum t ts"
proof -
  have raw: "te_RawBytes e = Inr (push_bit 4 timeUncompressed # words_bytes (t # ts))"
    using assms(1) by (simp add: te_RawBytes_def encodeRaw_def)
  have rw: "raw_words (words_bytes (t # ts)) = t # ts" by (rule raw_words_words_bytes)
  have "timeUncompressed < timeCompressedRLE" by (simp add: time_encodings)
  then have "TimeArrayDecodeAll (push_bit 4 timeUncompressed # words_bytes (t # ts)) dst = Inr (t # ts)"
    using rw by (simp add: TimeArrayDecodeAll_def timeBatchDecodeAllUncompressed_def header_raw less_imp_le not_less
        del: words_bytes_simps)
  moreover have "\<exists>d'. td_Init (push_bit 4 timeUncompressed # words_bytes (t # ts)) d = Inr d' \<and> td_err d' = None \<and>
      td_collect d' = t # prefix_sum t ts"
    using rw by (simp add: td_Init_def td_decode_def decodeRaw_def header_raw td_collect_list
        del: words_bytes_simps)
  ultimately show ?thesis using raw by blast
qed

theorem raw_bytes_readers_witness:
  "\<exists>b d'. te_RawBytes (fold te_Write [10, 20] NewTimeEncoder) = Inr b \<and> TimeArrayDecodeAll b [] = Inr [10, 20] \<and>
    td_Init b fresh_decoder = Inr d' \<and> td_err d' = None \<and> td_collect d' = [10, 30]"
proof -
  have "te_ts (fold te_Write [10, 20] NewTimeEncoder) = 10 # [20]"
    by (simp add: te_Write_def NewTimeEncoder_def)
  from raw_bytes_readers [OF this fresh_decoder_ok, of "[]"] show ?thesis by simp
qed

text \<open>A decoder left in run-length mode and given an empty buffer returns timestamps of the old block.\<close>

theorem stale_run_length:
  "\<exists>d. td_Init [] (fresh_decoder\<lparr>td_encoding := timeCompressedRLE, td_n := 3, td_rleDelta := 5\<rparr>) = Inr d \<and>
     td_collect d = [5, 10]"
proof -
  have "arith 5 5 2 = [5, 10]" by (simp add: numeral_2_eq_2)
  then show ?thesis
    by (simp add: td_Init_def td_decode_def fresh_decoder_def td_collect_rle)
qed

end
