(* ===== verification/ValueTypes.thy ===== *)
theory ValueTypes
  imports Prelude
begin

text \<open>
  The values a series holds, \<open>storage/types/value.go\<close>, \<open>value_ptr.go\<close> and \<open>valueType\<close> of
  \<open>utils.go\<close>: a timestamp and a payload of one of five types, or a pointer to a block that was
  moved to a value file. A timestamp is its 64 bits; \<open>UnixNano\<close> reads it as the signed number
  the code compares. A \<open>float64\<close> payload is its IEEE bits.
\<close>

datatype Value =
    FloatValue (unixNano: u64) (float_bits: u64)
  | IntegerValue (unixNano: u64) (int_bits: u64)
  | UnsignedValue (unixNano: u64) (uint_bits: u64)
  | BooleanValue (unixNano: u64) (bool_value: bool)
  | StringValue (unixNano: u64) (string_bytes: bytes)
  | PtrValue (unixNano: u64) (ptr_bytes: bytes) (MinTime: u64) (MaxTime: u64)

definition UnixNano :: "Value \<Rightarrow> int" where
  "UnixNano v = sint (unixNano v)"

definition NewPtrValueValue :: "u64 \<Rightarrow> u64 \<Rightarrow> bytes \<Rightarrow> Value" where
  "NewPtrValueValue mn mx v = PtrValue mn v mn mx"

fun value_Size :: "Value \<Rightarrow> nat" where
  "value_Size (FloatValue _ _) = 16"
| "value_Size (IntegerValue _ _) = 16"
| "value_Size (UnsignedValue _ _) = 16"
| "value_Size (BooleanValue _ _) = 9"
| "value_Size (StringValue _ s) = 8 + length s"
| "value_Size (PtrValue _ b _ _) = length b + 8"

definition valueTypeUndefined :: byte where "valueTypeUndefined = 0"
definition valueTypeFloat64 :: byte where "valueTypeFloat64 = 1"
definition valueTypeInteger :: byte where "valueTypeInteger = 2"
definition valueTypeString :: byte where "valueTypeString = 3"
definition valueTypeBoolean :: byte where "valueTypeBoolean = 4"
definition valueTypeUnsigned :: byte where "valueTypeUnsigned = 5"

lemmas value_types = valueTypeUndefined_def valueTypeFloat64_def valueTypeInteger_def
  valueTypeString_def valueTypeBoolean_def valueTypeUnsigned_def

fun valueType :: "Value \<Rightarrow> byte" where
  "valueType (FloatValue _ _) = valueTypeFloat64"
| "valueType (IntegerValue _ _) = valueTypeInteger"
| "valueType (StringValue _ _) = valueTypeString"
| "valueType (BooleanValue _ _) = valueTypeBoolean"
| "valueType (UnsignedValue _ _) = valueTypeUnsigned"
| "valueType (PtrValue _ _ _ _) = valueTypeUndefined"

lemma UnixNano_inject: "UnixNano v = UnixNano w \<longleftrightarrow> unixNano v = unixNano w"
  by (auto simp: UnixNano_def intro: signed_word_eqI)

lemma UnixNano_bounds: "- (2 ^ 63) \<le> UnixNano v" "UnixNano v < 2 ^ 63"
  using sint_ge [of "unixNano v"] sint_lt [of "unixNano v"] by (simp_all add: UnixNano_def)

end
