(* ===== verification/BlockCodec.thy ===== *)
theory BlockCodec
  imports TimeCodec ValueTypes
begin

text \<open>
  What the typed codecs of \<open>storage/codec\<close> have in common. \<open>EncodeIntegerBlockUsing\<close>,
  \<open>EncodeBooleanBlockUsing\<close> and their kin run the same loop over the values with a timestamp
  encoder and a value encoder, and \<open>DecodeIntegerBlock\<close> and its kin the same loop over the
  two decoders; the typed functions are instances of the definitions here. The locale
  \<open>value_codec\<close> states what a block relies on of a value encoder and decoder, and its lemma
  proves once that a block decodes to the values it was encoded from.
\<close>

section \<open>The shared loops\<close>

text \<open>
  \<open>sel\<close> is the type assertion \<open>v.(types.XValue)\<close>: it yields the timestamp and the raw value,
  or the code panics.
\<close>

fun write_values ::
  "(Value \<Rightarrow> (u64 \<times> 'v) option) \<Rightarrow> ('v \<Rightarrow> 'e \<Rightarrow> 'e) \<Rightarrow> Value list \<Rightarrow> time_encoder \<Rightarrow> 'e \<Rightarrow> (time_encoder \<times> 'e) result" where
  "write_values sel vwrite [] te ve = Inr (te, ve)"
| "write_values sel vwrite (v # vs) te ve =
     (case sel v of
        None \<Rightarrow> Inl Panic
      | Some (t, x) \<Rightarrow> write_values sel vwrite vs (te_Write t te) (vwrite x ve))"

definition encode_block_using ::
  "byte \<Rightarrow> (Value \<Rightarrow> (u64 \<times> 'v) option) \<Rightarrow> ('e \<Rightarrow> 'e) \<Rightarrow> ('v \<Rightarrow> 'e \<Rightarrow> 'e) \<Rightarrow> ('e \<Rightarrow> bytes result) \<Rightarrow>
   Value list \<Rightarrow> time_encoder \<Rightarrow> 'e \<Rightarrow> bytes result" where
  "encode_block_using typ sel vreset vwrite vbytes values tenc venc =
     bind_result (write_values sel vwrite values (te_Reset tenc) (vreset venc)) (\<lambda>(te, ve).
     bind_result (fst (te_Bytes te)) (\<lambda>tb.
     bind_result (vbytes ve) (\<lambda>vb. Inr (packBlock typ tb vb))))"

text \<open>The decoding loop \<open>for j < len(a) && tdec.Next() && vdec.Next()\<close>; the first argument is \<open>len(a) - j\<close>.\<close>

fun decode_pairs ::
  "nat \<Rightarrow> ('s \<Rightarrow> bool \<times> 's) \<Rightarrow> ('s \<Rightarrow> 'v result \<times> 's) \<Rightarrow> TimeDecoder \<Rightarrow> 's \<Rightarrow>
   ((u64 \<times> 'v) list \<times> TimeDecoder \<times> 's) result" where
  "decode_pairs 0 vnext vread td s = Inr ([], td, s)"
| "decode_pairs (Suc k) vnext vread td s =
     (let (tmore, td1) = td_Next td
      in if \<not> tmore then Inr ([], td1, s)
         else let (vmore, s1) = vnext s
              in if \<not> vmore then Inr ([], td1, s1)
                 else (case vread s1 of
                         (Inl e, s2) \<Rightarrow> Inl e
                       | (Inr x, s2) \<Rightarrow>
                           bind_result (decode_pairs k vnext vread td1 s2)
                             (\<lambda>(ps, td', s'). Inr ((td_Read td1, x) # ps, td', s'))))"

text \<open>
  The decoders come from a pool, in whatever state their last use left them. When a decoder
  reports an error the source also returns the values decoded so far, which is left out here.
\<close>

definition decode_block_using ::
  "byte \<Rightarrow> (bytes \<Rightarrow> 's \<Rightarrow> 's result) \<Rightarrow> ('s \<Rightarrow> bool \<times> 's) \<Rightarrow> ('s \<Rightarrow> 'v result \<times> 's) \<Rightarrow> ('s \<Rightarrow> error option) \<Rightarrow>
   TimeDecoder \<Rightarrow> 's \<Rightarrow> bytes \<Rightarrow> (u64 \<times> 'v) list result" where
  "decode_block_using typ setb vnext vread verr tdec vdec block =
     (case block of
        [] \<Rightarrow> Inl Panic
      | blockType # rest \<Rightarrow>
          if blockType \<noteq> typ then Inl ErrInvalidBlockType
          else bind_result (unpackBlock rest) (\<lambda>(tb, vb).
               bind_result (CountTimestamps tb) (\<lambda>sz.
               if sz < 0 then Inl Panic
               else bind_result (td_Init tb tdec) (\<lambda>td.
                    bind_result (setb vb vdec) (\<lambda>vd.
                    bind_result (decode_pairs (nat sz) vnext vread td vd) (\<lambda>(ps, td', vd').
                    case td_err td' of
                      Some e \<Rightarrow> Inl e
                    | None \<Rightarrow> (case verr vd' of Some e \<Rightarrow> Inl e | None \<Rightarrow> Inr ps)))))))"

text \<open>The array blocks pair the batch functions on timestamps and values.\<close>

definition encode_array_block :: "byte \<Rightarrow> ('v list \<Rightarrow> bytes result) \<Rightarrow> u64 list \<times> 'v list \<Rightarrow> bytes result" where
  "encode_array_block typ venc a =
     (if length (fst a) = 0 then Inr []
      else bind_result (venc (snd a)) (\<lambda>vb.
           bind_result (TimeArrayEncodeAll (fst a)) (\<lambda>tb. Inr (packBlock typ tb vb))))"

definition decode_array_block ::
  "byte \<Rightarrow> (bytes \<Rightarrow> 'v list \<Rightarrow> 'v list result) \<Rightarrow> bytes \<Rightarrow> u64 list \<times> 'v list \<Rightarrow> (u64 list \<times> 'v list) result" where
  "decode_array_block typ vdec block a =
     (case block of
        [] \<Rightarrow> Inl Panic
      | blockType # rest \<Rightarrow>
          if blockType \<noteq> typ then Inl ErrInvalidBlockType
          else bind_result (unpackBlock rest) (\<lambda>(tb, vb).
               bind_result (TimeArrayDecodeAll tb (fst a)) (\<lambda>ts.
               bind_result (vdec vb (snd a)) (\<lambda>vs. Inr (ts, vs)))))"

section \<open>Reading a decoder\<close>

text \<open>\<open>Next\<close> and \<open>Read\<close> in turn yield exactly \<open>xs\<close>, with no error so far.\<close>

fun reads :: "('s \<Rightarrow> bool \<times> 's) \<Rightarrow> ('s \<Rightarrow> 'v result \<times> 's) \<Rightarrow> ('s \<Rightarrow> error option) \<Rightarrow> 's \<Rightarrow> 'v list \<Rightarrow> bool" where
  "reads vnext vread verr s [] = (verr s = None)"
| "reads vnext vread verr s (x # xs) =
     (verr s = None \<and>
      (case vnext s of
         (True, s1) \<Rightarrow> (case vread s1 of (Inr y, s2) \<Rightarrow> y = x \<and> reads vnext vread verr s2 xs | (Inl e, s2) \<Rightarrow> False)
       | (False, s1) \<Rightarrow> False))"

lemma td_collect_Cons:
  assumes "td_collect d = t # ts"
  obtains d1 where "td_Next d = (True, d1)" "td_Read d1 = t" "td_collect d1 = ts"
  using assms by (auto simp: td_collect.simps [of d] split: prod.splits if_splits)

lemma td_err_Next: "td_err (snd (td_Next d)) = td_err d"
  by (simp add: td_Next_def Let_def)

lemma decode_pairs_reads:
  assumes "td_collect td = ts" and "td_err td = None" and "reads vnext vread verr s xs" and "length xs = length ts"
  shows "\<exists>td' s'. decode_pairs (length ts) vnext vread td s = Inr (zip ts xs, td', s') \<and> td_err td' = None \<and> verr s' = None"
  using assms
proof (induction ts arbitrary: td s xs)
  case (Cons t ts)
  then obtain x xs' where xs: "xs = x # xs'" by (cases xs) auto
  obtain d1 where d1: "td_Next td = (True, d1)" "td_Read d1 = t" "td_collect d1 = ts"
    using Cons.prems(1) by (rule td_collect_Cons)
  have err: "td_err d1 = None" using td_err_Next [of td] d1(1) Cons.prems(2) by simp
  obtain s1 s2 where s: "vnext s = (True, s1)" "vread s1 = (Inr x, s2)" "reads vnext vread verr s2 xs'"
    using Cons.prems(3) xs by (auto split: prod.splits bool.splits sum.splits)
  then show ?case
    using Cons.IH [OF d1(3) err s(3)] Cons.prems(4) d1 xs by auto
qed simp

lemma write_values_fold:
  "list_all2 (\<lambda>v p. sel v = Some p) vs ps \<Longrightarrow>
   write_values sel vwrite vs te ve = Inr (fold te_Write (map fst ps) te, fold vwrite (map snd ps) ve)"
  by (induction vs ps arbitrary: te ve rule: list_all2_induct) auto

lemma length_time_format: "time_format ts b \<Longrightarrow> length b \<le> 29 + 8 * length ts"
proof (induction rule: time_format.cases)
  case (tf_rle k n first v)
  then show ?case
    using length_put_uvarint [of v] length_put_uvarint [of "of_nat n"] by simp
next
  case (tf_packed k first ws)
  then show ?case using length_decode_words [of ws] by (simp add: prefix_scale_sum)
qed simp_all

section \<open>The contract of a value codec\<close>

locale value_codec =
  fixes vreset :: "'e \<Rightarrow> 'e" and vwrite :: "'v \<Rightarrow> 'e \<Rightarrow> 'e" and vbytes :: "'e \<Rightarrow> bytes result"
    and setb :: "bytes \<Rightarrow> 's \<Rightarrow> 's result" and vnext :: "'s \<Rightarrow> bool \<times> 's" and vread :: "'s \<Rightarrow> 'v result \<times> 's"
    and verr :: "'s \<Rightarrow> error option"
    and einv :: "'e \<Rightarrow> bool" and dinv :: "'s \<Rightarrow> bool" and ok :: "'v list \<Rightarrow> bool"
  assumes encode_decode:
    "einv e \<Longrightarrow> dinv s \<Longrightarrow> ok xs \<Longrightarrow> xs \<noteq> [] \<Longrightarrow>
     \<exists>b s'. vbytes (fold vwrite xs (vreset e)) = Inr b \<and> setb b s = Inr s' \<and> reads vnext vread verr s' xs"
begin

lemma block_roundtrip:
  assumes sel: "list_all2 (\<lambda>v p. sel v = Some p) vs ps" and ne: "vs \<noteq> []" and len: "length vs < 2 ^ 58"
    and enc: "enc_inv (te_enc tenc)" "einv venc" and dec: "length (d_buf (td_dec tdec)) = 240" "dinv vdec"
    and ok: "ok (map snd ps)"
  shows "\<exists>block. encode_block_using bt sel vreset vwrite vbytes vs tenc venc = Inr block \<and>
    decode_block_using bt setb vnext vread verr tdec vdec block = Inr ps"
proof -
  let ?ts = "map fst ps" and ?xs = "map snd ps"
  have lps: "length ps = length vs" using sel by (simp add: list_all2_lengthD)
  then have pne: "?ts \<noteq> []" "?xs \<noteq> []" using ne by auto
  have "enc_rep (te_enc (fold te_Write ?ts (te_Reset tenc))) []"
    "te_ts (fold te_Write ?ts (te_Reset tenc)) = ?ts"
    using enc_rep_Reset [OF enc(1)] by (simp_all add: te_ts_fold_Write te_Reset_def)
  then obtain tb te' where tb: "te_Bytes (fold te_Write ?ts (te_Reset tenc)) = (Inr tb, te')" "time_format ?ts tb"
    using te_Bytes_format [of _ ?ts] len lps by fastforce
  obtain vb vd where vb: "vbytes (fold vwrite ?xs (vreset venc)) = Inr vb" "setb vb vdec = Inr vd"
    "reads vnext vread verr vd ?xs"
    using encode_decode [OF enc(2) dec(2) ok pne(2)] by blast
  have blk: "encode_block_using bt sel vreset vwrite vbytes vs tenc venc = Inr (packBlock bt tb vb)"
    using tb(1) vb(1) by (simp add: encode_block_using_def write_values_fold [OF sel])
  have "tb \<noteq> []" using time_format_Nil_iff [OF tb(2)] pne by auto
  then obtain td where td: "td_Init tb tdec = Inr td" "td_err td = None" "td_collect td = ?ts"
    using td_Init_format [OF tb(2) _ dec(1)] by blast
  obtain td' vd' where p: "decode_pairs (length ?ts) vnext vread td vd = Inr (zip ?ts ?xs, td', vd')"
    "td_err td' = None" "verr vd' = None"
    using decode_pairs_reads [OF td(3,2) vb(3)] by auto
  have "length tb < 2 ^ 62" using length_time_format [OF tb(2)] len lps by simp
  then have "unpackBlock (tl (packBlock bt tb vb)) = Inr (tb, vb)" by (rule unpackBlock_packBlock)
  then have "decode_block_using bt setb vnext vread verr tdec vdec (packBlock bt tb vb) = Inr ps"
    using p td vb CountTimestamps_format [OF tb(2)]
    by (simp add: decode_block_using_def packBlock_def zip_map_fst_snd)
  then show ?thesis using blk by blast
qed

end

lemma array_block_roundtrip:
  assumes "length ts < 2 ^ 58" and "ts \<noteq> []"
    and "venc xs = Inr vb" and "\<And>dst. vdec vb dst = Inr xs"
  shows "\<exists>block. encode_array_block typ venc (ts, xs) = Inr block \<and>
    decode_array_block typ vdec block a =
      Inr (if \<not> rle_deltas ts \<and> max_delta ts > MaxValue then deltas_of ts else ts, xs)"
proof -
  obtain tb where tb: "TimeArrayEncodeAll ts = Inr tb" "time_format ts tb"
    "tb \<noteq> [] \<and> drop_bit 4 (hd tb) = timeUncompressed \<longleftrightarrow> ts \<noteq> [] \<and> \<not> rle_deltas ts \<and> max_delta ts > MaxValue"
    using TimeArrayEncodeAll_format [of ts] assms(1) by auto
  have "length tb < 2 ^ 62" using length_time_format [OF tb(2)] assms(1) by simp
  then have "unpackBlock (tl (packBlock typ tb vb)) = Inr (tb, vb)" by (rule unpackBlock_packBlock)
  then have "decode_array_block typ vdec (packBlock typ tb vb) a =
      Inr (if \<not> rle_deltas ts \<and> max_delta ts > MaxValue then deltas_of ts else ts, xs)"
    using TimeArrayDecodeAll_format [OF tb(2), of "fst a", unfolded tb(3)] assms(2,4)
    by (simp add: decode_array_block_def packBlock_def)
  then show ?thesis using tb(1) assms(2,3) by (simp add: encode_array_block_def)
qed

end
