(* ===== verification/IntCodec.thy ===== *)
theory IntCodec
  imports BlockCodec
begin

text \<open>
  Integers, \<open>storage/codec/int.go\<close>: \<open>IntegerEncoder\<close> and \<open>IntegerDecoder\<close>, the integer and
  unsigned blocks, and the batch functions on arrays. Values are replaced by their zig-zag
  coded differences and stored run-length coded, packed with simple8b, or raw. An \<open>int64\<close> and
  a \<open>uint64\<close> are the same 64 bits, so the unsigned codec shares the integer one, as in the
  source.
\<close>

definition intUncompressed :: byte where "intUncompressed = 0"
definition intCompressedSimple :: byte where "intCompressedSimple = 1"
definition intCompressedRLE :: byte where "intCompressedRLE = 2"

lemmas int_encodings = intUncompressed_def intCompressedSimple_def intCompressedRLE_def

section \<open>The encoder\<close>

record IntegerEncoder =
  ie_prev :: u64
  ie_rle :: bool
  ie_values :: "u64 list"

definition NewIntegerEncoder :: IntegerEncoder where
  "NewIntegerEncoder = \<lparr>ie_prev = 0, ie_rle = True, ie_values = []\<rparr>"

definition ie_Reset :: "IntegerEncoder \<Rightarrow> IntegerEncoder" where
  "ie_Reset e = e\<lparr>ie_prev := 0, ie_rle := True, ie_values := []\<rparr>"

definition ie_Write :: "u64 \<Rightarrow> IntegerEncoder \<Rightarrow> IntegerEncoder" where
  "ie_Write v e =
     (let delta = v - ie_prev e;
          enc = ZigZagEncode delta;
          e1 = e\<lparr>ie_prev := v\<rparr>;
          e2 = (if 1 < length (ie_values e1)
                then e1\<lparr>ie_rle := (ie_rle e1 \<and> ie_values e1 ! (length (ie_values e1) - 1) = enc)\<rparr> else e1)
      in e2\<lparr>ie_values := ie_values e2 @ [enc]\<rparr>)"

definition ie_encodeRLE :: "IntegerEncoder \<Rightarrow> bytes result" where
  "ie_encodeRLE e =
     (if length (ie_values e) < 2 then Inl Panic
      else Inr (push_bit 4 intCompressedRLE # put_u64 (ie_values e ! 0) @ put_uvarint (ie_values e ! 1) @
                put_uvarint (of_nat (length (ie_values e) - 1))))"

definition ie_encodePacked :: "IntegerEncoder \<Rightarrow> bytes result" where
  "ie_encodePacked e =
     (case ie_values e of
        [] \<Rightarrow> Inr []
      | first # rest \<Rightarrow>
          bind_result (EncodeAll rest) (\<lambda>encoded.
            Inr (push_bit 4 intCompressedSimple # put_u64 first @ words_bytes encoded)))"

definition ie_encodeUncompressed :: "IntegerEncoder \<Rightarrow> bytes result" where
  "ie_encodeUncompressed e =
     (if length (ie_values e) = 0 then Inr []
      else Inr (push_bit 4 intUncompressed # words_bytes (ie_values e)))"

text \<open>\<open>Bytes\<close> packs \<open>e.values\<close> in place, so the encoder has to be reset before its next use.\<close>

definition ie_Bytes :: "IntegerEncoder \<Rightarrow> bytes result" where
  "ie_Bytes e =
     (if ie_rle e \<and> 2 < length (ie_values e) then ie_encodeRLE e
      else if list_ex (\<lambda>v. v > MaxValue) (ie_values e) then ie_encodeUncompressed e
      else ie_encodePacked e)"

section \<open>The decoder\<close>

record IntegerDecoder =
  id_values :: "u64 list"
  id_bytes :: bytes
  id_i :: int
  id_n :: int
  id_prev :: u64
  id_first :: bool
  id_rleFirst :: u64
  id_rleDelta :: u64
  id_encoding :: byte
  id_err :: "error option"

definition id_SetBytes :: "bytes \<Rightarrow> IntegerDecoder \<Rightarrow> IntegerDecoder" where
  "id_SetBytes b d =
     (let d1 = (case b of
                  [] \<Rightarrow> d\<lparr>id_encoding := 0, id_bytes := []\<rparr>
                | h # rest \<Rightarrow> d\<lparr>id_encoding := drop_bit 4 h, id_bytes := rest\<rparr>)
      in d1\<lparr>id_i := 0, id_n := 0, id_prev := 0, id_first := True, id_rleFirst := 0, id_rleDelta := 0, id_err := None\<rparr>)"

definition id_decodeRLE :: "IntegerDecoder \<Rightarrow> IntegerDecoder" where
  "id_decodeRLE d =
     (if length (id_bytes d) = 0 then d
      else if length (id_bytes d) < 8 then d\<lparr>id_err := Some ErrNotEnoughData\<rparr>
      else let first = get_u64 (id_bytes d);
               (value, n) = uvarint (drop 8 (id_bytes d))
           in if n \<le> 0 then d\<lparr>id_err := Some ErrInvalidRunLength\<rparr>
              else let (count, n') = uvarint (drop (8 + nat n) (id_bytes d))
                   in if n' \<le> 0 then d\<lparr>id_err := Some ErrInvalidRepeat\<rparr>
                      else d\<lparr>id_rleFirst := first, id_rleDelta := value, id_n := sint (count + 1), id_i := 0, id_bytes := []\<rparr>)"

definition id_decodePacked :: "IntegerDecoder \<Rightarrow> IntegerDecoder" where
  "id_decodePacked d =
     (if length (id_bytes d) = 0 then d
      else if length (id_bytes d) < 8 then d\<lparr>id_err := Some ErrNotEnoughData\<rparr>
      else let v = get_u64 (id_bytes d);
               d1 = (if id_first d
                     then d\<lparr>id_first := False, id_n := 1, id_values := (id_values d)[0 := v]\<rparr>
                     else (case Decode (id_values d) v of
                             Inl e \<Rightarrow> d\<lparr>id_err := Some e, id_n := 0\<rparr>
                           | Inr (vals, n) \<Rightarrow> d\<lparr>id_values := vals, id_n := int n\<rparr>))
           in d1\<lparr>id_i := 0, id_bytes := drop 8 (id_bytes d)\<rparr>)"

definition id_decodeUncompressed :: "IntegerDecoder \<Rightarrow> IntegerDecoder" where
  "id_decodeUncompressed d =
     (if length (id_bytes d) = 0 then d
      else if length (id_bytes d) < 8 then d\<lparr>id_err := Some ErrNotEnoughData\<rparr>
      else d\<lparr>id_values := (id_values d)[0 := get_u64 (id_bytes d)], id_i := 0, id_n := 1, id_bytes := drop 8 (id_bytes d)\<rparr>)"

definition id_Next :: "IntegerDecoder \<Rightarrow> bool \<times> IntegerDecoder" where
  "id_Next d =
     (if id_n d \<le> id_i d \<and> length (id_bytes d) = 0 then (False, d)
      else let d1 = d\<lparr>id_i := id_i d + 1\<rparr>;
               d2 = (if id_n d1 \<le> id_i d1 then
                       (if id_encoding d1 = intUncompressed then id_decodeUncompressed d1
                        else if id_encoding d1 = intCompressedSimple then id_decodePacked d1
                        else if id_encoding d1 = intCompressedRLE then id_decodeRLE d1
                        else d1\<lparr>id_err := Some ErrUnknownEncoding\<rparr>)
                     else d1)
           in (id_err d2 = None \<and> id_i d2 < id_n d2, d2))"

text \<open>\<open>Read\<close> moves \<open>prev\<close>, so it is called once per \<open>Next\<close>.\<close>

definition id_Read :: "IntegerDecoder \<Rightarrow> u64 result \<times> IntegerDecoder" where
  "id_Read d =
     (if id_encoding d = intCompressedRLE
      then (Inr (ZigZagDecode (id_rleFirst d) + word_of_int (id_i d) * ZigZagDecode (id_rleDelta d)), d)
      else if id_i d < 0 \<or> int (length (id_values d)) \<le> id_i d then (Inl Panic, d)
      else let v = ZigZagDecode (id_values d ! nat (id_i d)) + id_prev d
           in (Inr v, d\<lparr>id_prev := v\<rparr>))"

abbreviation id_reads :: "IntegerDecoder \<Rightarrow> u64 list \<Rightarrow> bool" where
  "id_reads \<equiv> reads id_Next id_Read id_err"

lemma int_encodings_distinct [simp]:
  "intUncompressed \<noteq> intCompressedSimple" "intUncompressed \<noteq> intCompressedRLE" "intCompressedSimple \<noteq> intCompressedRLE"
  "intCompressedSimple \<noteq> intUncompressed" "intCompressedRLE \<noteq> intUncompressed" "intCompressedRLE \<noteq> intCompressedSimple"
  by (simp_all add: int_encodings)

lemma id_reads_raw:
  assumes "id_encoding d = intUncompressed" and "id_err d = None" and "id_n d \<le> id_i d + 1"
    and "id_bytes d = words_bytes zs" and "length (id_values d) = 240"
  shows "id_reads d (prefix_sum (id_prev d) (map ZigZagDecode zs))"
  using assms
proof (induction zs arbitrary: d)
  case (Cons z zs)
  let ?d = "d\<lparr>id_values := (id_values d)[0 := z], id_i := 0, id_n := 1, id_bytes := words_bytes zs\<rparr>"
  let ?d' = "?d\<lparr>id_prev := ZigZagDecode z + id_prev d\<rparr>"
  have "id_Next d = (True, ?d)"
    using Cons.prems by (simp add: id_Next_def id_decodeUncompressed_def)
  moreover have "id_Read ?d = (Inr (ZigZagDecode z + id_prev d), ?d')"
    using Cons.prems by (simp add: id_Read_def Let_def)
  moreover have "id_reads ?d' (prefix_sum (id_prev ?d') (map ZigZagDecode zs))"
    using Cons.prems by (intro Cons.IH) simp_all
  ultimately show ?case using Cons.prems(2) by simp
qed simp

lemma id_reads_packed:
  assumes "id_encoding d = intCompressedSimple" and "id_err d = None" and "\<not> id_first d"
    and "0 \<le> id_i d" and "id_n d \<le> 240" and "length (id_values d) = 240" and "id_bytes d = words_bytes ws"
    and "vs = drop (nat (id_i d + 1)) (take (nat (id_n d)) (id_values d)) @ decode_words ws"
  shows "id_reads d (prefix_sum (id_prev d) (map ZigZagDecode vs))"
  using assms
proof (induction vs arbitrary: d ws)
  case (Cons v vs)
  show ?case
  proof (cases "id_i d + 1 < id_n d")
    case True
    let ?d = "d\<lparr>id_i := id_i d + 1\<rparr>"
    let ?d' = "?d\<lparr>id_prev := ZigZagDecode v + id_prev d\<rparr>"
    let ?buf = "take (nat (id_n d)) (id_values d)"
    have len: "nat (id_i d + 1) < length ?buf" using True Cons.prems by simp
    then have split: "drop (nat (id_i d + 1)) ?buf = ?buf ! nat (id_i d + 1) # drop (nat (id_i d + 1 + 1)) ?buf"
      using Cons.prems(4) Cons_nth_drop_Suc [OF len, symmetric] by (simp only: nat_add_distrib) simp
    then have v: "v = id_values d ! nat (id_i d + 1)" "vs = drop (nat (id_i d + 1 + 1)) ?buf @ decode_words ws"
      using Cons.prems(8) len by auto
    have "id_Next d = (True, ?d)" using True Cons.prems by (simp add: id_Next_def)
    moreover have "id_Read ?d = (Inr (ZigZagDecode v + id_prev d), ?d')"
      using True Cons.prems v(1) by (simp add: id_Read_def Let_def)
    moreover have "id_reads ?d' (prefix_sum (id_prev ?d') (map ZigZagDecode vs))"
      using Cons.prems v(2) by (intro Cons.IH [where ws = ws]) simp_all
    ultimately show ?thesis using Cons.prems(2) by simp
  next
    case False
    then have "drop (nat (id_i d + 1)) (take (nat (id_n d)) (id_values d)) = []" by simp
    then have dw: "decode_words ws = v # vs" using Cons.prems(8) by simp
    then obtain w us where ws: "ws = w # us" by (cases ws) auto
    have wb: "0 < length (decode_word w)" "length (decode_word w) \<le> 240" by (rule decode_word_bounds)+
    let ?vals = "decode_word w @ drop (length (decode_word w)) (id_values d)"
    let ?d = "d\<lparr>id_values := ?vals, id_n := int (length (decode_word w)), id_i := 0, id_bytes := words_bytes us\<rparr>"
    let ?d' = "?d\<lparr>id_prev := ZigZagDecode v + id_prev d\<rparr>"
    have v: "decode_word w ! 0 = v" "drop 1 (decode_word w) @ decode_words us = vs"
      using dw wb ws by (cases "decode_word w"; simp)+
    have nx: "id_Next d = (True, ?d)"
      using False Cons.prems wb ws by (simp add: id_Next_def id_decodePacked_def Decode_eq)
    moreover have "id_Read ?d = (Inr (ZigZagDecode v + id_prev d), ?d')"
      using Cons.prems(1,6) v(1) wb by (simp add: id_Read_def nth_append Let_def)
    moreover have "id_reads ?d' (prefix_sum (id_prev ?d') (map ZigZagDecode vs))"
      using Cons.prems v(2) wb by (intro Cons.IH [where ws = us]) simp_all
    ultimately show ?thesis using Cons.prems(2) by simp
  qed
qed simp

lemma id_reads_rle:
  assumes "id_encoding d = intCompressedRLE" and "id_err d = None" and "id_bytes d = []"
  shows "id_reads d (arith (ZigZagDecode (id_rleFirst d) + word_of_int (id_i d + 1) * ZigZagDecode (id_rleDelta d))
    (ZigZagDecode (id_rleDelta d)) (nat (id_n d - id_i d - 1)))"
  using assms
proof (induction "nat (id_n d - id_i d - 1)" arbitrary: d)
  case 0
  then show ?case by simp
next
  case (Suc m)
  let ?d = "d\<lparr>id_i := id_i d + 1\<rparr>"
  have lt: "id_i d + 1 < id_n d" using Suc.hyps(2) by simp
  then have nx: "id_Next d = (True, ?d)" using Suc.prems by (simp add: id_Next_def)
  have m: "m = nat (id_n ?d - id_i ?d - 1)" using Suc.hyps(2) by simp
  have "id_reads ?d (arith (ZigZagDecode (id_rleFirst ?d) + word_of_int (id_i ?d + 1) * ZigZagDecode (id_rleDelta ?d))
    (ZigZagDecode (id_rleDelta ?d)) m)"
    unfolding m by (rule Suc.hyps(1) [OF m]) (use Suc.prems in simp_all)
  then show ?case
    using nx Suc.prems unfolding Suc.hyps(2) [symmetric]
    by (simp add: id_Read_def algebra_simps)
qed

section \<open>The format\<close>

inductive int_format :: "u64 list \<Rightarrow> bytes \<Rightarrow> bool" where
  if_empty: "int_format [] []"
| if_rle: "0 < n \<Longrightarrow> n < 2 ^ 63 \<Longrightarrow>
    int_format (arith first delta n)
      (push_bit 4 intCompressedRLE # put_u64 (ZigZagEncode first) @ put_uvarint (ZigZagEncode delta) @ put_uvarint (of_nat (n - 1)))"
| if_packed: "decode_words ws = map ZigZagEncode (diffs x xs) \<Longrightarrow>
    int_format (x # xs) (push_bit 4 intCompressedSimple # put_u64 (ZigZagEncode x) @ words_bytes ws)"
| if_raw: "xs \<noteq> [] \<Longrightarrow> int_format xs (push_bit 4 intUncompressed # words_bytes (map ZigZagEncode (diffs 0 xs)))"

inductive_cases int_format_NilE: "int_format xs []"

lemma int_header [simp]:
  "drop_bit 4 (push_bit 4 intCompressedRLE) = intCompressedRLE"
  "drop_bit 4 (push_bit 4 intCompressedSimple) = intCompressedSimple"
  "drop_bit 4 (push_bit 4 intUncompressed) = intUncompressed"
  by (simp_all add: int_encodings)

lemma zigzag_id [simp]: "map ZigZagDecode (map ZigZagEncode xs) = xs" "map (ZigZagDecode \<circ> ZigZagEncode) xs = xs"
  by (simp_all add: map_idI)

lemma id_SetBytes_format:
  assumes "int_format xs b" and "length (id_values d) = 240"
  shows "id_reads (id_SetBytes b d) xs"
  using assms(1)
proof cases
  case if_empty
  then show ?thesis by (simp add: id_SetBytes_def Let_def)
next
  case (if_rle n first delta)
  let ?d = "id_SetBytes b d"
  let ?d1 = "?d\<lparr>id_rleFirst := ZigZagEncode first, id_rleDelta := ZigZagEncode delta, id_n := int n, id_i := 0, id_bytes := []\<rparr>"
  have b8: "drop (8 + length (put_uvarint z)) (put_u64 f @ put_uvarint z @ rest) = rest" for f z rest by simp
  have "of_nat (n - 1) + 1 = (of_nat n :: u64)" using if_rle(3) by (cases n) simp_all
  then have cnt: "sint (of_nat (n - 1) + 1 :: u64) = int n" using sint_of_nat_small [OF if_rle(4)] by simp
  have nx: "id_Next ?d = (True, ?d1)"
    using if_rle cnt by (simp add: id_Next_def id_decodeRLE_def id_SetBytes_def b8 add.commute)
  have "id_reads ?d1 (arith (first + delta) delta (n - 1))"
    using id_reads_rle [of ?d1] if_rle by (simp add: id_SetBytes_def nat_diff_distrib)
  then show ?thesis
    using nx if_rle by (cases n) (simp_all add: id_Read_def id_SetBytes_def)
next
  case (if_packed ws x xs')
  let ?d = "id_SetBytes b d"
  let ?d1 = "?d\<lparr>id_first := False, id_n := 1, id_values := (id_values d)[0 := ZigZagEncode x], id_i := 0, id_bytes := words_bytes ws\<rparr>"
  have nx: "id_Next ?d = (True, ?d1)"
    using if_packed by (simp add: id_Next_def id_decodePacked_def id_SetBytes_def)
  have rd: "id_Read ?d1 = (Inr x, ?d1\<lparr>id_prev := x\<rparr>)"
    using if_packed assms(2) by (simp add: id_Read_def id_SetBytes_def Let_def)
  have "id_reads (?d1\<lparr>id_prev := x\<rparr>) (prefix_sum (id_prev (?d1\<lparr>id_prev := x\<rparr>)) (map ZigZagDecode (decode_words ws)))"
    using if_packed assms(2) by (intro id_reads_packed [where ws = ws]) (simp_all add: id_SetBytes_def)
  then have "id_reads (?d1\<lparr>id_prev := x\<rparr>) xs'" using if_packed(3) by simp
  then show ?thesis using nx rd if_packed by (simp add: id_SetBytes_def)
next
  case if_raw
  have "id_reads (id_SetBytes b d) (prefix_sum (id_prev (id_SetBytes b d)) (map ZigZagDecode (map ZigZagEncode (diffs 0 xs))))"
    using if_raw assms(2) by (intro id_reads_raw) (simp_all add: id_SetBytes_def)
  then show ?thesis using if_raw by (simp add: id_SetBytes_def)
qed

section \<open>What the encoder writes\<close>

definition equal_tail :: "'a list \<Rightarrow> bool" where
  "equal_tail xs \<longleftrightarrow> (\<forall>j. 0 < j \<and> j + 1 < length xs \<longrightarrow> xs ! (j + 1) = xs ! j)"

lemma equal_tail_snoc: "equal_tail (xs @ [x]) \<longleftrightarrow> equal_tail xs \<and> (1 < length xs \<longrightarrow> xs ! (length xs - 1) = x)"
proof
  assume l: "equal_tail (xs @ [x])"
  have "equal_tail xs" unfolding equal_tail_def
  proof (intro allI impI)
    fix j assume "0 < j \<and> j + 1 < length xs"
    then show "xs ! (j + 1) = xs ! j"
      using l [unfolded equal_tail_def, rule_format, of j] by (simp add: nth_append split: if_splits)
  qed
  moreover have "xs ! (length xs - 1) = x" if len: "1 < length xs"
  proof -
    obtain k where k: "length xs = Suc k" "0 < k" using len by (cases "length xs") auto
    then show ?thesis using l [unfolded equal_tail_def, rule_format, of k] by (simp add: nth_append)
  qed
  ultimately show "equal_tail xs \<and> (1 < length xs \<longrightarrow> xs ! (length xs - 1) = x)" by blast
next
  assume r: "equal_tail xs \<and> (1 < length xs \<longrightarrow> xs ! (length xs - 1) = x)"
  show "equal_tail (xs @ [x])" unfolding equal_tail_def
  proof (intro allI impI)
    fix j assume j: "0 < j \<and> j + 1 < length (xs @ [x])"
    show "(xs @ [x]) ! (j + 1) = (xs @ [x]) ! j"
    proof (cases "j + 1 < length xs")
      case True
      then show ?thesis using r j by (simp add: nth_append equal_tail_def)
    next
      case False
      then have "length xs = j + 1" using j by simp
      then show ?thesis using r j by (simp add: nth_append)
    qed
  qed
qed

lemma diffs_snoc: "diffs p (xs @ [x]) = diffs p xs @ [x - (if xs = [] then p else last xs)]"
  by (induction xs arbitrary: p) auto

lemma ie_Write_fields:
  "ie_values (ie_Write v e) = ie_values e @ [ZigZagEncode (v - ie_prev e)]"
  "ie_prev (ie_Write v e) = v"
  "ie_rle (ie_Write v e) \<longleftrightarrow> ie_rle e \<and>
     (1 < length (ie_values e) \<longrightarrow> ie_values e ! (length (ie_values e) - 1) = ZigZagEncode (v - ie_prev e))"
  by (simp_all add: ie_Write_def Let_def)

lemma ie_fold_Write:
  "ie_values (fold ie_Write xs (ie_Reset e)) = map ZigZagEncode (diffs 0 xs)"
  "ie_prev (fold ie_Write xs (ie_Reset e)) = (if xs = [] then 0 else last xs)"
  "ie_rle (fold ie_Write xs (ie_Reset e)) = equal_tail (map ZigZagEncode (diffs 0 xs))"
proof (induction xs rule: rev_induct)
  case Nil
  show "ie_values (fold ie_Write [] (ie_Reset e)) = map ZigZagEncode (diffs 0 [])"
    "ie_prev (fold ie_Write [] (ie_Reset e)) = (if [] = [] then 0 else last [])"
    "ie_rle (fold ie_Write [] (ie_Reset e)) = equal_tail (map ZigZagEncode (diffs 0 []))"
    by (simp_all add: ie_Reset_def equal_tail_def)
next
  case (snoc x xs)
  show "ie_values (fold ie_Write (xs @ [x]) (ie_Reset e)) = map ZigZagEncode (diffs 0 (xs @ [x]))"
    "ie_prev (fold ie_Write (xs @ [x]) (ie_Reset e)) = (if xs @ [x] = [] then 0 else last (xs @ [x]))"
    "ie_rle (fold ie_Write (xs @ [x]) (ie_Reset e)) = equal_tail (map ZigZagEncode (diffs 0 (xs @ [x])))"
    using snoc by (simp_all add: ie_Write_fields diffs_snoc equal_tail_snoc)
qed

lemma zigzag_inject: "ZigZagEncode x = ZigZagEncode y \<longleftrightarrow> x = y"
  by (metis ZigZag_roundtrip)

lemma rle_progression:
  assumes "equal_tail (map ZigZagEncode (diffs 0 xs))" and "2 < length xs"
  shows "xs = arith (xs ! 0) (xs ! 1 - xs ! 0) (length xs)"
proof -
  obtain x y ys where xs: "xs = x # y # ys" using assms(2) by (cases xs; cases "tl xs") auto
  let ?Z = "map ZigZagEncode (diffs 0 xs)"
  have "tl ?Z = replicate (length ?Z - 1) (?Z ! 1)"
    using assms by (intro adjacent_equal) (simp_all add: equal_tail_def)
  then have "map ZigZagEncode (diffs x (y # ys)) = map ZigZagEncode (replicate (length (y # ys)) (y - x))"
    by (simp add: xs)
  then have "diffs x (y # ys) = replicate (length (y # ys)) (y - x)"
    using zigzag_id(1) by metis
  then have "y # ys = arith (x + (y - x)) (y - x) (length (y # ys))" by (rule diffs_replicate)
  then show ?thesis using xs by simp
qed

lemma int_rle_format:
  assumes "equal_tail (map ZigZagEncode (diffs 0 xs))" and "2 < length xs" and "length xs < 2 ^ 63"
  shows "int_format xs (push_bit 4 intCompressedRLE # put_u64 (map ZigZagEncode (diffs 0 xs) ! 0) @
    put_uvarint (map ZigZagEncode (diffs 0 xs) ! 1) @ put_uvarint (of_nat (length xs - 1)))"
proof -
  have "int_format (arith (xs ! 0) (xs ! 1 - xs ! 0) (length xs)) (push_bit 4 intCompressedRLE #
      put_u64 (ZigZagEncode (xs ! 0)) @ put_uvarint (ZigZagEncode (xs ! 1 - xs ! 0)) @ put_uvarint (of_nat (length xs - 1)))"
    using assms(2,3) by (intro if_rle) linarith+
  moreover have "map ZigZagEncode (diffs 0 xs) ! 0 = ZigZagEncode (xs ! 0)"
    "map ZigZagEncode (diffs 0 xs) ! 1 = ZigZagEncode (xs ! 1 - xs ! 0)"
  proof -
    have "0 < length xs" and "1 < length xs" using assms(2) by linarith+
    then show "map ZigZagEncode (diffs 0 xs) ! 0 = ZigZagEncode (xs ! 0)"
      "map ZigZagEncode (diffs 0 xs) ! 1 = ZigZagEncode (xs ! 1 - xs ! 0)"
      by (simp_all add: nth_diffs)
  qed
  ultimately show ?thesis using rle_progression [OF assms(1,2)] by simp
qed

lemma ie_Bytes_format:
  assumes "length xs < 2 ^ 63"
  shows "\<exists>b. ie_Bytes (fold ie_Write xs (ie_Reset e)) = Inr b \<and> int_format xs b"
proof -
  let ?e = "fold ie_Write xs (ie_Reset e)"
  let ?Z = "map ZigZagEncode (diffs 0 xs)"
  have bytes: "ie_Bytes ?e =
      (if equal_tail ?Z \<and> 2 < length xs
       then Inr (push_bit 4 intCompressedRLE # put_u64 (?Z ! 0) @ put_uvarint (?Z ! 1) @ put_uvarint (of_nat (length xs - 1)))
       else if list_ex (\<lambda>v. v > MaxValue) ?Z
       then (if length xs = 0 then Inr [] else Inr (push_bit 4 intUncompressed # words_bytes ?Z))
       else case ?Z of
              [] \<Rightarrow> Inr []
            | first # rest \<Rightarrow>
                bind_result (EncodeAll rest) (\<lambda>encoded.
                  Inr (push_bit 4 intCompressedSimple # put_u64 first @ words_bytes encoded)))"
    by (simp add: ie_Bytes_def ie_encodeRLE_def ie_encodeUncompressed_def ie_encodePacked_def ie_fold_Write)
  consider "equal_tail ?Z" "2 < length xs" | "\<not> (equal_tail ?Z \<and> 2 < length xs)" "list_ex (\<lambda>v. v > MaxValue) ?Z"
    | "\<not> (equal_tail ?Z \<and> 2 < length xs)" "\<not> list_ex (\<lambda>v. v > MaxValue) ?Z" by blast
  then show ?thesis
  proof cases
    case 1
    then show ?thesis using int_rle_format [OF 1 assms] unfolding bytes by simp
  next
    case 2
    then have "xs \<noteq> []" by auto
    then show ?thesis using 2 if_raw [of xs] unfolding bytes by auto
  next
    case 3
    have "list_all (\<lambda>v. v \<le> MaxValue) (tl ?Z)"
      using 3(2) by (cases xs) (auto simp: list_ex_iff list_all_iff not_less)
    then obtain ws where ws: "EncodeAll (tl ?Z) = Inr ws" using EncodeAll_Inr_iff by blast
    have b: "ie_Bytes ?e = (case ?Z of
              [] \<Rightarrow> Inr []
            | first # rest \<Rightarrow>
                bind_result (EncodeAll rest) (\<lambda>encoded.
                  Inr (push_bit 4 intCompressedSimple # put_u64 first @ words_bytes encoded)))"
      using 3 unfolding bytes by argo
    show ?thesis
    proof (cases xs)
      case Nil
      then show ?thesis unfolding b by (simp add: if_empty)
    next
      case (Cons x xs')
      then have "int_format xs (push_bit 4 intCompressedSimple # put_u64 (ZigZagEncode x) @ words_bytes ws)"
        using EncodeAll_decodes [OF ws] by (auto intro!: if_packed)
      then show ?thesis using ws Cons unfolding b by simp
    qed
  qed
qed

section \<open>Batch functions\<close>

text \<open>The loop of \<open>IntegerArrayEncodeAll\<close>, from index \<open>i\<close> down to 1, over \<open>src\<close> in place.\<close>

fun zigzag_loop :: "nat \<Rightarrow> u64 list \<Rightarrow> u64 \<Rightarrow> u64 \<times> u64 list" where
  "zigzag_loop 0 deltas mx = (mx, deltas)"
| "zigzag_loop (Suc k) deltas mx =
     (let i = Suc k;
          deltas1 = deltas[i := deltas ! i - deltas ! (i - 1)];
          deltas2 = deltas1[i := ZigZagEncode (deltas1 ! i)]
      in zigzag_loop k deltas2 (if deltas2 ! i > mx then deltas2 ! i else mx))"

text \<open>
  \<open>b\<close> is the buffer the caller passes, its capacity taken to be its length. The packed
  branch returns \<open>b\<close> rather than \<open>b[:sz]\<close>, so a longer buffer keeps its tail.
\<close>

definition IntegerArrayEncodeAll :: "u64 list \<Rightarrow> bytes \<Rightarrow> bytes result" where
  "IntegerArrayEncodeAll src b =
     (if length src = 0 then Inr []
      else let (mx, deltas0) = zigzag_loop (length src - 1) src 0;
               deltas = deltas0[0 := ZigZagEncode (deltas0 ! 0)]
           in if 2 < length deltas \<and> list_all (\<lambda>d. deltas ! 1 = d) (drop 2 deltas) then
                Inr (push_bit 4 intCompressedRLE # put_u64 (deltas ! 0) @ put_uvarint (deltas ! 1) @
                     put_uvarint (of_nat (length deltas - 1)))
              else if mx > MaxValue then
                Inr (push_bit 4 intUncompressed # words_bytes deltas)
              else
                bind_result (EncodeAll (drop 1 deltas)) (\<lambda>encoded.
                  Inr (push_bit 4 intCompressedSimple # put_u64 (deltas ! 0) @ words_bytes encoded @
                       drop (1 + (length encoded + 1) * 8) b)))"

definition UnsignedArrayEncodeAll :: "u64 list \<Rightarrow> bytes \<Rightarrow> bytes result" where
  "UnsignedArrayEncodeAll src b = IntegerArrayEncodeAll src b"

definition integerBatchDecodeAllUncompressed :: "bytes \<Rightarrow> u64 list result" where
  "integerBatchDecodeAllUncompressed b =
     (if length (drop 1 b) mod 8 \<noteq> 0 then Inl ErrMultipleOf8Expected
      else Inr (prefix_sum 0 (map ZigZagDecode (raw_words (drop 1 b)))))"

definition integerBatchDecodeAllSimple :: "bytes \<Rightarrow> u64 list \<Rightarrow> u64 list result" where
  "integerBatchDecodeAllSimple b0 dst =
     (let b = drop 1 b0
      in if length b < 8 then Inl ErrNotEnoughData
         else bind_result (CountBytes (drop 8 b)) (\<lambda>count0.
                let count = count0 + 1; buf = sized count dst; first = ZigZagDecode (get_u64 b)
                in bind_result (DecodeBytesBigEndian (drop 1 buf) (drop 8 b)) (\<lambda>(rest, n).
                     if n \<noteq> count - 1 then Inl ErrUnexpectedCount
                     else Inr (first # prefix_sum first (map ZigZagDecode rest)))))"

definition integerBatchDecodeAllRLE :: "bytes \<Rightarrow> u64 list result" where
  "integerBatchDecodeAllRLE b0 =
     (let b = drop 1 b0
      in if length b < 8 then Inl ErrNotEnoughData
         else let first = ZigZagDecode (get_u64 b);
                  (value, n) = uvarint (drop 8 b)
              in if n \<le> 0 then Inl ErrInvalidRunLength
                 else let delta = ZigZagDecode value;
                          (count0, n') = uvarint (drop (8 + nat n) b)
                      in if n' \<le> 0 then Inl ErrInvalidRepeat
                         else let count = count0 + 1
                              in if sint count < 0 then Inl Panic
                                 else if delta = 0 then Inr (replicate (nat (sint count)) first)
                                 else Inr (arith first delta (nat (sint count))))"

definition IntegerArrayDecodeAll :: "bytes \<Rightarrow> u64 list \<Rightarrow> u64 list result" where
  "IntegerArrayDecodeAll b dst =
     (if length b = 0 then Inr []
      else let encoding = drop_bit 4 (hd b)
           in if encoding > intCompressedRLE then Inl ErrUnknownEncoding
              else if encoding = intUncompressed then integerBatchDecodeAllUncompressed b
              else if encoding = intCompressedSimple then integerBatchDecodeAllSimple b dst
              else integerBatchDecodeAllRLE b)"

definition UnsignedArrayDecodeAll :: "bytes \<Rightarrow> u64 list \<Rightarrow> u64 list result" where
  "UnsignedArrayDecodeAll b dst = IntegerArrayDecodeAll b dst"

lemma arith_0: "arith a 0 n = replicate n a"
  by (induction n) simp_all

lemma IntegerArrayDecodeAll_format:
  assumes "int_format xs b"
  shows "IntegerArrayDecodeAll b dst = Inr xs"
  using assms
proof cases
  case if_empty
  then show ?thesis by (simp add: IntegerArrayDecodeAll_def)
next
  case (if_rle n first delta)
  have b8: "drop (8 + length (put_uvarint z)) (put_u64 f @ put_uvarint z @ rest) = rest" for f z rest by simp
  have "of_nat (n - 1) + 1 = (of_nat n :: u64)" using if_rle(3) by (cases n) simp_all
  then have "sint (of_nat (n - 1) + 1 :: u64) = int n" using sint_of_nat_small [OF if_rle(4)] by simp
  then show ?thesis using if_rle(1,2)
    by (simp add: IntegerArrayDecodeAll_def integerBatchDecodeAllRLE_def Let_def b8 arith_0 add.commute)
next
  case (if_packed ws x xs')
  have "intCompressedSimple < intCompressedRLE" by (simp add: int_encodings)
  then show ?thesis using if_packed
    by (simp add: IntegerArrayDecodeAll_def integerBatchDecodeAllSimple_def Let_def CountBytes_words
        DecodeBytesBigEndian_words less_imp_le not_less)
next
  case if_raw
  have "intUncompressed < intCompressedRLE" by (simp add: int_encodings)
  then show ?thesis using if_raw
    by (simp add: IntegerArrayDecodeAll_def integerBatchDecodeAllUncompressed_def less_imp_le not_less)
qed

lemma zigzag_loop_eq:
  assumes "Z = map ZigZagEncode (diffs 0 xs)" and "i < length xs"
  shows "zigzag_loop i (take (Suc i) xs @ drop (Suc i) Z) mx =
    (fold larger (rev (take i (tl Z))) mx, take 1 xs @ drop 1 Z)"
  using assms(2)
proof (induction i arbitrary: mx)
  case (Suc k)
  let ?ds = "take (Suc (Suc k)) xs @ drop (Suc (Suc k)) Z"
  let ?ds' = "take (Suc k) xs @ drop (Suc k) Z"
  have Z: "length Z = length xs" "Z ! Suc k = ZigZagEncode (xs ! Suc k - xs ! k)"
    using assms(1) Suc.prems by (simp_all add: nth_diffs)
  then have "Z \<noteq> []" using Suc.prems by auto
  have nth: "?ds ! Suc k = xs ! Suc k" "?ds ! k = xs ! k" "Suc k < length ?ds" "?ds' ! Suc k = Z ! Suc k"
    using Suc.prems Z by (simp_all add: nth_append)
  have upd: "?ds[Suc k := Z ! Suc k] = ?ds'"
    using Suc.prems Z(1) Cons_nth_drop_Suc [of "Suc k" Z]
    by (simp add: take_Suc_conv_app_nth [of "Suc k"] list_update_append)
  have vs: "rev (take (Suc k) (tl Z)) = Z ! Suc k # rev (take k (tl Z))"
    using Suc.prems Z(1) by (simp add: take_Suc_conv_app_nth nth_tl)
  have "zigzag_loop (Suc k) ?ds mx = zigzag_loop k ?ds' (larger (Z ! Suc k) mx)"
    using nth Z(2) upd by (simp add: Let_def)
  then show ?case using Suc.IH Suc.prems by (simp add: vs)
qed (use assms in \<open>cases xs; simp\<close>)

lemma zigzag_all:
  assumes "xs \<noteq> []"
  defines "Z \<equiv> map ZigZagEncode (diffs 0 xs)"
  shows "zigzag_loop (length xs - 1) xs 0 = (fold larger (rev (tl Z)) 0, take 1 xs @ drop 1 Z)"
    and "(take 1 xs @ drop 1 Z)[0 := ZigZagEncode ((take 1 xs @ drop 1 Z) ! 0)] = Z"
proof -
  have "zigzag_loop (length xs - 1) (take (Suc (length xs - 1)) xs @ drop (Suc (length xs - 1)) Z) 0 =
    (fold larger (rev (take (length xs - 1) (tl Z))) 0, take 1 xs @ drop 1 Z)"
    using assms(1) by (intro zigzag_loop_eq) (simp_all add: Z_def)
  then show "zigzag_loop (length xs - 1) xs 0 = (fold larger (rev (tl Z)) 0, take 1 xs @ drop 1 Z)"
    using assms(1) by (simp add: Z_def)
  show "(take 1 xs @ drop 1 Z)[0 := ZigZagEncode ((take 1 xs @ drop 1 Z) ! 0)] = Z"
    using assms(1) by (cases xs) (simp_all add: Z_def)
qed

lemma IntegerArrayEncodeAll_format:
  assumes "length xs < 2 ^ 63" and "length b \<le> 9"
  shows "\<exists>out. IntegerArrayEncodeAll xs b = Inr out \<and> int_format xs out"
proof (cases "xs = []")
  case True
  then show ?thesis by (simp add: IntegerArrayEncodeAll_def if_empty)
next
  case False
  define Z where "Z = map ZigZagEncode (diffs 0 xs)"
  note loop = zigzag_all [OF False, folded Z_def]
  have lenZ: "length Z = length xs" by (simp add: Z_def)
  note unfolded = IntegerArrayEncodeAll_def [of xs b, unfolded loop(1) Let_def prod.case loop(2) lenZ]
  let ?rle = "2 < length xs \<and> list_all (\<lambda>d. Z ! 1 = d) (drop 2 Z)"
  let ?mx = "fold larger (rev (tl Z)) 0"
  consider ?rle | "\<not> ?rle" "?mx > MaxValue" | "\<not> ?rle" "\<not> ?mx > MaxValue" by blast
  then show ?thesis
  proof cases
    case 1
    have "equal_tail Z" using list_all_adjacent [of Z] 1 lenZ by (simp add: equal_tail_def)
    then show ?thesis
      using int_rle_format [of xs, folded Z_def] 1 assms(1) False unfolding unfolded by simp
  next
    case 2
    then show ?thesis using if_raw [OF False, folded Z_def] False unfolding unfolded by auto
  next
    case 3
    obtain x xs' where xs: "xs = x # xs'" using False by (cases xs) auto
    have Z: "drop 1 Z = map ZigZagEncode (diffs x xs')" "Z ! 0 = ZigZagEncode x" using xs by (simp_all add: Z_def)
    have "v \<le> MaxValue" if "v \<in> set (drop 1 Z)" for v
      using fold_larger [of v "rev (tl Z)" 0] that 3(2) by (simp add: drop_Suc)
    then have "list_all (\<lambda>v. v \<le> MaxValue) (drop 1 Z)" by (simp add: list_all_iff)
    then obtain ws where ws: "EncodeAll (drop 1 Z) = Inr ws" using EncodeAll_Inr_iff by blast
    have "int_format xs (push_bit 4 intCompressedSimple # put_u64 (Z ! 0) @ words_bytes ws)"
      using EncodeAll_decodes [OF ws] Z xs by (auto intro!: if_packed)
    then show ?thesis using 3 ws False assms(2) unfolding unfolded by auto
  qed
qed

section \<open>Blocks\<close>

definition int_sel :: "Value \<Rightarrow> (u64 \<times> u64) option" where
  "int_sel v = (case v of IntegerValue t x \<Rightarrow> Some (t, x) | _ \<Rightarrow> None)"

definition uint_sel :: "Value \<Rightarrow> (u64 \<times> u64) option" where
  "uint_sel v = (case v of UnsignedValue t x \<Rightarrow> Some (t, x) | _ \<Rightarrow> None)"

definition EncodeIntegerBlockUsing :: "Value list \<Rightarrow> time_encoder \<Rightarrow> IntegerEncoder \<Rightarrow> bytes result" where
  "EncodeIntegerBlockUsing = encode_block_using BlockInteger int_sel ie_Reset ie_Write ie_Bytes"

definition EncodeUnsignedBlockUsing :: "Value list \<Rightarrow> time_encoder \<Rightarrow> IntegerEncoder \<Rightarrow> bytes result" where
  "EncodeUnsignedBlockUsing = encode_block_using BlockUnsigned uint_sel ie_Reset ie_Write ie_Bytes"

text \<open>The encoders come from a pool and are reset when taken.\<close>

definition EncodeIntegerBlock :: "Value list \<Rightarrow> time_encoder \<Rightarrow> IntegerEncoder \<Rightarrow> bytes result" where
  "EncodeIntegerBlock values tenc venc = EncodeIntegerBlockUsing values (te_Reset tenc) (ie_Reset venc)"

definition EncodeUnsignedBlock :: "Value list \<Rightarrow> time_encoder \<Rightarrow> IntegerEncoder \<Rightarrow> bytes result" where
  "EncodeUnsignedBlock values tenc venc = EncodeUnsignedBlockUsing values (te_Reset tenc) (ie_Reset venc)"

definition DecodeIntegerBlock :: "TimeDecoder \<Rightarrow> IntegerDecoder \<Rightarrow> bytes \<Rightarrow> Value list result" where
  "DecodeIntegerBlock tdec vdec block =
     bind_result (decode_block_using BlockInteger (\<lambda>b d. Inr (id_SetBytes b d)) id_Next id_Read id_err tdec vdec block)
       (\<lambda>ps. Inr (map (\<lambda>(t, x). IntegerValue t x) ps))"

definition DecodeUnsignedBlock :: "TimeDecoder \<Rightarrow> IntegerDecoder \<Rightarrow> bytes \<Rightarrow> Value list result" where
  "DecodeUnsignedBlock tdec vdec block =
     bind_result (decode_block_using BlockUnsigned (\<lambda>b d. Inr (id_SetBytes b d)) id_Next id_Read id_err tdec vdec block)
       (\<lambda>ps. Inr (map (\<lambda>(t, x). UnsignedValue t x) ps))"

text \<open>An array is its two parallel slices.\<close>

definition EncodeIntegerArrayBlock :: "u64 list \<times> u64 list \<Rightarrow> bytes result" where
  "EncodeIntegerArrayBlock a = encode_array_block BlockInteger (\<lambda>xs. IntegerArrayEncodeAll xs []) a"

definition EncodeUnsignedArrayBlock :: "u64 list \<times> u64 list \<Rightarrow> bytes result" where
  "EncodeUnsignedArrayBlock a = encode_array_block BlockUnsigned (\<lambda>xs. UnsignedArrayEncodeAll xs []) a"

definition DecodeIntegerArrayBlock :: "bytes \<Rightarrow> u64 list \<times> u64 list \<Rightarrow> (u64 list \<times> u64 list) result" where
  "DecodeIntegerArrayBlock block a = decode_array_block BlockInteger IntegerArrayDecodeAll block a"

definition DecodeUnsignedArrayBlock :: "bytes \<Rightarrow> u64 list \<times> u64 list \<Rightarrow> (u64 list \<times> u64 list) result" where
  "DecodeUnsignedArrayBlock block a = decode_array_block BlockUnsigned UnsignedArrayDecodeAll block a"

interpretation int_codec: value_codec ie_Reset ie_Write ie_Bytes "\<lambda>b d. Inr (id_SetBytes b d)" id_Next id_Read id_err
  "\<lambda>e. True" "\<lambda>d. length (id_values d) = 240" "\<lambda>xs. length xs < 2 ^ 63"
proof unfold_locales
  fix e :: IntegerEncoder and s :: IntegerDecoder and xs :: "u64 list"
  assume "length (id_values s) = 240" and "length xs < 2 ^ 63"
  then show "\<exists>b s'. ie_Bytes (fold ie_Write xs (ie_Reset e)) = Inr b \<and> Inr (id_SetBytes b s) = (Inr s' :: IntegerDecoder result) \<and> id_reads s' xs"
    using ie_Bytes_format [of xs e] id_SetBytes_format by blast
qed

section \<open>Properties\<close>

lemma int_sel_all:
  "list_all (\<lambda>v. valueType v = valueTypeInteger) vs \<Longrightarrow>
   list_all2 (\<lambda>v p. int_sel v = Some p) vs (map (\<lambda>v. (unixNano v, int_bits v)) vs) \<and>
   map (\<lambda>(t, x). IntegerValue t x) (map (\<lambda>v. (unixNano v, int_bits v)) vs) = vs"
proof (induction vs)
  case (Cons v vs)
  then show ?case by (cases v) (simp_all add: int_sel_def value_types)
qed simp

lemma uint_sel_all:
  "list_all (\<lambda>v. valueType v = valueTypeUnsigned) vs \<Longrightarrow>
   list_all2 (\<lambda>v p. uint_sel v = Some p) vs (map (\<lambda>v. (unixNano v, uint_bits v)) vs) \<and>
   map (\<lambda>(t, x). UnsignedValue t x) (map (\<lambda>v. (unixNano v, uint_bits v)) vs) = vs"
proof (induction vs)
  case (Cons v vs)
  then show ?case by (cases v) (simp_all add: uint_sel_def value_types)
qed simp

lemma te_Reset_inv: "enc_inv (te_enc e) \<Longrightarrow> enc_inv (te_enc (te_Reset e))"
  using enc_rep_Reset by (simp add: te_Reset_def enc_rep_def)

text \<open>
  A block of integer values of any length from 1 to \<open>2^58\<close>, encoded with pooled encoders in
  any state, decodes with pooled decoders in any state to exactly the same values and
  timestamps.
\<close>

theorem integer_block_roundtrip:
  assumes "list_all (\<lambda>v. valueType v = valueTypeInteger) vs" and "vs \<noteq> []" and "length vs < 2 ^ 58"
    and "enc_inv (te_enc tenc)" and "length (d_buf (td_dec tdec)) = 240" and "length (id_values vdec) = 240"
  shows "\<exists>block. EncodeIntegerBlock vs tenc venc = Inr block \<and> DecodeIntegerBlock tdec vdec block = Inr vs"
proof -
  let ?ps = "map (\<lambda>v. (unixNano v, int_bits v)) vs"
  obtain block where "EncodeIntegerBlockUsing vs (te_Reset tenc) (ie_Reset venc) = Inr block"
    "decode_block_using BlockInteger (\<lambda>b d. Inr (id_SetBytes b d)) id_Next id_Read id_err tdec vdec block = Inr ?ps"
    unfolding EncodeIntegerBlockUsing_def
    using int_codec.block_roundtrip [where sel = int_sel and vs = vs and ps = ?ps and tenc = "te_Reset tenc"
        and venc = "ie_Reset venc" and tdec = tdec and vdec = vdec and bt = BlockInteger]
      int_sel_all [OF assms(1)] te_Reset_inv [OF assms(4)] assms by auto
  then show ?thesis
    using int_sel_all [OF assms(1)] by (simp add: EncodeIntegerBlock_def DecodeIntegerBlock_def)
qed

definition fresh_int_decoder :: IntegerDecoder where
  "fresh_int_decoder = \<lparr>id_values = replicate 240 0, id_bytes = [], id_i = 0, id_n = 0, id_prev = 0, id_first = False,
     id_rleFirst = 0, id_rleDelta = 0, id_encoding = 0, id_err = None\<rparr>"

lemma fresh_int_decoder_ok: "length (id_values fresh_int_decoder) = 240"
  by (simp add: fresh_int_decoder_def)

theorem integer_block_roundtrip_witness:
  "enc_inv (te_enc NewTimeEncoder) \<and> length (d_buf (td_dec fresh_decoder)) = 240 \<and>
   (\<exists>block. EncodeIntegerBlock [IntegerValue 10 7, IntegerValue 20 (-3)] NewTimeEncoder NewIntegerEncoder = Inr block \<and>
     DecodeIntegerBlock fresh_decoder fresh_int_decoder block = Inr [IntegerValue 10 7, IntegerValue 20 (-3)])"
  using integer_block_roundtrip [OF _ _ _ NewTimeEncoder_inv fresh_decoder_ok fresh_int_decoder_ok,
      of "[IntegerValue 10 7, IntegerValue 20 (-3)]" NewIntegerEncoder]
    NewTimeEncoder_inv fresh_decoder_ok by simp

text \<open>
  The same for blocks of unsigned values, which share the integer codec through a
  reinterpretation of the bits: no value in the upper half of the range is lost.
\<close>

theorem unsigned_block_roundtrip:
  assumes "list_all (\<lambda>v. valueType v = valueTypeUnsigned) vs" and "vs \<noteq> []" and "length vs < 2 ^ 58"
    and "enc_inv (te_enc tenc)" and "length (d_buf (td_dec tdec)) = 240" and "length (id_values vdec) = 240"
  shows "\<exists>block. EncodeUnsignedBlock vs tenc venc = Inr block \<and> DecodeUnsignedBlock tdec vdec block = Inr vs"
proof -
  let ?ps = "map (\<lambda>v. (unixNano v, uint_bits v)) vs"
  obtain block where "EncodeUnsignedBlockUsing vs (te_Reset tenc) (ie_Reset venc) = Inr block"
    "decode_block_using BlockUnsigned (\<lambda>b d. Inr (id_SetBytes b d)) id_Next id_Read id_err tdec vdec block = Inr ?ps"
    unfolding EncodeUnsignedBlockUsing_def
    using int_codec.block_roundtrip [where sel = uint_sel and vs = vs and ps = ?ps and tenc = "te_Reset tenc"
        and venc = "ie_Reset venc" and tdec = tdec and vdec = vdec and bt = BlockUnsigned]
      uint_sel_all [OF assms(1)] te_Reset_inv [OF assms(4)] assms by auto
  then show ?thesis
    using uint_sel_all [OF assms(1)] by (simp add: EncodeUnsignedBlock_def DecodeUnsignedBlock_def)
qed

theorem unsigned_block_roundtrip_witness:
  "\<exists>block. EncodeUnsignedBlock [UnsignedValue 10 7, UnsignedValue 20 (2 ^ 63)] NewTimeEncoder NewIntegerEncoder = Inr block \<and>
     DecodeUnsignedBlock fresh_decoder fresh_int_decoder block = Inr [UnsignedValue 10 7, UnsignedValue 20 (2 ^ 63)]"
  using unsigned_block_roundtrip [OF _ _ _ NewTimeEncoder_inv fresh_decoder_ok fresh_int_decoder_ok,
      of "[UnsignedValue 10 7, UnsignedValue 20 (2 ^ 63)]" NewIntegerEncoder] by simp

text \<open>
  C9: The two integer encoders and the two integer decoders are interchangeable. The bytes of
  the streaming encoder and those of the batch encoder (given a buffer no longer than the
  shortest encoding, as its callers do) are both read back exactly by the batch decoder and
  by the streaming decoder.
\<close>

theorem integer_codecs_interchange:
  assumes "length xs < 2 ^ 63" and "length b \<le> 9" and "length (id_values d) = 240"
  shows "\<exists>b1 b2. ie_Bytes (fold ie_Write xs (ie_Reset e)) = Inr b1 \<and> IntegerArrayEncodeAll xs b = Inr b2 \<and>
    IntegerArrayDecodeAll b1 dst = Inr xs \<and> IntegerArrayDecodeAll b2 dst = Inr xs \<and>
    id_reads (id_SetBytes b1 d) xs \<and> id_reads (id_SetBytes b2 d) xs"
  using ie_Bytes_format [OF assms(1), of e] IntegerArrayEncodeAll_format [OF assms(1,2)]
    IntegerArrayDecodeAll_format id_SetBytes_format [OF _ assms(3)] by blast

theorem integer_codecs_interchange_witness:
  "\<exists>b1 b2. ie_Bytes (fold ie_Write [5, -5, 2 ^ 62] (ie_Reset NewIntegerEncoder)) = Inr b1 \<and>
    IntegerArrayEncodeAll [5, -5, 2 ^ 62] [] = Inr b2 \<and>
    IntegerArrayDecodeAll b1 [] = Inr [5, -5, 2 ^ 62] \<and> IntegerArrayDecodeAll b2 [] = Inr [5, -5, 2 ^ 62] \<and>
    id_reads (id_SetBytes b1 fresh_int_decoder) [5, -5, 2 ^ 62] \<and> id_reads (id_SetBytes b2 fresh_int_decoder) [5, -5, 2 ^ 62]"
  using integer_codecs_interchange [of "[5, -5, 2 ^ 62]" "[]", OF _ _ fresh_int_decoder_ok, of NewIntegerEncoder "[]"]
  by simp

text \<open>
  C10: An integer array block decodes to the array it was encoded from, timestamps included,
  whenever the timestamps are equally spaced or no two neighbours are more than 60 bits apart;
  otherwise the values still come back, but the timestamps come back as differences.
\<close>

theorem integer_array_block_roundtrip:
  assumes "length ts < 2 ^ 58" and "ts \<noteq> []" and "length xs < 2 ^ 63"
  shows "\<exists>block. EncodeIntegerArrayBlock (ts, xs) = Inr block \<and>
    DecodeIntegerArrayBlock block a =
      Inr (if \<not> rle_deltas ts \<and> max_delta ts > MaxValue then deltas_of ts else ts, xs)"
proof -
  obtain vb where vb: "IntegerArrayEncodeAll xs [] = Inr vb" "int_format xs vb"
    using IntegerArrayEncodeAll_format [OF assms(3), of "[]"] by auto
  show ?thesis
    unfolding EncodeIntegerArrayBlock_def DecodeIntegerArrayBlock_def
    using IntegerArrayDecodeAll_format [OF vb(2)] vb(1) by (intro array_block_roundtrip [OF assms(1,2)]) simp_all
qed

theorem integer_array_block_roundtrip_witness:
  "\<exists>block. EncodeIntegerArrayBlock ([10, 20, 35], [1, 2, -3]) = Inr block \<and>
    DecodeIntegerArrayBlock block ([], []) = Inr ([10, 20, 35], [1, 2, -3])"
proof -
  have "\<not> max_delta [10, 20, 35] > MaxValue" by (simp add: max_delta_def MaxValue_def)
  then show ?thesis
    using integer_array_block_roundtrip [of "[10, 20, 35]" "[1, 2, -3]" "([], [])"] by simp
qed

text \<open>A buffer longer than the packed encoding leaves its tail behind the words.\<close>

theorem integer_encode_keeps_tail:
  "IntegerArrayEncodeAll [3] (replicate 12 255) = Inr ([16, 0, 0, 0, 0, 0, 0, 0, 6] @ [255, 255, 255])"
  by code_simp

end
