(* ===== verification/BoolCodec.thy ===== *)
theory BoolCodec
  imports BlockCodec
begin

text \<open>
  Booleans, \<open>storage/codec/bool.go\<close>: one bit per value, most significant first, behind a type
  byte and a count. \<open>BooleanEncoder\<close>, \<open>BooleanDecoder\<close>, the boolean blocks, and the batch
  functions that set and test bits of a buffer in place.
\<close>

definition booleanCompressedBitPacked :: byte where "booleanCompressedBitPacked = 1"

section \<open>The encoder\<close>

record BooleanEncoder =
  bo_bytes :: bytes
  bo_b :: byte
  bo_i :: nat
  bo_n :: nat

definition NewBooleanEncoder :: BooleanEncoder where
  "NewBooleanEncoder = \<lparr>bo_bytes = [], bo_b = 0, bo_i = 0, bo_n = 0\<rparr>"

definition bo_Reset :: "BooleanEncoder \<Rightarrow> BooleanEncoder" where
  "bo_Reset e = \<lparr>bo_bytes = [], bo_b = 0, bo_i = 0, bo_n = 0\<rparr>"

text \<open>\<open>for e.i < 8 \{ e.b = e.b << 1; e.i++ \}\<close>\<close>

function bo_pad :: "nat \<Rightarrow> byte \<Rightarrow> nat \<times> byte" where
  "bo_pad i b = (if i < 8 then bo_pad (i + 1) (push_bit 1 b) else (i, b))"
  by pat_completeness auto
termination by (relation "measure (\<lambda>(i, b). 8 - i)") auto

declare bo_pad.simps [simp del]

definition bo_flush :: "BooleanEncoder \<Rightarrow> BooleanEncoder" where
  "bo_flush e =
     (let (i, b) = bo_pad (bo_i e) (bo_b e)
      in if 0 < i then e\<lparr>bo_bytes := bo_bytes e @ [b], bo_b := 0, bo_i := 0\<rparr>
         else e\<lparr>bo_b := b, bo_i := i\<rparr>)"

definition bo_Write :: "bool \<Rightarrow> BooleanEncoder \<Rightarrow> BooleanEncoder" where
  "bo_Write v e =
     (let e1 = (if 8 \<le> bo_i e then bo_flush e else e);
          b = push_bit 1 (bo_b e1)
      in e1\<lparr>bo_b := (if v then b OR 1 else b), bo_i := bo_i e1 + 1, bo_n := bo_n e1 + 1\<rparr>)"

definition bo_Bytes :: "BooleanEncoder \<Rightarrow> bytes result" where
  "bo_Bytes e =
     (let e1 = bo_flush e
      in Inr (push_bit 4 booleanCompressedBitPacked # put_uvarint (of_nat (bo_n e1)) @ bo_bytes e1))"

section \<open>The decoder\<close>

record BooleanDecoder =
  bd_b :: bytes
  bd_i :: int
  bd_n :: int
  bd_err :: "error option"

text \<open>\<open>SetBytes\<close> clears neither an earlier error nor, for an empty buffer, the earlier position.\<close>

definition bd_SetBytes :: "bytes \<Rightarrow> BooleanDecoder \<Rightarrow> BooleanDecoder" where
  "bd_SetBytes b0 d =
     (if length b0 = 0 then d
      else let b = drop 1 b0; (count, n) = uvarint b
           in if n \<le> 0 then d\<lparr>bd_err := Some ErrInvalidCount\<rparr>
              else let rest = drop (nat n) b; cnt = sint count; mn = int (length rest) * 8
                   in d\<lparr>bd_b := rest, bd_i := -1, bd_n := (if mn < cnt then mn else cnt)\<rparr>)"

definition bd_Next :: "BooleanDecoder \<Rightarrow> bool \<times> BooleanDecoder" where
  "bd_Next d =
     (if bd_err d \<noteq> None then (False, d)
      else let d1 = d\<lparr>bd_i := bd_i d + 1\<rparr> in (bd_i d1 < bd_n d1, d1))"

definition bd_Read :: "BooleanDecoder \<Rightarrow> bool result \<times> BooleanDecoder" where
  "bd_Read d =
     (let idx = bd_i d div 8; pos = nat (7 - bd_i d mod 8); m = push_bit pos (1 :: byte)
      in if idx < 0 \<or> int (length (bd_b d)) \<le> idx then (Inl Panic, d)
         else (Inr (bd_b d ! nat idx AND m = m), d))"

section \<open>Bytes as bits\<close>

definition byte_bits :: "byte \<Rightarrow> bool list" where
  "byte_bits v = map (\<lambda>k. bit v (7 - k)) [0..<8]"

definition bits_of_bytes :: "bytes \<Rightarrow> bool list" where
  "bits_of_bytes bs = concat (map byte_bits bs)"

lemma bits_of_bytes_simps [simp]:
  "bits_of_bytes [] = []" "bits_of_bytes (b # bs) = byte_bits b @ bits_of_bytes bs"
  "bits_of_bytes (as @ bs) = bits_of_bytes as @ bits_of_bytes bs"
  by (simp_all add: bits_of_bytes_def)

lemma length_byte_bits [simp]: "length (byte_bits v) = 8"
  by (simp add: byte_bits_def)

lemma length_bits_of_bytes [simp]: "length (bits_of_bytes bs) = 8 * length bs"
  by (induction bs) simp_all

lemma nth_bits_of_bytes:
  "k < 8 * length bs \<Longrightarrow> bits_of_bytes bs ! k = bit (bs ! (k div 8)) (7 - k mod 8)"
proof (induction bs arbitrary: k)
  case (Cons b bs)
  show ?case
  proof (cases "k < 8")
    case True
    then show ?thesis by (simp add: nth_append byte_bits_def)
  next
    case False
    then obtain j where j: "k = j + 8" by (metis add.commute le_Suc_ex not_less)
    then have "k div 8 = Suc (j div 8)" "k mod 8 = j mod 8" by simp_all
    then show ?thesis using Cons j by (simp add: nth_append)
  qed
qed simp

lemma and_single_bit: "p < 8 \<Longrightarrow> ((v :: byte) AND 2 ^ p = 2 ^ p) = bit v p"
proof -
  assume p: "p < 8"
  have "v AND 2 ^ p = (if bit v p then 2 ^ p else 0)"
    by (rule bit_word_eqI) (auto simp: bit_and_iff bit_exp_iff)
  then show ?thesis using p by (auto simp: exp_eq_zero_iff)
qed

text \<open>The bits pending in the encoder's current byte.\<close>

definition partial_bits :: "nat \<Rightarrow> byte \<Rightarrow> bool list" where
  "partial_bits i b = map (\<lambda>k. bit b (i - 1 - k)) [0..<i]"

definition bo_bits :: "BooleanEncoder \<Rightarrow> bool list" where
  "bo_bits e = bits_of_bytes (bo_bytes e) @ partial_bits (bo_i e) (bo_b e)"

lemma length_partial_bits [simp]: "length (partial_bits i b) = i"
  by (simp add: partial_bits_def)

lemma bo_pad_eq: "i \<le> 8 \<Longrightarrow> bo_pad i b = (8, push_bit (8 - i) b)"
proof (induction i b rule: bo_pad.induct)
  case (1 i b)
  show ?case
  proof (cases "i < 8")
    case True
    then have "Suc (8 - Suc i) = 8 - i" by simp
    then have "push_bit (8 - Suc i) (push_bit 1 b) = push_bit (8 - i) b"
      by (simp only: push_bit_push_bit) simp
    then show ?thesis using "1.IH" True by (subst bo_pad.simps) (simp del: push_bit_push_bit)
  next
    case False
    then show ?thesis using "1.prems" by (subst bo_pad.simps) simp
  qed
qed

lemma bit_times_2: "bit ((b :: byte) * 2) n \<longleftrightarrow> 0 < n \<and> n < 8 \<and> bit b (n - 1)"
  using bit_double_iff [of b n] by (auto simp: mult.commute)

lemma partial_bits_push:
  "i < 8 \<Longrightarrow> partial_bits (Suc i) (if v then b * 2 OR 1 else b * 2) = partial_bits i b @ [v]"
proof (rule nth_equalityI)
  fix k assume "i < 8" and "k < length (partial_bits (Suc i) (if v then b * 2 OR 1 else b * 2))"
  then show "partial_bits (Suc i) (if v then b * 2 OR 1 else b * 2) ! k = (partial_bits i b @ [v]) ! k"
    by (cases "k = i") (auto simp: partial_bits_def nth_append bit_or_iff bit_times_2 bit_1_iff)
qed simp

lemma byte_bits_pad: "i \<le> 8 \<Longrightarrow> byte_bits (push_bit (8 - i) b) = partial_bits i b @ replicate (8 - i) False"
proof (rule nth_equalityI)
  fix k assume "i \<le> 8" and "k < length (byte_bits (push_bit (8 - i) b))"
  then show "byte_bits (push_bit (8 - i) b) ! k = (partial_bits i b @ replicate (8 - i) False) ! k"
    by (cases "k < i") (auto simp: byte_bits_def partial_bits_def nth_append bit_push_bit_iff)
qed simp

lemma bo_Write_bits:
  assumes "bo_i e \<le> 8"
  shows "bo_bits (bo_Write v e) = bo_bits e @ [v]" and "bo_i (bo_Write v e) \<le> 8"
    and "bo_n (bo_Write v e) = bo_n e + 1"
proof -
  have "bo_bits (bo_Write v e) = bo_bits e @ [v] \<and> bo_i (bo_Write v e) \<le> 8 \<and> bo_n (bo_Write v e) = bo_n e + 1"
  proof (cases "bo_i e < 8")
    case True
    then show ?thesis using partial_bits_push [OF True, of v "bo_b e"] by (simp add: bo_Write_def bo_bits_def Let_def)
  next
    case False
    then have i: "bo_i e = 8" using assms by simp
    have fl: "bo_flush e = e\<lparr>bo_bytes := bo_bytes e @ [bo_b e], bo_b := 0, bo_i := 0\<rparr>"
      using bo_pad_eq [of 8 "bo_b e"] i by (simp add: bo_flush_def)
    have "byte_bits (bo_b e) = partial_bits 8 (bo_b e)" using byte_bits_pad [of 8 "bo_b e"] by simp
    then show ?thesis
      using partial_bits_push [of 0 True 0] partial_bits_push [of 0 False 0] fl i by (simp add: bo_Write_def bo_bits_def Let_def partial_bits_def [of 0])
  qed
  then show "bo_bits (bo_Write v e) = bo_bits e @ [v]" and "bo_i (bo_Write v e) \<le> 8"
    and "bo_n (bo_Write v e) = bo_n e + 1" by simp_all
qed

lemma bo_fold_Write:
  "bo_i e \<le> 8 \<Longrightarrow> bo_bits (fold bo_Write xs e) = bo_bits e @ xs \<and> bo_i (fold bo_Write xs e) \<le> 8 \<and>
     bo_n (fold bo_Write xs e) = bo_n e + length xs"
  by (induction xs arbitrary: e) (simp_all add: bo_Write_bits)

section \<open>The format\<close>

inductive bool_format :: "bool list \<Rightarrow> bytes \<Rightarrow> bool" where
  bf: "take (length xs) (bits_of_bytes bs) = xs \<Longrightarrow> length xs \<le> 8 * length bs \<Longrightarrow> length xs < 2 ^ 63 \<Longrightarrow>
    bool_format xs (push_bit 4 booleanCompressedBitPacked # put_uvarint (of_nat (length xs)) @ bs)"

lemma bo_Bytes_format:
  assumes "length xs < 2 ^ 63"
  shows "\<exists>b. bo_Bytes (fold bo_Write xs (bo_Reset e)) = Inr b \<and> bool_format xs b"
proof -
  let ?e = "fold bo_Write xs (bo_Reset e)"
  have e: "bo_bits ?e = xs" "bo_i ?e \<le> 8" "bo_n ?e = length xs"
    using bo_fold_Write [of "bo_Reset e" xs] by (simp_all add: bo_Reset_def bo_bits_def partial_bits_def)
  let ?bs = "bo_bytes ?e @ [push_bit (8 - bo_i ?e) (bo_b ?e)]"
  have "bits_of_bytes ?bs = xs @ replicate (8 - bo_i ?e) False"
    using byte_bits_pad [OF e(2), of "bo_b ?e"] e(1) by (simp add: bo_bits_def)
  then have "take (length xs) (bits_of_bytes ?bs) = xs" by simp
  moreover have "length xs \<le> 8 * length ?bs"
    using arg_cong [OF e(1), of length] e(2) by (simp add: bo_bits_def)
  ultimately have "bool_format xs (push_bit 4 booleanCompressedBitPacked # put_uvarint (of_nat (length xs)) @ ?bs)"
    using assms by (intro bf)
  moreover have "bo_Bytes ?e = Inr (push_bit 4 booleanCompressedBitPacked # put_uvarint (of_nat (length xs)) @ ?bs)"
    using bo_pad_eq [OF e(2)] e(3) by (simp add: bo_Bytes_def bo_flush_def Let_def)
  ultimately show ?thesis by blast
qed

abbreviation bd_reads :: "BooleanDecoder \<Rightarrow> bool list \<Rightarrow> bool" where
  "bd_reads \<equiv> reads bd_Next bd_Read bd_err"

lemma bd_reads_bits:
  assumes "bd_err d = None" and "-1 \<le> bd_i d" and "bd_n d \<le> int (8 * length (bd_b d))"
  shows "bd_reads d (drop (nat (bd_i d + 1)) (take (nat (bd_n d)) (bits_of_bytes (bd_b d))))"
  using assms
proof (induction "nat (bd_n d - bd_i d - 1)" arbitrary: d)
  case 0
  then show ?case by simp
next
  case (Suc m)
  let ?d = "d\<lparr>bd_i := bd_i d + 1\<rparr>"
  let ?bits = "take (nat (bd_n d)) (bits_of_bytes (bd_b d))"
  have lt: "bd_i d + 1 < bd_n d" using Suc.hyps(2) by simp
  define k where "k = nat (bd_i d + 1)"
  have k: "int k = bd_i d + 1" using Suc.prems(2) by (simp add: k_def)
  have kb: "k < 8 * length (bd_b d)" "k < length ?bits" using k lt Suc.prems(3) by simp_all
  have nx: "bd_Next d = (True, ?d)" using lt Suc.prems by (simp add: bd_Next_def)
  have "bd_Read ?d = (Inr (bits_of_bytes (bd_b d) ! k), ?d)"
  proof -
    have "nat (7 - int k mod 8) = 7 - k mod 8" by (simp add: nat_mod_distrib nat_diff_distrib)
    moreover have "nat (int k div 8) = k div 8" by (simp add: nat_div_distrib)
    moreover have "int k div 8 < int (length (bd_b d))" using kb(1) by (simp add: zdiv_int less_mult_imp_div_less mult.commute)
    moreover have "\<not> int k div 8 < 0" by (simp add: not_less pos_imp_zdiv_nonneg_iff)
    moreover have "7 - k mod 8 < 8" by simp
    ultimately show ?thesis
      using kb(1) unfolding bd_Read_def Let_def
      by (simp add: k [symmetric] nth_bits_of_bytes and_single_bit)
  qed
  moreover have "bd_reads ?d (drop (Suc k) ?bits)"
  proof -
    have "nat (bd_i ?d + 1) = Suc k" using k by simp
    then show ?thesis using Suc.hyps(1) [of ?d] Suc.hyps(2) Suc.prems by simp
  qed
  moreover have "drop k ?bits = bits_of_bytes (bd_b d) ! k # drop (Suc k) ?bits"
    using Cons_nth_drop_Suc [OF kb(2), symmetric] kb by simp
  ultimately show ?case using nx Suc.prems(1) by (simp add: k_def)
qed

lemma bd_SetBytes_format:
  assumes "bool_format xs b" and "bd_err d = None"
  shows "bd_reads (bd_SetBytes b d) xs"
  using assms(1)
proof cases
  case (bf bs)
  then have "bd_SetBytes b d = d\<lparr>bd_b := bs, bd_i := -1, bd_n := int (length xs)\<rparr>"
    by (simp add: bd_SetBytes_def Let_def sint_of_nat_small)
  then show ?thesis
    using bd_reads_bits [of "d\<lparr>bd_b := bs, bd_i := -1, bd_n := int (length xs)\<rparr>"] bf assms(2) by simp
qed

section \<open>Batch functions\<close>

text \<open>Set or clear bit \<open>n\<close> of the buffer, for each value in turn; \<open>128 >> (n & 7)\<close> selects the bit.\<close>

fun set_bits :: "bool list \<Rightarrow> nat \<Rightarrow> bytes \<Rightarrow> bytes \<times> nat" where
  "set_bits [] n b = (b, n)"
| "set_bits (v # src) n b =
     (let i = n div 8; m = drop_bit (n mod 8) 128
      in set_bits src (n + 1) (b[i := (if v then b ! i OR m else b ! i AND NOT m)]))"

text \<open>The buffer \<open>b\<close> is reused when it is long enough; its capacity is taken to be its length.\<close>

definition BooleanArrayEncodeAll :: "bool list \<Rightarrow> bytes \<Rightarrow> bytes result" where
  "BooleanArrayEncodeAll src b =
     (let sz = 1 + 8 + (length src + 7) div 8;
          b1 = (if length b < sz then b @ replicate sz 0 else b);
          b2 = b1[0 := push_bit 4 booleanCompressedBitPacked];
          hdr = put_uvarint (of_nat (length src));
          b3 = write_at 1 hdr b2;
          (b4, n) = set_bits src (8 + length hdr * 8) b3;
          len = (if 0 < n mod 8 then n div 8 + 1 else n div 8)
      in Inr (take len b4))"

function get_bits :: "byte \<Rightarrow> byte \<Rightarrow> nat \<Rightarrow> bool list" where
  "get_bits v i room = (if 0 < i \<and> 0 < room then (v AND i \<noteq> 0) # get_bits v (drop_bit 1 i) (room - 1) else [])"
  by pat_completeness auto
termination by (relation "measure (\<lambda>(v, i, room). room)") auto

declare get_bits.simps [simp del]

fun get_all_bits :: "bytes \<Rightarrow> nat \<Rightarrow> bool list" where
  "get_all_bits [] room = []"
| "get_all_bits (v # bs) room =
     (let xs = get_bits v 128 room in xs @ get_all_bits bs (room - length xs))"

definition BooleanArrayDecodeAll :: "bytes \<Rightarrow> bool list result" where
  "BooleanArrayDecodeAll b0 =
     (if length b0 = 0 then Inr []
      else let b = drop 1 b0; (val, n) = uvarint b
           in if n \<le> 0 then Inl ErrInvalidCount
              else let bs = drop (nat n) b;
                       count0 = sint val;
                       mn = int (length bs) * 8;
                       count = (if mn < count0 then mn else count0)
                   in if count < 0 then Inl Panic else Inr (get_all_bits bs (nat count)))"

lemma bits_update:
  assumes "k < 8 * length b"
  shows "bits_of_bytes (b[k div 8 := (if v then b ! (k div 8) OR drop_bit (k mod 8) 128 else b ! (k div 8) AND NOT (drop_bit (k mod 8) 128))]) =
    (bits_of_bytes b)[k := v]"
proof (rule nth_equalityI)
  have m: "bit (drop_bit (k mod 8) 128 :: byte) p \<longleftrightarrow> p = 7 - k mod 8" if "p < 8" for p
  proof -
    have "(128 :: byte) = 2 ^ 7" by simp
    then have "bit (drop_bit (k mod 8) 128 :: byte) p \<longleftrightarrow> bit (2 ^ 7 :: byte) (k mod 8 + p)"
      by (simp only: bit_drop_bit_eq comp_def)
    also have "\<dots> \<longleftrightarrow> 7 = k mod 8 + p" unfolding bit_exp_iff by auto
    also have "\<dots> \<longleftrightarrow> p = 7 - k mod 8" by (simp add: eq_diff_iff [of "k mod 8"]) presburger
    finally show ?thesis .
  qed
  let ?b = "b[k div 8 := (if v then b ! (k div 8) OR drop_bit (k mod 8) 128 else b ! (k div 8) AND NOT (drop_bit (k mod 8) 128))]"
  fix j assume "j < length (bits_of_bytes ?b)"
  then have j: "j < 8 * length b" by simp
  have kb: "k div 8 < length b" using assms by (simp add: less_mult_imp_div_less mult.commute)
  show "bits_of_bytes ?b ! j = (bits_of_bytes b)[k := v] ! j"
  proof (cases "j div 8 = k div 8")
    case True
    have jk: "(7 - j mod 8 = 7 - k mod 8) \<longleftrightarrow> j = k"
    proof
      assume eq: "7 - j mod 8 = 7 - k mod 8"
      have "j mod 8 < 8" "k mod 8 < 8" by simp_all
      then have "j mod 8 = k mod 8" using eq by linarith
      then show "j = k" using True by (metis div_mult_mod_eq)
    qed simp
    show ?thesis
      using j kb True assms m [of "7 - j mod 8"] jk
      by (cases "j = k") (auto simp: nth_bits_of_bytes bit_or_iff bit_and_iff bit_not_iff)
  next
    case False
    then show ?thesis using j assms by (auto simp: nth_bits_of_bytes nth_list_update)
  qed
qed simp

lemma set_bits_eq:
  "n + length src \<le> 8 * length b \<Longrightarrow>
   snd (set_bits src n b) = n + length src \<and> length (fst (set_bits src n b)) = length b \<and>
   bits_of_bytes (fst (set_bits src n b)) = write_at n src (bits_of_bytes b) \<and>
   take (n div 8) (fst (set_bits src n b)) = take (n div 8) b"
proof (induction src arbitrary: n b)
  case Nil
  then show ?case by (simp add: write_at_def)
next
  case (Cons v src)
  let ?i = "n div 8" and ?m = "drop_bit (n mod 8) 128 :: byte"
  let ?b = "b[?i := (if v then b ! ?i OR ?m else b ! ?i AND NOT ?m)]"
  have n: "n < 8 * length b" using Cons.prems by simp
  have IH: "snd (set_bits src (n + 1) ?b) = n + 1 + length src" "length (fst (set_bits src (n + 1) ?b)) = length b"
    "bits_of_bytes (fst (set_bits src (n + 1) ?b)) = write_at (n + 1) src (bits_of_bytes ?b)"
    "take ((n + 1) div 8) (fst (set_bits src (n + 1) ?b)) = take ((n + 1) div 8) ?b"
    using Cons.IH [of "n + 1" ?b] Cons.prems by simp_all
  have "write_at (n + 1) src ((bits_of_bytes b)[n := v]) = write_at n (v # src) (bits_of_bytes b)"
    using n Cons.prems by (simp add: write_at_def take_Suc_conv_app_nth)
  moreover have "take ?i (fst (set_bits src (n + 1) ?b)) = take ?i b"
  proof -
    have le: "?i \<le> (n + 1) div 8" by (simp add: div_le_mono)
    have "take ?i (fst (set_bits src (n + 1) ?b)) = take ?i (take ((n + 1) div 8) (fst (set_bits src (n + 1) ?b)))"
      using le by (simp add: min_absorb1)
    also have "\<dots> = take ?i ?b" unfolding IH(4) using le by (simp add: min_absorb1)
    finally show ?thesis by simp
  qed
  ultimately show ?case
    using IH(1,2,3) bits_update [OF n, of v] by (simp add: Let_def)
qed

lemma get_bits_eq:
  "k \<le> 7 \<Longrightarrow> get_bits v (2 ^ k) room = take room (map (\<lambda>j. bit v (k - j)) [0..<Suc k])"
proof (induction k arbitrary: room)
  case 0
  have "drop_bit 1 (2 ^ 0 :: byte) = 0" by simp
  then show ?case
    by (cases room) (simp_all add: get_bits.simps [of v 1] get_bits.simps [of v 0] and_exp_eq_0_iff_not_bit [of v 0, simplified])
next
  case (Suc k)
  have m: "drop_bit 1 (2 ^ Suc k :: byte) = 2 ^ k" "(0 :: byte) < 2 ^ Suc k"
    using Suc.prems by (simp_all add: drop_bit_exp_eq word_gt_0 exp_eq_zero_iff del: power_Suc)
  have "map (\<lambda>j. bit v (Suc k - j)) [0..<Suc (Suc k)] = bit v (Suc k) # map (\<lambda>j. bit v (k - j)) [0..<Suc k]"
    by (simp add: upt_conv_Cons map_Suc_upt [symmetric] del: upt_Suc)
  then show ?case
    using Suc m by (cases room) (simp_all add: get_bits.simps [of v "2 ^ Suc k"] and_exp_eq_0_iff_not_bit del: upt_Suc power_Suc)
qed

lemma get_all_bits_eq: "get_all_bits bs room = take room (bits_of_bytes bs)"
proof (induction bs arbitrary: room)
  case (Cons b bs)
  have "get_bits b 128 room = take room (byte_bits b)"
    using get_bits_eq [of 7 b room] by (simp add: byte_bits_def del: upt_Suc)
  then show ?case using Cons by (simp add: Let_def min_def)
qed simp

lemma BooleanArrayDecodeAll_format: "bool_format xs b \<Longrightarrow> BooleanArrayDecodeAll b = Inr xs"
  by (auto elim!: bool_format.cases simp: BooleanArrayDecodeAll_def Let_def sint_of_nat_small get_all_bits_eq)

lemma bits_of_bytes_take: "bits_of_bytes (take m bs) = take (8 * m) (bits_of_bytes bs)"
proof (induction m arbitrary: bs)
  case (Suc m)
  show ?case using Suc by (cases bs) simp_all
qed simp

lemma bits_of_bytes_drop: "bits_of_bytes (drop m bs) = drop (8 * m) (bits_of_bytes bs)"
proof (induction m arbitrary: bs)
  case (Suc m)
  show ?case using Suc by (cases bs) simp_all
qed simp

lemma BooleanArrayEncodeAll_format:
  assumes "length src < 2 ^ 56"
  shows "\<exists>out. BooleanArrayEncodeAll src b = Inr out \<and> bool_format src out"
proof -
  define hdr where "hdr = put_uvarint (of_nat (length src))"
  define sz where "sz = 1 + 8 + (length src + 7) div 8"
  define b1 where "b1 = (if length b < sz then b @ replicate sz 0 else b)"
  define b3 where "b3 = write_at 1 hdr (b1[0 := push_bit 4 booleanCompressedBitPacked])"
  define n0 where "n0 = 8 + length hdr * 8"
  obtain b4 n where sb: "set_bits src n0 b3 = (b4, n)" by fastforce
  have "unat (of_nat (length src) :: u64) < 2 ^ (7 * 8)" using assms by (simp add: unat_of_nat)
  then have hl: "length hdr \<le> 8" unfolding hdr_def by (rule length_put_uvarint_le) simp
  have "sz \<le> length b1" by (simp add: b1_def)
  then have lb: "length b3 = length b1" "9 \<le> length b1" "length src \<le> 8 * (length b1 - 9)"
    by (simp_all add: b3_def sz_def)
  have room: "n0 + length src \<le> 8 * length b3" using hl lb by (simp add: n0_def)
  have b4: "n = n0 + length src" "length b4 = length b3" "bits_of_bytes b4 = write_at n0 src (bits_of_bytes b3)"
    "take (n0 div 8) b4 = take (n0 div 8) b3"
    using set_bits_eq [OF room] sb by simp_all
  let ?len = "if 0 < n mod 8 then n div 8 + 1 else n div 8"
  have n8: "n \<le> 8 * ?len" "n0 div 8 = 1 + length hdr" "n0 = 8 * (1 + length hdr)"
    using div_mult_mod_eq [of n 8] mod_less_divisor [of 8 n] by (auto simp: n0_def)
  let ?bs = "drop (1 + length hdr) (take ?len b4)"
  have front: "take (1 + length hdr) b4 = push_bit 4 booleanCompressedBitPacked # hdr"
  proof -
    have "b1 = hd b1 # tl b1" using lb(2) by (cases b1) auto
    then show ?thesis using b4(4) lb(2) hl unfolding n8(2) b3_def write_at_def
      by (cases b1) simp_all
  qed
  have lenle: "1 + length hdr \<le> ?len"
    using b4(1) n8(3) n8(1) by (simp add: n0_def)
  have "take ?len b4 = (push_bit 4 booleanCompressedBitPacked # hdr) @ ?bs"
  proof -
    have "take ?len b4 = take (1 + length hdr) (take ?len b4) @ ?bs" by (rule append_take_drop_id [symmetric])
    also have "take (1 + length hdr) (take ?len b4) = take (1 + length hdr) b4"
      using lenle by (simp only: take_take min_absorb1)
    finally show ?thesis using front by simp
  qed
  moreover have "take (length src) (bits_of_bytes ?bs) = src"
  proof -
    have "take (length src) (bits_of_bytes ?bs) = take (length src) (drop n0 (take (8 * ?len) (write_at n0 src (bits_of_bytes b3))))"
      unfolding bits_of_bytes_drop bits_of_bytes_take b4(3) n8(3) [symmetric] by (rule refl)
    also have "\<dots> = drop n0 (take (n0 + length src) (write_at n0 src (bits_of_bytes b3)))"
      using n8(1) b4(1) by (simp add: take_drop min_absorb1 add.commute)
    also have "\<dots> = src" using room take_write_at [of n0 "bits_of_bytes b3" src] by simp
    finally show ?thesis .
  qed
  moreover have "length src \<le> 8 * length ?bs"
    using calculation(2) by (metis length_bits_of_bytes length_take min.cobounded1)
  moreover have "BooleanArrayEncodeAll src b = Inr (take ?len b4)"
    unfolding BooleanArrayEncodeAll_def Let_def hdr_def [symmetric] sz_def [symmetric] b1_def [symmetric] b3_def [symmetric]
      n0_def [symmetric] sb by simp
  moreover have "length src < 2 ^ 63" using assms by simp
  ultimately show ?thesis using bf [of src ?bs] by (simp add: hdr_def)
qed

section \<open>Blocks\<close>

definition bool_sel :: "Value \<Rightarrow> (u64 \<times> bool) option" where
  "bool_sel v = (case v of BooleanValue t x \<Rightarrow> Some (t, x) | _ \<Rightarrow> None)"

definition EncodeBooleanBlockUsing :: "Value list \<Rightarrow> time_encoder \<Rightarrow> BooleanEncoder \<Rightarrow> bytes result" where
  "EncodeBooleanBlockUsing = encode_block_using BlockBoolean bool_sel bo_Reset bo_Write bo_Bytes"

definition EncodeBooleanBlock :: "Value list \<Rightarrow> time_encoder \<Rightarrow> BooleanEncoder \<Rightarrow> bytes result" where
  "EncodeBooleanBlock values tenc venc =
     (if length values = 0 then Inr []
      else EncodeBooleanBlockUsing values (te_Reset tenc) (bo_Reset venc))"

definition DecodeBooleanBlock :: "TimeDecoder \<Rightarrow> BooleanDecoder \<Rightarrow> bytes \<Rightarrow> Value list result" where
  "DecodeBooleanBlock tdec vdec block =
     bind_result (decode_block_using BlockBoolean (\<lambda>b d. Inr (bd_SetBytes b d)) bd_Next bd_Read bd_err tdec vdec block)
       (\<lambda>ps. Inr (map (\<lambda>(t, x). BooleanValue t x) ps))"

definition EncodeBooleanArrayBlock :: "u64 list \<times> bool list \<Rightarrow> bytes result" where
  "EncodeBooleanArrayBlock a = encode_array_block BlockBoolean (\<lambda>xs. BooleanArrayEncodeAll xs []) a"

definition DecodeBooleanArrayBlock :: "bytes \<Rightarrow> u64 list \<times> bool list \<Rightarrow> (u64 list \<times> bool list) result" where
  "DecodeBooleanArrayBlock block a = decode_array_block BlockBoolean (\<lambda>b dst. BooleanArrayDecodeAll b) block a"

interpretation bool_codec: value_codec bo_Reset bo_Write bo_Bytes "\<lambda>b d. Inr (bd_SetBytes b d)" bd_Next bd_Read bd_err
  "\<lambda>e. True" "\<lambda>d. bd_err d = None" "\<lambda>xs. length xs < 2 ^ 63"
proof unfold_locales
  fix e :: BooleanEncoder and s :: BooleanDecoder and xs :: "bool list"
  assume "bd_err s = None" and "length xs < 2 ^ 63"
  then show "\<exists>b s'. bo_Bytes (fold bo_Write xs (bo_Reset e)) = Inr b \<and> Inr (bd_SetBytes b s) = (Inr s' :: BooleanDecoder result) \<and> bd_reads s' xs"
    using bo_Bytes_format [of xs e] bd_SetBytes_format by blast
qed

section \<open>Properties\<close>

lemma bool_sel_all:
  "list_all (\<lambda>v. valueType v = valueTypeBoolean) vs \<Longrightarrow>
   list_all2 (\<lambda>v p. bool_sel v = Some p) vs (map (\<lambda>v. (unixNano v, bool_value v)) vs) \<and>
   map (\<lambda>(t, x). BooleanValue t x) (map (\<lambda>v. (unixNano v, bool_value v)) vs) = vs"
proof (induction vs)
  case (Cons v vs)
  then show ?case by (cases v) (simp_all add: bool_sel_def value_types)
qed simp

text \<open>
  A block of boolean values decodes to exactly the same values and timestamps, with
  pooled encoders in any state and with pooled decoders, provided the boolean decoder has not
  recorded an error before (it never clears one).
\<close>

theorem boolean_block_roundtrip:
  assumes "list_all (\<lambda>v. valueType v = valueTypeBoolean) vs" and "vs \<noteq> []" and "length vs < 2 ^ 58"
    and "enc_inv (te_enc tenc)" and "length (d_buf (td_dec tdec)) = 240" and "bd_err vdec = None"
  shows "\<exists>block. EncodeBooleanBlock vs tenc venc = Inr block \<and> DecodeBooleanBlock tdec vdec block = Inr vs"
proof -
  let ?ps = "map (\<lambda>v. (unixNano v, bool_value v)) vs"
  have inv: "enc_inv (te_enc (te_Reset tenc))"
    using enc_rep_Reset [OF assms(4)] by (simp add: te_Reset_def enc_rep_def)
  obtain block where "EncodeBooleanBlockUsing vs (te_Reset tenc) (bo_Reset venc) = Inr block"
    "decode_block_using BlockBoolean (\<lambda>b d. Inr (bd_SetBytes b d)) bd_Next bd_Read bd_err tdec vdec block = Inr ?ps"
    unfolding EncodeBooleanBlockUsing_def
    using bool_codec.block_roundtrip [where sel = bool_sel and vs = vs and ps = ?ps and tenc = "te_Reset tenc"
        and venc = "bo_Reset venc" and tdec = tdec and vdec = vdec and bt = BlockBoolean]
      bool_sel_all [OF assms(1)] inv assms by auto
  then show ?thesis
    using bool_sel_all [OF assms(1)] assms(2) by (simp add: EncodeBooleanBlock_def DecodeBooleanBlock_def)
qed

definition fresh_bool_decoder :: BooleanDecoder where
  "fresh_bool_decoder = \<lparr>bd_b = [], bd_i = 0, bd_n = 0, bd_err = None\<rparr>"

theorem boolean_block_roundtrip_witness:
  "\<exists>block. EncodeBooleanBlock [BooleanValue 10 True, BooleanValue 20 False] NewTimeEncoder NewBooleanEncoder = Inr block \<and>
     DecodeBooleanBlock fresh_decoder fresh_bool_decoder block = Inr [BooleanValue 10 True, BooleanValue 20 False]"
proof -
  have "bd_err fresh_bool_decoder = None" by (simp add: fresh_bool_decoder_def)
  from boolean_block_roundtrip [OF _ _ _ NewTimeEncoder_inv fresh_decoder_ok this,
      of "[BooleanValue 10 True, BooleanValue 20 False]" NewBooleanEncoder] show ?thesis by simp
qed

text \<open>
  C11: The batch boolean encoder, which sets and clears bits of whatever buffer it is given,
  and the streaming encoder are both read back exactly by the batch and by the streaming
  decoder, for any buffer contents.
\<close>

theorem boolean_codecs_interchange:
  assumes "length xs < 2 ^ 56" and "bd_err d = None"
  shows "\<exists>b1 b2. bo_Bytes (fold bo_Write xs (bo_Reset e)) = Inr b1 \<and> BooleanArrayEncodeAll xs b = Inr b2 \<and>
    BooleanArrayDecodeAll b1 = Inr xs \<and> BooleanArrayDecodeAll b2 = Inr xs \<and>
    bd_reads (bd_SetBytes b1 d) xs \<and> bd_reads (bd_SetBytes b2 d) xs"
proof -
  have "length xs < 2 ^ 63" using assms(1) by simp
  then show ?thesis
    using bo_Bytes_format [of xs e] BooleanArrayEncodeAll_format [OF assms(1), of b]
      BooleanArrayDecodeAll_format bd_SetBytes_format [OF _ assms(2)] by blast
qed

theorem boolean_codecs_interchange_witness:
  "\<exists>b1 b2. bo_Bytes (fold bo_Write [True, False, True] (bo_Reset NewBooleanEncoder)) = Inr b1 \<and>
    BooleanArrayEncodeAll [True, False, True] [255, 255] = Inr b2 \<and>
    BooleanArrayDecodeAll b1 = Inr [True, False, True] \<and> BooleanArrayDecodeAll b2 = Inr [True, False, True] \<and>
    bd_reads (bd_SetBytes b1 fresh_bool_decoder) [True, False, True] \<and> bd_reads (bd_SetBytes b2 fresh_bool_decoder) [True, False, True]"
proof -
  have "bd_err fresh_bool_decoder = None" by (simp add: fresh_bool_decoder_def)
  from boolean_codecs_interchange [OF _ this, of "[True, False, True]" NewBooleanEncoder "[255, 255]"] show ?thesis by simp
qed

text \<open>An error stays in a pooled decoder: after it, no block yields a value.\<close>

theorem boolean_decoder_keeps_error:
  "bd_err d = Some err \<Longrightarrow> fst (bd_Next (bd_SetBytes b d)) = False"
  by (simp add: bd_SetBytes_def bd_Next_def Let_def split: prod.splits)

end
