(* ===== verification/StringCodec.thy ===== *)
theory StringCodec
  imports BlockCodec
begin

text \<open>
  Strings, \<open>storage/codec/string.go\<close>: each string is written with its length as a varint, and
  the whole is compressed with snappy, a package outside the repository. Its encoder and
  decoder are the parameters \<open>senc\<close> and \<open>sdec\<close> (and \<open>smax\<close> for \<open>MaxEncodedLen\<close>); the theorems use
  only that decoding an encoded buffer gives the buffer back. The raw variants store the
  bytes uncompressed.
\<close>

definition stringCompressedSnappy :: byte where "stringCompressedSnappy = 1"
definition stringUnCompressedSnappy :: byte where "stringUnCompressedSnappy = 0"

section \<open>The encoder\<close>

record StringEncoder =
  se_bytes :: bytes

text \<open>\<open>make([]byte, 1, sz)\<close> panics when the capacity is below the length.\<close>

definition NewStringEncoder :: "nat \<Rightarrow> StringEncoder result" where
  "NewStringEncoder sz = (if sz < 1 then Inl Panic else Inr \<lparr>se_bytes = [0]\<rparr>)"

definition se_Reset :: "StringEncoder \<Rightarrow> StringEncoder" where
  "se_Reset e = \<lparr>se_bytes = take 1 ((se_bytes e)[0 := 0])\<rparr>"

definition se_Write :: "bytes \<Rightarrow> StringEncoder \<Rightarrow> StringEncoder" where
  "se_Write s e = \<lparr>se_bytes = se_bytes e @ put_uvarint (of_nat (length s)) @ s\<rparr>"

definition se_Bytes :: "(bytes \<Rightarrow> bytes) \<Rightarrow> StringEncoder \<Rightarrow> bytes result" where
  "se_Bytes senc e = Inr (push_bit 4 stringCompressedSnappy # senc (drop 1 (se_bytes e)))"

definition se_RawBytes :: "StringEncoder \<Rightarrow> bytes result" where
  "se_RawBytes e = Inr ((se_bytes e)[0 := push_bit 4 stringUnCompressedSnappy])"

section \<open>The decoder\<close>

record StringDecoder =
  sd_b :: bytes
  sd_l :: int
  sd_i :: int
  sd_err :: "error option"

definition sd_SetBytes :: "(bytes \<Rightarrow> bytes option) \<Rightarrow> bytes \<Rightarrow> StringDecoder \<Rightarrow> StringDecoder result" where
  "sd_SetBytes sdec b d =
     bind_result
       (case b of
          [] \<Rightarrow> Inr []
        | h # rest \<Rightarrow>
            if drop_bit 4 h = stringCompressedSnappy
            then (case sdec rest of None \<Rightarrow> Inl ErrSnappy | Some data \<Rightarrow> Inr data)
            else Inr rest)
       (\<lambda>data. Inr \<lparr>sd_b = data, sd_l = 0, sd_i = 0, sd_err = None\<rparr>)"

definition sd_Next :: "StringDecoder \<Rightarrow> bool \<times> StringDecoder" where
  "sd_Next d =
     (if sd_err d \<noteq> None then (False, d)
      else let d1 = d\<lparr>sd_i := sd_i d + sd_l d\<rparr> in (sd_i d1 < int (length (sd_b d1)), d1))"

definition sd_Read :: "StringDecoder \<Rightarrow> bytes result \<times> StringDecoder" where
  "sd_Read d =
     (if sd_i d < 0 \<or> int (length (sd_b d)) < sd_i d then (Inl Panic, d)
      else let (len, n) = uvarint (drop (nat (sd_i d)) (sd_b d))
           in if n \<le> 0 then (Inr [], d\<lparr>sd_err := Some ErrInvalidStringLength\<rparr>)
              else let d1 = d\<lparr>sd_l := sint (len + word_of_int n)\<rparr>;
                       lower = sd_i d + n;
                       upper = sint (word_of_int lower + len)
                   in if upper < lower then (Inr [], d1\<lparr>sd_err := Some ErrLengthOverflow\<rparr>)
                      else if int (length (sd_b d)) < upper then (Inr [], d1\<lparr>sd_err := Some ErrShortBuffer\<rparr>)
                      else (Inr (drop (nat lower) (take (nat upper) (sd_b d))), d1))"

section \<open>Strings as bytes\<close>

definition enc_string :: "bytes \<Rightarrow> bytes" where
  "enc_string s = put_uvarint (of_nat (length s)) @ s"

definition enc_strings :: "bytes list \<Rightarrow> bytes" where
  "enc_strings xs = concat (map enc_string xs)"

lemma enc_strings_simps [simp]:
  "enc_strings [] = []" "enc_strings (s # xs) = enc_string s @ enc_strings xs"
  by (simp_all add: enc_strings_def)

lemma slice_at:
  assumes "drop k b = u @ s @ r"
  shows "drop (k + length u) (take (k + length u + length s) b) = s"
proof -
  have "drop (k + length u) b = s @ r"
    using arg_cong [OF assms, of "drop (length u)"] by (simp add: add.commute)
  then show ?thesis by (simp add: drop_take)
qed

lemma sint_add_small:
  assumes "0 \<le> a" and "a + int n < 2 ^ 63"
  shows "sint (word_of_int a + of_nat n :: u64) = a + int n"
proof -
  have "word_of_int a + of_nat n = (of_nat (nat a + n) :: u64)" using assms(1) by (simp add: of_nat_nat)
  moreover have "int (nat a + n) < int (2 ^ 63)" using assms by simp
  then have "nat a + n < 2 ^ 63" by (simp only: of_nat_less_iff)
  ultimately show ?thesis using sint_of_nat_small [of "nat a + n"] assms(1) by simp
qed

abbreviation sd_reads :: "StringDecoder \<Rightarrow> bytes list \<Rightarrow> bool" where
  "sd_reads \<equiv> reads sd_Next sd_Read sd_err"

lemma sd_reads_strings:
  assumes "sd_err d = None" and "0 \<le> sd_i d + sd_l d" and "length (sd_b d) < 2 ^ 63"
    and "drop (nat (sd_i d + sd_l d)) (sd_b d) = enc_strings xs" and "sd_i d + sd_l d \<le> int (length (sd_b d))"
  shows "sd_reads d xs"
  using assms
proof (induction xs arbitrary: d)
  case (Cons s xs)
  define k where "k = nat (sd_i d + sd_l d)"
  let ?u = "put_uvarint (of_nat (length s) :: u64)"
  have k: "int k = sd_i d + sd_l d" using Cons.prems(2) by (simp add: k_def)
  have dk: "drop k (sd_b d) = ?u @ s @ enc_strings xs" using Cons.prems(4) by (simp add: k_def enc_string_def)
  have len: "length (sd_b d) = k + length ?u + length s + length (enc_strings xs)"
    using arg_cong [OF dk, of length] Cons.prems(5) k by simp
  let ?d = "d\<lparr>sd_i := int k\<rparr>"
  let ?d' = "?d\<lparr>sd_l := int (length ?u + length s)\<rparr>"
  obtain m where m: "length ?u = Suc m" by (cases "length ?u") simp_all
  have nx: "sd_Next d = (True, ?d)"
    using Cons.prems(1) len k m by (simp add: sd_Next_def)
  have l: "sint (of_nat (length s) + word_of_int (int (length ?u)) :: u64) = int (length ?u + length s)"
    using sint_add_small [of "int (length ?u)" "length s"] Cons.prems(3) len by (simp add: add.commute)
  have u: "sint (word_of_int (int k + int (length ?u)) + of_nat (length s) :: u64) = int (k + length ?u + length s)"
    using sint_add_small [of "int k + int (length ?u)" "length s"] Cons.prems(3) len by simp
  have "drop (k + length ?u) (take (k + length ?u + length s) (sd_b d)) = s"
    using dk by (rule slice_at)
  then have rd: "sd_Read ?d = (Inr s, ?d')"
    using len dk l u by (simp add: sd_Read_def Let_def nat_add_distrib del: of_nat_add of_int_add of_int_of_nat_eq)
  have "sd_reads ?d' xs"
  proof (rule Cons.IH)
    have "nat (sd_i ?d' + sd_l ?d') = k + (length ?u + length s)" by simp
    moreover have "drop (k + (length ?u + length s)) (sd_b d) = enc_strings xs"
      using arg_cong [OF dk, of "drop (length ?u + length s)"] by (simp add: add.commute)
    ultimately show "drop (nat (sd_i ?d' + sd_l ?d')) (sd_b ?d') = enc_strings xs" by simp
  qed (use Cons.prems len in simp_all)
  then show ?case using nx rd Cons.prems(1) by simp
qed simp

lemma se_fold_Write:
  "se_bytes (fold se_Write xs e) = se_bytes e @ enc_strings xs"
  by (induction xs arbitrary: e) (simp_all add: se_Write_def enc_string_def)

section \<open>The format\<close>

inductive string_format :: "(bytes \<Rightarrow> bytes option) \<Rightarrow> bytes list \<Rightarrow> bytes \<Rightarrow> bool" for sdec where
  sf_snappy: "sdec data = Some (enc_strings xs) \<Longrightarrow> length (enc_strings xs) < 2 ^ 63 \<Longrightarrow>
    string_format sdec xs (push_bit 4 stringCompressedSnappy # data)"
| sf_raw: "length (enc_strings xs) < 2 ^ 63 \<Longrightarrow>
    string_format sdec xs (push_bit 4 stringUnCompressedSnappy # enc_strings xs)"

lemma string_header [simp]:
  "drop_bit 4 (push_bit 4 stringCompressedSnappy) = stringCompressedSnappy"
  "drop_bit 4 (push_bit 4 stringUnCompressedSnappy) \<noteq> stringCompressedSnappy"
  by (simp_all add: stringCompressedSnappy_def stringUnCompressedSnappy_def)

lemma sd_SetBytes_format:
  assumes "string_format sdec xs b"
  shows "\<exists>d'. sd_SetBytes sdec b d = Inr d' \<and> sd_reads d' xs"
  using assms
proof cases
  case (sf_snappy data)
  then have "sd_SetBytes sdec b d = Inr \<lparr>sd_b = enc_strings xs, sd_l = 0, sd_i = 0, sd_err = None\<rparr>"
    by (simp add: sd_SetBytes_def)
  then show ?thesis using sf_snappy by (auto intro: sd_reads_strings)
next
  case sf_raw
  then have "sd_SetBytes sdec b d = Inr \<lparr>sd_b = enc_strings xs, sd_l = 0, sd_i = 0, sd_err = None\<rparr>"
    by (simp add: sd_SetBytes_def)
  then show ?thesis using sf_raw by (auto intro: sd_reads_strings)
qed

lemma se_Reset_bytes: "se_bytes e \<noteq> [] \<Longrightarrow> se_bytes (se_Reset e) = [0]"
  by (cases "se_bytes e") (simp_all add: se_Reset_def)

lemma se_Bytes_format:
  assumes "se_bytes e \<noteq> []" and "length (enc_strings xs) < 2 ^ 63"
    and "sdec (senc (enc_strings xs)) = Some (enc_strings xs)"
  shows "\<exists>b. se_Bytes senc (fold se_Write xs (se_Reset e)) = Inr b \<and> string_format sdec xs b"
  using assms by (simp add: se_Bytes_def se_fold_Write se_Reset_bytes sf_snappy)

lemma se_RawBytes_format:
  assumes "se_bytes e \<noteq> []" and "length (enc_strings xs) < 2 ^ 63"
  shows "\<exists>b. se_RawBytes (fold se_Write xs (se_Reset e)) = Inr b \<and> string_format sdec xs b"
  using assms by (simp add: se_RawBytes_def se_fold_Write se_Reset_bytes sf_raw)

section \<open>Batch functions\<close>

definition string_sizes :: "bytes list \<Rightarrow> nat" where
  "string_sizes src = 2 + length src * 5 + sum_list (map length src)"

text \<open>
  \<open>snappy.Encode\<close> is given a destination of \<open>MaxEncodedLen\<close> bytes and therefore encodes into
  it. Nothing is encoded for an empty slice: the second byte of the result is then whatever
  the buffer held.
\<close>

definition StringArrayEncodeAll :: "(bytes \<Rightarrow> bytes) \<Rightarrow> (nat \<Rightarrow> int) \<Rightarrow> bytes list \<Rightarrow> bytes \<Rightarrow> bytes result" where
  "StringArrayEncodeAll senc smax src b =
     (let srcSz = string_sizes src
      in if srcSz > 4294967295 then Inl ErrTooLarge
         else if length src = 0 then
           (let b1 = (if length b < srcSz then replicate srcSz 0 else take srcSz b)
            in Inr (take 2 (b1[0 := push_bit 4 stringCompressedSnappy])))
         else if smax srcSz = -1 then Inl ErrTooLarge
         else Inr (push_bit 4 stringCompressedSnappy # senc (enc_strings src)))"

function decode_strings :: "bytes \<Rightarrow> nat \<Rightarrow> bytes list result" where
  "decode_strings b i =
     (if i < length b then
        (let (len, n) = uvarint (drop i b)
         in if n \<le> 0 then Inl ErrInvalidStringLength
            else let lower = int i + n; upper = sint (word_of_int lower + len)
                 in if upper < lower then Inl ErrLengthOverflow
                    else if int (length b) < upper then Inl ErrShortBuffer
                    else bind_result (decode_strings b (nat upper))
                           (\<lambda>rest. Inr (drop (nat lower) (take (nat upper) b) # rest)))
      else Inr [])"
  by pat_completeness auto
termination by (relation "measure (\<lambda>(b, i). length b - i)") auto

declare decode_strings.simps [simp del]

definition StringArrayDecodeAll :: "(bytes \<Rightarrow> bytes option) \<Rightarrow> bytes \<Rightarrow> bytes list result" where
  "StringArrayDecodeAll sdec b =
     (case b of
        [] \<Rightarrow> Inr []
      | h # rest \<Rightarrow>
          if drop_bit 4 h = stringCompressedSnappy
          then (case sdec rest of None \<Rightarrow> Inl ErrSnappy | Some data \<Rightarrow> decode_strings data 0)
          else decode_strings rest 0)"

lemma decode_strings_eq:
  "drop i b = enc_strings xs \<Longrightarrow> length b < 2 ^ 63 \<Longrightarrow> decode_strings b i = Inr xs"
proof (induction xs arbitrary: i)
  case Nil
  then show ?case by (simp add: decode_strings.simps)
next
  case (Cons s xs)
  let ?u = "put_uvarint (of_nat (length s) :: u64)"
  have dk: "drop i b = ?u @ s @ enc_strings xs" using Cons.prems(1) by (simp add: enc_string_def)
  obtain m where m: "length ?u = Suc m" by (cases "length ?u") simp_all
  have len: "length b - i = length ?u + length s + length (enc_strings xs)"
    using arg_cong [OF dk, of length] by simp
  then have i: "i < length b" "length b = i + length ?u + length s + length (enc_strings xs)" using m by simp_all
  have u: "sint (word_of_int (int i + int (length ?u)) + of_nat (length s) :: u64) = int (i + length ?u + length s)"
    using sint_add_small [of "int i + int (length ?u)" "length s"] Cons.prems(2) i by simp
  have "drop (i + length ?u) (take (i + length ?u + length s) b) = s"
    using dk by (rule slice_at)
  moreover have "decode_strings b (i + length ?u + length s) = Inr xs"
    using Cons.IH [of "i + length ?u + length s"] arg_cong [OF dk, of "drop (length ?u + length s)"] Cons.prems(2)
    by (simp add: ac_simps)
  ultimately show ?case
    using i dk u by (subst decode_strings.simps)
      (simp add: Let_def nat_add_distrib del: of_nat_add of_int_add of_int_of_nat_eq)
qed

lemma StringArrayDecodeAll_format: "string_format sdec xs b \<Longrightarrow> StringArrayDecodeAll sdec b = Inr xs"
  by (auto elim!: string_format.cases simp: StringArrayDecodeAll_def decode_strings_eq)

section \<open>Blocks\<close>

definition string_sel :: "Value \<Rightarrow> (u64 \<times> bytes) option" where
  "string_sel v = (case v of StringValue t x \<Rightarrow> Some (t, x) | _ \<Rightarrow> None)"

definition EncodeStringBlockUsing :: "(bytes \<Rightarrow> bytes) \<Rightarrow> Value list \<Rightarrow> time_encoder \<Rightarrow> StringEncoder \<Rightarrow> bytes result" where
  "EncodeStringBlockUsing senc = encode_block_using BlockString string_sel se_Reset se_Write (se_Bytes senc)"

definition EncodeRawStringBlockUsing :: "Value list \<Rightarrow> time_encoder \<Rightarrow> StringEncoder \<Rightarrow> bytes result" where
  "EncodeRawStringBlockUsing values tenc venc =
     bind_result (write_values string_sel se_Write values (te_Reset tenc) (se_Reset venc)) (\<lambda>(te, ve).
     bind_result (te_RawBytes te) (\<lambda>tb.
     bind_result (se_RawBytes ve) (\<lambda>vb. Inr (packBlock BlockString tb vb))))"

text \<open>\<open>GetStringEncoder\<close> takes an encoder from the pool, or makes one of the given size if the pool is empty.\<close>

definition GetStringEncoder :: "StringEncoder option \<Rightarrow> nat \<Rightarrow> StringEncoder result" where
  "GetStringEncoder pooled sz =
     bind_result (case pooled of Some e \<Rightarrow> Inr e | None \<Rightarrow> NewStringEncoder sz) (\<lambda>e. Inr (se_Reset e))"

definition EncodeStringBlock ::
  "(bytes \<Rightarrow> bytes) \<Rightarrow> Value list \<Rightarrow> time_encoder \<Rightarrow> StringEncoder option \<Rightarrow> bytes result" where
  "EncodeStringBlock senc values tenc pooled =
     (case values of
        StringValue t s # _ \<Rightarrow>
          bind_result (GetStringEncoder pooled (length values * length s)) (\<lambda>venc.
            EncodeStringBlockUsing senc values (te_Reset tenc) venc)
      | _ \<Rightarrow> Inl Panic)"

definition DecodeStringBlock ::
  "(bytes \<Rightarrow> bytes option) \<Rightarrow> TimeDecoder \<Rightarrow> StringDecoder \<Rightarrow> bytes \<Rightarrow> Value list result" where
  "DecodeStringBlock sdec tdec vdec block =
     bind_result (decode_block_using BlockString (sd_SetBytes sdec) sd_Next sd_Read sd_err tdec vdec block)
       (\<lambda>ps. Inr (map (\<lambda>(t, x). StringValue t x) ps))"

definition EncodeStringArrayBlock ::
  "(bytes \<Rightarrow> bytes) \<Rightarrow> (nat \<Rightarrow> int) \<Rightarrow> u64 list \<times> bytes list \<Rightarrow> bytes result" where
  "EncodeStringArrayBlock senc smax a = encode_array_block BlockString (\<lambda>xs. StringArrayEncodeAll senc smax xs []) a"

definition DecodeStringArrayBlock ::
  "(bytes \<Rightarrow> bytes option) \<Rightarrow> bytes \<Rightarrow> u64 list \<times> bytes list \<Rightarrow> (u64 list \<times> bytes list) result" where
  "DecodeStringArrayBlock sdec block a = decode_array_block BlockString (\<lambda>b dst. StringArrayDecodeAll sdec b) block a"

text \<open>The law holds for the sequences on which the given compressor is inverted by the given decompressor.\<close>

interpretation string_codec: value_codec se_Reset se_Write "se_Bytes senc" "sd_SetBytes sdec" sd_Next sd_Read sd_err
  "\<lambda>e. se_bytes e \<noteq> []" "\<lambda>d. True"
  "\<lambda>xs. length (enc_strings xs) < 2 ^ 63 \<and> sdec (senc (enc_strings xs)) = Some (enc_strings xs)"
  for senc sdec
proof unfold_locales
  fix e :: StringEncoder and s :: StringDecoder and xs
  assume "se_bytes e \<noteq> []" and "length (enc_strings xs) < 2 ^ 63 \<and> sdec (senc (enc_strings xs)) = Some (enc_strings xs)"
  then obtain b where b: "se_Bytes senc (fold se_Write xs (se_Reset e)) = Inr b" "string_format sdec xs b"
    using se_Bytes_format by blast
  then show "\<exists>b s'. se_Bytes senc (fold se_Write xs (se_Reset e)) = Inr b \<and> sd_SetBytes sdec b s = Inr s' \<and> sd_reads s' xs"
    using sd_SetBytes_format [OF b(2), of s] by blast
qed

section \<open>Properties\<close>

lemma string_sel_all:
  "list_all (\<lambda>v. valueType v = valueTypeString) vs \<Longrightarrow>
   list_all2 (\<lambda>v p. string_sel v = Some p) vs (map (\<lambda>v. (unixNano v, string_bytes v)) vs) \<and>
   map (\<lambda>(t, x). StringValue t x) (map (\<lambda>v. (unixNano v, string_bytes v)) vs) = vs"
proof (induction vs)
  case (Cons v vs)
  then show ?case by (cases v) (simp_all add: string_sel_def value_types)
qed simp

lemma GetStringEncoder_ok:
  "GetStringEncoder pooled sz = Inr e \<Longrightarrow> (\<And>p. pooled = Some p \<Longrightarrow> se_bytes p \<noteq> []) \<Longrightarrow> se_bytes e \<noteq> []"
  by (cases pooled) (auto simp: GetStringEncoder_def NewStringEncoder_def se_Reset_bytes se_Reset_def split: if_splits)

text \<open>
  A block of string values decodes to the same values and timestamps whenever the
  compressor is inverted by the decompressor, the first string is not empty or the pool has an
  encoder, and the strings fit in memory.
\<close>

theorem string_block_roundtrip:
  assumes snappy: "\<And>x. sdec (senc x) = Some x"
    and "list_all (\<lambda>v. valueType v = valueTypeString) vs" and "vs \<noteq> []" and "length vs < 2 ^ 58"
    and "length (enc_strings (map string_bytes vs)) < 2 ^ 63"
    and "enc_inv (te_enc tenc)" and "length (d_buf (td_dec tdec)) = 240"
    and pool: "\<And>p. pooled = Some p \<Longrightarrow> se_bytes p \<noteq> []" "pooled = None \<Longrightarrow> string_bytes (hd vs) \<noteq> []"
  shows "\<exists>block. EncodeStringBlock senc vs tenc pooled = Inr block \<and> DecodeStringBlock sdec tdec vdec block = Inr vs"
proof -
  let ?ps = "map (\<lambda>v. (unixNano v, string_bytes v)) vs"
  have inv: "enc_inv (te_enc (te_Reset tenc))"
    using enc_rep_Reset [OF assms(6)] by (simp add: te_Reset_def enc_rep_def)
  obtain t s vs' where vs: "vs = StringValue t s # vs'"
    using assms(2,3) by (cases vs; cases "hd vs") (auto simp: value_types)
  have "\<exists>venc. GetStringEncoder pooled (length vs * length s) = Inr venc"
    using pool(2) vs by (cases pooled) (simp_all add: GetStringEncoder_def NewStringEncoder_def)
  then obtain venc where venc: "GetStringEncoder pooled (length vs * length s) = Inr venc" by blast
  then have ve: "se_bytes venc \<noteq> []" using GetStringEncoder_ok pool(1) by blast
  obtain block where "EncodeStringBlockUsing senc vs (te_Reset tenc) venc = Inr block"
    "decode_block_using BlockString (sd_SetBytes sdec) sd_Next sd_Read sd_err tdec vdec block = Inr ?ps"
    unfolding EncodeStringBlockUsing_def
    using string_codec.block_roundtrip [where sel = string_sel and vs = vs and ps = ?ps and tenc = "te_Reset tenc"
        and venc = venc and tdec = tdec and vdec = vdec and bt = BlockString and senc = senc and sdec = sdec]
      string_sel_all [OF assms(2)] inv assms(3,4,5,7) snappy ve by (auto simp: comp_def)
  then show ?thesis
    using string_sel_all [OF assms(2)] venc vs by (auto simp: EncodeStringBlock_def DecodeStringBlock_def)
qed

definition fresh_string_decoder :: StringDecoder where
  "fresh_string_decoder = \<lparr>sd_b = [], sd_l = 0, sd_i = 0, sd_err = None\<rparr>"

theorem string_block_roundtrip_witness:
  "\<exists>block. EncodeStringBlock (\<lambda>x. x) [StringValue 10 [104, 105], StringValue 20 []] NewTimeEncoder None = Inr block \<and>
     DecodeStringBlock Some fresh_decoder fresh_string_decoder block = Inr [StringValue 10 [104, 105], StringValue 20 []]"
proof -
  have "enc_strings [[104, 105], []] = [2, 104, 105, 0]" by code_simp
  then have "length (enc_strings (map string_bytes [StringValue 10 [104, 105], StringValue 20 []])) < 2 ^ 63"
    by (simp del: enc_strings_simps)
  then show ?thesis
    using string_block_roundtrip [of Some "\<lambda>x. x" "[StringValue 10 [104, 105], StringValue 20 []]",
        OF _ _ _ _ _ NewTimeEncoder_inv fresh_decoder_ok, of None fresh_string_decoder] by simp
qed

text \<open>
  C13: The batch and streaming string codecs read each other's bytes, compressed and raw, and
  the batch encoder fails only for sources it takes to be larger than 32 bits.
\<close>

theorem string_codecs_interchange:
  assumes "\<And>x. sdec (senc x) = Some x" and "se_bytes e \<noteq> []" and "length (enc_strings xs) < 2 ^ 63" and "xs \<noteq> []"
    and "string_sizes xs \<le> 4294967295" and "smax (string_sizes xs) \<noteq> -1"
  shows "\<exists>b1 b2 b3. se_Bytes senc (fold se_Write xs (se_Reset e)) = Inr b1 \<and>
    se_RawBytes (fold se_Write xs (se_Reset e)) = Inr b2 \<and> StringArrayEncodeAll senc smax xs b = Inr b3 \<and>
    (\<forall>bs \<in> {b1, b2, b3}. StringArrayDecodeAll sdec bs = Inr xs \<and> (\<exists>d'. sd_SetBytes sdec bs d = Inr d' \<and> sd_reads d' xs))"
proof -
  obtain b1 b2 where b: "se_Bytes senc (fold se_Write xs (se_Reset e)) = Inr b1" "string_format sdec xs b1"
    "se_RawBytes (fold se_Write xs (se_Reset e)) = Inr b2" "string_format sdec xs b2"
    using se_Bytes_format [OF assms(2,3), of sdec senc] se_RawBytes_format [OF assms(2,3), of sdec] assms(1) by blast
  have b3: "StringArrayEncodeAll senc smax xs b = Inr (push_bit 4 stringCompressedSnappy # senc (enc_strings xs))"
    "string_format sdec xs (push_bit 4 stringCompressedSnappy # senc (enc_strings xs))"
    using assms by (auto simp: StringArrayEncodeAll_def Let_def intro: sf_snappy)
  show ?thesis
    using b b3 StringArrayDecodeAll_format sd_SetBytes_format [where d = d] by (intro exI conjI) auto
qed

theorem string_codecs_interchange_witness:
  "\<exists>b1 b2 b3. se_Bytes (\<lambda>x. x) (fold se_Write [[104], []] (se_Reset \<lparr>se_bytes = [0]\<rparr>)) = Inr b1 \<and>
    se_RawBytes (fold se_Write [[104], []] (se_Reset \<lparr>se_bytes = [0]\<rparr>)) = Inr b2 \<and>
    StringArrayEncodeAll (\<lambda>x. x) int [[104], []] [] = Inr b3 \<and>
    (\<forall>bs \<in> {b1, b2, b3}. StringArrayDecodeAll Some bs = Inr [[104], []] \<and>
       (\<exists>d'. sd_SetBytes Some bs fresh_string_decoder = Inr d' \<and> sd_reads d' [[104], []]))"
proof -
  have "enc_strings [[104], []] = [1, 104, 0]" by code_simp
  then have "length (enc_strings [[104], []]) < 2 ^ 63" by (simp del: enc_strings_simps)
  then show ?thesis
    using string_codecs_interchange [of Some "\<lambda>x. x" "\<lparr>se_bytes = [0]\<rparr>" "[[104], []]" int "[]" fresh_string_decoder]
    by (simp add: string_sizes_def)
qed

end
