(* ===== verification/FloatCodec.thy ===== *)
theory FloatCodec
  imports BlockCodec
begin

text \<open>
  Floats, \<open>storage/codec/float.go\<close> and \<open>storage/codec/bit_reader.go\<close>: the streaming \<open>FloatEncoder\<close> and
  \<open>FloatDecoder\<close> of the Gorilla scheme and the float blocks. A \<open>float64\<close> is its IEEE bits. The encoder
  writes bits through the \<open>BitWriter\<close> of \<open>github.com/dgryski/go-bitstream\<close>, a package outside the
  repository: its methods are the parameter \<open>ops\<close>, and \<open>bit_writer\<close> states what they are documented to do.
\<close>

section \<open>Bits\<close>

text \<open>The low \<open>n\<close> bits of a word, most significant first, and the bits of a byte slice.\<close>

definition low_bits :: "nat \<Rightarrow> 'a::len word \<Rightarrow> bool list" where
  "low_bits n w = map (bit w) (rev [0..<n])"

definition bits_of :: "bytes \<Rightarrow> bool list" where
  "bits_of b = concat (map (low_bits 8) b)"

definition word_of :: "bool list \<Rightarrow> u64" where
  "word_of bs = foldl (\<lambda>a b. push_bit 1 a OR of_bool b) 0 bs"

definition IsNaN :: "u64 \<Rightarrow> bool" where
  "IsNaN x \<longleftrightarrow> take_bit 63 x > 0x7FF0000000000000"

definition LeadingZeros64 :: "u64 \<Rightarrow> nat" where
  "LeadingZeros64 x = length (takeWhile Not (low_bits 64 x))"

definition TrailingZeros64 :: "u64 \<Rightarrow> nat" where
  "TrailingZeros64 x = length (takeWhile (\<lambda>i. \<not> bit x i) [0..<64])"

section \<open>BitReader\<close>

record BitReader =
  br_data :: bytes
  br_v :: u64
  br_n :: nat

fun readBuf_loop :: "bytes \<Rightarrow> u64 \<Rightarrow> nat \<Rightarrow> u64 \<times> nat" where
  "readBuf_loop [] v n = (v, n)"
| "readBuf_loop (d # ds) v n =
     readBuf_loop ds (v OR (if n + 8 \<le> 64 then push_bit (64 - (n + 8)) (ucast d) else 0)) (n + 8)"

definition readBuf :: "BitReader \<Rightarrow> BitReader" where
  "readBuf r =
     (let byteN = min (8 - br_n r div 8) (length (br_data r))
      in if byteN = 8
         then r\<lparr>br_v := get_u64 (br_data r), br_n := 64, br_data := drop 8 (br_data r)\<rparr>
         else let (v, n) = readBuf_loop (take byteN (br_data r)) (br_v r) (br_n r)
              in r\<lparr>br_v := v, br_n := n, br_data := drop byteN (br_data r)\<rparr>)"

definition br_Reset :: "bytes \<Rightarrow> BitReader \<Rightarrow> BitReader" where
  "br_Reset data r = readBuf (r\<lparr>br_data := data, br_v := 0, br_n := 0\<rparr>)"

definition CanReadBitFast :: "BitReader \<Rightarrow> bool" where
  "CanReadBitFast r \<longleftrightarrow> br_n r > 1"

definition ReadBitFast :: "BitReader \<Rightarrow> bool \<times> BitReader" where
  "ReadBitFast r = (bit (br_v r) 63, r\<lparr>br_v := push_bit 1 (br_v r), br_n := br_n r - 1\<rparr>)"

definition refill :: "BitReader \<Rightarrow> BitReader" where
  "refill r = (if br_n r = 0 then readBuf r else r)"

definition ReadBits :: "nat \<Rightarrow> BitReader \<Rightarrow> u64 result \<times> BitReader" where
  "ReadBits nbits r =
     (if br_n r = 0 then (Inl ErrEOF, r)
      else if nbits \<le> br_n r then
        (if nbits = 64 then (Inr (br_v r), readBuf (r\<lparr>br_v := 0, br_n := 0\<rparr>))
         else (Inr (drop_bit (64 - nbits) (br_v r)),
               refill (r\<lparr>br_v := push_bit nbits (br_v r), br_n := br_n r - nbits\<rparr>)))
      else
        let v = br_v r; n = br_n r;
            r1 = readBuf (r\<lparr>br_v := 0, br_n := 0\<rparr>);
            v' = drop_bit (64 - nbits) (v OR drop_bit n (br_v r1));
            bufN = min (nbits - n) (br_n r1)
        in (Inr v', refill (r1\<lparr>br_v := push_bit bufN (br_v r1), br_n := br_n r1 - bufN\<rparr>)))"

definition ReadBit :: "BitReader \<Rightarrow> bool result \<times> BitReader" where
  "ReadBit r = (case ReadBits 1 r of (Inl e, r') \<Rightarrow> (Inl e, r') | (Inr v, r') \<Rightarrow> (Inr (v \<noteq> 0), r'))"

section \<open>FloatEncoder\<close>

text \<open>
  The methods of a \<open>BitWriter\<close> with state \<open>'w\<close>. Each returns the bytes it sends to the buffer below; that
  buffer, a \<open>bytes.Buffer\<close>, does not fail. \<open>Resume\<close> sets the byte in progress and its number of free bits.
\<close>

record 'w BitWriter =
  bw_new :: 'w
  bw_WriteBit :: "bool \<Rightarrow> 'w \<Rightarrow> 'w \<times> bytes"
  bw_WriteBits :: "u64 \<Rightarrow> int \<Rightarrow> 'w \<Rightarrow> 'w \<times> bytes"
  bw_Flush :: "bool \<Rightarrow> 'w \<Rightarrow> 'w \<times> bytes"
  bw_Resume :: "byte \<Rightarrow> byte \<Rightarrow> 'w \<Rightarrow> 'w"

text \<open>\<open>pend\<close> is the byte in progress: the bits written so far are those sent and those pending.\<close>

definition bit_writer :: "'w BitWriter \<Rightarrow> ('w \<Rightarrow> bool list) \<Rightarrow> bool" where
  "bit_writer ops pend \<longleftrightarrow>
     (\<forall>w. length (pend w) < 8) \<and>
     pend (bw_new ops) = [] \<and>
     (\<forall>w. pend (bw_Resume ops 0 8 w) = []) \<and>
     (\<forall>b w. bits_of (snd (bw_WriteBit ops b w)) @ pend (fst (bw_WriteBit ops b w)) = pend w @ [b]) \<and>
     (\<forall>u n w. n \<le> 64 \<longrightarrow>
        bits_of (snd (bw_WriteBits ops u (int n) w)) @ pend (fst (bw_WriteBits ops u (int n) w)) = pend w @ low_bits n u) \<and>
     (\<forall>b w. bits_of (snd (bw_Flush ops b w)) = pend w @ replicate ((8 - length (pend w)) mod 8) b)"

record 'w FloatEncoder =
  fe_val :: u64
  fe_err :: "error option"
  fe_leading :: u64
  fe_trailing :: u64
  fe_buf :: bytes
  fe_bw :: 'w
  fe_first :: bool
  fe_finished :: bool

definition floatCompressedGorilla :: byte where "floatCompressedGorilla = 1"

definition uvnan :: u64 where "uvnan = 0x7FF8000000000001"

definition NewFloatEncoder :: "'w BitWriter \<Rightarrow> 'w FloatEncoder" where
  "NewFloatEncoder ops =
     \<lparr>fe_val = 0, fe_err = None, fe_leading = -1, fe_trailing = 0, fe_buf = [push_bit 4 floatCompressedGorilla],
      fe_bw = bw_new ops, fe_first = True, fe_finished = False\<rparr>"

definition fe_Reset :: "'w BitWriter \<Rightarrow> 'w FloatEncoder \<Rightarrow> 'w FloatEncoder" where
  "fe_Reset ops s =
     s\<lparr>fe_val := 0, fe_err := None, fe_leading := -1, fe_trailing := 0, fe_buf := [push_bit 4 floatCompressedGorilla],
       fe_bw := bw_Resume ops 0 8 (fe_bw s), fe_finished := False, fe_first := True\<rparr>"

definition fe_Bytes :: "'w FloatEncoder \<Rightarrow> bytes result" where
  "fe_Bytes s = (case fe_err s of None \<Rightarrow> Inr (fe_buf s) | Some e \<Rightarrow> Inl e)"

definition fe_WriteBit :: "'w BitWriter \<Rightarrow> bool \<Rightarrow> 'w FloatEncoder \<Rightarrow> 'w FloatEncoder" where
  "fe_WriteBit ops b s =
     (let (w, out) = bw_WriteBit ops b (fe_bw s) in s\<lparr>fe_bw := w, fe_buf := fe_buf s @ out\<rparr>)"

definition fe_WriteBits :: "'w BitWriter \<Rightarrow> u64 \<Rightarrow> int \<Rightarrow> 'w FloatEncoder \<Rightarrow> 'w FloatEncoder" where
  "fe_WriteBits ops u n s =
     (let (w, out) = bw_WriteBits ops u n (fe_bw s) in s\<lparr>fe_bw := w, fe_buf := fe_buf s @ out\<rparr>)"

definition write_delta :: "'w BitWriter \<Rightarrow> u64 \<Rightarrow> 'w FloatEncoder \<Rightarrow> 'w FloatEncoder" where
  "write_delta ops vDelta s =
     (let leading0 = (of_nat (LeadingZeros64 vDelta) :: u64) AND 0x1F;
          trailing = of_nat (TrailingZeros64 vDelta);
          leading = (if leading0 \<ge> 32 then 31 else leading0)
      in if fe_leading s \<noteq> -1 \<and> leading \<ge> fe_leading s \<and> trailing \<ge> fe_trailing s
         then fe_WriteBits ops (drop_bit (unat (fe_trailing s)) vDelta)
                (64 - sint (fe_leading s) - sint (fe_trailing s)) (fe_WriteBit ops False s)
         else let sigbits = 64 - leading - trailing
              in fe_WriteBits ops (drop_bit (unat trailing) vDelta) (sint sigbits)
                   (fe_WriteBits ops sigbits 6 (fe_WriteBits ops leading 5 (fe_WriteBit ops True
                     (s\<lparr>fe_leading := leading, fe_trailing := trailing\<rparr>)))))"

definition fe_Write :: "'w BitWriter \<Rightarrow> u64 \<Rightarrow> 'w FloatEncoder \<Rightarrow> 'w FloatEncoder" where
  "fe_Write ops v s =
     (if IsNaN v \<and> \<not> fe_finished s then s\<lparr>fe_err := Some ErrUnsupportedNaN\<rparr>
      else if fe_first s then fe_WriteBits ops v 64 (s\<lparr>fe_val := v, fe_first := False\<rparr>)
      else let vDelta = v XOR fe_val s
           in (if vDelta = 0 then fe_WriteBit ops False s
               else write_delta ops vDelta (fe_WriteBit ops True s))\<lparr>fe_val := v\<rparr>)"

definition fe_Flush :: "'w BitWriter \<Rightarrow> 'w FloatEncoder \<Rightarrow> 'w FloatEncoder" where
  "fe_Flush ops s =
     (if fe_finished s then s
      else let s1 = fe_Write ops uvnan (s\<lparr>fe_finished := True\<rparr>);
               (w, out) = bw_Flush ops False (fe_bw s1)
           in s1\<lparr>fe_bw := w, fe_buf := fe_buf s1 @ out\<rparr>)"

section \<open>FloatDecoder\<close>

record FloatDecoder =
  fd_val :: u64
  fd_leading :: u64
  fd_trailing :: u64
  fd_br :: BitReader
  fd_b :: bytes
  fd_first :: bool
  fd_finished :: bool
  fd_err :: "error option"

definition fd_start :: "u64 \<Rightarrow> bytes \<Rightarrow> FloatDecoder \<Rightarrow> FloatDecoder" where
  "fd_start v b it =
     it\<lparr>fd_val := v, fd_leading := 0, fd_trailing := 0, fd_b := b, fd_first := True, fd_finished := False,
        fd_err := None\<rparr>"

definition fd_SetBytes :: "bytes \<Rightarrow> FloatDecoder \<Rightarrow> FloatDecoder result" where
  "fd_SetBytes b it =
     (case b of
        [] \<Rightarrow> Inr (fd_start uvnan b it)
      | _ # rest \<Rightarrow>
          (case ReadBits 64 (br_Reset rest (fd_br it)) of
             (Inl e, r) \<Rightarrow> Inl e
           | (Inr v, r) \<Rightarrow> Inr (fd_start v b (it\<lparr>fd_br := r\<rparr>))))"

definition next_bit :: "BitReader \<Rightarrow> bool result \<times> BitReader" where
  "next_bit r = (if CanReadBitFast r then (let (b, r') = ReadBitFast r in (Inr b, r')) else ReadBit r)"

text \<open>A read of \<open>Next\<close>: on an error the decoder keeps it and \<open>Next\<close> returns false.\<close>

definition fd_read ::
  "(BitReader \<Rightarrow> 'a result \<times> BitReader) \<Rightarrow> FloatDecoder \<Rightarrow> ('a \<Rightarrow> FloatDecoder \<Rightarrow> bool \<times> FloatDecoder) \<Rightarrow> bool \<times> FloatDecoder" where
  "fd_read f it k =
     (case f (fd_br it) of
        (Inl e, r) \<Rightarrow> (False, it\<lparr>fd_br := r, fd_err := Some e\<rparr>)
      | (Inr x, r) \<Rightarrow> k x (it\<lparr>fd_br := r\<rparr>))"

definition read_xor :: "FloatDecoder \<Rightarrow> bool \<times> FloatDecoder" where
  "read_xor it =
     fd_read (ReadBits (unat (64 - fd_leading it - fd_trailing it))) it (\<lambda>bits it.
       let vbits = fd_val it XOR (if fd_trailing it < 64 then push_bit (unat (fd_trailing it)) bits else 0)
       in if vbits = uvnan then (False, it\<lparr>fd_finished := True\<rparr>)
          else (True, it\<lparr>fd_val := vbits\<rparr>))"

definition fd_Next :: "FloatDecoder \<Rightarrow> bool \<times> FloatDecoder" where
  "fd_Next it =
     (if fd_err it \<noteq> None \<or> fd_finished it then (False, it)
      else if fd_first it then
        (if fd_val it = uvnan then (False, it\<lparr>fd_first := False, fd_finished := True\<rparr>)
         else (True, it\<lparr>fd_first := False\<rparr>))
      else fd_read next_bit it (\<lambda>b it.
        if \<not> b then (True, it)
        else fd_read next_bit it (\<lambda>b it.
          if \<not> b then read_xor it
          else fd_read (ReadBits 5) it (\<lambda>leading it.
               fd_read (ReadBits 6) (it\<lparr>fd_leading := leading\<rparr>) (\<lambda>bits it.
                 let mbits = (if bits = 0 then 64 else bits)
                 in read_xor (it\<lparr>fd_trailing := 64 - fd_leading it - mbits\<rparr>))))))"

definition fd_Values :: "FloatDecoder \<Rightarrow> u64 result \<times> FloatDecoder" where
  "fd_Values it = (Inr (fd_val it), it)"

section \<open>Bits of words\<close>

lemma low_bits_simps [simp]:
  "low_bits 0 w = []" "low_bits (Suc n) w = bit w n # low_bits n w" "length (low_bits n w) = n"
  by (simp_all add: low_bits_def)

lemma bits_of_simps [simp]:
  "bits_of [] = []" "bits_of (b # bs) = low_bits 8 b @ bits_of bs" "bits_of (xs @ ys) = bits_of xs @ bits_of ys"
  by (simp_all add: bits_of_def del: low_bits_simps(2))

lemma length_bits_of [simp]: "length (bits_of b) = 8 * length b"
  by (induction b) simp_all

lemma rev_low_bits: "i < n \<Longrightarrow> rev (low_bits n w) ! i = bit w i"
  by (simp add: low_bits_def rev_map)

lemma bit_word_of: "bit (word_of bs) i \<longleftrightarrow> i < 64 \<and> i < length bs \<and> rev bs ! i"
proof (induction bs arbitrary: i rule: rev_induct)
  case Nil
  then show ?case by (simp add: word_of_def)
next
  case (snoc b bs)
  have "bit (word_of (bs @ [b])) i \<longleftrightarrow> (1 \<le> i \<and> i < 64 \<and> bit (word_of bs) (i - 1)) \<or> (i = 0 \<and> b)"
    by (simp add: word_of_def bit_or_iff bit_push_bit_iff bit_of_bool_iff del: push_bit_Suc push_bit_of_0 One_nat_def)
  then show ?case
    using snoc.IH [of "i - 1"] by (cases i) auto
qed

declare low_bits_simps(2) [simp del]

lemma word_of_low_bits: "n \<le> 64 \<Longrightarrow> word_of (low_bits n (w :: u64)) = take_bit n w"
  by (rule bit_word_eqI) (auto simp: bit_word_of rev_low_bits bit_simps)

lemma word_of_low_bits_64 [simp]: "word_of (low_bits 64 w) = w"
  by (rule bit_word_eqI) (auto simp: bit_word_of rev_low_bits)

lemma low_bits_word_of: "length bs = n \<Longrightarrow> n \<le> 64 \<Longrightarrow> low_bits n (word_of bs) = bs"
  by (rule nth_equalityI) (auto simp: low_bits_def bit_word_of rev_nth)

lemmas word_of_bits = bit_word_of bit_simps nth_append

lemma word_of_split:
  assumes "length (xs @ ys) = 64"
  shows "push_bit (length xs) (word_of (xs @ ys)) = word_of (ys @ replicate (length xs) False)"
    and "drop_bit (length ys) (word_of (xs @ ys)) = word_of xs"
proof -
  have ys: "length ys = 64 - length xs" "length xs \<le> 64" using assms by simp_all
  show "push_bit (length xs) (word_of (xs @ ys)) = word_of (ys @ replicate (length xs) False)"
    using ys by (intro bit_word_eqI) (auto simp: word_of_bits)
  show "drop_bit (length ys) (word_of (xs @ ys)) = word_of xs"
    using ys by (intro bit_word_eqI) (auto simp: word_of_bits)
qed

lemma word_of_fill:
  assumes "length cs = n" "n \<le> 64" "length ds = 64"
  shows "word_of (cs @ replicate (64 - n) False) OR drop_bit n (word_of ds) = word_of (cs @ take (64 - n) ds)"
  using assms by (auto intro!: bit_word_eqI simp: word_of_bits rev_take)

lemma word_of_byte:
  assumes "length cs + 8 \<le> 64"
  shows "word_of (cs @ replicate (64 - length cs) False) OR push_bit (64 - (length cs + 8)) (ucast (d :: byte)) =
    word_of ((cs @ low_bits 8 d) @ replicate (64 - (length cs + 8)) False)"
proof (rule bit_word_eqI)
  fix i :: nat assume i: "i < LENGTH(64)"
  have b: "bit d j \<Longrightarrow> j < 8" for j using bit_imp_le_length [of d j] by simp
  let ?k = "64 - (length cs + 8)"
  have k: "64 - length cs = ?k + 8" using assms by simp
  show "bit (word_of (cs @ replicate (64 - length cs) False) OR push_bit ?k (ucast d)) i =
      bit (word_of ((cs @ low_bits 8 d) @ replicate ?k False)) i"
    using i assms b [of "i - ?k"] unfolding k by (auto simp: word_of_bits rev_low_bits)
qed

section \<open>The bit reader\<close>

text \<open>The bits a reader has not delivered yet: those of its buffer and those of its data.\<close>

definition reader_bits :: "BitReader \<Rightarrow> bool list \<Rightarrow> bool" where
  "reader_bits r bs \<longleftrightarrow>
     (\<exists>cs. length cs = br_n r \<and> br_n r \<le> 64 \<and> br_v r = word_of (cs @ replicate (64 - br_n r) False) \<and>
        bs = cs @ bits_of (br_data r) \<and> (cs = [] \<longrightarrow> br_data r = []))"

lemma readBuf_loop_bits:
  "length cs + 8 * length ds \<le> 64 \<Longrightarrow>
   readBuf_loop ds (word_of (cs @ replicate (64 - length cs) False)) (length cs) =
     (word_of ((cs @ bits_of ds) @ replicate (64 - (length cs + 8 * length ds)) False), length cs + 8 * length ds)"
proof (induction ds arbitrary: cs)
  case (Cons d ds)
  have "length cs + 8 \<le> 64" using Cons.prems by simp
  then show ?case
    using Cons.IH [of "cs @ low_bits 8 d"] Cons.prems word_of_byte [of cs d] by (simp add: add.assoc)
qed simp

lemma word_of_zeros [simp]: "word_of (replicate n False) = 0"
  by (rule bit_word_eqI) (auto simp: bit_word_of)

lemma be_get_bits: "length b \<le> 8 \<Longrightarrow> be_get b = word_of (bits_of b)"
proof (induction b rule: rev_induct)
  case (snoc d b)
  have "bit d j \<Longrightarrow> j < 8" for j using bit_imp_le_length [of d j] by simp
  then have "push_bit 8 (word_of (bits_of b)) OR ucast d = word_of (bits_of b @ low_bits 8 d)"
    using snoc.prems by (intro bit_word_eqI) (auto simp: word_of_bits rev_low_bits)
  then show ?case using snoc by (simp add: be_get_snoc)
qed (simp add: word_of_def)

lemma readBuf_bits:
  assumes "br_n r = 0" "br_v r = 0"
  shows "reader_bits (readBuf r) (bits_of (br_data r))"
proof (cases "8 \<le> length (br_data r)")
  case True
  then have "readBuf r = r\<lparr>br_v := word_of (bits_of (take 8 (br_data r))), br_n := 64, br_data := drop 8 (br_data r)\<rparr>"
    using assms be_get_bits [of "take 8 (br_data r)"] by (simp add: readBuf_def get_u64_def)
  moreover have "bits_of (take 8 (br_data r)) \<noteq> []" using True by (simp flip: length_0_conv)
  ultimately show ?thesis
    using True arg_cong [OF append_take_drop_id [of 8 "br_data r"], of bits_of] unfolding reader_bits_def
    by (intro exI [of _ "bits_of (take 8 (br_data r))"]) (auto simp flip: bits_of_simps(3))
next
  case False
  then have "readBuf r = r\<lparr>br_v := word_of (bits_of (br_data r) @ replicate (64 - 8 * length (br_data r)) False),
      br_n := 8 * length (br_data r), br_data := []\<rparr>"
    using assms readBuf_loop_bits [of "[]" "br_data r"] by (simp add: readBuf_def Let_def)
  then show ?thesis
    using False unfolding reader_bits_def by (intro exI [of _ "bits_of (br_data r)"]) auto
qed

lemma readBuf_full: "br_n r = 0 \<Longrightarrow> br_n (readBuf r) = 64 \<or> br_data (readBuf r) = []"
  by (auto simp: readBuf_def Let_def min_def split: prod.splits)

lemma reader_bits_buffer:
  assumes "length cs = br_n r" "br_n r \<le> 64" "br_v r = word_of (cs @ replicate (64 - br_n r) False)"
  shows "reader_bits (refill r) (cs @ bits_of (br_data r))"
proof (cases "br_n r = 0")
  case True
  then show ?thesis using readBuf_bits [of r] assms by (simp add: refill_def)
next
  case False
  then show ?thesis using assms by (auto simp: reader_bits_def refill_def)
qed

text \<open>\<open>ReadBits\<close> returns the next bits, whether the buffer holds all of them or has to be refilled.\<close>

lemma ReadBits_bits:
  assumes "reader_bits r (xs @ ys)" and n: "0 < length xs" "length xs \<le> 64"
  shows "\<exists>r'. ReadBits (length xs) r = (Inr (word_of xs), r') \<and> reader_bits r' ys"
proof -
  obtain cs where cs: "length cs = br_n r" "br_n r \<le> 64" "br_v r = word_of (cs @ replicate (64 - br_n r) False)"
    "xs @ ys = cs @ bits_of (br_data r)" "cs = [] \<longrightarrow> br_data r = []"
    using assms(1) by (auto simp: reader_bits_def)
  have n0: "br_n r \<noteq> 0" using cs n by (cases cs) auto
  show ?thesis
  proof (cases "length xs \<le> br_n r")
    case True
    then obtain zs where zs: "cs = xs @ zs" "ys = zs @ bits_of (br_data r)"
      using cs(1,4) by (auto simp: append_eq_append_conv2)
    show ?thesis
    proof (cases "length xs = 64")
      case True
      then have "zs = []" using cs(1,2) zs by (cases zs) simp_all
      moreover from this have "br_n r = 64" using cs(1) zs True by simp
      ultimately show ?thesis
        using readBuf_bits [of "r\<lparr>br_v := 0, br_n := 0\<rparr>"] zs cs True by (simp add: ReadBits_def)
    next
      case False
      let ?r = "r\<lparr>br_v := push_bit (length xs) (br_v r), br_n := br_n r - length xs\<rparr>"
      have v: "br_v r = word_of (xs @ (zs @ replicate (64 - br_n r) False))" using cs(3) zs by simp
      have len: "length (xs @ (zs @ replicate (64 - br_n r) False)) = 64" using cs(1,2) zs by simp
      have "replicate (64 - br_n r) False @ replicate (length xs) False = replicate (64 - (br_n r - length xs)) False"
        using True cs(2) by (simp flip: replicate_add)
      then have "reader_bits (refill ?r) ys"
        using reader_bits_buffer [of zs ?r] word_of_split(1) [OF len] v zs cs(1,2) True by simp
      moreover have "drop_bit (64 - length xs) (br_v r) = word_of xs"
        unfolding v using word_of_split(2) [OF len] len by (metis diff_add_inverse length_append)
      ultimately show ?thesis using n0 True False by (simp add: ReadBits_def)
    qed
  next
    case False
    then obtain zs where zs: "xs = cs @ zs" "bits_of (br_data r) = zs @ ys"
      using cs(1,4) by (auto simp: append_eq_append_conv2)
    let ?r1 = "readBuf (r\<lparr>br_v := 0, br_n := 0\<rparr>)"
    obtain ds where ds: "length ds = br_n ?r1" "br_n ?r1 \<le> 64" "br_v ?r1 = word_of (ds @ replicate (64 - br_n ?r1) False)"
      "zs @ ys = ds @ bits_of (br_data ?r1)" "ds = [] \<longrightarrow> br_data ?r1 = []"
      using readBuf_bits [of "r\<lparr>br_v := 0, br_n := 0\<rparr>"] zs(2) by (auto simp: reader_bits_def)
    have "br_n ?r1 = 64 \<or> br_data ?r1 = []" by (simp add: readBuf_full)
    then have "length zs \<le> length ds"
      using ds(1) n(2) zs(1) arg_cong [OF ds(4), of length] by auto
    then obtain us where us: "ds = zs @ us" "ys = us @ bits_of (br_data ?r1)"
      using ds(4) by (auto simp: append_eq_append_conv2)
    let ?z = "replicate (64 - br_n ?r1) False" and ?r2 = "?r1\<lparr>br_v := push_bit (length zs) (br_v ?r1), br_n := br_n ?r1 - length zs\<rparr>"
    have len: "length (zs @ (us @ ?z)) = 64" using ds(1,2) us(1) by simp
    let ?us = "take (64 - length xs) (us @ ?z)"
    have tk: "take (64 - br_n r) (ds @ ?z) = zs @ ?us" using us(1) zs(1) cs(1) n(2) by simp
    have lu: "length ?us = 64 - length xs" using ds(1,2) us(1) zs(1) n(2) by simp
    have ld: "length (ds @ ?z) = 64" using ds(1,2) by simp
    have orv: "br_v r OR drop_bit (br_n r) (br_v ?r1) = word_of (xs @ ?us)"
      using word_of_fill [OF cs(1,2) ld] unfolding cs(3) ds(3) tk using zs(1) by (simp only: append_assoc)
    have "length (xs @ ?us) = 64" unfolding length_append lu using n(2) by simp
    from word_of_split(2) [OF this]
    have "drop_bit (64 - length xs) (br_v r OR drop_bit (br_n r) (br_v ?r1)) = word_of xs" by (simp only: orv lu)
    moreover have "?z @ replicate (length zs) False = replicate (64 - (br_n ?r1 - length zs)) False"
      using us(1) ds(1,2) by (simp flip: replicate_add)
    then have "reader_bits (refill ?r2) ys"
      using reader_bits_buffer [of us ?r2] word_of_split(1) [OF len] ds(1,2,3) us by simp
    moreover have "min (length xs - br_n r) (br_n ?r1) = length zs" using zs(1) cs(1) us(1) ds(1) by simp
    ultimately show ?thesis using n0 False by (simp add: ReadBits_def Let_def)
  qed
qed

lemma next_bit_bits:
  assumes "reader_bits r (b # bs)"
  shows "\<exists>r'. next_bit r = (Inr b, r') \<and> reader_bits r' bs"
proof (cases "CanReadBitFast r")
  case True
  then obtain cs where cs: "Suc (length cs) = br_n r" "br_n r \<le> 64"
    "br_v r = word_of ([b] @ (cs @ replicate (64 - br_n r) False))" "bs = cs @ bits_of (br_data r)"
    using assms by (auto simp: reader_bits_def CanReadBitFast_def Cons_eq_append_conv)
  then have "cs \<noteq> []" using True by (auto simp: CanReadBitFast_def)
  have "length ([b] @ (cs @ replicate (64 - br_n r) False)) = 64" using cs(1,2) by simp
  moreover have "replicate (64 - br_n r) False @ [False] = replicate (64 - (br_n r - 1)) False"
    using cs(1,2) by (simp add: replicate_append_same Suc_diff_le flip: cs(1) replicate_Suc)
  ultimately have "reader_bits (snd (ReadBitFast r)) bs"
    using word_of_split(1) [of "[b]"] cs \<open>cs \<noteq> []\<close> by (auto simp: reader_bits_def ReadBitFast_def)
  moreover have "bit (br_v r) 63 = b"
    using cs(1,2) by (subst cs(3)) (auto simp: bit_word_of nth_append)
  ultimately show ?thesis using True by (simp add: next_bit_def ReadBitFast_def)
next
  case False
  then show ?thesis
    using ReadBits_bits [of r "[b]" bs] assms by (auto simp: next_bit_def ReadBit_def bit_word_of word_of_def)
qed

lemma br_Reset_bits: "reader_bits (br_Reset b r) (bits_of b)"
  using readBuf_bits [of "r\<lparr>br_data := b, br_v := 0, br_n := 0\<rparr>"] by (simp add: br_Reset_def)

section \<open>The code of a value\<close>

text \<open>
  What the encoder writes for a difference \<open>d\<close> when the window of the last value is \<open>L\<close> leading and \<open>T\<close>
  trailing zeros, and the window it leaves.
\<close>

definition lead5 :: "u64 \<Rightarrow> u64" where
  "lead5 d = of_nat (LeadingZeros64 d) AND 31"

definition trail :: "u64 \<Rightarrow> u64" where
  "trail d = of_nat (TrailingZeros64 d)"

definition in_window :: "u64 \<Rightarrow> u64 \<Rightarrow> u64 \<Rightarrow> bool" where
  "in_window L T d \<longleftrightarrow> L \<noteq> -1 \<and> lead5 d \<ge> L \<and> trail d \<ge> T"

definition delta_code :: "u64 \<Rightarrow> u64 \<Rightarrow> u64 \<Rightarrow> bool list" where
  "delta_code L T d =
     (if in_window L T d then False # low_bits (64 - unat L - unat T) (drop_bit (unat T) d)
      else True # low_bits 5 (lead5 d) @ low_bits 6 (64 - lead5 d - trail d) @
             low_bits (64 - unat (lead5 d) - unat (trail d)) (drop_bit (unat (trail d)) d))"

definition window :: "u64 \<Rightarrow> u64 \<Rightarrow> bool" where
  "window L T \<longleftrightarrow> L < 32 \<and> T < 64 \<and> unat L + unat T < 64"

text \<open>All set bits of \<open>d\<close> lie between \<open>l\<close> leading and \<open>t\<close> trailing zeros.\<close>

definition spans :: "nat \<Rightarrow> nat \<Rightarrow> u64 \<Rightarrow> bool" where
  "spans l t d \<longleftrightarrow> (\<forall>i. bit d i \<longrightarrow> t \<le> i \<and> i + l < 64)"

lemma spans_zeros: "spans (LeadingZeros64 d) (TrailingZeros64 d) d"
  unfolding spans_def
proof (intro allI impI conjI)
  fix i assume i: "bit d i"
  then have i64: "i < 64" using bit_imp_le_length [of d i] by simp
  show "TrailingZeros64 d \<le> i"
  proof (rule ccontr)
    assume "\<not> TrailingZeros64 d \<le> i"
    then have "takeWhile (\<lambda>i. \<not> bit d i) [0..<64] ! i \<in> set (takeWhile (\<lambda>i. \<not> bit d i) [0..<64])"
      by (intro nth_mem) (simp add: TrailingZeros64_def)
    then show False
      using \<open>\<not> TrailingZeros64 d \<le> i\<close> i i64 by (auto simp: TrailingZeros64_def takeWhile_nth dest!: set_takeWhileD)
  qed
  show "i + LeadingZeros64 d < 64"
  proof (rule ccontr)
    assume "\<not> i + LeadingZeros64 d < 64"
    then have "63 - i < length (takeWhile Not (low_bits 64 d))" using i64 by (simp add: LeadingZeros64_def)
    then have "\<not> low_bits 64 d ! (63 - i)"
      using nth_mem [of "63 - i" "takeWhile Not (low_bits 64 d)"] by (auto simp: takeWhile_nth dest!: set_takeWhileD)
    then show False using i i64 by (simp add: low_bits_def rev_nth)
  qed
qed

lemma zeros_bounds:
  assumes "d \<noteq> 0"
  shows "LeadingZeros64 d + TrailingZeros64 d < 64"
proof -
  obtain i where "bit d i" using assms bit_eqI [of d 0] by auto
  then show ?thesis using spans_zeros [of d] by (fastforce simp: spans_def)
qed

lemma lead5_le: "unat (lead5 d) \<le> LeadingZeros64 d" "lead5 d < 32"
proof -
  have "lead5 d = take_bit 5 (of_nat (LeadingZeros64 d))"
    unfolding lead5_def take_bit_eq_mask by (simp add: mask_eq_exp_minus_1)
  then have u: "unat (lead5 d) = take_bit 5 (LeadingZeros64 d mod 2 ^ 64)"
    by (simp add: unsigned_take_bit_eq unat_of_nat)
  then have "unat (lead5 d) = LeadingZeros64 d mod 2 ^ 64 mod 32" by (simp add: take_bit_eq_mod)
  then show "unat (lead5 d) \<le> LeadingZeros64 d" by (metis mod_less_eq_dividend order_trans)
  show "lead5 d < 32" using \<open>unat (lead5 d) = LeadingZeros64 d mod 2 ^ 64 mod 32\<close> by (simp add: word_less_nat_alt)
qed

lemma trail_eq: "d \<noteq> 0 \<Longrightarrow> unat (trail d) = TrailingZeros64 d"
  using zeros_bounds [of d] by (simp add: trail_def unat_of_nat)

lemma new_window: "d \<noteq> 0 \<Longrightarrow> window (lead5 d) (trail d)"
  using zeros_bounds [of d] lead5_le [of d] trail_eq [of d] by (simp add: window_def word_less_nat_alt)

lemma spans_mono: "spans l t d \<Longrightarrow> l' \<le> l \<Longrightarrow> t' \<le> t \<Longrightarrow> spans l' t' d"
  by (fastforce simp: spans_def)

lemma new_window_spans: "d \<noteq> 0 \<Longrightarrow> spans (unat (lead5 d)) (unat (trail d)) d"
  using spans_mono [OF spans_zeros lead5_le(1) order_refl, of d] by (simp add: trail_eq)

lemma in_window_spans: "d \<noteq> 0 \<Longrightarrow> in_window L T d \<Longrightarrow> spans (unat L) (unat T) d"
  using spans_mono [OF new_window_spans, of d "unat L" "unat T"] by (simp add: in_window_def word_le_nat_alt)

lemma spans_restore:
  assumes "spans l t d" "l + t < 64"
  shows "push_bit t (word_of (low_bits (64 - l - t) (drop_bit t d))) = d"
proof -
  have "push_bit t (take_bit (64 - l - t) (drop_bit t d)) = d"
    using assms by (intro bit_word_eqI) (fastforce simp: bit_simps spans_def)
  then show ?thesis by (simp add: word_of_low_bits)
qed

section \<open>What the encoder has written\<close>

definition fe_bits :: "('w \<Rightarrow> bool list) \<Rightarrow> 'w FloatEncoder \<Rightarrow> bool list \<Rightarrow> bool" where
  "fe_bits pend s bs \<longleftrightarrow>
     (\<exists>out. fe_buf s = push_bit 4 floatCompressedGorilla # out \<and> bits_of out @ pend (fe_bw s) = bs)"

text \<open>The fields other than the buffer and the bit writer, which is all that writing bits changes.\<close>

definition fe_state :: "'w FloatEncoder \<Rightarrow> u64 \<times> error option \<times> u64 \<times> u64 \<times> bool \<times> bool" where
  "fe_state s = (fe_val s, fe_err s, fe_leading s, fe_trailing s, fe_first s, fe_finished s)"

lemma fe_WriteBit_bits:
  assumes "bit_writer ops pend" "fe_bits pend s bs"
  shows "fe_bits pend (fe_WriteBit ops b s) (bs @ [b]) \<and> fe_state (fe_WriteBit ops b s) = fe_state s"
proof -
  obtain out where "fe_buf s = push_bit 4 floatCompressedGorilla # out" "bits_of out @ pend (fe_bw s) = bs"
    using assms(2) by (auto simp: fe_bits_def)
  moreover have "bits_of (snd (bw_WriteBit ops b (fe_bw s))) @ pend (fst (bw_WriteBit ops b (fe_bw s))) = pend (fe_bw s) @ [b]"
    using assms(1) by (simp add: bit_writer_def)
  ultimately show ?thesis
    by (auto simp: fe_bits_def fe_state_def fe_WriteBit_def split: prod.splits)
qed

lemma fe_WriteBits_bits:
  assumes "bit_writer ops pend" "fe_bits pend s bs" "n \<le> 64"
  shows "fe_bits pend (fe_WriteBits ops u (int n) s) (bs @ low_bits n u) \<and> fe_state (fe_WriteBits ops u (int n) s) = fe_state s"
proof -
  obtain out where "fe_buf s = push_bit 4 floatCompressedGorilla # out" "bits_of out @ pend (fe_bw s) = bs"
    using assms(2) by (auto simp: fe_bits_def)
  moreover have "bits_of (snd (bw_WriteBits ops u (int n) (fe_bw s))) @ pend (fst (bw_WriteBits ops u (int n) (fe_bw s))) =
      pend (fe_bw s) @ low_bits n u"
    using assms(1,3) by (simp add: bit_writer_def)
  ultimately show ?thesis
    by (auto simp: fe_bits_def fe_state_def fe_WriteBits_def split: prod.splits)
qed

lemma sint_small: "(w :: u64) \<le> 64 \<Longrightarrow> sint w = int (unat w)"
  using sint_of_nat_small [of "unat w"] by (simp add: word_le_nat_alt)

definition next_window :: "u64 \<Rightarrow> u64 \<Rightarrow> u64 \<Rightarrow> u64 \<times> u64" where
  "next_window L T d = (if in_window L T d then (L, T) else (lead5 d, trail d))"

lemma sigbits:
  assumes "window l t"
  shows "unat (64 - l - t) = 64 - unat l - unat t" "64 - l - t \<le> 64" "0 < unat (64 - l - t)"
    "64 - sint l - sint t = int (64 - unat l - unat t)"
proof -
  have w: "unat l < 32" "unat t < 64" "unat l + unat t < 64" using assms by (simp_all add: window_def word_less_nat_alt)
  then have "l \<le> 64" "t \<le> 64 - l" by (simp_all add: word_le_nat_alt unat_sub)
  then show u: "unat (64 - l - t) = 64 - unat l - unat t" by (simp add: unat_sub)
  then show "64 - l - t \<le> 64" "0 < unat (64 - l - t)" using w by (simp_all add: word_le_nat_alt)
  show "64 - sint l - sint t = int (64 - unat l - unat t)"
    using w by (simp add: sint_small word_le_nat_alt)
qed

lemma write_delta_bits:
  assumes bw: "bit_writer ops pend" and "fe_bits pend s bs" and "d \<noteq> 0"
    and "fe_leading s \<noteq> -1 \<Longrightarrow> window (fe_leading s) (fe_trailing s)"
  shows "fe_bits pend (write_delta ops d s) (bs @ delta_code (fe_leading s) (fe_trailing s) d) \<and>
    fe_state (write_delta ops d s) =
      (let (L, T) = next_window (fe_leading s) (fe_trailing s) d in (fe_val s, fe_err s, L, T, fe_first s, fe_finished s))"
proof (cases "in_window (fe_leading s) (fe_trailing s) d")
  case True
  then have "window (fe_leading s) (fe_trailing s)" using assms(4) by (simp add: in_window_def)
  note sg = sigbits [OF this]
  have "write_delta ops d s = fe_WriteBits ops (drop_bit (unat (fe_trailing s)) d)
      (int (64 - unat (fe_leading s) - unat (fe_trailing s))) (fe_WriteBit ops False s)"
    using True lead5_le(2) [of d] unfolding write_delta_def sg(4)
    by (auto simp: in_window_def lead5_def trail_def Let_def)
  then show ?thesis
    using True fe_WriteBit_bits [OF bw assms(2), of False]
      fe_WriteBits_bits [OF bw, of "fe_WriteBit ops False s" "bs @ [False]" "64 - unat (fe_leading s) - unat (fe_trailing s)"
        "drop_bit (unat (fe_trailing s)) d"]
    by (simp add: delta_code_def next_window_def fe_state_def)
next
  case False
  let ?l = "lead5 d" and ?t = "trail d"
  let ?s0 = "s\<lparr>fe_leading := ?l, fe_trailing := ?t\<rparr>" and ?n = "64 - unat ?l - unat ?t"
  note w = new_window [OF assms(3)]
  have "sint (64 - ?l - ?t) = int ?n" using sigbits(1,2) [OF w] by (simp add: sint_small)
  moreover have "write_delta ops d s = (let sigbits = 64 - ?l - ?t in fe_WriteBits ops (drop_bit (unat ?t) d) (sint sigbits)
      (fe_WriteBits ops sigbits (int 6) (fe_WriteBits ops ?l (int 5) (fe_WriteBit ops True ?s0))))"
    using False lead5_le(2) [of d] unfolding write_delta_def
    by (auto simp: in_window_def lead5_def trail_def Let_def)
  ultimately have eq: "write_delta ops d s = fe_WriteBits ops (drop_bit (unat ?t) d) (int ?n)
      (fe_WriteBits ops (64 - ?l - ?t) (int 6) (fe_WriteBits ops ?l (int 5) (fe_WriteBit ops True ?s0)))"
    by (simp only: Let_def)
  have "fe_bits pend ?s0 bs" using assms(2) by (simp add: fe_bits_def)
  from fe_WriteBit_bits [OF bw this]
  have 1: "fe_bits pend (fe_WriteBit ops True ?s0) (bs @ [True])" "fe_state (fe_WriteBit ops True ?s0) = fe_state ?s0" by simp_all
  have 2: "fe_bits pend (fe_WriteBits ops ?l (int 5) (fe_WriteBit ops True ?s0)) ((bs @ [True]) @ low_bits 5 ?l)"
    "fe_state (fe_WriteBits ops ?l (int 5) (fe_WriteBit ops True ?s0)) = fe_state ?s0"
    using fe_WriteBits_bits [OF bw 1(1), of 5 ?l] 1(2) by simp_all
  have 3: "fe_bits pend (fe_WriteBits ops (64 - ?l - ?t) (int 6) (fe_WriteBits ops ?l (int 5) (fe_WriteBit ops True ?s0)))
      (((bs @ [True]) @ low_bits 5 ?l) @ low_bits 6 (64 - ?l - ?t))"
    "fe_state (fe_WriteBits ops (64 - ?l - ?t) (int 6) (fe_WriteBits ops ?l (int 5) (fe_WriteBit ops True ?s0))) = fe_state ?s0"
    using fe_WriteBits_bits [OF bw 2(1), of 6 "64 - ?l - ?t"] 2(2) by simp_all
  show ?thesis
    unfolding eq using False fe_WriteBits_bits [OF bw 3(1), of ?n "drop_bit (unat ?t) d"] 3(2)
    by (simp add: delta_code_def next_window_def fe_state_def)
qed

text \<open>The code of a value after \<open>prev\<close>, and the codes of a sequence up to the sentinel.\<close>

definition value_code :: "u64 \<Rightarrow> u64 \<Rightarrow> u64 \<Rightarrow> u64 \<Rightarrow> bool list" where
  "value_code L T prev v = (if v = prev then [False] else True # delta_code L T (v XOR prev))"

definition value_window :: "u64 \<Rightarrow> u64 \<Rightarrow> u64 \<Rightarrow> u64 \<Rightarrow> u64 \<times> u64" where
  "value_window L T prev v = (if v = prev then (L, T) else next_window L T (v XOR prev))"

fun codes :: "u64 \<Rightarrow> u64 \<Rightarrow> u64 \<Rightarrow> u64 list \<Rightarrow> bool list" where
  "codes L T prev [] = []"
| "codes L T prev (v # vs) =
     value_code L T prev v @ (let (L', T') = value_window L T prev v in codes L' T' v vs)"

lemma XOR_eq_0_iff: "(a :: u64) XOR b = 0 \<longleftrightarrow> a = b"
  by (metis xor_self_eq bit.xor_left_self xor.right_neutral)

lemma fe_Write_bits:
  assumes bw: "bit_writer ops pend" and "fe_bits pend s bs" and "\<not> fe_first s" and "IsNaN v \<Longrightarrow> fe_finished s"
    and "fe_leading s \<noteq> -1 \<Longrightarrow> window (fe_leading s) (fe_trailing s)"
  shows "fe_bits pend (fe_Write ops v s) (bs @ value_code (fe_leading s) (fe_trailing s) (fe_val s) v) \<and>
    fe_state (fe_Write ops v s) =
      (let (L, T) = value_window (fe_leading s) (fe_trailing s) (fe_val s) v in (v, fe_err s, L, T, fe_first s, fe_finished s))"
proof (cases "v = fe_val s")
  case True
  then show ?thesis
    using fe_WriteBit_bits [OF bw assms(2), of False] assms(3,4)
    by (auto simp: fe_Write_def value_code_def value_window_def fe_bits_def fe_state_def)
next
  case False
  then have d: "v XOR fe_val s \<noteq> 0" by (simp add: XOR_eq_0_iff)
  let ?s1 = "fe_WriteBit ops True s"
  have 1: "fe_bits pend ?s1 (bs @ [True])" "fe_state ?s1 = fe_state s"
    using fe_WriteBit_bits [OF bw assms(2), of True] by simp_all
  then have eqs: "fe_leading ?s1 = fe_leading s" "fe_trailing ?s1 = fe_trailing s" by (simp_all add: fe_state_def)
  have "fe_Write ops v s = (write_delta ops (v XOR fe_val s) ?s1)\<lparr>fe_val := v\<rparr>"
    using d assms(3,4) by (auto simp: fe_Write_def)
  then show ?thesis
    using write_delta_bits [OF bw 1(1) d] assms(5) eqs 1(2) False
    by (auto simp: value_code_def value_window_def fe_bits_def fe_state_def split: prod.splits)
qed

lemma value_window_window:
  "(L \<noteq> -1 \<Longrightarrow> window L T) \<Longrightarrow> value_window L T prev v = (L', T') \<Longrightarrow> L' \<noteq> -1 \<Longrightarrow> window L' T'"
  using new_window [of "v XOR prev"]
  by (auto simp: value_window_def next_window_def XOR_eq_0_iff split: if_splits)

lemma fold_fe_Write_bits:
  assumes bw: "bit_writer ops pend" and "fe_bits pend s bs" and "\<not> fe_first s" and "list_all (\<lambda>v. IsNaN v \<longrightarrow> fe_finished s) vs"
    and "fe_leading s \<noteq> -1 \<Longrightarrow> window (fe_leading s) (fe_trailing s)"
  shows "fe_bits pend (fold (fe_Write ops) vs s) (bs @ codes (fe_leading s) (fe_trailing s) (fe_val s) vs) \<and>
    \<not> fe_first (fold (fe_Write ops) vs s) \<and>
    (fe_leading (fold (fe_Write ops) vs s) \<noteq> -1 \<longrightarrow> window (fe_leading (fold (fe_Write ops) vs s)) (fe_trailing (fold (fe_Write ops) vs s)))"
  using assms(2-)
proof (induction vs arbitrary: s bs)
  case (Cons v vs)
  obtain L T where lt: "value_window (fe_leading s) (fe_trailing s) (fe_val s) v = (L, T)" by force
  have w: "fe_bits pend (fe_Write ops v s) (bs @ value_code (fe_leading s) (fe_trailing s) (fe_val s) v)"
    "fe_state (fe_Write ops v s) = (v, fe_err s, L, T, fe_first s, fe_finished s)"
    using fe_Write_bits [OF bw Cons.prems(1,2)] Cons.prems(3,4) lt by simp_all
  then have st: "fe_val (fe_Write ops v s) = v" "fe_err (fe_Write ops v s) = fe_err s" "fe_leading (fe_Write ops v s) = L"
    "fe_trailing (fe_Write ops v s) = T" "fe_first (fe_Write ops v s) = fe_first s" "fe_finished (fe_Write ops v s) = fe_finished s"
    by (simp_all add: fe_state_def)
  show ?case
    using Cons.IH [OF w(1)] Cons.prems(2,3) lt st value_window_window [OF Cons.prems(4) lt] by simp
qed simp

section \<open>What the decoder reads\<close>

text \<open>A decoder between two values: the last value, the window, and the bits to come.\<close>

definition fd_at :: "FloatDecoder \<Rightarrow> u64 \<Rightarrow> u64 \<Rightarrow> u64 \<Rightarrow> bool list \<Rightarrow> bool" where
  "fd_at it L T v bs \<longleftrightarrow>
     fd_val it = v \<and> (L \<noteq> -1 \<longrightarrow> fd_leading it = L \<and> fd_trailing it = T) \<and> reader_bits (fd_br it) bs \<and>
     \<not> fd_first it \<and> \<not> fd_finished it \<and> fd_err it = None"

lemma read_xor_bits:
  assumes w: "window (fd_leading it) (fd_trailing it)" and sp: "spans (unat (fd_leading it)) (unat (fd_trailing it)) d"
    and r: "reader_bits (fd_br it) (low_bits (64 - unat (fd_leading it) - unat (fd_trailing it)) (drop_bit (unat (fd_trailing it)) d) @ bs)"
    and v: "fd_val it XOR d = v"
  obtains r' where "reader_bits r' bs"
    "read_xor it = (v \<noteq> uvnan, if v = uvnan then it\<lparr>fd_br := r', fd_finished := True\<rparr> else it\<lparr>fd_br := r', fd_val := v\<rparr>)"
proof -
  let ?n = "64 - unat (fd_leading it) - unat (fd_trailing it)" and ?x = "low_bits (64 - unat (fd_leading it) - unat (fd_trailing it)) (drop_bit (unat (fd_trailing it)) d)"
  note sg = sigbits [OF w]
  obtain r' where r': "ReadBits ?n (fd_br it) = (Inr (word_of ?x), r')" "reader_bits r' bs"
    using ReadBits_bits [OF r] sg(1,3) by auto
  have "push_bit (unat (fd_trailing it)) (word_of ?x) = d"
    using spans_restore [OF sp] w by (simp add: window_def)
  moreover have "fd_trailing it < 64" using w by (simp add: window_def)
  ultimately have "read_xor it = (v \<noteq> uvnan, if v = uvnan then it\<lparr>fd_br := r', fd_finished := True\<rparr> else it\<lparr>fd_br := r', fd_val := v\<rparr>)"
    using r' v unfolding read_xor_def sg(1) by (auto simp: fd_read_def Let_def)
  then show thesis using that r'(2) by blast
qed

lemma low_bits_take: "word_of (low_bits n w) = w" if "n \<le> 64" "take_bit n w = w" for w :: u64
  using that by (simp add: word_of_low_bits)

text \<open>Six bits hold the number of significant bits, with 0 standing for 64.\<close>

lemma mbits_restore:
  assumes "window l t"
  shows "64 - l - (let m = word_of (low_bits 6 (64 - l - t)) in if m = 0 then 64 else m) = t"
proof -
  have w: "word_of (low_bits 6 (64 - l - t)) = take_bit 6 (64 - l - t)" by (simp add: word_of_low_bits)
  note sg = sigbits [OF assms]
  have "(let m = word_of (low_bits 6 (64 - l - t)) in if m = 0 then 64 else m) = 64 - l - t"
  proof (cases "64 - l - t = 64")
    case True
    then show ?thesis unfolding True by (simp add: word_of_low_bits)
  next
    case False
    with sg(2) have "64 - l - t < 64" by (rule order.not_eq_order_implies_strict [rotated])
    then have "take_bit 6 (64 - l - t) = 64 - l - t" by (intro take_bit_word_id) simp_all
    then show ?thesis using sg(3) w by auto
  qed
  then show ?thesis by simp
qed

lemma fd_Next_bits:
  assumes at: "fd_at it L T prev (value_code L T prev v @ bs)" and w: "L \<noteq> -1 \<Longrightarrow> window L T" and nan: "prev \<noteq> uvnan"
  shows "\<exists>it'. fd_Next it = (v \<noteq> uvnan, it') \<and> fd_err it' = None \<and>
    (v \<noteq> uvnan \<longrightarrow> (case value_window L T prev v of (L', T') \<Rightarrow> fd_at it' L' T' v bs))"
proof (cases "v = prev")
  case True
  then have "reader_bits (fd_br it) (False # bs)" using at by (simp add: fd_at_def value_code_def)
  from next_bit_bits [OF this] show ?thesis
    using at True nan by (auto simp: fd_Next_def fd_read_def fd_at_def value_window_def)
next
  case False
  then have d: "v XOR prev \<noteq> 0" by (simp add: XOR_eq_0_iff)
  define d where "d = v XOR prev"
  have x: "prev XOR d = v" by (simp add: d_def xor.commute xor.left_commute)
  have d0: "d \<noteq> 0" using d by (simp add: d_def)
  have "reader_bits (fd_br it) (True # delta_code L T d @ bs)" using at False by (simp add: fd_at_def value_code_def d_def)
  from next_bit_bits [OF this] obtain r1 where r1: "next_bit (fd_br it) = (Inr True, r1)" "reader_bits r1 (delta_code L T d @ bs)"
    by blast
  show ?thesis
  proof (cases "in_window L T d")
    case True
    have "reader_bits r1 (False # low_bits (64 - unat L - unat T) (drop_bit (unat T) d) @ bs)"
      using r1(2) True by (simp add: delta_code_def)
    from next_bit_bits [OF this] obtain r2 where r2: "next_bit r1 = (Inr False, r2)"
      "reader_bits r2 (low_bits (64 - unat L - unat T) (drop_bit (unat T) d) @ bs)" by blast
    have L: "L \<noteq> -1" "fd_leading it = L" "fd_trailing it = T" "window L T" using True at w by (simp_all add: in_window_def fd_at_def)
    let ?it = "it\<lparr>fd_br := r2\<rparr>"
    have i: "window (fd_leading ?it) (fd_trailing ?it)" "spans (unat (fd_leading ?it)) (unat (fd_trailing ?it)) d"
      "reader_bits (fd_br ?it) (low_bits (64 - unat (fd_leading ?it) - unat (fd_trailing ?it)) (drop_bit (unat (fd_trailing ?it)) d) @ bs)"
      "fd_val ?it XOR d = v"
      using L r2(2) in_window_spans [OF d0 True] x at by (simp_all add: fd_at_def)
    obtain r' where "reader_bits r' bs" "read_xor ?it =
        (v \<noteq> uvnan, if v = uvnan then ?it\<lparr>fd_br := r', fd_finished := True\<rparr> else ?it\<lparr>fd_br := r', fd_val := v\<rparr>)"
      using read_xor_bits [OF i] by blast
    then show ?thesis
      using at r1(1) r2(1) True False by (auto simp: fd_Next_def fd_read_def fd_at_def value_window_def next_window_def d_def)
  next
    case out: False
    let ?l = "lead5 d" and ?t = "trail d"
    let ?x = "low_bits (64 - unat ?l - unat ?t) (drop_bit (unat ?t) d)" and ?m = "low_bits 6 (64 - ?l - ?t)"
    note nw = new_window [OF d0]
    have "reader_bits r1 (True # low_bits 5 ?l @ ?m @ ?x @ bs)"
      using r1(2) out by (simp add: delta_code_def)
    from next_bit_bits [OF this] obtain r2 where r2: "next_bit r1 = (Inr True, r2)"
      "reader_bits r2 (low_bits 5 ?l @ ?m @ ?x @ bs)" by blast
    obtain r3 where r3: "ReadBits 5 r2 = (Inr (word_of (low_bits 5 ?l)), r3)" "reader_bits r3 (?m @ ?x @ bs)"
      using ReadBits_bits [OF r2(2)] by auto
    obtain r4 where r4: "ReadBits 6 r3 = (Inr (word_of ?m), r4)" "reader_bits r4 (?x @ bs)"
      using ReadBits_bits [OF r3(2)] by auto
    have l: "word_of (low_bits 5 ?l) = ?l"
      using lead5_le(2) [of d] by (intro low_bits_take) (simp_all add: take_bit_word_id)
    have m: "64 - ?l - (if word_of ?m = 0 then 64 else word_of ?m) = ?t"
      using mbits_restore [OF nw] by (simp only: Let_def)
    have "?l \<noteq> -1" using lead5_le(2) [of d] by auto
    let ?it = "it\<lparr>fd_leading := ?l, fd_br := r4, fd_trailing := ?t\<rparr>"
    have i: "window (fd_leading ?it) (fd_trailing ?it)" "spans (unat (fd_leading ?it)) (unat (fd_trailing ?it)) d"
      "reader_bits (fd_br ?it) (low_bits (64 - unat (fd_leading ?it) - unat (fd_trailing ?it)) (drop_bit (unat (fd_trailing ?it)) d) @ bs)"
      "fd_val ?it XOR d = v"
      using nw r4(2) new_window_spans [OF d0] x at by (simp_all add: fd_at_def)
    obtain r' where r': "reader_bits r' bs" "read_xor ?it =
        (v \<noteq> uvnan, if v = uvnan then ?it\<lparr>fd_br := r', fd_finished := True\<rparr> else ?it\<lparr>fd_br := r', fd_val := v\<rparr>)"
      using read_xor_bits [OF i] by blast
    have "fd_Next it = read_xor ?it"
      using at r1(1) r2(1) r3(1) r4(1) l m by (simp add: fd_Next_def fd_read_def fd_at_def Let_def)
    then show ?thesis
      using at r' out False \<open>?l \<noteq> -1\<close> by (auto simp: fd_at_def value_window_def next_window_def d_def)
  qed
qed

lemma fd_reads_codes:
  "fd_at it L T prev (codes L T prev vs @ bs) \<Longrightarrow> (L \<noteq> -1 \<Longrightarrow> window L T) \<Longrightarrow> prev \<noteq> uvnan \<Longrightarrow> uvnan \<notin> set vs \<Longrightarrow>
   reads fd_Next fd_Values fd_err it vs"
proof (induction vs arbitrary: it L T prev)
  case (Cons v vs)
  obtain L' T' where lt: "value_window L T prev v = (L', T')" by force
  have "fd_at it L T prev (value_code L T prev v @ codes L' T' v vs @ bs)" using Cons.prems(1) lt by simp
  from fd_Next_bits [OF this Cons.prems(2,3)] obtain it' where it': "fd_Next it = (True, it')" "fd_at it' L' T' v (codes L' T' v vs @ bs)"
    using Cons.prems(4) lt by auto
  have "reads fd_Next fd_Values fd_err it' vs"
    using Cons.IH [OF it'(2)] value_window_window [OF Cons.prems(2) lt] Cons.prems(4) by auto
  moreover have "fd_Values it' = (Inr v, it')" using it'(2) by (simp add: fd_at_def fd_Values_def)
  ultimately show ?case using it'(1) Cons.prems(1) by (simp add: fd_at_def)
qed (simp add: fd_at_def)

section \<open>Blocks\<close>

definition float_sel :: "Value \<Rightarrow> (u64 \<times> u64) option" where
  "float_sel v = (case v of FloatValue t x \<Rightarrow> Some (t, x) | _ \<Rightarrow> None)"

definition EncodeFloatBlockUsing :: "'w BitWriter \<Rightarrow> Value list \<Rightarrow> time_encoder \<Rightarrow> 'w FloatEncoder \<Rightarrow> bytes result" where
  "EncodeFloatBlockUsing ops =
     encode_block_using BlockFloat64 float_sel (fe_Reset ops) (fe_Write ops) (\<lambda>e. fe_Bytes (fe_Flush ops e))"

definition EncodeFloatBlock :: "'w BitWriter \<Rightarrow> Value list \<Rightarrow> time_encoder \<Rightarrow> 'w FloatEncoder \<Rightarrow> bytes result" where
  "EncodeFloatBlock ops values tenc venc =
     (if values = [] then Inr [] else EncodeFloatBlockUsing ops values (te_Reset tenc) (fe_Reset ops venc))"

definition DecodeFloatBlock :: "TimeDecoder \<Rightarrow> FloatDecoder \<Rightarrow> bytes \<Rightarrow> Value list result" where
  "DecodeFloatBlock tdec vdec block =
     bind_result (decode_block_using BlockFloat64 fd_SetBytes fd_Next fd_Values fd_err tdec vdec block)
       (\<lambda>ps. Inr (map (\<lambda>(t, x). FloatValue t x) ps))"

lemma uvnan_NaN: "IsNaN uvnan"
  by (simp add: IsNaN_def uvnan_def take_bit_eq_mask mask_eq_exp_minus_1)

lemma fe_Write_err:
  "fe_err (fe_Write ops v s) = (if IsNaN v \<and> \<not> fe_finished s then Some ErrUnsupportedNaN else fe_err s)"
  "fe_finished (fe_Write ops v s) = fe_finished s"
  by (simp_all add: fe_Write_def write_delta_def fe_WriteBit_def fe_WriteBits_def Let_def split: prod.splits)

lemma fold_fe_Write_err:
  "\<not> fe_finished s \<Longrightarrow> fe_err (fold (fe_Write ops) vs s) = (if list_ex IsNaN vs then Some ErrUnsupportedNaN else fe_err s)"
  "fe_finished (fold (fe_Write ops) vs s) = fe_finished s"
  by (induction vs arbitrary: s) (auto simp: fe_Write_err)

lemma fe_Flush_err: "fe_err (fe_Flush ops s) = fe_err s"
  by (simp add: fe_Flush_def Let_def fe_Write_err split: prod.splits)

text \<open>The bytes of a flushed encoder: the type byte, the first value, the codes, and padding.\<close>

lemma fe_Flush_bytes:
  assumes bw: "bit_writer ops pend" and ok: "\<not> list_ex IsNaN (x # xs)"
  shows "\<exists>out pad. fe_Bytes (fe_Flush ops (fold (fe_Write ops) (x # xs) (fe_Reset ops e))) =
      Inr (push_bit 4 floatCompressedGorilla # out) \<and> bits_of out = low_bits 64 x @ codes (-1) 0 x xs @ pad"
proof -
  let ?s0 = "fe_Reset ops e" let ?s1 = "fe_Write ops x ?s0" let ?s2 = "fold (fe_Write ops) xs ?s1"
  let ?s3 = "fe_Write ops uvnan (?s2\<lparr>fe_finished := True\<rparr>)"
  have "fe_bits pend (?s0\<lparr>fe_val := x, fe_first := False\<rparr>) []"
    using bw by (simp add: fe_bits_def fe_Reset_def bit_writer_def)
  from fe_WriteBits_bits [OF bw this, of 64 x]
  have 1: "fe_bits pend ?s1 (low_bits 64 x)" "fe_state ?s1 = (x, None, -1, 0, False, False)"
    using ok by (simp_all add: fe_Write_def fe_Reset_def fe_state_def)
  have 2: "fe_bits pend ?s2 (low_bits 64 x @ codes (-1) 0 x xs)" "\<not> fe_first ?s2"
    "fe_leading ?s2 \<noteq> -1 \<longrightarrow> window (fe_leading ?s2) (fe_trailing ?s2)"
    using fold_fe_Write_bits [OF bw 1(1), of xs] 1(2) ok by (auto simp: fe_state_def list_all_iff list_ex_iff)
  have err: "fe_err ?s2 = None" "\<not> fe_finished ?s2"
    using fold_fe_Write_err [where s = ?s1 and ops = ops and vs = xs] 1(2) ok by (auto simp: fe_state_def)
  obtain c where 3: "fe_bits pend ?s3 ((low_bits 64 x @ codes (-1) 0 x xs) @ c)"
    using fe_Write_bits [OF bw, of "?s2\<lparr>fe_finished := True\<rparr>" "low_bits 64 x @ codes (-1) 0 x xs" uvnan] 2
    by (auto simp: fe_bits_def)
  then obtain out where out: "fe_buf ?s3 = push_bit 4 floatCompressedGorilla # out"
    "bits_of out @ pend (fe_bw ?s3) = (low_bits 64 x @ codes (-1) 0 x xs) @ c"
    by (auto simp: fe_bits_def)
  let ?f = "bw_Flush ops False (fe_bw ?s3)"
  have "bits_of (out @ snd ?f) = low_bits 64 x @ codes (-1) 0 x xs @ c @ replicate ((8 - length (pend (fe_bw ?s3))) mod 8) False"
    using bw out(2) by (simp add: bit_writer_def)
  moreover have "fe_Bytes (fe_Flush ops ?s2) = Inr (push_bit 4 floatCompressedGorilla # out @ snd ?f)"
    using err out(1) fe_Flush_err [of ops ?s2] by (simp add: fe_Bytes_def fe_Flush_def Let_def prod.case_eq_if)
  ultimately show ?thesis by auto
qed

text \<open>The law of a value codec holds for sequences without a NaN, on a bit writer that does what it documents.\<close>

interpretation float_codec: value_codec "fe_Reset ops" "fe_Write ops" "\<lambda>e. fe_Bytes (fe_Flush ops e)"
  fd_SetBytes fd_Next fd_Values fd_err "\<lambda>e. True" "\<lambda>d. True" "\<lambda>xs. \<not> list_ex IsNaN xs \<and> (\<exists>pend. bit_writer ops pend)"
  for ops
proof unfold_locales
  fix e and s :: FloatDecoder and xs
  assume ok: "\<not> list_ex IsNaN xs \<and> (\<exists>pend. bit_writer ops pend)" and "xs \<noteq> []"
  then obtain y ys pend where xs: "xs = y # ys" "bit_writer ops pend" "\<not> list_ex IsNaN (y # ys)" by (cases xs) auto
  obtain out pad where out: "fe_Bytes (fe_Flush ops (fold (fe_Write ops) (y # ys) (fe_Reset ops e))) =
      Inr (push_bit 4 floatCompressedGorilla # out)" "bits_of out = low_bits 64 y @ codes (-1) 0 y ys @ pad"
    using fe_Flush_bytes [OF xs(2,3)] by blast
  have "reader_bits (br_Reset out (fd_br s)) (low_bits 64 y @ codes (-1) 0 y ys @ pad)" using br_Reset_bits out(2) by metis
  from ReadBits_bits [OF this] obtain r where r: "ReadBits 64 (br_Reset out (fd_br s)) = (Inr y, r)"
    "reader_bits r (codes (-1) 0 y ys @ pad)" by auto
  let ?b = "push_bit 4 floatCompressedGorilla # out" let ?s = "fd_start y ?b (s\<lparr>fd_br := r\<rparr>)"
  have nan: "y \<noteq> uvnan" "uvnan \<notin> set ys" using xs(3) uvnan_NaN by (auto simp: list_ex_iff)
  have "fd_at (?s\<lparr>fd_first := False\<rparr>) (-1) 0 y (codes (-1) 0 y ys @ pad)" using r(2) by (simp add: fd_at_def fd_start_def)
  then have "reads fd_Next fd_Values fd_err (?s\<lparr>fd_first := False\<rparr>) ys" using fd_reads_codes nan by blast
  moreover have "fd_Next ?s = (True, ?s\<lparr>fd_first := False\<rparr>)" using nan by (simp add: fd_Next_def fd_start_def)
  moreover have "fd_Values (?s\<lparr>fd_first := False\<rparr>) = (Inr y, ?s\<lparr>fd_first := False\<rparr>)" "fd_err ?s = None"
    by (simp_all add: fd_Values_def fd_start_def)
  ultimately have "reads fd_Next fd_Values fd_err ?s (y # ys)" by simp
  moreover have "fd_SetBytes ?b s = Inr ?s" using r(1) by (simp add: fd_SetBytes_def)
  ultimately show "\<exists>b s'. fe_Bytes (fe_Flush ops (fold (fe_Write ops) xs (fe_Reset ops e))) = Inr b \<and>
      fd_SetBytes b s = Inr s' \<and> reads fd_Next fd_Values fd_err s' xs"
    using out(1) xs(1) by blast
qed

section \<open>Properties\<close>

lemma float_sel_all:
  "list_all (\<lambda>v. valueType v = valueTypeFloat64) vs \<Longrightarrow>
   list_all2 (\<lambda>v p. float_sel v = Some p) vs (map (\<lambda>v. (unixNano v, float_bits v)) vs) \<and>
   map (\<lambda>(t, x). FloatValue t x) (map (\<lambda>v. (unixNano v, float_bits v)) vs) = vs"
proof (induction vs)
  case (Cons v vs)
  then show ?case by (cases v) (simp_all add: float_sel_def value_types)
qed simp

lemma te_Reset_enc_inv: "enc_inv (te_enc e) \<Longrightarrow> enc_inv (te_enc (te_Reset e))"
  using enc_rep_Reset by (simp add: te_Reset_def enc_rep_def)

lemma te_Bytes_succeeds:
  "enc_inv (te_enc e) \<Longrightarrow> length ts < 2 ^ 58 \<Longrightarrow> \<exists>b. fst (te_Bytes (fold te_Write ts (te_Reset e))) = Inr b"
  using te_Bytes_format [of "fold te_Write ts (te_Reset e)" ts] enc_rep_Reset [of "te_enc e"]
  by (fastforce simp: te_ts_fold_Write te_Reset_def)

text \<open>
  A block of float values without a NaN decodes to bit for bit the same values and timestamps,
  with pooled encoders and decoders in any state; a block with a NaN, whatever its payload and
  wherever it stands, is refused with the error for NaNs. The bit writer is any that does what it documents.
\<close>

theorem float_block_roundtrip:
  assumes bw: "bit_writer ops pend" and fl: "list_all (\<lambda>v. valueType v = valueTypeFloat64) vs" and "vs \<noteq> []"
    and len: "length vs < 2 ^ 58" and te: "enc_inv (te_enc tenc)" and td: "length (d_buf (td_dec tdec)) = 240"
  shows "if list_ex (\<lambda>v. IsNaN (float_bits v)) vs then EncodeFloatBlock ops vs tenc venc = Inl ErrUnsupportedNaN
    else \<exists>block. EncodeFloatBlock ops vs tenc venc = Inr block \<and> DecodeFloatBlock tdec vdec block = Inr vs"
proof -
  let ?ps = "map (\<lambda>v. (unixNano v, float_bits v)) vs" let ?e = "fe_Reset ops venc" and ?t = "te_Reset tenc"
  have ps: "list_all2 (\<lambda>v p. float_sel v = Some p) vs ?ps" "map (\<lambda>(t, x). FloatValue t x) ?ps = vs"
    using float_sel_all [OF fl] by auto
  note te' = te_Reset_enc_inv [OF te]
  show ?thesis
  proof (cases "list_ex (\<lambda>v. IsNaN (float_bits v)) vs")
    case True
    then have "list_ex IsNaN (map snd ?ps)" by (simp add: list_ex_iff)
    then have "fe_err (fold (fe_Write ops) (map snd ?ps) (fe_Reset ops ?e)) = Some ErrUnsupportedNaN"
      by (subst fold_fe_Write_err) (auto simp: fe_Reset_def)
    then have "fe_Bytes (fe_Flush ops (fold (fe_Write ops) (map snd ?ps) (fe_Reset ops ?e))) = Inl ErrUnsupportedNaN"
      by (simp add: fe_Bytes_def fe_Flush_err)
    moreover obtain tb where "fst (te_Bytes (fold te_Write (map fst ?ps) (te_Reset ?t))) = Inr tb"
      using te_Bytes_succeeds [OF te', of "map fst ?ps"] len by auto
    ultimately have "EncodeFloatBlockUsing ops vs ?t ?e = Inl ErrUnsupportedNaN"
      by (simp add: EncodeFloatBlockUsing_def encode_block_using_def write_values_fold [OF ps(1)] del: map_map)
    then show ?thesis using True \<open>vs \<noteq> []\<close> by (simp add: EncodeFloatBlock_def)
  next
    case False
    then have ok: "\<not> list_ex IsNaN (map snd ?ps) \<and> (\<exists>pend. bit_writer ops pend)" using bw by (auto simp: list_ex_iff)
    obtain block where "EncodeFloatBlockUsing ops vs ?t ?e = Inr block"
      "decode_block_using BlockFloat64 fd_SetBytes fd_Next fd_Values fd_err tdec vdec block = Inr ?ps"
      unfolding EncodeFloatBlockUsing_def
      using float_codec.block_roundtrip [OF ps(1) \<open>vs \<noteq> []\<close> len te' TrueI td TrueI ok, of BlockFloat64 ?e vdec] by blast
    then show ?thesis
      using False ps(2) \<open>vs \<noteq> []\<close> by (auto simp: EncodeFloatBlock_def DecodeFloatBlock_def)
  qed
qed

text \<open>A bit writer that keeps the pending bits as a list.\<close>

fun emit :: "bool list \<Rightarrow> bool list \<times> bytes" where
  "emit (a # b # c # d # e # f # g # h # bs) =
     (let (w, out) = emit bs in (w, ucast (word_of [a, b, c, d, e, f, g, h]) # out))"
| "emit bs = (bs, [])"

definition list_writer :: "bool list BitWriter" where
  "list_writer =
     \<lparr>bw_new = [], bw_WriteBit = (\<lambda>b w. emit (take 7 w @ [b])),
      bw_WriteBits = (\<lambda>u n w. emit (take 7 w @ low_bits (nat n) u)),
      bw_Flush = (\<lambda>b w. emit (take 7 w @ replicate ((8 - length (take 7 w)) mod 8) b)),
      bw_Resume = (\<lambda>b n w. [])\<rparr>"

lemma emit_bits: "bits_of (snd (emit bs)) @ fst (emit bs) = bs \<and> length (fst (emit bs)) = length bs mod 8"
proof (induction bs rule: emit.induct)
  case (1 a b c d e f g h bs)
  have "low_bits 8 (ucast (word_of [a, b, c, d, e, f, g, h]) :: byte) = low_bits 8 (word_of [a, b, c, d, e, f, g, h])"
    by (auto simp: low_bits_def bit_simps)
  also have "\<dots> = [a, b, c, d, e, f, g, h]" by (simp add: low_bits_word_of)
  finally show ?case using 1 by (simp add: prod.case_eq_if)
qed simp_all

lemma list_writer_ok: "bit_writer list_writer (take 7)"
proof -
  have tk: "take 7 (fst (emit bs)) = fst (emit bs)" for bs using emit_bits [of bs] by simp
  have fl: "fst (emit (take 7 w @ replicate ((8 - length (take 7 w)) mod 8) b)) = []" for w b
  proof -
    have "(n + (8 - n) mod 8) mod 8 = 0" if "n \<le> 7" for n :: nat
      using that by (simp add: mod_add_right_eq)
    from this [of "length (take 7 w)"]
    have "length (take 7 w @ replicate ((8 - length (take 7 w)) mod 8) b) mod 8 = 0" by simp
    then show ?thesis using emit_bits [of "take 7 w @ replicate ((8 - length (take 7 w)) mod 8) b"]
      by (metis length_0_conv)
  qed
  have eq: "bits_of (snd (emit bs)) @ take 7 (fst (emit bs)) = bs" for bs using emit_bits [of bs] by (simp only: tk)
  have flush: "bits_of (snd (emit bs)) = bs" if "fst (emit bs) = []" for bs
    using emit_bits [of bs] that by simp
  show ?thesis
    unfolding bit_writer_def
  proof (intro conjI allI impI)
    fix b and w :: "bool list"
    show "bits_of (snd (bw_Flush list_writer b w)) = take 7 w @ replicate ((8 - length (take 7 w)) mod 8) b"
      using flush [OF fl] by (simp only: list_writer_def BitWriter.simps)
  qed (simp_all add: list_writer_def eq)
qed

definition fresh_float_decoder :: FloatDecoder where
  "fresh_float_decoder = \<lparr>fd_val = 0, fd_leading = 0, fd_trailing = 0, fd_br = \<lparr>br_data = [], br_v = 0, br_n = 0\<rparr>,
     fd_b = [], fd_first = False, fd_finished = False, fd_err = None\<rparr>"

theorem float_block_roundtrip_witness:
  "\<exists>block. EncodeFloatBlock list_writer [FloatValue 10 0x3FF0000000000000, FloatValue 20 0x4000000000000000]
       NewTimeEncoder (NewFloatEncoder list_writer) = Inr block \<and>
     DecodeFloatBlock fresh_decoder fresh_float_decoder block =
       Inr [FloatValue 10 0x3FF0000000000000, FloatValue 20 0x4000000000000000]"
proof -
  have "\<not> IsNaN 0x3FF0000000000000" "\<not> IsNaN 0x4000000000000000" by code_simp+
  then show ?thesis
    using float_block_roundtrip [OF list_writer_ok _ _ _ NewTimeEncoder_inv fresh_decoder_ok,
        of "[FloatValue 10 0x3FF0000000000000, FloatValue 20 0x4000000000000000]" "NewFloatEncoder list_writer" fresh_float_decoder]
    by simp
qed

end
