(* ===== verification/Codecs.thy ===== *)
theory Codecs
  imports IntCodec BoolCodec StringCodec FloatCodec
begin

text \<open>
  The codecs taken together: \<open>EncodeValues\<close> (\<open>storage/codec/values.go\<close>) chooses the codec by the type of the
  first value, \<open>DecodeBlock\<close> and \<open>BlockCount\<close> (\<open>storage/codec/utils.go\<close>) by the first byte of the block.
\<close>

text \<open>The encoders and decoders that the pools hand out (\<open>storage/codec/pool.go\<close>), in whatever state they are.\<close>

record 'w pools =
  p_tenc :: time_encoder
  p_fenc :: "'w FloatEncoder"
  p_ienc :: IntegerEncoder
  p_benc :: BooleanEncoder
  p_senc :: "StringEncoder option"
  p_tdec :: TimeDecoder
  p_fdec :: FloatDecoder
  p_idec :: IntegerDecoder
  p_bdec :: BooleanDecoder
  p_sdec :: StringDecoder

definition EncodeValues :: "'w BitWriter \<Rightarrow> (bytes \<Rightarrow> bytes) \<Rightarrow> 'w pools \<Rightarrow> Value list \<Rightarrow> bytes result" where
  "EncodeValues ops senc p a =
     (case a of
        [] \<Rightarrow> Inl Panic
      | v # _ \<Rightarrow>
          (case v of
             FloatValue _ _ \<Rightarrow> EncodeFloatBlock ops a (p_tenc p) (p_fenc p)
           | IntegerValue _ _ \<Rightarrow> EncodeIntegerBlock a (p_tenc p) (p_ienc p)
           | UnsignedValue _ _ \<Rightarrow> EncodeUnsignedBlock a (p_tenc p) (p_ienc p)
           | BooleanValue _ _ \<Rightarrow> EncodeBooleanBlock a (p_tenc p) (p_benc p)
           | StringValue _ _ \<Rightarrow> EncodeStringBlock senc a (p_tenc p) (p_senc p)
           | PtrValue _ _ _ _ \<Rightarrow> Inl ErrUnsupportedValue))"

text \<open>The decoded values are copied to the front of \<open>vals\<close>, or to a new slice if \<open>vals\<close> is too short.\<close>

definition into :: "Value list \<Rightarrow> Value list \<Rightarrow> Value list" where
  "into vals decoded =
     take (length decoded) (if length vals < length decoded then decoded else decoded @ drop (length decoded) vals)"

definition DecodeBlock :: "(bytes \<Rightarrow> bytes option) \<Rightarrow> 'w pools \<Rightarrow> bytes \<Rightarrow> Value list \<Rightarrow> Value list result" where
  "DecodeBlock sdec p block vals =
     (if length block \<le> encodedBlockHeaderSize then Inl ErrShortBlock
      else bind_result (BlockType block) (\<lambda>blockType.
        bind_result
          (if blockType = BlockFloat64 then DecodeFloatBlock (p_tdec p) (p_fdec p) block
           else if blockType = BlockInteger then DecodeIntegerBlock (p_tdec p) (p_idec p) block
           else if blockType = BlockUnsigned then DecodeUnsignedBlock (p_tdec p) (p_idec p) block
           else if blockType = BlockBoolean then DecodeBooleanBlock (p_tdec p) (p_bdec p) block
           else if blockType = BlockString then DecodeStringBlock sdec (p_tdec p) (p_sdec p) block
           else Inl ErrUnknownBlockType)
          (\<lambda>decoded. Inr (into vals decoded))))"

definition BlockCount :: "bytes \<Rightarrow> int result" where
  "BlockCount block =
     (if length block \<le> encodedBlockHeaderSize then Inl ErrShortBlock
      else bind_result (unpackBlock (drop 1 block)) (\<lambda>(tb, _). CountTimestamps tb))"

section \<open>A block and its header\<close>

lemma into_eq [simp]: "into vals decoded = decoded"
  by (simp add: into_def)

definition pools_ok :: "'w pools \<Rightarrow> bool" where
  "pools_ok p \<longleftrightarrow>
     enc_inv (te_enc (p_tenc p)) \<and> length (d_buf (td_dec (p_tdec p))) = 240 \<and> length (id_values (p_idec p)) = 240 \<and>
     bd_err (p_bdec p) = None \<and> (\<forall>e. p_senc p = Some e \<longrightarrow> se_bytes e \<noteq> [])"

lemma write_values_times:
  "write_values sel vwrite vs te ve = Inr (te', ve') \<Longrightarrow> \<exists>ts. te' = fold te_Write ts te \<and> length ts = length vs"
proof (induction vs arbitrary: te ve)
  case (Cons v vs)
  then obtain t x where "write_values sel vwrite vs (te_Write t te) (vwrite x ve) = Inr (te', ve')"
    by (auto split: option.splits)
  with Cons.IH obtain ts where "te' = fold te_Write ts (te_Write t te)" "length ts = length vs" by blast
  then show ?case by (intro exI [of _ "t # ts"]) simp
qed simp

text \<open>What is encoded with the shared loop has the type byte in front and the number of values in its timestamps.\<close>

lemma encode_block_using_header:
  assumes enc: "encode_block_using bt sel vreset vwrite vbytes vs tenc venc = Inr block"
    and inv: "enc_inv (te_enc tenc)" and len: "length vs < 2 ^ 58"
  shows "\<exists>rest. block = bt # rest \<and> rest \<noteq> [] \<and> BlockCount block = Inr (int (length vs))"
proof -
  obtain te ve tb vb where w: "write_values sel vwrite vs (te_Reset tenc) (vreset venc) = Inr (te, ve)"
    "fst (te_Bytes te) = Inr tb" "block = packBlock bt tb vb"
    using enc by (auto simp: encode_block_using_def bind_result_eq_Inr)
  obtain ts where ts: "te = fold te_Write ts (te_Reset tenc)" "length ts = length vs"
    using write_values_times [OF w(1)] by blast
  have "enc_rep (te_enc te) []" "te_ts te = ts"
    using enc_rep_Reset [OF inv] ts(1) by (simp_all add: te_ts_fold_Write te_Reset_def)
  then have tb: "time_format ts tb" using te_Bytes_format [of te ts] ts(2) len w(2) by fastforce
  then have "length tb < 2 ^ 62" using length_time_format [OF tb] ts(2) len by simp
  then have "unpackBlock (tl block) = Inr (tb, vb)" unfolding w(3) by (rule unpackBlock_packBlock)
  then show ?thesis
    using CountTimestamps_format [OF tb] ts(2) w(3)
    by (simp add: BlockCount_def packBlock_def encodedBlockHeaderSize_def Suc_le_eq)
qed

text \<open>Decoding takes the branch of the type byte.\<close>

lemma DecodeBlock_type:
  assumes "rest \<noteq> []"
  shows "DecodeBlock sdec p (BlockFloat64 # rest) vals = DecodeFloatBlock (p_tdec p) (p_fdec p) (BlockFloat64 # rest)"
    and "DecodeBlock sdec p (BlockInteger # rest) vals = DecodeIntegerBlock (p_tdec p) (p_idec p) (BlockInteger # rest)"
    and "DecodeBlock sdec p (BlockUnsigned # rest) vals = DecodeUnsignedBlock (p_tdec p) (p_idec p) (BlockUnsigned # rest)"
    and "DecodeBlock sdec p (BlockBoolean # rest) vals = DecodeBooleanBlock (p_tdec p) (p_bdec p) (BlockBoolean # rest)"
    and "DecodeBlock sdec p (BlockString # rest) vals = DecodeStringBlock sdec (p_tdec p) (p_sdec p) (BlockString # rest)"
proof -
  have right: "bind_result r Inr = r" for r :: "Value list result" by (cases r) simp_all
  have len: "\<not> length (b # rest) \<le> encodedBlockHeaderSize" for b using assms by (simp add: encodedBlockHeaderSize_def Suc_le_eq)
  note d = DecodeBlock_def BlockType_def block_type_defs into_eq right
  show "DecodeBlock sdec p (BlockFloat64 # rest) vals = DecodeFloatBlock (p_tdec p) (p_fdec p) (BlockFloat64 # rest)"
    using len by (simp add: d)
  show "DecodeBlock sdec p (BlockInteger # rest) vals = DecodeIntegerBlock (p_tdec p) (p_idec p) (BlockInteger # rest)"
    using len by (simp add: d)
  show "DecodeBlock sdec p (BlockUnsigned # rest) vals = DecodeUnsignedBlock (p_tdec p) (p_idec p) (BlockUnsigned # rest)"
    using len by (simp add: d)
  show "DecodeBlock sdec p (BlockBoolean # rest) vals = DecodeBooleanBlock (p_tdec p) (p_bdec p) (BlockBoolean # rest)"
    using len by (simp add: d)
  show "DecodeBlock sdec p (BlockString # rest) vals = DecodeStringBlock sdec (p_tdec p) (p_sdec p) (BlockString # rest)"
    using len by (simp add: d)
qed

section \<open>Properties\<close>

definition string_payload :: "Value \<Rightarrow> bytes" where
  "string_payload v = (case v of StringValue _ s \<Rightarrow> s | _ \<Rightarrow> [])"

text \<open>
  The values that fit a block: not more than \<open>2^58\<close>, of the type of the first, which is not a pointer, no float
  a NaN, and the strings together shorter than the address space; a string encoder has to be in the pool if the
  first string is empty.
\<close>

definition encodable :: "'w pools \<Rightarrow> Value list \<Rightarrow> bool" where
  "encodable p vs \<longleftrightarrow>
     vs \<noteq> [] \<and> length vs < 2 ^ 58 \<and> valueType (hd vs) \<noteq> valueTypeUndefined \<and>
     list_all (\<lambda>v. valueType v = valueType (hd vs)) vs \<and>
     list_all (\<lambda>v. case v of FloatValue _ x \<Rightarrow> \<not> IsNaN x | _ \<Rightarrow> True) vs \<and>
     length (enc_strings (map string_payload vs)) < 2 ^ 63 \<and>
     (case hd vs of StringValue _ [] \<Rightarrow> p_senc p \<noteq> None | _ \<Rightarrow> True)"

lemmas typed_blocks = EncodeFloatBlock_def EncodeFloatBlockUsing_def EncodeIntegerBlock_def EncodeIntegerBlockUsing_def
  EncodeUnsignedBlock_def EncodeUnsignedBlockUsing_def EncodeBooleanBlock_def EncodeBooleanBlockUsing_def
  EncodeStringBlock_def EncodeStringBlockUsing_def

text \<open>The header of what \<open>EncodeValues\<close> returns.\<close>

definition block_type_of :: "Value \<Rightarrow> byte" where
  "block_type_of v =
     (case v of FloatValue _ _ \<Rightarrow> BlockFloat64 | IntegerValue _ _ \<Rightarrow> BlockInteger | UnsignedValue _ _ \<Rightarrow> BlockUnsigned
      | BooleanValue _ _ \<Rightarrow> BlockBoolean | _ \<Rightarrow> BlockString)"

lemma EncodeValues_header:
  assumes "EncodeValues ops senc p vs = Inr block" and "pools_ok p" and "length vs < 2 ^ 58"
  shows "\<exists>rest. block = block_type_of (hd vs) # rest \<and> rest \<noteq> [] \<and> BlockCount block = Inr (int (length vs))"
proof -
  obtain v vs' where vs: "vs = v # vs'" using assms(1) by (cases vs) (auto simp: EncodeValues_def)
  note te = te_Reset_inv [of "p_tenc p"]
  have inv: "enc_inv (te_enc (te_Reset (p_tenc p)))" using assms(2) te by (simp add: pools_ok_def)
  show ?thesis
  proof (cases v)
    case (FloatValue t x)
    with assms(1) vs have "encode_block_using BlockFloat64 float_sel (fe_Reset ops) (fe_Write ops) (\<lambda>e. fe_Bytes (fe_Flush ops e)) vs (te_Reset (p_tenc p)) (fe_Reset ops (p_fenc p)) = Inr block"
      by (simp add: EncodeValues_def typed_blocks)
    from encode_block_using_header [OF this inv assms(3)] show ?thesis using vs FloatValue by (simp add: block_type_of_def)
  next
    case (IntegerValue t x)
    with assms(1) vs have "encode_block_using BlockInteger int_sel ie_Reset ie_Write ie_Bytes vs (te_Reset (p_tenc p)) (ie_Reset (p_ienc p)) = Inr block"
      by (simp add: EncodeValues_def typed_blocks)
    from encode_block_using_header [OF this inv assms(3)] show ?thesis using vs IntegerValue by (simp add: block_type_of_def)
  next
    case (UnsignedValue t x)
    with assms(1) vs have "encode_block_using BlockUnsigned uint_sel ie_Reset ie_Write ie_Bytes vs (te_Reset (p_tenc p)) (ie_Reset (p_ienc p)) = Inr block"
      by (simp add: EncodeValues_def typed_blocks)
    from encode_block_using_header [OF this inv assms(3)] show ?thesis using vs UnsignedValue by (simp add: block_type_of_def)
  next
    case (BooleanValue t x)
    with assms(1) vs have "encode_block_using BlockBoolean bool_sel bo_Reset bo_Write bo_Bytes vs (te_Reset (p_tenc p)) (bo_Reset (p_benc p)) = Inr block"
      by (simp add: EncodeValues_def typed_blocks)
    from encode_block_using_header [OF this inv assms(3)] show ?thesis using vs BooleanValue by (simp add: block_type_of_def)
  next
    case (StringValue t x)
    with assms(1) vs obtain e where "encode_block_using BlockString string_sel se_Reset se_Write (se_Bytes senc) vs (te_Reset (p_tenc p)) e = Inr block"
      by (auto simp: EncodeValues_def typed_blocks bind_result_eq_Inr)
    from encode_block_using_header [OF this inv assms(3)] show ?thesis using vs StringValue by (simp add: block_type_of_def)
  qed (use assms(1) vs in \<open>simp add: EncodeValues_def\<close>)
qed

text \<open>
  C8: \<open>DecodeBlock\<close> inverts \<open>EncodeValues\<close> for each of the five types of values, and \<open>BlockCount\<close> is their
  number, with encoders and decoders taken from pools in any state, given a bit writer and a compressor that do
  what they document.
\<close>

theorem values_block_roundtrip:
  assumes bw: "bit_writer ops pend" and snappy: "\<And>x. sdec (senc x) = Some x"
    and p: "pools_ok p" "pools_ok q" and ok: "encodable p vs"
  shows "\<exists>block. EncodeValues ops senc p vs = Inr block \<and> DecodeBlock sdec q block vals = Inr vs \<and>
    BlockCount block = Inr (int (length vs))"
proof -
  obtain v vs' where vs: "vs = v # vs'" using ok by (cases vs) (auto simp: encodable_def)
  have ne: "vs \<noteq> []" and len: "length vs < 2 ^ 58" and same: "list_all (\<lambda>w. valueType w = valueType v) vs"
    using ok vs by (auto simp: encodable_def)
  have te: "enc_inv (te_enc (p_tenc p))" and td: "length (d_buf (td_dec (p_tdec q))) = 240"
    and idc: "length (id_values (p_idec q)) = 240" and bd: "bd_err (p_bdec q) = None"
    using p by (auto simp: pools_ok_def)
  have "\<exists>block. EncodeValues ops senc p vs = Inr block \<and>
      (\<forall>rest. block = block_type_of v # rest \<longrightarrow> rest \<noteq> [] \<longrightarrow> DecodeBlock sdec q block vals = Inr vs)"
  proof (cases v)
    case (FloatValue t x)
    then have f: "list_all (\<lambda>v. valueType v = valueTypeFloat64) vs" using same by simp
    have "\<not> list_ex (\<lambda>v. IsNaN (float_bits v)) vs"
    proof -
      have "\<not> IsNaN (float_bits w)" if "w \<in> set vs" for w
      proof -
        have "case w of FloatValue _ x \<Rightarrow> \<not> IsNaN x | _ \<Rightarrow> True" "valueType w = valueTypeFloat64"
          using that f ok by (auto simp: encodable_def list_all_iff)
        then show ?thesis by (cases w) (auto simp: value_types)
      qed
      then show ?thesis by (auto simp: list_ex_iff)
    qed
    then show ?thesis
      using float_block_roundtrip [OF bw f ne len te td, of "p_fenc p" "p_fdec q"] FloatValue vs
      by (auto simp: EncodeValues_def block_type_of_def DecodeBlock_type)
  next
    case (IntegerValue t x)
    then have "list_all (\<lambda>v. valueType v = valueTypeInteger) vs" using same by simp
    from integer_block_roundtrip [OF this ne len te td idc, of "p_ienc p"] show ?thesis
      using IntegerValue vs by (auto simp: EncodeValues_def block_type_of_def DecodeBlock_type)
  next
    case (UnsignedValue t x)
    then have "list_all (\<lambda>v. valueType v = valueTypeUnsigned) vs" using same by simp
    from unsigned_block_roundtrip [OF this ne len te td idc, of "p_ienc p"] show ?thesis
      using UnsignedValue vs by (auto simp: EncodeValues_def block_type_of_def DecodeBlock_type)
  next
    case (BooleanValue t x)
    then have "list_all (\<lambda>v. valueType v = valueTypeBoolean) vs" using same by simp
    from boolean_block_roundtrip [OF this ne len te td bd, of "p_benc p"] show ?thesis
      using BooleanValue vs by (auto simp: EncodeValues_def block_type_of_def DecodeBlock_type)
  next
    case (StringValue t x)
    then have st: "list_all (\<lambda>v. valueType v = valueTypeString) vs" using same by simp
    have "string_payload w = string_bytes w" if "w \<in> set vs" for w
    proof -
      have "valueType w = valueTypeString" using that st by (auto simp: list_all_iff)
      then show ?thesis by (cases w) (auto simp: string_payload_def value_types)
    qed
    then have "map string_payload vs = map string_bytes vs" by simp
    then have sz: "length (enc_strings (map string_bytes vs)) < 2 ^ 63" using ok unfolding encodable_def by metis
    have pool: "p_senc p = None \<Longrightarrow> string_bytes (hd vs) \<noteq> []"
      using ok vs StringValue by (auto simp: encodable_def split: list.splits)
    have "\<exists>block. EncodeStringBlock senc vs (p_tenc p) (p_senc p) = Inr block \<and>
        DecodeStringBlock sdec (p_tdec q) (p_sdec q) block = Inr vs"
      by (rule string_block_roundtrip) (use snappy st ne len sz te td pool p(1) in \<open>auto simp: pools_ok_def\<close>)
    then show ?thesis
      using StringValue vs by (auto simp: EncodeValues_def block_type_of_def DecodeBlock_type)
  next
    case (PtrValue t b mn mx)
    then show ?thesis using ok vs by (simp add: encodable_def)
  qed
  then show ?thesis using EncodeValues_header [OF _ p(1) len] vs by fastforce
qed

definition fresh_pools :: "bool list pools" where
  "fresh_pools = \<lparr>p_tenc = NewTimeEncoder, p_fenc = NewFloatEncoder list_writer, p_ienc = NewIntegerEncoder,
     p_benc = NewBooleanEncoder, p_senc = None, p_tdec = fresh_decoder, p_fdec = fresh_float_decoder,
     p_idec = fresh_int_decoder, p_bdec = fresh_bool_decoder, p_sdec = fresh_string_decoder\<rparr>"

lemma fresh_pools_ok: "pools_ok fresh_pools"
  by (simp add: pools_ok_def fresh_pools_def NewTimeEncoder_inv fresh_decoder_ok fresh_int_decoder_ok fresh_bool_decoder_def)

theorem values_block_roundtrip_witness:
  "\<exists>block. EncodeValues list_writer (\<lambda>x. x) fresh_pools [StringValue 10 [104, 105], StringValue 20 []] = Inr block \<and>
     DecodeBlock Some fresh_pools block [] = Inr [StringValue 10 [104, 105], StringValue 20 []] \<and> BlockCount block = Inr 2"
proof -
  have "enc_strings [[104, 105], []] = [2, 104, 105, 0]" by code_simp
  then have "encodable fresh_pools [StringValue 10 [104, 105], StringValue 20 []]"
    by (simp add: encodable_def string_payload_def value_types del: enc_strings_simps)
  from values_block_roundtrip [OF list_writer_ok _ fresh_pools_ok fresh_pools_ok this, of Some "\<lambda>x. x" "[]"]
  show ?thesis by simp
qed

end
