(* ===== verification/Values.thy ===== *)
theory Values
  imports ValueTypes
begin

text \<open>
  Slices of values, \<open>storage/types/values.gen.go\<close>, and the entry of a series in the memory
  cache, \<open>storage/types/entry.go\<close>. A slice is read as a map from timestamps to values in which
  the last value written for a timestamp counts (\<open>latest\<close>). \<open>Deduplicate\<close>, \<open>Merge\<close>, \<open>Exclude\<close> and
  \<open>Include\<close>, which sort and move values in place and find positions by binary search, are
  proved to be the corresponding operations on that map.
\<close>

type_synonym Values = "Value list"

section \<open>Order\<close>

fun ordered :: "Values \<Rightarrow> bool" where
  "ordered [] = True"
| "ordered [v] = True"
| "ordered (v # w # a) = (\<not> UnixNano v \<ge> UnixNano w \<and> ordered (w # a))"

definition assertOrdered :: "Values \<Rightarrow> unit result" where
  "assertOrdered a = (if ordered a then Inr () else Inl Panic)"

definition Values_MinTime :: "Values \<Rightarrow> int result" where
  "Values_MinTime a = (case a of [] \<Rightarrow> Inl Panic | v # _ \<Rightarrow> Inr (UnixNano v))"

definition Values_MaxTime :: "Values \<Rightarrow> int result" where
  "Values_MaxTime a = (if a = [] then Inl Panic else Inr (UnixNano (a ! (length a - 1))))"

definition Values_Size :: "Values \<Rightarrow> nat" where
  "Values_Size a = foldl (\<lambda>sz v. sz + value_Size v) 0 a"

lemma ordered_iff: "ordered a \<longleftrightarrow> sorted_wrt (\<lambda>v w. UnixNano v < UnixNano w) a"
proof (induction a rule: ordered.induct)
  case (3 v w a)
  then show ?case by (fastforce simp: not_le)
qed simp_all

lemma ordered_Cons [ordered_simps]: "ordered (v # a) \<longleftrightarrow> (\<forall>w \<in> set a. UnixNano v < UnixNano w) \<and> ordered a"
  by (simp add: ordered_iff)

lemma ordered_append [ordered_simps]:
  "ordered (a @ b) \<longleftrightarrow> ordered a \<and> ordered b \<and> (\<forall>v \<in> set a. \<forall>w \<in> set b. UnixNano v < UnixNano w)"
  by (simp add: ordered_iff sorted_wrt_append)

lemma ordered_filter: "ordered a \<Longrightarrow> ordered (filter P a)"
  by (simp add: ordered_iff sorted_wrt_filter)

lemma ordered_nth_less: "ordered a \<Longrightarrow> i < j \<Longrightarrow> j < length a \<Longrightarrow> UnixNano (a ! i) < UnixNano (a ! j)"
  by (auto simp: ordered_iff sorted_wrt_iff_nth_less)

lemma ordered_nth_le: "ordered a \<Longrightarrow> i \<le> j \<Longrightarrow> j < length a \<Longrightarrow> UnixNano (a ! i) \<le> UnixNano (a ! j)"
  using ordered_nth_less [of a i j] by (cases "i = j") auto

section \<open>The map a slice stands for\<close>

definition latest :: "int \<Rightarrow> Values \<Rightarrow> Value option" where
  "latest t a = (case filter (\<lambda>v. UnixNano v = t) a of [] \<Rightarrow> None | w # ws \<Rightarrow> Some (last (w # ws)))"

lemma latest_simps [simp]:
  "latest t [] = None"
  "latest t (v # a) = (case latest t a of Some w \<Rightarrow> Some w | None \<Rightarrow> if UnixNano v = t then Some v else None)"
  by (auto simp: latest_def split: list.splits)

lemma latest_append: "latest t (a @ b) = (case latest t b of Some v \<Rightarrow> Some v | None \<Rightarrow> latest t a)"
  by (induction a) (auto split: option.splits)

lemma latest_None: "latest t a = None \<longleftrightarrow> (\<forall>v \<in> set a. UnixNano v \<noteq> t)"
  by (induction a) (auto split: option.splits)

lemma latest_SomeD: "latest t a = Some v \<Longrightarrow> v \<in> set a \<and> UnixNano v = t"
  by (induction a) (auto split: option.splits if_splits)

lemma latest_ordered: "ordered a \<Longrightarrow> latest t a = Some v \<longleftrightarrow> v \<in> set a \<and> UnixNano v = t"
proof (induction a)
  case (Cons w a)
  then have a: "ordered a" "\<forall>x \<in> set a. UnixNano w < UnixNano x" by (simp_all add: ordered_simps)
  show ?case
  proof (cases "latest t a")
    case None
    then show ?thesis using latest_None [of t a] by auto
  next
    case (Some x)
    then have "x \<in> set a" "UnixNano x = t" using latest_SomeD by blast+
    then show ?thesis using Some Cons.IH [OF a(1)] a(2) by auto
  qed
qed simp

lemma ordered_ext:
  assumes "ordered a" and "ordered b" and "\<And>t. latest t a = latest t b"
  shows "a = b"
proof (rule map_sorted_distinct_set_unique [where f = UnixNano])
  have "v \<in> set a \<longleftrightarrow> v \<in> set b" for v
    using latest_ordered [OF assms(1), of "UnixNano v" v] latest_ordered [OF assms(2), of "UnixNano v" v] assms(3)
    by simp
  then show eq: "set a = set b" by blast
  have s: "sorted_wrt (<) (map UnixNano a)" "sorted_wrt (<) (map UnixNano b)"
    using assms(1,2) by (simp_all add: ordered_iff sorted_wrt_map)
  then show "sorted (map UnixNano a)" "distinct (map UnixNano a)" "sorted (map UnixNano b)" "distinct (map UnixNano b)"
    by (simp_all add: strict_sorted_iff)
  then show "inj_on UnixNano (set a \<union> set b)" using eq by (simp add: distinct_map)
qed

section \<open>Deduplicate\<close>

text \<open>The in-place loop: \<open>a[i]\<close> is the last value kept, \<open>j\<close> the next one read.\<close>

function dedup_loop :: "Values \<Rightarrow> nat \<Rightarrow> nat \<Rightarrow> Values" where
  "dedup_loop a i j =
     (if j < length a then
        (let v = a ! j; i' = (if UnixNano v \<noteq> UnixNano (a ! i) then i + 1 else i)
         in dedup_loop (a[i' := v]) i' (j + 1))
      else take (i + 1) a)"
  by pat_completeness auto
termination by (relation "measure (\<lambda>(a, i, j). length a - j)") auto

declare dedup_loop.simps [simp del]

text \<open>\<open>sort.Stable\<close> is \<open>sort_key\<close>, which keeps the order of values with equal timestamps.\<close>

definition Deduplicate :: "Values \<Rightarrow> Values" where
  "Deduplicate a =
     (if length a \<le> 1 then a
      else if ordered a then a
      else dedup_loop (sort_key UnixNano a) 0 1)"

fun keep_last :: "Values \<Rightarrow> Values" where
  "keep_last [] = []"
| "keep_last [v] = [v]"
| "keep_last (v # w # a) = (if UnixNano w \<noteq> UnixNano v then v # keep_last (w # a) else keep_last (w # a))"

lemma dedup_loop_eq: "i < j \<Longrightarrow> i < length a \<Longrightarrow> dedup_loop a i j = take i a @ keep_last (a ! i # drop j a)"
proof (induction a i j rule: dedup_loop.induct)
  case (1 a i j)
  show ?case
  proof (cases "j < length a")
    case True
    define v where "v = a ! j"
    define i' where "i' = (if UnixNano v \<noteq> UnixNano (a ! i) then i + 1 else i)"
    have i': "i' < j + 1" "i' < length a" using "1.prems" True by (auto simp: i'_def)
    have "dedup_loop a i j = dedup_loop (a[i' := v]) i' (j + 1)"
      using True by (subst dedup_loop.simps) (simp add: Let_def v_def i'_def)
    also have "\<dots> = take i' (a[i' := v]) @ keep_last (v # drop (j + 1) a)"
      using "1.IH" [OF True v_def i'_def] i' by (simp add: drop_update_cancel)
    also have "\<dots> = take i' a @ keep_last (v # drop (j + 1) a)" by simp
    also have "\<dots> = take i a @ keep_last (a ! i # v # drop (j + 1) a)"
      using "1.prems" by (simp add: i'_def take_Suc_conv_app_nth)
    finally show ?thesis using Cons_nth_drop_Suc [OF True] by (simp add: v_def)
  next
    case False
    then show ?thesis using "1.prems" by (subst dedup_loop.simps) (simp add: take_Suc_conv_app_nth)
  qed
qed

lemma set_keep_last: "set (keep_last a) \<subseteq> set a"
  by (induction a rule: keep_last.induct) auto

lemma ordered_keep_last: "sorted (map UnixNano a) \<Longrightarrow> ordered (keep_last a)"
proof (induction a rule: keep_last.induct)
  case (3 v w a)
  then show ?case
    using set_keep_last [of "w # a"] by (fastforce simp: ordered_Cons)
qed simp_all

lemma latest_keep_last: "sorted (map UnixNano a) \<Longrightarrow> latest t (keep_last a) = latest t a"
proof (induction a rule: keep_last.induct)
  case (3 v w a)
  show ?case
  proof (cases "UnixNano w = UnixNano v")
    case True
    then show ?thesis using 3 by (auto split: option.splits)
  next
    case False
    then show ?thesis using 3 by simp
  qed
qed simp_all

lemma Deduplicate_cases:
  "Deduplicate a = (if ordered a then a else keep_last (sort_key UnixNano a))"
proof (cases "ordered a \<or> length a \<le> 1")
  case True
  moreover have "length a \<le> 1 \<Longrightarrow> ordered a" by (cases a rule: ordered.cases) simp_all
  ultimately show ?thesis by (auto simp: Deduplicate_def)
next
  case False
  define b where "b = sort_key UnixNano a"
  have "0 < length b" using False by (cases a) (auto simp: b_def)
  then have "dedup_loop b 0 1 = keep_last (b ! 0 # drop 1 b)"
    using dedup_loop_eq [of 0 1 b] by simp
  moreover have "b ! 0 # drop 1 b = b" using \<open>0 < length b\<close> by (cases b) auto
  ultimately show ?thesis using False by (simp add: Deduplicate_def b_def)
qed

lemma ordered_Deduplicate: "ordered (Deduplicate a)"
  by (simp add: Deduplicate_cases ordered_keep_last)

lemma latest_Deduplicate [simp]: "latest t (Deduplicate a) = latest t a"
proof -
  have "latest t (sort_key UnixNano a) = latest t a" by (simp add: latest_def sort_key_stable)
  then show ?thesis by (simp add: Deduplicate_cases latest_keep_last)
qed

lemma Deduplicate_Nil_iff [simp]: "Deduplicate a = [] \<longleftrightarrow> a = []"
proof -
  have "keep_last b = [] \<longleftrightarrow> b = []" for b by (induction b rule: keep_last.induct) auto
  moreover have "sort_key UnixNano a = [] \<longleftrightarrow> a = []" by (metis length_0_conv length_sort)
  ultimately show ?thesis by (auto simp: Deduplicate_cases)
qed

section \<open>Search and ranges\<close>

function search_loop :: "Values \<Rightarrow> int \<Rightarrow> nat \<Rightarrow> nat \<Rightarrow> nat" where
  "search_loop a v lo hi =
     (if lo < hi then
        (let mid = (lo + hi) div 2
         in if UnixNano (a ! mid) < v then search_loop a v (mid + 1) hi else search_loop a v lo mid)
      else lo)"
  by pat_completeness auto
termination by (relation "measure (\<lambda>(a, v, lo, hi). hi - lo)") auto

declare search_loop.simps [simp del]

definition search :: "Values \<Rightarrow> int \<Rightarrow> nat" where
  "search a v = search_loop a v 0 (length a)"

definition FindRange :: "Values \<Rightarrow> int \<Rightarrow> int \<Rightarrow> int \<times> int" where
  "FindRange a mn mx =
     (if length a = 0 \<or> mn > mx then (-1, -1)
      else let minVal = UnixNano (a ! 0); maxVal = UnixNano (a ! (length a - 1))
           in if maxVal < mn \<or> minVal > mx then (-1, -1)
              else (int (search a mn), int (search a mx)))"

definition Exclude :: "Values \<Rightarrow> int \<Rightarrow> int \<Rightarrow> Values" where
  "Exclude a mn mx =
     (let (rmin, rmax) = FindRange a mn mx
      in if rmin = -1 \<and> rmax = -1 then a
         else if rmax < int (length a) then
           (let rmax' = (if UnixNano (a ! nat rmax) = mx then rmax + 1 else rmax);
                rest = int (length a) - rmax'
            in if rest > 0 then take (nat rmin) a @ drop (nat rmax') a else take (nat rmin) a)
         else take (nat rmin) a)"

definition Include :: "Values \<Rightarrow> int \<Rightarrow> int \<Rightarrow> Values" where
  "Include a mn mx =
     (let (rmin, rmax) = FindRange a mn mx
      in if rmin = -1 \<and> rmax = -1 then []
         else let rmax' = (if rmax < int (length a) \<and> UnixNano (a ! nat rmax) = mx then rmax + 1 else rmax)
              in if rmin > -1 then drop (nat rmin) (take (nat rmax') a) else take (nat rmax') a)"

lemma search_loop_inv:
  "ordered a \<Longrightarrow> lo \<le> hi \<Longrightarrow> hi \<le> length a \<Longrightarrow>
    (\<forall>k < lo. UnixNano (a ! k) < v) \<Longrightarrow> (\<forall>k < length a. hi \<le> k \<longrightarrow> \<not> UnixNano (a ! k) < v) \<Longrightarrow>
    search_loop a v lo hi \<le> length a \<and> (\<forall>k < length a. UnixNano (a ! k) < v \<longleftrightarrow> k < search_loop a v lo hi)"
proof (induction a v lo hi rule: search_loop.induct)
  case (1 a v lo hi)
  show ?case
  proof (cases "lo < hi")
    case True
    define mid where "mid = (lo + hi) div 2"
    have mid: "lo \<le> mid" "mid < hi" using True by (auto simp: mid_def)
    have mono: "k < mid \<Longrightarrow> UnixNano (a ! k) < UnixNano (a ! mid)" "mid < k \<Longrightarrow> k < length a \<Longrightarrow> UnixNano (a ! mid) < UnixNano (a ! k)" for k
      using ordered_nth_less [OF "1.prems"(1)] mid "1.prems"(3) by simp_all
    show ?thesis
    proof (cases "UnixNano (a ! mid) < v")
      case less: True
      have "\<forall>k < mid + 1. UnixNano (a ! k) < v"
      proof (intro allI impI)
        fix k assume "k < mid + 1"
        then show "UnixNano (a ! k) < v" using less mono(1) [of k] by (cases "k = mid") auto
      qed
      moreover have "search_loop a v lo hi = search_loop a v (mid + 1) hi"
        using True less by (subst search_loop.simps) (simp add: Let_def mid_def)
      ultimately show ?thesis
        using "1.IH"(1) [OF True mid_def less "1.prems"(1) _ "1.prems"(3) _ "1.prems"(5)] mid(2) by simp
    next
      case ge: False
      have "\<forall>k < length a. mid \<le> k \<longrightarrow> \<not> UnixNano (a ! k) < v"
      proof (intro allI impI)
        fix k assume "k < length a" "mid \<le> k"
        then show "\<not> UnixNano (a ! k) < v" using ge mono(2) [of k] by (cases "k = mid") auto
      qed
      moreover have "search_loop a v lo hi = search_loop a v lo mid"
        using True ge by (subst search_loop.simps) (simp add: Let_def mid_def)
      moreover have "mid \<le> length a" using mid(2) "1.prems"(3) by simp
      ultimately show ?thesis
        using "1.IH"(2) [OF True mid_def ge "1.prems"(1) mid(1) _ "1.prems"(4)] by simp
    qed
  next
    case False
    then have sl: "search_loop a v lo hi = lo" by (subst search_loop.simps) simp
    have "lo = hi" using False "1.prems"(2) by simp
    then have "UnixNano (a ! k) < v \<longleftrightarrow> k < lo" if "k < length a" for k
      using that "1.prems"(4,5) by (cases "k < lo") simp_all
    then show ?thesis using sl "1.prems"(2,3) by simp
  qed
qed

lemma search_spec:
  assumes "ordered a"
  shows "search a v \<le> length a" and "k < length a \<Longrightarrow> UnixNano (a ! k) < v \<longleftrightarrow> k < search a v"
  using search_loop_inv [OF assms, of 0 "length a" v] by (simp_all add: search_def)

lemma filter_prefix:
  assumes "r \<le> length a" and "\<And>k. k < length a \<Longrightarrow> P (a ! k) \<longleftrightarrow> k < r"
  shows "filter P a = take r a" and "filter (\<lambda>x. \<not> P x) a = drop r a"
proof -
  have t: "\<forall>x \<in> set (take r a). P x" using assms by (auto simp: in_set_conv_nth)
  have d: "\<forall>x \<in> set (drop r a). \<not> P x" using assms(2) by (auto simp: in_set_conv_nth)
  have "filter P (take r a @ drop r a) = take r a" using t d by (simp only: filter_append) (simp add: filter_empty_conv)
  then show "filter P a = take r a" by simp
  have "filter (\<lambda>x. \<not> P x) (take r a @ drop r a) = drop r a" using t d by (simp only: filter_append) (simp add: filter_empty_conv)
  then show "filter (\<lambda>x. \<not> P x) a = drop r a" by simp
qed

lemma search_filter:
  assumes "ordered a"
  shows "take (search a v) a = filter (\<lambda>x. UnixNano x < v) a"
    and "drop (search a v) a = filter (\<lambda>x. \<not> UnixNano x < v) a"
  using filter_prefix [OF search_spec(1) [OF assms], of "\<lambda>x. UnixNano x < v" v] search_spec(2) [OF assms] by simp_all

text \<open>The upper end, moved past a value at \<open>mx\<close>.\<close>

definition past :: "Values \<Rightarrow> int \<Rightarrow> nat" where
  "past a mx = (let r = search a mx in if r < length a \<and> UnixNano (a ! r) = mx then r + 1 else r)"

lemma past_filter:
  assumes "ordered a"
  shows "take (past a mx) a = filter (\<lambda>x. UnixNano x \<le> mx) a"
    and "drop (past a mx) a = filter (\<lambda>x. \<not> UnixNano x \<le> mx) a"
proof -
  define r where "r = search a mx"
  note s = search_spec [OF assms, where v = mx, folded r_def]
  have le: "past a mx \<le> length a" using s(1) by (simp add: past_def r_def Let_def)
  have iff: "UnixNano (a ! k) \<le> mx \<longleftrightarrow> k < past a mx" if k: "k < length a" for k
  proof (cases "r < length a \<and> UnixNano (a ! r) = mx")
    case True
    then have p: "past a mx = r + 1" by (simp add: past_def r_def Let_def)
    consider "k < r" | "k = r" | "r < k" by linarith
    then show ?thesis
    proof cases
      case 3
      then have "mx < UnixNano (a ! k)" using ordered_nth_less [OF assms 3 k] True by simp
      then show ?thesis using p 3 by simp
    qed (use s(2) [OF k] True p in auto)
  next
    case False
    then have "past a mx = r" by (auto simp: past_def r_def Let_def)
    moreover have "UnixNano (a ! k) \<noteq> mx"
    proof
      assume eq: "UnixNano (a ! k) = mx"
      then have "r \<le> k" using s(2) [OF k] by simp
      moreover have "r \<noteq> k" using False eq k by auto
      ultimately have "UnixNano (a ! r) < mx" using ordered_nth_less [OF assms, of r k] k eq by simp
      then show False using s(2) [of r] \<open>r \<le> k\<close> k by simp
    qed
    ultimately show ?thesis using s(2) [OF k] by auto
  qed
  show "take (past a mx) a = filter (\<lambda>x. UnixNano x \<le> mx) a"
    and "drop (past a mx) a = filter (\<lambda>x. \<not> UnixNano x \<le> mx) a"
    using filter_prefix [OF le, of "\<lambda>x. UnixNano x \<le> mx"] iff by simp_all
qed

lemma FindRange_outside:
  assumes "ordered a" and "FindRange a mn mx = (-1, -1)"
  shows "\<forall>x \<in> set a. \<not> (mn \<le> UnixNano x \<and> UnixNano x \<le> mx)"
proof
  fix x assume "x \<in> set a"
  then obtain k where k: "k < length a" "x = a ! k" by (auto simp: in_set_conv_nth)
  have "UnixNano (a ! 0) \<le> UnixNano x" "UnixNano x \<le> UnixNano (a ! (length a - 1))"
    using k ordered_nth_le [OF assms(1), of 0 k] ordered_nth_le [OF assms(1), of k "length a - 1"] by simp_all
  then show "\<not> (mn \<le> UnixNano x \<and> UnixNano x \<le> mx)"
    using assms(2) k by (auto simp: FindRange_def Let_def split: if_splits)
qed

lemma Exclude_filter:
  assumes "ordered a"
  shows "Exclude a mn mx = filter (\<lambda>x. \<not> (mn \<le> UnixNano x \<and> UnixNano x \<le> mx)) a"
proof (cases "FindRange a mn mx = (-1, -1)")
  case True
  then show ?thesis using FindRange_outside [OF assms True] by (auto simp: Exclude_def intro!: filter_True [symmetric])
next
  case False
  then have fr: "FindRange a mn mx = (int (search a mn), int (search a mx))" and le: "mn \<le> mx"
    by (auto simp: FindRange_def Let_def split: if_splits)
  have "Exclude a mn mx = take (search a mn) a @ drop (past a mx) a"
    using fr search_spec(1) [OF assms, of mx] by (auto simp: Exclude_def past_def Let_def nat_add_distrib)
  also have "\<dots> = filter (\<lambda>x. UnixNano x < mn) a @ filter (\<lambda>x. \<not> UnixNano x \<le> mx) a"
    by (simp only: search_filter(1) [OF assms] past_filter(2) [OF assms])
  also have "\<dots> = filter (\<lambda>x. \<not> (mn \<le> UnixNano x \<and> UnixNano x \<le> mx)) a"
    using assms le
  proof (induction a)
    case (Cons x a)
    have "filter (\<lambda>y. UnixNano y < mn) a = []" if "\<not> UnixNano x \<le> mx"
      using Cons.prems that by (fastforce simp: ordered_Cons filter_empty_conv)
    then show ?case using Cons by (auto simp: ordered_Cons)
  qed simp
  finally show ?thesis .
qed

lemma filter_slice:
  assumes "\<And>k. k < length a \<Longrightarrow> P (a ! k) \<longleftrightarrow> k < r" and "p \<le> length a" and "take p a = filter Q a"
  shows "drop r (take p a) = filter (\<lambda>x. \<not> P x \<and> Q x) a"
proof -
  have "filter (\<lambda>x. \<not> P x) (take p a) = drop (min r p) (take p a)"
    using assms(1,2) by (intro filter_prefix(2)) auto
  also have "\<dots> = drop r (take p a)" by (simp add: min_def)
  finally show ?thesis using assms(3) by (simp add: conj_commute)
qed

lemma Include_filter:
  assumes "ordered a"
  shows "Include a mn mx = filter (\<lambda>x. mn \<le> UnixNano x \<and> UnixNano x \<le> mx) a"
proof (cases "FindRange a mn mx = (-1, -1)")
  case True
  then show ?thesis using FindRange_outside [OF assms True] by (auto simp: Include_def filter_empty_conv)
next
  case False
  then have fr: "FindRange a mn mx = (int (search a mn), int (search a mx))"
    by (auto simp: FindRange_def Let_def split: if_splits)
  have "Include a mn mx = drop (search a mn) (take (past a mx) a)"
    using fr by (auto simp: Include_def past_def Let_def nat_add_distrib)
  also have "\<dots> = filter (\<lambda>x. \<not> UnixNano x < mn \<and> UnixNano x \<le> mx) a"
    using search_spec [OF assms] past_filter(1) [OF assms, of mx]
    by (intro filter_slice) (auto simp: past_def Let_def Suc_le_eq)
  finally show ?thesis by (simp add: not_less)
qed

section \<open>Merge\<close>

text \<open>The merging loop, with \<open>out\<close> appended to.\<close>

function merge_loop :: "Values \<Rightarrow> Values \<Rightarrow> Values \<Rightarrow> Values" where
  "merge_loop out (v # a) (w # b) =
     (if UnixNano v < UnixNano w then merge_loop (out @ [v]) a (w # b)
      else if UnixNano v = UnixNano w then merge_loop out a (w # b)
      else merge_loop (out @ [w]) (v # a) b)"
| "merge_loop out (v # a) [] = out @ v # a"
| "merge_loop out [] b = out @ b"
  by pat_completeness auto
termination by (relation "measure (\<lambda>(out, a, b). length a + length b)") auto

definition Merge :: "Values \<Rightarrow> Values \<Rightarrow> Values" where
  "Merge a b =
     (if length a = 0 then b
      else if length b = 0 then a
      else let a' = Deduplicate a; b' = Deduplicate b
           in if UnixNano (a' ! (length a' - 1)) < UnixNano (b' ! 0) then a' @ b'
              else if UnixNano (b' ! (length b' - 1)) < UnixNano (a' ! 0) then b' @ a'
              else merge_loop [] a' b')"

fun merge2 :: "Values \<Rightarrow> Values \<Rightarrow> Values" where
  "merge2 (v # a) (w # b) =
     (if UnixNano v < UnixNano w then v # merge2 a (w # b)
      else if UnixNano v = UnixNano w then merge2 a (w # b)
      else w # merge2 (v # a) b)"
| "merge2 (v # a) [] = v # a"
| "merge2 [] b = b"

lemma merge_loop_merge2: "merge_loop out a b = out @ merge2 a b"
  by (induction out a b rule: merge_loop.induct) auto

lemma set_merge2: "set (merge2 a b) \<subseteq> set a \<union> set b"
  by (induction a b rule: merge2.induct) auto

lemma ordered_merge2: "ordered a \<Longrightarrow> ordered b \<Longrightarrow> ordered (merge2 a b)"
proof (induction a b rule: merge2.induct)
  case (1 v a w b)
  have "UnixNano v < UnixNano x" if "x \<in> set (merge2 a (w # b))" "UnixNano v < UnixNano w" for x
    using that set_merge2 [of a "w # b"] "1.prems" by (fastforce simp: ordered_Cons)
  moreover have "UnixNano w < UnixNano x" if "x \<in> set (merge2 (v # a) b)" "UnixNano w < UnixNano v" for x
    using that set_merge2 [of "v # a" b] "1.prems" by (fastforce simp: ordered_Cons)
  ultimately show ?case using 1 by (simp add: ordered_Cons)
qed simp_all

lemma latest_merge2: "ordered a \<Longrightarrow> ordered b \<Longrightarrow> latest t (merge2 a b) = latest t (a @ b)"
proof (induction a b rule: merge2.induct)
  case (1 v a w b)
  consider "UnixNano v < UnixNano w" | "UnixNano v = UnixNano w" | "UnixNano w < UnixNano v" by linarith
  then show ?case
  proof cases
    case 1
    then show ?thesis using "1.IH"(1) "1.prems" by (simp add: ordered_Cons)
  next
    case 2
    then have "latest t (merge2 (v # a) (w # b)) = latest t (a @ w # b)"
      using "1.IH"(2) "1.prems" by (simp add: ordered_Cons)
    also have "\<dots> = latest t ((v # a) @ w # b)"
      using 2 latest_None [of t "a @ w # b"] by (auto split: option.splits)
    finally show ?thesis .
  next
    case 3
    then have IH: "latest t (merge2 (v # a) b) = latest t ((v # a) @ b)"
      using "1.IH"(3) "1.prems" by (simp add: ordered_Cons)
    have "latest t ((v # a) @ b) = None \<and> latest t b = None" if "UnixNano w = t"
      using that 3 "1.prems" unfolding latest_None by (fastforce simp: ordered_Cons)
    then show ?thesis using IH 3
      by (cases "UnixNano w = t") (simp_all add: latest_append split: option.splits)
  qed
qed simp_all

lemma Merge_props:
  assumes "a \<noteq> []" and "b \<noteq> []"
  shows "ordered (Merge a b)" and "latest t (Merge a b) = latest t (a @ b)"
proof -
  let ?a = "Deduplicate a" and ?b = "Deduplicate b"
  have ne: "?a \<noteq> []" "?b \<noteq> []" and o: "ordered ?a" "ordered ?b" using assms by (simp_all add: ordered_Deduplicate)
  have below: "\<forall>v \<in> set c. \<forall>w \<in> set d. UnixNano v < UnixNano w"
    if "ordered c" "ordered d" "d \<noteq> []" "UnixNano (c ! (length c - 1)) < UnixNano (d ! 0)" for c d
  proof (intro ballI)
    fix v w assume "v \<in> set c" "w \<in> set d"
    then obtain i j where ij: "i < length c" "v = c ! i" "j < length d" "w = d ! j" by (auto simp: in_set_conv_nth)
    then have "i \<le> length c - 1" "length c - 1 < length c" by auto
    then show "UnixNano v < UnixNano w"
      using ij ordered_nth_le [OF that(1), of i "length c - 1"] ordered_nth_le [OF that(2), of 0 j] that(4) by simp
  qed
  have both: "ordered (Merge a b) \<and> latest t (Merge a b) = latest t (?a @ ?b)"
  proof (cases "UnixNano (?b ! (length ?b - 1)) < UnixNano (?a ! 0) \<and> \<not> UnixNano (?a ! (length ?a - 1)) < UnixNano (?b ! 0)")
    case True
    then have B: "\<forall>v \<in> set ?b. \<forall>w \<in> set ?a. UnixNano v < UnixNano w" using below o ne by blast
    have "latest t ?a = None \<or> latest t ?b = None"
    proof (rule ccontr)
      assume "\<not> (latest t ?a = None \<or> latest t ?b = None)"
      then obtain v w where "latest t ?a = Some v" "latest t ?b = Some w" by (simp only: de_Morgan_disj not_None_eq) blast
      then have "UnixNano w < UnixNano v" "UnixNano v = t" "UnixNano w = t" using latest_SomeD B by blast+
      then show False by simp
    qed
    then have sw: "latest t (?b @ ?a) = latest t (?a @ ?b)" by (auto simp only: latest_append split: option.splits)
    have "Merge a b = ?b @ ?a" using True assms by (simp add: Merge_def Let_def)
    then show ?thesis using sw B o by (simp only: ordered_append simp_thms)
  next
    case False
    show ?thesis
    proof (cases "UnixNano (?a ! (length ?a - 1)) < UnixNano (?b ! 0)")
      case True
      then have "Merge a b = ?a @ ?b" using assms by (simp add: Merge_def Let_def)
      then show ?thesis using below [OF o ne(2) True] o by (simp only: ordered_append simp_thms)
    next
      case nless: False
      then have "Merge a b = merge2 ?a ?b" using False assms by (simp add: Merge_def Let_def merge_loop_merge2)
      then show ?thesis using ordered_merge2 [OF o] latest_merge2 [OF o] by simp
    qed
  qed
  moreover have "latest t (?a @ ?b) = latest t (a @ b)" unfolding latest_append latest_Deduplicate ..
  ultimately show "ordered (Merge a b)" "latest t (Merge a b) = latest t (a @ b)" by simp_all
qed

section \<open>Entries\<close>

record Entry =
  en_values :: Values
  en_vType :: byte

definition NewEntryValues :: "Values \<Rightarrow> Entry result" where
  "NewEntryValues values =
     (case values of
        [] \<Rightarrow> Inr \<lparr>en_values = [], en_vType = 0\<rparr>
      | v # _ \<Rightarrow>
          if list_ex (\<lambda>w. valueType v \<noteq> valueType w) values then Inl ErrFieldTypeConflict
          else Inr \<lparr>en_values = values, en_vType = valueType v\<rparr>)"

text \<open>The methods run under the entry's lock; \<open>Add\<close> returns the error, if any, and leaves the entry as it was.\<close>

definition entry_Add :: "Values \<Rightarrow> Entry \<Rightarrow> error option \<times> Entry" where
  "entry_Add values e =
     (if length values = 0 then (None, e)
      else if en_vType e \<noteq> 0 \<and> list_ex (\<lambda>v. en_vType e \<noteq> valueType v) values then (Some ErrFieldTypeConflict, e)
      else if length (en_values e) = 0 then (None, e\<lparr>en_values := values, en_vType := valueType (values ! 0)\<rparr>)
      else (None, e\<lparr>en_values := en_values e @ values\<rparr>))"

definition entry_Deduplicate :: "Entry \<Rightarrow> Entry" where
  "entry_Deduplicate e = (if length (en_values e) \<le> 1 then e else e\<lparr>en_values := Deduplicate (en_values e)\<rparr>)"

definition entry_Count :: "Entry \<Rightarrow> nat" where
  "entry_Count e = length (en_values e)"

definition entry_Filter :: "int \<Rightarrow> int \<Rightarrow> Entry \<Rightarrow> Entry" where
  "entry_Filter mn mx e =
     (let e1 = (if 1 < length (en_values e) then e\<lparr>en_values := Deduplicate (en_values e)\<rparr> else e)
      in e1\<lparr>en_values := Exclude (en_values e1) mn mx\<rparr>)"

definition entry_Size :: "Entry \<Rightarrow> nat" where
  "entry_Size e = Values_Size (en_values e)"

definition entry_Clean :: "Entry \<Rightarrow> Entry" where
  "entry_Clean e = e\<lparr>en_values := []\<rparr>"

definition entry_Values :: "Entry \<Rightarrow> Values" where
  "entry_Values e = en_values e"

lemma Values_Size_sum: "Values_Size a = sum_list (map value_Size a)"
proof -
  have "foldl (\<lambda>sz v. sz + value_Size v) n a = n + sum_list (map value_Size a)" for n
    by (induction a arbitrary: n) simp_all
  then show ?thesis by (simp add: Values_Size_def)
qed

lemma Values_Size_append [simp]: "Values_Size (a @ b) = Values_Size a + Values_Size b"
  by (simp add: Values_Size_sum)

lemma ordered_short: "length a \<le> 1 \<Longrightarrow> ordered a"
  by (cases a rule: ordered.cases) simp_all

lemma Deduplicate_ordered [simp]: "ordered a \<Longrightarrow> Deduplicate a = a"
  by (simp add: Deduplicate_cases)

lemma entry_Deduplicate_values: "en_values (entry_Deduplicate e) = Deduplicate (en_values e)"
  using ordered_short [of "en_values e"] by (simp add: entry_Deduplicate_def)

lemma entry_Filter_eq:
  "entry_Filter mn mx e = e\<lparr>en_values := filter (\<lambda>v. \<not> (mn \<le> UnixNano v \<and> UnixNano v \<le> mx)) (Deduplicate (en_values e))\<rparr>"
proof (cases "1 < length (en_values e)")
  case True
  then show ?thesis by (simp add: entry_Filter_def Exclude_filter ordered_Deduplicate)
next
  case False
  then have "ordered (en_values e)" by (intro ordered_short) simp
  then show ?thesis using False by (simp add: entry_Filter_def Exclude_filter)
qed

section \<open>Properties\<close>

text \<open>
  C14: \<open>Deduplicate\<close> returns a strictly ascending slice that stands for the same map: for every
  timestamp it holds exactly the value that appears last in the argument, or none.
\<close>

theorem Deduplicate_correct:
  "ordered (Deduplicate a) \<and> (\<forall>t. latest t (Deduplicate a) = latest t a)"
  by (simp add: ordered_Deduplicate)

text \<open>
  C15: \<open>Merge\<close> of two non-empty slices, sorted or not, is the deduplication of their
  concatenation: ascending, with the values of \<open>b\<close> winning at equal timestamps. The two
  shortcuts for disjoint ranges give the same result as the merging loop.
\<close>

theorem Merge_is_Deduplicate_append:
  assumes "a \<noteq> []" and "b \<noteq> []"
  shows "Merge a b = Deduplicate (a @ b)"
  using Merge_props [OF assms] by (intro ordered_ext) (simp_all add: ordered_Deduplicate)

theorem Merge_is_Deduplicate_append_witness:
  "Merge [IntegerValue 3 1, IntegerValue 1 1] [IntegerValue 1 2] =
   Deduplicate ([IntegerValue 3 1, IntegerValue 1 1] @ [IntegerValue 1 2])"
  by (rule Merge_is_Deduplicate_append) simp_all

text \<open>
  C16: On an ascending slice, \<open>Exclude\<close> removes and \<open>Include\<close> keeps exactly the values with a
  timestamp in the closed range, whichever positions the binary searches return and also when
  the range is empty or outside the slice.
\<close>

theorem Exclude_Include_correct:
  assumes "ordered a"
  shows "Exclude a mn mx = filter (\<lambda>v. \<not> (mn \<le> UnixNano v \<and> UnixNano v \<le> mx)) a \<and>
    Include a mn mx = filter (\<lambda>v. mn \<le> UnixNano v \<and> UnixNano v \<le> mx) a"
  using Exclude_filter [OF assms] Include_filter [OF assms] by simp

theorem Exclude_Include_correct_witness:
  "ordered [IntegerValue 1 1, IntegerValue 2 2, IntegerValue 5 5] \<and>
   Exclude [IntegerValue 1 1, IntegerValue 2 2, IntegerValue 5 5] 2 4 = [IntegerValue 1 1, IntegerValue 5 5] \<and>
   Include [IntegerValue 1 1, IntegerValue 2 2, IntegerValue 5 5] 2 4 = [IntegerValue 2 2]"
proof -
  have o: "ordered [IntegerValue 1 1, IntegerValue 2 2, IntegerValue 5 5]" by (simp add: UnixNano_def)
  then show ?thesis using Exclude_Include_correct [OF o, of 2 4] by (simp add: UnixNano_def)
qed

text \<open>
  Filtering an entry, whose values may be unsorted and repeated, leaves exactly the
  deduplicated values outside the range.
\<close>

theorem entry_Filter_correct:
  "en_values (entry_Filter mn mx e) =
   filter (\<lambda>v. \<not> (mn \<le> UnixNano v \<and> UnixNano v \<le> mx)) (Deduplicate (en_values e))"
  by (simp add: entry_Filter_eq)

text \<open>The type an entry records is the type of every value in it.\<close>

definition entry_typed :: "Entry \<Rightarrow> bool" where
  "entry_typed e \<longleftrightarrow> list_all (\<lambda>v. valueType v = en_vType e) (en_values e)"

text \<open>A batch of one type.\<close>

definition of_type :: "byte \<Rightarrow> Values \<Rightarrow> bool" where
  "of_type ty ws \<longleftrightarrow> list_all (\<lambda>w. valueType w = ty) ws"

lemma NewEntryValues_cases:
  "NewEntryValues vs = (if vs = [] then Inr \<lparr>en_values = [], en_vType = 0\<rparr>
     else if of_type (valueType (hd vs)) vs then Inr \<lparr>en_values = vs, en_vType = valueType (hd vs)\<rparr>
     else Inl ErrFieldTypeConflict)"
  by (cases vs) (auto simp: NewEntryValues_def of_type_def list_all_iff list_ex_iff)

lemma entry_Add_step:
  assumes "en_vType e \<noteq> 0" and "en_values e \<noteq> []"
  shows "entry_Add ws e = (if of_type (en_vType e) ws then (None, e\<lparr>en_values := en_values e @ ws\<rparr>)
    else (Some ErrFieldTypeConflict, e))"
  using assms by (cases "ws = []") (auto simp: entry_Add_def of_type_def list_all_iff list_ex_iff)

lemma entry_Add_fold:
  "en_vType e \<noteq> 0 \<Longrightarrow> en_values e \<noteq> [] \<Longrightarrow>
   fold (\<lambda>ws e. snd (entry_Add ws e)) wss e = e\<lparr>en_values := en_values e @ concat (filter (of_type (en_vType e)) wss)\<rparr>"
  by (induction wss arbitrary: e) (simp_all add: entry_Add_step)

text \<open>
  C17: An entry created from a non-empty batch of one type never mixes types: after any sequence
  of \<open>Add\<close> calls it holds the first batch followed by exactly those batches whose values all
  have that type, in order, and every value has the type the entry records. Each refused batch
  reports the type conflict.
\<close>

theorem entry_Add_trace:
  assumes "NewEntryValues vs = Inr e" and "vs \<noteq> []" and "valueType (hd vs) \<noteq> 0"
    and "e' = fold (\<lambda>ws e. snd (entry_Add ws e)) wss e"
  shows "en_values e' = vs @ concat (filter (of_type (valueType (hd vs))) wss) \<and> entry_typed e' \<and>
    fst (entry_Add ws e') = (if of_type (valueType (hd vs)) ws then None else Some ErrFieldTypeConflict)"
proof -
  have e: "e = \<lparr>en_values = vs, en_vType = valueType (hd vs)\<rparr>" "of_type (valueType (hd vs)) vs"
    using assms(1,2) by (auto simp: NewEntryValues_cases split: if_splits)
  have e': "e' = \<lparr>en_values = vs @ concat (filter (of_type (valueType (hd vs))) wss), en_vType = valueType (hd vs)\<rparr>"
    using assms e entry_Add_fold [of e wss] by simp
  have "entry_typed e'" using e(2) by (auto simp: e' entry_typed_def of_type_def list_all_iff)
  moreover have "fst (entry_Add ws e') = (if of_type (valueType (hd vs)) ws then None else Some ErrFieldTypeConflict)"
    using assms(2,3) by (subst entry_Add_step) (simp_all add: e')
  ultimately show ?thesis by (simp add: e')
qed

theorem entry_Add_trace_witness:
  "en_values (fold (\<lambda>ws e. snd (entry_Add ws e)) [[BooleanValue 2 True], [IntegerValue 2 7]]
      \<lparr>en_values = [IntegerValue 1 1], en_vType = 2\<rparr>) = [IntegerValue 1 1, IntegerValue 2 7]"
proof -
  have "NewEntryValues [IntegerValue 1 1] = Inr \<lparr>en_values = [IntegerValue 1 1], en_vType = 2\<rparr>"
    by (simp add: NewEntryValues_def value_types)
  from entry_Add_trace [OF this _ _ refl, of "[[BooleanValue 2 True], [IntegerValue 2 7]]" "[]"]
  show ?thesis by (simp add: value_types of_type_def)
qed

end
