(* ===== verification/GoSlices.thy ===== *)
theory GoSlices
  imports GoBinary "HOL-Library.List_Lexorder" "HOL-Library.Multiset"
begin

text \<open>
  What the storage engine uses of Go's slices and of the package \<open>bytes\<close>: slice expressions and
  indexing with their bounds checks, the order of byte slices, \<open>int32\<close> arithmetic, and the sort
  functions of the package \<open>sort\<close> that are not stable.
\<close>

section \<open>Byte order\<close>

text \<open>\<open>bytes.Compare\<close>\<close>

fun bytes_Compare :: "bytes \<Rightarrow> bytes \<Rightarrow> int" where
  "bytes_Compare [] [] = 0"
| "bytes_Compare [] (_ # _) = -1"
| "bytes_Compare (_ # _) [] = 1"
| "bytes_Compare (a # as) (b # bs) = (if a < b then -1 else if b < a then 1 else bytes_Compare as bs)"

lemma bytes_Compare_order [simp]:
  "bytes_Compare a b < 0 \<longleftrightarrow> a < b" "0 < bytes_Compare a b \<longleftrightarrow> b < a" "bytes_Compare a b = 0 \<longleftrightarrow> a = b"
  by (induction a b rule: bytes_Compare.induct) auto

lemma bytes_Compare_le [simp]:
  "0 \<le> bytes_Compare a b \<longleftrightarrow> b \<le> a" "bytes_Compare a b \<le> 0 \<longleftrightarrow> a \<le> b"
  using bytes_Compare_order [of a b] by (metis not_less)+

section \<open>Slice expressions\<close>

text \<open>\<open>b[lo:hi]\<close>, \<open>b[lo:]\<close> and \<open>b[i]\<close>, for a slice whose capacity is its length.\<close>

definition subslice :: "'a list \<Rightarrow> int \<Rightarrow> int \<Rightarrow> 'a list result" where
  "subslice b lo hi =
     (if 0 \<le> lo \<and> lo \<le> hi \<and> hi \<le> int (length b) then Inr (drop (nat lo) (take (nat hi) b)) else Inl Panic)"

definition slice_from :: "'a list \<Rightarrow> int \<Rightarrow> 'a list result" where
  "slice_from b lo = subslice b lo (int (length b))"

definition index_at :: "'a list \<Rightarrow> int \<Rightarrow> 'a result" where
  "index_at b i = (if 0 \<le> i \<and> i < int (length b) then Inr (b ! nat i) else Inl Panic)"

lemma slice_middle [simp]:
  "lo = int (length p) \<Longrightarrow> hi = int (length p + length m) \<Longrightarrow> subslice (p @ m @ s) lo hi = Inr m"
  by (simp add: subslice_def nat_add_distrib)

lemma slice_from_append [simp]: "lo = int (length p) \<Longrightarrow> slice_from (p @ s) lo = Inr s"
  by (simp add: slice_from_def subslice_def)

lemma index_at_middle [simp]: "i = int (length p) \<Longrightarrow> index_at (p @ x # s) i = Inr x"
  by (simp add: index_at_def nth_append)

lemma slice_InrD: "subslice b lo hi = Inr x \<Longrightarrow> 0 \<le> lo \<and> lo \<le> hi \<and> hi \<le> int (length b)"
  by (simp add: subslice_def split: if_splits)

section \<open>\<open>int32\<close>\<close>

definition i32 :: "int \<Rightarrow> int" where
  "i32 x = signed_take_bit 31 x"

lemma i32_id [simp]: "- (2 ^ 31) \<le> x \<Longrightarrow> x < 2 ^ 31 \<Longrightarrow> i32 x = x"
  unfolding i32_def by (simp add: signed_take_bit_int_eq_self)

lemma i32_bounds: "- (2 ^ 31) \<le> i32 x" "i32 x < 2 ^ 31"
  unfolding i32_def using signed_take_bit_int_greater_eq_minus_exp [of 31 x] signed_take_bit_int_less_exp [of 31 x]
  by simp_all

section \<open>Sorting\<close>

text \<open>
  \<open>sort.Sort\<close> and \<open>sort.Slice\<close> leave the order of equal elements open: \<open>srt\<close> stands for them, and
  \<open>sorts key srt\<close> is what they promise. The source calls them only on slices that are not in order yet.
\<close>

definition sorts :: "('a \<Rightarrow> 'k::linorder) \<Rightarrow> ('a list \<Rightarrow> 'a list) \<Rightarrow> bool" where
  "sorts key srt \<longleftrightarrow> (\<forall>xs. mset (srt xs) = mset xs \<and> sorted (map key (srt xs)))"

definition in_order :: "('a \<Rightarrow> 'k::linorder) \<Rightarrow> ('a list \<Rightarrow> 'a list) \<Rightarrow> 'a list \<Rightarrow> 'a list" where
  "in_order key srt xs = (if sorted (map key xs) then xs else srt xs)"

lemma sorts_sort_key [simp]: "sorts key (sort_key key)"
  by (simp add: sorts_def)

lemma in_order_props:
  assumes "sorts key srt"
  shows "mset (in_order key srt xs) = mset xs" "sorted (map key (in_order key srt xs))"
    and "length (in_order key srt xs) = length xs" "set (in_order key srt xs) = set xs"
  using assms mset_eq_length [of "in_order key srt xs" xs] mset_eq_setD [of "in_order key srt xs" xs]
  by (auto simp: sorts_def in_order_def split: if_splits)

lemma in_order_sorted: "sorted (map key xs) \<Longrightarrow> in_order key srt xs = xs"
  by (simp add: in_order_def)

end
