(* ===== verification/Cache.thy ===== *)
theory Cache
  imports Values GoSlices
begin

text \<open>
  The memory cache, \<open>storage/memory/cache.go\<close>: a skip list of series entries in an explicit heap
  of nodes. A pointer to a node is an index into the heap, \<open>nil\<close> is \<open>None\<close>, and the head node is
  found through \<open>c_head\<close>. Writers are serialised by the lock of the \<open>MemManager\<close>, so the model is
  sequential; the compare-and-swap of \<open>setNexNode\<close> and its retry loop are kept, and the proofs show
  that it never fails. The loops that follow pointers have the number of nodes and levels as fuel.
\<close>

section \<open>Nodes and the cache\<close>

type_synonym addr = nat

definition maxHeight :: nat where "maxHeight = 20"
definition cache_mask :: u32 where "cache_mask = 3"

record Node =
  nd_key :: bytes
  nd_lifeCycle :: int
  nd_entry :: "Entry option"
  nd_height :: nat
  nd_tower :: "addr option list"

type_synonym heap = "Node list"

record Cache =
  c_heap :: heap
  c_head :: "addr option"
  c_height :: nat
  c_ref :: u32
  c_Handler :: bool
  c_size :: u32

text \<open>\<open>newNode\<close> drops the error of \<open>NewEntryValues\<close> and keeps the nil entry it comes with.\<close>

definition newNode :: "bytes \<Rightarrow> Values \<Rightarrow> nat \<Rightarrow> int \<Rightarrow> Node" where
  "newNode key values height lifecycle =
     \<lparr>nd_key = key, nd_lifeCycle = lifecycle,
      nd_entry = (case NewEntryValues values of Inl _ \<Rightarrow> None | Inr e \<Rightarrow> Some e),
      nd_height = height, nd_tower = replicate maxHeight None\<rparr>"

definition NewCache :: Cache where
  "NewCache = \<lparr>c_heap = [newNode [] [] maxHeight 0], c_head = Some 0, c_height = 1, c_ref = 1,
     c_Handler = False, c_size = 0\<rparr>"

definition GetNext :: "heap \<Rightarrow> addr \<Rightarrow> nat \<Rightarrow> addr option" where
  "GetNext h node height = nd_tower (h ! node) ! height"

definition set_tower :: "addr \<Rightarrow> nat \<Rightarrow> addr option \<Rightarrow> heap \<Rightarrow> heap" where
  "set_tower p i q h = h[p := (h ! p)\<lparr>nd_tower := (nd_tower (h ! p))[i := q]\<rparr>]"

definition set_entry :: "addr \<Rightarrow> Entry \<Rightarrow> heap \<Rightarrow> heap" where
  "set_entry p e h = h[p := (h ! p)\<lparr>nd_entry := Some e\<rparr>]"

text \<open>The compare-and-swap; both branches of the source compare with \<open>old\<close>.\<close>

definition setNexNode :: "addr \<Rightarrow> nat \<Rightarrow> addr option \<Rightarrow> addr \<Rightarrow> heap \<Rightarrow> bool \<times> heap" where
  "setNexNode n height old new h =
     (if GetNext h n height = old then (True, set_tower n height (Some new) h) else (False, h))"

section \<open>Put\<close>

fun getSplices :: "nat \<Rightarrow> heap \<Rightarrow> bytes \<Rightarrow> addr \<Rightarrow> nat \<Rightarrow> (addr \<times> addr option) result" where
  "getSplices 0 h key from level = Inl Diverged"
| "getSplices (Suc f) h key from level =
     (case GetNext h from level of
        None \<Rightarrow> Inr (from, None)
      | Some nx \<Rightarrow>
          let comp = bytes_Compare (nd_key (h ! nx)) key
          in if comp < 0 then getSplices f h key nx level
             else if comp > 0 then Inr (from, Some nx)
             else Inr (nx, Some nx))"

text \<open>
  The descent over the levels \<open>i - 1, \<dots>, 0\<close>: the splice of each level starts at the one above.
  The first component is the node of the key when it is found.
\<close>

fun put_search :: "nat \<Rightarrow> heap \<Rightarrow> bytes \<Rightarrow> nat \<Rightarrow> addr option list \<Rightarrow> addr option list \<Rightarrow>
    (addr option \<times> addr option list \<times> addr option list) result" where
  "put_search f h key 0 prev nxt = Inr (None, prev, nxt)"
| "put_search f h key (Suc i) prev nxt =
     (case prev ! (i + 1) of
        None \<Rightarrow> Inl Panic
      | Some from \<Rightarrow>
          bind_result (getSplices f h key from i) (\<lambda>(p, n).
            if Some p = n then Inr (Some p, prev[i := Some p], nxt[i := n])
            else put_search f h key i (prev[i := Some p]) (nxt[i := n])))"

text \<open>
  Linking the new node \<open>x\<close> at level \<open>i\<close>, with \<open>r\<close> attempts at the compare-and-swap. \<open>Some q\<close> is
  the node of the key, had another writer inserted it.
\<close>

fun link_level :: "nat \<Rightarrow> nat \<Rightarrow> addr \<Rightarrow> bytes \<Rightarrow> addr \<Rightarrow> nat \<Rightarrow> addr option \<Rightarrow> addr option \<Rightarrow> heap \<Rightarrow>
    (addr option \<times> heap) result" where
  "link_level 0 f head key x i pv nx h = Inl Diverged"
| "link_level (Suc r) f head key x i pv nx h =
     bind_result (case pv of None \<Rightarrow> getSplices f h key head i | Some p \<Rightarrow> Inr (p, nx)) (\<lambda>(p, n).
       let h1 = set_tower x i n h; (ok, h2) = setNexNode p i n x h1
       in if ok then Inr (None, h2)
          else bind_result (getSplices f h2 key p i) (\<lambda>(p', n').
            if Some p' = n' then Inr (Some p', h2)
            else link_level r f head key x i (Some p') n' h2))"

fun link_levels :: "nat list \<Rightarrow> nat \<Rightarrow> addr \<Rightarrow> bytes \<Rightarrow> addr \<Rightarrow> addr option list \<Rightarrow> addr option list \<Rightarrow> heap \<Rightarrow>
    (addr option \<times> heap) result" where
  "link_levels [] f head key x prev nxt h = Inr (None, h)"
| "link_levels (i # is) f head key x prev nxt h =
     bind_result (link_level f f head key x i (prev ! i) (nxt ! i) h) (\<lambda>(found, h').
       case found of Some q \<Rightarrow> Inr (Some q, h') | None \<Rightarrow> link_levels is f head key x prev nxt h')"

text \<open>\<open>rand.Uint32\<close> is a parameter: \<open>rnd h\<close> is the draw made at height \<open>h\<close>.\<close>

function random_loop :: "(nat \<Rightarrow> u32) \<Rightarrow> nat \<Rightarrow> nat" where
  "random_loop rnd h = (if h < maxHeight \<and> rnd h AND cache_mask = 0 then random_loop rnd (h + 1) else h)"
  by pat_completeness auto
termination by (relation "measure (\<lambda>(_, h). maxHeight - h)") auto

declare random_loop.simps [simp del]

definition randomHeight :: "(nat \<Rightarrow> u32) \<Rightarrow> nat" where
  "randomHeight rnd = random_loop rnd 1"

text \<open>\<open>entry.Add\<close> through the node's pointer: on a nil entry only an empty batch does not panic.\<close>

definition node_Add :: "addr \<Rightarrow> Values \<Rightarrow> Cache \<Rightarrow> (error option \<times> Cache) result" where
  "node_Add p values c =
     (case nd_entry (c_heap c ! p) of
        None \<Rightarrow> if length values = 0 then Inr (None, c) else Inl Panic
      | Some e \<Rightarrow> let (err, e') = entry_Add values e in Inr (err, c\<lparr>c_heap := set_entry p e' (c_heap c)\<rparr>))"

text \<open>The arrays of node pointers start with nil everywhere.\<close>

definition nils :: "addr option list" where
  "nils = replicate (maxHeight + 1) None"

definition fuel :: "heap \<Rightarrow> nat" where
  "fuel h = length h + maxHeight + 1"

definition Put :: "(nat \<Rightarrow> u32) \<Rightarrow> bytes \<Rightarrow> Values \<Rightarrow> int \<Rightarrow> Cache \<Rightarrow> (error option \<times> Cache) result" where
  "Put rnd key values lifecycle c0 =
     (case c_head c0 of
        None \<Rightarrow> Inl Panic
      | Some head \<Rightarrow>
          let c = c0\<lparr>c_size := c_size c0 + of_nat (length key + Values_Size values)\<rparr>;
              h = c_heap c; f = fuel h; oldHeight = c_height c;
              prev = nils[oldHeight := Some head];
              nxt = nils
          in bind_result (put_search f h key oldHeight prev nxt) (\<lambda>(found, prev, nxt).
               case found of
                 Some p \<Rightarrow> node_Add p values c
               | None \<Rightarrow>
                   let height = randomHeight rnd;
                       c1 = (if height > oldHeight then c\<lparr>c_height := height\<rparr> else c);
                       x = length h;
                       h1 = h @ [newNode key values height lifecycle]
                   in bind_result (link_levels [0..<height] f head key x prev nxt h1) (\<lambda>(found, h2).
                        case found of
                          Some q \<Rightarrow> node_Add q values (c1\<lparr>c_heap := h2\<rparr>)
                        | None \<Rightarrow> Inr (None, c1\<lparr>c_heap := h2\<rparr>))))"

section \<open>Searches\<close>

text \<open>One loop for the three searches: \<open>go\<close> says whether to move right to the next node.\<close>

fun skip_loop :: "nat \<Rightarrow> heap \<Rightarrow> (addr \<Rightarrow> bool) \<Rightarrow> addr \<Rightarrow> nat \<Rightarrow> (addr \<times> addr option) result" where
  "skip_loop 0 h go cur level = Inl Diverged"
| "skip_loop (Suc f) h go cur level =
     (let nx = GetNext h cur level
      in case nx of
           Some q \<Rightarrow> if go q then skip_loop f h go q level
                     else if level = 0 then Inr (cur, nx) else skip_loop f h go cur (level - 1)
         | None \<Rightarrow> if level = 0 then Inr (cur, nx) else skip_loop f h go cur (level - 1))"

definition skip_search :: "(addr \<Rightarrow> bool) \<Rightarrow> Cache \<Rightarrow> (addr \<times> addr option) result" where
  "skip_search go c =
     (case c_head c of
        None \<Rightarrow> Inl Panic
      | Some head \<Rightarrow> skip_loop (fuel (c_heap c)) (c_heap c) go head (c_height c - 1))"

definition findGreaterOrEqual :: "bytes \<Rightarrow> Cache \<Rightarrow> addr option result" where
  "findGreaterOrEqual target c =
     bind_result (skip_search (\<lambda>q. bytes_Compare (nd_key (c_heap c ! q)) target < 0) c) (\<lambda>(_, nx). Inr nx)"

definition findLessThan :: "bytes \<Rightarrow> Cache \<Rightarrow> addr option result" where
  "findLessThan target c =
     bind_result (skip_search (\<lambda>q. bytes_Compare (nd_key (c_heap c ! q)) target < 0) c) (\<lambda>(cur, _).
       if Some cur = c_head c then Inr None else Inr (Some cur))"

definition findLast :: "Cache \<Rightarrow> addr option result" where
  "findLast c =
     bind_result (skip_search (\<lambda>q. True) c) (\<lambda>(cur, _). if Some cur = c_head c then Inr None else Inr (Some cur))"

section \<open>The other operations\<close>

text \<open>\<open>Get\<close> returns the entry pointer: nil, or the address of the node that holds the entry.\<close>

definition Get :: "bytes \<Rightarrow> Cache \<Rightarrow> addr option result" where
  "Get key c =
     bind_result (findGreaterOrEqual key c) (\<lambda>n.
       case n of
         None \<Rightarrow> Inr None
       | Some p \<Rightarrow> Inr (if nd_entry (c_heap c ! p) = None then None else Some p))"

definition DecreaseSize :: "u32 \<Rightarrow> Cache \<Rightarrow> Cache" where
  "DecreaseSize delta c = c\<lparr>c_size := c_size c + NOT (delta - 1)\<rparr>"

definition cache_Delete :: "bytes \<Rightarrow> Cache \<Rightarrow> Cache result" where
  "cache_Delete key c =
     bind_result (findGreaterOrEqual key c) (\<lambda>n.
       case n of
         None \<Rightarrow> Inr c
       | Some p \<Rightarrow>
           (case nd_entry (c_heap c ! p) of
              None \<Rightarrow> Inl Panic
            | Some e \<Rightarrow>
                let c1 = DecreaseSize (of_nat (entry_Size e)) c
                in Inr (c1\<lparr>c_heap := set_entry p (entry_Clean e) (c_heap c1)\<rparr>)))"

definition cache_Empty :: "Cache \<Rightarrow> bool result" where
  "cache_Empty c = bind_result (findLast c) (\<lambda>n. Inr (n = None))"

definition Ref :: "Cache \<Rightarrow> Cache" where
  "Ref c = c\<lparr>c_ref := c_ref c + 1\<rparr>"

text \<open>\<open>Deref\<close> also says whether the handler ran.\<close>

definition Deref :: "Cache \<Rightarrow> bool \<times> Cache" where
  "Deref c =
     (let c1 = c\<lparr>c_ref := c_ref c + (-1)\<rparr>
      in if sint (c_ref c1) > 0 then (False, c1) else (c_Handler c1, c1\<lparr>c_head := None\<rparr>))"

fun nodes_loop :: "nat \<Rightarrow> heap \<Rightarrow> addr option \<Rightarrow> addr list \<Rightarrow> addr list result" where
  "nodes_loop 0 h p ns = Inl Diverged"
| "nodes_loop (Suc f) h p ns =
     (case p of None \<Rightarrow> Inr ns | Some q \<Rightarrow> nodes_loop f h (GetNext h q 0) (ns @ [q]))"

definition GetAllNodes :: "Cache \<Rightarrow> addr list result" where
  "GetAllNodes c =
     (case c_head c of
        None \<Rightarrow> Inl Panic
      | Some head \<Rightarrow> nodes_loop (fuel (c_heap c)) (c_heap c) (GetNext (c_heap c) head 0) [])"

definition cache_Count :: "Cache \<Rightarrow> nat result" where
  "cache_Count c = bind_result (GetAllNodes c) (\<lambda>ns. Inr (length ns))"

fun dedup_nodes :: "nat \<Rightarrow> addr option \<Rightarrow> heap \<Rightarrow> heap result" where
  "dedup_nodes 0 p h = Inl Diverged"
| "dedup_nodes (Suc f) p h =
     (case p of
        None \<Rightarrow> Inr h
      | Some q \<Rightarrow>
          (case nd_entry (h ! q) of
             None \<Rightarrow> Inl Panic
           | Some e \<Rightarrow> let h' = set_entry q (entry_Deduplicate e) h in dedup_nodes f (GetNext h' q 0) h'))"

definition cache_Deduplicate :: "Cache \<Rightarrow> Cache result" where
  "cache_Deduplicate c =
     (case c_head c of
        None \<Rightarrow> Inl Panic
      | Some head \<Rightarrow>
          bind_result (dedup_nodes (fuel (c_heap c)) (GetNext (c_heap c) head 0) (c_heap c)) (\<lambda>h.
            Inr (c\<lparr>c_heap := h\<rparr>)))"

definition cache_Split :: "nat \<Rightarrow> Cache \<Rightarrow> (addr list list \<times> Cache) result" where
  "cache_Split n c =
     bind_result (GetAllNodes c) (\<lambda>nodes.
       let total = length nodes
       in Inr (map (\<lambda>i. let start = i * total div n; stop = (i + 1) * total div n in drop start (take stop nodes)) [0..<n],
               (Ref ^^ n) c))"

section \<open>The shape of the heap\<close>

text \<open>The list of nodes reached from \<open>p\<close> along level \<open>i\<close>.\<close>

fun path :: "heap \<Rightarrow> nat \<Rightarrow> addr \<Rightarrow> addr list \<Rightarrow> bool" where
  "path h i p [] = (GetNext h p i = None)"
| "path h i p (q # L) = (GetNext h p i = Some q \<and> path h i q L)"

text \<open>The nodes that reach level \<open>i\<close>.\<close>

definition lev :: "heap \<Rightarrow> nat \<Rightarrow> addr list \<Rightarrow> addr list" where
  "lev h i L = filter (\<lambda>p. i < nd_height (h ! p)) L"

definition hd_opt :: "'a list \<Rightarrow> 'a option" where
  "hd_opt xs = (case xs of [] \<Rightarrow> None | x # _ \<Rightarrow> Some x)"

lemma hd_opt_simps [simp]: "hd_opt [] = None" "hd_opt (x # xs) = Some x"
  by (simp_all add: hd_opt_def)

text \<open>
  The skip list \<open>h\<close> of height \<open>ht\<close> holds the nodes \<open>L\<close>, in ascending order of their keys: node \<open>0\<close>
  is the head, every other node is in \<open>L\<close>, and each level links the nodes of \<open>L\<close> that reach it.
\<close>

definition skip_list :: "heap \<Rightarrow> nat \<Rightarrow> addr list \<Rightarrow> bool" where
  "skip_list h ht L \<longleftrightarrow>
     h \<noteq> [] \<and> distinct L \<and> set L = {1..<length h} \<and>
     sorted_wrt (\<lambda>p q. nd_key (h ! p) < nd_key (h ! q)) L \<and>
     (\<forall>p < length h. length (nd_tower (h ! p)) = maxHeight) \<and>
     (\<forall>i < maxHeight. path h i 0 (lev h i L)) \<and>
     1 \<le> ht \<and> ht \<le> maxHeight \<and>
     (\<forall>p \<in> set L. 1 \<le> nd_height (h ! p) \<and> nd_height (h ! p) \<le> ht)"

lemma lev_append [simp]: "lev h i (A @ B) = lev h i A @ lev h i B"
  by (simp add: lev_def)

lemma lev_Nil [simp]: "lev h i [] = []"
  by (simp add: lev_def)

lemma set_lev: "set (lev h i L) = {p \<in> set L. i < nd_height (h ! p)}"
  by (simp add: lev_def)

lemma skip_listD:
  assumes "skip_list h ht L"
  shows "h \<noteq> []" "distinct L" "set L = {1..<length h}" "sorted_wrt (\<lambda>p q. nd_key (h ! p) < nd_key (h ! q)) L"
    "\<And>p. p < length h \<Longrightarrow> length (nd_tower (h ! p)) = maxHeight"
    "\<And>i. i < maxHeight \<Longrightarrow> path h i 0 (lev h i L)" "1 \<le> ht" "ht \<le> maxHeight"
    "\<And>p. p \<in> set L \<Longrightarrow> 1 \<le> nd_height (h ! p)" "\<And>p. p \<in> set L \<Longrightarrow> nd_height (h ! p) \<le> ht"
  using assms unfolding skip_list_def by blast+

lemma lev_0: "skip_list h ht (A @ B) \<Longrightarrow> lev h 0 A = A" "skip_list h ht (A @ B) \<Longrightarrow> lev h 0 B = B"
  using skip_listD(9) [of h ht "A @ B"] by (simp_all add: lev_def filter_id_conv Suc_le_eq)

lemma lev_top: "skip_list h ht L \<Longrightarrow> ht \<le> i \<Longrightarrow> lev h i L = []"
  using skip_listD(10) [of h ht L] by (fastforce simp: lev_def filter_empty_conv)

lemma path_suffix: "path h i p (A @ B) \<Longrightarrow> path h i (last (p # A)) B"
  by (induction A arbitrary: p) auto

lemma path_hd: "path h i p B \<Longrightarrow> GetNext h p i = hd_opt B"
  by (cases B) simp_all

text \<open>Seen from the node that ends the prefix \<open>A1\<close>, level \<open>i\<close> continues with the later nodes.\<close>

lemma path_from:
  assumes "skip_list h ht (A1 @ L2)" and "i < maxHeight" and "A1 = [] \<or> i < nd_height (h ! last A1)"
  shows "path h i (last (0 # A1)) (lev h i L2)"
proof -
  have "path h i 0 (lev h i A1 @ lev h i L2)" using skip_listD(6) [OF assms(1,2)] by simp
  then have "path h i (last (0 # lev h i A1)) (lev h i L2)" by (rule path_suffix)
  moreover have "last (0 # lev h i A1) = last (0 # A1)"
    using assms(3) by (cases A1 rule: rev_cases) (auto simp: lev_def)
  ultimately show ?thesis by simp
qed

text \<open>The last node of a level, as the end of a prefix.\<close>

lemma last_lev_split:
  obtains A1 A2 where "A = A1 @ A2" "last (0 # lev h i A) = last (0 # A1)" "A1 = [] \<or> i < nd_height (h ! last A1)"
proof (cases "lev h i A" rule: rev_cases)
  case Nil
  then show thesis by (intro that [of "[]" A]) simp_all
next
  case (snoc L q)
  then have "q \<in> set (lev h i A)" by simp
  then have q: "q \<in> set A" "i < nd_height (h ! q)" by (auto simp: set_lev)
  then obtain A1 A2 where "A = A1 @ q # A2" by (meson split_list)
  then show thesis using snoc q by (intro that [of "A1 @ [q]" A2]) simp_all
qed

section \<open>The splices\<close>

lemma getSplices_path:
  "path h i p (A @ B) \<Longrightarrow> (\<forall>q \<in> set A. nd_key (h ! q) < k) \<Longrightarrow> (\<forall>q \<in> set B. \<not> nd_key (h ! q) < k) \<Longrightarrow> length A < f \<Longrightarrow>
   getSplices f h k p i =
     Inr (case B of [] \<Rightarrow> (last (p # A), None)
          | q # _ \<Rightarrow> if nd_key (h ! q) = k then (q, Some q) else (last (p # A), Some q))"
proof (induction A arbitrary: p f)
  case Nil
  then obtain f' where "f = Suc f'" by (cases f) auto
  then show ?case using Nil by (cases B) (auto simp: Let_def)
next
  case (Cons a A)
  then obtain f' where "f = Suc f'" by (cases f) auto
  then show ?case using Cons by (simp split: list.splits)
qed

text \<open>The nodes before and from the key \<open>k\<close>.\<close>

definition below :: "heap \<Rightarrow> bytes \<Rightarrow> addr list \<Rightarrow> addr list" where
  "below h k L = takeWhile (\<lambda>p. nd_key (h ! p) < k) L"

definition from_key :: "heap \<Rightarrow> bytes \<Rightarrow> addr list \<Rightarrow> addr list" where
  "from_key h k L = dropWhile (\<lambda>p. nd_key (h ! p) < k) L"

lemma below_from: "L = below h k L @ from_key h k L"
  by (simp add: below_def from_key_def)

lemma below_less: "p \<in> set (below h k L) \<Longrightarrow> nd_key (h ! p) < k"
  by (auto simp: below_def dest: set_takeWhileD)

lemma from_key_ge:
  assumes "sorted_wrt (\<lambda>p q. nd_key (h ! p) < nd_key (h ! q)) L" and "q \<in> set (from_key h k L)"
  shows "\<not> nd_key (h ! q) < k"
proof (cases "from_key h k L")
  case (Cons p B)
  then have p: "\<not> nd_key (h ! p) < k" unfolding from_key_def by (simp add: dropWhile_eq_Cons_conv)
  have "sorted_wrt (\<lambda>p q. nd_key (h ! p) < nd_key (h ! q)) (below h k L @ p # B)"
    using assms(1) below_from [of L h k] Cons by simp
  then show ?thesis using assms(2) Cons p by (auto simp: sorted_wrt_append)
qed (use assms in simp)

lemma from_key_present:
  assumes "sorted_wrt (\<lambda>p q. nd_key (h ! p) < nd_key (h ! q)) L" and "q \<in> set L" and "nd_key (h ! q) = k"
  obtains B where "from_key h k L = q # B"
proof -
  have "q \<in> set (from_key h k L)" using assms(2,3) below_from [of L h k] below_less [of q h k L] by (metis Un_iff less_irrefl set_append)
  then obtain p B where pB: "from_key h k L = p # B" by (cases "from_key h k L") auto
  have "q = p"
  proof (rule ccontr)
    assume "q \<noteq> p"
    then have "q \<in> set B" using \<open>q \<in> set (from_key h k L)\<close> pB by simp
    have "sorted_wrt (\<lambda>p q. nd_key (h ! p) < nd_key (h ! q)) (below h k L @ p # B)"
      using assms(1) below_from [of L h k] pB by simp
    then have "nd_key (h ! p) < k" using \<open>q \<in> set B\<close> assms(3) by (auto simp: sorted_wrt_append)
    then show False using from_key_ge [OF assms(1), of p k] pB by simp
  qed
  then show thesis using pB that by simp
qed

text \<open>The two ends of the splice for \<open>k\<close> at level \<open>i\<close>.\<close>

definition before :: "heap \<Rightarrow> bytes \<Rightarrow> addr list \<Rightarrow> nat \<Rightarrow> addr" where
  "before h k L i = last (0 # lev h i (below h k L))"

definition after :: "heap \<Rightarrow> bytes \<Rightarrow> addr list \<Rightarrow> nat \<Rightarrow> addr option" where
  "after h k L i = hd_opt (lev h i (from_key h k L))"

text \<open>The splice at level \<open>i\<close>, searched from the splice of a level above it.\<close>

lemma getSplices_level:
  assumes sl: "skip_list h ht L" and i: "i < maxHeight" and j: "i \<le> j" and f: "length h \<le> f"
  shows "getSplices f h k (before h k L j) i =
     Inr (case lev h i (from_key h k L) of [] \<Rightarrow> (before h k L i, None)
          | q # _ \<Rightarrow> if nd_key (h ! q) = k then (q, Some q) else (before h k L i, Some q))"
proof -
  let ?A = "below h k L" and ?B = "from_key h k L"
  obtain A1 A2 where A: "?A = A1 @ A2" "before h k L j = last (0 # A1)" "A1 = [] \<or> j < nd_height (h ! last A1)"
    unfolding before_def by (rule last_lev_split)
  have L: "L = A1 @ A2 @ ?B" using below_from [of L h k] A(1) by simp
  have "path h i (last (0 # A1)) (lev h i A2 @ lev h i ?B)"
    using path_from [of h ht A1 "A2 @ ?B" i] sl L i j A(3) by auto
  moreover have "\<forall>q \<in> set (lev h i A2). nd_key (h ! q) < k"
    using below_less [of _ h k L] A(1) by (auto simp: set_lev)
  moreover have "\<forall>q \<in> set (lev h i ?B). \<not> nd_key (h ! q) < k"
    using from_key_ge [OF skip_listD(4) [OF sl]] by (auto simp: set_lev)
  moreover have "length (lev h i A2) < f"
  proof -
    have "length (lev h i A2) \<le> length A2" by (simp add: lev_def)
    also have "\<dots> \<le> length L" using L by (metis le_add1 le_add2 length_append le_trans)
    also have "\<dots> = card {1..<length h}" using skip_listD(2,3) [OF sl] distinct_card by fastforce
    also have "\<dots> < f" using skip_listD(1) [OF sl] f by (cases h) simp_all
    finally show ?thesis .
  qed
  ultimately have "getSplices f h k (last (0 # A1)) i =
     Inr (case lev h i ?B of [] \<Rightarrow> (last (last (0 # A1) # lev h i A2), None)
          | q # _ \<Rightarrow> if nd_key (h ! q) = k then (q, Some q) else (last (last (0 # A1) # lev h i A2), Some q))"
    by (rule getSplices_path)
  moreover have "last (last (0 # A1) # lev h i A2) = before h k L i"
    using A(1,3) j by (cases A1 rule: rev_cases) (auto simp: lev_def before_def)
  ultimately show ?thesis unfolding A(2) by (simp only:)
qed

lemma getSplices_absent:
  assumes sl: "skip_list h ht L" and i: "i < maxHeight" and j: "i \<le> j" and f: "length h \<le> f"
    and no: "\<And>p. p \<in> set L \<Longrightarrow> nd_key (h ! p) = k \<Longrightarrow> nd_height (h ! p) \<le> i"
  shows "getSplices f h k (before h k L j) i =
      Inr (before h k L i, after h k L i)"
    and "Some (before h k L i) \<noteq> after h k L i"
proof -
  let ?A = "below h k L" and ?B = "from_key h k L"
  have hd: "q \<in> set ?B" "i < nd_height (h ! q)" if "lev h i ?B = q # R" for q R
    using that set_lev [of h i ?B] by auto
  have inL: "q \<in> set ?B \<Longrightarrow> q \<in> set L" for q using below_from [of L h k] by (metis Un_iff set_append)
  show "getSplices f h k (before h k L j) i = Inr (before h k L i, after h k L i)"
  proof (cases "lev h i ?B")
    case (Cons q R)
    then have "nd_key (h ! q) \<noteq> k" using hd no inL by fastforce
    then show ?thesis using getSplices_level [OF sl i j f, of k] Cons by (simp add: after_def)
  qed (use getSplices_level [OF sl i j f, of k] in \<open>simp add: after_def\<close>)
  have "before h k L i \<in> insert 0 (set ?A)"
    using last_in_set [of "lev h i ?A"] by (cases "lev h i ?A = []") (auto simp: set_lev before_def)
  moreover have "insert 0 (set ?A) \<inter> set ?B = {}"
  proof -
    have "distinct (?A @ ?B)" "0 \<notin> set (?A @ ?B)"
      using skip_listD(2,3) [OF sl] below_from [of L h k] by (simp_all only: atLeastLessThan_iff) simp_all
    then show ?thesis by auto
  qed
  ultimately show "Some (before h k L i) \<noteq> after h k L i"
    using hd by (cases "lev h i ?B") (fastforce simp: after_def)+
qed

lemma put_search_found:
  assumes sl: "skip_list h ht L" and q: "q \<in> set L" "nd_key (h ! q) = k" and f: "length h \<le> f"
  shows "nd_height (h ! q) \<le> n \<Longrightarrow> n \<le> maxHeight \<Longrightarrow> length prev = maxHeight + 1 \<Longrightarrow>
    prev ! n = Some (before h k L n) \<Longrightarrow>
    \<exists>prev' nxt'. put_search f h k n prev nxt = Inr (Some q, prev', nxt')"
proof (induction n arbitrary: prev nxt)
  case 0
  then show ?case using skip_listD(9) [OF sl q(1)] by simp
next
  case (Suc i)
  have i: "i < maxHeight" using Suc.prems(2) by simp
  show ?case
  proof (cases "i < nd_height (h ! q)")
    case True
    obtain B where "from_key h k L = q # B" using from_key_present [OF skip_listD(4) [OF sl] q] .
    then have "lev h i (from_key h k L) = q # lev h i B" using True by (simp add: lev_def)
    then have "getSplices f h k (before h k L (Suc i)) i = Inr (q, Some q)"
      using getSplices_level [OF sl i _ f, of "Suc i" k] q(2) by simp
    then show ?thesis using Suc.prems(4) by simp
  next
    case False
    have no: "nd_height (h ! p) \<le> i" if p: "p \<in> set L" "nd_key (h ! p) = k" for p
    proof -
      obtain B B' where "from_key h k L = q # B" "from_key h k L = p # B'"
        using from_key_present [OF skip_listD(4) [OF sl] q] from_key_present [OF skip_listD(4) [OF sl] p] by metis
      then show ?thesis using False by simp
    qed
    note gs = getSplices_absent [OF sl i le_SucI [OF order_refl] f no]
    show ?thesis
      using Suc.IH [of "prev[i := Some (before h k L i)]" "nxt[i := after h k L i]"]
        Suc.prems False gs by simp
  qed
qed

lemma put_search_absent:
  assumes sl: "skip_list h ht L" and no: "\<And>p. p \<in> set L \<Longrightarrow> nd_key (h ! p) \<noteq> k" and f: "length h \<le> f"
  shows "n \<le> maxHeight \<Longrightarrow> length prev = maxHeight + 1 \<Longrightarrow> length nxt = maxHeight + 1 \<Longrightarrow>
    prev ! n = Some (before h k L n) \<Longrightarrow>
    \<exists>prev' nxt'. put_search f h k n prev nxt = Inr (None, prev', nxt') \<and>
      (\<forall>j < n. prev' ! j = Some (before h k L j) \<and> nxt' ! j = after h k L j) \<and>
      (\<forall>j \<ge> n. prev' ! j = prev ! j \<and> nxt' ! j = nxt ! j)"
proof (induction n arbitrary: prev nxt)
  case (Suc i)
  have i: "i < maxHeight" using Suc.prems(1) by simp
  let ?p = "prev[i := Some (before h k L i)]" and ?n = "nxt[i := after h k L i]"
  have none: "nd_height (h ! p) \<le> i" if "p \<in> set L" "nd_key (h ! p) = k" for p using no that by blast
  note gs = getSplices_absent [OF sl i le_SucI [OF order_refl] f none]
  have step: "put_search f h k (Suc i) prev nxt = put_search f h k i ?p ?n"
    using Suc.prems(4) gs by simp
  obtain prev' nxt' where IH: "put_search f h k i ?p ?n = Inr (None, prev', nxt')"
      "\<forall>j < i. prev' ! j = Some (before h k L j) \<and> nxt' ! j = after h k L j"
      "\<forall>j \<ge> i. prev' ! j = ?p ! j \<and> nxt' ! j = ?n ! j"
  proof -
    have "i \<le> maxHeight" "length ?p = maxHeight + 1" "length ?n = maxHeight + 1" "?p ! i = Some (before h k L i)"
      using Suc.prems i by simp_all
    then show thesis using Suc.IH [of ?p ?n] that by blast
  qed
  have "prev' ! j = Some (before h k L j) \<and> nxt' ! j = after h k L j" if "j < Suc i" for j
    using that IH(2,3) Suc.prems i by (cases "j = i") simp_all
  moreover have "prev' ! j = prev ! j \<and> nxt' ! j = nxt ! j" if "j \<ge> Suc i" for j
    using that IH(3) by simp
  ultimately show ?case unfolding step IH(1) by blast
qed simp

section \<open>Linking a new node\<close>

text \<open>What linking leaves as it is: everything but the towers' pointers.\<close>

definition shape :: "heap \<Rightarrow> (bytes \<times> int \<times> Entry option \<times> nat \<times> nat) list" where
  "shape h = map (\<lambda>n. (nd_key n, nd_lifeCycle n, nd_entry n, nd_height n, length (nd_tower n))) h"

lemma shape_set_tower [simp]: "shape (set_tower p i q h) = shape h"
proof (cases "p < length h")
  case True
  then show ?thesis by (simp add: shape_def set_tower_def map_update list_update_same_conv)
qed (simp add: shape_def set_tower_def list_update_beyond)

lemma shapeD:
  assumes "shape h' = shape h"
  shows "length h' = length h"
    and "p < length h \<Longrightarrow> nd_key (h' ! p) = nd_key (h ! p) \<and> nd_lifeCycle (h' ! p) = nd_lifeCycle (h ! p) \<and>
      nd_entry (h' ! p) = nd_entry (h ! p) \<and> nd_height (h' ! p) = nd_height (h ! p) \<and>
      length (nd_tower (h' ! p)) = length (nd_tower (h ! p))"
proof -
  show l: "length h' = length h" using arg_cong [OF assms, of length] by (simp add: shape_def)
  assume "p < length h"
  then show "nd_key (h' ! p) = nd_key (h ! p) \<and> nd_lifeCycle (h' ! p) = nd_lifeCycle (h ! p) \<and>
      nd_entry (h' ! p) = nd_entry (h ! p) \<and> nd_height (h' ! p) = nd_height (h ! p) \<and>
      length (nd_tower (h' ! p)) = length (nd_tower (h ! p))"
    using arg_cong [OF assms, of "\<lambda>xs. xs ! p"] l by (simp add: shape_def)
qed

lemma GetNext_set_tower:
  "p < length h \<Longrightarrow> i < length (nd_tower (h ! p)) \<Longrightarrow>
   GetNext (set_tower p i q h) r j = (if r = p \<and> j = i then q else GetNext h r j)"
  by (cases "r < length h") (auto simp: GetNext_def set_tower_def nth_list_update)

lemma path_cong: "(\<And>r. GetNext h' r i = GetNext h r i) \<Longrightarrow> path h' i p L = path h i p L"
  by (induction L arbitrary: p) simp_all

lemma path_insert:
  "path h i p (A @ B) \<Longrightarrow> distinct (x # p # A @ B) \<Longrightarrow>
   (\<And>r. GetNext h' r i = (if r = last (p # A) then Some x else if r = x then hd_opt B else GetNext h r i)) \<Longrightarrow>
   path h' i p (A @ x # B)"
proof (induction A arbitrary: p)
  case Nil
  have "path h' i q L = path h i q L" if "q \<noteq> p" "q \<noteq> x" "p \<notin> set L" "x \<notin> set L" for q L
    using that Nil.prems(3) by (induction L arbitrary: q) auto
  then show ?case using Nil by (cases B) auto
next
  case (Cons a A)
  have "last (p # a # A) = last (a # A)" "last (a # A) \<noteq> p" using Cons.prems(2) last_in_set [of "a # A"] by auto
  then show ?case using Cons.IH [of a] Cons.prems by auto
qed

lemma link_level_ok:
  assumes "path h i 0 (A @ B)" and "distinct (x # 0 # A @ B)" and "x < length h" and "set A \<subseteq> {0..<length h}"
    and "\<forall>p < length h. i < length (nd_tower (h ! p))"
    and "(case pv of None \<Rightarrow> getSplices f h k 0 i | Some p \<Rightarrow> Inr (p, nx)) = Inr (last (0 # A), hd_opt B)"
    and "h' = set_tower (last (0 # A)) i (Some x) (set_tower x i (hd_opt B) h)"
  shows "link_level (Suc r) f 0 k x i pv nx h = Inr (None, h')" and "path h' i 0 (A @ x # B)"
    and "j \<noteq> i \<Longrightarrow> path h' j p L = path h j p L" and "shape h' = shape h"
proof -
  let ?p = "last (0 # A)" and ?h1 = "set_tower x i (hd_opt B) h"
  have p: "?p < length h" using assms(3,4) subsetD [OF assms(4) last_in_set] by (cases "A = []") auto
  have "?p \<noteq> x" using assms(2) last_in_set [of A] by (cases "A = []") auto
  have l1: "length ?h1 = length h" "\<forall>p < length h. i < length (nd_tower (?h1 ! p))"
    using shapeD [of ?h1 h] assms(5) by simp_all
  have gn1: "GetNext ?h1 q j = (if q = x \<and> j = i then hd_opt B else GetNext h q j)" for q j
    using assms(3,5) by (simp add: GetNext_set_tower)
  have gn: "GetNext h' q j = (if q = ?p \<and> j = i then Some x else if q = x \<and> j = i then hd_opt B else GetNext h q j)" for q j
    using p l1 by (simp add: assms(7) GetNext_set_tower gn1 del: last.simps)
  have "GetNext h ?p i = hd_opt B" using path_hd [OF path_suffix [OF assms(1)]] .
  then have "GetNext ?h1 ?p i = hd_opt B" using gn1 \<open>?p \<noteq> x\<close> by simp
  then show "link_level (Suc r) f 0 k x i pv nx h = Inr (None, h')"
    using assms(6,7) by (simp add: setNexNode_def Let_def del: last.simps)
  show "path h' i 0 (A @ x # B)"
    by (rule path_insert [OF assms(1,2)]) (simp add: gn del: last.simps)
  show "j \<noteq> i \<Longrightarrow> path h' j p L = path h j p L"
    by (intro path_cong) (simp add: gn)
  show "shape h' = shape h" by (simp add: assms(7))
qed

text \<open>
  The new node \<open>x\<close> is linked at the levels below its height, between the nodes before and from its
  key. At every level the splice is the one of the search, or at a level above the old height the
  empty one.
\<close>

lemma link_levels_ok:
  assumes x: "distinct (x # 0 # A @ B)" "x < length h1" "set (A @ B) \<subseteq> {0..<length h1}"
    and t: "\<forall>p < length h1. length (nd_tower (h1 ! p)) = maxHeight"
    and h: "height \<le> maxHeight" and f: "0 < f"
    and pv: "\<And>h i. i < height \<Longrightarrow> path h i 0 (lev h1 i A @ lev h1 i B) \<Longrightarrow>
      (case prev ! i of None \<Rightarrow> getSplices f h k 0 i | Some p \<Rightarrow> Inr (p, nxt ! i)) =
      Inr (last (0 # lev h1 i A), hd_opt (lev h1 i B))"
  shows "i \<le> height \<Longrightarrow> shape h = shape h1 \<Longrightarrow>
    \<forall>j < maxHeight. path h j 0 (lev h1 j A @ (if j < i then [x] else []) @ lev h1 j B) \<Longrightarrow>
    \<exists>h'. link_levels [i..<height] f 0 k x prev nxt h = Inr (None, h') \<and> shape h' = shape h1 \<and>
      (\<forall>j < maxHeight. path h' j 0 (lev h1 j A @ (if j < height then [x] else []) @ lev h1 j B))"
proof (induction "height - i" arbitrary: i h)
  case 0
  then show ?case by simp
next
  case (Suc n)
  then have i: "i < height" "i < maxHeight" using h by simp_all
  let ?A = "lev h1 i A" and ?B = "lev h1 i B"
  define h' where "h' = set_tower (last (0 # ?A)) i (Some x) (set_tower x i (hd_opt ?B) h)"
  have sub: "set ?A \<subseteq> set A" "set ?B \<subseteq> set B" by (auto simp: set_lev)
  have p: "path h i 0 (?A @ ?B)" using Suc.prems(3) i by force
  have d: "distinct (x # 0 # ?A @ ?B)" using x(1) sub by (auto simp: lev_def)
  have "length h = length h1" "\<forall>p < length h. i < length (nd_tower (h ! p))" "set ?A \<subseteq> {0..<length h}"
    using shapeD [OF Suc.prems(2)] t i(2) x(3) sub by auto
  note ll = link_level_ok [OF p d _ this(3,2) pv [OF i(1) p] h'_def]
  obtain r where r: "f = Suc r" using f by (cases f) auto
  have "path h' j 0 (lev h1 j A @ (if j < Suc i then [x] else []) @ lev h1 j B)" if "j < maxHeight" for j
    using that Suc.prems(3) ll(2,3) x(2) \<open>length h = length h1\<close> by (cases "j = i") (simp_all add: less_Suc_eq)
  moreover have "shape h' = shape h1" using ll(4) x(2) \<open>length h = length h1\<close> Suc.prems(2) by simp
  moreover have "link_levels [i..<height] f 0 k x prev nxt h = link_levels [Suc i..<height] f 0 k x prev nxt h'"
    using ll(1) [of r] r i(1) x(2) \<open>length h = length h1\<close> by (simp add: upt_conv_Cons)
  ultimately show ?case using Suc.hyps(1) [of "Suc i" h'] Suc.hyps(2) i(1) by auto
qed

lemma randomHeight_bounds: "1 \<le> randomHeight rnd" "randomHeight rnd \<le> maxHeight"
proof -
  have "h \<le> random_loop rnd h \<and> (h \<le> maxHeight \<longrightarrow> random_loop rnd h \<le> maxHeight)" for h
  proof (induction rnd h rule: random_loop.induct)
    case (1 rnd h)
    then show ?case by (cases "h < maxHeight \<and> rnd h AND cache_mask = 0") (auto simp: random_loop.simps [of rnd h])
  qed
  from this [of 1] show "1 \<le> randomHeight rnd" "randomHeight rnd \<le> maxHeight"
    by (simp_all add: randomHeight_def maxHeight_def)
qed

lemma skip_list_entry:
  assumes "skip_list h ht L"
  shows "skip_list (set_entry p e h) ht L"
proof -
  let ?h = "set_entry p e h"
  have same: "nd_key (?h ! q) = nd_key (h ! q)" "nd_height (?h ! q) = nd_height (h ! q)" "nd_tower (?h ! q) = nd_tower (h ! q)" for q
    by (cases "p < length h"; cases "q = p"; simp add: set_entry_def list_update_beyond)+
  have "lev ?h i L = lev h i L" "path ?h i r M = path h i r M" for i r M
    by (simp add: lev_def same) (intro path_cong, simp add: GetNext_def same)
  then show ?thesis using assms by (simp add: skip_list_def same) (simp add: set_entry_def)
qed

text \<open>The bookkeeping that \<open>Put\<close> starts with.\<close>

definition put_size :: "bytes \<Rightarrow> Values \<Rightarrow> Cache \<Rightarrow> Cache" where
  "put_size key values c = c\<lparr>c_size := c_size c + of_nat (length key + Values_Size values)\<rparr>"

lemma put_size_fields [simp]:
  "c_heap (put_size k vs c) = c_heap c" "c_height (put_size k vs c) = c_height c" "c_head (put_size k vs c) = c_head c"
  by (simp_all add: put_size_def)

lemma nils_simps [simp]: "length nils = maxHeight + 1" "j \<le> maxHeight \<Longrightarrow> nils ! j = None"
  by (simp_all add: nils_def del: replicate_Suc)

lemma prev_init:
  "n \<le> maxHeight \<Longrightarrow> j \<le> maxHeight \<Longrightarrow> (nils[n := Some v]) ! j = (if j = n then Some v else None)"
  by (simp add: nth_list_update)

lemma lev_height: "skip_list h ht L \<Longrightarrow> ht \<le> i \<Longrightarrow> lev h i (below h k L) = [] \<and> lev h i (from_key h k L) = []"
  using lev_top [of h ht L i] below_from [of L h k] lev_append [of h i "below h k L" "from_key h k L"] by simp

lemma Put_found:
  assumes sl: "skip_list (c_heap c) (c_height c) L" and hd: "c_head c = Some 0"
    and q: "q \<in> set L" "nd_key (c_heap c ! q) = k"
  shows "Put rnd k vs lc c = node_Add q vs (put_size k vs c)"
proof -
  let ?h = "c_heap c" and ?prev = "nils[c_height c := Some 0]"
  have le: "c_height c \<le> maxHeight" using skip_listD(8) [OF sl] .
  have "?prev ! c_height c = Some (before ?h k L (c_height c))"
    using prev_init [OF le le] lev_height [OF sl order_refl] by (simp add: before_def)
  then obtain prev' nxt' where "put_search (fuel ?h) ?h k (c_height c) ?prev nils = Inr (Some q, prev', nxt')"
    using put_search_found [OF sl q _ skip_listD(10) [OF sl q(1)] le, of "fuel ?h" ?prev nils] by (auto simp: fuel_def)
  then show ?thesis by (simp add: Put_def hd Let_def put_size_def)
qed

lemma path_heap_append: "path h i p L \<Longrightarrow> p < length h \<Longrightarrow> \<forall>q \<in> set L. q < length h \<Longrightarrow> path (h @ [n]) i p L"
  by (induction L arbitrary: p) (auto simp: GetNext_def nth_append)

text \<open>With the paths through the new node in place, the heap is again a skip list.\<close>

lemma skip_list_insert:
  assumes sl: "skip_list h ht (A @ B)" and A: "\<And>p. p \<in> set A \<Longrightarrow> nd_key (h ! p) < k" and B: "\<And>p. p \<in> set B \<Longrightarrow> k < nd_key (h ! p)"
    and n: "n = newNode k vs height lc" "1 \<le> height" "height \<le> maxHeight"
    and sh: "shape h' = shape (h @ [n])"
    and path: "\<forall>j < maxHeight. path h' j 0 (lev h j A @ (if j < height then [length h] else []) @ lev h j B)"
  shows "skip_list h' (max ht height) (A @ length h # B)"
proof -
  note D = skip_listD [OF sl]
  have S: "set A \<union> set B = {1..<length h}" using D(3) by simp
  have len: "length h' = Suc (length h)" using shapeD(1) [OF sh] by simp
  have old: "nd_key (h' ! p) = nd_key (h ! p)" "nd_height (h' ! p) = nd_height (h ! p)" "length (nd_tower (h' ! p)) = length (nd_tower (h ! p))"
    if "p < length h" for p using shapeD(2) [OF sh, of p] that by (simp_all add: nth_append)
  have new: "nd_key (h' ! length h) = k" "nd_height (h' ! length h) = height" "length (nd_tower (h' ! length h)) = maxHeight"
    using shapeD(2) [OF sh, of "length h"] by (simp_all add: n(1) newNode_def)
  have lt: "p \<in> set A \<Longrightarrow> p < length h" "p \<in> set B \<Longrightarrow> p < length h" for p using S by auto
  have "lev h' j A = lev h j A" "lev h' j B = lev h j B" for j
    unfolding lev_def by (rule filter_cong; use old lt in simp)+
  then have "lev h' j (A @ length h # B) = lev h j A @ (if j < height then [length h] else []) @ lev h j B" for j
    by (simp add: lev_def new)
  then have "\<forall>j < maxHeight. path h' j 0 (lev h' j (A @ length h # B))" using path by simp
  moreover have "sorted_wrt (\<lambda>p q. nd_key (h' ! p) < nd_key (h' ! q)) (A @ length h # B)"
    using D(4) A B old lt new by (auto simp: sorted_wrt_append intro: less_trans elim!: sorted_wrt_mono_rel [rotated])
  moreover have "distinct (A @ length h # B)" using D(2) lt by auto
  moreover have "set (A @ length h # B) = {1..<length h'}"
    using S len D(1) by (cases h) (auto simp: atLeastLessThanSuc)
  moreover have "length (nd_tower (h' ! p)) = maxHeight" if "p < length h'" for p
    using that len new old D(5) by (cases "p = length h") (simp_all add: less_Suc_eq)
  moreover have "1 \<le> nd_height (h' ! p) \<and> nd_height (h' ! p) \<le> max ht height" if "p \<in> set (A @ length h # B)" for p
    using that new n(2) old lt D(9,10) [of p] by (cases "p = length h") (auto simp: le_max_iff_disj)
  moreover have "1 \<le> max ht height" "max ht height \<le> maxHeight" using D(7,8) n(3) by simp_all
  ultimately show ?thesis using len unfolding skip_list_def by (metis length_greater_0_conv zero_less_Suc)
qed

lemma Put_absent:
  assumes sl: "skip_list (c_heap c) (c_height c) L" and hd: "c_head c = Some 0"
    and no: "\<And>p. p \<in> set L \<Longrightarrow> nd_key (c_heap c ! p) \<noteq> k"
  shows "\<exists>h'. Put rnd k vs lc c = Inr (None, (put_size k vs c)\<lparr>c_heap := h', c_height := max (c_height c) (randomHeight rnd)\<rparr>) \<and>
    shape h' = shape (c_heap c @ [newNode k vs (randomHeight rnd) lc]) \<and>
    skip_list h' (max (c_height c) (randomHeight rnd)) (below (c_heap c) k L @ length (c_heap c) # from_key (c_heap c) k L)"
proof -
  define h where "h = c_heap c"
  define ht where "ht = c_height c"
  define n where "n = newNode k vs (randomHeight rnd) lc"
  define A where "A = below h k L"
  define B where "B = from_key h k L"
  let ?prev = "nils[ht := Some 0]" and ?nxt = "nils"
  note sl = sl [folded h_def ht_def] and no = no [folded h_def]
  note D = skip_listD [OF sl]
  have L: "L = A @ B" using below_from [of L h k] by (simp add: A_def B_def)
  have lt: "p \<in> set A \<Longrightarrow> p < length h" "p \<in> set B \<Longrightarrow> p < length h" for p using D(3) L by auto
  have "?prev ! ht = Some (before h k L ht)"
    using prev_init [OF D(8) D(8)] lev_height [OF sl order_refl] by (simp add: before_def)
  then obtain prev nxt where ps: "put_search (fuel h) h k ht ?prev ?nxt = Inr (None, prev, nxt)"
    and lo: "\<forall>j < ht. prev ! j = Some (before h k L j) \<and> nxt ! j = after h k L j"
    and hi: "\<forall>j \<ge> ht. prev ! j = ?prev ! j \<and> nxt ! j = ?nxt ! j"
    using put_search_absent [OF sl no _ D(8), of "fuel h" ?prev ?nxt] by (auto simp: fuel_def)
  have levs: "lev (h @ [n]) i A = lev h i A" "lev (h @ [n]) i B = lev h i B" for i
    unfolding lev_def by (rule filter_cong; use lt in \<open>simp add: nth_append\<close>)+
  have "(case prev ! i of None \<Rightarrow> getSplices (fuel h) hh k 0 i | Some p \<Rightarrow> Inr (p, nxt ! i)) =
      Inr (last (0 # lev (h @ [n]) i A), hd_opt (lev (h @ [n]) i B))"
    if "i < randomHeight rnd" "path hh i 0 (lev (h @ [n]) i A @ lev (h @ [n]) i B)" for hh i
  proof (cases "i < ht")
    case True
    then show ?thesis using lo by (simp add: before_def after_def A_def B_def levs [unfolded A_def B_def])
  next
    case False
    have i: "i \<le> maxHeight" using that(1) randomHeight_bounds(2) [of rnd] by simp
    have e: "lev h i A = []" "lev h i B = []" using lev_height [OF sl, of i k] False by (simp_all add: A_def B_def)
    have "prev ! i = (if i = ht then Some 0 else None)" "nxt ! i = None"
      using hi False prev_init [OF D(8) i] i by simp_all
    moreover have "getSplices (fuel h) hh k 0 i = Inr (0, None)"
      using getSplices_path [of hh i 0 "[]" "[]" k "fuel h"] that(2) by (simp add: e levs fuel_def)
    ultimately show ?thesis unfolding levs e by (cases "i = ht") simp_all
  qed
  note pv = this
  have p0: "\<forall>j < maxHeight. path (h @ [n]) j 0 (lev (h @ [n]) j A @ (if j < 0 then [length h] else []) @ lev (h @ [n]) j B)"
  proof (intro allI impI)
    fix j assume "j < maxHeight"
    then have "path h j 0 (lev h j A @ lev h j B)" using D(6) L by force
    then show "path (h @ [n]) j 0 (lev (h @ [n]) j A @ (if j < 0 then [length h] else []) @ lev (h @ [n]) j B)"
      using D(1) lt by (simp add: levs) (rule path_heap_append, auto simp: set_lev)
  qed
  have d: "distinct (length h # 0 # A @ B)" using D(1,2,3) L by (auto dest: lt)
  have t: "\<forall>p < length (h @ [n]). length (nd_tower ((h @ [n]) ! p)) = maxHeight"
    using D(5) by (auto simp: nth_append n_def newNode_def less_Suc_eq)
  have sub: "set (A @ B) \<subseteq> {0..<length (h @ [n])}" using lt by fastforce
  have "length h < length (h @ [n])" "0 < fuel h" by (simp_all add: fuel_def)
  from link_levels_ok [OF d this(1) sub t randomHeight_bounds(2) [of rnd] this(2) pv _ refl p0]
  obtain h' where h': "link_levels [0..<randomHeight rnd] (fuel h) 0 k (length h) prev nxt (h @ [n]) = Inr (None, h')"
      "shape h' = shape (h @ [n])"
      "\<forall>j < maxHeight. path h' j 0 (lev (h @ [n]) j A @ (if j < randomHeight rnd then [length h] else []) @ lev (h @ [n]) j B)"
    by blast
  have "Put rnd k vs lc c = Inr (None, (put_size k vs c)\<lparr>c_heap := h', c_height := max ht (randomHeight rnd)\<rparr>)"
    using ps h'(1) by (simp add: Put_def hd Let_def put_size_def h_def ht_def n_def max_def)
  moreover have "skip_list h' (max ht (randomHeight rnd)) (A @ length h # B)"
  proof (rule skip_list_insert [OF sl [unfolded L] _ _ n_def randomHeight_bounds h'(2)])
    show "p \<in> set A \<Longrightarrow> nd_key (h ! p) < k" for p using below_less by (simp add: A_def)
    show "k < nd_key (h ! p)" if p: "p \<in> set B" for p
    proof -
      have "\<not> nd_key (h ! p) < k" using from_key_ge [OF D(4)] p unfolding B_def by blast
      moreover have "nd_key (h ! p) \<noteq> k" using no [of p] p L by simp
      ultimately show ?thesis by simp
    qed
    show "\<forall>j < maxHeight. path h' j 0 (lev h j A @ (if j < randomHeight rnd then [length h] else []) @ lev h j B)"
      using h'(3) by (simp add: levs)
  qed
  ultimately show ?thesis using h'(2) by (auto simp: A_def B_def h_def ht_def n_def)
qed

section \<open>Searching\<close>

lemma skip_loop_ok:
  assumes sl: "skip_list h ht (A @ B)" and go: "\<And>q. q \<in> set A \<Longrightarrow> go q" "\<And>q. q \<in> set B \<Longrightarrow> \<not> go q"
  shows "A = A1 @ A2 \<Longrightarrow> i < maxHeight \<Longrightarrow> A1 = [] \<or> i < nd_height (h ! last A1) \<Longrightarrow> length A2 + i < f \<Longrightarrow>
    skip_loop f h go (last (0 # A1)) i = Inr (last (0 # A), hd_opt B)"
proof (induction f arbitrary: A1 A2 i)
  case (Suc f)
  have "skip_list h ht (A1 @ A2 @ B)" using sl Suc.prems(1) by simp
  then have p: "path h i (last (0 # A1)) (lev h i A2 @ lev h i B)"
    using path_from [of h ht A1 "A2 @ B" i] Suc.prems(2,3) by simp
  show ?case
  proof (cases "lev h i A2")
    case Nil
    have nx: "GetNext h (last (0 # A1)) i = hd_opt (lev h i B)" using path_hd [OF p [unfolded Nil]] by simp
    have ngo: "\<not> go q" if "hd_opt (lev h i B) = Some q" for q
      using that go(2) [of q] set_lev [of h i B] by (cases "lev h i B") auto
    show ?thesis
    proof (cases i)
      case 0
      then have "A2 = []" "lev h 0 B = B"
        using Nil lev_0 [OF sl] lev_0(2) [of h ht A1 "A2 @ B"] sl Suc.prems(1) by simp_all
      then show ?thesis using nx ngo 0 Suc.prems(1) by (cases B) (simp_all add: Let_def del: last.simps)
    next
      case (Suc i')
      have "skip_loop f h go (last (0 # A1)) i' = Inr (last (0 # A), hd_opt B)"
        using Suc.IH [OF Suc.prems(1), of i'] Suc.prems Suc by auto
      then show ?thesis using nx ngo Suc by (cases "hd_opt (lev h i B)") (simp_all add: Let_def del: last.simps)
    qed
  next
    case (Cons q R)
    then have nx: "GetNext h (last (0 # A1)) i = Some q" using p by simp
    have "q \<in> set A2" "i < nd_height (h ! q)" using Cons set_lev [of h i A2] by auto
    then obtain C D where A2: "A2 = C @ q # D" by (meson split_list)
    have "skip_loop f h go (last (0 # (A1 @ C @ [q]))) i = Inr (last (0 # A), hd_opt B)"
      using Suc.prems A2 \<open>i < nd_height (h ! q)\<close> by (intro Suc.IH [of _ D]) simp_all
    moreover have "go q" using go(1) Suc.prems(1) A2 by simp
    ultimately show ?thesis using nx by (simp add: Let_def del: last.simps) simp
  qed
qed simp

lemma skip_search_ok:
  assumes "skip_list (c_heap c) (c_height c) (A @ B)" and "c_head c = Some 0"
    and "\<And>q. q \<in> set A \<Longrightarrow> go q" and "\<And>q. q \<in> set B \<Longrightarrow> \<not> go q"
  shows "skip_search go c = Inr (last (0 # A), hd_opt B)"
proof -
  note D = skip_listD [OF assms(1)]
  have "length (A @ B) = card {1..<length (c_heap c)}" using D(2,3) distinct_card by metis
  then have "length A + (c_height c - 1) < fuel (c_heap c)" "c_height c - 1 < maxHeight"
    using D(7,8) by (simp_all add: fuel_def)
  then show ?thesis
    using skip_loop_ok [OF assms(1,3,4), where ?A1.0 = "[]" and ?A2.0 = A] assms(2) by (simp add: skip_search_def)
qed

lemma nodes_loop_ok:
  "path h 0 p L \<Longrightarrow> length L < f \<Longrightarrow> nodes_loop f h (GetNext h p 0) ns = Inr (ns @ L)"
proof (induction L arbitrary: p f ns)
  case Nil
  then show ?case by (cases f) simp_all
next
  case (Cons q L)
  then obtain f' where "f = Suc f'" by (cases f) auto
  then show ?case using Cons by simp
qed

lemma GetAllNodes_ok:
  assumes "skip_list (c_heap c) (c_height c) L" and "c_head c = Some 0"
  shows "GetAllNodes c = Inr L"
proof -
  note D = skip_listD [OF assms(1)]
  have "length L = card {1..<length (c_heap c)}" using D(2,3) distinct_card by metis
  then have "length L < fuel (c_heap c)" by (simp add: fuel_def)
  moreover have "path (c_heap c) 0 0 L" using D(6) [of 0] lev_0(2) [of _ _ "[]" L] assms(1) by (simp add: maxHeight_def)
  ultimately show ?thesis using nodes_loop_ok [of "c_heap c" 0 L "fuel (c_heap c)" "[]"] assms(2) by (simp add: GetAllNodes_def)
qed

section \<open>The cache as a map\<close>

text \<open>The nodes of a cache, none when it is closed.\<close>

definition cache_nodes :: "Cache \<Rightarrow> addr list" where
  "cache_nodes c = (case GetAllNodes c of Inr L \<Rightarrow> L | Inl _ \<Rightarrow> [])"

definition cache_inv :: "Cache \<Rightarrow> bool" where
  "cache_inv c \<longleftrightarrow> c_head c = Some 0 \<and> skip_list (c_heap c) (c_height c) (cache_nodes c)"

text \<open>The series of the cache: the lifecycle and the entry of each key.\<close>

type_synonym series = "bytes \<rightharpoonup> int \<times> Entry option"

definition cache_series :: "Cache \<Rightarrow> series" where
  "cache_series c = map_of (map (\<lambda>p. (nd_key (c_heap c ! p), nd_lifeCycle (c_heap c ! p), nd_entry (c_heap c ! p))) (cache_nodes c))"

text \<open>What \<open>Put\<close> does to the map.\<close>

definition series_Put :: "bytes \<Rightarrow> Values \<Rightarrow> int \<Rightarrow> series \<Rightarrow> (error option \<times> series) result" where
  "series_Put key values lifecycle m =
     (case m key of
        None \<Rightarrow> Inr (None, m(key \<mapsto> (lifecycle, case NewEntryValues values of Inl _ \<Rightarrow> None | Inr e \<Rightarrow> Some e)))
      | Some (lc, None) \<Rightarrow> if values = [] then Inr (None, m) else Inl Panic
      | Some (lc, Some e) \<Rightarrow> let (err, e') = entry_Add values e in Inr (err, m(key \<mapsto> (lc, Some e'))))"

lemma cache_invI: "c_head c = Some 0 \<Longrightarrow> skip_list (c_heap c) (c_height c) L \<Longrightarrow> cache_inv c \<and> cache_nodes c = L"
  using GetAllNodes_ok [of c L] by (simp add: cache_inv_def cache_nodes_def)

lemma map_of_keyed:
  assumes "sorted_wrt (\<lambda>p q. nd_key (h ! p) < nd_key (h ! q)) L"
  shows "map_of (map (\<lambda>p. (nd_key (h ! p), g p)) L) k = Some v \<longleftrightarrow> (\<exists>p \<in> set L. nd_key (h ! p) = k \<and> v = g p)"
proof -
  have "sorted_wrt (<) (map (\<lambda>p. nd_key (h ! p)) L)" using assms by (simp add: sorted_wrt_map)
  then have "distinct (map fst (map (\<lambda>p. (nd_key (h ! p), g p)) L))"
    by (simp add: strict_sorted_iff comp_def)
  then show ?thesis by (subst map_of_eq_Some_iff) auto
qed

lemma cache_series_Some:
  assumes "cache_inv c"
  shows "cache_series c k = Some (lc, e) \<longleftrightarrow>
    (\<exists>p \<in> set (cache_nodes c). nd_key (c_heap c ! p) = k \<and> lc = nd_lifeCycle (c_heap c ! p) \<and> e = nd_entry (c_heap c ! p))"
proof -
  have "sorted_wrt (\<lambda>p q. nd_key (c_heap c ! p) < nd_key (c_heap c ! q)) (cache_nodes c)"
    using assms skip_listD(4) by (auto simp: cache_inv_def)
  from map_of_keyed [OF this, of "\<lambda>p. (nd_lifeCycle (c_heap c ! p), nd_entry (c_heap c ! p))" k "(lc, e)"]
  show ?thesis by (simp add: cache_series_def)
qed

lemma cache_series_None:
  assumes "cache_inv c"
  shows "cache_series c k = None \<longleftrightarrow> (\<forall>p \<in> set (cache_nodes c). nd_key (c_heap c ! p) \<noteq> k)"
  using cache_series_Some [OF assms, of k] by (cases "cache_series c k") auto

text \<open>A result of the store and of its specification agree, and the invariant holds again.\<close>

definition refines :: "('c \<Rightarrow> bool) \<Rightarrow> ('c \<Rightarrow> series) \<Rightarrow> (error option \<times> 'c) result \<Rightarrow> (error option \<times> series) result \<Rightarrow> bool" where
  "refines invar alpha r s =
     (case r of Inl e \<Rightarrow> s = Inl e | Inr (err, c) \<Rightarrow> invar c \<and> s = Inr (err, alpha c))"

lemma cache_inv_set_entry:
  assumes "cache_inv c" and "p \<in> set (cache_nodes c)"
    and "c' = c\<lparr>c_heap := set_entry p e (c_heap c)\<rparr>"
  shows "cache_inv c' \<and> cache_nodes c' = cache_nodes c \<and>
    cache_series c' = (cache_series c)(nd_key (c_heap c ! p) \<mapsto> (nd_lifeCycle (c_heap c ! p), Some e))"
proof -
  let ?h = "c_heap c" and ?L = "cache_nodes c"
  have inv: "c_head c = Some 0" "skip_list ?h (c_height c) ?L" using assms(1) by (simp_all add: cache_inv_def)
  have c': "cache_inv c' \<and> cache_nodes c' = ?L"
    using cache_invI [of c' ?L] skip_list_entry [OF inv(2), of p e] inv(1) assms(3) by simp
  have lt: "p < length ?h" using skip_listD(3) [OF inv(2)] assms(2) by auto
  have "cache_series c' k = ((cache_series c)(nd_key (?h ! p) \<mapsto> (nd_lifeCycle (?h ! p), Some e))) k" for k
  proof (cases "cache_series c' k")
    case None
    then have "\<forall>q \<in> set ?L. nd_key (?h ! q) \<noteq> k"
      using cache_series_None [of c' k] c' lt assms(3)
      by (auto simp: set_entry_def nth_list_update split: if_splits)
    then show ?thesis using None cache_series_None [OF assms(1), of k] assms(2) by auto
  next
    case (Some v)
    obtain lc en where v: "v = (lc, en)" by (cases v)
    have "\<exists>q \<in> set ?L. nd_key (c_heap c' ! q) = k \<and> lc = nd_lifeCycle (c_heap c' ! q) \<and> en = nd_entry (c_heap c' ! q)"
      using cache_series_Some [of c' k lc en] c' Some v by simp
    then obtain q where q: "q \<in> set ?L" "nd_key (c_heap c' ! q) = k" "lc = nd_lifeCycle (c_heap c' ! q)" "en = nd_entry (c_heap c' ! q)"
      by blast
    show ?thesis
    proof (cases "q = p")
      case True
      then show ?thesis using q v Some lt assms(3) by (simp add: set_entry_def)
    next
      case False
      then have q': "nd_key (?h ! q) = k" "lc = nd_lifeCycle (?h ! q)" "en = nd_entry (?h ! q)"
        using q assms(3) by (simp_all add: set_entry_def)
      have "k \<noteq> nd_key (?h ! p)"
      proof
        assume "k = nd_key (?h ! p)"
        then obtain B B' where "from_key ?h k ?L = q # B" "from_key ?h k ?L = p # B'"
          using from_key_present [OF skip_listD(4) [OF inv(2)] q(1) q'(1)]
            from_key_present [OF skip_listD(4) [OF inv(2)] assms(2)] by metis
        then show False using False by simp
      qed
      then show ?thesis using cache_series_Some [OF assms(1), of k lc en] q(1) q' Some v by auto
    qed
  qed
  then show ?thesis using c' by blast
qed

lemma cache_same:
  assumes "c_heap c' = c_heap c" "c_head c' = c_head c" "c_height c' = c_height c"
  shows "cache_inv c' = cache_inv c" "cache_nodes c' = cache_nodes c" "cache_series c' = cache_series c"
proof -
  have "GetAllNodes c' = GetAllNodes c" unfolding GetAllNodes_def assms ..
  then show "cache_nodes c' = cache_nodes c" unfolding cache_nodes_def by (rule arg_cong)
  then show "cache_inv c' = cache_inv c" "cache_series c' = cache_series c"
    by (simp_all add: cache_inv_def cache_series_def assms)
qed

lemma cache_inv_put_size [simp]:
  "cache_inv (put_size k vs c) = cache_inv c" "cache_nodes (put_size k vs c) = cache_nodes c" "cache_series (put_size k vs c) = cache_series c"
  by (rule cache_same; simp)+

lemma Put_refines:
  assumes inv: "cache_inv c"
  shows "refines cache_inv cache_series (Put rnd k vs lc c) (series_Put k vs lc (cache_series c))"
proof -
  let ?h = "c_heap c" and ?L = "cache_nodes c"
  have hd: "c_head c = Some 0" and sl: "skip_list ?h (c_height c) ?L" using inv by (simp_all add: cache_inv_def)
  show ?thesis
  proof (cases "\<exists>q \<in> set ?L. nd_key (?h ! q) = k")
    case True
    then obtain q where q: "q \<in> set ?L" "nd_key (?h ! q) = k" by blast
    have p: "Put rnd k vs lc c = node_Add q vs (put_size k vs c)" by (rule Put_found [OF sl hd q])
    have s: "cache_series c k = Some (nd_lifeCycle (?h ! q), nd_entry (?h ! q))"
      using cache_series_Some [OF inv, of k] q by blast
    show ?thesis
    proof (cases "nd_entry (?h ! q)")
      case None
      then show ?thesis using p s inv by (simp add: refines_def node_Add_def series_Put_def)
    next
      case (Some e)
      define c1 where "c1 = put_size k vs c"
      let ?c' = "c1\<lparr>c_heap := set_entry q (snd (entry_Add vs e)) (c_heap c1)\<rparr>"
      have c1: "cache_inv c1" "cache_nodes c1 = ?L" "cache_series c1 = cache_series c" "c_heap c1 = ?h"
        using inv by (simp_all add: c1_def)
      have "cache_inv ?c' \<and> cache_nodes ?c' = cache_nodes c1 \<and>
          cache_series ?c' = (cache_series c1)(nd_key (c_heap c1 ! q) \<mapsto> (nd_lifeCycle (c_heap c1 ! q), Some (snd (entry_Add vs e))))"
        by (rule cache_inv_set_entry) (use c1 q in simp_all)
      then show ?thesis
        using p s Some c1 q
        by (simp add: refines_def node_Add_def series_Put_def c1_def [symmetric] split: prod.splits)
    qed
  next
    case False
    have no: "\<And>p. p \<in> set ?L \<Longrightarrow> nd_key (?h ! p) \<noteq> k" using False by blast
    let ?n = "newNode k vs (randomHeight rnd) lc" and ?x = "length ?h"
    let ?L' = "below ?h k ?L @ ?x # from_key ?h k ?L"
    obtain h' where h': "Put rnd k vs lc c = Inr (None, (put_size k vs c)\<lparr>c_heap := h', c_height := max (c_height c) (randomHeight rnd)\<rparr>)"
        "shape h' = shape (?h @ [?n])" "skip_list h' (max (c_height c) (randomHeight rnd)) ?L'"
      using Put_absent [OF sl hd no] by blast
    define c' where "c' = (put_size k vs c)\<lparr>c_heap := h', c_height := max (c_height c) (randomHeight rnd)\<rparr>"
    have c': "cache_inv c'" "cache_nodes c' = ?L'" "c_heap c' = h'" using cache_invI [of c' ?L'] h'(3) hd by (simp_all add: c'_def)
    have old: "p < ?x \<Longrightarrow> nd_key (h' ! p) = nd_key (?h ! p) \<and> nd_lifeCycle (h' ! p) = nd_lifeCycle (?h ! p) \<and> nd_entry (h' ! p) = nd_entry (?h ! p)" for p
      using shapeD(2) [OF h'(2), of p] by (simp add: nth_append)
    have new: "nd_key (h' ! ?x) = k" "nd_lifeCycle (h' ! ?x) = lc" "nd_entry (h' ! ?x) = (case NewEntryValues vs of Inl _ \<Rightarrow> None | Inr e \<Rightarrow> Some e)"
      using shapeD(2) [OF h'(2), of ?x] by (simp_all add: newNode_def)
    have L': "set ?L' = insert ?x (set ?L)" using below_from [of ?L ?h k] by (metis Un_insert_right list.simps(15) set_append)
    have lt: "p \<in> set ?L \<Longrightarrow> p < ?x" for p using skip_listD(3) [OF sl] by auto
    have "cache_series c' k' = ((cache_series c)(k \<mapsto> (lc, case NewEntryValues vs of Inl _ \<Rightarrow> None | Inr e \<Rightarrow> Some e))) k'" for k'
    proof (cases "k' = k")
      case True
      have "\<exists>p \<in> set ?L'. nd_key (h' ! p) = k \<and> lc = nd_lifeCycle (h' ! p) \<and> (case NewEntryValues vs of Inl _ \<Rightarrow> None | Inr e \<Rightarrow> Some e) = nd_entry (h' ! p)"
        using new by (intro bexI [of _ ?x]) simp_all
      then show ?thesis using True cache_series_Some [OF c'(1), of k] c' by simp
    next
      case neq: False
      show ?thesis
      proof (cases "cache_series c k'")
        case None
        then have "\<forall>p \<in> set ?L'. nd_key (h' ! p) \<noteq> k'"
          using cache_series_None [OF inv, of k'] L' old lt new neq by auto
        then show ?thesis using None neq cache_series_None [OF c'(1), of k'] c' by simp
      next
        case (Some v)
        obtain l e where v: "v = (l, e)" by (cases v)
        then obtain q where "q \<in> set ?L" "nd_key (?h ! q) = k'" "l = nd_lifeCycle (?h ! q)" "e = nd_entry (?h ! q)"
          using cache_series_Some [OF inv, of k' l e] Some by auto
        then have "\<exists>q \<in> set ?L'. nd_key (h' ! q) = k' \<and> l = nd_lifeCycle (h' ! q) \<and> e = nd_entry (h' ! q)"
          using old lt L' by auto
        then show ?thesis using cache_series_Some [OF c'(1), of k' l e] c' Some v neq by simp
      qed
    qed
    then have "cache_series c' = (cache_series c)(k \<mapsto> (lc, case NewEntryValues vs of Inl _ \<Rightarrow> None | Inr e \<Rightarrow> Some e))" by blast
    moreover have "cache_series c k = None" using cache_series_None [OF inv] no by blast
    ultimately show ?thesis using h'(1) c'(1) by (simp add: refines_def series_Put_def c'_def [symmetric])
  qed
qed

lemma NewCache_inv: "cache_inv NewCache" "cache_series NewCache = Map.empty"
proof -
  have "skip_list (c_heap NewCache) (c_height NewCache) []"
    by (simp add: skip_list_def NewCache_def newNode_def GetNext_def maxHeight_def)
  then have "cache_inv NewCache \<and> cache_nodes NewCache = []" by (intro cache_invI) (simp add: NewCache_def)
  then show "cache_inv NewCache" "cache_series NewCache = Map.empty" by (simp_all add: cache_series_def)
qed

section \<open>The interface to the memory tables\<close>

text \<open>
  The loop of \<open>MemTable.WriteMulti\<close> over a store: it stops at the first error. The first
  component of an item is what the store needs besides the arguments (here the random draws).
\<close>

fun put_batch :: "('r \<Rightarrow> bytes \<Rightarrow> Values \<Rightarrow> int \<Rightarrow> 'c \<Rightarrow> (error option \<times> 'c) result) \<Rightarrow>
    ('r \<times> bytes \<times> Values \<times> int) list \<Rightarrow> 'c \<Rightarrow> (error option \<times> 'c) result" where
  "put_batch put [] c = Inr (None, c)"
| "put_batch put ((r, k, vs, lc) # xs) c =
     bind_result (put r k vs lc c) (\<lambda>(err, c').
       case err of Some e \<Rightarrow> Inr (Some e, c') | None \<Rightarrow> put_batch put xs c')"

text \<open>A sequence of calls by a client that goes on after an error.\<close>

fun put_trace :: "('r \<Rightarrow> bytes \<Rightarrow> Values \<Rightarrow> int \<Rightarrow> 'c \<Rightarrow> (error option \<times> 'c) result) \<Rightarrow>
    ('r \<times> bytes \<times> Values \<times> int) list \<Rightarrow> 'c \<Rightarrow> (error option \<times> 'c) result" where
  "put_trace put [] c = Inr (None, c)"
| "put_trace put ((r, k, vs, lc) # xs) c = bind_result (put r k vs lc c) (\<lambda>(_, c'). put_trace put xs c')"

text \<open>A store of series that behaves as a map of entries, whatever its representation.\<close>

locale series_store =
  fixes invar :: "'c \<Rightarrow> bool"
    and alpha :: "'c \<Rightarrow> series"
    and put :: "'r \<Rightarrow> bytes \<Rightarrow> Values \<Rightarrow> int \<Rightarrow> 'c \<Rightarrow> (error option \<times> 'c) result"
    and empty :: 'c
  assumes empty_inv: "invar empty"
    and empty_alpha: "alpha empty = Map.empty"
    and put_refines: "invar c \<Longrightarrow> refines invar alpha (put r k vs lc c) (series_Put k vs lc (alpha c))"
begin

lemma put_cases:
  assumes "invar c"
  obtains e where "put r k vs lc c = Inl e" "series_Put k vs lc (alpha c) = Inl e"
  | err c' where "put r k vs lc c = Inr (err, c')" "invar c'" "series_Put k vs lc (alpha c) = Inr (err, alpha c')"
  using put_refines [OF assms, of r k vs lc] by (auto simp: refines_def split: sum.splits prod.splits)

lemma batch_refines:
  "invar c \<Longrightarrow> refines invar alpha (put_batch put xs c) (put_batch (\<lambda>_. series_Put) xs (alpha c))"
proof (induction xs arbitrary: c)
  case (Cons x xs)
  obtain r k vs lc where x: "x = (r, k, vs, lc)" by (cases x)
  show ?case
    by (rule put_cases [OF Cons.prems, of r k vs lc]; use Cons.IH Cons.prems in \<open>auto simp: x refines_def split: option.splits\<close>)
qed (simp add: refines_def)

lemma trace_refines:
  "invar c \<Longrightarrow> refines invar alpha (put_trace put xs c) (put_trace (\<lambda>_. series_Put) xs (alpha c))"
proof (induction xs arbitrary: c)
  case (Cons x xs)
  obtain r k vs lc where x: "x = (r, k, vs, lc)" by (cases x)
  show ?case
    by (rule put_cases [OF Cons.prems, of r k vs lc]; use Cons.IH Cons.prems in \<open>auto simp: x refines_def\<close>)
qed (simp add: refines_def)

lemma trace_from_empty:
  "refines invar alpha (put_trace put xs empty) (put_trace (\<lambda>_. series_Put) xs Map.empty)"
  using trace_refines [OF empty_inv] by (simp add: empty_alpha)

end

interpretation cache_store: series_store cache_inv cache_series Put NewCache
  by unfold_locales (simp_all add: NewCache_inv Put_refines)

section \<open>Properties\<close>

text \<open>
  C18: The skip list refines a map from keys to entries: after any sequence of \<open>Put\<close> calls on a new
  cache, with any random heights, the structure is a well-formed skip list whose nodes are in
  strictly ascending key order and hold exactly the entries the map has, and the outcome
  is the one of the map: no search or compare-and-swap loop runs out of fuel, and \<open>Put\<close>
  panics exactly where the map does (a batch added to a nil entry).
\<close>

theorem cache_refines_map:
  "refines cache_inv cache_series (put_trace Put xs NewCache) (put_trace (\<lambda>_. series_Put) xs Map.empty)"
  by (rule cache_store.trace_from_empty)

lemma findGreaterOrEqual_ok:
  assumes "cache_inv c"
  shows "findGreaterOrEqual k c = Inr (hd_opt (from_key (c_heap c) k (cache_nodes c)))"
proof -
  let ?h = "c_heap c" and ?L = "cache_nodes c"
  have hd: "c_head c = Some 0" and sl: "skip_list ?h (c_height c) ?L" using assms by (simp_all add: cache_inv_def)
  have "skip_search (\<lambda>q. bytes_Compare (nd_key (?h ! q)) k < 0) c = Inr (last (0 # below ?h k ?L), hd_opt (from_key ?h k ?L))"
    using sl below_from [of ?L ?h k] below_less from_key_ge [OF skip_listD(4) [OF sl]]
    by (intro skip_search_ok [OF _ hd]) auto
  then show ?thesis by (simp add: findGreaterOrEqual_def)
qed

lemma from_key_least:
  assumes "cache_inv c" and "from_key (c_heap c) k (cache_nodes c) = p # B" and "q \<in> set (cache_nodes c)"
    and "k \<le> nd_key (c_heap c ! q)"
  shows "nd_key (c_heap c ! p) \<le> nd_key (c_heap c ! q)"
proof -
  let ?h = "c_heap c" and ?L = "cache_nodes c"
  have L: "?L = below ?h k ?L @ p # B" using below_from [of ?L ?h k] assms(2) by simp
  have "q \<notin> set (below ?h k ?L)" using below_less [of q ?h k ?L] assms(4) by auto
  then have "q = p \<or> q \<in> set B" using assms(3) L by (metis Un_iff set_ConsD set_append)
  moreover have "sorted_wrt (\<lambda>p q. nd_key (?h ! p) < nd_key (?h ! q)) (below ?h k ?L @ p # B)"
    using assms(1) L skip_listD(4) by (metis cache_inv_def)
  ultimately show ?thesis by (auto simp: sorted_wrt_append)
qed

text \<open>
  C19: \<open>Get\<close> finds the entry of a key that is in the cache. For a key that is not there it returns
  the entry of the least greater key, since the node found is not compared with the key; only
  beyond the last key it returns nil.
\<close>

theorem Get_least_key:
  assumes "cache_inv c"
  shows "(case Get k c of
      Inl _ \<Rightarrow> False
    | Inr None \<Rightarrow> (\<forall>q lc e. cache_series c q = Some (lc, Some e) \<and> k \<le> q \<longrightarrow>
        (\<exists>q' lc'. k \<le> q' \<and> q' < q \<and> cache_series c q' = Some (lc', None)))
    | Inr (Some p) \<Rightarrow> k \<le> nd_key (c_heap c ! p) \<and> nd_entry (c_heap c ! p) \<noteq> None \<and>
        cache_series c (nd_key (c_heap c ! p)) = Some (nd_lifeCycle (c_heap c ! p), nd_entry (c_heap c ! p)) \<and>
        (\<forall>q \<in> dom (cache_series c). k \<le> q \<longrightarrow> nd_key (c_heap c ! p) \<le> q))"
proof -
  let ?h = "c_heap c" and ?L = "cache_nodes c"
  have sl: "skip_list ?h (c_height c) ?L" using assms by (simp add: cache_inv_def)
  show ?thesis
  proof (cases "from_key ?h k ?L")
    case Nil
    then have "?L = below ?h k ?L" using below_from [of ?L ?h k] by simp
    then have "nd_key (?h ! p) < k" if "p \<in> set ?L" for p using below_less that by metis
    then show ?thesis
      using findGreaterOrEqual_ok [OF assms, of k] Nil cache_series_Some [OF assms] by (force simp: Get_def)
  next
    case (Cons p B)
    have p: "p \<in> set ?L" using Cons below_from [of ?L ?h k] by (metis Un_iff list.set_intros(1) set_append)
    have kp: "k \<le> nd_key (?h ! p)" using from_key_ge [OF skip_listD(4) [OF sl], of p k] Cons by simp
    have sp: "cache_series c (nd_key (?h ! p)) = Some (nd_lifeCycle (?h ! p), nd_entry (?h ! p))"
      using cache_series_Some [OF assms] p by blast
    have least: "nd_key (?h ! p) \<le> q" if "cache_series c q = Some v" "k \<le> q" for q v
      using from_key_least [OF assms Cons] cache_series_Some [OF assms, of q "fst v" "snd v"] that by auto
    show ?thesis
    proof (cases "nd_entry (?h ! p)")
      case None
      have "nd_key (?h ! p) < q" if "cache_series c q = Some (lc, Some e)" "k \<le> q" for q lc e
        using least [OF that] that(1) sp None by (cases "nd_key (?h ! p) = q") auto
      then show ?thesis
        using findGreaterOrEqual_ok [OF assms, of k] Cons None kp sp by (force simp: Get_def)
    next
      case (Some e)
      then show ?thesis
        using findGreaterOrEqual_ok [OF assms, of k] Cons kp sp least by (auto simp: Get_def)
    qed
  qed
qed

text \<open>A cache with one series.\<close>

definition one_series :: Cache where
  "one_series = (case Put (\<lambda>_. 1) [5] [IntegerValue 1 1] 0 NewCache of Inr (_, c) \<Rightarrow> c | Inl _ \<Rightarrow> NewCache)"

lemma one_series_inv: "cache_inv one_series"
  using Put_refines [OF NewCache_inv(1), of "\<lambda>_. 1" "[5]" "[IntegerValue 1 1]" 0] NewCache_inv(1)
  by (auto simp: one_series_def refines_def split: sum.splits prod.splits)

theorem Get_least_key_witness:
  "cache_inv one_series \<and> Get [3] one_series = Inr (Some 1) \<and> nd_key (c_heap one_series ! 1) = [5] \<and>
   cache_series one_series [5] = Some (0, nd_entry (c_heap one_series ! 1)) \<and> [3] \<le> nd_key (c_heap one_series ! 1)"
proof -
  have g: "Get [3] one_series = Inr (Some 1)" by code_simp
  have k: "nd_key (c_heap one_series ! 1) = [5]" "nd_lifeCycle (c_heap one_series ! 1) = 0" by code_simp+
  show ?thesis using Get_least_key [OF one_series_inv, of "[3]"] one_series_inv g k by simp
qed

lemma concat_slices:
  assumes "f 0 = 0" and "\<And>i. i < n \<Longrightarrow> f i \<le> f (Suc i)"
  shows "concat (map (\<lambda>i. drop (f i) (take (f (Suc i)) xs)) [0..<n]) = take (f n) xs"
  using assms(2)
proof (induction n)
  case (Suc n)
  have "take (f n) xs @ drop (f n) (take (f (Suc n)) xs) = take (f (Suc n)) xs"
    using Suc.prems [of n] by (metis append_take_drop_id lessI min.absorb1 take_take)
  then show ?case using Suc by simp
qed (simp add: assms(1))

lemma Ref_pow: "(Ref ^^ n) c = c\<lparr>c_ref := c_ref c + of_nat n\<rparr>"
  by (induction n) (simp_all add: Ref_def algebra_simps)

text \<open>
  \<open>Split\<close> cuts the nodes into \<open>n\<close> consecutive parts, in key order and without loss or
  overlap, each of the average length rounded down or up, and takes one reference for each part.
\<close>

theorem Split_partition:
  assumes "cache_inv c" and "0 < n"
  shows "\<exists>parts. cache_Split n c = Inr (parts, c\<lparr>c_ref := c_ref c + of_nat n\<rparr>) \<and> length parts = n \<and>
    concat parts = cache_nodes c \<and>
    (\<forall>ps \<in> set parts. length ps \<in> {length (cache_nodes c) div n, length (cache_nodes c) div n + 1})"
proof -
  let ?L = "cache_nodes c" and ?f = "\<lambda>i. i * length (cache_nodes c) div n"
  have g: "GetAllNodes c = Inr ?L"
    using GetAllNodes_ok [of c] assms(1) by (simp add: cache_inv_def)
  let ?parts = "map (\<lambda>i. drop (?f i) (take (?f (Suc i)) ?L)) [0..<n]"
  have s: "cache_Split n c = Inr (?parts, c\<lparr>c_ref := c_ref c + of_nat n\<rparr>)"
    by (simp add: cache_Split_def g Ref_pow Let_def)
  have mono: "?f i \<le> ?f (Suc i)" for i by (intro div_le_mono) simp
  have "?f n = length ?L" using assms(2) by simp
  then have "concat ?parts = ?L" using concat_slices [of ?f n ?L] mono by simp
  moreover have "length (drop (?f i) (take (?f (Suc i)) ?L)) \<in> {length ?L div n, length ?L div n + 1}" if "i < n" for i
  proof -
    have "?f (Suc i) \<le> length ?L"
    proof -
      have "Suc i * length ?L \<le> n * length ?L" using that by (intro mult_le_mono1) simp
      then have "?f (Suc i) \<le> n * length ?L div n" by (rule div_le_mono)
      then show ?thesis using assms(2) by simp
    qed
    then have l: "length (drop (?f i) (take (?f (Suc i)) ?L)) = ?f (Suc i) - ?f i" by simp
    have "?f (Suc i) = length ?L div n + ?f i + (length ?L mod n + (i * length ?L) mod n) div n"
      by (simp add: div_add1_eq [of "length ?L" "i * length ?L" n])
    moreover have "(length ?L mod n + (i * length ?L) mod n) div n < 2"
      using assms(2) by (intro less_mult_imp_div_less) (simp add: add_less_mono mult_2)
    ultimately show ?thesis using l by (auto simp: less_2_cases_iff)
  qed
  ultimately show ?thesis using s by (intro exI [of _ ?parts]) auto
qed

theorem Split_partition_witness:
  "\<exists>parts. cache_Split 2 one_series = Inr (parts, one_series\<lparr>c_ref := c_ref one_series + 2\<rparr>) \<and> length parts = 2 \<and>
    concat parts = cache_nodes one_series"
  using Split_partition [OF one_series_inv, of 2] by auto

lemma findLast_ok:
  assumes "cache_inv c"
  shows "findLast c = Inr (if cache_nodes c = [] then None else Some (last (cache_nodes c)))"
proof -
  have hd: "c_head c = Some 0" and sl: "skip_list (c_heap c) (c_height c) (cache_nodes c)" using assms by (simp_all add: cache_inv_def)
  have "skip_search (\<lambda>q. True) c = Inr (last (0 # cache_nodes c), None)"
    using skip_search_ok [of c "cache_nodes c" "[]" "\<lambda>q. True"] sl hd by simp
  moreover have "last (cache_nodes c) \<noteq> 0" if "cache_nodes c \<noteq> []"
    using last_in_set [OF that] skip_listD(3) [OF sl] by auto
  ultimately show ?thesis by (auto simp: findLast_def hd)
qed

lemma findLessThan_ok:
  assumes "cache_inv c"
  shows "findLessThan k c = Inr (let A = below (c_heap c) k (cache_nodes c) in if A = [] then None else Some (last A))"
proof -
  let ?h = "c_heap c" and ?L = "cache_nodes c"
  have hd: "c_head c = Some 0" and sl: "skip_list ?h (c_height c) ?L" using assms by (simp_all add: cache_inv_def)
  have "skip_search (\<lambda>q. bytes_Compare (nd_key (?h ! q)) k < 0) c = Inr (last (0 # below ?h k ?L), hd_opt (from_key ?h k ?L))"
    using sl below_from [of ?L ?h k] below_less from_key_ge [OF skip_listD(4) [OF sl]]
    by (intro skip_search_ok [OF _ hd]) auto
  moreover have "last (below ?h k ?L) \<noteq> 0" if "below ?h k ?L \<noteq> []"
    using last_in_set [OF that] skip_listD(3) [OF sl] below_from [of ?L ?h k]
    by (metis Un_iff atLeastLessThan_iff not_one_le_zero set_append)
  ultimately show ?thesis by (auto simp: findLessThan_def hd Let_def)
qed

text \<open>
  The reading operations agree with the map: \<open>GetAllNodes\<close> lists each series once, in
  ascending key order, \<open>Count\<close> is the number of series and \<open>Empty\<close> says whether there is none.
\<close>

theorem cache_reads:
  assumes "cache_inv c"
  shows "GetAllNodes c = Inr (cache_nodes c) \<and>
    sorted_wrt (<) (map (\<lambda>p. nd_key (c_heap c ! p)) (cache_nodes c)) \<and>
    (\<lambda>p. nd_key (c_heap c ! p)) ` set (cache_nodes c) = dom (cache_series c) \<and>
    cache_Count c = Inr (card (dom (cache_series c))) \<and>
    cache_Empty c = Inr (dom (cache_series c) = {})"
proof -
  let ?k = "\<lambda>p. nd_key (c_heap c ! p)"
  have hd: "c_head c = Some 0" and sl: "skip_list (c_heap c) (c_height c) (cache_nodes c)" using assms by (simp_all add: cache_inv_def)
  have g: "GetAllNodes c = Inr (cache_nodes c)" by (rule GetAllNodes_ok [OF sl hd])
  have s: "sorted_wrt (<) (map ?k (cache_nodes c))" using skip_listD(4) [OF sl] by (simp add: sorted_wrt_map)
  have d: "?k ` set (cache_nodes c) = dom (cache_series c)" by (force simp: cache_series_def dom_map_of_conv_image_fst)
  have "card (dom (cache_series c)) = length (cache_nodes c)"
    using s distinct_card [of "map ?k (cache_nodes c)"] by (simp add: d [symmetric] strict_sorted_iff)
  moreover have "cache_Empty c = Inr (dom (cache_series c) = {})"
    using findLast_ok [OF assms] by (simp add: cache_Empty_def d [symmetric] del: dom_eq_empty_conv)
  ultimately show ?thesis using g s d by (simp add: cache_Count_def)
qed

theorem cache_reads_witness:
  "cache_inv one_series \<and> cache_Count one_series = Inr (card (dom (cache_series one_series))) \<and> cache_Count one_series = Inr 1"
proof -
  have "cache_Count one_series = Inr 1" by code_simp
  then show ?thesis using cache_reads [OF one_series_inv] one_series_inv by simp
qed

end
