(* ===== verification/Wal.thy ===== *)
theory Wal
  imports GoBinary Values
begin

text \<open>
  The write-ahead log, \<open>storage/store/wal_file.go\<close> and \<open>storage/store/wal_reader.go\<close>: the three
  kinds of entry with their binary form, the file that entries are appended to, and the reader
  that recovers them. A Go map is the association list of its iteration order, with one pair
  for each key. The field \<open>sz\<close> of an entry caches \<open>MarshalSize\<close> and is not state of the model.
  Snappy is outside the repository: \<open>senc\<close> and \<open>sdec\<close> are parameters. The mapped file is
  its bytes, and the system calls that resize and synchronise it succeed.
\<close>

section \<open>Entries\<close>

definition float64EntryType :: byte where "float64EntryType = 1"
definition integerEntryType :: byte where "integerEntryType = 2"
definition booleanEntryType :: byte where "booleanEntryType = 3"
definition stringEntryType :: byte where "stringEntryType = 4"
definition unsignedEntryType :: byte where "unsignedEntryType = 5"

lemmas entry_types = float64EntryType_def integerEntryType_def booleanEntryType_def stringEntryType_def unsignedEntryType_def

definition WriteWALEntryType :: byte where "WriteWALEntryType = 1"
definition DeleteWALEntryType :: byte where "DeleteWALEntryType = 2"
definition DeleteRangeWALEntryType :: byte where "DeleteRangeWALEntryType = 3"

lemmas wal_types = WriteWALEntryType_def DeleteWALEntryType_def DeleteRangeWALEntryType_def

type_synonym points = "(bytes \<times> Values) list"

datatype WALEntry =
    WriteWALEntry points
  | DeleteWALEntry "bytes list"
  | DeleteRangeWALEntry "bytes list" u64 u64

fun entry_Type :: "WALEntry \<Rightarrow> byte" where
  "entry_Type (WriteWALEntry _) = WriteWALEntryType"
| "entry_Type (DeleteWALEntry _) = DeleteWALEntryType"
| "entry_Type (DeleteRangeWALEntry _ _ _) = DeleteRangeWALEntryType"

subsection \<open>Write entries\<close>

text \<open>The bytes of the values of a key beside their timestamps; \<open>None\<close> where \<open>MarshalSize\<close> returns 0.\<close>

fun string_size :: "Values \<Rightarrow> nat option" where
  "string_size [] = Some 0"
| "string_size (StringValue _ s # v) = map_option (\<lambda>n. 4 + length s + n) (string_size v)"
| "string_size (_ # v) = None"

fun values_size :: "Values \<Rightarrow> nat option" where
  "values_size [] = None"
| "values_size (FloatValue t x # v) = Some (8 * length (FloatValue t x # v))"
| "values_size (IntegerValue t x # v) = Some (8 * length (IntegerValue t x # v))"
| "values_size (UnsignedValue t x # v) = Some (8 * length (UnsignedValue t x # v))"
| "values_size (BooleanValue t x # v) = Some (1 * length (BooleanValue t x # v))"
| "values_size (StringValue t s # v) = string_size (StringValue t s # v)"
| "values_size (PtrValue _ _ _ _ # v) = None"

fun points_size :: "nat \<Rightarrow> points \<Rightarrow> nat" where
  "points_size encLen [] = encLen"
| "points_size encLen ((k, v) # ps) =
     (case values_size v of None \<Rightarrow> 0 | Some n \<Rightarrow> points_size (encLen + length k + 8 * length v + n) ps)"

definition write_MarshalSize :: "points \<Rightarrow> nat" where
  "write_MarshalSize ps = (if ps = [] then 0 else points_size (7 * length ps) ps)"

text \<open>
  Writing at the position \<open>n\<close> of a buffer of length \<open>cap\<close>: the bytes written so far are \<open>out\<close>, whose
  length is \<open>n\<close>. An assignment to a slice beyond the buffer panics; \<open>copy\<close> stops at its end.
\<close>

definition buf_put :: "nat \<Rightarrow> bytes \<Rightarrow> bytes \<Rightarrow> bytes result" where
  "buf_put cap bs out = (if length out + length bs \<le> cap then Inr (out @ bs) else Inl Panic)"

definition buf_copy :: "nat \<Rightarrow> bytes \<Rightarrow> bytes \<Rightarrow> bytes result" where
  "buf_copy cap bs out = Inr (out @ take (cap - length out) bs)"

fun curType :: "Value \<Rightarrow> byte option" where
  "curType (FloatValue _ _) = Some float64EntryType"
| "curType (IntegerValue _ _) = Some integerEntryType"
| "curType (UnsignedValue _ _) = Some unsignedEntryType"
| "curType (BooleanValue _ _) = Some booleanEntryType"
| "curType (StringValue _ _) = Some stringEntryType"
| "curType (PtrValue _ _ _ _) = None"

fun encode_value :: "nat \<Rightarrow> byte \<Rightarrow> Value \<Rightarrow> bytes \<Rightarrow> bytes result" where
  "encode_value cap ty (FloatValue _ x) out = (if ty \<noteq> float64EntryType then Inl ErrIncorrectValue else buf_put cap (put_u64 x) out)"
| "encode_value cap ty (IntegerValue _ x) out = (if ty \<noteq> integerEntryType then Inl ErrIncorrectValue else buf_put cap (put_u64 x) out)"
| "encode_value cap ty (UnsignedValue _ x) out = (if ty \<noteq> unsignedEntryType then Inl ErrIncorrectValue else buf_put cap (put_u64 x) out)"
| "encode_value cap ty (BooleanValue _ b) out = (if ty \<noteq> booleanEntryType then Inl ErrIncorrectValue else buf_put cap [if b then 1 else 0] out)"
| "encode_value cap ty (StringValue _ s) out =
     (if ty \<noteq> stringEntryType then Inl ErrIncorrectValue
      else bind_result (buf_put cap (put_u32 (of_nat (length s))) out) (buf_copy cap s))"
| "encode_value cap ty (PtrValue _ _ _ _) out = Inl ErrUnsupportedType"

fun encode_values :: "nat \<Rightarrow> byte \<Rightarrow> Values \<Rightarrow> bytes \<Rightarrow> bytes result" where
  "encode_values cap ty [] out = Inr out"
| "encode_values cap ty (vv # v) out =
     bind_result (buf_put cap (put_u64 (unixNano vv)) out) (\<lambda>out.
     bind_result (encode_value cap ty vv out) (\<lambda>out.
     encode_values cap ty v out))"

fun encode_points :: "nat \<Rightarrow> points \<Rightarrow> bytes \<Rightarrow> bytes result" where
  "encode_points cap [] out = Inr out"
| "encode_points cap ((k, v) # ps) out =
     (case v of
        [] \<Rightarrow> Inl Panic
      | v0 # _ \<Rightarrow>
          (case curType v0 of
             None \<Rightarrow> Inl ErrUnsupportedType
           | Some ty \<Rightarrow>
               bind_result (buf_put cap [ty] out) (\<lambda>out.
               bind_result (buf_put cap (put_u16 (of_nat (length k))) out) (\<lambda>out.
               bind_result (buf_copy cap k out) (\<lambda>out.
               bind_result (buf_put cap (put_u32 (of_nat (length v))) out) (\<lambda>out.
               bind_result (encode_values cap ty v out) (\<lambda>out.
               encode_points cap ps out)))))))"

definition write_Encode :: "points \<Rightarrow> bytes result" where
  "write_Encode ps = encode_points (write_MarshalSize ps) ps []"

text \<open>\<open>w.Values[k] = values\<close>.\<close>

fun map_assign :: "'k \<Rightarrow> 'v \<Rightarrow> ('k \<times> 'v) list \<Rightarrow> ('k \<times> 'v) list" where
  "map_assign k v [] = [(k, v)]"
| "map_assign k v ((k', v') # m) = (if k' = k then (k, v) # m else (k', v') # map_assign k v m)"

text \<open>Reading \<open>n\<close> values of a fixed width, and of strings; the second component is the rest.\<close>

fun read_fixed :: "nat \<Rightarrow> (u64 \<Rightarrow> bytes \<Rightarrow> Value) \<Rightarrow> nat \<Rightarrow> bytes \<Rightarrow> Values \<times> bytes" where
  "read_fixed w mk 0 b = ([], b)"
| "read_fixed w mk (Suc n) b =
     (let (vs, r) = read_fixed w mk n (drop (8 + w) b) in (mk (get_u64 b) (drop 8 b) # vs, r))"

fun read_strings :: "nat \<Rightarrow> bytes \<Rightarrow> (Values \<times> bytes) result" where
  "read_strings 0 b = Inr ([], b)"
| "read_strings (Suc n) b =
     (if length b < 12 then Inl ErrWALCorrupt
      else let un = get_u64 b; b1 = drop 8 b; len = unat (get_u32 b1)
           in if length b1 < len then Inl ErrWALCorrupt
              else let b2 = drop 4 b1
                   in if length b2 < len then Inl ErrWALCorrupt
                      else bind_result (read_strings n (drop len b2)) (\<lambda>(vs, r).
                             Inr (StringValue un (take len b2) # vs, r)))"

definition read_values :: "byte \<Rightarrow> nat \<Rightarrow> bytes \<Rightarrow> (Values \<times> bytes) result" where
  "read_values ty n b =
     (if ty = float64EntryType then
        (if length b < 16 * n then Inl ErrWALCorrupt else Inr (read_fixed 8 (\<lambda>un x. FloatValue un (get_u64 x)) n b))
      else if ty = integerEntryType then
        (if length b < 16 * n then Inl ErrWALCorrupt else Inr (read_fixed 8 (\<lambda>un x. IntegerValue un (get_u64 x)) n b))
      else if ty = unsignedEntryType then
        (if length b < 16 * n then Inl ErrWALCorrupt else Inr (read_fixed 8 (\<lambda>un x. UnsignedValue un (get_u64 x)) n b))
      else if ty = booleanEntryType then
        (if length b < 9 * n then Inl ErrWALCorrupt else Inr (read_fixed 1 (\<lambda>un x. BooleanValue un (x ! 0 = 1)) n b))
      else if ty = stringEntryType then read_strings n b
      else Inl ErrUnsupportedType)"

lemma read_fixed_length: "length (snd (read_fixed w mk n b)) = length b - (8 + w) * n"
proof (induction n arbitrary: b)
  case (Suc n)
  obtain vs r where r: "read_fixed w mk n (drop (8 + w) b) = (vs, r)" by (cases "read_fixed w mk n (drop (8 + w) b)")
  then show ?case using Suc [of "drop (8 + w) b"] by simp
qed simp

lemma read_strings_length: "read_strings n b = Inr (vs, r) \<Longrightarrow> length r \<le> length b"
proof (induction n arbitrary: b vs)
  case (Suc n)
  then show ?case by (fastforce simp: Let_def bind_result_eq_Inr split: if_splits)
qed simp

lemma read_values_length: "read_values ty n b = Inr (vs, r) \<Longrightarrow> length r \<le> length b"
proof -
  assume a: "read_values ty n b = Inr (vs, r)"
  have f: "read_fixed w mk n b = (vs, r) \<Longrightarrow> length r \<le> length b" for w mk
    using read_fixed_length [of w mk n b] by simp
  show ?thesis using a f read_strings_length [of n b vs r] unfolding read_values_def by (simp split: if_splits)
qed

text \<open>The loop over the keys, with the bytes not yet read; \<open>tot\<close> is the length of the whole buffer.\<close>

function read_points :: "nat \<Rightarrow> bytes \<Rightarrow> points \<Rightarrow> points result" where
  "read_points tot [] m = Inr m"
| "read_points tot (ty # b) m =
     (if length b < 2 then Inl ErrWALCorrupt
      else let len = unat (get_u16 b); b1 = drop 2 b
           in if length b1 < len then Inl ErrWALCorrupt
              else let k = take len b1; b2 = drop len b1
                   in if length b2 < 4 then Inl ErrWALCorrupt
                      else let nvals = unat (get_u32 b2); b3 = drop 4 b2
                           in if nvals \<le> 0 \<or> nvals > tot then Inl ErrWALCorrupt
                              else (case read_values ty nvals b3 of
                                      Inl e \<Rightarrow> Inl e
                                    | Inr (vs, r) \<Rightarrow> read_points tot r (map_assign k vs m)))"
  by pat_completeness auto
termination
proof (relation "measure (\<lambda>(tot, b, m). length b)", goal_cases)
  case (2 tot ty b m len b1 k b2 nvals b3 y vs r)
  then have "length r \<le> length b3" using read_values_length [of ty nvals b3 vs r] by simp
  then show ?case using 2 by simp
qed simp

definition write_UnmarshalBinary :: "bytes \<Rightarrow> points \<Rightarrow> points result" where
  "write_UnmarshalBinary b m = read_points (length b) b m"

subsection \<open>Delete entries\<close>

definition newline :: byte where "newline = 10"

definition delete_MarshalSize :: "bytes list \<Rightarrow> nat" where
  "delete_MarshalSize keys = (if keys = [] then 0 else length keys + sum_list (map length keys))"

definition delete_Encode :: "bytes list \<Rightarrow> bytes result" where
  "delete_Encode keys =
     (let dst = concat (map (\<lambda>k. k @ [newline]) keys); n = length dst
      in if n = 0 then Inl Panic else Inr (take (n - 1) dst))"

text \<open>\<open>bytes.Split\<close> with a separator of one byte.\<close>

fun bytes_Split :: "byte \<Rightarrow> bytes \<Rightarrow> bytes list" where
  "bytes_Split c [] = [[]]"
| "bytes_Split c (b # bs) =
     (if b = c then [] # bytes_Split c bs
      else case bytes_Split c bs of [] \<Rightarrow> [[b]] | s # ss \<Rightarrow> (b # s) # ss)"

definition delete_UnmarshalBinary :: "bytes \<Rightarrow> bytes list \<Rightarrow> bytes list" where
  "delete_UnmarshalBinary b keys = (if length b = 0 then keys else bytes_Split newline b)"

definition range_MarshalSize :: "bytes list \<Rightarrow> nat" where
  "range_MarshalSize keys = 16 + length keys * 4 + sum_list (map length keys)"

definition range_Encode :: "bytes list \<Rightarrow> u64 \<Rightarrow> u64 \<Rightarrow> bytes result" where
  "range_Encode keys mn mx =
     Inr (put_u64 mn @ put_u64 mx @ concat (map (\<lambda>k. put_u32 (of_nat (length k)) @ k) keys))"

function read_keys :: "bytes \<Rightarrow> bytes list \<Rightarrow> bytes list result" where
  "read_keys b keys =
     (if b = [] then Inr keys
      else if length b < 4 then Inl ErrWALCorrupt
      else let sz = unat (get_u32 b); b1 = drop 4 b
           in if length b1 < sz then Inl ErrWALCorrupt
              else read_keys (drop sz b1) (keys @ [take sz b1]))"
  by pat_completeness auto
termination by (relation "measure (\<lambda>(b, keys). length b)") auto

declare read_keys.simps [simp del]

definition range_UnmarshalBinary :: "bytes \<Rightarrow> bytes list \<Rightarrow> (bytes list \<times> u64 \<times> u64) result" where
  "range_UnmarshalBinary b keys =
     (if length b < 16 then Inl ErrWALCorrupt
      else bind_result (read_keys (drop 16 b) keys) (\<lambda>keys. Inr (keys, get_u64 b, get_u64 (drop 8 b))))"

fun entry_Encode :: "WALEntry \<Rightarrow> bytes result" where
  "entry_Encode (WriteWALEntry ps) = write_Encode ps"
| "entry_Encode (DeleteWALEntry keys) = delete_Encode keys"
| "entry_Encode (DeleteRangeWALEntry keys mn mx) = range_Encode keys mn mx"

section \<open>The file\<close>

record WalFile =
  wf_size :: u32
  wf_Pos :: u32
  wf_Data :: bytes

text \<open>A new file of the given size.\<close>

definition wal_new :: "nat \<Rightarrow> WalFile" where
  "wal_new sz = \<lparr>wf_size = 0, wf_Pos = 0, wf_Data = replicate sz 0\<rparr>"

text \<open>\<open>Truncate\<close> cuts the file or extends it with zeros, and maps it again.\<close>

definition wal_Truncate :: "nat \<Rightarrow> WalFile \<Rightarrow> WalFile" where
  "wal_Truncate n f =
     (if length (wf_Data f) = n then f
      else f\<lparr>wf_size := of_nat n, wf_Data := take n (wf_Data f) @ replicate (n - length (wf_Data f)) 0\<rparr>)"

definition wal_grow :: "WalFile \<Rightarrow> WalFile" where
  "wal_grow f = (if unat (wf_Pos f) \<ge> length (wf_Data f) then wal_Truncate (unat (wf_Pos f)) f else f)"

definition wal_copy :: "int \<Rightarrow> bytes \<Rightarrow> WalFile \<Rightarrow> WalFile result" where
  "wal_copy start data f =
     (let n = length data
      in if start < 0 \<or> n \<noteq> min n (length (wf_Data f) - nat start) then Inl Panic
         else Inr (f\<lparr>wf_Data := take (nat start) (wf_Data f) @ data @ drop (nat start + n) (wf_Data f),
                     wf_size := wf_size f + of_nat n\<rparr>))"

definition wal_write :: "bytes \<Rightarrow> WalFile \<Rightarrow> WalFile result" where
  "wal_write data f =
     (let n = length data; newPos = wf_Pos f + of_nat n
      in wal_copy (int (unat newPos) - int n) data (wal_grow (f\<lparr>wf_Pos := newPos\<rparr>)))"

definition writeEntryToWal :: "(bytes \<Rightarrow> bytes) \<Rightarrow> WALEntry \<Rightarrow> WalFile \<Rightarrow> WalFile result" where
  "writeEntryToWal senc e f =
     bind_result (entry_Encode e) (\<lambda>b.
       let compressedData = senc b;
           header = entry_Type e # put_u32 (of_nat (length compressedData))
       in bind_result (wal_write header f) (wal_write compressedData))"

definition wal_WriteMulti :: "(bytes \<Rightarrow> bytes) \<Rightarrow> points \<Rightarrow> WalFile \<Rightarrow> WalFile result" where
  "wal_WriteMulti senc values f = writeEntryToWal senc (WriteWALEntry values) f"

definition wal_Remove :: "(bytes \<Rightarrow> bytes) \<Rightarrow> bytes list \<Rightarrow> WalFile \<Rightarrow> WalFile result" where
  "wal_Remove senc keys f = (if keys = [] then Inr f else writeEntryToWal senc (DeleteWALEntry keys) f)"

definition wal_RemoveRange :: "(bytes \<Rightarrow> bytes) \<Rightarrow> bytes list \<Rightarrow> u64 \<Rightarrow> u64 \<Rightarrow> WalFile \<Rightarrow> WalFile result" where
  "wal_RemoveRange senc keys mn mx f = (if keys = [] then Inr f else writeEntryToWal senc (DeleteRangeWALEntry keys mn mx) f)"

section \<open>The reader\<close>

record WALReader =
  wr_rest :: bytes
  wr_entry :: "WALEntry option"
  wr_n :: nat
  wr_err :: "error option"

definition NewWALReader :: "bytes \<Rightarrow> WALReader" where
  "NewWALReader data = \<lparr>wr_rest = data, wr_entry = None, wr_n = 0, wr_err = None\<rparr>"

text \<open>The entry made from its type and its data.\<close>

definition unmarshal_entry :: "byte \<Rightarrow> bytes \<Rightarrow> WALEntry result" where
  "unmarshal_entry ty data =
     (if ty = WriteWALEntryType then bind_result (write_UnmarshalBinary data []) (\<lambda>ps. Inr (WriteWALEntry ps))
      else if ty = DeleteWALEntryType then Inr (DeleteWALEntry (delete_UnmarshalBinary data []))
      else if ty = DeleteRangeWALEntryType then
        bind_result (range_UnmarshalBinary data []) (\<lambda>(keys, mn, mx). Inr (DeleteRangeWALEntry keys mn mx))
      else Inl ErrUnsupportedType)"

text \<open>
  \<open>Next\<close>. \<open>io.ReadFull\<close> consumes what is left when there is too little, and reports \<open>EOF\<close> when there
  is nothing. An entry that does not unmarshal leaves its error, which \<open>Read\<close> returns.
\<close>

definition wr_Next :: "(bytes \<Rightarrow> bytes option) \<Rightarrow> WALReader \<Rightarrow> bool \<times> WALReader" where
  "wr_Next sdec r =
     (let b = wr_rest r
      in if b = [] then (False, r)
         else if length b < 5 then (True, r\<lparr>wr_rest := [], wr_err := Some ErrEOF\<rparr>)
         else let entryType = b ! 0; len = unat (get_u32 (drop 1 b)); b1 = drop 5 b
              in if length b1 < len then (True, r\<lparr>wr_rest := [], wr_err := Some ErrEOF\<rparr>)
                 else let r1 = r\<lparr>wr_rest := drop len b1\<rparr>
                      in case sdec (take len b1) of
                           None \<Rightarrow> (True, r1\<lparr>wr_err := Some ErrSnappy\<rparr>)
                         | Some data \<Rightarrow>
                             (case unmarshal_entry entryType data of
                                Inl e \<Rightarrow> (True, r1\<lparr>wr_err := Some e\<rparr>)
                              | Inr en \<Rightarrow> (True, r1\<lparr>wr_entry := Some en, wr_err := None, wr_n := wr_n r1 + 5 + len\<rparr>)))"

definition wr_Read :: "WALReader \<Rightarrow> WALEntry option result" where
  "wr_Read r = (case wr_err r of Some e \<Rightarrow> Inl e | None \<Rightarrow> Inr (wr_entry r))"

text \<open>Reading a log that nobody writes to until its end: the entries, and the reader where it stops.\<close>

function read_log :: "(bytes \<Rightarrow> bytes option) \<Rightarrow> WALReader \<Rightarrow> WALEntry list \<times> WALReader" where
  "read_log sdec r =
     (let (more, r') = wr_Next sdec r
      in if \<not> more then ([], r')
         else case wr_Read r' of
                Inr (Some e) \<Rightarrow> let (es, r'') = read_log sdec r' in (e # es, r'')
              | _ \<Rightarrow> ([], r'))"
  by pat_completeness auto
termination
proof (relation "measure (\<lambda>(sdec, r). length (wr_rest r))", goal_cases)
  case (2 sdec r x more r' y z)
  then show ?case
    by (auto simp: wr_Next_def wr_Read_def Let_def split: if_splits option.splits sum.splits)
qed simp

declare read_log.simps [simp del]

section \<open>The format of a write entry\<close>

fun enc_payload :: "Value \<Rightarrow> bytes" where
  "enc_payload (FloatValue _ x) = put_u64 x"
| "enc_payload (IntegerValue _ x) = put_u64 x"
| "enc_payload (UnsignedValue _ x) = put_u64 x"
| "enc_payload (BooleanValue _ b) = [if b then 1 else 0]"
| "enc_payload (StringValue _ s) = put_u32 (of_nat (length s)) @ s"
| "enc_payload (PtrValue _ _ _ _) = []"

definition enc_values :: "Values \<Rightarrow> bytes" where
  "enc_values v = concat (map (\<lambda>x. put_u64 (unixNano x) @ enc_payload x) v)"

definition enc_point :: "bytes \<times> Values \<Rightarrow> bytes" where
  "enc_point p = (case p of (k, v) \<Rightarrow>
     the (curType (hd v)) # put_u16 (of_nat (length k)) @ k @ put_u32 (of_nat (length v)) @ enc_values v)"

definition enc_points :: "points \<Rightarrow> bytes" where
  "enc_points ps = concat (map enc_point ps)"

text \<open>What a write entry may hold: values of one type for each key, and lengths that fit their fields.\<close>

definition good_values :: "Values \<Rightarrow> bool" where
  "good_values v \<longleftrightarrow> v \<noteq> [] \<and> curType (hd v) \<noteq> None \<and>
     list_all (\<lambda>x. curType x = curType (hd v) \<and> length (enc_payload x) < 2 ^ 32) v \<and> length v < 2 ^ 32"

definition good_points :: "points \<Rightarrow> bool" where
  "good_points ps \<longleftrightarrow> distinct (map fst ps) \<and> list_all (\<lambda>(k, v). length k < 2 ^ 16 \<and> good_values v) ps"

lemma enc_values_simps [simp]:
  "enc_values [] = []" "enc_values (x # v) = put_u64 (unixNano x) @ enc_payload x @ enc_values v"
  by (simp_all add: enc_values_def)

lemma enc_points_simps [simp]: "enc_points [] = []" "enc_points (p # ps) = enc_point p @ enc_points ps"
  by (simp_all add: enc_points_def)

lemma length_enc_values_ge: "8 * length v \<le> length (enc_values v)"
  by (induction v) simp_all

lemma string_size_enc: "list_all (\<lambda>x. curType x = Some stringEntryType) v \<Longrightarrow> string_size v = Some (length (enc_values v) - 8 * length v)"
proof (induction v rule: string_size.induct)
  case (2 t s v)
  then show ?case using length_enc_values_ge [of v] by simp
qed (simp_all add: entry_types)

lemma fixed_size_enc:
  "list_all (\<lambda>x. length (enc_payload x) = w) v \<Longrightarrow> length (enc_values v) = (8 + w) * length v"
  by (induction v) simp_all

lemma values_size_enc:
  assumes "good_values v"
  shows "values_size v = Some (length (enc_values v) - 8 * length v)"
proof -
  obtain x xs where v: "v = x # xs" using assms by (cases v) (auto simp: good_values_def)
  have all: "list_all (\<lambda>y. curType y = curType x) v" using assms by (auto simp: good_values_def v list_all_iff)
  have w: "list_all (\<lambda>y. length (enc_payload y) = n) v" if "\<And>y. curType y = curType x \<Longrightarrow> length (enc_payload y) = n" for n
    using all that by (auto simp: list_all_iff)
  have eight: "list_all (\<lambda>y. length (enc_payload y) = 8) v" if "curType x \<in> {Some float64EntryType, Some integerEntryType, Some unsignedEntryType}"
  proof (rule w)
    fix y assume "curType y = curType x"
    then show "length (enc_payload y) = 8" using that by (cases y) (auto simp: entry_types)
  qed
  have one: "list_all (\<lambda>y. length (enc_payload y) = 1) v" if "curType x = Some booleanEntryType"
  proof (rule w)
    fix y assume "curType y = curType x"
    then show "length (enc_payload y) = 1" using that by (cases y) (auto simp: entry_types)
  qed
  show ?thesis
  proof (cases x)
    case (StringValue t s)
    then show ?thesis using string_size_enc [of v] all by (simp add: v)
  next
    case (BooleanValue t b)
    then show ?thesis using fixed_size_enc [OF one] by (simp add: v)
  next
    case (PtrValue t b mn mx)
    then show ?thesis using assms by (simp add: good_values_def v)
  qed (use fixed_size_enc [OF eight] in \<open>simp_all add: v\<close>)
qed

lemma write_MarshalSize_enc:
  assumes "list_all (\<lambda>(k, v). good_values v) ps"
  shows "write_MarshalSize ps = length (enc_points ps)"
proof -
  have "points_size n ps = n + length (enc_points ps) - 7 * length ps \<and> 7 * length ps \<le> length (enc_points ps)" for n
    using assms
  proof (induction ps arbitrary: n)
    case (Cons p ps)
    obtain k v where p: "p = (k, v)" by (cases p)
    have "values_size v = Some (length (enc_values v) - 8 * length v)" using Cons.prems values_size_enc by (simp add: p)
    then show ?case
      using Cons.IH [of "n + (length k + length (enc_values v))"] Cons.prems length_enc_values_ge [of v] by (simp add: p enc_point_def)
  qed simp
  from this [of "7 * length ps"] show ?thesis by (simp add: write_MarshalSize_def)
qed

lemma buf_put_ok: "length out + length bs \<le> cap \<Longrightarrow> buf_put cap bs out = Inr (out @ bs)"
  by (simp add: buf_put_def)

lemma buf_copy_ok: "length out + length bs \<le> cap \<Longrightarrow> buf_copy cap bs out = Inr (out @ bs)"
  by (simp add: buf_copy_def)

lemma encode_value_ok:
  assumes "curType x = Some ty" and "length out + length (enc_payload x) \<le> cap"
  shows "encode_value cap ty x out = Inr (out @ enc_payload x)"
  using assms by (cases x) (auto simp: buf_put_ok buf_copy_ok)

lemma encode_values_ok:
  "list_all (\<lambda>x. curType x = Some ty) v \<Longrightarrow> length out + length (enc_values v) \<le> cap \<Longrightarrow>
   encode_values cap ty v out = Inr (out @ enc_values v)"
  by (induction v arbitrary: out) (simp_all add: buf_put_ok encode_value_ok)

lemma encode_points_ok:
  "list_all (\<lambda>(k, v). good_values v) ps \<Longrightarrow> length out + length (enc_points ps) \<le> cap \<Longrightarrow>
   encode_points cap ps out = Inr (out @ enc_points ps)"
proof (induction ps arbitrary: out)
  case (Cons p ps)
  obtain k v where p: "p = (k, v)" by (cases p)
  obtain x xs ty where v: "v = x # xs" "curType x = Some ty" "list_all (\<lambda>x. curType x = Some ty) v"
    using Cons.prems(1) p by (cases v) (auto simp: good_values_def list_all_iff)
  show ?case
    using Cons v by (simp add: p enc_point_def buf_put_ok buf_copy_ok encode_value_ok encode_values_ok)
qed simp

lemma write_Encode_ok: "good_points ps \<Longrightarrow> write_Encode ps = Inr (enc_points ps)"
proof -
  assume "good_points ps"
  then have "list_all (\<lambda>(k, v). good_values v) ps" by (auto simp: good_points_def list_all_iff)
  then show ?thesis using encode_points_ok [of ps "[]"] by (simp add: write_Encode_def write_MarshalSize_enc)
qed

section \<open>Reading entries back\<close>

lemma unat_of_nat_u32: "n < 2 ^ 32 \<Longrightarrow> unat (of_nat n :: u32) = n"
  by (simp add: unat_of_nat)

lemma unat_of_nat_u16: "n < 2 ^ 16 \<Longrightarrow> unat (of_nat n :: u16) = n"
  by (simp add: unat_of_nat)

lemma read_fixed_enc:
  assumes "list_all (\<lambda>x. length (enc_payload x) = w \<and> (\<forall>r. mk (unixNano x) (enc_payload x @ r) = x)) v"
  shows "read_fixed w mk (length v) (enc_values v @ r) = (v, r)"
  using assms
proof (induction v)
  case (Cons x v)
  have "drop (8 + w) (enc_values (x # v) @ r) = enc_values v @ r" using Cons.prems by simp
  then have "read_fixed w mk (length v) (drop (8 + w) (enc_values (x # v) @ r)) = (v, r)" using Cons by simp
  then show ?case using Cons.prems by simp
qed simp

lemma read_strings_enc:
  assumes "list_all (\<lambda>x. curType x = Some stringEntryType \<and> length (enc_payload x) < 2 ^ 32) v"
  shows "read_strings (length v) (enc_values v @ r) = Inr (v, r)"
  using assms
proof (induction v)
  case (Cons x v)
  then obtain t s where x: "x = StringValue t s" by (cases x) (auto simp: entry_types)
  have len: "unat (of_nat (length s) :: u32) = length s" using Cons.prems x by (intro unat_of_nat_u32) simp
  show ?case using Cons by (simp add: x Let_def len)
qed simp

lemma read_values_enc:
  assumes "good_values v" and "curType (hd v) = Some ty"
  shows "read_values ty (length v) (enc_values v @ r) = Inr (v, r)"
proof -
  have all: "\<forall>x \<in> set v. curType x = Some ty \<and> length (enc_payload x) < 2 ^ 32"
    using assms by (auto simp: good_values_def list_all_iff)
  have fx: "read_fixed w mk (length v) (enc_values v @ r) = (v, r) \<and> (8 + w) * length v \<le> length (enc_values v @ r)"
    if "\<And>x r. curType x = Some ty \<Longrightarrow> length (enc_payload x) = w \<and> mk (unixNano x) (enc_payload x @ r) = x" for w mk
    using read_fixed_enc [of w mk v r] fixed_size_enc [of w v] that all by (simp add: list_all_iff)
  consider "ty = float64EntryType" | "ty = integerEntryType" | "ty = unsignedEntryType" | "ty = booleanEntryType" | "ty = stringEntryType"
    using assms(2) by (cases "hd v") auto
  then show ?thesis
  proof cases
    case 1
    have "length (enc_payload x) = 8 \<and> FloatValue (unixNano x) (get_u64 (enc_payload x @ r)) = x" if "curType x = Some ty" for x r
      using that 1 by (cases x) (auto simp: entry_types)
    from fx [of 8 "\<lambda>un x. FloatValue un (get_u64 x)", OF this] show ?thesis using 1 by (simp add: read_values_def)
  next
    case 2
    have "length (enc_payload x) = 8 \<and> IntegerValue (unixNano x) (get_u64 (enc_payload x @ r)) = x" if "curType x = Some ty" for x r
      using that 2 by (cases x) (auto simp: entry_types)
    from fx [of 8 "\<lambda>un x. IntegerValue un (get_u64 x)", OF this] show ?thesis using 2 by (simp add: read_values_def entry_types)
  next
    case 3
    have "length (enc_payload x) = 8 \<and> UnsignedValue (unixNano x) (get_u64 (enc_payload x @ r)) = x" if "curType x = Some ty" for x r
      using that 3 by (cases x) (auto simp: entry_types)
    from fx [of 8 "\<lambda>un x. UnsignedValue un (get_u64 x)", OF this] show ?thesis using 3 by (simp add: read_values_def entry_types)
  next
    case 4
    have "length (enc_payload x) = 1 \<and> BooleanValue (unixNano x) ((enc_payload x @ r) ! 0 = 1) = x" if "curType x = Some ty" for x r
      using that 4 by (cases x) (auto simp: entry_types)
    from fx [of 1 "\<lambda>un x. BooleanValue un (x ! 0 = 1)", OF this] show ?thesis using 4 by (simp add: read_values_def entry_types)
  next
    case 5
    then show ?thesis using read_strings_enc [of v r] all by (simp add: read_values_def entry_types list_all_iff)
  qed
qed

lemma map_assign_new: "k \<notin> fst ` set m \<Longrightarrow> map_assign k v m = m @ [(k, v)]"
  by (induction m) auto

declare read_points.simps [simp del]

lemma read_points_enc:
  "list_all (\<lambda>(k, v). length k < 2 ^ 16 \<and> good_values v) ps \<Longrightarrow> distinct (map fst (m @ ps)) \<Longrightarrow>
   length (enc_points ps) \<le> tot \<Longrightarrow> read_points tot (enc_points ps) m = Inr (m @ ps)"
proof (induction ps arbitrary: m)
  case Nil
  then show ?case by (simp add: read_points.simps)
next
  case (Cons p ps)
  obtain k v where p: "p = (k, v)" by (cases p)
  have k: "unat (of_nat (length k) :: u16) = length k" and good: "good_values v"
    using Cons.prems(1) by (simp_all add: p unat_of_nat_u16)
  have n: "unat (of_nat (length v) :: u32) = length v" using good by (intro unat_of_nat_u32) (simp add: good_values_def)
  obtain ty where ty: "curType (hd v) = Some ty" using good by (auto simp: good_values_def)
  have "length v \<le> tot" "v \<noteq> []"
    using Cons.prems(3) length_enc_values_ge [of v] good by (simp_all add: p enc_point_def good_values_def)
  moreover have "map_assign k v m = m @ [(k, v)]" using Cons.prems(2) by (intro map_assign_new) (auto simp: p)
  moreover have "read_points tot (enc_points ps) (m @ [(k, v)]) = Inr ((m @ [(k, v)]) @ ps)"
    using Cons.prems by (intro Cons.IH) (auto simp: p)
  ultimately show ?case
    by (simp add: p enc_point_def ty read_points.simps(2) Let_def k n read_values_enc [OF good ty])
qed

lemma write_roundtrip:
  "good_points ps \<Longrightarrow> write_UnmarshalBinary (enc_points ps) [] = Inr ps"
  using read_points_enc [of ps "[]" "length (enc_points ps)"] by (simp add: good_points_def write_UnmarshalBinary_def)

definition good_keys :: "bytes list \<Rightarrow> bool" where
  "good_keys keys \<longleftrightarrow> keys \<noteq> [] \<and> keys \<noteq> [[]] \<and> list_all (\<lambda>k. newline \<notin> set k) keys"

lemma bytes_Split_prefix: "c \<notin> set k \<Longrightarrow> bytes_Split c (k @ c # b) = k # bytes_Split c b"
  by (induction k) auto

lemma bytes_Split_last: "c \<notin> set k \<Longrightarrow> bytes_Split c k = [k]"
  by (induction k) auto

lemma delete_roundtrip:
  assumes "good_keys keys"
  shows "\<exists>b. delete_Encode keys = Inr b \<and> delete_UnmarshalBinary b [] = keys"
proof -
  obtain ks k where keys: "keys = ks @ [k]" using assms by (cases keys rule: rev_cases) (auto simp: good_keys_def)
  let ?pre = "concat (map (\<lambda>k. k @ [newline]) ks)"
  have "delete_Encode keys = Inr (?pre @ k)" by (simp add: delete_Encode_def keys)
  moreover have "?pre @ k \<noteq> []" using assms by (cases ks) (auto simp: good_keys_def keys)
  moreover have "bytes_Split newline (concat (map (\<lambda>k. k @ [newline]) ks) @ k) = ks @ [k]"
    if "list_all (\<lambda>k. newline \<notin> set k) (ks @ [k])" for ks
    using that by (induction ks) (simp_all add: bytes_Split_prefix bytes_Split_last)
  ultimately show ?thesis using assms by (auto simp: delete_UnmarshalBinary_def good_keys_def keys)
qed

lemma read_keys_enc:
  "list_all (\<lambda>k. length k < 2 ^ 32) keys \<Longrightarrow>
   read_keys (concat (map (\<lambda>k. put_u32 (of_nat (length k)) @ k) keys)) acc = Inr (acc @ keys)"
proof (induction keys arbitrary: acc)
  case Nil
  then show ?case by (simp add: read_keys.simps)
next
  case (Cons k keys)
  then have "unat (of_nat (length k) :: u32) = length k" by (simp add: unat_of_nat_u32)
  then show ?case using Cons by (subst read_keys.simps) (simp add: Let_def)
qed

lemma range_roundtrip:
  "list_all (\<lambda>k. length k < 2 ^ 32) keys \<Longrightarrow>
   \<exists>b. range_Encode keys mn mx = Inr b \<and> range_UnmarshalBinary b [] = Inr (keys, mn, mx)"
  by (simp add: range_Encode_def range_UnmarshalBinary_def read_keys_enc)

fun good_entry :: "WALEntry \<Rightarrow> bool" where
  "good_entry (WriteWALEntry ps) = good_points ps"
| "good_entry (DeleteWALEntry keys) = good_keys keys"
| "good_entry (DeleteRangeWALEntry keys mn mx) = list_all (\<lambda>k. length k < 2 ^ 32) keys"

lemma entry_roundtrip:
  assumes "good_entry e"
  obtains b where "entry_Encode e = Inr b" "unmarshal_entry (entry_Type e) b = Inr e"
proof (cases e)
  case (WriteWALEntry ps)
  then show thesis using assms that [of "enc_points ps"] by (simp add: write_Encode_ok write_roundtrip unmarshal_entry_def)
next
  case (DeleteWALEntry keys)
  then show thesis using assms that delete_roundtrip [of keys] by (auto simp: unmarshal_entry_def wal_types)
next
  case (DeleteRangeWALEntry keys mn mx)
  then show thesis using assms that range_roundtrip [of keys mn mx] by (auto simp: unmarshal_entry_def wal_types)
qed

section \<open>The log\<close>

text \<open>The bytes of an entry in the file, and of a sequence of entries.\<close>

definition wal_record :: "(bytes \<Rightarrow> bytes) \<Rightarrow> WALEntry \<Rightarrow> bytes" where
  "wal_record senc e =
     (case entry_Encode e of
        Inl _ \<Rightarrow> []
      | Inr b \<Rightarrow> entry_Type e # put_u32 (of_nat (length (senc b))) @ senc b)"

definition log_bytes :: "(bytes \<Rightarrow> bytes) \<Rightarrow> WALEntry list \<Rightarrow> bytes" where
  "log_bytes senc es = concat (map (wal_record senc) es)"

fun write_log :: "(bytes \<Rightarrow> bytes) \<Rightarrow> WALEntry list \<Rightarrow> WalFile \<Rightarrow> WalFile result" where
  "write_log senc [] f = Inr f"
| "write_log senc (e # es) f = bind_result (writeEntryToWal senc e f) (write_log senc es)"

text \<open>The file holds \<open>log\<close> up to its position, and zeros behind it.\<close>

definition wal_holds :: "WalFile \<Rightarrow> bytes \<Rightarrow> bool" where
  "wal_holds f log \<longleftrightarrow> unat (wf_Pos f) = length log \<and> (\<exists>k. wf_Data f = log @ replicate k 0)"

lemma log_bytes_simps [simp]: "log_bytes senc [] = []" "log_bytes senc (e # es) = wal_record senc e @ log_bytes senc es"
  by (simp_all add: log_bytes_def)

lemma log_bytes_append [simp]: "log_bytes senc (es @ es') = log_bytes senc es @ log_bytes senc es'"
  by (simp add: log_bytes_def)

lemma wal_new_holds: "wal_holds (wal_new sz) []"
  by (auto simp: wal_holds_def wal_new_def)

lemma wal_write_ok:
  assumes "wal_holds f log" and "length log + length data < 2 ^ 32"
  shows "\<exists>f'. wal_write data f = Inr f' \<and> wal_holds f' (log @ data)"
proof -
  obtain k where k: "wf_Data f = log @ replicate k 0" and pos: "unat (wf_Pos f) = length log"
    using assms(1) by (auto simp: wal_holds_def)
  define np where "np = wf_Pos f + of_nat (length data)"
  have np: "unat np = length log + length data"
  proof -
    have "np = of_nat (unat (wf_Pos f)) + of_nat (length data)" by (simp add: np_def)
    then have "np = of_nat (length log + length data)" by (simp add: pos del: of_nat_unat)
    then show ?thesis using unat_of_nat_u32 [OF assms(2)] by (simp only:)
  qed
  define f2 where "f2 = wal_grow (f\<lparr>wf_Pos := np\<rparr>)"
  have pos2: "wf_Pos f2 = np" by (simp add: f2_def wal_grow_def wal_Truncate_def)
  have "\<exists>k2. wf_Data f2 = log @ replicate k2 0 \<and> length data \<le> k2"
  proof (cases "unat np \<ge> length (wf_Data f)")
    case True
    then show ?thesis using np k by (auto simp: f2_def wal_grow_def wal_Truncate_def replicate_add [symmetric])
  next
    case False
    then show ?thesis using np k by (auto simp: f2_def wal_grow_def)
  qed
  then obtain k2 where k2: "wf_Data f2 = log @ replicate k2 0" "length data \<le> k2" by blast
  have "int (unat np) - int (length data) = int (length log)" using np by linarith
  then have "wal_write data f = wal_copy (int (length log)) data f2"
    by (simp only: wal_write_def Let_def np_def [symmetric] f2_def)
  also have "\<dots> = Inr (f2\<lparr>wf_Data := log @ data @ replicate (k2 - length data) 0, wf_size := wf_size f2 + of_nat (length data)\<rparr>)"
    using k2 by (simp add: wal_copy_def Let_def)
  finally show ?thesis using np pos2 by (auto simp: wal_holds_def)
qed

lemma writeEntry_ok:
  assumes "wal_holds f log" and "good_entry e" and "length log + length (wal_record senc e) < 2 ^ 32"
  shows "\<exists>f'. writeEntryToWal senc e f = Inr f' \<and> wal_holds f' (log @ wal_record senc e)"
proof -
  obtain b where b: "entry_Encode e = Inr b" using entry_roundtrip [OF assms(2)] by blast
  let ?h = "entry_Type e # put_u32 (of_nat (length (senc b)))"
  have r: "wal_record senc e = ?h @ senc b" by (simp add: wal_record_def b)
  obtain f1 where f1: "wal_write ?h f = Inr f1" "wal_holds f1 (log @ ?h)"
    using wal_write_ok [OF assms(1), of ?h] assms(3) r by auto
  obtain f2 where "wal_write (senc b) f1 = Inr f2" "wal_holds f2 ((log @ ?h) @ senc b)"
    using wal_write_ok [OF f1(2), of "senc b"] assms(3) r by auto
  then show ?thesis using f1 b r by (simp add: writeEntryToWal_def Let_def)
qed

lemma write_log_ok:
  "wal_holds f log \<Longrightarrow> list_all good_entry es \<Longrightarrow> length log + length (log_bytes senc es) < 2 ^ 32 \<Longrightarrow>
   \<exists>f'. write_log senc es f = Inr f' \<and> wal_holds f' (log @ log_bytes senc es)"
proof (induction es arbitrary: f log)
  case (Cons e es)
  obtain f1 where f1: "writeEntryToWal senc e f = Inr f1" "wal_holds f1 (log @ wal_record senc e)"
    using writeEntry_ok [OF Cons.prems(1), of e senc] Cons.prems(2,3) by auto
  then show ?case using Cons.IH [OF f1(2)] Cons.prems(2,3) by simp
qed simp

lemma wr_Next_record:
  assumes snappy: "\<And>x. sdec (senc x) = Some x" and "good_entry e" and "length (wal_record senc e) < 2 ^ 32"
    and "wr_rest r = wal_record senc e @ rest"
  shows "wr_Next sdec r = (True, r\<lparr>wr_rest := rest, wr_entry := Some e, wr_n := wr_n r + length (wal_record senc e), wr_err := None\<rparr>)"
proof -
  obtain b where b: "entry_Encode e = Inr b" "unmarshal_entry (entry_Type e) b = Inr e" using entry_roundtrip [OF assms(2)] by blast
  have r: "wal_record senc e = entry_Type e # put_u32 (of_nat (length (senc b))) @ senc b" by (simp add: wal_record_def b)
  have "unat (of_nat (length (senc b)) :: u32) = length (senc b)" using assms(3) r by (intro unat_of_nat_u32) simp
  then show ?thesis by (simp add: wr_Next_def assms(4) r Let_def snappy b(2))
qed

text \<open>Where the reader stops: at the end, at too few bytes for an entry, or at bytes snappy refuses.\<close>

definition log_end :: "(bytes \<Rightarrow> bytes option) \<Rightarrow> bytes \<Rightarrow> bool" where
  "log_end sdec b \<longleftrightarrow> length b < 5 \<or> length (drop 5 b) < unat (get_u32 (drop 1 b)) \<or>
     sdec (take (unat (get_u32 (drop 1 b))) (drop 5 b)) = None"

lemma read_log_end:
  assumes "log_end sdec (wr_rest r)" and "wr_err r = None"
  shows "\<exists>r'. read_log sdec r = ([], r') \<and> wr_n r' = wr_n r"
  using assms by (subst read_log.simps) (auto simp: log_end_def wr_Next_def wr_Read_def Let_def split: option.splits)

lemma read_log_records:
  assumes snappy: "\<And>x. sdec (senc x) = Some x"
  shows "list_all good_entry es \<Longrightarrow> length (log_bytes senc es) < 2 ^ 32 \<Longrightarrow> wr_err r = None \<Longrightarrow>
    wr_rest r = log_bytes senc es @ rest \<Longrightarrow> log_end sdec rest \<Longrightarrow>
    \<exists>r'. read_log sdec r = (es, r') \<and> wr_n r' = wr_n r + length (log_bytes senc es)"
proof (induction es arbitrary: r)
  case Nil
  then show ?case using read_log_end [of sdec r] by simp
next
  case (Cons e es)
  define r1 where "r1 = r\<lparr>wr_rest := log_bytes senc es @ rest, wr_entry := Some e, wr_n := wr_n r + length (wal_record senc e), wr_err := None\<rparr>"
  have "wr_Next sdec r = (True, r1)"
    using wr_Next_record [of sdec senc e r "log_bytes senc es @ rest", OF snappy] Cons.prems by (simp add: r1_def)
  moreover have "wr_Read r1 = Inr (Some e)" by (simp add: wr_Read_def r1_def)
  moreover obtain r' where "read_log sdec r1 = (es, r')" "wr_n r' = wr_n r1 + length (log_bytes senc es)"
    using Cons.IH [of r1] Cons.prems by (auto simp: r1_def)
  ultimately show ?case by (subst read_log.simps) (simp add: r1_def)
qed

lemma log_end_zeros: "sdec [] = None \<Longrightarrow> log_end sdec (replicate k 0)"
proof -
  assume "sdec [] = None"
  moreover have "get_u32 (drop 1 (replicate k 0)) = 0" if "5 \<le> k"
  proof -
    have "take 4 (drop 1 (replicate k 0)) = put_u32 0" using that by (simp add: min_def numeral_eq_Suc)
    then show ?thesis by (simp add: get_u32_def)
  qed
  ultimately show ?thesis by (cases "5 \<le> k") (simp_all add: log_end_def del: drop_replicate)
qed

lemma log_end_torn:
  assumes "m < length (wal_record senc e)" and "length (wal_record senc e) < 2 ^ 32"
  shows "log_end sdec (take m (wal_record senc e))"
proof (cases "m < 5")
  case False
  obtain b where b: "entry_Encode e = Inr b" using assms(1) by (cases "entry_Encode e") (simp_all add: wal_record_def)
  then have r: "wal_record senc e = entry_Type e # put_u32 (of_nat (length (senc b))) @ senc b" by (simp add: wal_record_def)
  have u: "unat (of_nat (length (senc b)) :: u32) = length (senc b)" using assms(2) r by (intro unat_of_nat_u32) simp
  obtain j where j: "m = 5 + j" using False by (metis le_add_diff_inverse not_less)
  have "take m (wal_record senc e) = entry_Type e # put_u32 (of_nat (length (senc b))) @ take j (senc b)"
    by (simp add: r j take_Cons')
  then show ?thesis using assms(1) by (simp add: log_end_def r j u)
qed (auto simp: log_end_def)

section \<open>Properties\<close>

text \<open>
  C20: Recovery. Entries appended to a new log file of any size, growing it as needed, are read
  back as they were written and in order; the reader stops at the unused zeros behind them
  and has counted exactly the bytes up to the write position. Snappy is assumed to invert itself
  and to refuse an empty block, and the log to stay below the 4 GB of its 32-bit position.
\<close>

theorem wal_recovery:
  assumes snappy: "\<And>x. sdec (senc x) = Some x" and empty: "sdec [] = None"
    and "list_all good_entry es" and "length (log_bytes senc es) < 2 ^ 32"
  shows "\<exists>f r. write_log senc es (wal_new sz) = Inr f \<and>
    read_log sdec (NewWALReader (wf_Data f)) = (es, r) \<and> wr_n r = unat (wf_Pos f)"
proof -
  obtain f where f: "write_log senc es (wal_new sz) = Inr f" "wal_holds f (log_bytes senc es)"
    using write_log_ok [OF wal_new_holds, of es senc sz] assms(3,4) by auto
  then obtain k where k: "wf_Data f = log_bytes senc es @ replicate k 0" by (auto simp: wal_holds_def)
  have "wr_err (NewWALReader (wf_Data f)) = None" "wr_rest (NewWALReader (wf_Data f)) = log_bytes senc es @ replicate k 0"
    by (simp_all add: NewWALReader_def k)
  from read_log_records [of sdec senc, OF snappy assms(3,4) this] log_end_zeros [of sdec k, OF empty]
  show ?thesis using f by (auto simp: wal_holds_def NewWALReader_def)
qed

text \<open>
  C21: A torn write loses nothing before it. When the file ends with a proper part of an entry's
  bytes, cut at any point of the header or of the data, the reader returns all earlier entries
  and counts exactly their bytes.
\<close>

theorem wal_torn_tail:
  assumes snappy: "\<And>x. sdec (senc x) = Some x"
    and "list_all good_entry es" and "length (log_bytes senc es) < 2 ^ 32"
    and "m < length (wal_record senc e)" and "length (wal_record senc e) < 2 ^ 32"
  shows "\<exists>r. read_log sdec (NewWALReader (log_bytes senc es @ take m (wal_record senc e))) = (es, r) \<and>
    wr_n r = length (log_bytes senc es)"
proof -
  let ?d = "log_bytes senc es @ take m (wal_record senc e)"
  have "wr_err (NewWALReader ?d) = None" "wr_rest (NewWALReader ?d) = ?d" by (simp_all add: NewWALReader_def)
  from read_log_records [of sdec senc, OF snappy assms(2,3) this log_end_torn [OF assms(4,5)]]
  show ?thesis by (simp add: NewWALReader_def)
qed

text \<open>A compression that only adds a byte, which inverts itself and refuses an empty block.\<close>

definition toy_enc :: "bytes \<Rightarrow> bytes" where "toy_enc b = 0 # b"
definition toy_dec :: "bytes \<Rightarrow> bytes option" where "toy_dec b = (case b of [] \<Rightarrow> None | _ # r \<Rightarrow> Some r)"

definition some_entries :: "WALEntry list" where
  "some_entries = [WriteWALEntry [([97], [IntegerValue 1 7, IntegerValue 2 8]), ([98], [StringValue 5 [104]])],
     DeleteRangeWALEntry [[97]] 1 1, DeleteWALEntry [[97], [98]]]"

lemma some_entries_good: "list_all good_entry some_entries"
  by (simp add: some_entries_def good_points_def good_values_def good_keys_def newline_def)

lemma some_entries_length: "length (log_bytes toy_enc some_entries) < 2 ^ 32"
proof -
  have "length (log_bytes toy_enc some_entries) = 103" by code_simp
  then show ?thesis by simp
qed

theorem wal_recovery_witness:
  "\<exists>f r. write_log toy_enc some_entries (wal_new 16) = Inr f \<and>
    read_log toy_dec (NewWALReader (wf_Data f)) = (some_entries, r) \<and> wr_n r = unat (wf_Pos f)"
  by (rule wal_recovery [OF _ _ some_entries_good some_entries_length]) (simp_all add: toy_enc_def toy_dec_def)

theorem wal_torn_tail_witness:
  "\<exists>r. read_log toy_dec (NewWALReader (log_bytes toy_enc some_entries @ take 7 (wal_record toy_enc (DeleteWALEntry [[97, 98, 99]])))) =
    (some_entries, r) \<and> wr_n r = length (log_bytes toy_enc some_entries)"
proof -
  have "length (wal_record toy_enc (DeleteWALEntry [[97, 98, 99]])) = 9" by code_simp
  then show ?thesis
    by (intro wal_torn_tail [OF _ some_entries_good some_entries_length]) (simp_all add: toy_enc_def toy_dec_def)
qed

end
