(* ===== verification/WalStream.thy ===== *)
theory WalStream
  imports Wal
begin

text \<open>
  The reader of the log on the mapped file it reads from: \<open>reader\<close> of \<open>storage/store/mmap_file.go\<close> behind the buffer of
  \<open>bufio.NewReader\<close>, and \<open>Next\<close> of \<open>storage/store/wal_reader.go\<close> on top of it. The bytes are those of the file at the
  time of each read, so that writes to the file between two calls are seen beyond what is buffered. The theory \<open>Wal\<close> has the same
  reader for a log that nobody writes to.
\<close>

section \<open>The stream\<close>

text \<open>
  The slice of the mapped file has \<open>st_len\<close> bytes and is read up to \<open>st_off\<close>; \<open>st_buf\<close> has the bytes that are buffered and not yet
  delivered, and \<open>st_eof\<close> the end that \<open>bufio\<close> has seen and not yet reported.
\<close>

record wal_stream =
  st_len :: nat
  st_off :: nat
  st_buf :: bytes
  st_eof :: bool

definition new_stream :: "nat \<Rightarrow> wal_stream" where
  "new_stream n = \<lparr>st_len = n, st_off = 0, st_buf = [], st_eof = False\<rparr>"

text \<open>
  The mapping is \<open>None\<close> when the file has been mapped anew since the reader was made: its slice is
  then memory that is no longer mapped, and touching it is a fault.
\<close>

definition mapped_Read :: "bytes option \<Rightarrow> nat \<Rightarrow> wal_stream \<Rightarrow> (bytes \<times> bool \<times> wal_stream) result" where
  "mapped_Read mapping k st =
     (if st_off st > st_len st then Inr ([], True, st)
      else let n = min k (st_len st - st_off st)
           in if n = 0 then Inr ([], 0 < k, st)
              else case mapping of
                     None \<Rightarrow> Inl Panic
                   | Some d \<Rightarrow> Inr (take n (drop (st_off st) d), n < k, st\<lparr>st_off := st_off st + n\<rparr>))"

definition defaultBufSize :: nat where
  "defaultBufSize = 4096"

text \<open>\<open>bufio.Reader.Read\<close> of a slice of \<open>k > 0\<close> bytes: one read of the file at most, and none while bytes are buffered.\<close>

definition bufio_Read :: "bytes option \<Rightarrow> nat \<Rightarrow> wal_stream \<Rightarrow> (bytes \<times> bool \<times> wal_stream) result" where
  "bufio_Read mapping k st =
     (if st_buf st \<noteq> [] then Inr (take k (st_buf st), False, st\<lparr>st_buf := drop k (st_buf st)\<rparr>)
      else if st_eof st then Inr ([], True, st\<lparr>st_eof := False\<rparr>)
      else if k \<ge> defaultBufSize then mapped_Read mapping k st
      else bind_result (mapped_Read mapping defaultBufSize st) (\<lambda>(bs, e, st1).
        if bs = [] then Inr ([], e, st1)
        else Inr (take k bs, False, st1\<lparr>st_buf := drop k bs, st_eof := e\<rparr>)))"

text \<open>\<open>io.ReadFull\<close>: what was read, which is shorter than \<open>k\<close> at the end of the file.\<close>

function ReadFull :: "bytes option \<Rightarrow> nat \<Rightarrow> bytes \<Rightarrow> wal_stream \<Rightarrow> (bytes \<times> wal_stream) result" where
  "ReadFull mapping k acc st =
     (if k = 0 then Inr (acc, st)
      else case bufio_Read mapping k st of
             Inl e \<Rightarrow> Inl e
           | Inr (bs, e, st1) \<Rightarrow>
               if e \<or> bs = [] then Inr (acc @ bs, st1) else ReadFull mapping (k - length bs) (acc @ bs) st1)"
  by pat_completeness auto
termination by (relation "measure (\<lambda>(mapping, k, acc, st). k)") (auto simp: length_greater_0_conv [symmetric] simp del: length_greater_0_conv)

declare ReadFull.simps [simp del]

section \<open>The reader\<close>

record LiveReader =
  lr_st :: wal_stream
  lr_entry :: "WALEntry option"
  lr_n :: nat
  lr_err :: "error option"

definition NewLiveReader :: "nat \<Rightarrow> LiveReader" where
  "NewLiveReader n = \<lparr>lr_st = new_stream n, lr_entry = None, lr_n = 0, lr_err = None\<rparr>"

definition live_Next :: "(bytes \<Rightarrow> bytes option) \<Rightarrow> bytes option \<Rightarrow> LiveReader \<Rightarrow> (bool \<times> LiveReader) result" where
  "live_Next sdec mapping r =
     bind_result (ReadFull mapping 5 [] (lr_st r)) (\<lambda>(lv, st1).
       if lv = [] then Inr (False, r\<lparr>lr_st := st1\<rparr>)
       else if length lv < 5 then Inr (True, r\<lparr>lr_st := st1, lr_err := Some ErrEOF\<rparr>)
       else let entryType = lv ! 0; len = unat (get_u32 (drop 1 lv))
            in bind_result (ReadFull mapping len [] st1) (\<lambda>(b, st2).
                 let r2 = r\<lparr>lr_st := st2\<rparr>
                 in if length b < len then Inr (True, r2\<lparr>lr_err := Some ErrEOF\<rparr>)
                    else case sdec b of
                           None \<Rightarrow> Inr (True, r2\<lparr>lr_err := Some ErrSnappy\<rparr>)
                         | Some data \<Rightarrow>
                             (case unmarshal_entry entryType data of
                                Inl e \<Rightarrow> Inr (True, r2\<lparr>lr_err := Some e\<rparr>)
                              | Inr en \<Rightarrow> Inr (True, r2\<lparr>lr_entry := Some en, lr_err := None, lr_n := lr_n r + 5 + len\<rparr>))))"

definition live_Read :: "LiveReader \<Rightarrow> WALEntry option result" where
  "live_Read r = (case lr_err r of Some e \<Rightarrow> Inl e | None \<Rightarrow> Inr (lr_entry r))"

section \<open>Every entry consumes bytes\<close>

definition avail :: "wal_stream \<Rightarrow> nat" where
  "avail st = length (st_buf st) + (st_len st - st_off st)"

lemma mapped_Read_avail:
  "mapped_Read mapping k st = Inr (bs, e, st') \<Longrightarrow> st_buf st' = st_buf st \<and> length bs + (st_len st' - st_off st') \<le> st_len st - st_off st"
  by (auto simp: mapped_Read_def Let_def split: if_splits option.splits)

lemma bufio_Read_avail: "bufio_Read mapping k st = Inr (bs, e, st') \<Longrightarrow> length bs + avail st' \<le> avail st"
  unfolding bufio_Read_def avail_def
  by (auto dest!: mapped_Read_avail simp: bind_result_eq_Inr split: if_splits)

lemma ReadFull_avail: "ReadFull mapping k acc st = Inr (b, st') \<Longrightarrow> length b + avail st' \<le> length acc + avail st"
proof (induction mapping k acc st rule: ReadFull.induct)
  case (1 mapping k acc st)
  show ?case
  proof (cases "k = 0")
    case False
    obtain bs e st1 where r: "bufio_Read mapping k st = Inr (bs, e, st1)"
      using 1(2) False by (subst (asm) ReadFull.simps) (auto split: sum.splits)
    have step: "ReadFull mapping k acc st = (if e \<or> bs = [] then Inr (acc @ bs, st1) else ReadFull mapping (k - length bs) (acc @ bs) st1)"
      using r False by (subst ReadFull.simps) simp
    show ?thesis
    proof (cases "e \<or> bs = []")
      case False
      have "length b + avail st' \<le> length (acc @ bs) + avail st1"
        using 1(1) [OF \<open>k \<noteq> 0\<close> r refl refl False] 1(2) step False by simp
      then show ?thesis using bufio_Read_avail [OF r] by simp
    qed (use step 1(2) bufio_Read_avail [OF r] in auto)
  qed (use 1(2) in \<open>simp add: ReadFull.simps\<close>)
qed

lemma live_Next_avail:
  assumes "live_Next sdec mapping r = Inr (ok, r')" and "live_Read r' = Inr en" and "ok"
  shows "avail (lr_st r') < avail (lr_st r)"
proof -
  obtain lv st1 where lv: "ReadFull mapping 5 [] (lr_st r) = Inr (lv, st1)" using assms(1) by (auto simp: live_Next_def bind_result_eq_Inr)
  have l5: "\<not> length lv < 5" "lv \<noteq> []" using assms lv by (auto simp: live_Next_def live_Read_def split: if_splits)
  let ?len = "unat (get_u32 (drop 1 lv))"
  obtain b st2 where b: "ReadFull mapping ?len [] st1 = Inr (b, st2)" using assms(1) lv l5 by (auto simp: live_Next_def Let_def bind_result_eq_Inr)
  have "lr_st r' = st2" using assms(1) lv l5 b by (auto simp: live_Next_def Let_def split: if_splits option.splits sum.splits)
  then show ?thesis using ReadFull_avail [OF lv] ReadFull_avail [OF b] l5(1) by simp
qed

section \<open>Reading what the file holds\<close>

text \<open>The bytes the reader has still to deliver, and the stream in step with the file.\<close>

definition view :: "bytes \<Rightarrow> wal_stream \<Rightarrow> bytes" where
  "view d st = st_buf st @ drop (st_off st) d"

definition stream_ok :: "bytes \<Rightarrow> wal_stream \<Rightarrow> bool" where
  "stream_ok d st \<longleftrightarrow> st_len st = length d \<and> st_off st \<le> length d \<and> (st_eof st \<longrightarrow> st_off st = length d)"

lemma mapped_Read_ok:
  assumes "stream_ok d st"
  shows "\<exists>st'. mapped_Read (Some d) k st = Inr (take k (drop (st_off st) d), length d - st_off st < k, st') \<and>
    stream_ok d (st'\<lparr>st_eof := length d - st_off st < k\<rparr>) \<and> st' = st\<lparr>st_off := st_off st'\<rparr> \<and> drop (st_off st') d = drop k (drop (st_off st) d)"
proof -
  let ?n = "min k (st_len st - st_off st)"
  have len: "st_len st = length d" "st_off st \<le> length d" using assms by (simp_all add: stream_ok_def)
  have "take ?n (drop (st_off st) d) = take k (drop (st_off st) d)" "drop (st_off st + ?n) d = drop k (drop (st_off st) d)"
    using len by (auto simp: min_def add.commute)
  then show ?thesis
    using len by (intro exI [of _ "st\<lparr>st_off := st_off st + ?n\<rparr>"]) (auto simp: mapped_Read_def stream_ok_def Let_def min_def)
qed

lemma drop_take_append: "k \<le> w \<Longrightarrow> drop k (take w xs) @ drop w xs = drop k xs"
proof -
  assume "k \<le> w"
  have "drop k xs = take (w - k) (drop k xs) @ drop (w - k) (drop k xs)" by (simp only: append_take_drop_id)
  then show ?thesis using \<open>k \<le> w\<close> by (simp add: drop_take)
qed

lemma bufio_Read_ok:
  assumes "stream_ok d st" and "0 < k"
  shows "\<exists>bs e st'. bufio_Read (Some d) k st = Inr (bs, e, st') \<and> stream_ok d st' \<and> length bs \<le> k \<and> view d st = bs @ view d st' \<and>
    (e \<or> bs = [] \<longrightarrow> length (view d st) \<le> k \<and> view d st' = [])"
proof (cases "st_buf st = []")
  case False
  then show ?thesis
    using assms by (intro exI [of _ "take k (st_buf st)"] exI [of _ False] exI [of _ "st\<lparr>st_buf := drop k (st_buf st)\<rparr>"])
      (auto simp: bufio_Read_def stream_ok_def view_def)
next
  case nb: True
  show ?thesis
  proof (cases "st_eof st")
    case True
    then show ?thesis using assms nb by (intro exI [of _ "[]"] exI [of _ True] exI [of _ "st\<lparr>st_eof := False\<rparr>"])
      (auto simp: bufio_Read_def stream_ok_def view_def)
  next
    case ne: False
    define w where "w = (if k \<ge> defaultBufSize then k else defaultBufSize)"
    have w: "k \<le> w" "0 < w" by (simp_all add: w_def defaultBufSize_def)
    obtain st1 where r: "mapped_Read (Some d) w st = Inr (take w (drop (st_off st) d), length d - st_off st < w, st1)"
        "stream_ok d (st1\<lparr>st_eof := length d - st_off st < w\<rparr>)" "st1 = st\<lparr>st_off := st_off st1\<rparr>" "drop (st_off st1) d = drop w (drop (st_off st) d)"
      using mapped_Read_ok [OF assms(1)] by blast
    have eof1: "st_eof st1 = False" "st_buf st1 = []" using r(3) ne nb by (metis wal_stream.select_convs(3,4) wal_stream.surjective wal_stream.update_convs(2))+
    have ok1: "stream_ok d st1" using r(2) eof1 by (simp add: stream_ok_def)
    have v: "view d st = drop (st_off st) d" using nb by (simp add: view_def)
    show ?thesis
    proof (cases "k \<ge> defaultBufSize")
      case True
      then have "bufio_Read (Some d) k st = Inr (take k (drop (st_off st) d), length d - st_off st < k, st1)"
        using r(1) nb ne by (simp add: bufio_Read_def w_def)
      moreover have "view d st1 = drop k (drop (st_off st) d)" using r(4) eof1(2) True by (simp add: view_def w_def)
      ultimately show ?thesis using ok1 v assms(2)
        by (intro exI [of _ "take k (drop (st_off st) d)"] exI [of _ "length d - st_off st < k"] exI [of _ st1])
          (auto simp del: drop_drop)
    next
      case False
      show ?thesis
      proof (cases "drop (st_off st) d = []")
        case True
        then have "bufio_Read (Some d) k st = Inr ([], length d - st_off st < w, st1)" using r(1) nb ne False by (simp add: bufio_Read_def w_def)
        then show ?thesis using ok1 v r(4) True eof1(2) by (intro exI [of _ "[]"]) (auto simp: view_def)
      next
        case nd: False
        let ?bs = "take w (drop (st_off st) d)" and ?st = "st1\<lparr>st_buf := drop k (take w (drop (st_off st) d)), st_eof := length d - st_off st < w\<rparr>"
        have "?bs \<noteq> []" using nd w(2) by simp
        then have b: "bufio_Read (Some d) k st = Inr (take k ?bs, False, ?st)" using r(1) nb ne False by (simp add: bufio_Read_def w_def)
        have ok: "stream_ok d ?st" using r(2) by (simp add: stream_ok_def)
        have "drop k ?bs @ drop w (drop (st_off st) d) = drop k (drop (st_off st) d)"
          by (rule drop_take_append [OF w(1)])
        then have vw: "view d ?st = drop k (drop (st_off st) d)" using r(4) by (simp add: view_def)
        have "take k ?bs = take k (drop (st_off st) d)" using w(1) by (simp add: min_absorb1)
        then show ?thesis using b ok vw v nd assms(2) by (intro exI [of _ "take k ?bs"] exI [of _ False] exI [of _ ?st]) (simp del: drop_drop take_take)
      qed
    qed
  qed
qed

lemma ReadFull_ok:
  assumes "stream_ok d st"
  shows "\<exists>st'. ReadFull (Some d) k acc st = Inr (acc @ take k (view d st), st') \<and> stream_ok d st' \<and> view d st' = drop k (view d st)"
  using assms
proof (induction k arbitrary: acc st rule: less_induct)
  case (less k)
  show ?case
  proof (cases "k = 0")
    case True
    then show ?thesis using less.prems by (simp add: ReadFull.simps)
  next
    case False
    obtain bs e st1 where r: "bufio_Read (Some d) k st = Inr (bs, e, st1)" "stream_ok d st1" "length bs \<le> k" "view d st = bs @ view d st1"
        "e \<or> bs = [] \<longrightarrow> length (view d st) \<le> k \<and> view d st1 = []"
      using bufio_Read_ok [OF less.prems, of k] False by blast
    show ?thesis
    proof (cases "e \<or> bs = []")
      case True
      then show ?thesis using False r by (subst ReadFull.simps) auto
    next
      case go: False
      have "k - length bs < k" using go False by simp
      then obtain st' where "ReadFull (Some d) (k - length bs) (acc @ bs) st1 = Inr ((acc @ bs) @ take (k - length bs) (view d st1), st')"
          "stream_ok d st'" "view d st' = drop (k - length bs) (view d st1)" using less.IH r(2) by blast
      then show ?thesis using False go r(1,3) by (subst ReadFull.simps) (simp add: r(4))
    qed
  qed
qed

text \<open>On a file that does not change, the live reader is the reader of \<open>Wal\<close> on the bytes that are left.\<close>

definition static_reader :: "bytes \<Rightarrow> LiveReader \<Rightarrow> WALReader" where
  "static_reader d r = \<lparr>wr_rest = view d (lr_st r), wr_entry = lr_entry r, wr_n = lr_n r, wr_err = lr_err r\<rparr>"

lemma live_Next_static:
  assumes "stream_ok d (lr_st r)"
  shows "\<exists>ok r'. live_Next sdec (Some d) r = Inr (ok, r') \<and> stream_ok d (lr_st r') \<and>
    wr_Next sdec (static_reader d r) = (ok, static_reader d r')"
proof -
  let ?b = "view d (lr_st r)"
  obtain st1 where 1: "ReadFull (Some d) 5 [] (lr_st r) = Inr (take 5 ?b, st1)" "stream_ok d st1" "view d st1 = drop 5 ?b"
    using ReadFull_ok [OF assms, of 5 "[]"] by auto
  show ?thesis
  proof (cases "length ?b < 5")
    case True
    then show ?thesis using 1 by (cases ?b) (auto simp: live_Next_def wr_Next_def static_reader_def)
  next
    case False
    let ?len = "unat (get_u32 (drop 1 ?b))"
    have hd: "take 5 ?b ! 0 = ?b ! 0" by simp
    have "take 4 (drop 1 (take 5 ?b)) = take 4 (drop 1 ?b)" by (simp add: drop_take)
    then have g: "get_u32 (drop 1 (take 5 ?b)) = get_u32 (drop 1 ?b)" by (simp add: get_u32_def)
    obtain st2 where 2: "ReadFull (Some d) ?len [] st1 = Inr (take ?len (drop 5 ?b), st2)" "stream_ok d st2" "view d st2 = drop ?len (drop 5 ?b)"
      using ReadFull_ok [OF 1(2), of ?len "[]"] 1(3) by auto
    have ne: "?b \<noteq> []" using False by auto
    show ?thesis
      using 1(1) 2 False ne g unfolding live_Next_def wr_Next_def static_reader_def
      by (auto simp: Let_def not_less split: option.splits sum.splits)
  qed
qed

text \<open>Writes to bytes that the reader has passed do not disturb it.\<close>

lemma view_write:
  assumes "stream_ok d st" and "n \<le> length d - length (view d st)" and "length d' = length d" and "drop n d' = drop n d"
  shows "stream_ok d' st \<and> view d' st = view d st"
proof -
  have "n \<le> st_off st" using assms(1,2) by (simp add: view_def stream_ok_def)
  then have "drop (st_off st) d' = drop (st_off st) d" using assms(4) by (metis drop_drop le_add_diff_inverse2)
  then show ?thesis using assms(1,3) by (simp add: stream_ok_def view_def)
qed

end
