(* ===== verification/MemTable.thy ===== *)
theory MemTable
  imports Cache WalStream
begin

text \<open>
  A memory table, \<open>storage/memory/memtable.go\<close>: a cache and the write-ahead log in front of it. Every
  write is appended to the log before it is put into the cache, and a table is rebuilt
  from the log when it is opened. A batch of a \<open>WriteMulti\<close> is the list of its pairs in
  the order the map is iterated in; the random draws of the skip list are the argument \<open>rnd\<close>.
\<close>

record MemTable =
  mt_fid :: nat
  mt_Cache :: Cache
  mt_wal :: WalFile
  mt_max :: nat
  mt_NewTable :: bool

text \<open>
  An error of the log leaves the log as it was, since encoding comes before the first write; a
  panic is passed on.
\<close>

definition log_then :: "WalFile result \<Rightarrow> MemTable \<Rightarrow> (MemTable \<Rightarrow> (error option \<times> MemTable) result) \<Rightarrow>
    (error option \<times> MemTable) result" where
  "log_then r m k =
     (case r of
        Inr w \<Rightarrow> k (m\<lparr>mt_wal := w\<rparr>)
      | Inl e \<Rightarrow> if e = Panic then Inl Panic else Inr (Some e, m))"

definition lifecycle_of :: "(bytes \<times> int) list option \<Rightarrow> bytes \<Rightarrow> int" where
  "lifecycle_of lcs k =
     (case lcs of None \<Rightarrow> 0 | Some l \<Rightarrow> (case map_of l k of Some n \<Rightarrow> n | None \<Rightarrow> 0))"

text \<open>
  What the loop over the batch puts. The batch is a map, which the code iterates once for the log and once for the cache; here both
  follow the list. The puts of a batch are on different keys, so that their order shows only in the shape of the skip list and,
  when one is refused, in which of the others came before it.
\<close>

definition puts_of :: "(bytes \<Rightarrow> nat \<Rightarrow> u32) \<Rightarrow> (bytes \<times> int) list option \<Rightarrow> points \<Rightarrow> ((nat \<Rightarrow> u32) \<times> bytes \<times> Values \<times> int) list" where
  "puts_of rnd lcs ps = map (\<lambda>(k, v). (rnd k, k, v, lifecycle_of lcs k)) ps"

definition mt_WriteMulti :: "(bytes \<Rightarrow> bytes) \<Rightarrow> (bytes \<Rightarrow> nat \<Rightarrow> u32) \<Rightarrow> points \<Rightarrow> (bytes \<times> int) list option \<Rightarrow>
    MemTable \<Rightarrow> (error option \<times> MemTable) result" where
  "mt_WriteMulti senc rnd ps lcs m =
     log_then (wal_WriteMulti senc ps (mt_wal m)) m (\<lambda>m1.
       bind_result (put_batch Put (puts_of rnd lcs ps) (mt_Cache m1)) (\<lambda>(err, c).
         Inr (err, m1\<lparr>mt_Cache := c\<rparr>)))"

definition MinInt64 :: u64 where "MinInt64 = push_bit 63 1"
definition MaxInt64 :: u64 where "MaxInt64 = mask 63"

definition delete_key :: "u64 \<Rightarrow> u64 \<Rightarrow> bytes \<Rightarrow> Cache \<Rightarrow> Cache result" where
  "delete_key mn mx k c =
     bind_result (Get k c) (\<lambda>e.
       case e of
         None \<Rightarrow> Inr c
       | Some p \<Rightarrow>
           (case nd_entry (c_heap c ! p) of
              None \<Rightarrow> Inl Panic
            | Some e \<Rightarrow>
                let origSize = of_nat (entry_Size e) :: u32;
                    e1 = (if mn = MinInt64 \<and> mx = MaxInt64 then entry_Clean e else e);
                    e2 = entry_Filter (sint mn) (sint mx) e1
                in Inr (DecreaseSize (origSize - of_nat (entry_Size e2)) (c\<lparr>c_heap := set_entry p e2 (c_heap c)\<rparr>))))"

fun delete_keys :: "u64 \<Rightarrow> u64 \<Rightarrow> bytes list \<Rightarrow> Cache \<Rightarrow> Cache result" where
  "delete_keys mn mx [] c = Inr c"
| "delete_keys mn mx (k # ks) c = bind_result (delete_key mn mx k c) (delete_keys mn mx ks)"

definition mt_DeleteRange :: "bytes list \<Rightarrow> u64 \<Rightarrow> u64 \<Rightarrow> MemTable \<Rightarrow> MemTable result" where
  "mt_DeleteRange keys mn mx m =
     bind_result (delete_keys mn mx keys (mt_Cache m)) (\<lambda>c. Inr (m\<lparr>mt_Cache := c\<rparr>))"

definition mt_Delete :: "bytes list \<Rightarrow> MemTable \<Rightarrow> MemTable result" where
  "mt_Delete keys m = mt_DeleteRange keys MinInt64 MaxInt64 m"

definition mt_IsFull :: "MemTable \<Rightarrow> bool" where
  "mt_IsFull m \<longleftrightarrow> c_size (mt_Cache m) \<ge> of_nat (mt_max m) \<or> wf_Pos (mt_wal m) \<ge> of_nat (mt_max m)"

definition mt_IncrRef :: "MemTable \<Rightarrow> MemTable" where
  "mt_IncrRef m = m\<lparr>mt_Cache := Ref (mt_Cache m)\<rparr>"

text \<open>The handler that \<open>Deref\<close> runs deletes the log file.\<close>

definition mt_DecrRef :: "MemTable \<Rightarrow> MemTable" where
  "mt_DecrRef m =
     (let (ran, c) = Deref (mt_Cache m)
      in m\<lparr>mt_Cache := c, mt_wal := if ran then (mt_wal m)\<lparr>wf_Data := []\<rparr> else mt_wal m\<rparr>)"

section \<open>Recovery\<close>

fun replay_entry :: "(bytes \<Rightarrow> bytes) \<Rightarrow> (bytes \<Rightarrow> nat \<Rightarrow> u32) \<Rightarrow> WALEntry \<Rightarrow> MemTable \<Rightarrow> (error option \<times> MemTable) result" where
  "replay_entry senc rnd (WriteWALEntry ps) m = mt_WriteMulti senc rnd ps None m"
| "replay_entry senc rnd (DeleteRangeWALEntry keys mn mx) m = bind_result (mt_DeleteRange keys mn mx m) (\<lambda>m. Inr (None, m))"
| "replay_entry senc rnd (DeleteWALEntry keys) m = bind_result (mt_Delete keys m) (\<lambda>m. Inr (None, m))"

text \<open>The values of an entry that was read are a map again; the \<open>i\<close>-th is iterated in the order \<open>ord i\<close>.\<close>

fun iterate_entry :: "(points \<Rightarrow> points) \<Rightarrow> WALEntry \<Rightarrow> WALEntry" where
  "iterate_entry order (WriteWALEntry ps) = WriteWALEntry (order ps)"
| "iterate_entry order e = e"

text \<open>
  The loop of \<open>restoreFromWAL\<close>. The reader runs over the mapped file, and the replayed writes are appended to the same file from
  its start: each call of \<open>Next\<close> reads, beyond what is buffered, the bytes the file has by then. A write that
  makes the file grow maps it anew.
\<close>

definition mapping :: "LiveReader \<Rightarrow> MemTable \<Rightarrow> bytes option" where
  "mapping r m = (if length (wf_Data (mt_wal m)) = st_len (lr_st r) then Some (wf_Data (mt_wal m)) else None)"

function restore_loop :: "(bytes \<Rightarrow> bytes) \<Rightarrow> (bytes \<Rightarrow> bytes option) \<Rightarrow> (bytes \<Rightarrow> nat \<Rightarrow> u32) \<Rightarrow> (nat \<Rightarrow> points \<Rightarrow> points) \<Rightarrow> nat \<Rightarrow>
    LiveReader \<Rightarrow> MemTable \<Rightarrow> (error option \<times> LiveReader \<times> MemTable) result" where
  "restore_loop senc sdec rnd ord i r m =
     (case live_Next sdec (mapping r m) r of
        Inl e \<Rightarrow> Inl e
      | Inr (ok, r1) \<Rightarrow>
          if \<not> ok then Inr (None, r1, m)
          else case live_Read r1 of
                 Inl _ \<Rightarrow> Inr (None, r1, m)
               | Inr None \<Rightarrow> restore_loop senc sdec rnd ord (i + 1) r1 m
               | Inr (Some e) \<Rightarrow>
                   (case replay_entry senc rnd (iterate_entry (ord i) e) m of
                      Inl x \<Rightarrow> Inl x
                    | Inr (Some x, m1) \<Rightarrow> Inr (Some x, r1, m1)
                    | Inr (None, m1) \<Rightarrow> restore_loop senc sdec rnd ord (i + 1) r1 m1))"
  by pat_completeness auto
termination
  by (relation "measure (\<lambda>(senc, sdec, rnd, ord, i, r, m). avail (lr_st r))") (auto dest: live_Next_avail)

declare restore_loop.simps [simp del]

definition restoreFromWAL :: "(bytes \<Rightarrow> bytes) \<Rightarrow> (bytes \<Rightarrow> bytes option) \<Rightarrow> (bytes \<Rightarrow> nat \<Rightarrow> u32) \<Rightarrow> (nat \<Rightarrow> points \<Rightarrow> points) \<Rightarrow> MemTable \<Rightarrow>
    (error option \<times> MemTable) result" where
  "restoreFromWAL senc sdec rnd ord m =
     bind_result (restore_loop senc sdec rnd ord 0 (NewLiveReader (length (wf_Data (mt_wal m)))) m) (\<lambda>(err, r, m1).
       case err of
         Some x \<Rightarrow> Inr (Some x, m1)
       | None \<Rightarrow> Inr (None, m1\<lparr>mt_wal := (mt_wal m1)\<lparr>wf_Pos := of_nat (lr_n r)\<rparr>\<rparr>))"

text \<open>
  \<open>OpenMemTable\<close> on the contents of the log file, empty for a new or truncated one; the file gets
  the size of two tables. It fails when the log cannot be replayed.
\<close>

definition OpenMemTable :: "(bytes \<Rightarrow> bytes) \<Rightarrow> (bytes \<Rightarrow> bytes option) \<Rightarrow> (bytes \<Rightarrow> nat \<Rightarrow> u32) \<Rightarrow> (nat \<Rightarrow> points \<Rightarrow> points) \<Rightarrow> nat \<Rightarrow> nat \<Rightarrow> bytes \<Rightarrow>
    (error option \<times> MemTable) result" where
  "OpenMemTable senc sdec rnd ord fid maxSize content =
     (let newFile = (maxSize > 0 \<and> content = []);
          w = (if newFile then wal_new (2 * maxSize)
               else \<lparr>wf_size = of_nat (length content), wf_Pos = 0, wf_Data = content\<rparr>);
          m = \<lparr>mt_fid = fid, mt_Cache = NewCache\<lparr>c_Handler := True\<rparr>, mt_wal = w, mt_max = maxSize, mt_NewTable = newFile\<rparr>
      in if newFile then Inr (None, m) else restoreFromWAL senc sdec rnd ord m)"

text \<open>\<open>NewMemTable\<close> refuses a file that exists.\<close>

definition NewMemTable :: "(bytes \<Rightarrow> bytes) \<Rightarrow> (bytes \<Rightarrow> bytes option) \<Rightarrow> (bytes \<Rightarrow> nat \<Rightarrow> u32) \<Rightarrow> (nat \<Rightarrow> points \<Rightarrow> points) \<Rightarrow> nat \<Rightarrow> nat \<Rightarrow> bytes \<Rightarrow>
    (error + MemTable) result" where
  "NewMemTable senc sdec rnd ord fid maxSize content =
     bind_result (OpenMemTable senc sdec rnd ord fid maxSize content) (\<lambda>(err, m).
       case err of Some e \<Rightarrow> Inr (Inl e) | None \<Rightarrow> if mt_NewTable m then Inr (Inr m) else Inr (Inl ErrFileExists))"

section \<open>What the log and the cache hold after writes\<close>

text \<open>A client's batches, one \<open>WriteMulti\<close> after the other until one is refused.\<close>

type_synonym batch = "points \<times> (bytes \<times> int) list option"

fun write_batches :: "(bytes \<Rightarrow> bytes) \<Rightarrow> (bytes \<Rightarrow> nat \<Rightarrow> u32) \<Rightarrow> batch list \<Rightarrow> MemTable \<Rightarrow> (error option \<times> MemTable) result" where
  "write_batches senc rnd [] m = Inr (None, m)"
| "write_batches senc rnd ((ps, lcs) # bs) m =
     bind_result (mt_WriteMulti senc rnd ps lcs m) (\<lambda>(err, m1).
       case err of Some x \<Rightarrow> Inr (Some x, m1) | None \<Rightarrow> write_batches senc rnd bs m1)"

definition batch_entries :: "batch list \<Rightarrow> WALEntry list" where
  "batch_entries bs = map (\<lambda>(ps, _). WriteWALEntry ps) bs"

definition batch_puts :: "(bytes \<Rightarrow> nat \<Rightarrow> u32) \<Rightarrow> batch list \<Rightarrow> ((nat \<Rightarrow> u32) \<times> bytes \<times> Values \<times> int) list" where
  "batch_puts rnd bs = concat (map (\<lambda>(ps, lcs). puts_of rnd lcs ps) bs)"

definition erase_lifecycles :: "series \<Rightarrow> series" where
  "erase_lifecycles m k = map_option (\<lambda>(_, e). (0, e)) (m k)"

abbreviation spec_puts :: "((nat \<Rightarrow> u32) \<times> bytes \<times> Values \<times> int) list \<Rightarrow> series \<Rightarrow> (error option \<times> series) result" where
  "spec_puts \<equiv> put_batch (\<lambda>_. series_Put)"

lemma put_batch_append:
  "put_batch f (xs @ ys) c =
   bind_result (put_batch f xs c) (\<lambda>(err, c'). case err of Some e \<Rightarrow> Inr (Some e, c') | None \<Rightarrow> put_batch f ys c')"
proof (induction xs arbitrary: c)
  case (Cons x xs)
  obtain r k vs lc where x: "x = (r, k, vs, lc)" by (cases x)
  show ?case
  proof (cases "f r k vs lc c")
    case (Inr y)
    obtain err c' where y: "y = (err, c')" by (cases y)
    then show ?thesis using Inr Cons x by (cases err) simp_all
  qed (simp add: x)
qed simp

lemma batch_simps [simp]:
  "batch_entries [] = []" "batch_entries ((ps, lcs) # bs) = WriteWALEntry ps # batch_entries bs"
  "batch_puts rnd [] = []" "batch_puts rnd ((ps, lcs) # bs) = puts_of rnd lcs ps @ batch_puts rnd bs"
  by (simp_all add: batch_entries_def batch_puts_def)

lemma put_batch_cases:
  assumes "cache_inv c"
  obtains e where "put_batch Put xs c = Inl e" "spec_puts xs (cache_series c) = Inl e"
  | err c' where "put_batch Put xs c = Inr (err, c')" "cache_inv c'" "spec_puts xs (cache_series c) = Inr (err, cache_series c')"
  using cache_store.batch_refines [OF assms, of xs] by (auto simp: refines_def split: sum.splits prod.splits)

lemma wal_WriteMulti_ok:
  assumes "wal_holds f log" and "good_points ps" and "length log + length (wal_record senc (WriteWALEntry ps)) < 2 ^ 32"
  obtains f' where "wal_WriteMulti senc ps f = Inr f'" "wal_holds f' (log @ wal_record senc (WriteWALEntry ps))"
  using writeEntry_ok [OF assms(1), of "WriteWALEntry ps" senc] assms(2,3) by (auto simp: wal_WriteMulti_def)

text \<open>
  After any number of batches the log holds the entries of those that were tried, the last
  of them perhaps refused, and the cache is what putting them makes it.
\<close>

lemma write_batches_ok:
  "cache_inv (mt_Cache m) \<Longrightarrow> wal_holds (mt_wal m) log \<Longrightarrow> list_all (\<lambda>(ps, _). good_points ps) bs \<Longrightarrow>
   length log + length (log_bytes senc (batch_entries bs)) < 2 ^ 32 \<Longrightarrow>
   write_batches senc rnd bs m = Inr (err, m') \<Longrightarrow>
   \<exists>bs1 bs2. bs = bs1 @ bs2 \<and> wal_holds (mt_wal m') (log @ log_bytes senc (batch_entries bs1)) \<and>
     cache_inv (mt_Cache m') \<and> spec_puts (batch_puts rnd bs1) (cache_series (mt_Cache m)) = Inr (err, cache_series (mt_Cache m')) \<and>
     (err = None \<longrightarrow> bs2 = [])"
proof (induction bs arbitrary: m log)
  case Nil
  then show ?case by simp
next
  case (Cons b bs)
  obtain ps lcs where b: "b = (ps, lcs)" by (cases b)
  obtain w where w: "wal_WriteMulti senc ps (mt_wal m) = Inr w" "wal_holds w (log @ wal_record senc (WriteWALEntry ps))"
    using wal_WriteMulti_ok [OF Cons.prems(2), of ps senc] Cons.prems(3,4) by (auto simp: b)
  show ?case
  proof (rule put_batch_cases [OF Cons.prems(1), of "puts_of rnd lcs ps"])
    fix e assume "put_batch Put (puts_of rnd lcs ps) (mt_Cache m) = Inl e"
    then show ?thesis using Cons.prems(5) w by (simp add: b mt_WriteMulti_def log_then_def)
  next
    fix err1 c1 assume p: "put_batch Put (puts_of rnd lcs ps) (mt_Cache m) = Inr (err1, c1)" "cache_inv c1"
      "spec_puts (puts_of rnd lcs ps) (cache_series (mt_Cache m)) = Inr (err1, cache_series c1)"
    define m1 where "m1 = m\<lparr>mt_wal := w, mt_Cache := c1\<rparr>"
    have m1: "mt_WriteMulti senc rnd ps lcs m = Inr (err1, m1)" using w p by (simp add: mt_WriteMulti_def log_then_def m1_def)
    show ?thesis
    proof (cases err1)
      case (Some e)
      then have "err = Some e" "m' = m1" using Cons.prems(5) m1 by (simp_all add: b)
      then show ?thesis using p w Some by (intro exI [of _ "[b]"] exI [of _ bs]) (simp add: b m1_def)
    next
      case None
      have "write_batches senc rnd bs m1 = Inr (err, m')" using Cons.prems(5) m1 None by (simp add: b)
      then obtain bs1 bs2 where "bs = bs1 @ bs2" "wal_holds (mt_wal m') ((log @ wal_record senc (WriteWALEntry ps)) @ log_bytes senc (batch_entries bs1))"
          "cache_inv (mt_Cache m')" "spec_puts (batch_puts rnd bs1) (cache_series c1) = Inr (err, cache_series (mt_Cache m'))" "err = None \<longrightarrow> bs2 = []"
        using Cons.IH [of m1 "log @ wal_record senc (WriteWALEntry ps)"] p w Cons.prems(3,4) by (auto simp: m1_def b)
      then show ?thesis using p None by (intro exI [of _ "b # bs1"] exI [of _ bs2]) (simp add: b put_batch_append)
    qed
  qed
qed

section \<open>Replaying the log\<close>

lemma erase_upd: "erase_lifecycles (m(k \<mapsto> (lc, e))) = (erase_lifecycles m)(k \<mapsto> (0, e))"
  by (auto simp: erase_lifecycles_def)

lemma series_Put_erase:
  assumes "series_Put k vs lc m = Inr (err, m')"
  shows "series_Put k vs 0 (erase_lifecycles m) = Inr (err, erase_lifecycles m')"
proof (cases "m k")
  case None
  then have "erase_lifecycles m k = None" by (simp add: erase_lifecycles_def)
  then show ?thesis using assms None by (auto simp: series_Put_def erase_upd)
next
  case (Some v)
  obtain l e where v: "v = (l, e)" by (cases v)
  have k: "erase_lifecycles m k = Some (0, e)" using Some v by (simp add: erase_lifecycles_def)
  show ?thesis
  proof (cases e)
    case None
    then show ?thesis using assms Some v k by (simp add: series_Put_def split: if_splits)
  next
    case (Some e')
    then show ?thesis
      using assms \<open>m k = Some v\<close> v k by (cases "entry_Add vs e'") (auto simp: series_Put_def erase_upd)
  qed
qed

text \<open>The same puts, with lifecycle 0.\<close>

definition same_puts :: "(nat \<Rightarrow> u32) \<times> bytes \<times> Values \<times> int \<Rightarrow> (nat \<Rightarrow> u32) \<times> bytes \<times> Values \<times> int \<Rightarrow> bool" where
  "same_puts x y = (case (x, y) of ((_, k, vs, _), (_, k', vs', lc')) \<Rightarrow> k' = k \<and> vs' = vs \<and> lc' = 0)"

lemma spec_puts_erase:
  "list_all2 same_puts xs ys \<Longrightarrow> spec_puts xs m = Inr (err, m') \<Longrightarrow>
   spec_puts ys (erase_lifecycles m) = Inr (err, erase_lifecycles m')"
proof (induction xs ys arbitrary: m rule: list_all2_induct)
  case (Cons x xs y ys)
  obtain r k vs lc where x: "x = (r, k, vs, lc)" by (cases x)
  obtain r' where y: "y = (r', k, vs, 0)" using Cons.hyps(1) x by (cases y) (auto simp: same_puts_def)
  obtain err1 m1 where s: "series_Put k vs lc m = Inr (err1, m1)" using Cons.prems x by (auto simp: bind_result_eq_Inr)
  show ?case using Cons.IH Cons.prems s series_Put_erase [OF s] x y by (cases err1) auto
qed simp

text \<open>A write that ends inside the file changes nothing behind its end and does not map the file anew.\<close>

lemma wal_write_within:
  assumes "unat (wf_Pos f) + length data < 2 ^ 32" and "unat (wf_Pos f) + length data \<le> length (wf_Data f)"
  shows "\<exists>f'. wal_write data f = Inr f' \<and> unat (wf_Pos f') = unat (wf_Pos f) + length data \<and>
    length (wf_Data f') = length (wf_Data f) \<and> drop (unat (wf_Pos f')) (wf_Data f') = drop (unat (wf_Pos f')) (wf_Data f)"
proof -
  define np where "np = wf_Pos f + of_nat (length data)"
  have np: "unat np = unat (wf_Pos f) + length data"
  proof -
    have "np = of_nat (unat (wf_Pos f)) + of_nat (length data)" by (simp add: np_def)
    then have "np = of_nat (unat (wf_Pos f) + length data)" by (simp del: of_nat_unat)
    then show ?thesis using unat_of_nat_u32 [OF assms(1)] by (simp only:)
  qed
  have g: "wal_grow (f\<lparr>wf_Pos := np\<rparr>) = f\<lparr>wf_Pos := np\<rparr>" using np assms(2) by (simp add: wal_grow_def wal_Truncate_def)
  have "int (unat np) - int (length data) = int (unat (wf_Pos f))" using np by linarith
  then have "wal_write data f = wal_copy (int (unat (wf_Pos f))) data (f\<lparr>wf_Pos := np\<rparr>)"
    by (simp only: wal_write_def Let_def np_def [symmetric] g)
  then show ?thesis using np assms(2) by (simp add: wal_copy_def Let_def)
qed

lemma wal_WriteMulti_within:
  assumes "good_points ps" and "unat (wf_Pos f) + length (wal_record senc (WriteWALEntry ps)) < 2 ^ 32"
    and "unat (wf_Pos f) + length (wal_record senc (WriteWALEntry ps)) \<le> length (wf_Data f)"
  obtains f' where "wal_WriteMulti senc ps f = Inr f'" "unat (wf_Pos f') = unat (wf_Pos f) + length (wal_record senc (WriteWALEntry ps))"
    "length (wf_Data f') = length (wf_Data f)" "drop (unat (wf_Pos f')) (wf_Data f') = drop (unat (wf_Pos f')) (wf_Data f)"
proof -
  obtain b where b: "entry_Encode (WriteWALEntry ps) = Inr b" using entry_roundtrip [of "WriteWALEntry ps"] assms(1) by auto
  let ?h = "WriteWALEntryType # put_u32 (of_nat (length (senc b)))"
  have r: "wal_record senc (WriteWALEntry ps) = ?h @ senc b" using b by (simp add: wal_record_def)
  obtain f1 where f1: "wal_write ?h f = Inr f1" "unat (wf_Pos f1) = unat (wf_Pos f) + length ?h" "length (wf_Data f1) = length (wf_Data f)"
      "drop (unat (wf_Pos f1)) (wf_Data f1) = drop (unat (wf_Pos f1)) (wf_Data f)"
    using wal_write_within [of f ?h] assms(2,3) r by auto
  obtain f2 where f2: "wal_write (senc b) f1 = Inr f2" "unat (wf_Pos f2) = unat (wf_Pos f1) + length (senc b)" "length (wf_Data f2) = length (wf_Data f1)"
      "drop (unat (wf_Pos f2)) (wf_Data f2) = drop (unat (wf_Pos f2)) (wf_Data f1)"
    using wal_write_within [of f1 "senc b"] assms(2,3) r f1(2,3) by auto
  have "drop (unat (wf_Pos f2)) (wf_Data f1) = drop (length (senc b)) (drop (unat (wf_Pos f1)) (wf_Data f1))"
    by (simp add: f2(2) add.commute)
  also have "\<dots> = drop (unat (wf_Pos f2)) (wf_Data f)" by (simp add: f1(4) f2(2) add.commute)
  finally have "drop (unat (wf_Pos f2)) (wf_Data f2) = drop (unat (wf_Pos f2)) (wf_Data f)" using f2(4) by simp
  then show thesis using f1 f2 b r that [of f2] by (simp add: wal_WriteMulti_def writeEntryToWal_def Let_def)
qed

subsection \<open>The order of a map\<close>

text \<open>What a put of good values does to one key, when no series is without entry.\<close>

definition full_series :: "series \<Rightarrow> bool" where
  "full_series m \<longleftrightarrow> (\<forall>k lc. m k \<noteq> Some (lc, None))"

definition put_err :: "Values \<Rightarrow> (int \<times> Entry option) option \<Rightarrow> error option" where
  "put_err vs x = (case x of Some (_, Some e) \<Rightarrow> fst (entry_Add vs e) | _ \<Rightarrow> None)"

definition put_val :: "Values \<Rightarrow> (int \<times> Entry option) option \<Rightarrow> int \<times> Entry option" where
  "put_val vs x = (case x of Some (lc, Some e) \<Rightarrow> (lc, Some (snd (entry_Add vs e))) | _ \<Rightarrow> (0, Some \<lparr>en_values = vs, en_vType = valueType (hd vs)\<rparr>))"

definition put_all :: "points \<Rightarrow> series \<Rightarrow> series" where
  "put_all ps m k = (case map_of ps k of None \<Rightarrow> m k | Some vs \<Rightarrow> Some (put_val vs (m k)))"

lemma curType_valueType: "curType v = curType w \<Longrightarrow> curType w \<noteq> None \<Longrightarrow> valueType v = valueType w"
  by (cases v; cases w) (simp_all add: entry_types)

lemma NewEntryValues_good: "good_values vs \<Longrightarrow> NewEntryValues vs = Inr \<lparr>en_values = vs, en_vType = valueType (hd vs)\<rparr>"
proof -
  assume g: "good_values vs"
  then obtain v vs' where vs: "vs = v # vs'" by (cases vs) (auto simp: good_values_def)
  have "valueType w = valueType v" if "w \<in> set vs" for w
    using g that curType_valueType [of w v] by (auto simp: good_values_def list_all_iff vs)
  then have "\<not> list_ex (\<lambda>w. valueType v \<noteq> valueType w) vs" by (auto simp: list_ex_iff)
  then show ?thesis by (simp add: NewEntryValues_def vs)
qed

lemma series_Put_good:
  assumes "full_series m" and "good_values vs"
  shows "series_Put k vs 0 m = Inr (put_err vs (m k), m(k \<mapsto> put_val vs (m k)))" and "full_series (m(k \<mapsto> put_val vs (m k)))"
    and "put_err vs (m k) = None \<or> put_err vs (m k) = Some ErrFieldTypeConflict"
proof -
  consider "m k = None" | lc e where "m k = Some (lc, Some e)" using assms(1) unfolding full_series_def by (metis option.exhaust prod.exhaust)
  then have "series_Put k vs 0 m = Inr (put_err vs (m k), m(k \<mapsto> put_val vs (m k))) \<and> full_series (m(k \<mapsto> put_val vs (m k))) \<and>
      (put_err vs (m k) = None \<or> put_err vs (m k) = Some ErrFieldTypeConflict)"
  proof cases
    case 1
    then show ?thesis using assms by (auto simp: series_Put_def NewEntryValues_good put_err_def put_val_def full_series_def)
  next
    case 2
    then show ?thesis using assms(1) by (auto simp: series_Put_def put_err_def put_val_def full_series_def entry_Add_def split: prod.splits)
  qed
  then show "series_Put k vs 0 m = Inr (put_err vs (m k), m(k \<mapsto> put_val vs (m k)))" "full_series (m(k \<mapsto> put_val vs (m k)))"
    "put_err vs (m k) = None \<or> put_err vs (m k) = Some ErrFieldTypeConflict" by blast+
qed

lemma puts_of_simps [simp]: "puts_of rnd None [] = []" "puts_of rnd None ((k, v) # ps) = (rnd k, k, v, 0) # puts_of rnd None ps"
  by (simp_all add: puts_of_def lifecycle_of_def)

text \<open>A good batch is refused for its type, or changes each of its keys, whatever the order.\<close>

lemma spec_puts_good:
  "full_series m \<Longrightarrow> distinct (map fst ps) \<Longrightarrow> list_all (\<lambda>(k, v). good_values v) ps \<Longrightarrow>
   (if \<exists>x \<in> set ps. put_err (snd x) (m (fst x)) \<noteq> None then \<exists>m'. spec_puts (puts_of rnd None ps) m = Inr (Some ErrFieldTypeConflict, m')
    else spec_puts (puts_of rnd None ps) m = Inr (None, put_all ps m)) \<and> full_series (put_all ps m)"
proof (induction ps arbitrary: m)
  case Nil
  have "put_all [] m = m" by (simp add: put_all_def fun_eq_iff)
  then show ?case using Nil by simp
next
  case (Cons p ps)
  obtain k v where p: "p = (k, v)" by (cases p)
  have g: "good_values v" "list_all (\<lambda>(k, v). good_values v) ps" and d: "k \<notin> fst ` set ps" "distinct (map fst ps)" using Cons.prems p by auto
  let ?m = "m(k \<mapsto> put_val v (m k))"
  note put = series_Put_good [OF Cons.prems(1) g(1), of k]
  have m: "?m (fst x) = m (fst x)" if "x \<in> set ps" for x using that d(1) by (metis fun_upd_other imageI)
  have all: "put_all ps ?m = put_all (p # ps) m"
  proof
    have nk: "map_of ps k = None" using d(1) by (simp add: map_of_eq_None_iff)
    fix j show "put_all ps ?m j = put_all (p # ps) m j" using nk by (cases "j = k") (simp_all add: put_all_def p split: option.split)
  qed
  note IH = Cons.IH [OF put(2) d(2) g(2)]
  have ex: "(\<exists>x \<in> set ps. put_err (snd x) (?m (fst x)) \<noteq> None) = (\<exists>x \<in> set ps. put_err (snd x) (m (fst x)) \<noteq> None)"
    using m by (metis (no_types, lifting))
  show ?case
  proof (cases "put_err v (m k)")
    case None
    then show ?thesis using IH put(1) unfolding ex all by (simp add: p)
  next
    case (Some e)
    then show ?thesis using IH put(1,3) unfolding all by (simp add: p)
  qed
qed

lemma put_all_perm:
  assumes "distinct (map fst ps)" and "mset qs = mset ps"
  shows "put_all qs m = put_all ps m" and "distinct (map fst qs)"
proof -
  have "mset (map fst qs) = mset (map fst ps)" using assms(2) by simp
  then show d: "distinct (map fst qs)" using assms(1) mset_eq_imp_distinct_iff by blast
  have "map_of qs = map_of ps" using map_of_inject_set [OF d assms(1)] mset_eq_setD [OF assms(2)] by blast
  then show "put_all qs m = put_all ps m" by (simp add: put_all_def fun_eq_iff)
qed

lemma good_points_perm: "good_points ps \<Longrightarrow> mset qs = mset ps \<Longrightarrow> good_points qs"
  using put_all_perm(2) [of ps qs] mset_eq_setD [of qs ps] by (simp add: good_points_def list_all_iff)

lemma spec_puts_perm:
  assumes "full_series m" and "good_points ps" and "mset qs = mset ps"
  shows "(\<exists>m1 m2. spec_puts (puts_of rnd None ps) m = Inr (Some ErrFieldTypeConflict, m1) \<and> spec_puts (puts_of rnd' None qs) m = Inr (Some ErrFieldTypeConflict, m2)) \<or>
    spec_puts (puts_of rnd None ps) m = Inr (None, put_all ps m) \<and> spec_puts (puts_of rnd' None qs) m = Inr (None, put_all ps m) \<and> full_series (put_all ps m)"
proof -
  have p: "distinct (map fst ps)" "list_all (\<lambda>(k, v). good_values v) ps" using assms(2) by (auto simp: good_points_def list_all_iff)
  have q: "distinct (map fst qs)" "list_all (\<lambda>(k, v). good_values v) qs"
    using good_points_perm [OF assms(2,3)] by (auto simp: good_points_def list_all_iff)
  show ?thesis
    using spec_puts_good [OF assms(1) p, of rnd] spec_puts_good [OF assms(1) q, of rnd'] put_all_perm(1) [OF p(1) assms(3)] mset_eq_setD [OF assms(3)]
    by (auto split: if_splits)
qed

subsection \<open>The loop\<close>

lemma restore_end:
  assumes "stream_ok (wf_Data (mt_wal m)) (lr_st r)" and "log_end sdec (view (wf_Data (mt_wal m)) (lr_st r))"
  shows "\<exists>r'. restore_loop senc sdec rnd ord i r m = Inr (None, r', m) \<and> lr_n r' = lr_n r"
proof -
  let ?d = "wf_Data (mt_wal m)"
  obtain ok r1 where r1: "live_Next sdec (Some ?d) r = Inr (ok, r1)" "wr_Next sdec (static_reader ?d r) = (ok, static_reader ?d r1)"
    using live_Next_static [OF assms(1)] by blast
  have mp: "mapping r m = Some ?d" using assms(1) by (simp add: mapping_def stream_ok_def)
  have "(ok \<longrightarrow> wr_err (static_reader ?d r1) \<noteq> None) \<and> wr_n (static_reader ?d r1) = wr_n (static_reader ?d r)"
    using assms(2) r1(2) [symmetric] by (auto simp: log_end_def wr_Next_def static_reader_def Let_def split: option.splits if_splits)
  then have "(ok \<longrightarrow> lr_err r1 \<noteq> None) \<and> lr_n r1 = lr_n r" by (simp add: static_reader_def)
  then show ?thesis using r1(1) mp by (subst restore_loop.simps) (auto simp: live_Read_def)
qed

lemma live_Next_record:
  assumes snappy: "\<And>x. sdec (senc x) = Some x" and "good_entry e" and "length (wal_record senc e) < 2 ^ 32"
    and "stream_ok d (lr_st r)" and "view d (lr_st r) = wal_record senc e @ rest"
  shows "\<exists>r'. live_Next sdec (Some d) r = Inr (True, r') \<and> stream_ok d (lr_st r') \<and> view d (lr_st r') = rest \<and>
    live_Read r' = Inr (Some e) \<and> lr_n r' = lr_n r + length (wal_record senc e)"
proof -
  obtain ok r1 where r1: "live_Next sdec (Some d) r = Inr (ok, r1)" "stream_ok d (lr_st r1)" "wr_Next sdec (static_reader d r) = (ok, static_reader d r1)"
    using live_Next_static [OF assms(4)] by blast
  have "wr_Next sdec (static_reader d r) = (True, (static_reader d r)\<lparr>wr_rest := rest, wr_entry := Some e,
      wr_n := wr_n (static_reader d r) + length (wal_record senc e), wr_err := None\<rparr>)"
    using assms(5) by (intro wr_Next_record [OF snappy assms(2,3)]) (simp add: static_reader_def)
  then show ?thesis using r1 by (auto simp: static_reader_def live_Read_def)
qed

definition reordered :: "(bytes \<Rightarrow> bytes) \<Rightarrow> (nat \<Rightarrow> points \<Rightarrow> points) \<Rightarrow> nat \<Rightarrow> points list \<Rightarrow> bool" where
  "reordered senc ord i pss \<longleftrightarrow> (\<forall>j < length pss. mset (ord (i + j) (pss ! j)) = mset (pss ! j) \<and>
     length (wal_record senc (WriteWALEntry (ord (i + j) (pss ! j)))) \<le> length (wal_record senc (WriteWALEntry (pss ! j))))"

lemma reordered_Cons:
  "reordered senc ord i (ps # pss) \<longleftrightarrow> mset (ord i ps) = mset ps \<and>
     length (wal_record senc (WriteWALEntry (ord i ps))) \<le> length (wal_record senc (WriteWALEntry ps)) \<and> reordered senc ord (Suc i) pss"
  unfolding reordered_def by (auto simp: All_less_Suc2)

lemma reordered_append: "reordered senc ord i (pss @ qss) \<Longrightarrow> reordered senc ord i pss"
  by (induction pss arbitrary: i) (simp add: reordered_def, simp add: reordered_Cons)

lemma restore_writes:
  assumes snappy: "\<And>x. sdec (senc x) = Some x" and "log_end sdec rest"
  shows "cache_inv (mt_Cache m) \<Longrightarrow> full_series (cache_series (mt_Cache m)) \<Longrightarrow> list_all good_points pss \<Longrightarrow> reordered senc ord i pss \<Longrightarrow>
   stream_ok (wf_Data (mt_wal m)) (lr_st r) \<Longrightarrow> view (wf_Data (mt_wal m)) (lr_st r) = log_bytes senc (map WriteWALEntry pss) @ rest \<Longrightarrow>
   unat (wf_Pos (mt_wal m)) \<le> length (wf_Data (mt_wal m)) - length (view (wf_Data (mt_wal m)) (lr_st r)) \<Longrightarrow>
   length (view (wf_Data (mt_wal m)) (lr_st r)) \<le> length (wf_Data (mt_wal m)) \<Longrightarrow>
   unat (wf_Pos (mt_wal m)) + length (log_bytes senc (map WriteWALEntry pss)) < 2 ^ 32 \<Longrightarrow>
   spec_puts (concat (map (puts_of rnd None) pss)) (cache_series (mt_Cache m)) = Inr (err, s) \<Longrightarrow>
   \<exists>r' m'. restore_loop senc sdec rnd ord i r m = Inr (err, r', m') \<and>
     (err = None \<longrightarrow> cache_inv (mt_Cache m') \<and> cache_series (mt_Cache m') = s \<and> lr_n r' = lr_n r + length (log_bytes senc (map WriteWALEntry pss)))"
proof (induction pss arbitrary: i r m)
  case Nil
  then show ?case using restore_end [of m r sdec senc rnd ord i] assms(2) by auto
next
  case (Cons ps pss)
  let ?d = "wf_Data (mt_wal m)" and ?rec = "wal_record senc (WriteWALEntry ps)" and ?qs = "ord i ps"
  have gp: "good_points ps" "list_all good_points pss" using Cons.prems(3) by simp_all
  have ro: "mset ?qs = mset ps" "length (wal_record senc (WriteWALEntry ?qs)) \<le> length ?rec" "reordered senc ord (Suc i) pss"
    using Cons.prems(4) by (simp_all add: reordered_Cons)
  obtain r1 where r1: "live_Next sdec (Some ?d) r = Inr (True, r1)" "stream_ok ?d (lr_st r1)"
      "view ?d (lr_st r1) = log_bytes senc (map WriteWALEntry pss) @ rest" "live_Read r1 = Inr (Some (WriteWALEntry ps))" "lr_n r1 = lr_n r + length ?rec"
    using live_Next_record [of sdec senc "WriteWALEntry ps" ?d r, OF snappy _ _ Cons.prems(5)] gp(1) Cons.prems(6,9) by auto
  have mp: "mapping r m = Some ?d" using Cons.prems(5) by (simp add: mapping_def stream_ok_def)
  have vl: "length (view ?d (lr_st r)) = length ?rec + length (view ?d (lr_st r1))" using Cons.prems(6) r1(3) by simp
  have bounds: "unat (wf_Pos (mt_wal m)) + length (wal_record senc (WriteWALEntry ?qs)) < 2 ^ 32"
    "unat (wf_Pos (mt_wal m)) + length (wal_record senc (WriteWALEntry ?qs)) \<le> length ?d - length (view ?d (lr_st r1))"
    using Cons.prems(7-9) ro(2) vl by simp_all
  have within: "unat (wf_Pos (mt_wal m)) + length (wal_record senc (WriteWALEntry ?qs)) \<le> length ?d" using bounds(2) by (rule order_trans) simp
  obtain w where w: "wal_WriteMulti senc ?qs (mt_wal m) = Inr w"
      "unat (wf_Pos w) = unat (wf_Pos (mt_wal m)) + length (wal_record senc (WriteWALEntry ?qs))"
      "length (wf_Data w) = length ?d" "drop (unat (wf_Pos w)) (wf_Data w) = drop (unat (wf_Pos w)) ?d"
    by (rule wal_WriteMulti_within [OF good_points_perm [OF gp(1) ro(1)] bounds(1) within])
  have vw: "stream_ok (wf_Data w) (lr_st r1)" "view (wf_Data w) (lr_st r1) = view ?d (lr_st r1)"
    using view_write [OF r1(2), of "unat (wf_Pos w)" "wf_Data w"] bounds(2) w(2-4) by simp_all
  note perm = spec_puts_perm [OF Cons.prems(2) gp(1) ro(1), of rnd rnd]
  obtain err1 c1 where p: "put_batch Put (puts_of rnd None ?qs) (mt_Cache m) = Inr (err1, c1)" "cache_inv c1"
      "spec_puts (puts_of rnd None ?qs) (cache_series (mt_Cache m)) = Inr (err1, cache_series c1)"
    by (rule put_batch_cases [OF Cons.prems(1), of "puts_of rnd None ?qs"]) (use perm in auto)
  define m1 where "m1 = m\<lparr>mt_wal := w, mt_Cache := c1\<rparr>"
  have m1: "mt_WriteMulti senc rnd ?qs None m = Inr (err1, m1)" using w p by (simp add: mt_WriteMulti_def log_then_def m1_def)
  have loop: "restore_loop senc sdec rnd ord i r m =
      (case err1 of Some x \<Rightarrow> Inr (Some x, r1, m1) | None \<Rightarrow> restore_loop senc sdec rnd ord (i + 1) r1 m1)"
    using r1(1,4) mp m1 by (subst restore_loop.simps) (simp split: option.splits)
  from perm show ?case
  proof
    assume "\<exists>m1 m2. spec_puts (puts_of rnd None ps) (cache_series (mt_Cache m)) = Inr (Some ErrFieldTypeConflict, m1) \<and>
      spec_puts (puts_of rnd None ?qs) (cache_series (mt_Cache m)) = Inr (Some ErrFieldTypeConflict, m2)"
    then have "err1 = Some ErrFieldTypeConflict" "err = Some ErrFieldTypeConflict" using p(3) Cons.prems(10) by (auto simp: put_batch_append)
    then show ?thesis using loop by simp
  next
    assume ok: "spec_puts (puts_of rnd None ps) (cache_series (mt_Cache m)) = Inr (None, put_all ps (cache_series (mt_Cache m))) \<and>
      spec_puts (puts_of rnd None ?qs) (cache_series (mt_Cache m)) = Inr (None, put_all ps (cache_series (mt_Cache m))) \<and>
      full_series (put_all ps (cache_series (mt_Cache m)))"
    then have e1: "err1 = None" "cache_series c1 = put_all ps (cache_series (mt_Cache m))" using p(3) by simp_all
    have "\<exists>r' m'. restore_loop senc sdec rnd ord (Suc i) r1 m1 = Inr (err, r', m') \<and>
        (err = None \<longrightarrow> cache_inv (mt_Cache m') \<and> cache_series (mt_Cache m') = s \<and> lr_n r' = lr_n r1 + length (log_bytes senc (map WriteWALEntry pss)))"
    proof (rule Cons.IH)
      show "unat (wf_Pos (mt_wal m1)) + length (log_bytes senc (map WriteWALEntry pss)) < 2 ^ 32" using Cons.prems(9) w(2) ro(2) by (simp add: m1_def)
      show "spec_puts (concat (map (puts_of rnd None) pss)) (cache_series (mt_Cache m1)) = Inr (err, s)"
        using Cons.prems(10) ok e1 by (simp add: put_batch_append m1_def)
      show "unat (wf_Pos (mt_wal m1)) \<le> length (wf_Data (mt_wal m1)) - length (view (wf_Data (mt_wal m1)) (lr_st r1))"
        "length (view (wf_Data (mt_wal m1)) (lr_st r1)) \<le> length (wf_Data (mt_wal m1))"
        using bounds(2) w(2,3) vw(2) vl Cons.prems(8) by (simp_all add: m1_def)
    qed (use p(2) ok e1 gp(2) ro(3) vw r1(3) in \<open>simp_all add: m1_def\<close>)
    then show ?thesis using loop e1(1) r1(5) by auto
  qed
qed

lemma batch_puts_same: "list_all2 same_puts (batch_puts rnd bs) (concat (map (puts_of rnd' None) (map fst bs)))"
proof -
  have "list_all2 same_puts (puts_of rnd lcs ps) (puts_of rnd' None ps)" for lcs ps
    by (auto simp: puts_of_def same_puts_def lifecycle_of_def list_all2_conv_all_nth split: prod.splits)
  then show ?thesis by (induction bs) (auto simp: batch_puts_def intro: list_all2_appendI)
qed

lemma batch_entries_fst: "batch_entries bs = map WriteWALEntry (map fst bs)"
  by (auto simp: batch_entries_def)

text \<open>A table that was just created.\<close>

definition fresh_table :: "nat \<Rightarrow> nat \<Rightarrow> MemTable" where
  "fresh_table fid maxSize = \<lparr>mt_fid = fid, mt_Cache = NewCache\<lparr>c_Handler := True\<rparr>, mt_wal = wal_new (2 * maxSize),
     mt_max = maxSize, mt_NewTable = True\<rparr>"

lemma fresh_inv: "cache_inv (NewCache\<lparr>c_Handler := b\<rparr>)" "cache_series (NewCache\<lparr>c_Handler := b\<rparr>) = Map.empty"
proof -
  have "cache_inv (NewCache\<lparr>c_Handler := b\<rparr>) = cache_inv NewCache" by (rule cache_same) simp_all
  then show "cache_inv (NewCache\<lparr>c_Handler := b\<rparr>)" using NewCache_inv by simp
  have "cache_series (NewCache\<lparr>c_Handler := b\<rparr>) = cache_series NewCache" by (rule cache_same) simp_all
  then show "cache_series (NewCache\<lparr>c_Handler := b\<rparr>) = Map.empty" using NewCache_inv by simp
qed

text \<open>
  The batches are reordered and none of them gets longer: the entries that are read back are iterated in some order of
  their keys, and what they are encoded to then takes no more bytes than it had in the log.
\<close>

lemma reopen_after_writes:
  assumes snappy: "\<And>x. sdec (senc x) = Some x" and empty: "sdec [] = None"
    and good: "list_all (\<lambda>(ps, _). good_points ps) bs" and len: "length (log_bytes senc (batch_entries bs)) < 2 ^ 32"
    and ord: "reordered senc ord 0 (map fst bs)"
    and run: "write_batches senc rnd bs (fresh_table fid maxSize) = Inr (err, m)" and ne: "bs \<noteq> []"
  shows "\<exists>m'. OpenMemTable senc sdec rnd' ord fid maxSize (wf_Data (mt_wal m)) = Inr (err, m') \<and>
    (err = None \<longrightarrow> cache_inv (mt_Cache m') \<and> cache_series (mt_Cache m') = erase_lifecycles (cache_series (mt_Cache m)) \<and>
      wf_Pos (mt_wal m') = wf_Pos (mt_wal m))"
proof -
  obtain bs1 bs2 where bs: "bs = bs1 @ bs2" and holds: "wal_holds (mt_wal m) (log_bytes senc (batch_entries bs1))"
    and spec: "spec_puts (batch_puts rnd bs1) Map.empty = Inr (err, cache_series (mt_Cache m))"
    and all: "err = None \<longrightarrow> bs2 = []"
    using write_batches_ok [OF _ _ good _ run, of "[]"] len fresh_inv [of True] wal_new_holds by (auto simp: fresh_table_def)
  let ?es = "batch_entries bs1"
  have good1: "list_all good_points (map fst bs1)" using good bs by (auto simp: list_all_iff)
  have len1: "length (log_bytes senc ?es) < 2 ^ 32" using len bs by (simp add: batch_entries_def)
  have ord1: "reordered senc ord 0 (map fst bs1)" by (rule reordered_append [where qss = "map fst bs2"]) (use ord bs in simp)
  obtain k where k: "wf_Data (mt_wal m) = log_bytes senc ?es @ replicate k 0" and pos: "unat (wf_Pos (mt_wal m)) = length (log_bytes senc ?es)"
    using holds by (auto simp: wal_holds_def)
  define c where "c = wf_Data (mt_wal m)"
  have "bs1 \<noteq> []" using all spec bs ne by auto
  then obtain ps1 es1 where "?es = WriteWALEntry ps1 # es1" "good_points ps1" using good1 by (cases bs1) auto
  moreover obtain b1 where "entry_Encode (WriteWALEntry ps1) = Inr b1"
    using calculation entry_roundtrip [of "WriteWALEntry ps1"] by auto
  ultimately have data: "c \<noteq> []" by (simp add: c_def k wal_record_def)
  define m0 where "m0 = \<lparr>mt_fid = fid, mt_Cache = NewCache\<lparr>c_Handler := True\<rparr>, mt_wal = \<lparr>wf_size = of_nat (length c), wf_Pos = 0, wf_Data = c\<rparr>,
     mt_max = maxSize, mt_NewTable = False\<rparr>"
  let ?r = "NewLiveReader (length c)"
  have lc: "length c = length (log_bytes senc ?es) + k" by (simp add: c_def k)
  have st: "stream_ok c (lr_st ?r)" "view c (lr_st ?r) = log_bytes senc (map WriteWALEntry (map fst bs1)) @ replicate k 0"
    by (simp_all add: stream_ok_def view_def NewLiveReader_def new_stream_def c_def k batch_entries_fst)
  have "spec_puts (concat (map (puts_of rnd' None) (map fst bs1))) (erase_lifecycles Map.empty) = Inr (err, erase_lifecycles (cache_series (mt_Cache m)))"
    by (rule spec_puts_erase [OF batch_puts_same spec])
  then obtain r' m1 where m1: "restore_loop senc sdec rnd' ord 0 ?r m0 = Inr (err, r', m1)"
      "err = None \<longrightarrow> cache_inv (mt_Cache m1) \<and> cache_series (mt_Cache m1) = erase_lifecycles (cache_series (mt_Cache m)) \<and>
        lr_n r' = length (log_bytes senc ?es)"
    using restore_writes [of sdec senc "replicate k 0" m0 "map fst bs1" ord 0 ?r rnd' err, OF snappy log_end_zeros [of sdec k, OF empty] _ _ good1 ord1]
      st len1 fresh_inv [of True] lc
    by (auto simp: m0_def batch_entries_fst erase_lifecycles_def [abs_def] full_series_def NewLiveReader_def)
  have "OpenMemTable senc sdec rnd' ord fid maxSize c = restoreFromWAL senc sdec rnd' ord m0"
    using data by (simp add: OpenMemTable_def m0_def)
  moreover have "wf_Data (mt_wal m0) = c" by (simp add: m0_def)
  moreover have "of_nat (length (log_bytes senc ?es)) = wf_Pos (mt_wal m)" by (simp add: pos [symmetric])
  ultimately show ?thesis using m1 by (cases err) (auto simp: restoreFromWAL_def c_def)
qed

section \<open>Properties\<close>

text \<open>
  C22: Durability. A table that took some batches and was lost is rebuilt from the bytes of its log, whatever the order in which
  the maps that are read back are iterated, provided that no batch takes more bytes when it is encoded in that order than it took in the
  log: the replay writes to the file that it reads. Opening the file then succeeds, every series has the entry it had, the skip list is
  well formed whatever heights are drawn now, and the next write goes to the same position. Only the lifecycles come back as 0,
  because the log does not hold them.
\<close>

theorem memtable_recovery:
  assumes "\<And>x. sdec (senc x) = Some x" and "sdec [] = None"
    and "list_all (\<lambda>(ps, _). good_points ps) bs" and "length (log_bytes senc (batch_entries bs)) < 2 ^ 32" and "bs \<noteq> []"
    and "\<forall>i < length bs. mset (ord i (fst (bs ! i))) = mset (fst (bs ! i)) \<and>
      length (wal_record senc (WriteWALEntry (ord i (fst (bs ! i))))) \<le> length (wal_record senc (WriteWALEntry (fst (bs ! i))))"
    and "write_batches senc rnd bs (fresh_table fid maxSize) = Inr (None, m)"
  shows "\<exists>m'. OpenMemTable senc sdec rnd' ord fid maxSize (wf_Data (mt_wal m)) = Inr (None, m') \<and>
    cache_inv (mt_Cache m') \<and> cache_series (mt_Cache m') = erase_lifecycles (cache_series (mt_Cache m)) \<and>
    wf_Pos (mt_wal m') = wf_Pos (mt_wal m)"
proof -
  have "reordered senc ord 0 (map fst bs)" using assms(6) by (simp add: reordered_def)
  from reopen_after_writes [of sdec senc bs ord rnd fid maxSize None m rnd', OF assms(1-4) this assms(7,5)] show ?thesis by simp
qed

text \<open>
  C23: A refused batch spoils the log. \<open>WriteMulti\<close> appends a batch to the log before the cache
  refuses it for its type, so that opening the table later replays the batch, gets the same
  error and fails, under the same proviso that no batch gets longer when it is encoded again.
\<close>

theorem refused_batch_blocks_reopening:
  assumes "\<And>x. sdec (senc x) = Some x" and "sdec [] = None"
    and "list_all (\<lambda>(ps, _). good_points ps) bs" and "length (log_bytes senc (batch_entries bs)) < 2 ^ 32" and "bs \<noteq> []"
    and "\<forall>i < length bs. mset (ord i (fst (bs ! i))) = mset (fst (bs ! i)) \<and>
      length (wal_record senc (WriteWALEntry (ord i (fst (bs ! i))))) \<le> length (wal_record senc (WriteWALEntry (fst (bs ! i))))"
    and "write_batches senc rnd bs (fresh_table fid maxSize) = Inr (Some e, m)"
  shows "\<exists>m'. OpenMemTable senc sdec rnd' ord fid maxSize (wf_Data (mt_wal m)) = Inr (Some e, m')"
proof -
  have "reordered senc ord 0 (map fst bs)" using assms(6) by (simp add: reordered_def)
  from reopen_after_writes [of sdec senc bs ord rnd fid maxSize "Some e" m rnd', OF assms(1-4) this assms(7,5)] show ?thesis by blast
qed

definition two_batches :: "batch list" where
  "two_batches = [([([97], [IntegerValue 1 7])], Some [([97], 3)]), ([([98], [BooleanValue 2 True]), ([97], [IntegerValue 2 8])], None)]"

definition bad_batches :: "batch list" where
  "bad_batches = [([([97], [IntegerValue 1 7])], None), ([([97], [BooleanValue 2 True])], None)]"

lemma batches_good: "list_all (\<lambda>(ps, _). good_points ps) two_batches" "list_all (\<lambda>(ps, _). good_points ps) bad_batches"
  by (simp_all add: two_batches_def bad_batches_def good_points_def good_values_def)

lemma batches_length: "length (log_bytes toy_enc (batch_entries two_batches)) < 2 ^ 32" "length (log_bytes toy_enc (batch_entries bad_batches)) < 2 ^ 32"
proof -
  have "length (log_bytes toy_enc (batch_entries two_batches)) = 77" "length (log_bytes toy_enc (batch_entries bad_batches)) = 53" by code_simp+
  then show "length (log_bytes toy_enc (batch_entries two_batches)) < 2 ^ 32" "length (log_bytes toy_enc (batch_entries bad_batches)) < 2 ^ 32"
    by simp_all
qed

definition table_after :: "batch list \<Rightarrow> MemTable" where
  "table_after bs = (case write_batches toy_enc (\<lambda>_ _. 1) bs (fresh_table 1 4) of Inr (_, m) \<Rightarrow> m | Inl _ \<Rightarrow> fresh_table 1 4)"

definition outcome :: "batch list \<Rightarrow> error option result" where
  "outcome bs = (case write_batches toy_enc (\<lambda>_ _. 1) bs (fresh_table 1 4) of Inr (e, _) \<Rightarrow> Inr e | Inl e \<Rightarrow> Inl e)"

lemma table_after: "outcome bs = Inr e \<Longrightarrow> write_batches toy_enc (\<lambda>_ _. 1) bs (fresh_table 1 4) = Inr (e, table_after bs)"
  by (auto simp: outcome_def table_after_def split: sum.splits prod.splits)

text \<open>The maps are iterated backwards when the log is replayed.\<close>

lemma batches_reversed:
  "\<forall>i < length two_batches. mset (rev (fst (two_batches ! i))) = mset (fst (two_batches ! i)) \<and>
    length (wal_record toy_enc (WriteWALEntry (rev (fst (two_batches ! i))))) \<le> length (wal_record toy_enc (WriteWALEntry (fst (two_batches ! i))))"
  "\<forall>i < length bad_batches. mset (rev (fst (bad_batches ! i))) = mset (fst (bad_batches ! i)) \<and>
    length (wal_record toy_enc (WriteWALEntry (rev (fst (bad_batches ! i))))) \<le> length (wal_record toy_enc (WriteWALEntry (fst (bad_batches ! i))))"
proof -
  have "list_all (\<lambda>b. length (wal_record toy_enc (WriteWALEntry (rev (fst b)))) \<le> length (wal_record toy_enc (WriteWALEntry (fst b)))) two_batches"
    "list_all (\<lambda>b. length (wal_record toy_enc (WriteWALEntry (rev (fst b)))) \<le> length (wal_record toy_enc (WriteWALEntry (fst b)))) bad_batches"
    by code_simp+
  then show "\<forall>i < length two_batches. mset (rev (fst (two_batches ! i))) = mset (fst (two_batches ! i)) \<and>
    length (wal_record toy_enc (WriteWALEntry (rev (fst (two_batches ! i))))) \<le> length (wal_record toy_enc (WriteWALEntry (fst (two_batches ! i))))"
  "\<forall>i < length bad_batches. mset (rev (fst (bad_batches ! i))) = mset (fst (bad_batches ! i)) \<and>
    length (wal_record toy_enc (WriteWALEntry (rev (fst (bad_batches ! i))))) \<le> length (wal_record toy_enc (WriteWALEntry (fst (bad_batches ! i))))"
    by (simp_all add: list_all_length)
qed

theorem memtable_recovery_witness:
  "\<exists>m'. OpenMemTable toy_enc toy_dec (\<lambda>_ _. 0) (\<lambda>_. rev) 1 4 (wf_Data (mt_wal (table_after two_batches))) = Inr (None, m') \<and>
    cache_series (mt_Cache m') = erase_lifecycles (cache_series (mt_Cache (table_after two_batches)))"
proof -
  have "outcome two_batches = Inr None" by code_simp
  from memtable_recovery [where ord = "\<lambda>_. rev", OF _ _ batches_good(1) batches_length(1) _ batches_reversed(1) table_after [OF this], of toy_dec "\<lambda>_ _. 0"]
  show ?thesis by (auto simp: toy_enc_def toy_dec_def two_batches_def)
qed

theorem refused_batch_blocks_reopening_witness:
  "\<exists>m'. OpenMemTable toy_enc toy_dec (\<lambda>_ _. 0) (\<lambda>_. rev) 1 4 (wf_Data (mt_wal (table_after bad_batches))) = Inr (Some ErrFieldTypeConflict, m')"
proof -
  have "outcome bad_batches = Inr (Some ErrFieldTypeConflict)" by code_simp
  from refused_batch_blocks_reopening [where ord = "\<lambda>_. rev", OF _ _ batches_good(2) batches_length(2) _ batches_reversed(2) table_after [OF this], of toy_dec "\<lambda>_ _. 0"]
  show ?thesis by (auto simp: toy_enc_def toy_dec_def bad_batches_def)
qed

end
