(* ===== verification/MemManager.thy ===== *)
theory MemManager
  imports MemTable
begin

text \<open>
  The manager of the memory tables, \<open>storage/memory/memtable_manager.go\<close>: the table being written, the
  immutable tables waiting to be flushed, and the channel on which the flusher of
  \<open>storage/engine_compact_snap.go\<close> receives them. The channel holds pointers to tables, which
  are the identifiers of their log files. Metrics and the logger are left out.
\<close>

record MemManager =
  mm_mem :: "MemTable option"
  mm_imm :: "MemTable list"
  mm_nextMemFid :: nat
  mm_flushCh :: "nat list"
  mm_NumMemTables :: nat
  mm_MaxMemTableSize :: nat
  mm_wg :: nat

text \<open>
  The environment: snappy, the random draws, the order in which the maps read back from the file of a table are iterated, and
  the contents of the files that exist.
\<close>

record env =
  ev_senc :: "bytes \<Rightarrow> bytes"
  ev_sdec :: "bytes \<Rightarrow> bytes option"
  ev_rnd :: "bytes \<Rightarrow> nat \<Rightarrow> u32"
  ev_ord :: "nat \<Rightarrow> nat \<Rightarrow> points \<Rightarrow> points"
  ev_file :: "nat \<Rightarrow> bytes"

section \<open>Operations\<close>

definition mm_newMemTable :: "env \<Rightarrow> MemManager \<Rightarrow> (error + MemTable \<times> MemManager) result" where
  "mm_newMemTable ev mm =
     bind_result (NewMemTable (ev_senc ev) (ev_sdec ev) (ev_rnd ev) (ev_ord ev (mm_nextMemFid mm)) (mm_nextMemFid mm) (mm_MaxMemTableSize mm) (ev_file ev (mm_nextMemFid mm))) (\<lambda>r.
       case r of Inl e \<Rightarrow> Inr (Inl e) | Inr m \<Rightarrow> Inr (Inr (m, mm\<lparr>mm_nextMemFid := mm_nextMemFid mm + 1\<rparr>)))"

text \<open>
  The loop of \<open>restoreMemTables\<close> over the log files, in ascending order of their identifiers. A table
  without series is released, which deletes its file.
\<close>

fun restore_tables :: "env \<Rightarrow> nat \<Rightarrow> nat list \<Rightarrow> MemTable list \<Rightarrow> (error + MemTable list) result" where
  "restore_tables ev mx [] imm = Inr (Inr imm)"
| "restore_tables ev mx (fid # fids) imm =
     bind_result (OpenMemTable (ev_senc ev) (ev_sdec ev) (ev_rnd ev) (ev_ord ev fid) fid mx (ev_file ev fid)) (\<lambda>(err, mt).
       case err of
         Some e \<Rightarrow> Inr (Inl e)
       | None \<Rightarrow>
           bind_result (cache_Empty (mt_Cache mt)) (\<lambda>empty.
             restore_tables ev mx fids (if empty then imm else imm @ [mt])))"

definition last_fid :: "nat list \<Rightarrow> nat" where
  "last_fid fids = (if length fids \<noteq> 0 then fids ! (length fids - 1) else 0)"

definition NewMemManager :: "env \<Rightarrow> nat \<Rightarrow> nat \<Rightarrow> nat list \<Rightarrow> (error + MemManager) result" where
  "NewMemManager ev num mx files =
     (let fids = sort files
      in bind_result (restore_tables ev mx fids []) (\<lambda>r.
           case r of
             Inl e \<Rightarrow> Inr (Inl e)
           | Inr imm \<Rightarrow>
               let mm = \<lparr>mm_mem = None, mm_imm = imm, mm_nextMemFid = last_fid fids + 1,
                         mm_flushCh = [], mm_NumMemTables = num, mm_MaxMemTableSize = mx, mm_wg = 0\<rparr>
               in bind_result (mm_newMemTable ev mm) (\<lambda>r.
                    case r of Inl e \<Rightarrow> Inr (Inl e) | Inr (m, mm') \<Rightarrow> Inr (Inr (mm'\<lparr>mm_mem := Some m\<rparr>)))))"

text \<open>\<open>Open\<close> sends every restored table; with more tables than the channel holds it waits for the flusher.\<close>

definition mm_Open :: "MemManager \<Rightarrow> MemManager option" where
  "mm_Open mm =
     (if length (mm_flushCh mm) + length (mm_imm mm) \<le> mm_NumMemTables mm
      then Some (mm\<lparr>mm_wg := mm_wg mm + length (mm_imm mm), mm_flushCh := mm_flushCh mm @ map mt_fid (mm_imm mm)\<rparr>)
      else None)"

definition mm_WriteMulti :: "env \<Rightarrow> points \<Rightarrow> (bytes \<times> int) list option \<Rightarrow> MemManager \<Rightarrow> (error option \<times> MemManager) result" where
  "mm_WriteMulti ev ps lcs mm =
     (case mm_mem mm of
        None \<Rightarrow> Inl Panic
      | Some m \<Rightarrow>
          bind_result (mt_WriteMulti (ev_senc ev) (ev_rnd ev) ps lcs m) (\<lambda>(err, m').
            Inr (err, mm\<lparr>mm_mem := Some m'\<rparr>)))"

text \<open>One table of \<open>DeleteRange\<close>: the cache, then the log, whose error is dropped.\<close>

definition delete_in_table :: "env \<Rightarrow> bytes list \<Rightarrow> u64 \<Rightarrow> u64 \<Rightarrow> MemTable \<Rightarrow> MemTable result" where
  "delete_in_table ev keys mn mx m =
     bind_result (mt_DeleteRange keys mn mx m) (\<lambda>m1.
       case wal_RemoveRange (ev_senc ev) keys mn mx (mt_wal m1) of
         Inr w \<Rightarrow> Inr (m1\<lparr>mt_wal := w\<rparr>)
       | Inl e \<Rightarrow> if e = Panic then Inl Panic else Inr m1)"

fun map_result :: "('a \<Rightarrow> 'b result) \<Rightarrow> 'a list \<Rightarrow> 'b list result" where
  "map_result f [] = Inr []"
| "map_result f (x # xs) = bind_result (f x) (\<lambda>y. bind_result (map_result f xs) (\<lambda>ys. Inr (y # ys)))"

definition mm_DeleteRange :: "env \<Rightarrow> bytes list \<Rightarrow> u64 \<Rightarrow> u64 \<Rightarrow> MemManager \<Rightarrow> MemManager result" where
  "mm_DeleteRange ev keys mn mx mm =
     (case mm_mem mm of
        None \<Rightarrow> Inl Panic
      | Some m \<Rightarrow>
          bind_result (delete_in_table ev keys mn mx m) (\<lambda>m'.
          bind_result (map_result (delete_in_table ev keys mn mx) (mm_imm mm)) (\<lambda>imm'.
          Inr (mm\<lparr>mm_mem := Some m', mm_imm := imm'\<rparr>))))"

text \<open>The values of a key in one table; its entry is deduplicated in place.\<close>

definition values_in_table :: "bytes \<Rightarrow> MemTable \<Rightarrow> (Values \<times> MemTable) result" where
  "values_in_table key m =
     bind_result (Get key (mt_Cache m)) (\<lambda>e.
       case e of
         None \<Rightarrow> Inr ([], m)
       | Some p \<Rightarrow>
           (case nd_entry (c_heap (mt_Cache m) ! p) of
              None \<Rightarrow> Inl Panic
            | Some e \<Rightarrow>
                let e' = entry_Deduplicate e
                in Inr (entry_Values e', m\<lparr>mt_Cache := (mt_Cache m)\<lparr>c_heap := set_entry p e' (c_heap (mt_Cache m))\<rparr>\<rparr>)))"

definition mm_Values :: "bytes \<Rightarrow> MemManager \<Rightarrow> (Values \<times> MemManager) result" where
  "mm_Values key mm =
     (case mm_mem mm of
        None \<Rightarrow> Inl Panic
      | Some m \<Rightarrow>
          bind_result (values_in_table key m) (\<lambda>(vs, m').
          bind_result (map_result (values_in_table key) (mm_imm mm)) (\<lambda>rs.
          Inr (Deduplicate (vs @ concat (map fst rs)), mm\<lparr>mm_mem := Some m', mm_imm := map snd rs\<rparr>))))"

definition mm_EnsureMemForWrite :: "env \<Rightarrow> MemManager \<Rightarrow> (error option \<times> MemManager) result" where
  "mm_EnsureMemForWrite ev mm =
     (case mm_mem mm of
        None \<Rightarrow> Inl Panic
      | Some m \<Rightarrow>
          if \<not> mt_IsFull m then Inr (None, mm)
          else if length (mm_flushCh mm) < mm_NumMemTables mm then
            let mm1 = mm\<lparr>mm_flushCh := mm_flushCh mm @ [mt_fid m], mm_wg := mm_wg mm + 1, mm_imm := mm_imm mm @ [m]\<rparr>
            in bind_result (mm_newMemTable ev mm1) (\<lambda>r.
                 case r of
                   Inl e \<Rightarrow> Inr (Some e, mm1\<lparr>mm_mem := None\<rparr>)
                 | Inr (m', mm2) \<Rightarrow> Inr (None, mm2\<lparr>mm_mem := Some m'\<rparr>))
          else Inr (Some ErrNoRoom, mm))"

text \<open>\<open>None\<close> where the receive would wait.\<close>

definition mm_TakeFlushMemTable :: "MemManager \<Rightarrow> (nat \<times> MemManager) option" where
  "mm_TakeFlushMemTable mm =
     (case mm_flushCh mm of [] \<Rightarrow> None | f # fs \<Rightarrow> Some (f, mm\<lparr>mm_flushCh := fs\<rparr>))"

text \<open>The flushed table leaves the list and loses the manager's reference.\<close>

definition mm_OnMemTableFlushed :: "nat \<Rightarrow> MemManager \<Rightarrow> (MemTable option \<times> MemManager) result" where
  "mm_OnMemTableFlushed f mm =
     (case mm_imm mm of
        [] \<Rightarrow> Inl Panic
      | m # imm \<Rightarrow>
          if mt_fid m \<noteq> f then Inr (None, mm)
          else if mm_wg mm = 0 then Inl Panic
          else Inr (Some (mt_DecrRef m), mm\<lparr>mm_imm := imm, mm_wg := mm_wg mm - 1\<rparr>))"

section \<open>The manager and its flusher\<close>

text \<open>
  One step: a call of a writer or reader, each under the manager's lock, or of the flusher, which holds
  at most one table at a time. A flusher that is told to quit between taking a table and
  writing it drops the table (\<open>quit\<close>).
\<close>

inductive mm_step :: "env \<Rightarrow> MemManager \<times> nat option \<Rightarrow> MemManager \<times> nat option \<Rightarrow> bool" for ev where
  put: "mm_WriteMulti ev ps lcs mm = Inr (err, mm') \<Longrightarrow> mm_step ev (mm, q) (mm', q)"
| delete: "mm_DeleteRange ev keys mn mx mm = Inr mm' \<Longrightarrow> mm_step ev (mm, q) (mm', q)"
| read: "mm_Values key mm = Inr (vs, mm') \<Longrightarrow> mm_step ev (mm, q) (mm', q)"
| ensure: "mm_EnsureMemForWrite ev mm = Inr (err, mm') \<Longrightarrow> mm_step ev (mm, q) (mm', q)"
| take: "mm_TakeFlushMemTable mm = Some (f, mm') \<Longrightarrow> mm_step ev (mm, None) (mm', Some f)"
| flushed: "mm_OnMemTableFlushed f mm = Inr (mt, mm') \<Longrightarrow> mm_step ev (mm, Some f) (mm', None)"

inductive mm_steps :: "env \<Rightarrow> MemManager \<times> nat option \<Rightarrow> MemManager \<times> nat option \<Rightarrow> bool" for ev where
  refl: "mm_steps ev s s"
| step: "mm_steps ev s s' \<Longrightarrow> mm_step ev s' s'' \<Longrightarrow> mm_steps ev s s''"

definition quit :: "MemManager \<times> nat option \<Rightarrow> MemManager \<times> nat option" where
  "quit s = (fst s, None)"

text \<open>
  The tables waiting are exactly the one being flushed followed by those in the channel, oldest first;
  the channel holds no more than its capacity, the wait group counts the tables, and the identifiers ascend up to
  the table being written.
\<close>

definition table_fids :: "MemManager \<Rightarrow> nat list" where
  "table_fids mm = map mt_fid (mm_imm mm)"

definition mem_fid :: "MemManager \<Rightarrow> nat list" where
  "mem_fid mm = (case mm_mem mm of None \<Rightarrow> [] | Some m \<Rightarrow> [mt_fid m])"

definition flush_inv :: "MemManager \<times> nat option \<Rightarrow> bool" where
  "flush_inv s =
     (case s of (mm, q) \<Rightarrow>
        table_fids mm = (case q of None \<Rightarrow> [] | Some f \<Rightarrow> [f]) @ mm_flushCh mm \<and>
        length (mm_flushCh mm) \<le> mm_NumMemTables mm \<and> mm_wg mm = length (table_fids mm) \<and>
        sorted_wrt (<) (table_fids mm @ mem_fid mm) \<and>
        list_all (\<lambda>f. f < mm_nextMemFid mm) (table_fids mm @ mem_fid mm))"

lemma fids_simps [simp]:
  "table_fids (mm\<lparr>mm_imm := imm\<rparr>) = map mt_fid imm" "table_fids (mm\<lparr>mm_mem := m\<rparr>) = table_fids mm"
  "table_fids (mm\<lparr>mm_nextMemFid := n\<rparr>) = table_fids mm" "table_fids (mm\<lparr>mm_flushCh := ch\<rparr>) = table_fids mm"
  "table_fids (mm\<lparr>mm_wg := w\<rparr>) = table_fids mm"
  "mem_fid (mm\<lparr>mm_imm := imm\<rparr>) = mem_fid mm" "mem_fid (mm\<lparr>mm_mem := m\<rparr>) = (case m of None \<Rightarrow> [] | Some m \<Rightarrow> [mt_fid m])"
  "mem_fid (mm\<lparr>mm_nextMemFid := n\<rparr>) = mem_fid mm" "mem_fid (mm\<lparr>mm_flushCh := ch\<rparr>) = mem_fid mm"
  "mem_fid (mm\<lparr>mm_wg := w\<rparr>) = mem_fid mm"
  by (simp_all add: table_fids_def mem_fid_def)

lemma mt_WriteMulti_fid: "mt_WriteMulti senc rnd ps lcs m = Inr (err, m') \<Longrightarrow> mt_fid m' = mt_fid m"
  by (auto simp: mt_WriteMulti_def log_then_def bind_result_eq_Inr split: sum.splits if_splits)

lemma delete_in_table_fid: "delete_in_table ev keys mn mx m = Inr m' \<Longrightarrow> mt_fid m' = mt_fid m"
  by (auto simp: delete_in_table_def mt_DeleteRange_def elim!: bind_result_InrE split: sum.split_asm if_split_asm)

lemma values_in_table_fid: "values_in_table key m = Inr (vs, m') \<Longrightarrow> mt_fid m' = mt_fid m"
  by (auto simp: values_in_table_def Let_def elim!: bind_result_InrE split: option.split_asm)

lemma map_result_map: "map_result f xs = Inr ys \<Longrightarrow> (\<And>x y. f x = Inr y \<Longrightarrow> g y = h x) \<Longrightarrow> map g ys = map h xs"
  by (induction xs arbitrary: ys) (auto simp: bind_result_eq_Inr)

lemma NewMemTable_fid: "NewMemTable senc sdec rnd ord fid mx content = Inr (Inr m) \<Longrightarrow> content = [] \<Longrightarrow> 0 < mx \<Longrightarrow> mt_fid m = fid"
  by (auto simp: NewMemTable_def OpenMemTable_def Let_def split: option.splits if_splits)

text \<open>The calls of readers and writers change the contents of the tables only.\<close>

definition same_queue :: "MemManager \<Rightarrow> MemManager \<Rightarrow> bool" where
  "same_queue mm mm' \<longleftrightarrow> table_fids mm' = table_fids mm \<and> mem_fid mm' = mem_fid mm \<and> mm_flushCh mm' = mm_flushCh mm \<and>
     mm_NumMemTables mm' = mm_NumMemTables mm \<and> mm_wg mm' = mm_wg mm \<and> mm_nextMemFid mm' = mm_nextMemFid mm \<and>
     mm_MaxMemTableSize mm' = mm_MaxMemTableSize mm"

lemma same_queue_calls:
  shows "mm_WriteMulti ev ps lcs mm = Inr (err, mm') \<Longrightarrow> same_queue mm mm'"
    and "mm_DeleteRange ev keys mn mx mm = Inr mm' \<Longrightarrow> same_queue mm mm'"
    and "mm_Values key mm = Inr (vs, mm') \<Longrightarrow> same_queue mm mm'"
proof -
  assume "mm_WriteMulti ev ps lcs mm = Inr (err, mm')"
  then show "same_queue mm mm'"
    by (auto simp: mm_WriteMulti_def same_queue_def mem_fid_def bind_result_eq_Inr dest: mt_WriteMulti_fid split: option.splits)
next
  assume "mm_DeleteRange ev keys mn mx mm = Inr mm'"
  then obtain m m' imm' where m: "mm_mem mm = Some m" "delete_in_table ev keys mn mx m = Inr m'"
      "map_result (delete_in_table ev keys mn mx) (mm_imm mm) = Inr imm'" "mm' = mm\<lparr>mm_mem := Some m', mm_imm := imm'\<rparr>"
    by (auto simp: mm_DeleteRange_def bind_result_eq_Inr split: option.splits)
  have "map mt_fid imm' = map mt_fid (mm_imm mm)" by (rule map_result_map [OF m(3)]) (rule delete_in_table_fid)
  then show "same_queue mm mm'" using m delete_in_table_fid [OF m(2)] by (simp add: same_queue_def mem_fid_def table_fids_def)
next
  assume "mm_Values key mm = Inr (vs, mm')"
  then obtain m m' vs0 rs where m: "mm_mem mm = Some m" "values_in_table key m = Inr (vs0, m')"
      "map_result (values_in_table key) (mm_imm mm) = Inr rs" "mm' = mm\<lparr>mm_mem := Some m', mm_imm := map snd rs\<rparr>"
    by (auto simp: mm_Values_def bind_result_eq_Inr split: option.splits)
  have "map (mt_fid \<circ> snd) rs = map mt_fid (mm_imm mm)" by (rule map_result_map [OF m(3)]) (auto dest: values_in_table_fid)
  then show "same_queue mm mm'" using m values_in_table_fid [OF m(2)] by (simp add: same_queue_def mem_fid_def table_fids_def)
qed

lemma flush_inv_same: "same_queue mm mm' \<Longrightarrow> flush_inv (mm, q) \<Longrightarrow> flush_inv (mm', q)"
  unfolding flush_inv_def prod.case same_queue_def by (elim conjE) (simp only: simp_thms)

lemma newMemTable_result:
  assumes "mm_newMemTable ev mm = Inr (Inr (m, mm'))" and "\<forall>f \<ge> mm_nextMemFid mm. ev_file ev f = []" and "0 < mm_MaxMemTableSize mm"
  shows "mt_fid m = mm_nextMemFid mm \<and> mm' = mm\<lparr>mm_nextMemFid := mm_nextMemFid mm + 1\<rparr>"
proof -
  have n: "NewMemTable (ev_senc ev) (ev_sdec ev) (ev_rnd ev) (ev_ord ev (mm_nextMemFid mm)) (mm_nextMemFid mm) (mm_MaxMemTableSize mm) (ev_file ev (mm_nextMemFid mm)) = Inr (Inr m)"
    and "mm' = mm\<lparr>mm_nextMemFid := mm_nextMemFid mm + 1\<rparr>"
    using assms(1) by (auto simp: mm_newMemTable_def elim!: bind_result_InrE split: sum.split_asm)
  then show ?thesis using NewMemTable_fid [OF n] assms(2,3) by simp
qed

lemma flush_inv_mem:
  assumes "flush_inv (mm\<lparr>mm_mem := None\<rparr>, q)" and "mt_fid m = mm_nextMemFid mm"
  shows "flush_inv (mm\<lparr>mm_nextMemFid := mm_nextMemFid mm + 1, mm_mem := Some m\<rparr>, q)"
  using assms by (auto simp: flush_inv_def sorted_wrt_append list_all_iff less_SucI)

lemma mm_step_inv:
  assumes "mm_step ev s s'" and "flush_inv s" and "\<forall>f \<ge> mm_nextMemFid (fst s). ev_file ev f = []" and "0 < mm_MaxMemTableSize (fst s)"
  shows "flush_inv s' \<and> mm_MaxMemTableSize (fst s') = mm_MaxMemTableSize (fst s) \<and> mm_nextMemFid (fst s) \<le> mm_nextMemFid (fst s')"
  using assms(1)
proof (cases rule: mm_step.cases)
  case (put ps lcs mm err mm' q)
  then show ?thesis using same_queue_calls(1) [OF put(3)] flush_inv_same [of mm mm' q] assms(2) by (simp add: same_queue_def)
next
  case (delete keys mn mx mm mm' q)
  then show ?thesis using same_queue_calls(2) [OF delete(3)] flush_inv_same [of mm mm' q] assms(2) by (simp add: same_queue_def)
next
  case (read key mm vs mm' q)
  then show ?thesis using same_queue_calls(3) [OF read(3)] flush_inv_same [of mm mm' q] assms(2) by (simp add: same_queue_def)
next
  case (ensure mm err mm' q)
  obtain m where m: "mm_mem mm = Some m" using ensure(3) by (auto simp: mm_EnsureMemForWrite_def split: option.splits)
  define mm1 where "mm1 = mm\<lparr>mm_flushCh := mm_flushCh mm @ [mt_fid m], mm_wg := Suc (mm_wg mm), mm_imm := mm_imm mm @ [m]\<rparr>"
  have inv: "flush_inv (mm, q)" using assms(2) ensure(1) by simp
  show ?thesis
  proof (cases "mt_IsFull m \<and> length (mm_flushCh mm) < mm_NumMemTables mm")
    case False
    then have "mm' = mm" using ensure(3) m by (auto simp: mm_EnsureMemForWrite_def split: if_splits)
    then show ?thesis using ensure inv by simp
  next
    case True
    then have "bind_result (mm_newMemTable ev mm1) (\<lambda>r. case r of Inl e \<Rightarrow> Inr (Some e, mm1\<lparr>mm_mem := None\<rparr>)
        | Inr (m', mm2) \<Rightarrow> Inr (None, mm2\<lparr>mm_mem := Some m'\<rparr>)) = Inr (err, mm')"
      unfolding mm1_def using ensure(3) m by (simp add: mm_EnsureMemForWrite_def Let_def)
    then obtain r where r: "mm_newMemTable ev mm1 = Inr r"
      and res: "(case r of Inl e \<Rightarrow> Inr (Some e, mm1\<lparr>mm_mem := None\<rparr>) | Inr (m', mm2) \<Rightarrow> Inr (None, mm2\<lparr>mm_mem := Some m'\<rparr>)) =
        (Inr (err, mm') :: (error option \<times> MemManager) result)"
      by (rule bind_result_InrE) (rule that)
    have inv1: "flush_inv (mm1\<lparr>mm_mem := None\<rparr>, q)"
      using inv m True by (auto simp: flush_inv_def mm1_def mem_fid_def table_fids_def [symmetric])
    show ?thesis
    proof (cases r)
      case (Inl e)
      then have "mm' = mm1\<lparr>mm_mem := None\<rparr>" using res by simp
      then show ?thesis using inv1 ensure(1,2) by (simp add: mm1_def)
    next
      case (Inr p)
      obtain m' mm2 where p: "p = (m', mm2)" by (cases p)
      have "mt_fid m' = mm_nextMemFid mm1" and mm2: "mm2 = mm1\<lparr>mm_nextMemFid := mm_nextMemFid mm1 + 1\<rparr>"
        using newMemTable_result [of ev mm1 m' mm2] r Inr p assms(3,4) ensure(1) by (simp_all add: mm1_def)
      moreover have "mm' = mm1\<lparr>mm_nextMemFid := mm_nextMemFid mm1 + 1, mm_mem := Some m'\<rparr>" using res Inr p mm2 by simp
      ultimately show ?thesis using flush_inv_mem [OF inv1] ensure(1,2) by (simp add: mm1_def)
    qed
  qed
next
  case (take mm f mm')
  then show ?thesis using assms(2) by (auto simp: mm_TakeFlushMemTable_def flush_inv_def split: list.splits)
next
  case (flushed f mm mt mm')
  have inv: "flush_inv (mm, Some f)" using assms(2) flushed(1) by simp
  then obtain m imm where imm: "mm_imm mm = m # imm" "mt_fid m = f" by (auto simp: flush_inv_def table_fids_def)
  then have mm': "mm' = mm\<lparr>mm_imm := imm, mm_wg := mm_wg mm - 1\<rparr>" using flushed(3) by (auto simp: mm_OnMemTableFlushed_def split: if_splits)
  then have "table_fids mm = f # table_fids mm'" using imm by (simp add: table_fids_def)
  then show ?thesis using flushed(1,2) inv mm' by (auto simp: flush_inv_def simp del: fids_simps(1))
qed

lemma mm_steps_inv:
  assumes "mm_steps ev s s'" and "flush_inv s" and "\<forall>f \<ge> mm_nextMemFid (fst s). ev_file ev f = []" and "0 < mm_MaxMemTableSize (fst s)"
  shows "flush_inv s' \<and> mm_MaxMemTableSize (fst s') = mm_MaxMemTableSize (fst s) \<and> mm_nextMemFid (fst s) \<le> mm_nextMemFid (fst s')"
  using assms
proof (induction rule: mm_steps.induct)
  case (step s s' s'')
  then show ?case using mm_step_inv [OF step.hyps(2)] by auto
qed simp

section \<open>Starting\<close>

lemma replay_entry_fid: "replay_entry senc rnd e m = Inr (err, m') \<Longrightarrow> mt_fid m' = mt_fid m"
proof -
  have del: "mt_DeleteRange keys mn mx m = Inr m' \<Longrightarrow> mt_fid m' = mt_fid m" for keys mn mx m m'
    by (auto simp: mt_DeleteRange_def elim!: bind_result_InrE)
  show "replay_entry senc rnd e m = Inr (err, m') \<Longrightarrow> mt_fid m' = mt_fid m"
    by (cases e) (auto simp: mt_Delete_def elim!: bind_result_InrE dest: del mt_WriteMulti_fid)
qed

lemma restore_loop_fid: "restore_loop senc sdec rnd ord i r m = Inr (err, r', m') \<Longrightarrow> mt_fid m' = mt_fid m"
proof (induction senc sdec rnd ord i r m rule: restore_loop.induct)
  case (1 senc sdec rnd ord i r m)
  note eq = 1(3) [unfolded restore_loop.simps [of senc sdec rnd ord i r m]]
  obtain ok r1 where n: "live_Next sdec (mapping r m) r = Inr (ok, r1)" using eq by (auto split: sum.split_asm)
  show ?case
  proof (cases "\<not> ok \<or> isl (live_Read r1)")
    case True
    then show ?thesis using eq n by (cases "live_Read r1") (auto split: if_split_asm)
  next
    case False
    then obtain en where en: "ok" "live_Read r1 = Inr en" by (cases "live_Read r1") auto
    show ?thesis
    proof (cases en)
      case None
      then show ?thesis using 1(1) [OF n HOL.refl] 1(3) eq n en by simp
    next
      case (Some e)
      obtain x m1 where x: "replay_entry senc rnd (iterate_entry (ord i) e) m = Inr (x, m1)" using eq n en Some by (auto split: sum.split_asm)
      have f: "mt_fid m1 = mt_fid m" by (rule replay_entry_fid [OF x])
      show ?thesis
      proof (cases x)
        case None
        then have "restore_loop senc sdec rnd ord (i + 1) r1 m1 = Inr (err, r', m')" using eq n en Some x by simp
        then show ?thesis using 1(2) [OF n HOL.refl _ en(2) Some x [unfolded None] HOL.refl HOL.refl] en(1) f by simp
      next
        case (Some y)
        then show ?thesis using eq n en \<open>en = Some e\<close> x f by simp
      qed
    qed
  qed
qed

lemma restoreFromWAL_fid: "restoreFromWAL senc sdec rnd ord m = Inr (None, m') \<Longrightarrow> mt_fid m' = mt_fid m"
  by (auto simp: restoreFromWAL_def dest!: restore_loop_fid elim!: bind_result_InrE split: prod.split_asm option.split_asm)

lemma OpenMemTable_fid: "OpenMemTable senc sdec rnd ord fid mx content = Inr (None, m) \<Longrightarrow> mt_fid m = fid"
  by (auto simp: OpenMemTable_def Let_def dest: restoreFromWAL_fid split: if_splits)

lemma restore_tables_fids:
  "restore_tables ev mx fids imm = Inr (Inr imm') \<Longrightarrow> sorted_wrt (<) (map mt_fid imm @ fids) \<Longrightarrow>
   sorted_wrt (<) (map mt_fid imm') \<and> set (map mt_fid imm') \<subseteq> set (map mt_fid imm) \<union> set fids"
proof (induction fids arbitrary: imm)
  case (Cons fid fids)
  obtain mt e where mt: "OpenMemTable (ev_senc ev) (ev_sdec ev) (ev_rnd ev) (ev_ord ev fid) fid mx (ev_file ev fid) = Inr (None, mt)"
      "restore_tables ev mx fids (if e then imm else imm @ [mt]) = Inr (Inr imm')"
    using Cons.prems(1) by (auto elim!: bind_result_InrE split: option.split_asm)
  have "sorted_wrt (<) (map mt_fid (if e then imm else imm @ [mt]) @ fids)"
    using Cons.prems(2) OpenMemTable_fid [OF mt(1)] by (auto simp: sorted_wrt_append)
  from Cons.IH [OF mt(2) this] show ?case using OpenMemTable_fid [OF mt(1)] by (auto split: if_splits)
qed simp

lemma start_inv:
  assumes "NewMemManager ev num mx files = Inr (Inr mm0)" and "mm_Open mm0 = Some mm" and "distinct files" and "0 < mx"
    and "\<forall>f > Max (insert 0 (set files)). ev_file ev f = []"
  shows "flush_inv (mm, None) \<and> mm_MaxMemTableSize mm = mx \<and> mm_nextMemFid mm > Max (insert 0 (set files))"
proof -
  define fids where "fids = sort files"
  define top where "top = last_fid fids"
  have sorted: "sorted_wrt (<) fids" using assms(3) by (simp add: fids_def strict_sorted_iff)
  have set_fids: "set fids = set files" by (simp add: fids_def)
  have top: "top = Max (insert 0 (set files))"
  proof (cases "files = []")
    case False
    then have ne: "fids \<noteq> []" using set_fids by auto
    have "fids ! (length fids - 1) = Max (set fids)"
      using ne sorted by (intro Max_eqI [symmetric]) (auto simp: in_set_conv_nth strict_sorted_iff intro: sorted_nth_mono exI [of _ "length fids - 1"])
    then show ?thesis using ne False by (simp add: top_def last_fid_def set_fids Max_insert max_def)
  qed (simp add: top_def fids_def last_fid_def)
  obtain imm m mm1 where r: "restore_tables ev mx fids [] = Inr (Inr imm)"
    and mm1: "mm1 = \<lparr>mm_mem = None, mm_imm = imm, mm_nextMemFid = top + 1, mm_flushCh = [], mm_NumMemTables = num, mm_MaxMemTableSize = mx, mm_wg = 0\<rparr>"
    and n: "NewMemTable (ev_senc ev) (ev_sdec ev) (ev_rnd ev) (ev_ord ev (top + 1)) (top + 1) mx (ev_file ev (top + 1)) = Inr (Inr m)"
    and mm0: "mm0 = mm1\<lparr>mm_nextMemFid := top + 1 + 1, mm_mem := Some m\<rparr>"
    using assms(1) unfolding NewMemManager_def fids_def [symmetric]
    by (auto simp: Let_def mm_newMemTable_def top_def elim!: bind_result_InrE split: sum.split_asm)
  have "\<forall>f > top. ev_file ev f = []" unfolding top by (rule assms(5))
  then have "mt_fid m = top + 1" using assms(4) by (intro NewMemTable_fid [OF n]) simp_all
  moreover have "sorted_wrt (<) (map mt_fid imm)" "set (map mt_fid imm) \<subseteq> set fids" using restore_tables_fids [OF r] sorted by simp_all
  moreover have "f \<le> top" if "f \<in> set fids" for f using that top set_fids by (simp add: Max_ge)
  ultimately have "\<forall>f \<in> set (map mt_fid imm). f < mt_fid m" "mt_fid m = top + 1" "sorted_wrt (<) (map mt_fid imm)" by fastforce+
  then have "sorted_wrt (<) (map mt_fid imm @ [mt_fid m])" "list_all (\<lambda>f. f < top + 2) (map mt_fid imm @ [mt_fid m])"
    by (fastforce simp: sorted_wrt_append list_all_iff)+
  moreover have "mm = mm0\<lparr>mm_wg := length imm, mm_flushCh := map mt_fid imm\<rparr>" "length imm \<le> num"
    using assms(2) mm0 mm1 by (auto simp: mm_Open_def split: if_splits)
  ultimately show ?thesis using mm0 mm1 by (simp add: flush_inv_def table_fids_def mem_fid_def top [symmetric])
qed

section \<open>A flusher that gave up\<close>

text \<open>
  The table \<open>f\<close> is the oldest and nobody will flush it: it is neither in the channel nor with the flusher. The tables \<open>L\<close> behind it
  are still there.
\<close>

definition stalled :: "nat \<Rightarrow> nat list \<Rightarrow> MemManager \<times> nat option \<Rightarrow> bool" where
  "stalled f L s =
     (case s of (mm, q) \<Rightarrow>
        (\<exists>fs. table_fids mm = f # L @ fs) \<and> f \<notin> set (mm_flushCh mm) \<and> q \<noteq> Some f \<and> f \<notin> set (mem_fid mm) \<and>
        f < mm_nextMemFid mm \<and> mm_wg mm = length (table_fids mm))"

lemma stalled_same: "same_queue mm mm' \<Longrightarrow> stalled f L (mm, q) \<Longrightarrow> stalled f L (mm', q)"
  by (simp add: stalled_def same_queue_def)

lemma stalled_ensure:
  assumes "stalled f L (mm, q)" and "mm_EnsureMemForWrite ev mm = Inr (err, mm')"
    and "\<forall>f \<ge> mm_nextMemFid mm. ev_file ev f = []" and "0 < mm_MaxMemTableSize mm"
  shows "stalled f L (mm', q) \<and> mm_MaxMemTableSize mm' = mm_MaxMemTableSize mm \<and> mm_nextMemFid mm \<le> mm_nextMemFid mm'"
proof -
  obtain m where m: "mm_mem mm = Some m" using assms(2) by (auto simp: mm_EnsureMemForWrite_def split: option.splits)
  define mm1 where "mm1 = mm\<lparr>mm_flushCh := mm_flushCh mm @ [mt_fid m], mm_wg := mm_wg mm + 1, mm_imm := mm_imm mm @ [m]\<rparr>"
  have st: "stalled f L (mm1\<lparr>mm_mem := None\<rparr>, q)"
    using assms(1) m by (auto simp: stalled_def mm1_def mem_fid_def table_fids_def)
  have mm1: "mm_nextMemFid mm1 = mm_nextMemFid mm" "mm_MaxMemTableSize mm1 = mm_MaxMemTableSize mm" by (simp_all add: mm1_def)
  consider "mm' = mm" | e where "mm_newMemTable ev mm1 = Inr (Inl e)" "mm' = mm1\<lparr>mm_mem := None\<rparr>"
    | m' mm2 where "mm_newMemTable ev mm1 = Inr (Inr (m', mm2))" "mm' = mm2\<lparr>mm_mem := Some m'\<rparr>"
    using assms(2) unfolding mm_EnsureMemForWrite_def m option.case Let_def mm1_def [symmetric]
    by (auto elim!: bind_result_InrE split: if_split_asm sum.split_asm)
  then show ?thesis
  proof cases
    case 3
    then have "mt_fid m' = mm_nextMemFid mm1" "mm2 = mm1\<lparr>mm_nextMemFid := mm_nextMemFid mm1 + 1\<rparr>"
      using newMemTable_result [OF 3(1)] assms(3,4) mm1 by simp_all
    then show ?thesis using 3 st mm1 by (auto simp: stalled_def)
  qed (use assms st mm1 in simp_all)
qed

lemma stalled_step:
  assumes "mm_step ev s s'" and "stalled f L s" and "\<forall>f \<ge> mm_nextMemFid (fst s). ev_file ev f = []" and "0 < mm_MaxMemTableSize (fst s)"
  shows "stalled f L s' \<and> mm_MaxMemTableSize (fst s') = mm_MaxMemTableSize (fst s) \<and> mm_nextMemFid (fst s) \<le> mm_nextMemFid (fst s')"
  using assms(1)
proof (cases rule: mm_step.cases)
  case (put ps lcs mm err mm' q)
  then show ?thesis using same_queue_calls(1) [OF put(3)] stalled_same [of mm mm' f L q] assms(2) by (simp add: same_queue_def)
next
  case (delete keys mn mx mm mm' q)
  then show ?thesis using same_queue_calls(2) [OF delete(3)] stalled_same [of mm mm' f L q] assms(2) by (simp add: same_queue_def)
next
  case (read key mm vs mm' q)
  then show ?thesis using same_queue_calls(3) [OF read(3)] stalled_same [of mm mm' f L q] assms(2) by (simp add: same_queue_def)
next
  case (ensure mm err mm' q)
  then show ?thesis using stalled_ensure [of f L mm q ev err mm'] assms(2,3,4) by simp
next
  case (take mm f' mm')
  then show ?thesis using assms(2) by (auto simp: mm_TakeFlushMemTable_def stalled_def split: list.splits)
next
  case (flushed f' mm mt mm')
  then show ?thesis using assms(2)
    by (auto simp: mm_OnMemTableFlushed_def stalled_def table_fids_def split: list.splits if_splits)
qed

lemma stalled_steps:
  assumes "mm_steps ev s s'" and "stalled f L s" and "\<forall>f \<ge> mm_nextMemFid (fst s). ev_file ev f = []" and "0 < mm_MaxMemTableSize (fst s)"
  shows "stalled f L s' \<and> mm_MaxMemTableSize (fst s') = mm_MaxMemTableSize (fst s) \<and> mm_nextMemFid (fst s) \<le> mm_nextMemFid (fst s')"
  using assms
proof (induction rule: mm_steps.induct)
  case (step s s' s'')
  then show ?case using stalled_step [OF step.hyps(2), of f L] by (auto intro: le_trans)
qed simp

lemma quit_stalled: "flush_inv (mm, Some f) \<Longrightarrow> stalled f (mm_flushCh mm) (quit (mm, Some f))"
  by (auto simp: flush_inv_def stalled_def quit_def list_all_iff)

section \<open>Reading a key\<close>

text \<open>A table that holds the entry \<open>e\<close> for the key.\<close>

definition holds_entry :: "bytes \<Rightarrow> MemTable \<Rightarrow> Entry \<Rightarrow> bool" where
  "holds_entry key m e \<longleftrightarrow> cache_inv (mt_Cache m) \<and> (\<exists>lc. cache_series (mt_Cache m) key = Some (lc, Some e))"

lemma Get_present:
  assumes "cache_inv c" and "cache_series c k = Some (lc, Some e)"
  obtains p where "Get k c = Inr (Some p)" "p \<in> set (cache_nodes c)" "nd_key (c_heap c ! p) = k"
    "nd_entry (c_heap c ! p) = Some e" "nd_lifeCycle (c_heap c ! p) = lc"
proof -
  obtain p where p: "p \<in> set (cache_nodes c)" "nd_key (c_heap c ! p) = k" "nd_lifeCycle (c_heap c ! p) = lc" "nd_entry (c_heap c ! p) = Some e"
    using cache_series_Some [OF assms(1), of k lc "Some e"] assms(2) by auto
  have "sorted_wrt (\<lambda>p q. nd_key (c_heap c ! p) < nd_key (c_heap c ! q)) (cache_nodes c)"
    using assms(1) skip_listD(4) by (auto simp: cache_inv_def)
  then obtain B where "from_key (c_heap c) k (cache_nodes c) = p # B" using from_key_present p(1,2) by blast
  then have "Get k c = Inr (Some p)" using findGreaterOrEqual_ok [OF assms(1), of k] p(4) by (simp add: Get_def)
  then show thesis using that p by blast
qed

lemma values_in_table_ok:
  assumes "holds_entry key m e"
  shows "\<exists>m'. values_in_table key m = Inr (Deduplicate (en_values e), m')"
proof -
  obtain lc where "cache_series (mt_Cache m) key = Some (lc, Some e)" "cache_inv (mt_Cache m)" using assms by (auto simp: holds_entry_def)
  then obtain p where "Get key (mt_Cache m) = Inr (Some p)" "nd_entry (c_heap (mt_Cache m) ! p) = Some e" using Get_present by metis
  then show ?thesis by (simp add: values_in_table_def Let_def entry_Values_def entry_Deduplicate_values)
qed

text \<open>The least key of a map that is not below \<open>k\<close>, and what a table contributes to the values of a key.\<close>

definition nearest :: "bytes \<Rightarrow> series \<Rightarrow> bytes \<Rightarrow> bool" where
  "nearest k s q \<longleftrightarrow> q \<in> dom s \<and> k \<le> q \<and> (\<forall>q' \<in> dom s. k \<le> q' \<longrightarrow> q \<le> q')"

definition contributes :: "bytes \<Rightarrow> series \<Rightarrow> Values \<Rightarrow> bool" where
  "contributes k s vs \<longleftrightarrow> (\<forall>q \<in> dom s. q < k) \<and> vs = [] \<or> (\<exists>q lc e. nearest k s q \<and> s q = Some (lc, Some e) \<and> vs = en_values e)"

lemma Get_nearest:
  assumes "cache_inv c" and "full_series (cache_series c)"
  obtains (none) "Get k c = Inr None" "\<forall>q \<in> dom (cache_series c). q < k"
  | (some) p lc e where "Get k c = Inr (Some p)" "p \<in> set (cache_nodes c)" "nearest k (cache_series c) (nd_key (c_heap c ! p))"
      "nd_entry (c_heap c ! p) = Some e" "nd_lifeCycle (c_heap c ! p) = lc" "cache_series c (nd_key (c_heap c ! p)) = Some (lc, Some e)"
proof (cases "from_key (c_heap c) k (cache_nodes c)")
  case Nil
  have "q < k" if q: "q \<in> dom (cache_series c)" for q
  proof -
    obtain lc e where "cache_series c q = Some (lc, e)" using q by auto
    then obtain p where "p \<in> set (cache_nodes c)" "nd_key (c_heap c ! p) = q" unfolding cache_series_Some [OF assms(1)] by blast
    then show ?thesis using Nil below_from [of "cache_nodes c" "c_heap c" k] below_less [of p "c_heap c" k "cache_nodes c"] by simp
  qed
  then show ?thesis using none findGreaterOrEqual_ok [OF assms(1), of k] Nil by (simp add: Get_def hd_opt_def)
next
  case (Cons p B)
  have srt: "sorted_wrt (\<lambda>p q. nd_key (c_heap c ! p) < nd_key (c_heap c ! q)) (cache_nodes c)"
    using assms(1) skip_listD(4) by (auto simp: cache_inv_def)
  have p: "p \<in> set (cache_nodes c)" using Cons below_from [of "cache_nodes c" "c_heap c" k] by (metis Un_iff list.set_intros(1) set_append)
  have s: "cache_series c (nd_key (c_heap c ! p)) = Some (nd_lifeCycle (c_heap c ! p), nd_entry (c_heap c ! p))"
    using cache_series_Some [OF assms(1)] p by blast
  then obtain e where e: "nd_entry (c_heap c ! p) = Some e" using assms(2) unfolding full_series_def by (cases "nd_entry (c_heap c ! p)") auto
  have "k \<le> nd_key (c_heap c ! p)" using from_key_ge [OF srt, of p k] Cons by simp
  moreover have "nd_key (c_heap c ! p) \<le> q" if "q \<in> dom (cache_series c)" "k \<le> q" for q
    using from_key_least [OF assms(1) Cons] that cache_series_Some [OF assms(1)] by auto
  ultimately have "nearest k (cache_series c) (nd_key (c_heap c ! p))" using s by (auto simp: nearest_def)
  then show ?thesis using some [of p e] p s e findGreaterOrEqual_ok [OF assms(1), of k] Cons by (simp add: Get_def hd_opt_def)
qed

lemma values_in_table_contributes:
  assumes "cache_inv (mt_Cache t) \<and> full_series (cache_series (mt_Cache t))"
  shows "\<exists>ws t'. values_in_table key t = Inr (Deduplicate ws, t') \<and> contributes key (cache_series (mt_Cache t)) ws"
proof -
  have d: "Deduplicate [] = []" by (simp add: Deduplicate_def)
  have inv: "cache_inv (mt_Cache t)" "full_series (cache_series (mt_Cache t))" using assms by simp_all
  from inv show ?thesis
  proof (cases rule: Get_nearest [where k = key])
    case none
    then show ?thesis using d by (intro exI [of _ "[]"]) (auto simp: values_in_table_def contributes_def)
  next
    case (some p lc e)
    then have "values_in_table key t = Inr (Deduplicate (en_values e),
        t\<lparr>mt_Cache := (mt_Cache t)\<lparr>c_heap := set_entry p (entry_Deduplicate e) (c_heap (mt_Cache t))\<rparr>\<rparr>)"
      by (simp add: values_in_table_def Let_def entry_Values_def entry_Deduplicate_values)
    then show ?thesis using some unfolding contributes_def by blast
  qed
qed

lemma map_result_contributes:
  "\<forall>t \<in> set ts. cache_inv (mt_Cache t) \<and> full_series (cache_series (mt_Cache t)) \<Longrightarrow>
   \<exists>rs wss. map_result (values_in_table key) ts = Inr rs \<and> map fst rs = map Deduplicate wss \<and>
     list_all2 (\<lambda>t. contributes key (cache_series (mt_Cache t))) ts wss"
proof (induction ts)
  case (Cons t ts)
  obtain rs wss where IH: "map_result (values_in_table key) ts = Inr rs" "map fst rs = map Deduplicate wss"
      "list_all2 (\<lambda>t. contributes key (cache_series (mt_Cache t))) ts wss" using Cons by auto
  obtain ws t' where "values_in_table key t = Inr (Deduplicate ws, t')" "contributes key (cache_series (mt_Cache t)) ws"
    using values_in_table_contributes [of t key] Cons.prems by auto
  then show ?case using IH by (intro exI [of _ "(Deduplicate ws, t') # rs"] exI [of _ "ws # wss"]) simp
qed simp

lemma latest_concat_Deduplicate: "latest t (concat (map Deduplicate xs)) = latest t (concat xs)"
  by (induction xs) (simp_all add: latest_append split: option.splits)

section \<open>Deleting a range\<close>

text \<open>An entry without the values of the closed range.\<close>

definition cut_range :: "u64 \<Rightarrow> u64 \<Rightarrow> Entry \<Rightarrow> Entry" where
  "cut_range mn mx e = e\<lparr>en_values := filter (\<lambda>v. \<not> (sint mn \<le> UnixNano v \<and> UnixNano v \<le> sint mx)) (Deduplicate (en_values e))\<rparr>"

lemma full_range: "sint MinInt64 \<le> UnixNano v" "UnixNano v \<le> sint MaxInt64"
proof -
  have "sint MinInt64 = - (2 ^ 63)" "sint MaxInt64 = 2 ^ 63 - 1" by (simp_all add: MinInt64_def MaxInt64_def mask_eq_exp_minus_1)
  then show "sint MinInt64 \<le> UnixNano v" "UnixNano v \<le> sint MaxInt64" using UnixNano_bounds [of v] by simp_all
qed

lemma delete_key_at:
  assumes "cache_inv c" and "Get k c = Inr (Some p)" and "p \<in> set (cache_nodes c)" and "nd_entry (c_heap c ! p) = Some e"
  shows "\<exists>c'. delete_key mn mx k c = Inr c' \<and> cache_inv c' \<and>
    cache_series c' = (cache_series c)(nd_key (c_heap c ! p) \<mapsto> (nd_lifeCycle (c_heap c ! p), Some (cut_range mn mx e)))"
proof -
  define e2 where "e2 = entry_Filter (sint mn) (sint mx) (if mn = MinInt64 \<and> mx = MaxInt64 then entry_Clean e else e)"
  have e2: "e2 = cut_range mn mx e"
    using full_range by (auto simp: e2_def cut_range_def entry_Filter_eq entry_Clean_def)
  define c1 where "c1 = c\<lparr>c_heap := set_entry p e2 (c_heap c)\<rparr>"
  define d where "d = (of_nat (entry_Size e) - of_nat (entry_Size e2) :: u32)"
  have "delete_key mn mx k c = Inr (DecreaseSize d c1)"
    using assms(2,4) by (simp add: delete_key_def Let_def c1_def d_def e2_def)
  moreover have "cache_inv c1 \<and> cache_nodes c1 = cache_nodes c \<and>
      cache_series c1 = (cache_series c)(nd_key (c_heap c ! p) \<mapsto> (nd_lifeCycle (c_heap c ! p), Some e2))"
    by (rule cache_inv_set_entry [OF assms(1,3) c1_def])
  moreover have "cache_inv (DecreaseSize d c1) = cache_inv c1" by (rule cache_same) (simp_all add: DecreaseSize_def)
  moreover have "cache_series (DecreaseSize d c1) = cache_series c1" by (rule cache_same) (simp_all add: DecreaseSize_def)
  ultimately show ?thesis using e2 by simp
qed

definition cut_keys :: "bytes set \<Rightarrow> u64 \<Rightarrow> u64 \<Rightarrow> series \<Rightarrow> series" where
  "cut_keys K mn mx m k = (if k \<in> K then map_option (\<lambda>(lc, e). (lc, map_option (cut_range mn mx) e)) (m k) else m k)"

lemma cut_range_idem: "cut_range mn mx (cut_range mn mx e) = cut_range mn mx e"
proof -
  have "ordered (filter P (Deduplicate vs))" for P vs by (rule ordered_filter [OF ordered_Deduplicate])
  then show ?thesis by (simp add: cut_range_def)
qed

lemma cut_keys_twice: "cut_keys K mn mx (cut_keys J mn mx m) = cut_keys (J \<union> K) mn mx m"
proof
  fix k
  have "map_option (cut_range mn mx) (map_option (cut_range mn mx) e) = map_option (cut_range mn mx) e" for e
    by (simp add: option.map_comp comp_def cut_range_idem)
  then show "cut_keys K mn mx (cut_keys J mn mx m) k = cut_keys (J \<union> K) mn mx m k"
    by (cases "m k") (auto simp: cut_keys_def)
qed

lemma cut_keys_dom: "dom (cut_keys K mn mx m) = dom m" "full_series m \<Longrightarrow> full_series (cut_keys K mn mx m)"
  "nearest k (cut_keys K mn mx m) = nearest k m"
proof -
  have d: "(cut_keys K mn mx m q = None) = (m q = None)" for q by (simp add: cut_keys_def)
  then show "dom (cut_keys K mn mx m) = dom m" by (simp add: dom_def)
  then show "nearest k (cut_keys K mn mx m) = nearest k m" by (simp add: nearest_def fun_eq_iff)
  show "full_series m \<Longrightarrow> full_series (cut_keys K mn mx m)" by (auto simp: full_series_def cut_keys_def split: if_splits)
qed

text \<open>The series that a deletion of keys reaches.\<close>

definition reached :: "bytes set \<Rightarrow> series \<Rightarrow> bytes set" where
  "reached K s = {q. \<exists>k \<in> K. nearest k s q}"

lemma nearest_unique: "nearest k s q \<Longrightarrow> nearest k s q' \<Longrightarrow> q = q'"
  unfolding nearest_def by (meson order_antisym)

lemma reached_present: "K \<subseteq> dom s \<Longrightarrow> reached K s = K"
proof -
  assume K: "K \<subseteq> dom s"
  then have "nearest k s k" if "k \<in> K" for k using that by (auto simp: nearest_def)
  then show ?thesis using nearest_unique unfolding reached_def by blast
qed

lemma delete_key_ok:
  assumes "cache_inv c" and "full_series (cache_series c)"
  shows "\<exists>c'. delete_key mn mx k c = Inr c' \<and> cache_inv c' \<and> cache_series c' = cut_keys (reached {k} (cache_series c)) mn mx (cache_series c)"
  using assms
proof (cases rule: Get_nearest [where k = k])
  case none
  then have "reached {k} (cache_series c) = {}" unfolding reached_def nearest_def by (auto dest!: leD)
  then show ?thesis using none assms(1) by (simp add: delete_key_def cut_keys_def [abs_def])
next
  case (some p lc e)
  let ?q = "nd_key (c_heap c ! p)"
  have r: "reached {k} (cache_series c) = {?q}" using some(3) nearest_unique unfolding reached_def by blast
  have "cut_keys {?q} mn mx (cache_series c) = (cache_series c)(?q \<mapsto> (lc, Some (cut_range mn mx e)))"
    using some(6) by (auto simp: cut_keys_def fun_eq_iff)
  then show ?thesis using delete_key_at [OF assms(1) some(1,2,4), of mn mx] some(5) r by auto
qed

lemma delete_keys_ok:
  "cache_inv c \<Longrightarrow> full_series (cache_series c) \<Longrightarrow>
   \<exists>c'. delete_keys mn mx keys c = Inr c' \<and> cache_inv c' \<and> cache_series c' = cut_keys (reached (set keys) (cache_series c)) mn mx (cache_series c)"
proof (induction keys arbitrary: c)
  case Nil
  then show ?case by (simp add: cut_keys_def [abs_def] reached_def)
next
  case (Cons k keys)
  obtain c1 where c1: "delete_key mn mx k c = Inr c1" "cache_inv c1" "cache_series c1 = cut_keys (reached {k} (cache_series c)) mn mx (cache_series c)"
    using delete_key_ok [OF Cons.prems] by blast
  have "full_series (cache_series c1)" "reached (set keys) (cache_series c1) = reached (set keys) (cache_series c)"
    using Cons.prems(2) by (simp_all add: c1(3) cut_keys_dom reached_def)
  moreover have "reached {k} (cache_series c) \<union> reached (set keys) (cache_series c) = reached (set (k # keys)) (cache_series c)"
    by (auto simp: reached_def)
  ultimately show ?case using Cons.IH [OF c1(2)] c1(1,3) by (auto simp: cut_keys_twice)
qed

section \<open>Properties\<close>

text \<open>
  C24: The flush queue. From the restored tables on, through any interleaving of writes, deletes, reads,
  rotations and flushes, the immutable tables are exactly the one being flushed and those in the
  channel, oldest first, never more than the channel holds besides the one being flushed; no table
  is lost or flushed twice. When the flusher reports its table, that is the oldest one, and it
  alone is removed.
\<close>

theorem flush_queue_fifo:
  assumes "NewMemManager ev num mx files = Inr (Inr mm0)" and "mm_Open mm0 = Some mm1" and "distinct files" and "0 < mx"
    and "\<forall>f > Max (insert 0 (set files)). ev_file ev f = []"
    and "mm_steps ev (mm1, None) (mm, q)"
  shows "map mt_fid (mm_imm mm) = (case q of None \<Rightarrow> [] | Some f \<Rightarrow> [f]) @ mm_flushCh mm \<and>
    sorted_wrt (<) (map mt_fid (mm_imm mm)) \<and> length (mm_flushCh mm) \<le> mm_NumMemTables mm \<and>
    (\<forall>f. q = Some f \<longrightarrow> (\<exists>m. mm_imm mm = m # tl (mm_imm mm) \<and> mt_fid m = f \<and>
       mm_OnMemTableFlushed f mm = Inr (Some (mt_DecrRef m), mm\<lparr>mm_imm := tl (mm_imm mm), mm_wg := length (tl (mm_imm mm))\<rparr>)))"
proof -
  note st = start_inv [OF assms(1-5)]
  then have "\<forall>f \<ge> mm_nextMemFid mm1. ev_file ev f = []" using assms(5) by (meson less_le_trans)
  then have inv: "flush_inv (mm, q)" using mm_steps_inv [OF assms(6)] st assms(4) by simp
  have "\<exists>m. mm_imm mm = m # tl (mm_imm mm) \<and> mt_fid m = f \<and>
       mm_OnMemTableFlushed f mm = Inr (Some (mt_DecrRef m), mm\<lparr>mm_imm := tl (mm_imm mm), mm_wg := length (tl (mm_imm mm))\<rparr>)" if "q = Some f" for f
    using inv that by (cases "mm_imm mm") (auto simp: flush_inv_def table_fids_def mm_OnMemTableFlushed_def)
  moreover have "table_fids mm = (case q of None \<Rightarrow> [] | Some f \<Rightarrow> [f]) @ mm_flushCh mm" "sorted_wrt (<) (table_fids mm)" "length (mm_flushCh mm) \<le> mm_NumMemTables mm"
    using inv unfolding flush_inv_def prod.case sorted_wrt_append by blast+
  ultimately show ?thesis unfolding table_fids_def by blast
qed

text \<open>
  C25: A flusher that quits with a table in hand blocks the queue for good. Whatever runs afterwards, the immutable tables of that
  moment all stay, in their order, and new ones only come behind them: a report for a later table does not match the oldest one and
  changes nothing. The wait group that \<open>Close\<close> waits for counts them all and stays above 0.
\<close>

theorem quit_blocks_queue:
  assumes "flush_inv (mm, Some f)" and "\<forall>f \<ge> mm_nextMemFid mm. ev_file ev f = []" and "0 < mm_MaxMemTableSize mm"
    and "mm_steps ev (quit (mm, Some f)) (mm', q)"
  shows "\<exists>fs. map mt_fid (mm_imm mm') = map mt_fid (mm_imm mm) @ fs \<and> mm_wg mm' = length (mm_imm mm') \<and> 0 < mm_wg mm' \<and>
    (\<forall>g. q = Some g \<longrightarrow> mm_OnMemTableFlushed g mm' = Inr (None, mm'))"
proof -
  have st: "stalled f (mm_flushCh mm) (mm', q)"
    using stalled_steps [OF assms(4) quit_stalled [OF assms(1)]] assms(2,3) by (simp add: quit_def)
  then obtain fs where fs: "map mt_fid (mm_imm mm') = f # mm_flushCh mm @ fs" "mm_wg mm' = length (mm_imm mm')" "q \<noteq> Some f"
    by (auto simp: stalled_def table_fids_def)
  moreover have "map mt_fid (mm_imm mm) = f # mm_flushCh mm" using assms(1) by (simp add: flush_inv_def table_fids_def)
  moreover have "mm_imm mm' \<noteq> []" using fs(1) by auto
  moreover have "mm_OnMemTableFlushed g mm' = Inr (None, mm')" if "q = Some g" for g
    using fs(1,3) that by (cases "mm_imm mm'") (auto simp: mm_OnMemTableFlushed_def)
  ultimately show ?thesis by simp
qed

text \<open>
  C26: \<open>Values\<close> merges what every table contributes for a key into one ascending slice. A table contributes the entry of the key, or
  of the next greater key when it does not have the key, or nothing when all its keys are smaller. The priorities are
  reversed: the table being written comes first and the youngest immutable table last, so that
  at a timestamp contributed by an immutable table the value just written is not the one returned.
\<close>

theorem Values_priority:
  assumes "mm_mem mm = Some m" and "\<forall>t \<in> set (m # mm_imm mm). cache_inv (mt_Cache t) \<and> full_series (cache_series (mt_Cache t))"
  shows "\<exists>vs mm' ws wss. mm_Values key mm = Inr (vs, mm') \<and> contributes key (cache_series (mt_Cache m)) ws \<and>
    list_all2 (\<lambda>t. contributes key (cache_series (mt_Cache t))) (mm_imm mm) wss \<and> vs = Deduplicate (ws @ concat wss) \<and> ordered vs \<and>
    (\<forall>t. latest t vs = (case latest t (concat wss) of Some v \<Rightarrow> Some v | None \<Rightarrow> latest t ws))"
proof -
  obtain m' ws where m': "values_in_table key m = Inr (Deduplicate ws, m')" "contributes key (cache_series (mt_Cache m)) ws"
    using values_in_table_contributes [of m key] assms(2) by auto
  obtain rs wss where rs: "map_result (values_in_table key) (mm_imm mm) = Inr rs" "map fst rs = map Deduplicate wss"
      "list_all2 (\<lambda>t. contributes key (cache_series (mt_Cache t))) (mm_imm mm) wss"
    using map_result_contributes [of "mm_imm mm" key] assms(2) by auto
  let ?vs = "Deduplicate (Deduplicate ws @ concat (map Deduplicate wss))"
  have "?vs = Deduplicate (ws @ concat wss)"
    by (rule ordered_ext) (simp_all add: ordered_Deduplicate latest_append latest_concat_Deduplicate split: option.split)
  then have "mm_Values key mm = Inr (Deduplicate (ws @ concat wss), mm\<lparr>mm_mem := Some m', mm_imm := map snd rs\<rparr>)"
    using m'(1) rs(1,2) assms(1) by (simp add: mm_Values_def)
  then show ?thesis using m'(2) rs(3) by (intro exI conjI) (assumption | simp add: ordered_Deduplicate latest_append)+
qed

definition toy_env :: env where
  "toy_env = \<lparr>ev_senc = toy_enc, ev_sdec = toy_dec, ev_rnd = (\<lambda>_ _. 1), ev_ord = (\<lambda>_ _ ps. ps), ev_file = (\<lambda>_. [])\<rparr>"

definition toy_mm :: MemManager where
  "toy_mm = \<lparr>mm_mem = Some (fresh_table 1 4), mm_imm = [], mm_nextMemFid = 2, mm_flushCh = [], mm_NumMemTables = 2, mm_MaxMemTableSize = 4, mm_wg = 0\<rparr>"

lemma toy_mm_new: "NewMemManager toy_env 2 4 [] = Inr (Inr toy_mm)" "mm_Open toy_mm = Some toy_mm"
  by (simp_all add: NewMemManager_def mm_newMemTable_def NewMemTable_def OpenMemTable_def toy_env_def toy_mm_def
    fresh_table_def last_fid_def mm_Open_def Let_def)

text \<open>Two tables are filled and rotated, and the flusher takes the first.\<close>

definition fill :: "MemManager \<Rightarrow> MemManager" where
  "fill mm = (case mm_WriteMulti toy_env [([97], [IntegerValue 1 7])] None mm of Inr (_, mm') \<Rightarrow> mm' | Inl _ \<Rightarrow> mm)"

definition rotate :: "MemManager \<Rightarrow> MemManager" where
  "rotate mm = (case mm_EnsureMemForWrite toy_env mm of Inr (_, mm') \<Rightarrow> mm' | Inl _ \<Rightarrow> mm)"

definition busy_mm :: MemManager where
  "busy_mm = rotate (fill (rotate (fill toy_mm)))\<lparr>mm_flushCh := [2]\<rparr>"

lemma fill_step: "mm_step toy_env (mm, q) (fill mm, q)" if "\<not> isl (mm_WriteMulti toy_env [([97], [IntegerValue 1 7])] None mm)"
  using that by (cases "mm_WriteMulti toy_env [([97], [IntegerValue 1 7])] None mm") (auto simp: fill_def intro: mm_step.put)

lemma rotate_step: "mm_step toy_env (mm, q) (rotate mm, q)" if "\<not> isl (mm_EnsureMemForWrite toy_env mm)"
  using that by (cases "mm_EnsureMemForWrite toy_env mm") (auto simp: rotate_def intro: mm_step.ensure)

lemma busy_run: "mm_steps toy_env (toy_mm, None) (busy_mm, Some 1)" "mm_OnMemTableFlushed 2 busy_mm = Inr (None, busy_mm)"
proof -
  let ?w = "\<lambda>mm. \<not> isl (mm_WriteMulti toy_env [([97], [IntegerValue 1 7])] None mm)" and ?e = "\<lambda>mm. \<not> isl (mm_EnsureMemForWrite toy_env mm)"
  have 1: "?w toy_mm" "?e (fill toy_mm)" "?w (rotate (fill toy_mm))" "?e (fill (rotate (fill toy_mm)))" by code_simp+
  have "mm_flushCh (rotate (fill (rotate (fill toy_mm)))) = [1, 2]" by code_simp
  then have "mm_TakeFlushMemTable (rotate (fill (rotate (fill toy_mm)))) = Some (1, busy_mm)" by (simp add: mm_TakeFlushMemTable_def busy_mm_def)
  then have 2: "mm_step toy_env (rotate (fill (rotate (fill toy_mm))), None) (busy_mm, Some 1)" by (rule mm_step.take)
  show "mm_steps toy_env (toy_mm, None) (busy_mm, Some 1)"
    by (rule mm_steps.step [OF mm_steps.step [OF mm_steps.step [OF mm_steps.step [OF mm_steps.step [OF mm_steps.refl
      fill_step [OF 1(1)]] rotate_step [OF 1(2)]] fill_step [OF 1(3)]] rotate_step [OF 1(4)]] 2])
  have "map mt_fid (mm_imm busy_mm) = [1, 2]" by code_simp
  then show "mm_OnMemTableFlushed 2 busy_mm = Inr (None, busy_mm)" by (cases "mm_imm busy_mm") (auto simp: mm_OnMemTableFlushed_def)
qed

theorem flush_queue_fifo_witness:
  "mm_steps toy_env (toy_mm, None) (busy_mm, Some 1) \<and> map mt_fid (mm_imm busy_mm) = [1, 2] \<and>
   (\<exists>m. mm_imm busy_mm = m # tl (mm_imm busy_mm) \<and> mt_fid m = 1 \<and>
      mm_OnMemTableFlushed 1 busy_mm = Inr (Some (mt_DecrRef m), busy_mm\<lparr>mm_imm := tl (mm_imm busy_mm), mm_wg := length (tl (mm_imm busy_mm))\<rparr>))"
  using flush_queue_fifo [OF toy_mm_new _ _ _ busy_run(1)] busy_run(1) by (simp add: toy_env_def busy_mm_def)

text \<open>The flusher quits with the first table, takes the second and reports it.\<close>

definition stuck_mm :: MemManager where
  "stuck_mm = busy_mm\<lparr>mm_flushCh := []\<rparr>"

theorem quit_blocks_queue_witness:
  "mm_steps toy_env (quit (busy_mm, Some 1)) (stuck_mm, Some 2) \<and> map mt_fid (mm_imm stuck_mm) = [1, 2] \<and>
   mm_OnMemTableFlushed 2 stuck_mm = Inr (None, stuck_mm) \<and> 0 < mm_wg stuck_mm"
proof -
  have fifo: "flush_inv (busy_mm, Some 1)"
    unfolding flush_inv_def prod.case option.case list_all_iff by (intro conjI) (code_simp+)
  have "mm_TakeFlushMemTable busy_mm = Some (2, stuck_mm)" by (simp add: mm_TakeFlushMemTable_def busy_mm_def stuck_mm_def)
  then have run: "mm_steps toy_env (quit (busy_mm, Some 1)) (stuck_mm, Some 2)"
    unfolding quit_def by (auto intro: mm_steps.step [OF mm_steps.refl] mm_step.take)
  have imm: "map mt_fid (mm_imm stuck_mm) = [1, 2]" by code_simp
  have sz: "0 < mm_MaxMemTableSize busy_mm" by code_simp
  show ?thesis using quit_blocks_queue [OF fifo _ sz run] run imm by (auto simp: toy_env_def)
qed

lemma one_series_map: "cache_series one_series = [[5] \<mapsto> (0, Some \<lparr>en_values = [IntegerValue 1 1], en_vType = 2\<rparr>)]"
proof -
  have "nd_key (c_heap one_series ! 1) = [5]" "nd_entry (c_heap one_series ! 1) = Some \<lparr>en_values = [IntegerValue 1 1], en_vType = 2\<rparr>"
      "nd_lifeCycle (c_heap one_series ! 1) = 0" "cache_nodes one_series = [1]" by code_simp+
  then show ?thesis by (simp add: cache_series_def)
qed

definition one_table :: MemTable where
  "one_table = (fresh_table 1 4)\<lparr>mt_Cache := one_series\<rparr>"

text \<open>The key 3 is in no table: each contributes the values of the key 5.\<close>

lemma one_table_full: "\<forall>t \<in> set (one_table # [one_table]). cache_inv (mt_Cache t) \<and> full_series (cache_series (mt_Cache t))"
  using one_series_inv by (simp add: one_table_def one_series_map full_series_def)

theorem Values_priority_witness:
  "cache_series (mt_Cache one_table) [3] = None \<and>
   (\<exists>vs mm'. mm_Values [3] (toy_mm\<lparr>mm_mem := Some one_table, mm_imm := [one_table]\<rparr>) = Inr (vs, mm') \<and> vs = [IntegerValue 1 1])"
proof -
  let ?mm = "toy_mm\<lparr>mm_mem := Some one_table, mm_imm := [one_table]\<rparr>"
  obtain vs mm' ws wss where r: "mm_Values [3] ?mm = Inr (vs, mm')" "contributes [3] (cache_series (mt_Cache one_table)) ws"
      "list_all2 (\<lambda>t. contributes [3] (cache_series (mt_Cache t))) (mm_imm ?mm) wss" "vs = Deduplicate (ws @ concat wss)"
    using Values_priority [of ?mm one_table "[3]"] one_table_full by auto
  have c: "xs = [IntegerValue 1 1]" if "contributes [3] (cache_series (mt_Cache one_table)) xs" for xs
    using that by (auto simp: contributes_def nearest_def one_table_def one_series_map split: if_splits)
  obtain xs where xs: "wss = [xs]" "contributes [3] (cache_series (mt_Cache one_table)) xs" using r(3) by (auto simp: list_all2_Cons1)
  have "vs = Deduplicate [IntegerValue 1 1, IntegerValue 1 1]" unfolding r(4) xs(1) c [OF r(2)] c [OF xs(2)] by simp
  moreover have "Deduplicate [IntegerValue 1 1, IntegerValue 1 1] = [IntegerValue 1 1]" by code_simp
  ultimately show ?thesis using r(1) by (simp add: one_table_def one_series_map)
qed

text \<open>
  C27: Deleting a range from a list of keys of a table, present or not and with or without repetitions, removes exactly the values
  of the closed range (after deduplication) from the series that the keys reach, keeps their types and lifecycles, and changes no
  other series. A key reaches the least key of the table that is not below it: itself, if the table has it.
  The range of all timestamps empties the entries.
\<close>

theorem delete_range_exact:
  assumes "cache_inv (mt_Cache m)" and "full_series (cache_series (mt_Cache m))"
  shows "\<exists>m'. mt_DeleteRange keys mn mx m = Inr m' \<and> cache_inv (mt_Cache m') \<and> mt_wal m' = mt_wal m \<and>
    cache_series (mt_Cache m') = cut_keys (reached (set keys) (cache_series (mt_Cache m))) mn mx (cache_series (mt_Cache m)) \<and>
    (set keys \<subseteq> dom (cache_series (mt_Cache m)) \<longrightarrow> reached (set keys) (cache_series (mt_Cache m)) = set keys)"
  using delete_keys_ok [OF assms, of mn mx keys] reached_present [of "set keys" "cache_series (mt_Cache m)"] by (auto simp: mt_DeleteRange_def)


theorem delete_range_exact_witness:
  "\<exists>m'. mt_DeleteRange [[5], [9], [5]] 0 9 one_table = Inr m' \<and>
    cache_series (mt_Cache m') = [[5] \<mapsto> (0, Some \<lparr>en_values = [], en_vType = 2\<rparr>)]"
proof -
  let ?s = "cache_series (mt_Cache one_table)"
  have s: "?s = [[5] \<mapsto> (0, Some \<lparr>en_values = [IntegerValue 1 1], en_vType = 2\<rparr>)]" by (simp add: one_table_def one_series_map)
  obtain m' where m': "mt_DeleteRange [[5], [9], [5]] 0 9 one_table = Inr m'"
      "cache_series (mt_Cache m') = cut_keys (reached (set [[5], [9], [5]]) ?s) 0 9 ?s"
    using delete_range_exact [of one_table "[[5], [9], [5]]" 0 9] one_table_full by auto
  have "reached (set [[5], [9], [5]]) ?s = {[5]}" by (auto simp: s reached_def nearest_def split: if_splits)
  moreover have "Deduplicate [IntegerValue 1 1] = [IntegerValue 1 1]" by (simp add: Deduplicate_def)
  ultimately have "cache_series (mt_Cache m') = [[5] \<mapsto> (0, Some \<lparr>en_values = [], en_vType = 2\<rparr>)]"
    using m'(2) by (auto simp: s cut_keys_def cut_range_def UnixNano_def fun_eq_iff)
  then show ?thesis using m'(1) by blast
qed


end
