(* ===== verification/StoreUtil.thy ===== *)
theory StoreUtil
  imports GoSlices
begin

text \<open>
  The helpers of \<open>storage/store/util.go\<close>: sorting, deduplicating and searching slices of keys, the
  binary search and the compaction over a byte slice of fixed-size records that the index of an SST
  file is built on, and the merge and intersection of sorted key sets.
\<close>

section \<open>Slices of keys\<close>

text \<open>Equal keys are the same bytes, so the order \<open>sort.Sort\<close> leaves open does not show.\<close>

definition Sort :: "bytes list \<Rightarrow> bytes list" where
  "Sort a = sort a"

definition IsSorted :: "bytes list \<Rightarrow> bool" where
  "IsSorted a \<longleftrightarrow> (\<forall>i < length a - 1. \<not> bytes_Compare (a ! (i + 1)) (a ! i) = -1)"

text \<open>The loop of \<open>SortDedup\<close> over the sorted slice, and the last element after it.\<close>

function dedup_keys :: "bytes list \<Rightarrow> nat \<Rightarrow> nat \<Rightarrow> bytes list" where
  "dedup_keys a i j =
     (if j < length a then
        (if a ! (j - 1) \<noteq> a ! j then dedup_keys (a[i := a ! (j - 1)]) (i + 1) (j + 1) else dedup_keys a i (j + 1))
      else take (i + 1) (a[i := a ! (j - 1)]))"
  by pat_completeness auto
termination by (relation "measure (\<lambda>(a, i, j). length a - j)") auto

declare dedup_keys.simps [simp del]

definition SortDedup :: "bytes list \<Rightarrow> bytes list" where
  "SortDedup a = (if length a < 2 then a else dedup_keys (Sort a) 0 1)"

function search_bytes :: "bytes list \<Rightarrow> bytes \<Rightarrow> nat \<Rightarrow> nat \<Rightarrow> nat" where
  "search_bytes a x i j =
     (if i < j then
        let h = (i + j) div 2
        in if bytes_Compare (a ! h) x < 0 then search_bytes a x (h + 1) j else search_bytes a x i h
      else i)"
  by pat_completeness auto
termination by (relation "measure (\<lambda>(a, x, i, j). j - i)") auto

declare search_bytes.simps [simp del]

definition SearchBytes :: "bytes list \<Rightarrow> bytes \<Rightarrow> nat" where
  "SearchBytes a x = search_bytes a x 0 (length a)"

definition util_Contains :: "bytes list \<Rightarrow> bytes \<Rightarrow> bool" where
  "util_Contains a x = (let n = SearchBytes a x in n < length a \<and> a ! n = x)"

fun union_loop :: "bytes list \<Rightarrow> bytes list \<Rightarrow> bytes list \<Rightarrow> bytes list" where
  "union_loop (a # as) (b # bs) other =
     (let cmp = bytes_Compare a b
      in if cmp = 0 then union_loop as bs (other @ [a])
         else if cmp = -1 then union_loop as (b # bs) (other @ [a])
         else union_loop (a # as) bs (other @ [b]))"
| "union_loop (a # as) [] other = union_loop as [] (other @ [a])"
| "union_loop [] (b # bs) other = union_loop [] bs (other @ [b])"
| "union_loop [] [] other = other"

definition util_Union :: "bytes list \<Rightarrow> bytes list \<Rightarrow> bytes list" where
  "util_Union a b = union_loop a b []"

fun intersect_loop :: "bytes list \<Rightarrow> bytes list \<Rightarrow> bytes list \<Rightarrow> bytes list" where
  "intersect_loop (a # as) (b # bs) other =
     (let cmp = bytes_Compare a b
      in if cmp = 0 then intersect_loop as bs (other @ [a])
         else if cmp = -1 then intersect_loop as (b # bs) other
         else intersect_loop (a # as) bs other)"
| "intersect_loop [] b other = other"
| "intersect_loop (a # as) [] other = other"

definition util_Intersect :: "bytes list \<Rightarrow> bytes list \<Rightarrow> bytes list" where
  "util_Intersect a b = intersect_loop a b []"

section \<open>Records of a fixed size\<close>

function search_fixed :: "bytes \<Rightarrow> int \<Rightarrow> (bytes \<Rightarrow> bool result) \<Rightarrow> int \<Rightarrow> int \<Rightarrow> int result" where
  "search_fixed a sz fn i j =
     (if i < j \<and> 0 < sz then
        let m = (i + j) div 2; h = m - m mod sz
        in bind_result (subslice a h (h + sz)) (\<lambda>x. bind_result (fn x) (\<lambda>r.
             if \<not> r then search_fixed a sz fn (h + sz) j else search_fixed a sz fn i h))
      else Inr i)"
  by pat_completeness auto
termination
proof (relation "measure (\<lambda>(a, sz, fn, i, j). nat (j - i))", goal_cases)
  case (2 a sz fn i j m h x r)
  have "m mod sz < sz" using 2 by simp
  then have "i < h + sz" using 2 by linarith
  then show ?case using 2(1) by simp
next
  case (3 a sz fn i j m h x r)
  have "0 \<le> m mod sz" using 3 by simp
  then have "h < j" using 3 by linarith
  then show ?case using 3(1) by simp
qed simp

declare search_fixed.simps [simp del]

text \<open>A size of zero is a division by zero.\<close>

definition SearchBytesFixed :: "bytes \<Rightarrow> nat \<Rightarrow> (bytes \<Rightarrow> bool result) \<Rightarrow> int result" where
  "SearchBytesFixed a sz fn =
     (if sz = 0 \<or> length a mod sz \<noteq> 0 then Inl Panic
      else search_fixed a (int sz) fn 0 (int (length a) - int sz))"

text \<open>\<open>for ; i < len(a) && p(a[i]); i += width \{\}\<close>. With a width of zero it does not end.\<close>

fun advance :: "nat \<Rightarrow> (byte \<Rightarrow> bool) \<Rightarrow> bytes \<Rightarrow> nat \<Rightarrow> nat \<Rightarrow> nat result" where
  "advance 0 p a width i = Inl Diverged"
| "advance (Suc f) p a width i = (if i < length a \<and> p (a ! i) then advance f p a width (i + width) else Inr i)"

fun pack_loop :: "nat \<Rightarrow> bytes \<Rightarrow> nat \<Rightarrow> byte \<Rightarrow> nat \<Rightarrow> nat \<Rightarrow> (bytes \<times> nat) result" where
  "pack_loop 0 a width val e i = Inl Diverged"
| "pack_loop (Suc f) a width val e i =
     (if i < length a then
        bind_result (advance (Suc (length a)) (\<lambda>b. b = val) a width i) (\<lambda>jStart.
        bind_result (advance (Suc (length a)) (\<lambda>b. b \<noteq> val) a width jStart) (\<lambda>j.
          if jStart = length a then Inr (a, e)
          else if e \<le> length a \<and> j \<le> length a then
            let moved = drop jStart (take j a)
            in pack_loop f (take e a @ moved @ drop (e + length moved) a) width val (e + (j - jStart)) j
          else Inl Panic))
      else Inr (a, e))"

definition Pack :: "bytes \<Rightarrow> nat \<Rightarrow> byte \<Rightarrow> bytes result" where
  "Pack a width val =
     bind_result (advance (Suc (length a)) (\<lambda>b. b \<noteq> val) a width 0) (\<lambda>i.
     bind_result (pack_loop (Suc (length a)) a width val i i) (\<lambda>(a', e).
       subslice a' 0 (int e)))"

section \<open>Correctness\<close>

lemma bytes_Compare_minus_1 [simp]: "bytes_Compare a b = -1 \<longleftrightarrow> a < b"
  by (induction a b rule: bytes_Compare.induct) auto

lemma IsSorted_iff: "IsSorted a \<longleftrightarrow> sorted a"
  by (auto simp: IsSorted_def sorted_iff_nth_Suc not_less)

lemma union_loop_Cons:
  "a = b \<Longrightarrow> union_loop (a # as) (b # bs) other = union_loop as bs (other @ [a])"
  "a < b \<Longrightarrow> union_loop (a # as) (b # bs) other = union_loop as (b # bs) (other @ [a])"
  "b < a \<Longrightarrow> union_loop (a # as) (b # bs) other = union_loop (a # as) bs (other @ [b])"
  by (simp_all add: Let_def less_imp_neq less_imp_neq [symmetric] order.asym)

lemma intersect_loop_Cons:
  "a = b \<Longrightarrow> intersect_loop (a # as) (b # bs) other = intersect_loop as bs (other @ [a])"
  "a < b \<Longrightarrow> intersect_loop (a # as) (b # bs) other = intersect_loop as (b # bs) other"
  "b < a \<Longrightarrow> intersect_loop (a # as) (b # bs) other = intersect_loop (a # as) bs other"
  by (simp_all add: Let_def less_imp_neq less_imp_neq [symmetric] order.asym)

declare union_loop.simps(1) [simp del] intersect_loop.simps(1) [simp del]

lemma set_union_loop: "set (union_loop a b other) = set other \<union> set a \<union> set b"
proof (induction a b other rule: union_loop.induct)
  case (1 a as b bs other)
  show ?case
  proof (cases a b rule: linorder_cases)
    case less
    then show ?thesis using "1.IH"(2) [OF refl] by (simp add: union_loop_Cons less_imp_neq)
  next
    case equal
    then show ?thesis using "1.IH"(1) [OF refl] by (simp add: union_loop_Cons)
  next
    case greater
    then show ?thesis
      using "1.IH"(3) [OF refl] by (simp add: union_loop_Cons less_imp_neq [symmetric] order.asym insert_commute)
  qed
qed auto

lemma sorted_union_loop:
  "sorted_wrt (<) (other @ a) \<Longrightarrow> sorted_wrt (<) (other @ b) \<Longrightarrow> sorted_wrt (<) (union_loop a b other)"
proof (induction a b other rule: union_loop.induct)
  case (1 a as b bs other)
  show ?case
  proof (cases a b rule: linorder_cases)
    case less
    then have "sorted_wrt (<) ((other @ [a]) @ b # bs)"
      using "1.prems" by (auto simp: sorted_wrt_append intro: less_trans)
    then show ?thesis using less "1.IH"(2) [OF refl] "1.prems" by (simp add: union_loop_Cons less_imp_neq)
  next
    case equal
    then show ?thesis using "1.IH"(1) [OF refl] "1.prems" by (simp add: union_loop_Cons)
  next
    case greater
    then have "sorted_wrt (<) ((other @ [b]) @ a # as)"
      using "1.prems" by (auto simp: sorted_wrt_append intro: less_trans)
    then show ?thesis
      using greater "1.IH"(3) [OF refl] "1.prems" by (simp add: union_loop_Cons less_imp_neq [symmetric] order.asym)
  qed
next
  case (2 a as other)
  then show ?case by (simp add: sorted_wrt_append)
next
  case (3 b bs other)
  then show ?case by (simp add: sorted_wrt_append)
qed simp

lemma util_Union_correct:
  assumes "sorted_wrt (<) a" "sorted_wrt (<) b"
  shows "set (util_Union a b) = set a \<union> set b" "sorted_wrt (<) (util_Union a b)"
  using assms sorted_union_loop [of "[]"] by (auto simp: util_Union_def set_union_loop)

lemma intersect_loop_eq:
  "sorted_wrt (<) a \<Longrightarrow> sorted_wrt (<) b \<Longrightarrow> intersect_loop a b other = other @ filter (\<lambda>x. x \<in> set b) a"
proof (induction a b other rule: intersect_loop.induct)
  case (1 a as b bs other)
  show ?case
  proof (cases a b rule: linorder_cases)
    case less
    then have "a \<notin> set (b # bs)" using "1.prems" by auto
    then show ?thesis using less "1.IH"(2) [OF refl] "1.prems" by (simp add: intersect_loop_Cons less_imp_neq)
  next
    case equal
    then have "filter (\<lambda>x. x \<in> set (b # bs)) as = filter (\<lambda>x. x \<in> set bs) as"
      using "1.prems" by (intro filter_cong) auto
    then show ?thesis using equal "1.IH"(1) [OF refl] "1.prems" by (simp add: intersect_loop_Cons)
  next
    case greater
    then have "filter (\<lambda>x. x \<in> set (b # bs)) (a # as) = filter (\<lambda>x. x \<in> set bs) (a # as)"
      using "1.prems" by (intro filter_cong) auto
    then show ?thesis
      using greater "1.IH"(3) [OF refl] "1.prems"
      by (simp add: intersect_loop_Cons less_imp_neq [symmetric] order.asym del: filter.simps)
  qed
qed simp_all

lemma util_Intersect_correct:
  "sorted_wrt (<) a \<Longrightarrow> sorted_wrt (<) b \<Longrightarrow> util_Intersect a b = filter (\<lambda>x. x \<in> set b) a"
  by (simp add: util_Intersect_def intersect_loop_eq)

lemma search_bytes_correct:
  assumes "sorted a"
  shows "i \<le> j \<Longrightarrow> j \<le> length a \<Longrightarrow> \<forall>k < i. a ! k < x \<Longrightarrow> \<forall>k. j \<le> k \<and> k < length a \<longrightarrow> x \<le> a ! k \<Longrightarrow>
    search_bytes a x i j \<le> length a \<and> (\<forall>k < search_bytes a x i j. a ! k < x) \<and>
    (\<forall>k. search_bytes a x i j \<le> k \<and> k < length a \<longrightarrow> x \<le> a ! k)"
  using assms
proof (induction a x i j rule: search_bytes.induct)
  case (1 a x i j)
  define h where "h = (i + j) div 2"
  show ?case
  proof (cases "i < j")
    case True
    then have h: "i \<le> h" "h < j" by (auto simp: h_def)
    have up: "k \<le> l \<Longrightarrow> l < length a \<Longrightarrow> a ! k \<le> a ! l" for k l
      using "1.prems"(5) by (simp add: sorted_nth_mono)
    show ?thesis
    proof (cases "a ! h < x")
      case lt: True
      have "a ! k \<le> a ! h" if "k < h + 1" for k using that up [of k h] h "1.prems"(2) by simp
      then have below: "\<forall>k < h + 1. a ! k < x" using lt by (meson order_le_less_trans)
      have "search_bytes a x i j = search_bytes a x (h + 1) j"
        using lt True unfolding search_bytes.simps [of a x i j] h_def [symmetric] Let_def by simp
      with "1.IH"(1) [OF True h_def _ _ "1.prems"(2) below "1.prems"(4,5)] lt h show ?thesis by simp
    next
      case ge: False
      have above: "\<forall>k. h \<le> k \<and> k < length a \<longrightarrow> x \<le> a ! k"
        using up [of h] ge by (metis not_less order_trans)
      have "search_bytes a x i j = search_bytes a x i h"
        using ge True unfolding search_bytes.simps [of a x i j] h_def [symmetric] Let_def by simp
      with "1.IH"(2) [OF True h_def _ _ _ "1.prems"(3) above "1.prems"(5)] ge h "1.prems"(2) show ?thesis by simp
    qed
  next
    case False
    then have "search_bytes a x i j = i" unfolding search_bytes.simps [of a x i j] by simp
    then show ?thesis using False "1.prems" by simp
  qed
qed

lemma util_Contains_iff:
  assumes "sorted a"
  shows "util_Contains a x \<longleftrightarrow> x \<in> set a"
proof -
  let ?n = "SearchBytes a x"
  have n: "?n \<le> length a" "\<forall>k < ?n. a ! k < x" "\<forall>k. ?n \<le> k \<and> k < length a \<longrightarrow> x \<le> a ! k"
    using search_bytes_correct [OF assms, of 0 "length a" x] unfolding SearchBytes_def
    by (meson bot_nat_0.extremum less_nat_zero_code linorder_not_less order_refl)+
  have "?n < length a \<and> a ! ?n = x" if x: "x \<in> set a"
  proof -
    obtain k where k: "k < length a" "a ! k = x" using x by (auto simp: in_set_conv_nth)
    then have "?n \<le> k" using n(2) by (metis less_irrefl not_le)
    then show ?thesis
      using k n(3) assms by (metis order.antisym order_le_less_trans order_refl sorted_nth_mono)
  qed
  then show ?thesis unfolding util_Contains_def Let_def by (metis nth_mem)
qed

text \<open>The loop of \<open>SortDedup\<close> leaves one of each run of equal elements.\<close>

lemma dedup_keys_eq:
  "i < j \<Longrightarrow> 0 < j \<Longrightarrow> j \<le> length a \<Longrightarrow> dedup_keys a i j = take i a @ remdups_adj (drop (j - 1) a)"
proof (induction a i j rule: dedup_keys.induct)
  case (1 a i j)
  show ?case
  proof (cases "j < length a")
    case True
    define v where "v = a ! (j - 1)"
    have d: "drop (j - 1) a = v # drop j a" "drop j a = a ! j # drop (j + 1) a"
      using True "1.prems" Cons_nth_drop_Suc [of "j - 1" a] Cons_nth_drop_Suc [of j a] by (simp_all add: v_def)
    show ?thesis
    proof (cases "v = a ! j")
      case eq: True
      then have "a ! (j - 1) = a ! j" by (simp add: v_def)
      then show ?thesis
        using "1.IH"(2) [OF True] True "1.prems" d eq by (simp add: dedup_keys.simps [of a i j])
    next
      case neq: False
      have "take (i + 1) (a[i := v]) = take i a @ [v]"
        using "1.prems" by (simp add: take_Suc_conv_app_nth)
      moreover have "a ! (j - 1) \<noteq> a ! j" using neq by (simp add: v_def)
      ultimately show ?thesis
        using "1.IH"(1) [OF True] True "1.prems" d neq by (simp add: dedup_keys.simps [of a i j] v_def)
    qed
  next
    case False
    then have j: "j = length a" using "1.prems" by simp
    then have "drop (j - 1) a = [a ! (j - 1)]"
      using "1.prems" Cons_nth_drop_Suc [of "j - 1" a] by simp
    then show ?thesis
      using False j "1.prems" unfolding dedup_keys.simps [of a i j] by (simp add: take_Suc_conv_app_nth)
  qed
qed

lemma SortDedup_eq: "SortDedup a = remdups_adj (sort a)"
proof (cases "length a < 2")
  case True
  then consider "a = []" | x where "a = [x]" by (cases a; cases "tl a") auto
  then show ?thesis by cases (simp_all add: SortDedup_def)
next
  case False
  then show ?thesis by (simp add: SortDedup_def Sort_def dedup_keys_eq)
qed

lemma SortDedup_correct: "set (SortDedup a) = set a" "sorted_wrt (<) (SortDedup a)"
proof -
  show "set (SortDedup a) = set a" by (simp add: SortDedup_eq)
  have "sorted xs \<Longrightarrow> sorted_wrt (<) (remdups_adj xs)" for xs :: "bytes list"
    by (induction xs rule: remdups_adj.induct) auto
  then show "sorted_wrt (<) (SortDedup a)" by (simp add: SortDedup_eq)
qed

text \<open>A byte slice of records: \<open>cs\<close> are the records, each of the same size.\<close>

definition records :: "nat \<Rightarrow> bytes list \<Rightarrow> bool" where
  "records sz cs \<longleftrightarrow> 0 < sz \<and> (\<forall>c \<in> set cs. length c = sz)"

lemma records_Cons [simp]: "records sz (c # cs) \<longleftrightarrow> length c = sz \<and> records sz cs"
  by (auto simp: records_def)

lemma length_concat_records: "records sz cs \<Longrightarrow> length (concat cs) = sz * length cs"
  by (induction cs) (auto simp: records_def)

lemma records_append [simp]: "records sz (a @ b) \<longleftrightarrow> records sz a \<and> records sz b"
  by (auto simp: records_def)

lemma slice_record:
  assumes "records sz cs" "k < length cs"
  shows "subslice (concat cs) (int (sz * k)) (int (sz * k) + int sz) = Inr (cs ! k)"
proof -
  have "concat cs = concat (take k cs) @ cs ! k @ concat (drop (Suc k) cs)"
    using assms(2) id_take_nth_drop [of k cs] by (metis concat.simps(2) concat_append)
  moreover have "length (concat (take k cs)) = sz * k" "length (cs ! k) = sz"
    using assms length_concat_records [of sz "take k cs"] by (auto simp: records_def dest: in_set_takeD)
  ultimately show ?thesis by simp
qed

text \<open>
  For a predicate that is false up to some record and true from there on, the search returns the first
  record it holds for, or the last record if there is none.
\<close>

lemma search_fixed_records:
  assumes cs: "records sz cs" and fn: "\<And>c. c \<in> set cs \<Longrightarrow> fn c = Inr (q c)"
    and mono: "\<And>k l. k \<le> l \<Longrightarrow> l < length cs \<Longrightarrow> q (cs ! k) \<Longrightarrow> q (cs ! l)"
  shows "i \<le> j \<Longrightarrow> j < length cs \<Longrightarrow> \<forall>k < i. \<not> q (cs ! k) \<Longrightarrow> q (cs ! j) \<or> j = length cs - 1 \<Longrightarrow>
    \<exists>r. search_fixed (concat cs) (int sz) fn (int (sz * i)) (int (sz * j)) = Inr (int (sz * r)) \<and>
      r < length cs \<and> (\<forall>k < r. \<not> q (cs ! k)) \<and> (q (cs ! r) \<or> r = length cs - 1)"
proof (induction "j - i" arbitrary: i j rule: less_induct)
  case less
  have sz: "0 < sz" using cs by (simp add: records_def)
  show ?case
  proof (cases "i < j")
    case False
    then show ?thesis using less.prems by (intro exI [of _ i]) (simp add: search_fixed.simps)
  next
    case True
    define h where "h = (sz * i + sz * j) div 2 div sz"
    have m: "(int (sz * i) + int (sz * j)) div 2 = int ((sz * i + sz * j) div 2)"
      by (simp add: zdiv_int)
    have "int x - int x mod int sz = int (sz * (x div sz))" for x
      by (metis minus_mod_eq_mult_div of_nat_mult zdiv_int mult.commute zmod_int)
    then have H: "(int (sz * i) + int (sz * j)) div 2 - (int (sz * i) + int (sz * j)) div 2 mod int sz = int (sz * h)"
      unfolding m h_def .
    have "h = (i + j) div 2"
      using sz by (metis h_def add_mult_distrib2 div_mult2_eq mult.commute nonzero_mult_div_cancel_left less_not_refl2)
    then have h: "i \<le> h" "h < j" using True by auto
    then have "cs ! h \<in> set cs" "h < length cs" using less.prems by auto
    then have step: "search_fixed (concat cs) (int sz) fn (int (sz * i)) (int (sz * j)) =
      (if \<not> q (cs ! h) then search_fixed (concat cs) (int sz) fn (int (sz * Suc h)) (int (sz * j))
       else search_fixed (concat cs) (int sz) fn (int (sz * i)) (int (sz * h)))"
      using True sz slice_record [OF cs, of h] fn [of "cs ! h"]
      unfolding search_fixed.simps [of "concat cs" "int sz" fn "int (sz * i)" "int (sz * j)"] Let_def H
      by (simp add: algebra_simps)
    show ?thesis
    proof (cases "q (cs ! h)")
      case True
      then show ?thesis using step less.hyps [of h i] h less.prems by simp
    next
      case False
      then have "\<forall>k < Suc h. \<not> q (cs ! k)" using mono \<open>h < length cs\<close> by (metis less_Suc_eq_le)
      then show ?thesis using step False less.hyps [of j "Suc h"] h less.prems by simp
    qed
  qed
qed

lemma SearchBytesFixed_records:
  assumes cs: "records sz cs" "cs \<noteq> []" and fn: "\<And>c. c \<in> set cs \<Longrightarrow> fn c = Inr (q c)"
    and mono: "\<And>k l. k \<le> l \<Longrightarrow> l < length cs \<Longrightarrow> q (cs ! k) \<Longrightarrow> q (cs ! l)"
  shows "\<exists>r. SearchBytesFixed (concat cs) sz fn = Inr (int (sz * r)) \<and>
      r < length cs \<and> (\<forall>k < r. \<not> q (cs ! k)) \<and> (q (cs ! r) \<or> r = length cs - 1)"
proof -
  have l: "length (concat cs) = sz * length cs" using cs by (simp add: length_concat_records)
  then have "int (length (concat cs)) - int sz = int (sz * (length cs - 1))"
    using cs(2) by (cases cs) simp_all
  then have "SearchBytesFixed (concat cs) sz fn = search_fixed (concat cs) (int sz) fn (int (sz * 0)) (int (sz * (length cs - 1)))"
    using cs l by (simp add: SearchBytesFixed_def records_def)
  then show ?thesis
    using search_fixed_records [where fn = fn and q = q and i = 0 and j = "length cs - 1", OF cs(1) fn mono] cs(2) by simp
qed

lemma SearchBytesFixed_Nil [simp]: "0 < sz \<Longrightarrow> SearchBytesFixed [] sz fn = Inr 0"
  by (simp add: SearchBytesFixed_def search_fixed.simps)

lemma advance_records:
  "records sz cs \<Longrightarrow> length cs < f \<Longrightarrow>
   advance f p (pre @ concat cs) sz (length pre) = Inr (length pre + sz * length (takeWhile (\<lambda>c. p (hd c)) cs))"
proof (induction cs arbitrary: pre f)
  case Nil
  then show ?case by (cases f) simp_all
next
  case (Cons c cs)
  then obtain g where f: "f = Suc g" by (cases f) simp_all
  have c: "c \<noteq> []" "length c = sz" using Cons.prems by (auto simp: records_def)
  then have "(pre @ concat (c # cs)) ! length pre = hd c" by (cases c) (simp_all add: nth_append)
  then show ?case
    using Cons.IH [of g "pre @ c"] Cons.prems f c by simp
qed

lemma drop_length_concat_takeWhile:
  "concat cs = concat (takeWhile p cs) @ concat (dropWhile p cs)"
  by (metis concat_append takeWhile_dropWhile_id)

text \<open>
  One round of the loop of \<open>Pack\<close>: \<open>p\<close> is the part that is already dense, \<open>g\<close> the room behind it.
\<close>

lemma pack_loop_records:
  "records sz cs \<Longrightarrow> length cs < f \<Longrightarrow>
   \<exists>a e. pack_loop f (p @ g @ concat cs) sz v (length p) (length p + length g) = Inr (a, e) \<and>
     e \<le> length a \<and> take e a = p @ concat (filter (\<lambda>c. hd c \<noteq> v) cs)"
proof (induction "length cs" arbitrary: cs p g f rule: less_induct)
  case less
  obtain f' where f: "f = Suc f'" using less.prems by (cases f) simp_all
  define a where "a = p @ g @ concat cs"
  define gap where "gap = takeWhile (\<lambda>c. hd c = v) cs"
  define rest where "rest = dropWhile (\<lambda>c. hd c = v) cs"
  define keep where "keep = takeWhile (\<lambda>c. hd c \<noteq> v) rest"
  define cs' where "cs' = dropWhile (\<lambda>c. hd c \<noteq> v) rest"
  have cs: "cs = gap @ rest" "rest = keep @ cs'" by (simp_all add: gap_def rest_def keep_def cs'_def)
  then have r: "records sz gap" "records sz rest" "records sz keep" "records sz cs'"
    using less.prems by auto
  have sz: "0 < sz" using less.prems by (simp add: records_def)
  have lens: "length (concat gap) = sz * length gap" "length (concat keep) = sz * length keep"
    "length (concat cs) = sz * length cs" "length (concat rest) = sz * length rest"
    using r less.prems by (simp_all add: length_concat_records)
  have "length cs \<le> sz * length cs" using sz by simp
  then have len: "length cs < Suc (length a)" unfolding a_def length_append lens by linarith
  have 1: "advance (Suc (length a)) (\<lambda>b. b = v) a sz (length p + length g) =
      Inr (length p + length g + length (concat gap))"
    using advance_records [OF less.prems(1) len, of "\<lambda>b. b = v" "p @ g"] lens by (simp add: a_def gap_def)
  have 2: "advance (Suc (length a)) (\<lambda>b. b \<noteq> v) a sz (length p + length g + length (concat gap)) =
      Inr (length p + length g + length (concat gap) + length (concat keep))"
  proof -
    have "a = (p @ g @ concat gap) @ concat rest" by (simp add: a_def cs(1))
    moreover have "length rest < Suc (length a)" using len by (simp add: cs(1))
    ultimately show ?thesis
      using advance_records [OF r(2), of "Suc (length a)" "\<lambda>b. b \<noteq> v" "p @ g @ concat gap"] lens(2)
      by (simp add: add.assoc flip: keep_def)
  qed
  have filt: "filter (\<lambda>c. hd c \<noteq> v) cs = keep @ filter (\<lambda>c. hd c \<noteq> v) cs'"
  proof -
    have "filter (\<lambda>c. hd c \<noteq> v) gap = []" by (auto simp: gap_def filter_empty_conv dest: set_takeWhileD)
    moreover have "filter (\<lambda>c. hd c \<noteq> v) keep = keep" by (auto simp: keep_def filter_id_conv dest: set_takeWhileD)
    ultimately show ?thesis using cs by simp
  qed
  show ?case
  proof (cases "rest = []")
    case True
    then have "keep = []" "cs' = []" "concat cs = concat gap" using cs by simp_all
    then have "filter (\<lambda>c. hd c \<noteq> v) cs = []" "length p + length g + length (concat gap) = length a"
      using filt by (simp_all add: a_def)
    moreover have "pack_loop f a sz v (length p) (length p + length g) = Inr (a, length p)"
    proof (cases "length p + length g < length a")
      case True
      then show ?thesis using 1 2 calculation(2) unfolding f pack_loop.simps by simp
    qed (simp add: f)
    ultimately show ?thesis by (simp add: a_def)
  next
    case False
    then have "cs \<noteq> []" using cs by simp
    have "0 < sz * length rest" using False sz by simp
    then have in_range: "length p + length g < length a" "length p + length g + length (concat gap) \<noteq> length a"
      using lens cs by (auto simp: a_def)
    define g' where "g' = drop (length (concat keep)) (g @ concat gap @ concat keep)"
    have "length cs' < length cs"
    proof -
      have "keep \<noteq> [] \<or> gap \<noteq> []" using False unfolding keep_def gap_def rest_def
        by (metis (mono_tags, lifting) hd_dropWhile takeWhile_eq_Nil_iff)
      then show ?thesis using cs by auto
    qed
    then obtain a' e where IH: "pack_loop f' ((p @ concat keep) @ g' @ concat cs') sz v (length (p @ concat keep)) (length (p @ concat keep) + length g') = Inr (a', e)"
        "e \<le> length a'" "take e a' = (p @ concat keep) @ concat (filter (\<lambda>c. hd c \<noteq> v) cs')"
      using less.hyps [of cs' f' "p @ concat keep" g'] r less.prems f by auto
    have shifted: "take (length p) a @ concat keep @ drop (length p + length (concat keep)) a = (p @ concat keep) @ g' @ concat cs'"
      using cs by (simp add: a_def g'_def)
    have moved: "drop (length p + length g + length (concat gap)) (take (length p + length g + length (concat gap) + length (concat keep)) a) = concat keep"
      using cs by (simp add: a_def)
    have le: "length p \<le> length a" "length p + length g + length (concat gap) + length (concat keep) \<le> length a"
      using cs by (simp_all add: a_def)
    have "pack_loop f a sz v (length p) (length p + length g) =
        pack_loop f' ((p @ concat keep) @ g' @ concat cs') sz v
          (length p + (length p + length g + length (concat gap) + length (concat keep) - (length p + length g + length (concat gap))))
          (length p + length g + length (concat gap) + length (concat keep))"
      using in_range le by (simp only: f pack_loop.simps 1 2 bind_result_simps Let_def moved shifted if_True if_False simp_thms)
    also have "\<dots> = Inr (a', e)"
    proof -
      have "length g' = length g + length (concat gap)" by (simp add: g'_def)
      then show ?thesis using IH(1) by (simp add: ac_simps)
    qed
    finally show ?thesis using IH(2,3) filt by (simp flip: a_def)
  qed
qed

lemma Pack_records:
  assumes "records sz cs"
  shows "Pack (concat cs) sz v = Inr (concat (filter (\<lambda>c. hd c \<noteq> v) cs))"
proof -
  define keep where "keep = takeWhile (\<lambda>c. hd c \<noteq> v) cs"
  define rest where "rest = dropWhile (\<lambda>c. hd c \<noteq> v) cs"
  have cs: "cs = keep @ rest" by (simp add: keep_def rest_def)
  then have r: "records sz keep" "records sz rest" using assms by auto
  have "0 < sz" using assms by (simp add: records_def)
  then have "length cs \<le> length (concat cs)" using assms by (simp add: length_concat_records)
  then have f: "length cs < Suc (length (concat cs))" "length rest < Suc (length (concat cs))" using cs by auto
  have 1: "advance (Suc (length (concat cs))) (\<lambda>b. b \<noteq> v) (concat cs) sz 0 = Inr (length (concat keep))"
    using advance_records [OF assms f(1), of "\<lambda>b. b \<noteq> v" "[]"] r by (simp add: keep_def length_concat_records)
  obtain a e where 2: "pack_loop (Suc (length (concat cs))) (concat cs) sz v (length (concat keep)) (length (concat keep)) = Inr (a, e)"
      "e \<le> length a" "take e a = concat keep @ concat (filter (\<lambda>c. hd c \<noteq> v) rest)"
    using pack_loop_records [OF r(2) f(2), of "concat keep" "[]" v] cs by auto
  have "filter (\<lambda>c. hd c \<noteq> v) cs = keep @ filter (\<lambda>c. hd c \<noteq> v) rest"
  proof -
    have "filter (\<lambda>c. hd c \<noteq> v) keep = keep" by (auto simp: keep_def filter_id_conv dest: set_takeWhileD)
    then show ?thesis by (simp add: cs)
  qed
  then show ?thesis using 1 2 by (simp add: Pack_def subslice_def)
qed

end
