(* ===== verification/SstIndex.thy ===== *)
theory SstIndex
  imports GoSlices CodecUtils
begin

text \<open>
  Writing an SST file, \<open>storage/store/sst_writer.go\<close>: the index entry of a block with its binary form,
  the in-memory index a writer builds key by key (\<open>directIndex\<close>), and the writer that lays blocks and
  index out in the file (\<open>sstWriter\<close>). Writers to memory and to the file do not fail, so a method
  returns its error, if any, with the state it leaves; the outer result is a panic. The checksum
  \<open>crc32.ChecksumIEEE\<close> and the unstable \<open>sort.Sort\<close> are parameters.
\<close>

section \<open>Constants\<close>

definition MagicNumber :: u32 where "MagicNumber = 0x16D216D2"
definition Version :: byte where "Version = 1"
definition indexEntrySize :: nat where "indexEntrySize = 28"
definition indexCountSize :: nat where "indexCountSize = 2"
definition indexTypeSize :: nat where "indexTypeSize = 1"
definition maxIndexEntries :: nat where "maxIndexEntries = 2 ^ (indexCountSize * 8) - 1"
definition maxKeyLength :: nat where "maxKeyLength = 2 ^ (2 * 8) - 1"

lemmas sst_sizes = indexEntrySize_def indexCountSize_def indexTypeSize_def maxIndexEntries_def maxKeyLength_def

section \<open>Index entries\<close>

text \<open>The times and the offset are \<open>int64\<close>: 64 bits, read with \<open>sint\<close>.\<close>

record IndexEntry =
  ix_MinTime :: u64
  ix_MaxTime :: u64
  ix_Offset :: u64
  ix_Size :: u32

definition entry_AppendTo :: "IndexEntry \<Rightarrow> bytes \<Rightarrow> bytes" where
  "entry_AppendTo e b =
     put_u64 (ix_MinTime e) @ put_u64 (ix_MaxTime e) @ put_u64 (ix_Offset e) @ put_u32 (ix_Size e) @
     drop indexEntrySize b"

definition entry_UnmarshalBinary :: "bytes \<Rightarrow> IndexEntry result" where
  "entry_UnmarshalBinary b =
     (if length b < indexEntrySize then Inl ErrShortBuf
      else Inr \<lparr>ix_MinTime = get_u64 b, ix_MaxTime = get_u64 (drop 8 b), ix_Offset = get_u64 (drop 16 b),
                ix_Size = get_u32 (drop 24 b)\<rparr>)"

definition ix_Contains :: "IndexEntry \<Rightarrow> u64 \<Rightarrow> bool" where
  "ix_Contains e t \<longleftrightarrow> sint (ix_MinTime e) \<le> sint t \<and> sint t \<le> sint (ix_MaxTime e)"

definition ix_OverlapsTimeRange :: "IndexEntry \<Rightarrow> u64 \<Rightarrow> u64 \<Rightarrow> bool" where
  "ix_OverlapsTimeRange e mn mx \<longleftrightarrow> sint (ix_MinTime e) \<le> sint mx \<and> sint mn \<le> sint (ix_MaxTime e)"

abbreviation entry_bytes :: "IndexEntry \<Rightarrow> bytes" where
  "entry_bytes e \<equiv> entry_AppendTo e []"

lemma length_entry_bytes [simp]: "length (entry_bytes e) = 28"
  by (simp add: entry_AppendTo_def)

lemma entry_AppendTo_eq: "entry_AppendTo e b = entry_bytes e @ drop 28 b"
  by (simp add: entry_AppendTo_def indexEntrySize_def)

lemma drop_entry_bytes [simp]: "drop 28 (entry_bytes e @ b) = b" "take 28 (entry_bytes e @ b) = entry_bytes e"
  using length_entry_bytes [of e] by (metis append_eq_conv_conj)+

lemma index_entry_roundtrip [simp, roundtrip]: "entry_UnmarshalBinary (entry_bytes e @ rest) = Inr e"
proof -
  have "drop 16 (put_u64 a @ put_u64 b @ c) = c" "drop 24 (put_u64 a @ put_u64 b @ put_u64 d @ c) = c"
      "drop 8 (put_u64 a @ c) = c" for a b c d by simp_all
  then show ?thesis
    by (simp only: entry_UnmarshalBinary_def entry_AppendTo_def append_assoc get_put_append) (simp add: indexEntrySize_def)
qed

text \<open>\<open>MarshalBinary\<close> writes each entry into its place of a buffer, \<open>WriteTo\<close> appends the entries to the writer.\<close>

fun marshal_entries :: "nat \<Rightarrow> IndexEntry list \<Rightarrow> bytes \<Rightarrow> bytes" where
  "marshal_entries i [] buf = buf"
| "marshal_entries i (e # es) buf =
     marshal_entries (Suc i) es (take (indexEntrySize * i) buf @ entry_AppendTo e (drop (indexEntrySize * i) buf))"

definition entries_MarshalBinary :: "IndexEntry list \<Rightarrow> bytes" where
  "entries_MarshalBinary es = marshal_entries 0 es (replicate (length es * indexEntrySize) 0)"

fun entries_WriteTo :: "IndexEntry list \<Rightarrow> bytes \<Rightarrow> bytes" where
  "entries_WriteTo [] w = w"
| "entries_WriteTo (e # es) w = entries_WriteTo es (w @ entry_AppendTo e (replicate indexEntrySize 0))"

lemma entries_WriteTo_eq: "entries_WriteTo es w = w @ concat (map entry_bytes es)"
  by (induction es arbitrary: w) (simp_all add: entry_AppendTo_eq [of _ "replicate n x" for n x] indexEntrySize_def)

lemma length_concat_entries [simp]: "length (concat (map entry_bytes es)) = 28 * length es"
  by (induction es) simp_all

lemma marshal_entries_eq:
  "length buf = 28 * (i + length es) \<Longrightarrow> marshal_entries i es buf = take (28 * i) buf @ concat (map entry_bytes es)"
proof (induction es arbitrary: i buf)
  case (Cons e es)
  let ?buf = "take (28 * i) buf @ entry_bytes e @ drop (28 * i + 28) buf"
  have "entry_AppendTo e (drop (28 * i) buf) = entry_bytes e @ drop (28 * i + 28) buf"
    by (simp add: entry_AppendTo_eq [of e "drop m b" for m b] add.commute)
  moreover have "length ?buf = 28 * (Suc i + length es)" using Cons.prems by simp
  moreover have "take (28 * Suc i) ?buf = take (28 * i) buf @ entry_bytes e" using Cons.prems by simp
  ultimately show ?case using Cons.IH [of ?buf "Suc i"] by (simp add: indexEntrySize_def)
qed simp

lemma entries_MarshalBinary_eq: "entries_MarshalBinary es = entries_WriteTo es []"
  by (simp add: entries_MarshalBinary_def marshal_entries_eq entries_WriteTo_eq indexEntrySize_def)

section \<open>The index of a writer\<close>

text \<open>\<open>di_w\<close> is what went through the buffered writer into the buffer, or file, behind it.\<close>

record directIndex =
  di_keyCount :: nat
  di_size :: u32
  di_key :: bytes
  di_Type :: byte
  di_entries :: "IndexEntry list"
  di_w :: bytes

type_synonym sorter = "IndexEntry list \<Rightarrow> IndexEntry list"

definition NewIndexWriter :: directIndex where
  "NewIndexWriter = \<lparr>di_keyCount = 0, di_size = 0, di_key = [], di_Type = 0, di_entries = [], di_w = []\<rparr>"

abbreviation by_MinTime :: "sorter \<Rightarrow> sorter" where
  "by_MinTime \<equiv> in_order (\<lambda>e. sint (ix_MinTime e))"

definition di_flush :: "sorter \<Rightarrow> directIndex \<Rightarrow> error option \<times> directIndex" where
  "di_flush srt d =
     (if di_key d = [] then (None, d)
      else if maxIndexEntries < length (di_entries d) then (Some ErrMaxIndexEntries, d)
      else let entries = by_MinTime srt (di_entries d);
               w1 = di_w d @ put_u16 (of_nat (length (di_key d)));
               w2 = w1 @ di_key d;
               w3 = w2 @ di_Type d # put_u16 (of_nat (length entries))
           in (None, d\<lparr>di_w := entries_WriteTo entries w3, di_key := [], di_Type := 0, di_entries := []\<rparr>))"

definition di_Add :: "sorter \<Rightarrow> bytes \<Rightarrow> byte \<Rightarrow> IndexEntry \<Rightarrow> directIndex \<Rightarrow> directIndex result" where
  "di_Add srt key blockType e d =
     (if di_key d = [] then
        Inr (d\<lparr>di_size := di_size d + of_nat (2 + length key) + of_nat indexCountSize + of_nat indexEntrySize,
               di_key := key, di_Type := blockType, di_entries := di_entries d @ [e],
               di_keyCount := di_keyCount d + 1\<rparr>)
      else let cmp = bytes_Compare (di_key d) key in
        if cmp = 0 then
          Inr (d\<lparr>di_entries := di_entries d @ [e], di_size := di_size d + of_nat indexEntrySize\<rparr>)
        else if cmp < 0 then
          let d1 = snd (di_flush srt d)
          in Inr (d1\<lparr>di_size := di_size d1 + of_nat (2 + length key) + of_nat indexCountSize + of_nat indexEntrySize,
                     di_key := key, di_Type := blockType, di_entries := di_entries d1 @ [e],
                     di_keyCount := di_keyCount d1 + 1\<rparr>)
        else Inl Panic)"

definition di_Entries :: "bytes \<Rightarrow> directIndex \<Rightarrow> IndexEntry list" where
  "di_Entries key d = (if di_key d = [] then [] else if di_key d = key then di_entries d else [])"

definition di_Entry :: "bytes \<Rightarrow> u64 \<Rightarrow> directIndex \<Rightarrow> IndexEntry option" where
  "di_Entry key t d = List.find (\<lambda>e. ix_Contains e t) (di_Entries key d)"

text \<open>The buffer is drained into the destination.\<close>

definition di_WriteTo :: "sorter \<Rightarrow> bytes \<Rightarrow> directIndex \<Rightarrow> bytes result \<times> directIndex" where
  "di_WriteTo srt dst d =
     (case di_flush srt d of
        (Some err, d1) \<Rightarrow> (Inl err, d1)
      | (None, d1) \<Rightarrow> (Inr (dst @ di_w d1), d1\<lparr>di_w := []\<rparr>))"

definition di_MarshalBinary :: "sorter \<Rightarrow> directIndex \<Rightarrow> bytes result \<times> directIndex" where
  "di_MarshalBinary srt d = di_WriteTo srt [] d"

section \<open>The writer\<close>

text \<open>\<open>sw_w\<close> is what was written to the file, \<open>sw_n\<close> the \<open>int64\<close> position.\<close>

record sstWriter =
  sw_w :: bytes
  sw_index :: directIndex
  sw_n :: u64

definition NewSSTWriter :: sstWriter where
  "NewSSTWriter = \<lparr>sw_w = [], sw_index = NewIndexWriter, sw_n = 0\<rparr>"

definition sw_writeHeader :: "sstWriter \<Rightarrow> sstWriter" where
  "sw_writeHeader t = t\<lparr>sw_w := sw_w t @ put_u32 MagicNumber @ [Version], sw_n := 5\<rparr>"

definition sw_WriteBlock :: "sorter \<Rightarrow> (bytes \<Rightarrow> u32) \<Rightarrow> bytes \<Rightarrow> u64 \<Rightarrow> u64 \<Rightarrow> bytes \<Rightarrow> sstWriter \<Rightarrow>
    (error option \<times> sstWriter) result" where
  "sw_WriteBlock srt crc key minTime maxTime block t =
     (if maxKeyLength < length key then Inr (Some ErrMaxKeyLength, t)
      else if block = [] then Inr (None, t)
      else case BlockType block of
             Inl err \<Rightarrow> Inr (Some err, t)
           | Inr blockType \<Rightarrow>
               let t1 = (if sw_n t = 0 then sw_writeHeader t else t);
                   checksum = put_u32 (crc block);
                   n = length block + length checksum
               in bind_result
                    (di_Add srt key blockType
                       \<lparr>ix_MinTime = minTime, ix_MaxTime = maxTime, ix_Offset = sw_n t1, ix_Size = of_nat n\<rparr> (sw_index t1))
                    (\<lambda>ix. let t2 = t1\<lparr>sw_w := sw_w t1 @ checksum @ block, sw_index := ix, sw_n := sw_n t1 + of_nat n\<rparr>
                          in Inr (if maxIndexEntries \<le> length (di_Entries key (sw_index t2)) then Some ErrMaxBlocks else None, t2)))"

definition sw_WriteIndex :: "sorter \<Rightarrow> sstWriter \<Rightarrow> error option \<times> sstWriter" where
  "sw_WriteIndex srt t =
     (let indexPos = sw_n t
      in if di_keyCount (sw_index t) = 0 then (Some ErrNoValues, t)
         else case di_WriteTo srt (sw_w t) (sw_index t) of
                (Inl err, ix) \<Rightarrow> (Some err, t\<lparr>sw_index := ix\<rparr>)
              | (Inr w, ix) \<Rightarrow> (None, t\<lparr>sw_index := ix, sw_w := w @ put_u64 indexPos\<rparr>))"

definition sw_Size :: "sstWriter \<Rightarrow> u32" where
  "sw_Size t = ucast (sw_n t) + di_size (sw_index t)"

end
