(* ===== verification/SstRead.thy ===== *)
theory SstRead
  imports SstIndex StoreUtil
begin

text \<open>
  Reading an SST file: the index over the raw bytes of the index section
  (\<open>indirectIndex\<close> of \<open>storage/store/sst_index.go\<close>) with its deletions and tombstones, and the
  accessor that opens a file and reads the bytes of a block (\<open>sst_block_accessor.go\<close>,
  \<open>verifyVersion\<close> of \<open>util.go\<close>). The file is its bytes: mapping it into memory succeeds. The offsets
  of the keys are kept, as in the source, as big-endian words in one byte slice.
\<close>

section \<open>The index\<close>

record TimeRange =
  tr_Min :: u64
  tr_Max :: u64

definition tr_Overlaps :: "TimeRange \<Rightarrow> u64 \<Rightarrow> u64 \<Rightarrow> bool" where
  "tr_Overlaps t mn mx \<longleftrightarrow> sint (tr_Min t) \<le> sint mx \<and> sint mn \<le> sint (tr_Max t)"

record indirectIndex =
  xi_b :: bytes
  xi_offsets :: bytes
  xi_minKey :: bytes
  xi_maxKey :: bytes
  xi_minTime :: u64
  xi_maxTime :: u64
  xi_tombstones :: "bytes \<Rightarrow> TimeRange list option"

definition NewIndirectIndex :: indirectIndex where
  "NewIndirectIndex = \<lparr>xi_b = [], xi_offsets = [], xi_minKey = [], xi_maxKey = [], xi_minTime = 0, xi_maxTime = 0,
     xi_tombstones = Map.empty\<rparr>"

definition nilOffset :: bytes where "nilOffset = [255, 255, 255, 255]"

definition readKey :: "bytes \<Rightarrow> (int \<times> bytes) result" where
  "readKey b =
     bind_result (subslice b 0 2) (\<lambda>l.
       let n = 2; sz = uint (get_u16 l)
       in bind_result (subslice b n (n + sz)) (\<lambda>key. Inr (n + int (length key), key)))"

fun read_entries :: "nat \<Rightarrow> bytes \<Rightarrow> IndexEntry list result" where
  "read_entries 0 b = Inr []"
| "read_entries (Suc n) b =
     bind_result (entry_UnmarshalBinary b) (\<lambda>e.
     bind_result (slice_from b (int indexEntrySize)) (\<lambda>b'.
     bind_result (read_entries n b') (\<lambda>es. Inr (e # es))))"

definition readEntries :: "bytes \<Rightarrow> (byte \<times> IndexEntry list) result" where
  "readEntries b =
     (if length b < 1 + indexCountSize then Inl ErrEntriesHeader
      else let typ = b ! 0; count = unat (get_u16 (drop 1 b))
           in bind_result (read_entries count (drop (indexCountSize + indexTypeSize) b)) (\<lambda>es. Inr (typ, es)))"

section \<open>Loading the index\<close>

text \<open>One round of the loop: the next position and the times seen so far. The position is an \<open>int32\<close>.\<close>

definition unmarshal_key :: "bytes \<Rightarrow> int \<Rightarrow> u64 \<Rightarrow> u64 \<Rightarrow> (int \<times> u64 \<times> u64) result" where
  "unmarshal_key b i minTime maxTime =
     (let iMax = i32 (int (length b))
      in if iMax \<le> i32 (i + 2) then Inl ErrIndexKeyLength
         else bind_result (subslice b i (i32 (i + 2))) (\<lambda>l.
           let i1 = i32 (i + (3 + uint (get_u16 l)))
           in if iMax \<le> i32 (i1 + int indexCountSize) then Inl ErrIndexCount
              else bind_result (subslice b i1 (i32 (i1 + int indexCountSize))) (\<lambda>c.
                let count = uint (get_u16 c); i2 = i32 (i1 + int indexCountSize)
                in if iMax \<le> i32 (i2 + 8) then Inl ErrIndexMinTime
                   else bind_result (subslice b i2 (i32 (i2 + 8))) (\<lambda>mn.
                     let minT = get_u64 mn;
                         minTime' = (if sint minT < sint minTime then minT else minTime);
                         i3 = i32 (i2 + i32 ((count - 1) * int indexEntrySize))
                     in if iMax \<le> i32 (i3 + 16) then Inl ErrIndexMaxTime
                        else bind_result (subslice b (i32 (i3 + 8)) (i32 (i3 + 16))) (\<lambda>mx.
                          let maxT = get_u64 mx;
                              maxTime' = (if sint maxTime < sint maxT then maxT else maxTime)
                          in Inr (i32 (i3 + int indexEntrySize), minTime', maxTime'))))))"

text \<open>Every round moves the position forward or wraps it to a negative one, which panics: the fuel suffices.\<close>

fun unmarshal_loop :: "nat \<Rightarrow> bytes \<Rightarrow> int \<Rightarrow> int list \<Rightarrow> u64 \<Rightarrow> u64 \<Rightarrow> (int list \<times> u64 \<times> u64) result" where
  "unmarshal_loop 0 b i offsets minTime maxTime = Inl Diverged"
| "unmarshal_loop (Suc f) b i offsets minTime maxTime =
     (if \<not> i < i32 (int (length b)) then Inr (offsets, minTime, maxTime)
      else bind_result (unmarshal_key b i minTime maxTime) (\<lambda>(i', minTime', maxTime').
             unmarshal_loop f b i' (offsets @ [i]) minTime' maxTime'))"

definition max_int64 :: u64 where "max_int64 = 0x7FFFFFFFFFFFFFFF"
definition min_int64 :: u64 where "min_int64 = 0x8000000000000000"

definition xi_UnmarshalBinary :: "bytes \<Rightarrow> indirectIndex \<Rightarrow> indirectIndex result" where
  "xi_UnmarshalBinary b d0 =
     (let d = d0\<lparr>xi_b := b\<rparr>
      in if b = [] then Inr d
         else bind_result (unmarshal_loop (length b + 2) b 0 [] max_int64 0) (\<lambda>(offsets, minTime, maxTime).
           if offsets = [] then Inl Panic
           else bind_result (bind_result (slice_from b (hd offsets)) readKey) (\<lambda>(_, minKey).
                bind_result (bind_result (slice_from b (last offsets)) readKey) (\<lambda>(_, maxKey).
                  Inr (d\<lparr>xi_minKey := minKey, xi_maxKey := maxKey, xi_minTime := minTime, xi_maxTime := maxTime,
                         xi_offsets := concat (map (\<lambda>v. put_u32 (word_of_int v)) offsets)\<rparr>)))))"

section \<open>Lookups\<close>

definition xi_ContainsKey :: "bytes \<Rightarrow> indirectIndex \<Rightarrow> bool" where
  "xi_ContainsKey key d \<longleftrightarrow> 0 \<le> bytes_Compare key (xi_minKey d) \<and> bytes_Compare key (xi_maxKey d) \<le> 0"

definition xi_offset :: "int \<Rightarrow> indirectIndex \<Rightarrow> int result" where
  "xi_offset i d =
     (if i < 0 \<or> int (length (xi_offsets d)) < i + 4 then Inr (-1)
      else bind_result (subslice (xi_offsets d) (i * 4) (i * 4 + 4)) (\<lambda>x. Inr (uint (get_u32 x))))"

text \<open>The function the binary searches are given: is the key at this offset not below \<open>key\<close>?\<close>

definition key_not_below :: "indirectIndex \<Rightarrow> bytes \<Rightarrow> bytes \<Rightarrow> bool result" where
  "key_not_below d key x =
     (let ofs = i32 (uint (get_u32 x))
      in bind_result (subslice (xi_b d) ofs (i32 (ofs + 2))) (\<lambda>l.
           let keyLen = i32 (uint (get_u16 l))
           in bind_result (subslice (xi_b d) (i32 (ofs + 2)) (i32 (i32 (ofs + 2) + keyLen))) (\<lambda>k.
                Inr (0 \<le> bytes_Compare k key))))"

definition xi_searchOffset :: "bytes \<Rightarrow> indirectIndex \<Rightarrow> int result" where
  "xi_searchOffset key d =
     bind_result (SearchBytesFixed (xi_offsets d) 4 (key_not_below d key)) (\<lambda>i.
       Inr (if i < int (length (xi_offsets d)) then i div 4 else int (length (xi_offsets d) div 4)))"

definition xi_search :: "bytes \<Rightarrow> indirectIndex \<Rightarrow> int result" where
  "xi_search key d =
     (if \<not> xi_ContainsKey key d then Inr (int (length (xi_b d)))
      else bind_result (SearchBytesFixed (xi_offsets d) 4 (key_not_below d key)) (\<lambda>i.
        if i < int (length (xi_offsets d)) then
          bind_result (subslice (xi_offsets d) i (i + 4)) (\<lambda>x.
            let ofs = uint (get_u32 x)
            in bind_result (bind_result (slice_from (xi_b d) ofs) readKey) (\<lambda>(_, k).
                 Inr (if key \<noteq> k then int (length (xi_b d)) else ofs)))
        else Inr (int (length (xi_b d)))))"

definition xi_readEntriesAt :: "int \<Rightarrow> indirectIndex \<Rightarrow> (bytes \<times> IndexEntry list) result" where
  "xi_readEntriesAt ofs d =
     bind_result (bind_result (slice_from (xi_b d) ofs) readKey) (\<lambda>(n, k).
     bind_result (slice_from (xi_b d) (ofs + n)) (\<lambda>r.
       case readEntries r of Inl _ \<Rightarrow> Inl Panic | Inr (_, es) \<Rightarrow> Inr (k, es)))"

text \<open>A nil slice is the empty list: the callers look at the length.\<close>

definition xi_ReadEntries :: "bytes \<Rightarrow> indirectIndex \<Rightarrow> IndexEntry list result" where
  "xi_ReadEntries key d =
     bind_result (xi_search key d) (\<lambda>ofs.
       if ofs < int (length (xi_b d)) then
         bind_result (xi_readEntriesAt ofs d) (\<lambda>(k, es). Inr (if key \<noteq> k then [] else es))
       else Inr [])"

definition xi_Entries :: "bytes \<Rightarrow> indirectIndex \<Rightarrow> IndexEntry list result" where
  "xi_Entries key d = xi_ReadEntries key d"

definition xi_Entry :: "bytes \<Rightarrow> u64 \<Rightarrow> indirectIndex \<Rightarrow> IndexEntry option result" where
  "xi_Entry key timestamp d =
     bind_result (xi_Entries key d) (\<lambda>es. Inr (List.find (\<lambda>e. ix_Contains e timestamp) es))"

text \<open>\<open>Key\<close> returns nil, 0, nil for a position out of range or entries that do not decode.\<close>

definition xi_Key :: "int \<Rightarrow> indirectIndex \<Rightarrow> (bytes \<times> byte \<times> IndexEntry list) result" where
  "xi_Key idx d =
     (if idx < 0 \<or> int (length (xi_offsets d)) < idx * 4 + 4 then Inr ([], 0, [])
      else bind_result (subslice (xi_offsets d) (idx * 4) (idx * 4 + 4)) (\<lambda>x.
        let ofs = uint (get_u32 x)
        in bind_result (bind_result (slice_from (xi_b d) ofs) readKey) (\<lambda>(n, key).
           bind_result (index_at (xi_b d) (ofs + n)) (\<lambda>typ.
           bind_result (slice_from (xi_b d) (ofs + n)) (\<lambda>r.
             case readEntries r of Inl _ \<Rightarrow> Inr ([], 0, []) | Inr (_, es) \<Rightarrow> Inr (key, typ, es))))))"

definition xi_KeyAt :: "int \<Rightarrow> indirectIndex \<Rightarrow> (bytes \<times> byte) result" where
  "xi_KeyAt idx d =
     (if idx < 0 \<or> int (length (xi_offsets d)) < idx * 4 + 4 then Inr ([], 0)
      else bind_result (subslice (xi_offsets d) (idx * 4) (idx * 4 + 4)) (\<lambda>x.
        let ofs = i32 (uint (get_u32 x))
        in bind_result (bind_result (slice_from (xi_b d) ofs) readKey) (\<lambda>(n, key).
           bind_result (index_at (xi_b d) (i32 (ofs + i32 n))) (\<lambda>typ. Inr (key, typ)))))"

definition xi_KeyCount :: "indirectIndex \<Rightarrow> nat" where
  "xi_KeyCount d = length (xi_offsets d) div 4"

definition xi_Seek :: "bytes \<Rightarrow> indirectIndex \<Rightarrow> int result" where
  "xi_Seek key d = xi_searchOffset key d"

definition xi_Contains :: "bytes \<Rightarrow> indirectIndex \<Rightarrow> bool result" where
  "xi_Contains key d = bind_result (xi_Entries key d) (\<lambda>es. Inr (0 < length es))"

definition xi_Type :: "bytes \<Rightarrow> indirectIndex \<Rightarrow> byte result" where
  "xi_Type key d =
     bind_result (xi_search key d) (\<lambda>ofs.
       if ofs < int (length (xi_b d)) then
         bind_result (bind_result (slice_from (xi_b d) ofs) readKey) (\<lambda>(n, _). index_at (xi_b d) (ofs + n))
       else Inl ErrKeyNotFound)"

definition xi_OverlapsTimeRange :: "u64 \<Rightarrow> u64 \<Rightarrow> indirectIndex \<Rightarrow> bool" where
  "xi_OverlapsTimeRange mn mx d \<longleftrightarrow> sint (xi_minTime d) \<le> sint mx \<and> sint mn \<le> sint (xi_maxTime d)"

definition xi_OverlapsKeyRange :: "bytes \<Rightarrow> bytes \<Rightarrow> indirectIndex \<Rightarrow> bool" where
  "xi_OverlapsKeyRange mn mx d \<longleftrightarrow> bytes_Compare (xi_minKey d) mx \<le> 0 \<and> 0 \<le> bytes_Compare (xi_maxKey d) mn"

definition xi_Size :: "indirectIndex \<Rightarrow> u32" where
  "xi_Size d = of_nat (length (xi_b d))"

definition xi_TombstoneRange :: "bytes \<Rightarrow> indirectIndex \<Rightarrow> TimeRange list" where
  "xi_TombstoneRange key d = (case xi_tombstones d key of None \<Rightarrow> [] | Some ts \<Rightarrow> ts)"

definition xi_ContainsValue :: "bytes \<Rightarrow> u64 \<Rightarrow> indirectIndex \<Rightarrow> bool result" where
  "xi_ContainsValue key timestamp d =
     bind_result (xi_Entry key timestamp d) (\<lambda>e.
       case e of
         None \<Rightarrow> Inr False
       | Some _ \<Rightarrow>
           Inr (\<not> (\<exists>t \<in> set (xi_TombstoneRange key d).
                    sint (tr_Min t) \<le> sint timestamp \<and> sint timestamp \<le> sint (tr_Max t))))"

section \<open>Deletions\<close>

text \<open>Both the keys and the offsets are in order: walk over both and blank the offsets of the keys.\<close>

definition key_at :: "bytes \<Rightarrow> bytes \<Rightarrow> bytes result" where
  "key_at b x = bind_result (bind_result (slice_from b (uint (get_u32 x))) readKey) (\<lambda>(_, k). Inr k)"

function delete_loop :: "bytes \<Rightarrow> bytes list \<Rightarrow> nat \<Rightarrow> bytes \<Rightarrow> bytes result" where
  "delete_loop b keys i offsets =
     (if i + 4 \<le> length offsets \<and> keys \<noteq> [] then
        bind_result (key_at b (take 4 (drop i offsets))) (\<lambda>indexKey.
          let keys1 = dropWhile (\<lambda>k. bytes_Compare k indexKey < 0) keys
          in if keys1 \<noteq> [] \<and> hd keys1 = indexKey
             then delete_loop b (tl keys1) (i + 4) (take i offsets @ nilOffset @ drop (i + 4) offsets)
             else delete_loop b keys1 (i + 4) offsets)
      else Inr offsets)"
  by pat_completeness auto
termination by (relation "measure (\<lambda>(b, keys, i, offsets). length offsets - i)") (auto simp: nilOffset_def)

declare delete_loop.simps [simp del]

definition sorted_keys :: "bytes list \<Rightarrow> bytes list" where
  "sorted_keys keys = (if \<not> IsSorted keys then Sort keys else keys)"

definition xi_Delete :: "bytes list \<Rightarrow> indirectIndex \<Rightarrow> indirectIndex result" where
  "xi_Delete keys0 d =
     (if keys0 = [] then Inr d
      else let keys = sorted_keys keys0
           in bind_result (xi_searchOffset (hd keys) d) (\<lambda>start.
              bind_result (delete_loop (xi_b d) keys (nat start * 4) (xi_offsets d)) (\<lambda>offsets.
              bind_result (Pack offsets 4 255) (\<lambda>offsets'. Inr (d\<lparr>xi_offsets := offsets'\<rparr>)))))"

text \<open>
  The order of tombstones, its test and the sort. Ranges the order does not tell apart are equal, so
  any sort gives the same list.
\<close>

definition tomb_less :: "TimeRange \<Rightarrow> TimeRange \<Rightarrow> bool" where
  "tomb_less a b =
     (if tr_Min a = tr_Min b then sint (tr_Max a) \<le> sint (tr_Max b) else sint (tr_Min a) < sint (tr_Min b))"

definition tomb_sorted :: "TimeRange list \<Rightarrow> bool" where
  "tomb_sorted ts \<longleftrightarrow> (\<forall>i < length ts - 1. \<not> tomb_less (ts ! (i + 1)) (ts ! i))"

definition sort_tombs :: "TimeRange list \<Rightarrow> TimeRange list" where
  "sort_tombs ts =
     (if 1 < length ts \<and> \<not> tomb_sorted ts
      then sort_key (\<lambda>t. sint (tr_Min t)) (sort_key (\<lambda>t. sint (tr_Max t)) ts) else ts)"

text \<open>The window over the tombstones, from the first one on; a gap makes it empty.\<close>

fun window :: "TimeRange \<Rightarrow> TimeRange list \<Rightarrow> u64 \<Rightarrow> u64 \<Rightarrow> u64 \<times> u64" where
  "window prevTs [] minTs maxTs = (minTs, maxTs)"
| "window prevTs (ts # rest) minTs maxTs =
     (if tr_Max prevTs \<noteq> tr_Min ts - 1 \<and> \<not> tr_Overlaps prevTs (tr_Min ts) (tr_Max ts) then (max_int64, min_int64)
      else window ts rest
             (if sint (tr_Min ts) < sint minTs then tr_Min ts else minTs)
             (if sint maxTs < sint (tr_Max ts) then tr_Max ts else maxTs))"

definition fully_deleted :: "TimeRange list \<Rightarrow> u64 \<Rightarrow> u64 \<Rightarrow> bool" where
  "fully_deleted newTs mn mx =
     (case newTs of
        [] \<Rightarrow> False
      | t # ts \<Rightarrow> let (minTs, maxTs) = window t ts (tr_Min t) (tr_Max t)
                  in sint minTs \<le> sint mn \<and> sint mx \<le> sint maxTs)"

type_synonym tombs = "bytes \<Rightarrow> TimeRange list option"

text \<open>What the loop does for one key of the index with the entries \<open>es\<close>, once \<open>key\<close> was found to be that key.\<close>

definition range_key :: "indirectIndex \<Rightarrow> TimeRange \<Rightarrow> bytes \<Rightarrow> IndexEntry list \<Rightarrow> tombs \<Rightarrow> bool \<times> tombs" where
  "range_key d r k es tombstones =
     (if es = [] then (False, tombstones)
      else let mn = ix_MinTime (hd es); mx = ix_MaxTime (last es)
           in if sint mx < sint (tr_Min r) \<or> sint (tr_Max r) < sint mn then (False, tombstones)
              else if sint (tr_Min r) \<le> sint mn \<and> sint mx \<le> sint (tr_Max r) then (True, tombstones)
              else let new = (case tombstones k of None \<Rightarrow> [] | Some ts \<Rightarrow> ts) @ [r];
                       newTs = sort_tombs (xi_TombstoneRange k d @ new)
                   in (fully_deleted newTs mn mx, tombstones(k \<mapsto> newTs)))"

function range_loop :: "indirectIndex \<Rightarrow> TimeRange \<Rightarrow> nat \<Rightarrow> bytes list \<Rightarrow> bytes list \<Rightarrow> tombs \<Rightarrow>
    (bytes list \<times> tombs) result" where
  "range_loop d r i keys fullKeys tombstones =
     (if keys \<noteq> [] \<and> i < xi_KeyCount d then
        bind_result (bind_result (xi_offset (int i) d) (\<lambda>ofs. xi_readEntriesAt ofs d)) (\<lambda>(k, es).
          let keys1 = dropWhile (\<lambda>x. bytes_Compare x k < 0) keys
          in if keys1 = [] then Inr (fullKeys, tombstones)
             else if 0 < bytes_Compare (hd keys1) k then range_loop d r (i + 1) keys1 fullKeys tombstones
             else let (full, tombstones') = range_key d r k es tombstones
                  in if full then range_loop d r (i + 1) (tl keys1) (fullKeys @ [hd keys1]) tombstones'
                     else range_loop d r (i + 1) keys1 fullKeys tombstones')
      else Inr (fullKeys, tombstones))"
  by pat_completeness auto
termination by (relation "measure (\<lambda>(d, r, i, _). xi_KeyCount d - i)") auto

declare range_loop.simps [simp del]

definition xi_DeleteRange :: "bytes list \<Rightarrow> u64 \<Rightarrow> u64 \<Rightarrow> indirectIndex \<Rightarrow> indirectIndex result" where
  "xi_DeleteRange keys0 minTime maxTime d =
     (if keys0 = [] then Inr d
      else let keys = sorted_keys keys0
           in if minTime = min_int64 \<and> maxTime = max_int64 then xi_Delete keys d
              else if sint (xi_maxTime d) < sint minTime \<or> sint maxTime < sint (xi_minTime d) then Inr d
              else bind_result (range_loop d \<lparr>tr_Min = minTime, tr_Max = maxTime\<rparr> 0 keys [] Map.empty) (\<lambda>(fullKeys, tombstones).
                   bind_result (if fullKeys \<noteq> [] then xi_Delete fullKeys d else Inr d) (\<lambda>d'.
                     Inr (d'\<lparr>xi_tombstones := xi_tombstones d' ++ tombstones\<rparr>))))"

section \<open>Opening a file\<close>

definition verifyVersion :: "bytes \<Rightarrow> error option" where
  "verifyVersion f =
     (if length f < 4 then Some ErrReadMagic
      else if get_u32 f \<noteq> MagicNumber then Some ErrNotSST
      else if length f < 5 then Some ErrReadVersion
      else if f ! 4 \<noteq> Version then Some ErrVersion
      else None)"

definition acc_init :: "bytes \<Rightarrow> indirectIndex result" where
  "acc_init f =
     (case verifyVersion f of
        Some err \<Rightarrow> Inl err
      | None \<Rightarrow>
          if length f < 8 then Inl ErrIndexTooSmall
          else let indexOfsPos = length f - 8; indexStart = unat (get_u64 (drop indexOfsPos f))
               in if indexOfsPos \<le> indexStart then Inl ErrIndexStart
                  else bind_result (subslice f (int indexStart) (int indexOfsPos)) (\<lambda>b.
                         xi_UnmarshalBinary b NewIndirectIndex))"

text \<open>The end of the block is computed in \<open>int64\<close>.\<close>

definition acc_readBytes :: "bytes \<Rightarrow> IndexEntry \<Rightarrow> (u32 \<times> bytes) result" where
  "acc_readBytes f e =
     (let e_end = ix_Offset e + ucast (ix_Size e)
      in if int (length f) < sint e_end then Inl ErrSSTClosed
         else bind_result (subslice f (sint (ix_Offset e)) (sint (ix_Offset e + 4))) (\<lambda>c.
              bind_result (subslice f (sint (ix_Offset e + 4)) (sint e_end)) (\<lambda>block. Inr (get_u32 c, block))))"

end
