(* ===== verification/SstLayout.thy ===== *)
theory SstLayout
  imports SstRead
begin

text \<open>
  What the bytes of an index section mean: a list of sections, one per key in ascending order, each
  with the type and the entries of its blocks. Loading the bytes of any such list succeeds, and an
  index that points to some of its sections finds exactly their keys.
\<close>

section \<open>The layout of the index\<close>

type_synonym sect = "bytes \<times> byte \<times> IndexEntry list"

abbreviation sect_key :: "sect \<Rightarrow> bytes" where "sect_key s \<equiv> fst s"
abbreviation sect_type :: "sect \<Rightarrow> byte" where "sect_type s \<equiv> fst (snd s)"
abbreviation sect_entries :: "sect \<Rightarrow> IndexEntry list" where "sect_entries s \<equiv> snd (snd s)"

definition sect_bytes :: "sect \<Rightarrow> bytes" where
  "sect_bytes s = put_u16 (of_nat (length (sect_key s))) @ sect_key s @
     sect_type s # put_u16 (of_nat (length (sect_entries s))) @ concat (map entry_bytes (sect_entries s))"

definition index_bytes :: "sect list \<Rightarrow> bytes" where
  "index_bytes ss = concat (map sect_bytes ss)"

definition wf_sect :: "sect \<Rightarrow> bool" where
  "wf_sect s \<longleftrightarrow> length (sect_key s) \<le> maxKeyLength \<and> sect_entries s \<noteq> [] \<and> length (sect_entries s) \<le> maxIndexEntries"

fun layout :: "nat \<Rightarrow> sect list \<Rightarrow> (nat \<times> sect) list" where
  "layout pos [] = []"
| "layout pos (s # ss) = (pos, s) # layout (pos + length (sect_bytes s)) ss"

lemma length_sect_bytes: "length (sect_bytes s) = 5 + length (sect_key s) + 28 * length (sect_entries s)"
  by (simp add: sect_bytes_def)

lemma wf_sect_lengths:
  assumes "wf_sect s"
  shows "unat (of_nat (length (sect_key s)) :: u16) = length (sect_key s)"
    and "unat (of_nat (length (sect_entries s)) :: u16) = length (sect_entries s)"
    and "uint (of_nat (length (sect_key s)) :: u16) = int (length (sect_key s))"
    and "uint (of_nat (length (sect_entries s)) :: u16) = int (length (sect_entries s))"
  using assms by (simp_all add: wf_sect_def sst_sizes unat_of_nat uint_nat)

section \<open>Reading a section\<close>

lemma slice_prefix: "hi = int (length m) \<Longrightarrow> subslice (m @ r) 0 hi = Inr m"
  by (simp add: subslice_def)

lemma readKey_sect [simp]:
  assumes "wf_sect s"
  shows "readKey (sect_bytes s @ rest) = Inr (2 + int (length (sect_key s)), sect_key s)"
proof -
  let ?k = "sect_key s"
  obtain r where r: "sect_bytes s @ rest = put_u16 (of_nat (length ?k)) @ ?k @ r" by (simp add: sect_bytes_def)
  have "subslice (put_u16 (of_nat (length ?k)) @ ?k @ r) 0 2 = Inr (put_u16 (of_nat (length ?k)))"
    by (rule slice_prefix) simp
  moreover have "subslice (put_u16 (of_nat (length ?k)) @ ?k @ r) 2 (2 + int (length ?k)) = Inr ?k"
    by (rule slice_middle) simp_all
  ultimately show ?thesis
    unfolding readKey_def r using wf_sect_lengths [OF assms] by simp
qed

lemma read_entries_bytes [simp]: "read_entries (length es) (concat (map entry_bytes es) @ rest) = Inr es"
proof (induction es)
  case (Cons e es)
  have "slice_from (entry_bytes e @ r) 28 = Inr r" for r
    by (rule slice_from_append) simp
  then show ?case using Cons by (simp add: indexEntrySize_def)
qed simp

definition sect_tail :: "sect \<Rightarrow> bytes" where
  "sect_tail s = sect_type s # put_u16 (of_nat (length (sect_entries s))) @ concat (map entry_bytes (sect_entries s))"

lemma sect_bytes_split: "sect_bytes s = put_u16 (of_nat (length (sect_key s))) @ sect_key s @ sect_tail s"
  by (simp add: sect_bytes_def sect_tail_def)

lemma readEntries_sect [simp]:
  assumes "wf_sect s"
  shows "readEntries (sect_tail s @ rest) = Inr (sect_type s, sect_entries s)"
proof -
  have "drop 3 (sect_tail s @ rest) = concat (map entry_bytes (sect_entries s)) @ rest"
    by (simp add: sect_tail_def)
  then show ?thesis
    using wf_sect_lengths [OF assms] by (simp add: readEntries_def sst_sizes) (simp add: sect_tail_def)
qed

lemma entries_ends:
  assumes "es \<noteq> []"
  obtains m where "concat (map entry_bytes es) = put_u64 (ix_MinTime (hd es)) @ m"
proof -
  have "concat (map entry_bytes es) = entry_bytes (hd es) @ concat (map entry_bytes (tl es))"
    using assms by (cases es) simp_all
  then show ?thesis using that by (simp add: entry_AppendTo_def)
qed

lemma entries_last:
  assumes "es \<noteq> []"
  obtains a m where "concat (map entry_bytes es) = a @ put_u64 (ix_MaxTime (last es)) @ m" "length a + 20 = 28 * length es"
proof -
  obtain es' e where es: "es = es' @ [e]" using assms by (cases es rule: rev_cases) simp_all
  show ?thesis
    by (rule that [of "concat (map entry_bytes es') @ put_u64 (ix_MinTime e)" "put_u64 (ix_Offset e) @ put_u32 (ix_Size e)"])
      (simp add: es entry_AppendTo_def, simp add: es)
qed

definition lower_time :: "u64 \<Rightarrow> u64 \<Rightarrow> u64" where
  "lower_time a b = (if sint b < sint a then b else a)"

definition upper_time :: "u64 \<Rightarrow> u64 \<Rightarrow> u64" where
  "upper_time a b = (if sint a < sint b then b else a)"

lemma unmarshal_key_sect:
  assumes s: "wf_sect s" and b: "b = pre @ sect_bytes s @ rest" and small: "length b < 2 ^ 31"
  shows "unmarshal_key b (int (length pre)) mn mx =
    Inr (int (length pre + length (sect_bytes s)), lower_time mn (ix_MinTime (hd (sect_entries s))),
         upper_time mx (ix_MaxTime (last (sect_entries s))))"
proof -
  let ?k = "sect_key s" and ?es = "sect_entries s" and ?p = "int (length pre)"
  have es: "?es \<noteq> []" using s by (simp add: wf_sect_def)
  obtain m where m: "concat (map entry_bytes ?es) = put_u64 (ix_MinTime (hd ?es)) @ m"
    using entries_ends [OF es] .
  obtain a m' where a: "concat (map entry_bytes ?es) = a @ put_u64 (ix_MaxTime (last ?es)) @ m'" "length a + 20 = 28 * length ?es"
    using entries_last [OF es] .
  let ?h = "put_u16 (of_nat (length ?k))" and ?c = "put_u16 (of_nat (length ?es)) :: bytes"
  have len: "length b = length pre + 5 + length ?k + 28 * length ?es + length rest"
    using b by (simp add: length_sect_bytes)
  have es1: "1 \<le> length ?es" using es by (cases ?es) simp_all
  have S1: "subslice b ?p (?p + 2) = Inr ?h"
    unfolding b sect_bytes_def append_assoc by (rule slice_middle) simp_all
  have S2: "subslice b (?p + (3 + int (length ?k))) (?p + (3 + int (length ?k)) + 2) = Inr ?c"
    using slice_middle [of "?p + (3 + int (length ?k))" "pre @ ?h @ ?k @ [sect_type s]" "?p + (3 + int (length ?k)) + 2" ?c]
    by (simp add: b sect_bytes_def)
  have S3: "subslice b (?p + (3 + int (length ?k)) + 2) (?p + (3 + int (length ?k)) + 2 + 8) = Inr (put_u64 (ix_MinTime (hd ?es)))"
    using slice_middle [of "?p + (3 + int (length ?k)) + 2" "pre @ ?h @ ?k @ [sect_type s] @ ?c"
        "?p + (3 + int (length ?k)) + 2 + 8" "put_u64 (ix_MinTime (hd ?es))" "m @ rest"]
    by (simp add: b sect_bytes_def m)
  have S4: "subslice b (?p + int (length ?k) + 5 + (int (length ?es) - 1) * 28 + 8) (?p + int (length ?k) + 5 + (int (length ?es) - 1) * 28 + 16) =
      Inr (put_u64 (ix_MaxTime (last ?es)))"
    using slice_middle [of "?p + int (length ?k) + 5 + (int (length ?es) - 1) * 28 + 8" "pre @ ?h @ ?k @ [sect_type s] @ ?c @ a"
        "?p + int (length ?k) + 5 + (int (length ?es) - 1) * 28 + 16" "put_u64 (ix_MaxTime (last ?es))" "m' @ rest"] a(2)
    by (simp add: b sect_bytes_def a(1))
  show ?thesis
    using small es1 len S1 S2 S3 S4 wf_sect_lengths [OF s]
    by (simp add: unmarshal_key_def Let_def sst_sizes lower_time_def upper_time_def length_sect_bytes algebra_simps)
qed

section \<open>Loading\<close>

lemma unmarshal_loop_sects:
  assumes "list_all wf_sect ss" "b = pre @ index_bytes ss" "length b < 2 ^ 31" "length ss < f"
  shows "unmarshal_loop f b (int (length pre)) offs mn mx =
    Inr (offs @ map (\<lambda>x. int (fst x)) (layout (length pre) ss),
         fold (\<lambda>s a. lower_time a (ix_MinTime (hd (sect_entries s)))) ss mn,
         fold (\<lambda>s a. upper_time a (ix_MaxTime (last (sect_entries s)))) ss mx)"
  using assms
proof (induction ss arbitrary: pre f offs mn mx)
  case Nil
  then obtain g where "f = Suc g" by (cases f) simp_all
  then show ?case using Nil by (simp add: index_bytes_def)
next
  case (Cons s ss)
  obtain g where f: "f = Suc g" using Cons.prems by (cases f) simp_all
  have s: "wf_sect s" using Cons.prems by simp
  have b: "b = pre @ sect_bytes s @ index_bytes ss" "b = (pre @ sect_bytes s) @ index_bytes ss"
    using Cons.prems by (simp_all add: index_bytes_def)
  have "int (length pre) < i32 (int (length b))"
    using Cons.prems(3) b(1) by (simp add: length_sect_bytes)
  then have "unmarshal_loop f b (int (length pre)) offs mn mx =
      unmarshal_loop g b (int (length (pre @ sect_bytes s))) (offs @ [int (length pre)])
        (lower_time mn (ix_MinTime (hd (sect_entries s)))) (upper_time mx (ix_MaxTime (last (sect_entries s))))"
    using unmarshal_key_sect [OF s b(1) Cons.prems(3)] by (simp add: f)
  also have "\<dots> = Inr ((offs @ [int (length pre)]) @ map (\<lambda>x. int (fst x)) (layout (length (pre @ sect_bytes s)) ss),
         fold (\<lambda>s a. lower_time a (ix_MinTime (hd (sect_entries s)))) ss (lower_time mn (ix_MinTime (hd (sect_entries s)))),
         fold (\<lambda>s a. upper_time a (ix_MaxTime (last (sect_entries s)))) ss (upper_time mx (ix_MaxTime (last (sect_entries s)))))"
    using Cons.IH [OF _ b(2) Cons.prems(3), of g] Cons.prems f by simp
  finally show ?case by simp
qed

text \<open>\<open>placed b ls\<close>: the sections \<open>ls\<close> stand at their offsets in \<open>b\<close>, in the order of their keys.\<close>

definition placed :: "bytes \<Rightarrow> (nat \<times> sect) list \<Rightarrow> bool" where
  "placed b ls \<longleftrightarrow> length b < 2 ^ 31 \<and> sorted_wrt (<) (map (\<lambda>x. sect_key (snd x)) ls) \<and>
     (\<forall>x \<in> set ls. wf_sect (snd x) \<and> (\<exists>pre rest. b = pre @ sect_bytes (snd x) @ rest \<and> length pre = fst x))"

definition ofs_bytes :: "(nat \<times> sect) list \<Rightarrow> bytes" where
  "ofs_bytes ls = concat (map (\<lambda>x. put_u32 (of_nat (fst x))) ls)"

definition index_of :: "indirectIndex \<Rightarrow> (nat \<times> sect) list \<Rightarrow> bool" where
  "index_of d ls \<longleftrightarrow> placed (xi_b d) ls \<and> xi_offsets d = ofs_bytes ls \<and>
     (\<forall>x \<in> set ls. xi_minKey d \<le> sect_key (snd x) \<and> sect_key (snd x) \<le> xi_maxKey d)"

lemma map_snd_layout [simp]: "map (\<lambda>x. f (snd x)) (layout pos ss) = map f ss"
  by (induction ss arbitrary: pos) simp_all

lemma layout_placed:
  assumes "list_all wf_sect ss" "x \<in> set (layout (length pre) ss)"
  shows "wf_sect (snd x) \<and> (\<exists>p r. pre @ index_bytes ss = p @ sect_bytes (snd x) @ r \<and> length p = fst x)"
  using assms
proof (induction ss arbitrary: pre)
  case (Cons t ss)
  then consider "x = (length pre, t)" | "x \<in> set (layout (length (pre @ sect_bytes t)) ss)" by auto
  then show ?case
  proof cases
    case 1
    then show ?thesis using Cons.prems(1) by (auto simp: index_bytes_def)
  next
    case 2
    then show ?thesis using Cons.IH [of "pre @ sect_bytes t"] Cons.prems(1) by (simp add: index_bytes_def)
  qed
qed simp

definition wf_index :: "sect list \<Rightarrow> bool" where
  "wf_index ss \<longleftrightarrow> list_all wf_sect ss \<and> sorted_wrt (<) (map sect_key ss) \<and> ss \<noteq> [] \<and> length (index_bytes ss) < 2 ^ 31"

lemma wf_index_placed: "wf_index ss \<Longrightarrow> placed (index_bytes ss) (layout 0 ss)"
  using layout_placed [of ss _ "[]"] by (auto simp: placed_def wf_index_def)

lemma length_index_ge: "length ss \<le> length (index_bytes ss)"
  by (induction ss) (simp_all add: index_bytes_def length_sect_bytes)

lemma hd_last_layout:
  "ss \<noteq> [] \<Longrightarrow> hd (layout pos ss) = (pos, hd ss)"
  "ss \<noteq> [] \<Longrightarrow> snd (last (layout pos ss)) = last ss"
  "layout pos ss = [] \<longleftrightarrow> ss = []"
  by (induction ss arbitrary: pos) auto

lemma sorted_hd_last:
  assumes "sorted_wrt (<) (map f ss)" "s \<in> set ss"
  shows "f (hd ss) \<le> (f s :: 'k::linorder)" "f s \<le> f (last ss)"
proof -
  show "f (hd ss) \<le> f s" using assms by (cases ss) (auto intro: less_imp_le)
  show "f s \<le> f (last ss)" using assms by (cases ss rule: rev_cases) (auto simp: sorted_wrt_append intro: less_imp_le)
qed

text \<open>The index loaded from the bytes of the sections.\<close>

definition loaded :: "sect list \<Rightarrow> indirectIndex" where
  "loaded ss = \<lparr>xi_b = index_bytes ss, xi_offsets = ofs_bytes (layout 0 ss), xi_minKey = sect_key (hd ss),
     xi_maxKey = sect_key (last ss),
     xi_minTime = fold (\<lambda>s a. lower_time a (ix_MinTime (hd (sect_entries s)))) ss max_int64,
     xi_maxTime = fold (\<lambda>s a. upper_time a (ix_MaxTime (last (sect_entries s)))) ss 0,
     xi_tombstones = Map.empty\<rparr>"

lemma UnmarshalBinary_loaded:
  assumes "wf_index ss"
  shows "xi_UnmarshalBinary (index_bytes ss) NewIndirectIndex = Inr (loaded ss)"
proof -
  let ?b = "index_bytes ss" and ?L = "layout 0 ss"
  have ss: "list_all wf_sect ss" "ss \<noteq> []" "length ?b < 2 ^ 31" using assms by (simp_all add: wf_index_def)
  have nn: "?b \<noteq> []" using ss length_index_ge [of ss] by (cases ss) auto
  have loop: "unmarshal_loop (length ?b + 2) ?b 0 [] max_int64 0 =
      Inr (map (\<lambda>x. int (fst x)) ?L, xi_minTime (loaded ss), xi_maxTime (loaded ss))"
    using unmarshal_loop_sects [OF ss(1), of ?b "[]" "length ?b + 2"] ss length_index_ge [of ss] by (simp add: loaded_def)
  have key: "bind_result (slice_from ?b (int o')) readKey = Inr (2 + int (length (sect_key s)), sect_key s)"
    if in_L: "(o', s) \<in> set ?L" for o' s
  proof -
    obtain p r where "wf_sect s" "?b = p @ sect_bytes s @ r" "length p = o'"
      using wf_index_placed [OF assms] in_L by (fastforce simp: placed_def)
    then show ?thesis by simp
  qed
  have L: "?L \<noteq> []" using ss by (simp add: hd_last_layout)
  have h: "hd (map (\<lambda>x. int (fst x)) ?L) = int (fst (hd ?L))" "last (map (\<lambda>x. int (fst x)) ?L) = int (fst (last ?L))"
    using L by (simp_all add: hd_map last_map split_beta)
  have mem: "(fst (hd ?L), snd (hd ?L)) \<in> set ?L" "(fst (last ?L), snd (last ?L)) \<in> set ?L"
    using L hd_in_set [of ?L] last_in_set [of ?L] by simp_all
  show ?thesis
    using nn L key [OF mem(1)] key [OF mem(2)] ss
    unfolding xi_UnmarshalBinary_def Let_def loop bind_result_simps prod.case h
    by (simp add: NewIndirectIndex_def loaded_def ofs_bytes_def hd_last_layout comp_def split_beta)
qed

lemma set_layout: "x \<in> set (layout o' ss) \<Longrightarrow> snd x \<in> set ss"
  by (induction ss arbitrary: o') auto

lemma loaded_index_of:
  assumes "wf_index ss"
  shows "index_of (loaded ss) (layout 0 ss)"
proof -
  have "sect_key (hd ss) \<le> sect_key (snd x) \<and> sect_key (snd x) \<le> sect_key (last ss)" if "x \<in> set (layout 0 ss)" for x
    using sorted_hd_last [of sect_key ss "snd x"] set_layout [OF that] assms by (simp add: wf_index_def)
  then show ?thesis using wf_index_placed [OF assms] by (auto simp: index_of_def loaded_def)
qed

section \<open>Finding a key\<close>

definition look :: "(nat \<times> sect) list \<Rightarrow> bytes \<Rightarrow> (nat \<times> sect) option" where
  "look ls key = List.find (\<lambda>x. sect_key (snd x) = key) ls"

lemma look_Some: "look ls key = Some x \<Longrightarrow> x \<in> set ls \<and> sect_key (snd x) = key"
  by (auto simp: look_def find_Some_iff in_set_conv_nth)

lemma look_None: "look ls key = None \<longleftrightarrow> (\<forall>x \<in> set ls. sect_key (snd x) \<noteq> key)"
  by (auto simp: look_def find_None_iff)

lemma look_member:
  assumes "sorted_wrt (<) (map (\<lambda>x. sect_key (snd x)) ls)" "x \<in> set ls"
  shows "look ls (sect_key (snd x)) = Some x"
proof -
  have "inj_on (\<lambda>x. sect_key (snd x)) (set ls)"
    using assms(1) by (simp add: strict_sorted_iff distinct_map)
  moreover obtain y where y: "look ls (sect_key (snd x)) = Some y"
    using assms(2) look_None [of ls "sect_key (snd x)"] by fastforce
  ultimately show ?thesis using look_Some [OF y] assms(2) by (auto simp: inj_on_def)
qed

lemma index_of_member:
  assumes "index_of d ls" "x \<in> set ls"
  obtains pre rest where "xi_b d = pre @ sect_bytes (snd x) @ rest" "length pre = fst x" "wf_sect (snd x)"
    "length (xi_b d) < 2 ^ 31" "fst x + length (sect_bytes (snd x)) \<le> length (xi_b d)"
    "unat (of_nat (fst x) :: u32) = fst x" "uint (of_nat (fst x) :: u32) = int (fst x)"
proof -
  obtain pre rest where 1: "xi_b d = pre @ sect_bytes (snd x) @ rest" "length pre = fst x" "wf_sect (snd x)"
    and 2: "length (xi_b d) < 2 ^ 31"
    using assms by (auto simp: index_of_def placed_def)
  then have "fst x + length (sect_bytes (snd x)) \<le> length (xi_b d)" by simp
  then show ?thesis using that 1 2 by (simp add: unat_of_nat uint_nat)
qed

lemma key_not_below_eq:
  assumes "index_of d ls" "x \<in> set ls"
  shows "key_not_below d key (put_u32 (of_nat (fst x))) = Inr (key \<le> sect_key (snd x))"
proof -
  obtain pre rest where b: "xi_b d = pre @ sect_bytes (snd x) @ rest" "length pre = fst x" and s: "wf_sect (snd x)"
    and le: "length (xi_b d) < 2 ^ 31" "fst x + length (sect_bytes (snd x)) \<le> length (xi_b d)"
    and o: "uint (of_nat (fst x) :: u32) = int (fst x)"
    by (rule index_of_member [OF assms])
  let ?k = "sect_key (snd x)"
  have 1: "subslice (xi_b d) (int (fst x)) (int (fst x) + 2) = Inr (put_u16 (of_nat (length ?k)))"
    unfolding b(1) sect_bytes_split append_assoc by (rule slice_middle) (simp_all add: b(2))
  have 2: "subslice (xi_b d) (int (fst x) + 2) (int (fst x) + 2 + int (length ?k)) = Inr ?k"
    using slice_middle [of "int (fst x) + 2" "pre @ put_u16 (of_nat (length ?k))" "int (fst x) + 2 + int (length ?k)" ?k]
    unfolding b(1) sect_bytes_split append_assoc by (simp add: b(2))
  show ?thesis
    using 1 2 le wf_sect_lengths [OF s] by (simp add: key_not_below_def o length_sect_bytes)
qed

lemma records_offsets: "records 4 (map (\<lambda>x. put_u32 (of_nat (fst x))) ls)"
  by (simp add: records_def)

lemma length_ofs_bytes [simp]: "length (ofs_bytes ls) = 4 * length ls"
  by (simp add: ofs_bytes_def length_concat_records [OF records_offsets])

lemma offset_slice: "r < length ls \<Longrightarrow> subslice (ofs_bytes ls) (4 * int r) (4 * int r + 4) = Inr (put_u32 (of_nat (fst (ls ! r))))"
  using slice_record [OF records_offsets, of r ls] by (simp add: ofs_bytes_def)

lemma index_of_sorted:
  assumes "index_of d ls" "k < l" "l < length ls"
  shows "sect_key (snd (ls ! k)) < sect_key (snd (ls ! l))"
  using assms by (auto simp: index_of_def placed_def sorted_wrt_iff_nth_less)

lemma search_offsets:
  assumes d: "index_of d ls" and ls: "ls \<noteq> []"
  obtains r where "SearchBytesFixed (xi_offsets d) 4 (key_not_below d key) = Inr (4 * int r)" "r < length ls"
    "\<And>k. k < r \<Longrightarrow> sect_key (snd (ls ! k)) < key" "key \<le> sect_key (snd (ls ! r)) \<or> r = length ls - 1"
proof -
  let ?cs = "map (\<lambda>x. put_u32 (of_nat (fst x))) ls"
  define q where "q c = (key_not_below d key c = Inr True)" for c
  have q: "q (?cs ! k) \<longleftrightarrow> key \<le> sect_key (snd (ls ! k))" if "k < length ls" for k
    using key_not_below_eq [OF d nth_mem, OF that] that by (simp add: q_def)
  have fn: "key_not_below d key c = Inr (q c)" if "c \<in> set ?cs" for c
    using that key_not_below_eq [OF d] by (auto simp: q_def)
  have mono: "q (?cs ! l)" if "k \<le> l" "l < length ?cs" "q (?cs ! k)" for k l
    using that q [of k] q [of l] index_of_sorted [OF d, of k l] by (cases "k = l") auto
  have "\<exists>r. SearchBytesFixed (concat ?cs) 4 (key_not_below d key) = Inr (int (4 * r)) \<and>
      r < length ?cs \<and> (\<forall>k < r. \<not> q (?cs ! k)) \<and> (q (?cs ! r) \<or> r = length ?cs - 1)"
  proof (rule SearchBytesFixed_records [OF records_offsets])
    show "?cs \<noteq> []" using ls by simp
  qed (fact fn, fact mono)
  then obtain r where r: "SearchBytesFixed (concat ?cs) 4 (key_not_below d key) = Inr (int (4 * r))" "r < length ?cs"
      "\<forall>k < r. \<not> q (?cs ! k)" "q (?cs ! r) \<or> r = length ?cs - 1"
    by blast
  show ?thesis
  proof (rule that [of r])
    show "SearchBytesFixed (xi_offsets d) 4 (key_not_below d key) = Inr (4 * int r)"
      using r(1) d by (simp add: index_of_def ofs_bytes_def)
    show "sect_key (snd (ls ! k)) < key" if "k < r" for k
      using r(2,3) q [of k] that by (simp add: not_le)
    show "key \<le> sect_key (snd (ls ! r)) \<or> r = length ls - 1"
      using r(2,4) q [of r] by simp
  qed (use r(2) in simp)
qed

lemma search_eq:
  assumes d: "index_of d ls"
  shows "xi_search key d = Inr (case look ls key of None \<Rightarrow> int (length (xi_b d)) | Some x \<Rightarrow> int (fst x))"
proof (cases "xi_ContainsKey key d \<and> ls \<noteq> []")
  case False
  then have "look ls key = None"
    using d by (auto simp: look_None index_of_def xi_ContainsKey_def)
  then show ?thesis using False d by (auto simp: xi_search_def index_of_def ofs_bytes_def)
next
  case True
  then obtain r where r: "SearchBytesFixed (xi_offsets d) 4 (key_not_below d key) = Inr (4 * int r)" "r < length ls"
    "\<And>k. k < r \<Longrightarrow> sect_key (snd (ls ! k)) < key" "key \<le> sect_key (snd (ls ! r)) \<or> r = length ls - 1"
    using search_offsets [OF d] by metis
  let ?x = "ls ! r"
  have x: "?x \<in> set ls" using r(2) by simp
  obtain pre rest where b: "xi_b d = pre @ sect_bytes (snd ?x) @ rest" "length pre = fst ?x" and s: "wf_sect (snd ?x)"
    and o: "uint (of_nat (fst ?x) :: u32) = int (fst ?x)"
    by (rule index_of_member [OF d x])
  have "xi_offsets d = ofs_bytes ls" using d by (simp add: index_of_def)
  then have eq: "xi_search key d = Inr (if key \<noteq> sect_key (snd ?x) then int (length (xi_b d)) else int (fst ?x))"
    using True r(1,2) offset_slice [OF r(2)] o b s by (simp add: xi_search_def)
  show ?thesis
  proof (cases "key = sect_key (snd ?x)")
    case True
    then have "look ls key = Some ?x" using look_member [of ls ?x] x d by (simp add: index_of_def placed_def)
    then show ?thesis using eq True by simp
  next
    case False
    have "look ls key = None"
      unfolding look_None
    proof
      fix y assume "y \<in> set ls"
      then obtain k where k: "k < length ls" "y = ls ! k" by (auto simp: in_set_conv_nth)
      consider "k < r" | "k = r" | "r < k" by linarith
      then show "sect_key (snd y) \<noteq> key"
      proof cases
        case 3
        then have "key \<le> sect_key (snd ?x)" using r(4) k by auto
        then show ?thesis using index_of_sorted [OF d 3 k(1)] k by auto
      qed (use r(3) [of k] False k in auto)
    qed
    then show ?thesis using eq False by simp
  qed
qed

lemma readEntriesAt_eq:
  assumes "index_of d ls" "x \<in> set ls"
  shows "xi_readEntriesAt (int (fst x)) d = Inr (sect_key (snd x), sect_entries (snd x))"
    and "bind_result (slice_from (xi_b d) (int (fst x))) readKey = Inr (2 + int (length (sect_key (snd x))), sect_key (snd x))"
    and "slice_from (xi_b d) (int (fst x) + (2 + int (length (sect_key (snd x))))) \<noteq> Inl Panic"
proof -
  obtain pre rest where b: "xi_b d = pre @ sect_bytes (snd x) @ rest" "length pre = fst x" and s: "wf_sect (snd x)"
    by (rule index_of_member [OF assms])
  let ?k = "sect_key (snd x)"
  show key: "bind_result (slice_from (xi_b d) (int (fst x))) readKey = Inr (2 + int (length ?k), ?k)"
    using b s by simp
  have tail: "slice_from (xi_b d) (int (fst x) + (2 + int (length ?k))) = Inr (sect_tail (snd x) @ rest)"
    using slice_from_append [of "int (fst x) + (2 + int (length ?k))" "pre @ put_u16 (of_nat (length ?k)) @ ?k"]
    unfolding b(1) sect_bytes_split by (simp add: b(2))
  then show "slice_from (xi_b d) (int (fst x) + (2 + int (length ?k))) \<noteq> Inl Panic" by simp
  show "xi_readEntriesAt (int (fst x)) d = Inr (?k, sect_entries (snd x))"
    using key tail s by (simp add: xi_readEntriesAt_def split_beta)
qed

definition entries_for :: "(nat \<times> sect) list \<Rightarrow> bytes \<Rightarrow> IndexEntry list" where
  "entries_for ls key = (case look ls key of None \<Rightarrow> [] | Some x \<Rightarrow> sect_entries (snd x))"

lemma ReadEntries_eq:
  assumes d: "index_of d ls"
  shows "xi_ReadEntries key d = Inr (entries_for ls key)"
proof (cases "look ls key")
  case None
  then show ?thesis using search_eq [OF d, of key] by (simp add: xi_ReadEntries_def entries_for_def)
next
  case (Some x)
  then have x: "x \<in> set ls" "sect_key (snd x) = key" using look_Some by auto
  obtain pre rest where "xi_b d = pre @ sect_bytes (snd x) @ rest" "length pre = fst x"
    by (rule index_of_member [OF d x(1)])
  then have "int (fst x) < int (length (xi_b d))" by (simp add: length_sect_bytes)
  then show ?thesis
    using search_eq [OF d, of key] readEntriesAt_eq(1) [OF d x(1)] x(2) Some by (simp add: xi_ReadEntries_def entries_for_def)
qed

lemma KeyCount_eq [simp]: "index_of d ls \<Longrightarrow> xi_KeyCount d = length ls"
  by (simp add: xi_KeyCount_def index_of_def)

lemma offset_eq:
  assumes "index_of d ls" "i < length ls"
  shows "xi_offset (int i) d = Inr (int (fst (ls ! i)))"
proof -
  have "uint (of_nat (fst (ls ! i)) :: u32) = int (fst (ls ! i))"
    by (rule index_of_member [OF assms(1) nth_mem [OF assms(2)]])
  then show ?thesis
    using assms offset_slice [OF assms(2)] by (simp add: xi_offset_def index_of_def mult.commute)
qed

lemma searchOffset_eq:
  assumes d: "index_of d ls"
  obtains r where "xi_searchOffset key d = Inr (int r)" "r \<le> length ls" "\<And>k. k < r \<Longrightarrow> sect_key (snd (ls ! k)) < key"
proof (cases "ls = []")
  case True
  then show ?thesis using that [of 0] d by (simp add: xi_searchOffset_def index_of_def ofs_bytes_def)
next
  case False
  then obtain r where r: "SearchBytesFixed (xi_offsets d) 4 (key_not_below d key) = Inr (4 * int r)" "r < length ls"
    "\<And>k. k < r \<Longrightarrow> sect_key (snd (ls ! k)) < key"
    using search_offsets [OF d] by metis
  then show ?thesis using that [of r] d by (simp add: xi_searchOffset_def index_of_def)
qed

lemma Key_eq:
  assumes d: "index_of d ls" and i: "i < length ls"
  shows "xi_Key (int i) d = Inr (snd (ls ! i))"
    and "xi_KeyAt (int i) d = Inr (sect_key (snd (ls ! i)), sect_type (snd (ls ! i)))"
proof -
  let ?x = "ls ! i" let ?k = "sect_key (snd ?x)"
  have x: "?x \<in> set ls" using i by simp
  obtain pre rest where b: "xi_b d = pre @ sect_bytes (snd ?x) @ rest" "length pre = fst ?x" and s: "wf_sect (snd ?x)"
    and le: "length (xi_b d) < 2 ^ 31" "fst ?x + length (sect_bytes (snd ?x)) \<le> length (xi_b d)"
    and o: "uint (of_nat (fst ?x) :: u32) = int (fst ?x)"
    by (rule index_of_member [OF d x])
  have b': "xi_b d = (pre @ put_u16 (of_nat (length ?k)) @ ?k) @ sect_tail (snd ?x) @ rest"
    unfolding b(1) sect_bytes_split by simp
  have tail: "slice_from (xi_b d) (int (fst ?x) + (2 + int (length ?k))) = Inr (sect_tail (snd ?x) @ rest)"
    unfolding b' by (rule slice_from_append) (simp add: b(2))
  have ty: "index_at (xi_b d) (int (fst ?x) + (2 + int (length ?k))) = Inr (sect_type (snd ?x))"
    using index_at_middle [of "int (fst ?x) + (2 + int (length ?k))" "pre @ put_u16 (of_nat (length ?k)) @ ?k" "sect_type (snd ?x)"]
    unfolding b' sect_tail_def by (simp add: b(2))
  have ofs: "xi_offsets d = ofs_bytes ls" using d by (simp add: index_of_def)
  note key = readEntriesAt_eq(2) [OF d x]
  show "xi_Key (int i) d = Inr (snd ?x)"
    using i offset_slice [OF i] key tail ty o s by (simp add: xi_Key_def ofs mult.commute split_beta)
  show "xi_KeyAt (int i) d = Inr (?k, sect_type (snd ?x))"
    using i offset_slice [OF i] key ty o le by (simp add: xi_KeyAt_def ofs mult.commute length_sect_bytes)
qed

lemma Type_eq:
  assumes d: "index_of d ls"
  shows "xi_Type key d = (case look ls key of None \<Rightarrow> Inl ErrKeyNotFound | Some x \<Rightarrow> Inr (sect_type (snd x)))"
proof (cases "look ls key")
  case None
  then show ?thesis using search_eq [OF d, of key] by (simp add: xi_Type_def)
next
  case (Some x)
  then have x: "x \<in> set ls" "sect_key (snd x) = key" using look_Some by auto
  then obtain i where i: "i < length ls" "x = ls ! i" by (auto simp: in_set_conv_nth)
  obtain pre rest where b: "xi_b d = pre @ sect_bytes (snd x) @ rest" "length pre = fst x"
    by (rule index_of_member [OF d x(1)])
  have "index_at (xi_b d) (int (fst x) + (2 + int (length (sect_key (snd x))))) = Inr (sect_type (snd x))"
    using index_at_middle [of "int (fst x) + (2 + int (length (sect_key (snd x))))" "pre @ put_u16 (of_nat (length (sect_key (snd x)))) @ sect_key (snd x)" "sect_type (snd x)"]
    unfolding b(1) sect_bytes_split sect_tail_def by (simp add: b(2))
  moreover have "int (fst x) < int (length (xi_b d))" using b by (simp add: length_sect_bytes)
  ultimately show ?thesis
    using search_eq [OF d, of key] readEntriesAt_eq(2) [OF d x(1)] Some by (simp add: xi_Type_def)
qed

section \<open>Loading any bytes\<close>

lemma i32_wrap: "2 ^ 31 \<le> x \<Longrightarrow> x < 2 ^ 32 \<Longrightarrow> i32 x = x - 2 ^ 32"
proof -
  assume x: "2 ^ 31 \<le> x" "x < 2 ^ 32"
  have "i32 x = i32 (x - 2 ^ 32)"
    unfolding i32_def using signed_take_bit_add [of 31 "x - 2 ^ 32" "2 ^ 32"]
    by (simp add: signed_take_bit_eq_take_bit_shift)
  then show ?thesis using x by simp
qed

lemma i32_numerals:
  "- 2147483648 \<le> x \<Longrightarrow> x < 2147483648 \<Longrightarrow> i32 x = x"
  "2147483648 \<le> x \<Longrightarrow> x < 4294967296 \<Longrightarrow> i32 x = x - 4294967296"
  "i32 x < 2147483648"
  using i32_wrap [of x] i32_id [of x] i32_bounds(2) [of x] by simp_all

lemma i32_nonneg: "0 \<le> x \<Longrightarrow> x < 4294967296 \<Longrightarrow> 0 \<le> i32 x \<Longrightarrow> i32 x = x"
  using i32_numerals(1,2) [of x] by linarith

lemma subslice_not_Diverged [simp]: "subslice b lo hi \<noteq> Inl Diverged" "slice_from b lo \<noteq> Inl Diverged"
  by (simp_all add: subslice_def slice_from_def)

lemma bind_result_InlE:
  "bind_result r f = Inl e \<Longrightarrow> (r = Inl e \<Longrightarrow> P) \<Longrightarrow> (\<And>x. r = Inr x \<Longrightarrow> f x = Inl e \<Longrightarrow> P) \<Longrightarrow> P"
  by (cases r) auto

lemma readKey_not_Diverged: "readKey b \<noteq> Inl Diverged"
  by (auto simp: readKey_def Let_def elim!: bind_result_InlE)

lemma unmarshal_key_not_Diverged: "unmarshal_key b i mn mx \<noteq> Inl Diverged"
  by (auto simp: unmarshal_key_def Let_def split: if_split_asm elim!: bind_result_InlE)

lemma unmarshal_key_progress:
  assumes "unmarshal_key b i mn mx = Inr (i', mn', mx')" and i: "i < 2147483648"
  shows "0 \<le> i \<and> (i < i' \<or> i' < 0)"
proof -
  have "\<exists>l. subslice b i (i32 (i + 2)) = Inr l \<and> (let i1 = i32 (i + (3 + uint (get_u16 l))); i2 = i32 (i1 + 2)
      in \<exists>c x. subslice b i1 (i32 (i1 + 2)) = Inr c \<and> subslice b i2 (i32 (i2 + 8)) = Inr x \<and>
         (let i3 = i32 (i2 + i32 ((uint (get_u16 c) - 1) * 28))
          in \<exists>y. subslice b (i32 (i3 + 8)) (i32 (i3 + 16)) = Inr y \<and> i' = i32 (i3 + 28)))"
    using assms(1)
    by (auto simp: unmarshal_key_def Let_def sst_sizes bind_result_eq_Inr simp del: i32_id not_le not_less split: if_split_asm)
  then obtain l c x y i1 i2 i3 where l: "subslice b i (i32 (i + 2)) = Inr l" and i1: "i1 = i32 (i + (3 + uint (get_u16 l)))"
    and c: "subslice b i1 (i32 (i1 + 2)) = Inr c" and i2: "i2 = i32 (i1 + 2)"
    and x: "subslice b i2 (i32 (i2 + 8)) = Inr x" and i3: "i3 = i32 (i2 + i32 ((uint (get_u16 c) - 1) * 28))"
    and y: "subslice b (i32 (i3 + 8)) (i32 (i3 + 16)) = Inr y" and i': "i' = i32 (i3 + 28)"
    unfolding Let_def by blast
  have u: "0 \<le> uint (get_u16 w)" "uint (get_u16 w) < 65536" for w using uint_bounded [of "get_u16 w"] by auto
  have i0: "0 \<le> i" using slice_InrD [OF l] by simp
  have "0 \<le> i1" using slice_InrD [OF c] by simp
  then have i1': "i1 = i + (3 + uint (get_u16 l))" using i i0 u [of l] unfolding i1 by (intro i32_nonneg) linarith+
  have "0 \<le> i2" using slice_InrD [OF x] by simp
  then have i2': "i2 = i1 + 2" using i1 i32_numerals(3) [of "i + (3 + uint (get_u16 l))"] \<open>0 \<le> i1\<close> unfolding i2
    by (intro i32_nonneg) linarith+
  define n where "n = (uint (get_u16 c) - 1) * 28"
  have n: "- 28 \<le> n" "n < 2097152" using u [of c] by (simp_all add: n_def)
  then have "i32 n = n" by (intro i32_numerals(1)) linarith+
  then have i3': "i3 = i32 (i2 + n)" using i3 by (simp add: n_def)
  have i2b: "i2 < 2147483648" "5 \<le> i2" using i2 i32_numerals(3) [of "i1 + 2"] i2' i1' i0 u(1) [of l] by linarith+
  have "i3 = i2 + n"
  proof (rule ccontr)
    assume ne: "i3 \<noteq> i2 + n"
    then have "2147483648 \<le> i2 + n" using i3' i32_numerals(1) [of "i2 + n"] i2b n by linarith
    then have "i3 = i2 + n - 4294967296" using i3' i32_numerals(2) [of "i2 + n"] i2b n by linarith
    then have "i32 (i3 + 8) < 0" using i2b n i32_numerals(1) [of "i3 + 8"] \<open>2147483648 \<le> i2 + n\<close> by linarith
    then show False using slice_InrD [OF y] by simp
  qed
  then have "i3 + 28 < 4294967296" "i < i3 + 28" using i2b n i2' i1' u(1) [of l] by linarith+
  then show ?thesis using i' i0 i32_nonneg [of "i3 + 28"] by (cases "0 \<le> i'") linarith+
qed

lemma unmarshal_loop_not_Diverged:
  "0 < f \<Longrightarrow> i < 0 \<or> int (length b) - i + 1 < int f \<Longrightarrow> i < 2147483648 \<Longrightarrow> unmarshal_loop f b i offs mn mx \<noteq> Inl Diverged"
proof (induction f arbitrary: i offs mn mx)
  case (Suc f)
  show ?case
  proof (cases "i < i32 (int (length b))")
    case True
    have le: "i32 (int (length b)) \<le> int (length b)"
      using i32_numerals(1) [of "int (length b)"] i32_numerals(3) [of "int (length b)"] by linarith
    have "unmarshal_loop f b i' (offs @ [i]) mn' mx' \<noteq> Inl Diverged"
      if "unmarshal_key b i mn mx = Inr (i', mn', mx')" for i' mn' mx'
    proof -
      have p: "0 \<le> i" "i < i' \<or> i' < 0" using unmarshal_key_progress [OF that] Suc.prems(3) by auto
      have "i' < 2147483648" using that by (auto simp: unmarshal_key_def Let_def i32_numerals(3) split: if_splits elim!: bind_result_InrE)
      then show ?thesis using Suc.IH [of i'] Suc.prems p True le by auto
    qed
    then show ?thesis
      using True unmarshal_key_not_Diverged [of b i mn mx] by (auto elim!: bind_result_InlE)
  qed simp
qed simp

lemma UnmarshalBinary_not_Diverged: "xi_UnmarshalBinary b d \<noteq> Inl Diverged"
proof -
  have "unmarshal_loop (length b + 2) b 0 [] max_int64 0 \<noteq> Inl Diverged"
    by (rule unmarshal_loop_not_Diverged) simp_all
  then show ?thesis
    unfolding xi_UnmarshalBinary_def Let_def
    by (auto simp del: unmarshal_loop.simps simp: readKey_not_Diverged split: if_split_asm elim!: bind_result_InlE)
qed

text \<open>
  C31: Loading an index section always ends. For every byte slice, well formed or not and of any length,
  \<open>UnmarshalBinary\<close> returns an index, an error or panics; its loop over an \<open>int32\<close> position never runs
  forever, because every round advances the position, and a position that wraps around is negative and
  out of bounds.
\<close>

theorem index_load_terminates: "xi_UnmarshalBinary b d \<noteq> Inl Diverged"
  by (rule UnmarshalBinary_not_Diverged)

end
