(* ===== verification/SstDelete.thy ===== *)
theory SstDelete
  imports SstLayout
begin

text \<open>
  Deletions in the index of an SST file: \<open>Delete\<close> removes exactly the given keys, and \<open>DeleteRange\<close>
  makes exactly the values of the given keys and times disappear, whether it does so by dropping the
  key, by a tombstone, or because the tombstones of several calls together cover the key.
\<close>

section \<open>Delete\<close>

lemma sorted_keys_sorted: "sorted (sorted_keys keys)" "set (sorted_keys keys) = set keys" "sorted_keys keys = [] \<longleftrightarrow> keys = []"
proof -
  show "sorted (sorted_keys keys)" and s: "set (sorted_keys keys) = set keys"
    by (auto simp: sorted_keys_def IsSorted_iff Sort_def)
  show "sorted_keys keys = [] \<longleftrightarrow> keys = []" using s by (metis set_empty)
qed

lemma sorted_skip:
  assumes "sorted keys" and "ys = dropWhile (\<lambda>k. bytes_Compare k x < 0) keys"
  shows "set ys = {k \<in> set keys. x \<le> k}" "sorted ys" "ys \<noteq> [] \<and> hd ys = x \<longleftrightarrow> x \<in> set keys"
    and "y > x \<Longrightarrow> hd ys = x \<Longrightarrow> y \<in> set (tl ys) \<longleftrightarrow> y \<in> set keys" "sorted (tl ys)"
proof -
  have ys: "ys = filter (\<lambda>k. x \<le> k) keys"
    unfolding assms(2) using assms(1)
  proof (induction keys)
    case (Cons a keys)
    then have "x \<le> a \<Longrightarrow> filter (\<lambda>k. x \<le> k) keys = keys" by (auto simp: filter_id_conv)
    then show ?case using Cons by (cases "a < x") (simp_all add: not_less not_le)
  qed simp
  then show s: "set ys = {k \<in> set keys. x \<le> k}" and sy: "sorted ys" "sorted (tl ys)"
    using assms by (auto simp: sorted_wrt_filter intro: sorted_tl)
  show "ys \<noteq> [] \<and> hd ys = x \<longleftrightarrow> x \<in> set keys"
  proof
    assume "ys \<noteq> [] \<and> hd ys = x"
    then have "x \<in> set ys" by (metis hd_in_set)
    then show "x \<in> set keys" using s by simp
  next
    assume "x \<in> set keys"
    then have x: "x \<in> set ys" using s by simp
    then have ne: "ys \<noteq> []" by auto
    then have "hd ys \<le> x" using x sy(1) by (cases ys) auto
    moreover have "x \<le> hd ys" using s hd_in_set [OF ne] by auto
    ultimately show "ys \<noteq> [] \<and> hd ys = x" using ne by simp
  qed
  show "y \<in> set (tl ys) \<longleftrightarrow> y \<in> set keys" if "y > x" "hd ys = x"
    using s that by (cases ys) auto
qed

definition blanked :: "bytes list \<Rightarrow> nat \<times> sect \<Rightarrow> bytes" where
  "blanked keys x = (if sect_key (snd x) \<in> set keys then nilOffset else put_u32 (of_nat (fst x)))"

lemma delete_loop_eq:
  assumes "\<And>x. x \<in> set ls \<Longrightarrow> key_at b (put_u32 (of_nat (fst x))) = Inr (sect_key (snd x))"
    and "sorted_wrt (<) (map (\<lambda>x. sect_key (snd x)) ls)" and "sorted keys"
  shows "delete_loop b keys (length p) (p @ ofs_bytes ls) = Inr (p @ concat (map (blanked keys) ls))"
  using assms
proof (induction ls arbitrary: keys p)
  case Nil
  then show ?case by (simp add: delete_loop.simps ofs_bytes_def)
next
  case (Cons x ls)
  let ?k = "sect_key (snd x)" and ?o = "put_u32 (of_nat (fst x)) :: bytes"
  have ofs: "ofs_bytes (x # ls) = ?o @ ofs_bytes ls" by (simp add: ofs_bytes_def)
  show ?case
  proof (cases "keys = []")
    case True
    then show ?thesis by (simp add: delete_loop.simps blanked_def [abs_def] ofs_bytes_def)
  next
    case False
    define ys where "ys = dropWhile (\<lambda>k. bytes_Compare k ?k < 0) keys"
    note ys = sorted_skip [OF Cons.prems(3) ys_def]
    have above: "?k < sect_key (snd z)" if "z \<in> set ls" for z using that Cons.prems(2) by simp
    have at: "key_at b (take 4 (drop (length p) (p @ ?o @ ofs_bytes ls))) = Inr ?k"
      using Cons.prems(1) [of x] by simp
    have IH: "delete_loop b ks (length q) (q @ ofs_bytes ls) = Inr (q @ concat (map (blanked ks) ls))" if "sorted ks" for ks q
      using Cons.IH [OF _ _ that] Cons.prems by simp
    have same: "map (blanked ys) ls = map (blanked keys) ls" "?k \<in> set keys \<Longrightarrow> map (blanked (tl ys)) ls = map (blanked keys) ls"
      using ys above by (auto simp: blanked_def less_imp_le)
    have step: "delete_loop b keys (length p) (p @ ?o @ ofs_bytes ls) =
        (if ?k \<in> set keys then delete_loop b (tl ys) (length (p @ nilOffset)) ((p @ nilOffset) @ ofs_bytes ls)
         else delete_loop b ys (length (p @ ?o)) ((p @ ?o) @ ofs_bytes ls))"
    proof -
      have c: "length p + 4 \<le> length (p @ ?o @ ofs_bytes ls) \<and> keys \<noteq> []" using False by simp
      have n: "take (length p) (p @ ?o @ ofs_bytes ls) @ nilOffset @ drop (length p + 4) (p @ ?o @ ofs_bytes ls) = (p @ nilOffset) @ ofs_bytes ls"
        "length p + 4 = length (p @ nilOffset)" "length p + 4 = length (p @ ?o)" "p @ ?o @ ofs_bytes ls = (p @ ?o) @ ofs_bytes ls"
        by (simp_all add: nilOffset_def)
      show ?thesis
        unfolding delete_loop.simps [of b keys "length p"] if_P [OF c] at bind_result_simps Let_def ys_def [symmetric] ys(3) n(1)
        using n(2-4) by (simp only: if_cancel)
    qed
    show ?thesis
      unfolding ofs step IH [OF ys(5)] IH [OF ys(2)]
      by (cases "?k \<in> set keys") (use same in \<open>simp_all add: blanked_def [of keys x] cong: map_cong\<close>)
  qed
qed

lemma hd_put_u32:
  assumes "n < 2 ^ 31"
  shows "hd (put_u32 (of_nat n)) \<noteq> 255"
proof -
  let ?w = "of_nat n :: u32"
  have "hd (put_u32 ?w) = ucast (drop_bit 24 ?w)"
    by (simp add: numeral_eq_Suc drop_bit_drop_bit del: drop_bit_of_nat)
  moreover have "\<not> bit ?w 31" 
  proof -
    have "unat ?w < 2 ^ 31" using assms by (simp add: unat_of_nat)
    then have "take_bit 31 ?w = ?w" by (intro take_bit_word_id) (simp_all add: word_less_nat_alt)
    then show ?thesis by (metis bit_take_bit_iff less_irrefl)
  qed
  ultimately have "\<not> bit (hd (put_u32 ?w)) 7" by (simp add: bit_simps)
  moreover have "bit (255 :: byte) 7" by simp
  ultimately show ?thesis by metis
qed

definition without :: "bytes list \<Rightarrow> (nat \<times> sect) list \<Rightarrow> (nat \<times> sect) list" where
  "without keys ls = filter (\<lambda>x. sect_key (snd x) \<notin> set keys) ls"

lemma Delete_eq:
  assumes d: "index_of d ls"
  shows "xi_Delete keys d = Inr (d\<lparr>xi_offsets := ofs_bytes (without keys ls)\<rparr>)"
proof (cases "keys = []")
  case True
  then show ?thesis using d by (simp add: xi_Delete_def index_of_def without_def)
next
  case False
  define ks where "ks = sorted_keys keys"
  have ks: "ks \<noteq> []" "sorted ks" "set ks = set keys" using False sorted_keys_sorted [of keys] by (auto simp: ks_def)
  obtain r where r: "xi_searchOffset (hd ks) d = Inr (int r)" "r \<le> length ls" "\<And>k. k < r \<Longrightarrow> sect_key (snd (ls ! k)) < hd ks"
    using searchOffset_eq [OF d, of "hd ks"] by metis
  have at: "key_at (xi_b d) (put_u32 (of_nat (fst x))) = Inr (sect_key (snd x))" if "x \<in> set ls" for x
  proof -
    have "uint (of_nat (fst x) :: u32) = int (fst x)" by (rule index_of_member [OF d that])
    then show ?thesis using readEntriesAt_eq(2) [OF d that] by (simp add: key_at_def)
  qed
  have srt: "sorted_wrt (<) (map (\<lambda>x. sect_key (snd x)) (drop r ls))"
    using d by (simp add: index_of_def placed_def sorted_wrt_drop flip: drop_map)
  have low: "blanked ks x = put_u32 (of_nat (fst x))" if "x \<in> set (take r ls)" for x
  proof -
    obtain k where "k < r" "x = ls ! k" using \<open>x \<in> set (take r ls)\<close> r(2) by (auto simp: in_set_conv_nth)
    then have "sect_key (snd x) < hd ks" using r(3) by simp
    then show ?thesis using ks(1,2) by (cases ks) (auto simp: blanked_def)
  qed
  have split: "xi_offsets d = ofs_bytes (take r ls) @ ofs_bytes (drop r ls)"
    using d append_take_drop_id [of r ls] unfolding index_of_def ofs_bytes_def by (metis concat_append map_append)
  have "length (ofs_bytes (take r ls)) = r * 4" using r(2) by simp
  then have "delete_loop (xi_b d) ks (r * 4) (xi_offsets d) = Inr (ofs_bytes (take r ls) @ concat (map (blanked ks) (drop r ls)))"
    using delete_loop_eq [OF at srt ks(2), of "ofs_bytes (take r ls)"] in_set_dropD split by metis
  also have "ofs_bytes (take r ls) = concat (map (blanked ks) (take r ls))"
    using low by (simp add: ofs_bytes_def cong: map_cong)
  finally have loop: "delete_loop (xi_b d) ks (r * 4) (xi_offsets d) = Inr (concat (map (blanked ks) ls))"
    by (metis append_take_drop_id concat_append map_append)
  have "hd (blanked ks x) \<noteq> 255 \<longleftrightarrow> sect_key (snd x) \<notin> set keys" if "x \<in> set ls" for x
  proof -
    have "fst x < 2 ^ 31" by (rule index_of_member [OF d that]) (simp add: length_sect_bytes)
    then show ?thesis using ks(3) hd_put_u32 [of "fst x"] by (simp add: blanked_def nilOffset_def)
  qed
  then have "filter (\<lambda>c. hd c \<noteq> 255) (map (blanked ks) ls) = map (\<lambda>x. put_u32 (of_nat (fst x))) (without keys ls)"
    unfolding without_def using ks(3) by (induction ls) (auto simp: blanked_def)
  moreover have "records 4 (map (blanked ks) ls)" by (auto simp: records_def blanked_def nilOffset_def)
  ultimately have "Pack (concat (map (blanked ks) ls)) 4 255 = Inr (ofs_bytes (without keys ls))"
    by (simp add: Pack_records ofs_bytes_def)
  then show ?thesis using False r(1) loop by (simp add: xi_Delete_def flip: ks_def)
qed

lemma index_of_without: "index_of d ls \<Longrightarrow> index_of (d\<lparr>xi_offsets := ofs_bytes (without keys ls)\<rparr>) (without keys ls)"
  by (auto simp: index_of_def placed_def without_def sorted_wrt_map sorted_wrt_filter)

lemma look_without: "look (without keys ls) k = (if k \<in> set keys then None else look ls k)"
  unfolding look_def without_def by (induction ls) auto

section \<open>Tombstones\<close>

abbreviation covers :: "TimeRange \<Rightarrow> int \<Rightarrow> bool" where
  "covers t x \<equiv> sint (tr_Min t) \<le> x \<and> x \<le> sint (tr_Max t)"

lemma sort_tombs_props:
  shows "set (sort_tombs ts) = set ts" "sorted (map (\<lambda>t. sint (tr_Min t)) (sort_tombs ts))" "sort_tombs ts = [] \<longleftrightarrow> ts = []"
proof -
  show s: "set (sort_tombs ts) = set ts" by (simp add: sort_tombs_def)
  show "sort_tombs ts = [] \<longleftrightarrow> ts = []" using s by (metis set_empty)
  show "sorted (map (\<lambda>t. sint (tr_Min t)) (sort_tombs ts))"
  proof (cases "1 < length ts \<and> \<not> tomb_sorted ts")
    case False
    have "sorted (map (\<lambda>t. sint (tr_Min t)) ts)"
    proof (cases "1 < length ts")
      case True
      have le: "sint (tr_Min a) \<le> sint (tr_Min b)" if "\<not> tomb_less b a" for a b
        using that by (auto simp: tomb_less_def split: if_splits)
      show ?thesis
        using True False le by (auto simp: tomb_sorted_def sorted_iff_nth_Suc less_diff_conv)
    next
      case False
      then show ?thesis by (cases ts; cases "tl ts") auto
    qed
    then show ?thesis using False by (auto simp: sort_tombs_def)
  qed (simp add: sort_tombs_def)
qed

text \<open>The window is covered by the tombstones it was grown from, unless a gap was found.\<close>

lemma word_pred_sint: "(a :: u64) = b - 1 \<Longrightarrow> sint b = sint a + 1 \<or> a = max_int64"
proof -
  assume "a = b - 1"
  then have b: "b = a + 1" by simp
  show ?thesis
  proof (cases "a = max_int64")
    case False
    then have "sint a \<noteq> sint (max_int64 :: u64)" using signed_word_eqI by blast
    moreover have "sint (max_int64 :: u64) = 2 ^ 63 - 1" by (simp add: max_int64_def)
    ultimately have "sint a + 1 < 2 ^ 63" using sint_lt [of a] by simp
    then have "sint (a + 1) = sint a + 1"
      using sint_ge [of a] unfolding sint_word_ariths by (simp add: signed_take_bit_int_eq_self)
    then show ?thesis using b by simp
  qed simp
qed

lemma window_covered:
  assumes "sorted (map (\<lambda>t. sint (tr_Min t)) (p # rest))" "set rest \<subseteq> S"
    and "sint a \<le> sint (tr_Min p)" "sint (tr_Max p) \<le> sint b"
    and "\<And>x. sint a \<le> x \<Longrightarrow> x \<le> sint b \<Longrightarrow> \<exists>t \<in> S. covers t x"
    and "window p rest a b = (A, B)"
  shows "A = max_int64 \<and> B = min_int64 \<or> (\<forall>x. sint A \<le> x \<and> x \<le> sint B \<longrightarrow> (\<exists>t \<in> S. covers t x))"
  using assms
proof (induction rest arbitrary: p a b)
  case (Cons t rest)
  show ?case
  proof (cases "tr_Max p \<noteq> tr_Min t - 1 \<and> \<not> tr_Overlaps p (tr_Min t) (tr_Max t)")
    case True
    then show ?thesis using Cons.prems(6) by simp
  next
    case False
    have mono: "sint (tr_Min p) \<le> sint (tr_Min t)" using Cons.prems(1) by simp
    have near: "sint (tr_Min t) \<le> sint b + 1 \<or> (2 :: int) ^ 63 - 1 \<le> sint b"
    proof (cases "tr_Max p = tr_Min t - 1")
      case True
      have "sint (max_int64 :: u64) = 2 ^ 63 - 1" by (simp add: max_int64_def)
      then show ?thesis using word_pred_sint [OF True] Cons.prems(4) by auto
    next
      case no: False
      then show ?thesis using False Cons.prems(4) by (simp add: tr_Overlaps_def)
    qed
    define b' where "b' = (if sint b < sint (tr_Max t) then tr_Max t else b)"
    have b': "sint b \<le> sint b'" "sint (tr_Max t) \<le> sint b'" by (auto simp: b'_def)
    have "\<exists>u \<in> S. covers u x" if x: "sint a \<le> x" "x \<le> sint b'" for x
    proof (cases "x \<le> sint b")
      case True
      then show ?thesis using Cons.prems(5) x by simp
    next
      case False
      then have "sint b < sint (tr_Max t)" "x \<le> sint (tr_Max t)" using x by (auto simp: b'_def split: if_splits)
      moreover have "sint (tr_Min t) \<le> x" using near False sint_lt [of b'] x by auto
      ultimately show ?thesis using Cons.prems(2) by auto
    qed
    moreover have "\<not> sint (tr_Min t) < sint a" "sint a \<le> sint (tr_Min t)" using mono Cons.prems(3) by auto
    moreover have "window t rest a b' = (A, B)"
      using Cons.prems(6) False calculation(2) by (simp add: b'_def split: if_splits)
    ultimately show ?thesis
      using Cons.IH [of t a b'] Cons.prems(1,2) b' by simp
  qed
qed auto

lemma fully_deleted_covered:
  assumes "fully_deleted ts mn mx" "sorted (map (\<lambda>t. sint (tr_Min t)) ts)" "sint mn \<le> x" "x \<le> sint mx"
  shows "\<exists>t \<in> set ts. covers t x"
proof -
  obtain t rest where ts: "ts = t # rest" using assms(1) by (cases ts) (simp_all add: fully_deleted_def)
  obtain A B where w: "window t rest (tr_Min t) (tr_Max t) = (A, B)" by (cases "window t rest (tr_Min t) (tr_Max t)")
  have AB: "sint A \<le> sint mn" "sint mx \<le> sint B" using assms(1) w by (auto simp: fully_deleted_def ts)
  have "A = max_int64 \<and> B = min_int64 \<or> (\<forall>x. sint A \<le> x \<and> x \<le> sint B \<longrightarrow> (\<exists>t \<in> set ts. covers t x))"
    by (rule window_covered [OF _ _ _ _ _ w]) (use assms(2) ts in auto)
  moreover have "sint (max_int64 :: u64) = 2 ^ 63 - 1" "sint (min_int64 :: u64) = - (2 ^ 63)"
    by (simp_all add: max_int64_def min_int64_def)
  ultimately show ?thesis using AB assms(3,4) by force
qed

section \<open>DeleteRange\<close>

text \<open>The walk over the sections, without the two sorted lists going along.\<close>

fun range_spec :: "indirectIndex \<Rightarrow> TimeRange \<Rightarrow> bytes set \<Rightarrow> (nat \<times> sect) list \<Rightarrow> bytes list \<Rightarrow> tombs \<Rightarrow> bytes list \<times> tombs" where
  "range_spec d r K [] fullKeys tombstones = (fullKeys, tombstones)"
| "range_spec d r K (x # xs) fullKeys tombstones =
     (if sect_key (snd x) \<in> K then
        (let (full, tombstones') = range_key d r (sect_key (snd x)) (sect_entries (snd x)) tombstones
         in range_spec d r K xs (if full then fullKeys @ [sect_key (snd x)] else fullKeys) tombstones')
      else range_spec d r K xs fullKeys tombstones)"

lemma range_spec_cong:
  "(\<And>x. x \<in> set xs \<Longrightarrow> sect_key (snd x) \<in> K \<longleftrightarrow> sect_key (snd x) \<in> K') \<Longrightarrow>
   range_spec d r K xs fullKeys tombstones = range_spec d r K' xs fullKeys tombstones"
  by (induction xs arbitrary: fullKeys tombstones) (simp_all add: split_beta)

lemma range_loop_eq:
  assumes d: "index_of d ls" and "sorted keys" "i \<le> length ls"
  shows "range_loop d r i keys fullKeys tombstones = Inr (range_spec d r (set keys) (drop i ls) fullKeys tombstones)"
  using assms(2,3)
proof (induction "length ls - i" arbitrary: i keys fullKeys tombstones)
  case 0
  then show ?case using d by (simp add: range_loop.simps)
next
  case (Suc n)
  then have i: "i < length ls" by simp
  let ?x = "ls ! i" let ?k = "sect_key (snd ?x)"
  define ys where "ys = dropWhile (\<lambda>y. bytes_Compare y ?k < 0) keys"
  note ys = sorted_skip [OF Suc.prems(1) ys_def]
  have dr: "drop i ls = ?x # drop (i + 1) ls" using i by (simp add: Cons_nth_drop_Suc)
  have above: "?k < sect_key (snd z)" if "z \<in> set (drop (i + 1) ls)" for z
    using that i index_of_sorted [OF d, of i] by (fastforce simp: in_set_conv_nth)
  have IH: "range_loop d r (i + 1) ks fk ts = Inr (range_spec d r (set ks) (drop (i + 1) ls) fk ts)" if "sorted ks" for ks fk ts
    using Suc.hyps that i by simp
  have c1: "range_spec d r (set ys) (drop (i + 1) ls) fk ts = range_spec d r (set keys) (drop (i + 1) ls) fk ts" for fk ts
    using ys(1) above by (intro range_spec_cong) (auto simp: less_imp_le)
  have c2: "range_spec d r (set (tl ys)) (drop (i + 1) ls) fk ts = range_spec d r (set keys) (drop (i + 1) ls) fk ts" if "hd ys = ?k" for fk ts
    using ys(4) above that by (intro range_spec_cong) auto
  show ?case
  proof (cases "keys = []")
    case True
    have "range_spec d r {} xs fullKeys tombstones = (fullKeys, tombstones)" for xs by (induction xs) simp_all
    then show ?thesis using True by (simp add: range_loop.simps)
  next
    case False
    have at: "bind_result (xi_offset (int i) d) (\<lambda>ofs. xi_readEntriesAt ofs d) = Inr (?k, sect_entries (snd ?x))"
      using offset_eq [OF d i] readEntriesAt_eq(1) [OF d nth_mem [OF i]] by simp
    have cond: "keys \<noteq> [] \<and> i < xi_KeyCount d" using False i d by simp
    have step: "range_loop d r i keys fullKeys tombstones =
      (if ys = [] then Inr (fullKeys, tombstones)
       else if 0 < bytes_Compare (hd ys) ?k then range_loop d r (i + 1) ys fullKeys tombstones
       else let (full, tombstones') = range_key d r ?k (sect_entries (snd ?x)) tombstones
            in if full then range_loop d r (i + 1) (tl ys) (fullKeys @ [hd ys]) tombstones'
               else range_loop d r (i + 1) ys fullKeys tombstones')"
      unfolding range_loop.simps [of d r i keys] if_P [OF cond] at bind_result_simps prod.case Let_def ys_def [symmetric] ..
    consider "ys = []" | "ys \<noteq> []" "?k < hd ys" | "ys \<noteq> []" "hd ys = ?k"
      using ys(1) hd_in_set [of ys] by (cases "ys = []") (auto simp: le_less)
    then show ?thesis
    proof cases
      case 1
      then have "range_spec d r (set keys) (drop i ls) fullKeys tombstones = range_spec d r {} (drop i ls) fullKeys tombstones"
        using ys(1) above dr by (intro range_spec_cong) (auto simp: less_imp_le)
      moreover have "range_spec d r {} xs fullKeys tombstones = (fullKeys, tombstones)" for xs by (induction xs) simp_all
      ultimately show ?thesis using 1 step by simp
    next
      case 2
      then have "?k \<notin> set keys" using ys(3) by auto
      then show ?thesis using 2 step IH [OF ys(2)] c1 dr by simp
    next
      case 3
      then have "?k \<in> set keys" using ys(3) by auto
      then show ?thesis
        unfolding step dr using 3 IH [OF ys(2)] IH [OF ys(5)] c1 c2 [OF 3(2)] by (simp add: split_beta Let_def)
    qed
  qed
qed

lemma range_key_local:
  "tombstones k = None \<Longrightarrow> range_key d r k es tombstones =
     (fst (range_key d r k es Map.empty),
      case snd (range_key d r k es Map.empty) k of None \<Rightarrow> tombstones | Some v \<Rightarrow> tombstones(k \<mapsto> v))"
  by (simp add: range_key_def Let_def)

abbreviation range_sect :: "indirectIndex \<Rightarrow> TimeRange \<Rightarrow> nat \<times> sect \<Rightarrow> bool \<times> tombs" where
  "range_sect d r x \<equiv> range_key d r (sect_key (snd x)) (sect_entries (snd x)) Map.empty"

lemma look_Cons: "look (x # xs) k = (if sect_key (snd x) = k then Some x else look xs k)"
  by (simp add: look_def)

lemma range_spec_result:
  assumes "distinct (map (\<lambda>x. sect_key (snd x)) xs)" "\<forall>x \<in> set xs. tombstones (sect_key (snd x)) = None"
  shows "set (fst (range_spec d r K xs fullKeys tombstones)) =
      set fullKeys \<union> (\<lambda>x. sect_key (snd x)) ` {x \<in> set xs. sect_key (snd x) \<in> K \<and> fst (range_sect d r x)} \<and>
    (\<forall>k. snd (range_spec d r K xs fullKeys tombstones) k =
      (case look xs k of None \<Rightarrow> tombstones k | Some x \<Rightarrow> if k \<in> K then snd (range_sect d r x) k else tombstones k))"
  using assms
proof (induction xs arbitrary: fullKeys tombstones)
  case Nil
  show ?case by (simp add: look_def)
next
  case (Cons x xs)
  let ?k = "sect_key (snd x)"
  define ts where "ts = (case snd (range_sect d r x) ?k of None \<Rightarrow> tombstones | Some v \<Rightarrow> tombstones(?k \<mapsto> v))"
  have p: "distinct (map (\<lambda>x. sect_key (snd x)) xs)" "tombstones ?k = None"
      "\<forall>y \<in> set xs. tombstones (sect_key (snd y)) = None" and fresh: "\<And>y. y \<in> set xs \<Longrightarrow> sect_key (snd y) \<noteq> ?k"
    using Cons.prems by (auto simp: image_iff)
  have no: "look xs ?k = None" using fresh by (auto simp: look_None)
  have ts: "\<forall>y \<in> set xs. ts (sect_key (snd y)) = None" "ts ?k = snd (range_sect d r x) ?k" "\<And>k. k \<noteq> ?k \<Longrightarrow> ts k = tombstones k"
    using p fresh by (auto simp: ts_def split: option.split)
  have step: "range_spec d r K (x # xs) fullKeys tombstones =
      (if ?k \<in> K then range_spec d r K xs (if fst (range_sect d r x) then fullKeys @ [?k] else fullKeys) ts
       else range_spec d r K xs fullKeys tombstones)"
    using range_key_local [where d = d and r = r and es = "sect_entries (snd x)" and k = ?k and tombstones = tombstones, OF p(2)]
    by (simp add: ts_def)
  show ?case
  proof (cases "?k \<in> K")
    case True
    then show ?thesis
      unfolding step using Cons.IH [OF p(1) ts(1)] ts(2,3) no by (auto simp: look_Cons split: option.split)
  next
    case False
    then show ?thesis
      unfolding step using Cons.IH [OF p(1,3)] no by (auto simp: look_Cons split: option.split)
  qed
qed

section \<open>What a deletion leaves\<close>

text \<open>The blocks of a key follow each other in time.\<close>

definition wf_times :: "IndexEntry list \<Rightarrow> bool" where
  "wf_times es \<longleftrightarrow> (\<forall>e \<in> set es. sint (ix_MinTime e) \<le> sint (ix_MaxTime e)) \<and>
     sorted_wrt (\<lambda>a b. sint (ix_MaxTime a) < sint (ix_MinTime b)) es"

lemma wf_times_ends:
  assumes "wf_times es" "e \<in> set es"
  shows "sint (ix_MinTime (hd es)) \<le> sint (ix_MinTime e)" "sint (ix_MaxTime e) \<le> sint (ix_MaxTime (last es))"
proof -
  show "sint (ix_MinTime (hd es)) \<le> sint (ix_MinTime e)"
    using assms by (cases es) (fastforce simp: wf_times_def)+
  show "sint (ix_MaxTime e) \<le> sint (ix_MaxTime (last es))"
    using assms by (cases es rule: rev_cases) (fastforce simp: wf_times_def sorted_wrt_append)+
qed

definition index_inv :: "indirectIndex \<Rightarrow> (nat \<times> sect) list \<Rightarrow> bool" where
  "index_inv d ls \<longleftrightarrow> index_of d ls \<and>
     (\<forall>x \<in> set ls. wf_times (sect_entries (snd x)) \<and>
        (\<forall>e \<in> set (sect_entries (snd x)). sint (xi_minTime d) \<le> sint (ix_MinTime e) \<and> sint (ix_MaxTime e) \<le> sint (xi_maxTime d)))"

definition holds_time :: "(nat \<times> sect) list \<Rightarrow> bytes \<Rightarrow> u64 \<Rightarrow> bool" where
  "holds_time ls k t \<longleftrightarrow> (\<exists>e \<in> set (entries_for ls k). ix_Contains e t)"

definition deleted_at :: "indirectIndex \<Rightarrow> bytes \<Rightarrow> u64 \<Rightarrow> bool" where
  "deleted_at d k t \<longleftrightarrow> (\<exists>u \<in> set (xi_TombstoneRange k d). covers u (sint t))"

lemma ContainsValue_eq:
  assumes "index_of d ls"
  shows "xi_ContainsValue k t d = Inr (holds_time ls k t \<and> \<not> deleted_at d k t)"
proof (cases "List.find (\<lambda>e. ix_Contains e t) (entries_for ls k)")
  case None
  then have "\<not> holds_time ls k t" by (auto simp: find_None_iff holds_time_def)
  then show ?thesis
    using ReadEntries_eq [OF assms] None by (simp add: xi_ContainsValue_def xi_Entry_def xi_Entries_def)
next
  case (Some e)
  then have "holds_time ls k t" by (auto simp: find_Some_iff holds_time_def)
  then show ?thesis
    using ReadEntries_eq [OF assms] Some by (auto simp: xi_ContainsValue_def xi_Entry_def xi_Entries_def deleted_at_def)
qed

lemma index_inv_without:
  "index_inv d ls \<Longrightarrow> index_inv (d\<lparr>xi_offsets := ofs_bytes (without keys ls), xi_tombstones := ts\<rparr>) (without keys ls)"
  using index_of_without [of d ls keys] by (auto simp: index_inv_def index_of_def without_def)

lemma holds_time_without: "holds_time (without keys ls) k t \<longleftrightarrow> k \<notin> set keys \<and> holds_time ls k t"
  by (simp add: holds_time_def entries_for_def look_without)

lemma holds_time_sect:
  assumes "index_inv d ls" "holds_time ls k t"
  obtains x where "look ls k = Some x" "x \<in> set ls" "sect_key (snd x) = k" "sect_entries (snd x) \<noteq> []"
    "sint (ix_MinTime (hd (sect_entries (snd x)))) \<le> sint t" "sint t \<le> sint (ix_MaxTime (last (sect_entries (snd x))))"
    "sint (xi_minTime d) \<le> sint t" "sint t \<le> sint (xi_maxTime d)"
proof -
  obtain x e where x: "look ls k = Some x" and e: "e \<in> set (sect_entries (snd x))" "ix_Contains e t"
    using assms(2) by (cases "look ls k") (auto simp: holds_time_def entries_for_def)
  have m: "x \<in> set ls" "sect_key (snd x) = k" using look_Some [OF x] by auto
  then have w: "wf_times (sect_entries (snd x))" "sint (xi_minTime d) \<le> sint (ix_MinTime e)" "sint (ix_MaxTime e) \<le> sint (xi_maxTime d)"
    using assms(1) e(1) by (auto simp: index_inv_def)
  show ?thesis
    by (rule that [OF x m]) (use e wf_times_ends [OF w(1) e(1)] w in \<open>auto simp: ix_Contains_def\<close>)
qed

text \<open>The outcome for one section: dropping the key loses nothing that the tombstones would keep.\<close>

lemma range_sect_full:
  assumes full: "fst (range_sect d r x)" and t: "sint (ix_MinTime (hd (sect_entries (snd x)))) \<le> sint t"
      "sint t \<le> sint (ix_MaxTime (last (sect_entries (snd x))))"
  shows "covers r (sint t) \<or> deleted_at d (sect_key (snd x)) t"
proof -
  let ?mn = "ix_MinTime (hd (sect_entries (snd x)))" and ?mx = "ix_MaxTime (last (sect_entries (snd x)))"
  let ?ts = "sort_tombs (xi_TombstoneRange (sect_key (snd x)) d @ [r])"
  consider "sint (tr_Min r) \<le> sint ?mn" "sint ?mx \<le> sint (tr_Max r)" | "fully_deleted ?ts ?mn ?mx"
    using full by (auto simp: range_key_def Let_def split: if_splits)
  then show ?thesis
  proof cases
    case 2
    then obtain u where "u \<in> set ?ts" "covers u (sint t)"
      using fully_deleted_covered [OF 2 sort_tombs_props(2)] t by blast
    then show ?thesis by (auto simp: sort_tombs_props deleted_at_def)
  qed (use t in auto)
qed

lemma range_sect_tombs:
  assumes "\<not> fst (range_sect d r x)" and t: "sint (ix_MinTime (hd (sect_entries (snd x)))) \<le> sint t"
      "sint t \<le> sint (ix_MaxTime (last (sect_entries (snd x))))" "sect_entries (snd x) \<noteq> []"
  shows "(case snd (range_sect d r x) (sect_key (snd x)) of
      None \<Rightarrow> \<not> covers r (sint t)
    | Some ts \<Rightarrow> (\<exists>u \<in> set ts. covers u (sint t)) \<longleftrightarrow> covers r (sint t) \<or> deleted_at d (sect_key (snd x)) t)"
  using assms by (auto simp: range_key_def Let_def sort_tombs_props deleted_at_def split: if_splits)

lemma DeleteRange_exact:
  assumes d: "index_inv d ls"
  shows "\<exists>d' ls'. xi_DeleteRange keys mn mx d = Inr d' \<and> index_inv d' ls' \<and>
    (\<forall>k t. holds_time ls' k t \<and> \<not> deleted_at d' k t \<longleftrightarrow>
       holds_time ls k t \<and> \<not> deleted_at d k t \<and> \<not> (k \<in> set keys \<and> sint mn \<le> sint t \<and> sint t \<le> sint mx))"
proof -
  let ?r = "\<lparr>tr_Min = mn, tr_Max = mx\<rparr>" and ?K = "set keys"
  have i: "index_of d ls" using d by (simp add: index_inv_def)
  have ks: "sorted (sorted_keys keys)" "set (sorted_keys keys) = ?K" by (simp_all add: sorted_keys_sorted)
  consider (none) "keys = []" | (all) "keys \<noteq> []" "mn = min_int64" "mx = max_int64"
    | (out) "keys \<noteq> []" "\<not> (mn = min_int64 \<and> mx = max_int64)" "sint (xi_maxTime d) < sint mn \<or> sint mx < sint (xi_minTime d)"
    | (walk) "keys \<noteq> []" "\<not> (mn = min_int64 \<and> mx = max_int64)" "\<not> (sint (xi_maxTime d) < sint mn \<or> sint mx < sint (xi_minTime d))"
    by blast
  then show ?thesis
  proof cases
    case none
    then show ?thesis using d by (intro exI [of _ d] exI [of _ ls]) (simp add: xi_DeleteRange_def)
  next
    case all
    have "sint (min_int64 :: u64) \<le> sint t" "sint t \<le> sint (max_int64 :: u64)" for t :: u64
      using sint_ge [of t] sint_lt [of t] by (simp_all add: min_int64_def max_int64_def)
    then show ?thesis
      using all Delete_eq [OF i, of "sorted_keys keys"] index_inv_without [OF d, where keys = "sorted_keys keys" and ts = "xi_tombstones d"] ks(2)
      by (intro exI [of _ "d\<lparr>xi_offsets := ofs_bytes (without (sorted_keys keys) ls)\<rparr>"] exI [of _ "without (sorted_keys keys) ls"])
        (auto simp: xi_DeleteRange_def holds_time_without deleted_at_def xi_TombstoneRange_def)
  next
    case out
    have "\<not> (sint mn \<le> sint t \<and> sint t \<le> sint mx)" if "holds_time ls k t" for k t
      using holds_time_sect [OF d that] out(3) by (metis leD order_less_le_trans order_le_less_trans)
    then show ?thesis
      using out d by (intro exI [of _ d] exI [of _ ls]) (auto simp: xi_DeleteRange_def)
  next
    case walk
    obtain full ts where rs: "range_spec d ?r ?K ls [] Map.empty = (full, ts)" by (cases "range_spec d ?r ?K ls [] Map.empty")
    have loop: "range_loop d ?r 0 (sorted_keys keys) [] Map.empty = Inr (full, ts)"
      using range_loop_eq [OF i ks(1), of 0 ?r "[]" Map.empty] rs ks(2) by simp
    have "distinct (map (\<lambda>x. sect_key (snd x)) ls)"
      using i by (simp add: index_of_def placed_def strict_sorted_iff)
    then have res: "set full = (\<lambda>x. sect_key (snd x)) ` {x \<in> set ls. sect_key (snd x) \<in> ?K \<and> fst (range_sect d ?r x)}"
        "\<And>k. ts k = (case look ls k of None \<Rightarrow> None | Some x \<Rightarrow> if k \<in> ?K then snd (range_sect d ?r x) k else None)"
      using range_spec_result [of ls Map.empty d ?r ?K "[]"] rs by simp_all
    define d' where "d' = d\<lparr>xi_offsets := ofs_bytes (without full ls), xi_tombstones := xi_tombstones d ++ ts\<rparr>"
    have del: "(if full \<noteq> [] then xi_Delete full d else Inr d) = Inr (d\<lparr>xi_offsets := ofs_bytes (without full ls)\<rparr>)"
      using Delete_eq [OF i, of full] i by (cases "full = []") (auto simp: without_def index_of_def)
    have run: "xi_DeleteRange keys mn mx d = Inr d'"
      using walk loop del by (auto simp: xi_DeleteRange_def Let_def d'_def)
    have tomb: "deleted_at d' k t = (case ts k of None \<Rightarrow> deleted_at d k t | Some us \<Rightarrow> \<exists>u \<in> set us. covers u (sint t))" for k t
      by (auto simp: deleted_at_def xi_TombstoneRange_def d'_def map_add_def split: option.split)
    have "holds_time (without full ls) k t \<and> \<not> deleted_at d' k t \<longleftrightarrow>
       holds_time ls k t \<and> \<not> deleted_at d k t \<and> \<not> (k \<in> ?K \<and> sint mn \<le> sint t \<and> sint t \<le> sint mx)" for k t
    proof (cases "holds_time ls k t")
      case True
      then obtain x where x: "look ls k = Some x" "x \<in> set ls" "sect_key (snd x) = k" "sect_entries (snd x) \<noteq> []"
        "sint (ix_MinTime (hd (sect_entries (snd x)))) \<le> sint t" "sint t \<le> sint (ix_MaxTime (last (sect_entries (snd x))))"
        using holds_time_sect [OF d] by metis
      have full: "k \<in> set full \<longleftrightarrow> k \<in> ?K \<and> fst (range_sect d ?r x)"
      proof -
        have "y = x" if "y \<in> set ls" "sect_key (snd y) = k" for y
          using look_member [of ls y] that i x(1) by (simp add: index_of_def placed_def)
        then show ?thesis unfolding res(1) using x(2,3) by blast
      qed
      have ts: "ts k = (if k \<in> ?K then snd (range_sect d ?r x) k else None)" unfolding res(2) using x(1) by simp
      show ?thesis
        using range_sect_full [of d ?r x t] range_sect_tombs [of d ?r x t] x full ts True
        by (auto simp: holds_time_without tomb split: option.splits)
    qed (simp add: holds_time_without)
    then show ?thesis
      using run index_inv_without [OF d, where keys = full] by (intro exI [of _ d'] exI [of _ "without full ls"]) (auto simp: d'_def)
  qed
qed

section \<open>Sequences of deletions on a loaded index\<close>

fun delete_ranges :: "(bytes list \<times> u64 \<times> u64) list \<Rightarrow> indirectIndex \<Rightarrow> indirectIndex result" where
  "delete_ranges [] d = Inr d"
| "delete_ranges ((keys, mn, mx) # ops) d = bind_result (xi_DeleteRange keys mn mx d) (delete_ranges ops)"

definition op_deletes :: "bytes \<Rightarrow> u64 \<Rightarrow> bytes list \<times> u64 \<times> u64 \<Rightarrow> bool" where
  "op_deletes k t = (\<lambda>(keys, mn, mx). k \<in> set keys \<and> sint mn \<le> sint t \<and> sint t \<le> sint mx)"

lemma delete_ranges_inv:
  "index_inv d ls \<Longrightarrow> \<exists>d' ls'. delete_ranges ops d = Inr d' \<and> index_inv d' ls' \<and>
     (\<forall>k t. holds_time ls' k t \<and> \<not> deleted_at d' k t \<longleftrightarrow>
        holds_time ls k t \<and> \<not> deleted_at d k t \<and> \<not> list_ex (op_deletes k t) ops)"
proof (induction ops arbitrary: d ls)
  case Nil
  then show ?case by auto
next
  case (Cons p ops)
  obtain keys mn mx where p: "p = (keys, mn, mx)" by (cases p)
  obtain d1 ls1 where 1: "xi_DeleteRange keys mn mx d = Inr d1" "index_inv d1 ls1"
      "\<And>k t. holds_time ls1 k t \<and> \<not> deleted_at d1 k t \<longleftrightarrow>
         holds_time ls k t \<and> \<not> deleted_at d k t \<and> \<not> op_deletes k t p"
    using DeleteRange_exact [OF Cons.prems, of keys mn mx] by (auto simp: p op_deletes_def)
  from Cons.IH [OF 1(2)] show ?case
    using 1(1,3) by (simp add: p) meson
qed

lemma loaded_inv:
  assumes "wf_index ss" "\<forall>s \<in> set ss. wf_times (sect_entries s)"
  shows "index_inv (loaded ss) (layout 0 ss)"
proof -
  have lo: "sint (fold (\<lambda>s a. lower_time a (f s)) xs a) \<le> sint a \<and> (\<forall>s \<in> set xs. sint (fold (\<lambda>s a. lower_time a (f s)) xs a) \<le> sint (f s))"
    for f and xs :: "sect list" and a
    by (induction xs arbitrary: a) (auto simp: lower_time_def split: if_splits dest: order_trans less_imp_le, (meson le_cases less_imp_le order_trans not_le)+)
  have up: "sint a \<le> sint (fold (\<lambda>s a. upper_time a (f s)) xs a) \<and> (\<forall>s \<in> set xs. sint (f s) \<le> sint (fold (\<lambda>s a. upper_time a (f s)) xs a))"
    for f and xs :: "sect list" and a
    by (induction xs arbitrary: a) (auto simp: upper_time_def split: if_splits dest: order_trans less_imp_le, (meson le_cases less_imp_le order_trans not_le)+)
  have "sint (xi_minTime (loaded ss)) \<le> sint (ix_MinTime e) \<and> sint (ix_MaxTime e) \<le> sint (xi_maxTime (loaded ss))"
    if "s \<in> set ss" "e \<in> set (sect_entries s)" for s e
    using lo [where xs = ss and a = max_int64 and f = "\<lambda>s. ix_MinTime (hd (sect_entries s))"]
      up [where xs = ss and a = 0 and f = "\<lambda>s. ix_MaxTime (last (sect_entries s))"]
      wf_times_ends [of "sect_entries s" e] that assms(2)
    unfolding loaded_def by (auto intro: order_trans)
  then show ?thesis
    using loaded_index_of [OF assms(1)] assms(2) set_layout unfolding index_inv_def by blast
qed

lemma look_layout:
  assumes "sorted_wrt (<) (map sect_key ss)"
  shows "holds_time (layout 0 ss) k t \<longleftrightarrow> (\<exists>s \<in> set ss. sect_key s = k \<and> (\<exists>e \<in> set (sect_entries s). ix_Contains e t))"
proof -
  have mem: "\<exists>x \<in> set (layout 0 ss). snd x = s" if "s \<in> set ss" for s
    using that map_snd_layout [of "\<lambda>s. s" 0 ss] by (metis (no_types, lifting) image_iff list.set_map list.map_ident)
  show ?thesis
  proof
    assume "holds_time (layout 0 ss) k t"
    then obtain x where x: "look (layout 0 ss) k = Some x" "\<exists>e \<in> set (sect_entries (snd x)). ix_Contains e t"
      by (cases "look (layout 0 ss) k") (auto simp: holds_time_def entries_for_def)
    then show "\<exists>s \<in> set ss. sect_key s = k \<and> (\<exists>e \<in> set (sect_entries s). ix_Contains e t)"
      using look_Some [OF x(1)] set_layout by blast
  next
    assume "\<exists>s \<in> set ss. sect_key s = k \<and> (\<exists>e \<in> set (sect_entries s). ix_Contains e t)"
    then obtain x where "x \<in> set (layout 0 ss)" "sect_key (snd x) = k" "\<exists>e \<in> set (sect_entries (snd x)). ix_Contains e t"
      using mem by blast
    then show "holds_time (layout 0 ss) k t"
      using look_member [of "layout 0 ss" x] assms map_snd_layout [of sect_key 0 ss] by (auto simp: holds_time_def entries_for_def)
  qed
qed

text \<open>
  C29: Deletions in an SST index are exact. Load the index section of a file whose keys ascend and whose
  blocks follow each other in time per key, then call \<open>DeleteRange\<close> any number of times, each with any
  keys, in any order, and any time range: no call panics, and afterwards \<open>ContainsValue\<close> says of every key and
  timestamp that it may exist if and only if a block of the key spans the timestamp and no call deleted it.
  In particular a key is dropped from the index only when its tombstones together cover all its blocks.
\<close>

theorem index_deletions_exact:
  assumes "wf_index ss" "\<forall>s \<in> set ss. wf_times (sect_entries s)"
  shows "\<exists>d d'. xi_UnmarshalBinary (index_bytes ss) NewIndirectIndex = Inr d \<and> delete_ranges ops d = Inr d' \<and>
    (\<forall>k t. xi_ContainsValue k t d' =
       Inr ((\<exists>s \<in> set ss. sect_key s = k \<and> (\<exists>e \<in> set (sect_entries s). ix_Contains e t)) \<and> \<not> list_ex (op_deletes k t) ops))"
proof -
  obtain d' ls' where d': "delete_ranges ops (loaded ss) = Inr d'" "index_inv d' ls'"
      "\<And>k t. holds_time ls' k t \<and> \<not> deleted_at d' k t \<longleftrightarrow>
        holds_time (layout 0 ss) k t \<and> \<not> deleted_at (loaded ss) k t \<and> \<not> list_ex (op_deletes k t) ops"
    using delete_ranges_inv [OF loaded_inv [OF assms], of ops] by auto
  have "\<not> deleted_at (loaded ss) k t" for k t by (simp add: deleted_at_def xi_TombstoneRange_def loaded_def)
  moreover have "sorted_wrt (<) (map sect_key ss)" using assms(1) by (simp add: wf_index_def)
  ultimately have "xi_ContainsValue k t d' =
       Inr ((\<exists>s \<in> set ss. sect_key s = k \<and> (\<exists>e \<in> set (sect_entries s). ix_Contains e t)) \<and> \<not> list_ex (op_deletes k t) ops)" for k t
    using ContainsValue_eq [of d' ls' k t] d'(2) d'(3) [of k t] look_layout [of ss k t] by (simp add: index_inv_def)
  then show ?thesis using UnmarshalBinary_loaded [OF assms(1)] d'(1) by blast
qed

theorem index_deletions_exact_witness:
  "\<exists>d d'. xi_UnmarshalBinary (index_bytes
       [([97], 1, [\<lparr>ix_MinTime = 1, ix_MaxTime = 5, ix_Offset = 5, ix_Size = 40\<rparr>,
                   \<lparr>ix_MinTime = 8, ix_MaxTime = 9, ix_Offset = 45, ix_Size = 40\<rparr>]),
        ([98], 1, [\<lparr>ix_MinTime = 2, ix_MaxTime = 3, ix_Offset = 85, ix_Size = 40\<rparr>])]) NewIndirectIndex = Inr d \<and>
     delete_ranges [([[98], [97]], 0, 4), ([[97]], 5, 8)] d = Inr d' \<and>
     xi_ContainsValue [97] 9 d' = Inr True \<and> xi_ContainsValue [97] 8 d' = Inr False \<and>
     xi_ContainsValue [97] 3 d' = Inr False \<and> xi_ContainsValue [98] 2 d' = Inr False"
proof -
  let ?ss = "[([97], 1, [\<lparr>ix_MinTime = 1, ix_MaxTime = 5, ix_Offset = 5, ix_Size = 40\<rparr>,
                   \<lparr>ix_MinTime = 8, ix_MaxTime = 9, ix_Offset = 45, ix_Size = 40\<rparr>]),
        ([98], 1, [\<lparr>ix_MinTime = 2, ix_MaxTime = 3, ix_Offset = 85, ix_Size = 40\<rparr>])] :: sect list"
  have 1: "wf_index ?ss" by (simp add: wf_index_def wf_sect_def sst_sizes index_bytes_def length_sect_bytes)
  have 2: "\<forall>s \<in> set ?ss. wf_times (sect_entries s)" by (simp add: wf_times_def)
  show ?thesis
    using index_deletions_exact [OF 1 2, of "[([[98], [97]], 0, 4), ([[97]], 5, 8)]"]
    by (auto simp: ix_Contains_def op_deletes_def)
qed

end
