(* ===== verification/SstFile.thy ===== *)
theory SstFile
  imports SstLayout
begin

text \<open>
  An SST file from the first block to the last read: blocks written by \<open>WriteBlock\<close> in the order of
  their keys and closed by \<open>WriteIndex\<close> are found again through the index that opening the file loads.
\<close>

section \<open>A run of the writer\<close>

type_synonym block = "bytes \<times> u64 \<times> u64 \<times> bytes"

text \<open>Write the blocks one after the other, up to the first error.\<close>

fun write_blocks :: "sorter \<Rightarrow> (bytes \<Rightarrow> u32) \<Rightarrow> block list \<Rightarrow> sstWriter \<Rightarrow> (error option \<times> sstWriter) result" where
  "write_blocks srt crc [] t = Inr (None, t)"
| "write_blocks srt crc ((key, mn, mx, block) # bs) t =
     bind_result (sw_WriteBlock srt crc key mn mx block t) (\<lambda>(err, t').
       case err of Some e \<Rightarrow> Inr (Some e, t') | None \<Rightarrow> write_blocks srt crc bs t')"

section \<open>The sections a run builds\<close>

text \<open>What the index is given for a block: the key, the type and the entry.\<close>

type_synonym added = "bytes \<times> byte \<times> IndexEntry"

definition add_block :: "added \<Rightarrow> sect list \<Rightarrow> sect list" where
  "add_block = (\<lambda>(k, ty, e) ss.
     if ss \<noteq> [] \<and> sect_key (last ss) = k then butlast ss @ [(k, sect_type (last ss), sect_entries (last ss) @ [e])]
     else ss @ [(k, ty, [e])])"

definition sections :: "added list \<Rightarrow> sect list" where
  "sections as = fold add_block as []"

definition added_to :: "bytes \<Rightarrow> added list \<Rightarrow> IndexEntry list" where
  "added_to k as = map (\<lambda>a. snd (snd a)) (filter (\<lambda>a. fst a = k) as)"

lemma sections_snoc: "sections (as @ [a]) = add_block a (sections as)"
  by (simp add: sections_def)

lemma sections_Nil [simp]: "sections [] = []"
  by (simp add: sections_def)

lemma added_to_snoc [simp]: "added_to k (as @ [a]) = added_to k as @ (if fst a = k then [snd (snd a)] else [])"
  by (simp add: added_to_def)

text \<open>Sorted keys: the sections ascend, have the keys that were added, and each has the entries of its key.\<close>

lemma sections_props:
  assumes "sorted (map fst as)"
  shows "sorted_wrt (<) (map sect_key (sections as))" "sect_key ` set (sections as) = set (map fst as)"
    and "\<forall>s \<in> set (sections as). sect_entries s = added_to (sect_key s) as"
    and "as \<noteq> [] \<Longrightarrow> sections as \<noteq> [] \<and> sect_key (last (sections as)) = fst (last as)"
proof -
  have "sorted_wrt (<) (map sect_key (sections as)) \<and> sect_key ` set (sections as) = set (map fst as) \<and>
    (\<forall>s \<in> set (sections as). sect_entries s = added_to (sect_key s) as) \<and>
    (as \<noteq> [] \<longrightarrow> sections as \<noteq> [] \<and> sect_key (last (sections as)) = fst (last as))"
    using assms
  proof (induction as rule: rev_induct)
    case (snoc a as)
    obtain k ty e where a: "a = (k, ty, e)" by (cases a)
    let ?S = "sections as"
    have IH: "sorted_wrt (<) (map sect_key ?S)" "sect_key ` set ?S = set (map fst as)"
      "\<forall>s \<in> set ?S. sect_entries s = added_to (sect_key s) as" "as \<noteq> [] \<Longrightarrow> ?S \<noteq> [] \<and> sect_key (last ?S) = fst (last as)"
      using snoc by (auto simp: sorted_append)
    show ?case
    proof (cases "?S \<noteq> [] \<and> sect_key (last ?S) = k")
      case True
      then obtain S s where S: "?S = S @ [s]" "sect_key s = k" by (metis append_butlast_last_id)
      then have "sections (as @ [a]) = S @ [(k, sect_type s, sect_entries s @ [e])]"
        by (simp add: sections_snoc add_block_def a)
      then show ?thesis using IH S a by (auto simp: sorted_wrt_append)
    next
      case False
      then have eq: "sections (as @ [a]) = ?S @ [(k, ty, [e])]" by (auto simp: sections_snoc add_block_def a)
      have "\<forall>x \<in> set ?S. sect_key x < k"
      proof
        fix x assume x: "x \<in> set ?S"
        then have ne: "as \<noteq> []" using IH(2) by auto
        then have "sect_key x \<le> sect_key (last ?S)" using sorted_hd_last(2) [OF IH(1) x] by simp
        moreover have "sect_key (last ?S) \<le> k" using IH(4) ne snoc.prems a by (auto simp: sorted_append)
        moreover have "sect_key (last ?S) \<noteq> k" using False x by auto
        ultimately show "sect_key x < k" by auto
      qed
      moreover from this have "k \<notin> set (map fst as)" unfolding IH(2) [symmetric] by auto
      then have "added_to k as = []" by (auto simp: added_to_def filter_empty_conv)
      moreover from calculation have "\<forall>x \<in> sect_key ` set ?S. x < k" by blast
      then have "\<forall>x \<in> fst ` set as. x < k" unfolding IH(2) set_map .
      ultimately show ?thesis unfolding eq using IH by (auto simp: a sorted_wrt_append)
    qed
  qed simp
  then show "sorted_wrt (<) (map sect_key (sections as))" "sect_key ` set (sections as) = set (map fst as)"
    "\<forall>s \<in> set (sections as). sect_entries s = added_to (sect_key s) as"
    "as \<noteq> [] \<Longrightarrow> sections as \<noteq> [] \<and> sect_key (last (sections as)) = fst (last as)"
    by auto
qed

section \<open>The index of the writer\<close>

definition ordered_sect :: "sorter \<Rightarrow> sect \<Rightarrow> sect" where
  "ordered_sect srt s = (sect_key s, sect_type s, by_MinTime srt (sect_entries s))"

lemma ordered_sect_simps [simp]:
  "sect_key (ordered_sect srt s) = sect_key s" "sect_type (ordered_sect srt s) = sect_type s"
  "sect_entries (ordered_sect srt s) = by_MinTime srt (sect_entries s)"
  by (simp_all add: ordered_sect_def)

text \<open>The adds the file format can take: keys ascending, not empty and not too long, not too many blocks.\<close>

definition wf_added :: "added list \<Rightarrow> bool" where
  "wf_added as \<longleftrightarrow> sorted (map fst as) \<and> (\<forall>a \<in> set as. fst a \<noteq> [] \<and> length (fst a) \<le> maxKeyLength) \<and>
     (\<forall>k. length (added_to k as) \<le> maxIndexEntries)"

definition di_rep :: "sorter \<Rightarrow> added list \<Rightarrow> directIndex \<Rightarrow> bool" where
  "di_rep srt as d \<longleftrightarrow> di_keyCount d = length (sections as) \<and>
     (if as = [] then di_key d = [] \<and> di_entries d = [] \<and> di_w d = []
      else di_key d = sect_key (last (sections as)) \<and> di_Type d = sect_type (last (sections as)) \<and>
           di_entries d = sect_entries (last (sections as)) \<and>
           di_w d = index_bytes (map (ordered_sect srt) (butlast (sections as))))"

lemma wf_added_snocD:
  assumes "wf_added (as @ [a])"
  shows "wf_added as"
proof -
  have "length (added_to k as) \<le> maxIndexEntries" for k
  proof -
    have "length (added_to k as) \<le> length (added_to k (as @ [a]))" by simp
    also have "\<dots> \<le> maxIndexEntries" using assms unfolding wf_added_def by blast
    finally show ?thesis .
  qed
  then show ?thesis using assms by (auto simp: wf_added_def sorted_append)
qed

lemma wf_sections:
  assumes "wf_added as" "s \<in> set (sections as)"
  shows "wf_sect s" "sect_key s \<noteq> []"
proof -
  have p: "sorted (map fst as)" using assms by (simp add: wf_added_def)
  have "sect_key s \<in> sect_key ` set (sections as)" using assms(2) by blast
  then obtain a where a: "a \<in> set as" "fst a = sect_key s" unfolding sections_props(2) [OF p] by auto
  have "sect_entries s = added_to (sect_key s) as" using sections_props(3) [OF p] assms(2) by blast
  moreover have "added_to (sect_key s) as \<noteq> []" using a by (auto simp: added_to_def filter_empty_conv)
  ultimately show "wf_sect s" "sect_key s \<noteq> []"
    using a assms(1) by (auto simp: wf_sect_def wf_added_def)
qed

lemma di_flush_rep:
  assumes "di_rep srt as d" "wf_added as" "as \<noteq> []" "sorts (\<lambda>e. sint (ix_MinTime e)) srt"
  shows "di_flush srt d = (None, d\<lparr>di_w := index_bytes (map (ordered_sect srt) (sections as)), di_key := [], di_Type := 0, di_entries := []\<rparr>)"
proof -
  let ?S = "sections as" let ?s = "last ?S"
  have p: "sorted (map fst as)" using assms by (simp add: wf_added_def)
  have ne: "?S \<noteq> []" using sections_props(4) [OF p assms(3)] by simp
  have s: "wf_sect ?s" "sect_key ?s \<noteq> []" using wf_sections [OF assms(2), of ?s] ne by simp_all
  have d: "di_key d = sect_key ?s" "di_Type d = sect_type ?s" "di_entries d = sect_entries ?s"
      "di_w d = index_bytes (map (ordered_sect srt) (butlast ?S))"
    using assms(1,3) by (simp_all add: di_rep_def)
  have "index_bytes (map (ordered_sect srt) ?S) = di_w d @ sect_bytes (ordered_sect srt ?s)"
    using ne d(4) by (cases ?S rule: rev_cases) (simp_all add: index_bytes_def)
  then show ?thesis
    using s d in_order_props(3) [OF assms(4), of "sect_entries ?s"]
    by (simp add: di_flush_def wf_sect_def entries_WriteTo_eq sect_bytes_def)
qed

lemma di_Add_rep:
  assumes d: "di_rep srt as d" and wf: "wf_added (as @ [(k, ty, e)])" and srt: "sorts (\<lambda>e. sint (ix_MinTime e)) srt"
  obtains d' where "di_Add srt k ty e d = Inr d'" "di_rep srt (as @ [(k, ty, e)]) d'"
proof (cases "as = []")
  case True
  then show ?thesis
    using d that by (simp add: di_Add_def di_rep_def sections_snoc [of "[]", simplified] add_block_def index_bytes_def)
next
  case False
  let ?S = "sections as"
  have wfa: "wf_added as" by (rule wf_added_snocD [OF wf])
  have p: "sorted (map fst as)" using wfa by (simp add: wf_added_def)
  have last: "?S \<noteq> []" "sect_key (last ?S) = fst (last as)" using sections_props(4) [OF p False] by auto
  have k: "di_key d = sect_key (last ?S)" "di_key d \<noteq> []"
    using d False wf_sections(2) [OF wfa, of "last ?S"] last(1) by (simp_all add: di_rep_def)
  have le: "sect_key (last ?S) \<le> k" using wf False last by (simp add: wf_added_def sorted_append)
  show ?thesis
  proof (cases "sect_key (last ?S) = k")
    case True
    then have "sections (as @ [(k, ty, e)]) = butlast ?S @ [(k, sect_type (last ?S), sect_entries (last ?S) @ [e])]"
      using last(1) by (simp add: sections_snoc add_block_def)
    then show ?thesis using d False True k last(1) that by (simp add: di_Add_def di_rep_def)
  next
    case no: False
    then have "sections (as @ [(k, ty, e)]) = ?S @ [(k, ty, [e])]"
      by (simp add: sections_snoc add_block_def)
    then show ?thesis
      using d False no k le di_flush_rep [OF d wfa False srt] that by (simp add: di_Add_def di_rep_def Let_def order_less_le)
  qed
qed

section \<open>The file a run writes\<close>

definition base_type :: "bytes \<Rightarrow> byte" where
  "base_type b = (case BlockType b of Inl _ \<Rightarrow> 0 | Inr ty \<Rightarrow> ty)"

fun adds :: "nat \<Rightarrow> block list \<Rightarrow> added list" where
  "adds pos [] = []"
| "adds pos ((k, mn, mx, b) # bs) =
     (k, base_type b, \<lparr>ix_MinTime = mn, ix_MaxTime = mx, ix_Offset = of_nat pos, ix_Size = of_nat (4 + length b)\<rparr>) #
     adds (pos + 4 + length b) bs"

definition data_bytes :: "(bytes \<Rightarrow> u32) \<Rightarrow> block list \<Rightarrow> bytes" where
  "data_bytes crc bs = concat (map (\<lambda>(k, mn, mx, b). put_u32 (crc b) @ b) bs)"

definition file_header :: bytes where
  "file_header = put_u32 MagicNumber @ [Version]"

definition wf_blocks :: "block list \<Rightarrow> bool" where
  "wf_blocks bs \<longleftrightarrow> sorted (map fst bs) \<and>
     (\<forall>(k, mn, mx, b) \<in> set bs. k \<noteq> [] \<and> length k \<le> maxKeyLength \<and> (\<exists>ty. BlockType b = Inr ty)) \<and>
     (\<forall>k \<in> set (map fst bs). length (filter (\<lambda>x. fst x = k) bs) < maxIndexEntries)"

lemma length_file_header [simp]: "length file_header = 5"
  by (simp add: file_header_def)

lemma data_bytes_snoc [simp]: "data_bytes crc (bs @ [(k, mn, mx, b)]) = data_bytes crc bs @ put_u32 (crc b) @ b"
  by (simp add: data_bytes_def)

lemma length_data_bytes: "length (data_bytes crc bs) = (\<Sum>(k, mn, mx, b) \<leftarrow> bs. 4 + length b)"
  by (induction bs) (auto simp: data_bytes_def)

lemma adds_append: "adds pos (bs @ cs) = adds pos bs @ adds (pos + length (data_bytes crc bs)) cs"
  by (induction pos bs rule: adds.induct) (simp_all add: data_bytes_def add.assoc)

lemma map_fst_adds [simp]: "map fst (adds pos bs) = map fst bs"
  by (induction pos bs rule: adds.induct) simp_all

lemma length_added_adds: "length (added_to k (adds pos bs)) = length (filter (\<lambda>x. fst x = k) bs)"
  by (induction pos bs rule: adds.induct) (simp_all add: added_to_def)

lemma wf_blocks_added:
  assumes "wf_blocks bs"
  shows "wf_added (adds pos bs)"
proof -
  have "length (added_to k (adds pos bs)) \<le> maxIndexEntries" for k
  proof (cases "k \<in> set (map fst bs)")
    case True
    then show ?thesis using assms by (auto simp: wf_blocks_def length_added_adds less_imp_le)
  next
    case False
    then have "filter (\<lambda>x. fst x = k) bs = []" by (auto simp: filter_empty_conv)
    then show ?thesis by (simp add: length_added_adds)
  qed
  moreover have "fst a \<noteq> [] \<and> length (fst a) \<le> maxKeyLength" if "a \<in> set (adds pos bs)" for a
  proof -
    have "fst a \<in> set (map fst (adds pos bs))" unfolding set_map using that by (rule imageI)
    then have "fst a \<in> set (map fst bs)" unfolding map_fst_adds .
    then show ?thesis using assms by (auto simp: wf_blocks_def)
  qed
  ultimately show ?thesis using assms by (simp add: wf_added_def wf_blocks_def)
qed

lemma wf_blocks_snocD:
  assumes "wf_blocks (bs @ [b])"
  shows "wf_blocks bs"
proof -
  have "length (filter (\<lambda>x. fst x = k) bs) < maxIndexEntries" if "k \<in> set (map fst bs)" for k
  proof -
    have "length (filter (\<lambda>x. fst x = k) bs) \<le> length (filter (\<lambda>x. fst x = k) (bs @ [b]))" by simp
    also have "\<dots> < maxIndexEntries" using assms that by (auto simp: wf_blocks_def simp del: filter_append)
    finally show ?thesis .
  qed
  then show ?thesis using assms by (auto simp: wf_blocks_def sorted_append)
qed

definition sw_rep :: "sorter \<Rightarrow> (bytes \<Rightarrow> u32) \<Rightarrow> block list \<Rightarrow> sstWriter \<Rightarrow> bool" where
  "sw_rep srt crc bs t \<longleftrightarrow> di_rep srt (adds 5 bs) (sw_index t) \<and>
     (if bs = [] then sw_w t = [] \<and> sw_n t = 0
      else sw_w t = file_header @ data_bytes crc bs \<and> sw_n t = of_nat (5 + length (data_bytes crc bs)))"

lemma di_Entries_rep:
  assumes "di_rep srt as d" "wf_added as" "as \<noteq> []" "k = fst (last as)"
  shows "di_Entries k d = added_to k as"
proof -
  have p: "sorted (map fst as)" using assms by (simp add: wf_added_def)
  have l: "sections as \<noteq> []" "sect_key (last (sections as)) = k" using sections_props(4) [OF p assms(3)] assms(4) by auto
  then have "sect_entries (last (sections as)) = added_to k as" using sections_props(3) [OF p] by auto
  then show ?thesis using assms(1,3) l wf_sections(2) [OF assms(2), of "last (sections as)"] by (simp add: di_Entries_def di_rep_def)
qed

lemma WriteBlock_rep:
  assumes t: "sw_rep srt crc bs t" and wf: "wf_blocks (bs @ [(k, mn, mx, b)])" and srt: "sorts (\<lambda>e. sint (ix_MinTime e)) srt"
    and small: "5 + length (data_bytes crc bs) < 2 ^ 64"
  obtains t' where "sw_WriteBlock srt crc k mn mx b t = Inr (None, t')" "sw_rep srt crc (bs @ [(k, mn, mx, b)]) t'"
proof -
  let ?n = "length (data_bytes crc bs)" let ?bs = "bs @ [(k, mn, mx, b)]"
  let ?e = "\<lparr>ix_MinTime = mn, ix_MaxTime = mx, ix_Offset = of_nat (5 + ?n), ix_Size = of_nat (4 + length b)\<rparr>"
  have k: "length k \<le> maxKeyLength" "k \<noteq> []" and "\<exists>ty. BlockType b = Inr ty" using wf by (auto simp: wf_blocks_def)
  then obtain ty where ty: "BlockType b = Inr ty" by blast
  then have b: "b \<noteq> []" "base_type b = ty" by (auto simp: BlockType_def base_type_def)
  have as: "adds 5 ?bs = adds 5 bs @ [(k, ty, ?e)]" using b(2) by (simp add: adds_append [where crc = crc])
  define t1 where "t1 = (if sw_n t = 0 then sw_writeHeader t else t)"
  have "unat (of_nat (5 + ?n) :: u64) = 5 + ?n" unfolding unat_of_nat using small by simp
  then have "of_nat (5 + ?n) \<noteq> (0 :: u64)" by (metis add_is_0 unat_0 zero_neq_numeral)
  then have t1: "sw_w t1 = file_header @ data_bytes crc bs" "sw_n t1 = of_nat (5 + ?n)" "sw_index t1 = sw_index t"
    using t by (auto simp: t1_def sw_rep_def sw_writeHeader_def file_header_def data_bytes_def split: if_splits)
  have wfa: "wf_added (adds 5 bs @ [(k, ty, ?e)])" using wf_blocks_added [OF wf, of 5] as by simp
  have d: "di_rep srt (adds 5 bs) (sw_index t)" using t by (simp add: sw_rep_def)
  obtain d' where d': "di_Add srt k ty ?e (sw_index t) = Inr d'" "di_rep srt (adds 5 bs @ [(k, ty, ?e)]) d'"
    by (rule di_Add_rep [OF d wfa srt])
  have "length (filter (\<lambda>x. fst x = k) ?bs) < maxIndexEntries" using wf by (simp add: wf_blocks_def)
  then have "length (di_Entries k d') < maxIndexEntries"
    using di_Entries_rep [OF d'(2) wfa] length_added_adds [of k 5 ?bs] as by simp
  then have "sw_WriteBlock srt crc k mn mx b t =
      Inr (None, t1\<lparr>sw_w := sw_w t1 @ put_u32 (crc b) @ b, sw_index := d', sw_n := sw_n t1 + of_nat (length b + 4)\<rparr>)"
    using k b(1) ty d'(1) t1(2,3) unfolding sw_WriteBlock_def t1_def [symmetric] Let_def
    by (simp add: not_le add.commute)
  moreover have "sw_rep srt crc ?bs (t1\<lparr>sw_w := sw_w t1 @ put_u32 (crc b) @ b, sw_index := d', sw_n := sw_n t1 + of_nat (length b + 4)\<rparr>)"
    using d'(2) as t1(1,2) by (simp add: sw_rep_def algebra_simps)
  ultimately show ?thesis by (rule that)
qed

lemma write_blocks_append:
  "write_blocks srt crc (bs @ cs) t =
     bind_result (write_blocks srt crc bs t) (\<lambda>(err, t'). case err of Some e \<Rightarrow> Inr (Some e, t') | None \<Rightarrow> write_blocks srt crc cs t')"
proof (induction srt crc bs t rule: write_blocks.induct)
  case (2 srt crc key mn mx block bs t)
  then show ?case
    by (cases "sw_WriteBlock srt crc key mn mx block t") (auto split: option.split)
qed simp

lemma write_blocks_rep:
  assumes "wf_blocks bs" "sorts (\<lambda>e. sint (ix_MinTime e)) srt" "5 + length (data_bytes crc bs) < 2 ^ 64"
  shows "\<exists>t. write_blocks srt crc bs NewSSTWriter = Inr (None, t) \<and> sw_rep srt crc bs t"
  using assms
proof (induction bs rule: rev_induct)
  case Nil
  then show ?case by (simp add: sw_rep_def di_rep_def NewSSTWriter_def NewIndexWriter_def)
next
  case (snoc x bs)
  obtain k mn mx b where x: "x = (k, mn, mx, b)" by (cases x)
  have small: "5 + length (data_bytes crc bs) < 2 ^ 64" using snoc.prems(3) x by simp
  obtain t where t: "write_blocks srt crc bs NewSSTWriter = Inr (None, t)" "sw_rep srt crc bs t"
    using snoc.IH [OF wf_blocks_snocD [OF snoc.prems(1)] snoc.prems(2) small] by blast
  have wf: "wf_blocks (bs @ [(k, mn, mx, b)])" using snoc.prems(1) x by simp
  obtain t' where "sw_WriteBlock srt crc k mn mx b t = Inr (None, t')" "sw_rep srt crc (bs @ [(k, mn, mx, b)]) t'"
    by (rule WriteBlock_rep [OF t(2) wf snoc.prems(2) small])
  then show ?case using t(1) x by (simp add: write_blocks_append)
qed

definition file_sects :: "sorter \<Rightarrow> block list \<Rightarrow> sect list" where
  "file_sects srt bs = map (ordered_sect srt) (sections (adds 5 bs))"

definition file_bytes :: "sorter \<Rightarrow> (bytes \<Rightarrow> u32) \<Rightarrow> block list \<Rightarrow> bytes" where
  "file_bytes srt crc bs = file_header @ data_bytes crc bs @ index_bytes (file_sects srt bs) @
     put_u64 (of_nat (5 + length (data_bytes crc bs)))"

lemma WriteIndex_rep:
  assumes "sw_rep srt crc bs t" "wf_blocks bs" "bs \<noteq> []" "sorts (\<lambda>e. sint (ix_MinTime e)) srt"
  obtains t' where "sw_WriteIndex srt t = (None, t')" "sw_w t' = file_bytes srt crc bs"
proof -
  have as: "adds 5 bs \<noteq> []" using assms(3) by (cases bs) auto
  have wfa: "wf_added (adds 5 bs)" by (rule wf_blocks_added [OF assms(2)])
  have d: "di_rep srt (adds 5 bs) (sw_index t)" using assms(1) by (simp add: sw_rep_def)
  have "sections (adds 5 bs) \<noteq> []" using sections_props(4) [of "adds 5 bs"] wfa as by (simp add: wf_added_def)
  then have "di_keyCount (sw_index t) \<noteq> 0" using d by (simp add: di_rep_def)
  then show ?thesis
    using that di_flush_rep [OF d wfa as assms(4)] assms(1,3)
    by (simp add: sw_WriteIndex_def di_WriteTo_def sw_rep_def file_bytes_def file_sects_def)
qed

section \<open>Opening the file\<close>

lemma wf_file_sects:
  assumes "wf_blocks bs" "bs \<noteq> []" "sorts (\<lambda>e. sint (ix_MinTime e)) srt" "length (index_bytes (file_sects srt bs)) < 2 ^ 31"
  shows "wf_index (file_sects srt bs)"
proof -
  have wfa: "wf_added (adds 5 bs)" by (rule wf_blocks_added [OF assms(1)])
  then have p: "sorted (map fst (adds 5 bs))" by (simp add: wf_added_def)
  have as: "adds 5 bs \<noteq> []" using assms(2) by (cases bs) auto
  have "wf_sect (ordered_sect srt s)" if "s \<in> set (sections (adds 5 bs))" for s
    using wf_sections(1) [OF wfa that] in_order_props(3) [OF assms(3), of "sect_entries s"]
    by (auto simp: wf_sect_def)
  then show ?thesis
    using assms(4) sections_props(1,4) [OF p] as by (simp add: wf_index_def file_sects_def list_all_iff comp_def)
qed

lemma init_file:
  assumes "wf_index ss" "f = file_header @ da @ index_bytes ss @ put_u64 (of_nat (5 + length da))" "5 + length da < 2 ^ 64"
  shows "acc_init f = Inr (loaded ss)"
proof -
  let ?n = "length (index_bytes ss)"
  have n: "0 < ?n" using assms(1) length_index_ge [of ss] by (cases ss) (auto simp: wf_index_def)
  have v: "verifyVersion f = None"
    by (simp add: assms(2) verifyVersion_def file_header_def nth_append)
  have pos: "length f - 8 = 5 + length da + ?n" "\<not> length f < 8" by (simp_all add: assms(2))
  have "drop (5 + length da + ?n) f = put_u64 (of_nat (5 + length da))"
    unfolding assms(2) by (simp add: add.commute)
  then have start: "unat (get_u64 (drop (5 + length da + ?n) f)) = 5 + length da"
    using assms(3) by (simp only: get_put_append unat_of_nat) simp
  have "subslice f (int (5 + length da)) (int (5 + length da + ?n)) = Inr (index_bytes ss)"
    using slice_middle [of "int (5 + length da)" "file_header @ da" "int (5 + length da + ?n)" "index_bytes ss"]
    unfolding assms(2) by simp
  then show ?thesis
    using v pos start n UnmarshalBinary_loaded [OF assms(1)] by (simp add: acc_init_def Let_def)
qed

text \<open>The bytes of each block, through its entry.\<close>

lemma readBytes_block:
  assumes "f = pre @ (put_u32 (crc b) @ b) @ post" "length f < 2 ^ 63" "4 + length b < 2 ^ 32"
  shows "acc_readBytes f \<lparr>ix_MinTime = mn, ix_MaxTime = mx, ix_Offset = of_nat (length pre), ix_Size = of_nat (4 + length b)\<rparr> = Inr (crc b, b)"
proof -
  have small: "length pre + (4 + length b) < 2 ^ 63" using assms(1,2) by simp
  have s: "sint (of_nat n :: u64) = int n" if "n < 2 ^ 63" for n
  proof -
    have "(of_nat n :: u64) = word_of_int (int n)" by simp
    then show ?thesis using that by (simp only: sint_sbintrunc') (simp add: signed_take_bit_int_eq_self_iff)
  qed
  have u: "ucast (of_nat (4 + length b) :: u32) = (of_nat (4 + length b) :: u64)"
    using assms(3) by (simp only: unsigned_of_nat) (simp add: take_bit_nat_eq_self)
  have 0: "sint (of_nat (length pre) :: u64) = int (length pre)"
    "sint (of_nat (length pre) + 4 :: u64) = int (length pre + 4)"
    "sint (of_nat (length pre) + of_nat (4 + length b) :: u64) = int (length pre + (4 + length b))"
    using s [of "length pre"] s [of "length pre + 4"] s [of "length pre + (4 + length b)"] small by simp_all
  have 1: "subslice f (int (length pre)) (int (length pre + 4)) = Inr (put_u32 (crc b))"
    using slice_middle [of "int (length pre)" pre "int (length pre + 4)" "put_u32 (crc b)" "b @ post"] assms(1) by simp
  have 2: "subslice f (int (length pre + 4)) (int (length pre + (4 + length b))) = Inr b"
    using slice_middle [of "int (length pre + 4)" "pre @ put_u32 (crc b)" "int (length pre + (4 + length b))" b post] assms(1) by simp
  have "\<not> int (length f) < int (length pre + (4 + length b))" using assms(1) by simp
  then show ?thesis
    unfolding acc_readBytes_def IndexEntry.select_convs u 0 Let_def 1 2 bind_result_simps by simp
qed

definition read_back :: "bytes \<Rightarrow> IndexEntry \<Rightarrow> u64 \<times> u64 \<times> (u32 \<times> bytes) result" where
  "read_back f e = (ix_MinTime e, ix_MaxTime e, acc_readBytes f e)"

lemma readBytes_adds:
  "f = pre @ data_bytes crc bs @ post \<Longrightarrow> length f < 2 ^ 63 \<Longrightarrow> \<forall>(k, mn, mx, b) \<in> set bs. 4 + length b < 2 ^ 32 \<Longrightarrow>
   map (\<lambda>a. (fst a, read_back f (snd (snd a)))) (adds (length pre) bs) = map (\<lambda>(k, mn, mx, b). (k, mn, mx, Inr (crc b, b))) bs"
proof (induction bs arbitrary: pre)
  case (Cons x bs)
  obtain k mn mx b where x: "x = (k, mn, mx, b)" by (cases x)
  have f: "f = pre @ (put_u32 (crc b) @ b) @ data_bytes crc bs @ post" "f = (pre @ put_u32 (crc b) @ b) @ data_bytes crc bs @ post"
    using Cons.prems(1) by (simp_all add: x data_bytes_def)
  have "4 + length b < 2 ^ 32" using Cons.prems(3) x by simp
  then show ?case
    using Cons.IH [OF f(2) Cons.prems(2)] Cons.prems(3) readBytes_block [where crc = crc and mn = mn and mx = mx, OF f(1) Cons.prems(2)]
    by (simp add: x read_back_def add.assoc)
qed simp

lemma read_added:
  assumes "map (\<lambda>a. (fst a, r (snd (snd a)))) as = map (\<lambda>(k, mn, mx, b). (k, mn, mx, Inr (crc b, b))) bs"
  shows "map r (added_to key as) = map (\<lambda>(k, mn, mx, b). (mn, mx, Inr (crc b, b))) (filter (\<lambda>x. fst x = key) bs)"
  using assms
proof (induction as arbitrary: bs)
  case (Cons a as)
  then obtain k mn mx b bs' where "bs = (k, mn, mx, b) # bs'" by (cases bs) auto
  then show ?case using Cons by (auto simp: added_to_def)
qed (simp add: added_to_def)

text \<open>The length of the index is bounded by the keys and the number of blocks.\<close>

definition index_size :: "block list \<Rightarrow> nat" where
  "index_size bs = (\<Sum>x \<leftarrow> bs. 33 + length (fst x))"

lemma length_index_bytes: "length (index_bytes ss) = (\<Sum>s \<leftarrow> ss. length (sect_bytes s))"
  by (induction ss) (simp_all add: index_bytes_def)

lemma length_sections:
  "length (index_bytes (sections as)) \<le> (\<Sum>a \<leftarrow> as. 33 + length (fst a))"
proof (induction as rule: rev_induct)
  case Nil
  then show ?case by (simp add: index_bytes_def)
next
  case (snoc a as)
  obtain k ty e where a: "a = (k, ty, e)" by (cases a)
  show ?case
  proof (cases "sections as \<noteq> [] \<and> sect_key (last (sections as)) = k")
    case True
    then obtain S s where "sections as = S @ [s]" "sect_key s = k" by (metis append_butlast_last_id)
    then show ?thesis using snoc by (simp add: sections_snoc add_block_def a length_index_bytes length_sect_bytes)
  next
    case False
    then have "sections (as @ [a]) = sections as @ [(k, ty, [e])]" by (auto simp: sections_snoc add_block_def a)
    then show ?thesis using snoc by (simp add: a length_index_bytes length_sect_bytes)
  qed
qed

lemma length_file_index:
  assumes "sorts (\<lambda>e. sint (ix_MinTime e)) srt"
  shows "length (index_bytes (file_sects srt bs)) \<le> index_size bs"
proof -
  have "length (sect_bytes (ordered_sect srt s)) = length (sect_bytes s)" for s
    using in_order_props(3) [OF assms] by (simp add: length_sect_bytes)
  then have "length (index_bytes (file_sects srt bs)) = length (index_bytes (sections (adds 5 bs)))"
    by (simp add: length_index_bytes file_sects_def comp_def)
  also have "\<dots> \<le> (\<Sum>a \<leftarrow> adds 5 bs. 33 + length (fst a))" by (rule length_sections)
  also have "\<dots> = (\<Sum>k \<leftarrow> map fst (adds 5 bs). 33 + length k)" by (simp only: map_map comp_def)
  also have "\<dots> = index_size bs" unfolding map_fst_adds by (simp add: index_size_def comp_def)
  finally show ?thesis .
qed

lemma file_entries:
  assumes "wf_blocks bs" "sorts (\<lambda>e. sint (ix_MinTime e)) srt" "wf_index (file_sects srt bs)"
  shows "\<exists>es. xi_Entries key (loaded (file_sects srt bs)) = Inr es \<and> sorted (map (\<lambda>e. sint (ix_MinTime e)) es) \<and>
      mset es = mset (added_to key (adds 5 bs))"
proof -
  let ?ss = "file_sects srt bs"
  have p: "sorted (map fst (adds 5 bs))" using assms(1) by (simp add: wf_blocks_def)
  note at = ReadEntries_eq [OF loaded_index_of [OF assms(3)], of key]
  show ?thesis
  proof (cases "look (layout 0 ?ss) key")
    case None
    have "added_to key (adds 5 bs) = []"
    proof (rule ccontr)
      assume "added_to key (adds 5 bs) \<noteq> []"
      then have "key \<in> set (map fst (adds 5 bs))" by (auto simp: added_to_def filter_empty_conv simp del: map_fst_adds)
      then obtain s where "s \<in> set (sections (adds 5 bs))" "sect_key s = key" unfolding sections_props(2) [OF p, symmetric] by auto
      then have "key \<in> set (map (\<lambda>x. sect_key (snd x)) (layout 0 ?ss))" unfolding map_snd_layout by (force simp: file_sects_def)
      then show False using None unfolding look_None set_map by blast
    qed
    then show ?thesis
      using at None by (simp add: xi_Entries_def entries_for_def)
  next
    case (Some x)
    then have x: "snd x \<in> set ?ss" "sect_key (snd x) = key" using look_Some [OF Some] set_layout [of x 0 ?ss] by auto
    then obtain s where s: "s \<in> set (sections (adds 5 bs))" "snd x = ordered_sect srt s" by (auto simp: file_sects_def)
    then have "sect_entries s = added_to key (adds 5 bs)" using sections_props(3) [OF p] x(2) by auto
    then show ?thesis
      using at Some s(2) in_order_props(1,2) [OF assms(2)]
      by (simp add: xi_Entries_def entries_for_def)
  qed
qed

section \<open>The round trip\<close>

text \<open>The bytes of a file that was written without an error: it opens, and its index leads to the blocks.\<close>

lemma file_bytes_readable:
  assumes "wf_blocks bs" "bs \<noteq> []" "sorts (\<lambda>e. sint (ix_MinTime e)) srt"
    and "\<forall>(k, mn, mx, b) \<in> set bs. 4 + length b < 2 ^ 32" "length (data_bytes crc bs) < 2 ^ 62" "index_size bs < 2 ^ 31"
  defines "f \<equiv> file_bytes srt crc bs"
  shows "\<exists>d. acc_init f = Inr d \<and> (\<forall>key. \<exists>es. xi_Entries key d = Inr es \<and> sorted (map (\<lambda>e. sint (ix_MinTime e)) es) \<and>
     mset (map (\<lambda>e. (ix_MinTime e, ix_MaxTime e, acc_readBytes f e)) es) =
     mset (map (\<lambda>(k, mn, mx, b). (mn, mx, Inr (crc b, b))) (filter (\<lambda>x. fst x = key) bs)))"
proof -
  let ?ss = "file_sects srt bs" and ?f = "file_bytes srt crc bs"
  have ix: "length (index_bytes ?ss) < 2 ^ 31" using length_file_index [OF assms(3), of bs] assms(6) by simp
  have wfi: "wf_index ?ss" by (rule wf_file_sects [OF assms(1-3) ix])
  have small: "5 + length (data_bytes crc bs) < 2 ^ 64" using assms(5) by simp
  have opened: "acc_init ?f = Inr (loaded ?ss)"
    by (rule init_file [OF wfi _ small]) (simp add: file_bytes_def)
  have "length ?f < 2 ^ 63" using assms(5) ix by (simp add: file_bytes_def)
  then have got: "map (\<lambda>a. (fst a, read_back ?f (snd (snd a)))) (adds 5 bs) = map (\<lambda>(k, mn, mx, b). (k, mn, mx, Inr (crc b, b))) bs"
    using readBytes_adds [of ?f file_header crc bs] assms(4) by (simp add: file_bytes_def)
  have "\<exists>es. xi_Entries key (loaded ?ss) = Inr es \<and> sorted (map (\<lambda>e. sint (ix_MinTime e)) es) \<and>
      mset (map (read_back ?f) es) = mset (map (\<lambda>(k, mn, mx, b). (mn, mx, Inr (crc b, b))) (filter (\<lambda>x. fst x = key) bs))" for key
  proof -
    obtain es where es: "xi_Entries key (loaded ?ss) = Inr es" "sorted (map (\<lambda>e. sint (ix_MinTime e)) es)"
        "mset es = mset (added_to key (adds 5 bs))"
      using file_entries [OF assms(1,3) wfi, of key] by blast
    have "mset (map (read_back ?f) es) = mset (map (read_back ?f) (added_to key (adds 5 bs)))"
      unfolding mset_map es(3) ..
    then show ?thesis using es(1,2) read_added [OF got, of key] by auto
  qed
  then show ?thesis using opened unfolding f_def read_back_def [abs_def] by auto
qed

text \<open>
  C30: An SST file gives back what was written to it. Take blocks with non-empty keys of at most 65535
  bytes in ascending order, fewer than 65535 per key, each with a valid type byte, that fit the 32-bit sizes and
  offsets of the format. Writing them with \<open>WriteBlock\<close> and closing with \<open>WriteIndex\<close> reports no error, the
  file opens, and for every key the index lists entries in time order whose times, checksums and bytes are
  exactly those of the blocks written for the key; a key that was not written has no entries.
\<close>

theorem sst_file_roundtrip:
  assumes "wf_blocks bs" "bs \<noteq> []" "sorts (\<lambda>e. sint (ix_MinTime e)) srt"
    and "\<forall>(k, mn, mx, b) \<in> set bs. 4 + length b < 2 ^ 32" "length (data_bytes crc bs) < 2 ^ 62" "index_size bs < 2 ^ 31"
  shows "\<exists>t t' d. write_blocks srt crc bs NewSSTWriter = Inr (None, t) \<and> sw_WriteIndex srt t = (None, t') \<and>
    acc_init (sw_w t') = Inr d \<and>
    (\<forall>key. \<exists>es. xi_Entries key d = Inr es \<and> sorted (map (\<lambda>e. sint (ix_MinTime e)) es) \<and>
       mset (map (\<lambda>e. (ix_MinTime e, ix_MaxTime e, acc_readBytes (sw_w t') e)) es) =
       mset (map (\<lambda>(k, mn, mx, b). (mn, mx, Inr (crc b, b))) (filter (\<lambda>x. fst x = key) bs)))"
proof -
  have small: "5 + length (data_bytes crc bs) < 2 ^ 64" using assms(5) by simp
  obtain t where t: "write_blocks srt crc bs NewSSTWriter = Inr (None, t)" "sw_rep srt crc bs t"
    using write_blocks_rep [OF assms(1,3) small] by blast
  obtain t' where t': "sw_WriteIndex srt t = (None, t')" "sw_w t' = file_bytes srt crc bs"
    by (rule WriteIndex_rep [OF t(2) assms(1-3)])
  show ?thesis using file_bytes_readable [OF assms] t(1) t' by auto
qed

theorem sst_file_roundtrip_witness:
  "\<exists>t t' d. write_blocks (sort_key (\<lambda>e. sint (ix_MinTime e))) (\<lambda>b. of_nat (length b))
       [([97], 1, 5, [1, 7]), ([97], 6, 9, [1, 8, 8]), ([98], 2, 3, [129, 9])] NewSSTWriter = Inr (None, t) \<and>
     sw_WriteIndex (sort_key (\<lambda>e. sint (ix_MinTime e))) t = (None, t') \<and> acc_init (sw_w t') = Inr d \<and>
     (\<exists>e. xi_Entries [98] d = Inr [e] \<and> ix_MinTime e = 2 \<and> ix_MaxTime e = 3 \<and> acc_readBytes (sw_w t') e = Inr (2, [129, 9])) \<and>
     xi_Entries [99] d = Inr []"
proof -
  let ?bs = "[([97], 1, 5, [1, 7]), ([97], 6, 9, [1, 8, 8]), ([98], 2, 3, [129, 9])] :: block list"
  have 1: "wf_blocks ?bs"
    by (simp add: wf_blocks_def sst_sizes BlockType_def block_type_defs)
  have 2: "\<forall>(k, mn, mx, b) \<in> set ?bs. 4 + length b < 2 ^ 32" "length (data_bytes (\<lambda>b. of_nat (length b)) ?bs) < 2 ^ 62" "index_size ?bs < 2 ^ 31"
    by (simp_all add: data_bytes_def index_size_def)
  obtain t t' d where r: "write_blocks (sort_key (\<lambda>e. sint (ix_MinTime e))) (\<lambda>b. of_nat (length b)) ?bs NewSSTWriter = Inr (None, t)"
      "sw_WriteIndex (sort_key (\<lambda>e. sint (ix_MinTime e))) t = (None, t')" "acc_init (sw_w t') = Inr d"
    and e: "\<And>key. \<exists>es. xi_Entries key d = Inr es \<and> sorted (map (\<lambda>e. sint (ix_MinTime e)) es) \<and>
       mset (map (\<lambda>e. (ix_MinTime e, ix_MaxTime e, acc_readBytes (sw_w t') e)) es) =
       mset (map (\<lambda>(k, mn, mx, b). (mn, mx, Inr (of_nat (length b), b))) (filter (\<lambda>x. fst x = key) ?bs))"
    using sst_file_roundtrip [OF 1 _ sorts_sort_key 2] by auto
  have "\<exists>e. xi_Entries [98] d = Inr [e] \<and> ix_MinTime e = 2 \<and> ix_MaxTime e = 3 \<and> acc_readBytes (sw_w t') e = Inr (2, [129, 9])"
  proof -
    let ?r = "\<lambda>e. (ix_MinTime e, ix_MaxTime e, acc_readBytes (sw_w t') e)"
    obtain es where es: "xi_Entries [98] d = Inr es" "mset (map ?r es) = {#(2, 3, Inr (2, [129, 9]))#}"
      using e [of "[98]"] by auto
    then have "map ?r es = [(2, 3, Inr (2, [129, 9]))]" by (simp only: mset_single_iff)
    then show ?thesis using es(1) by auto
  qed
  moreover have "xi_Entries [99] d = Inr []" using e [of "[99]"] by auto
  ultimately show ?thesis using r by blast
qed

end
