(* ===== verification/Arrays.thy ===== *)
theory Arrays
  imports Values
begin

text \<open>
  Arrays of values, \<open>storage/types/arrayvalues.gen.go\<close>: the timestamps and the values of a series in two parallel
  slices. The file is generated once for each of the five types of values; the model is one record with the type
  of the values as its parameter. The locale \<open>array_type\<close> relates an array to the slice of values it stands
  for, and shows that every method does on the array what its counterpart of \<open>values.gen.go\<close> does on the slice.
\<close>

record 'v array =
  ar_ts :: "u64 list"
  ar_vs :: "'v list"

type_synonym FloatArray = "u64 array"
type_synonym IntegerArray = "u64 array"
type_synonym UnsignedArray = "u64 array"
type_synonym StringArray = "bytes array"
type_synonym BooleanArray = "bool array"

definition arr_Len :: "'v array \<Rightarrow> nat" where
  "arr_Len a = length (ar_ts a)"

text \<open>Both are called on arrays that are not empty.\<close>

definition arr_MinTime :: "'v array \<Rightarrow> int" where
  "arr_MinTime a = sint (ar_ts a ! 0)"

definition arr_MaxTime :: "'v array \<Rightarrow> int" where
  "arr_MaxTime a = sint (ar_ts a ! (length (ar_ts a) - 1))"

definition sized_Size :: "nat \<Rightarrow> 'v array \<Rightarrow> nat" where
  "sized_Size sz a = length (ar_ts a) * 8 + length (ar_vs a) * sz"

definition StringArray_Size :: "StringArray \<Rightarrow> nat" where
  "StringArray_Size a = foldl (\<lambda>sz s. sz + length s) (length (ar_ts a) * 8) (ar_vs a)"

function arr_search_loop :: "'v array \<Rightarrow> int \<Rightarrow> nat \<Rightarrow> nat \<Rightarrow> nat" where
  "arr_search_loop a v lo hi =
     (if lo < hi then
        (let mid = (lo + hi) div 2
         in if sint (ar_ts a ! mid) < v then arr_search_loop a v (mid + 1) hi else arr_search_loop a v lo mid)
      else lo)"
  by pat_completeness auto
termination by (relation "measure (\<lambda>(a, v, lo, hi). hi - lo)") auto

declare arr_search_loop.simps [simp del]

definition arr_search :: "'v array \<Rightarrow> int \<Rightarrow> nat" where
  "arr_search a v = arr_search_loop a v 0 (arr_Len a)"

definition arr_FindRange :: "'v array \<Rightarrow> int \<Rightarrow> int \<Rightarrow> int \<times> int" where
  "arr_FindRange a mn mx =
     (if arr_Len a = 0 \<or> mn > mx then (-1, -1)
      else let minVal = arr_MinTime a; maxVal = arr_MaxTime a
           in if maxVal < mn \<or> minVal > mx then (-1, -1)
              else (int (arr_search a mn), int (arr_search a mx)))"

definition arr_Exclude :: "'v array \<Rightarrow> int \<Rightarrow> int \<Rightarrow> 'v array" where
  "arr_Exclude a mn mx =
     (let (rmin, rmax) = arr_FindRange a mn mx;
          keep = a\<lparr>ar_ts := take (nat rmin) (ar_ts a), ar_vs := take (nat rmin) (ar_vs a)\<rparr>
      in if rmin = -1 \<and> rmax = -1 then a
         else if rmax < int (arr_Len a) then
           (let rmax' = (if sint (ar_ts a ! nat rmax) = mx then rmax + 1 else rmax);
                rest = int (arr_Len a) - rmax'
            in if rest > 0
               then a\<lparr>ar_ts := take (nat rmin) (ar_ts a) @ drop (nat rmax') (ar_ts a),
                      ar_vs := take (nat rmin) (ar_vs a) @ take (nat rest) (drop (nat rmax') (ar_vs a))\<rparr>
               else keep)
         else keep)"

definition arr_Include :: "'v array \<Rightarrow> int \<Rightarrow> int \<Rightarrow> 'v array" where
  "arr_Include a mn mx =
     (let (rmin, rmax) = arr_FindRange a mn mx
      in if rmin = -1 \<and> rmax = -1 then a\<lparr>ar_ts := [], ar_vs := []\<rparr>
         else let rmax' = (if rmax < int (arr_Len a) \<and> sint (ar_ts a ! nat rmax) = mx then rmax + 1 else rmax)
              in if rmin > -1
                 then a\<lparr>ar_ts := drop (nat rmin) (take (nat rmax') (ar_ts a)),
                        ar_vs := drop (nat rmin) (take (nat rmax') (ar_vs a))\<rparr>
                 else a\<lparr>ar_ts := take (nat rmax') (ar_ts a), ar_vs := take (nat rmax') (ar_vs a)\<rparr>)"

definition arr_push :: "'v array \<Rightarrow> nat \<Rightarrow> 'v array \<Rightarrow> 'v array" where
  "arr_push a i out = out\<lparr>ar_ts := ar_ts out @ [ar_ts a ! i], ar_vs := ar_vs out @ [ar_vs a ! i]\<rparr>"

definition arr_rest :: "'v array \<Rightarrow> nat \<Rightarrow> 'v array \<Rightarrow> 'v array" where
  "arr_rest a i out = out\<lparr>ar_ts := ar_ts out @ drop i (ar_ts a), ar_vs := ar_vs out @ drop i (ar_vs a)\<rparr>"

text \<open>The merging loop and what it copies at its end; \<open>out\<close> is the part of the new array that is filled.\<close>

function arr_merge_loop :: "'v array \<Rightarrow> 'v array \<Rightarrow> nat \<Rightarrow> nat \<Rightarrow> 'v array \<Rightarrow> 'v array" where
  "arr_merge_loop a b i j out =
     (if i < length (ar_ts a) \<and> j < length (ar_ts b) then
        (if sint (ar_ts a ! i) < sint (ar_ts b ! j) then arr_merge_loop a b (i + 1) j (arr_push a i out)
         else if sint (ar_ts a ! i) = sint (ar_ts b ! j) then arr_merge_loop a b (i + 1) (j + 1) (arr_push b j out)
         else arr_merge_loop a b i (j + 1) (arr_push b j out))
      else if i < length (ar_ts a) then arr_rest a i out
      else if j < length (ar_ts b) then arr_rest b j out
      else out)"
  by pat_completeness auto
termination by (relation "measure (\<lambda>(a, b, i, j, out). (length (ar_ts a) - i) + (length (ar_ts b) - j))") auto

declare arr_merge_loop.simps [simp del]

definition arr_Merge :: "'v array \<Rightarrow> 'v array \<Rightarrow> 'v array" where
  "arr_Merge a b =
     (if arr_Len a = 0 then b
      else if arr_Len b = 0 then a
      else if arr_MaxTime a < arr_MinTime b then \<lparr>ar_ts = ar_ts a @ ar_ts b, ar_vs = ar_vs a @ ar_vs b\<rparr>
      else if arr_MaxTime b < arr_MinTime a then \<lparr>ar_ts = ar_ts b @ ar_ts a, ar_vs = ar_vs b @ ar_vs a\<rparr>
      else arr_merge_loop a b 0 0 \<lparr>ar_ts = [], ar_vs = []\<rparr>)"

section \<open>Arrays and slices of values\<close>

definition arr_wf :: "'v array \<Rightarrow> bool" where
  "arr_wf a \<longleftrightarrow> length (ar_vs a) = length (ar_ts a)"

text \<open>The slice of values an array stands for, where \<open>mk\<close> makes a value of a timestamp and a payload.\<close>

definition arr_values :: "(u64 \<Rightarrow> 'v \<Rightarrow> Value) \<Rightarrow> 'v array \<Rightarrow> Values" where
  "arr_values mk a = map2 mk (ar_ts a) (ar_vs a)"

locale array_type =
  fixes mk :: "u64 \<Rightarrow> 'v \<Rightarrow> Value"
  assumes unixNano_mk [simp]: "unixNano (mk t x) = t"
    and mk_inject: "mk t x = mk t y \<Longrightarrow> x = y"
begin

abbreviation vals :: "'v array \<Rightarrow> Values" where
  "vals \<equiv> arr_values mk"

lemma length_vals [simp]: "arr_wf a \<Longrightarrow> length (vals a) = arr_Len a"
  by (simp add: arr_values_def arr_wf_def arr_Len_def)

lemma UnixNano_vals [simp]: "arr_wf a \<Longrightarrow> i < arr_Len a \<Longrightarrow> UnixNano (vals a ! i) = sint (ar_ts a ! i)"
  by (simp add: arr_values_def arr_wf_def arr_Len_def UnixNano_def)

lemma vals_Nil_iff [simp]: "arr_wf a \<Longrightarrow> vals a = [] \<longleftrightarrow> arr_Len a = 0"
  by (metis length_vals length_0_conv)

lemma vals_take_drop:
  "vals (a\<lparr>ar_ts := take n (ar_ts a), ar_vs := take n (ar_vs a)\<rparr>) = take n (vals a)"
  "vals (a\<lparr>ar_ts := drop m (take n (ar_ts a)), ar_vs := drop m (take n (ar_vs a))\<rparr>) = drop m (take n (vals a))"
  by (simp_all add: arr_values_def take_map drop_map take_zip drop_zip)

lemma vals_append:
  "arr_wf a \<Longrightarrow> vals \<lparr>ar_ts = ar_ts a @ ar_ts b, ar_vs = ar_vs a @ ar_vs b\<rparr> = vals a @ vals b"
  by (simp add: arr_values_def arr_wf_def)

lemma arr_search_loop_eq:
  "arr_wf a \<Longrightarrow> hi \<le> arr_Len a \<Longrightarrow> arr_search_loop a v lo hi = search_loop (vals a) v lo hi"
proof (induction a v lo hi rule: arr_search_loop.induct)
  case (1 a v lo hi)
  show ?case
  proof (cases "lo < hi")
    case True
    then have "(lo + hi) div 2 < arr_Len a" using "1.prems" by linarith
    then show ?thesis
      using 1 True by (subst arr_search_loop.simps, subst search_loop.simps) (simp add: Let_def)
  qed (subst arr_search_loop.simps, subst search_loop.simps, simp)
qed

lemma arr_search_eq: "arr_wf a \<Longrightarrow> arr_search a v = search (vals a) v"
  by (simp add: arr_search_def search_def arr_search_loop_eq)

lemma arr_FindRange_eq: "arr_wf a \<Longrightarrow> arr_FindRange a mn mx = FindRange (vals a) mn mx"
  by (cases "arr_Len a = 0")
    (simp_all add: arr_FindRange_def FindRange_def Let_def arr_search_eq arr_MinTime_def arr_MaxTime_def flip: arr_Len_def)

lemma FindRange_nat:
  "FindRange a mn mx = (-1, -1) \<or> FindRange a mn mx = (int (search a mn), int (search a mx))"
  by (auto simp: FindRange_def Let_def)

lemma arr_Exclude_eq:
  assumes "arr_wf a"
  shows "arr_wf (arr_Exclude a mn mx)" and "vals (arr_Exclude a mn mx) = Exclude (vals a) mn mx"
proof -
  have len: "length (ar_vs a) = arr_Len a" "length (ar_ts a) = arr_Len a" using assms by (simp_all add: arr_wf_def arr_Len_def)
  have app: "vals (a\<lparr>ar_ts := take m (ar_ts a) @ drop n (ar_ts a), ar_vs := take m (ar_vs a) @ drop n (ar_vs a)\<rparr>) =
      take m (vals a) @ drop n (vals a)" for m n
    using len by (simp add: arr_values_def take_map drop_map take_zip drop_zip)
  have tk: "take (nat (int (arr_Len a) - r)) (drop (nat r) (ar_vs a)) = drop (nat r) (ar_vs a)" if "0 \<le> r" for r
    using that len by (intro take_all) (simp add: nat_diff_distrib)
  note d = arr_Exclude_def Exclude_def arr_FindRange_eq [OF assms] Let_def
  consider "FindRange (vals a) mn mx = (-1, -1)"
    | "FindRange (vals a) mn mx = (int (search (vals a) mn), int (search (vals a) mx))"
    using FindRange_nat by blast
  then have "arr_wf (arr_Exclude a mn mx) \<and> vals (arr_Exclude a mn mx) = Exclude (vals a) mn mx"
  proof cases
    case 2
    have "arr_wf (arr_Exclude a mn mx)" using 2 len by (auto simp: d arr_wf_def)
    moreover have "vals (arr_Exclude a mn mx) = Exclude (vals a) mn mx"
      using 2 assms by (auto simp: d app tk vals_take_drop)
    ultimately show ?thesis ..
  qed (use assms in \<open>simp add: d\<close>)
  then show "arr_wf (arr_Exclude a mn mx)" "vals (arr_Exclude a mn mx) = Exclude (vals a) mn mx" by simp_all
qed

lemma arr_Include_eq:
  assumes "arr_wf a"
  shows "arr_wf (arr_Include a mn mx)" and "vals (arr_Include a mn mx) = Include (vals a) mn mx"
proof -
  have len: "length (ar_vs a) = length (ar_ts a)" using assms by (simp add: arr_wf_def)
  note d = arr_Include_def Include_def arr_FindRange_eq [OF assms] Let_def
  consider "FindRange (vals a) mn mx = (-1, -1)"
    | "FindRange (vals a) mn mx = (int (search (vals a) mn), int (search (vals a) mx))"
    using FindRange_nat by blast
  then have "arr_wf (arr_Include a mn mx) \<and> vals (arr_Include a mn mx) = Include (vals a) mn mx"
  proof cases
    case 1
    then show ?thesis by (simp add: d arr_wf_def arr_values_def)
  next
    case 2
    have "arr_wf (arr_Include a mn mx)" using 2 len by (auto simp: d arr_wf_def)
    moreover have "vals (arr_Include a mn mx) = Include (vals a) mn mx"
      using 2 assms by (auto simp: d vals_take_drop)
    ultimately show ?thesis ..
  qed
  then show "arr_wf (arr_Include a mn mx)" "vals (arr_Include a mn mx) = Include (vals a) mn mx" by simp_all
qed

lemma vals_push:
  "arr_wf a \<Longrightarrow> arr_wf out \<Longrightarrow> i < arr_Len a \<Longrightarrow> vals (arr_push a i out) = vals out @ [vals a ! i] \<and> arr_wf (arr_push a i out)"
  by (simp add: arr_values_def arr_push_def arr_wf_def arr_Len_def)

lemma vals_rest: "arr_wf a \<Longrightarrow> arr_wf out \<Longrightarrow> vals (arr_rest a i out) = vals out @ drop i (vals a) \<and> arr_wf (arr_rest a i out)"
  by (simp add: arr_values_def arr_rest_def arr_wf_def drop_map drop_zip)

text \<open>On equal timestamps the loop takes the value of \<open>b\<close> and advances both, which on ascending arrays is \<open>merge2\<close>.\<close>

lemma merge2_above: "(\<And>v. v \<in> set a \<Longrightarrow> UnixNano w < UnixNano v) \<Longrightarrow> merge2 a (w # b) = w # merge2 a b"
  by (cases a) fastforce+

lemma arr_merge_loop_eq:
  "arr_wf a \<Longrightarrow> arr_wf b \<Longrightarrow> ordered (vals a) \<Longrightarrow> ordered (vals b) \<Longrightarrow> arr_wf out \<Longrightarrow>
   vals (arr_merge_loop a b i j out) = vals out @ merge2 (drop i (vals a)) (drop j (vals b)) \<and>
   arr_wf (arr_merge_loop a b i j out)"
proof (induction a b i j out rule: arr_merge_loop.induct)
  case (1 a b i j out)
  note wf = "1.prems"(1,2,5) and ord = "1.prems"(3,4)
  have len: "length (ar_ts a) = arr_Len a" "length (ar_ts b) = arr_Len b" by (simp_all add: arr_Len_def)
  show ?case
  proof (cases "i < arr_Len a \<and> j < arr_Len b")
    case True
    have A: "drop i (vals a) = vals a ! i # drop (i + 1) (vals a)" "drop j (vals b) = vals b ! j # drop (j + 1) (vals b)"
      using True wf by (simp_all add: Cons_nth_drop_Suc)
    have above: "UnixNano (vals a ! i) < UnixNano v" if "v \<in> set (drop (i + 1) (vals a))" for v
    proof -
      have "ordered (take i (vals a) @ vals a ! i # drop (i + 1) (vals a))" using ord(1) A(1) by (metis append_take_drop_id)
      then show ?thesis using that by (simp add: ordered_append ordered_Cons)
    qed
    have T: "UnixNano (vals a ! i) = sint (ar_ts a ! i)" "UnixNano (vals b ! j) = sint (ar_ts b ! j)" using True wf by simp_all
    note push = vals_push [OF wf(1,3)] vals_push [OF wf(2,3)]
    consider "sint (ar_ts a ! i) < sint (ar_ts b ! j)" | "sint (ar_ts a ! i) = sint (ar_ts b ! j)" | "sint (ar_ts b ! j) < sint (ar_ts a ! i)"
      by linarith
    then show ?thesis
    proof cases
      case 1
      then have "arr_merge_loop a b i j out = arr_merge_loop a b (i + 1) j (arr_push a i out)"
        using True by (subst arr_merge_loop.simps) (simp add: len)
      then show ?thesis using "1.IH"(1) True 1 wf ord push A T by (simp add: len)
    next
      case 2
      then have "arr_merge_loop a b i j out = arr_merge_loop a b (i + 1) (j + 1) (arr_push b j out)"
        using True by (subst arr_merge_loop.simps) (simp add: len)
      moreover have "merge2 (drop (i + 1) (vals a)) (vals b ! j # drop (j + 1) (vals b)) =
          vals b ! j # merge2 (drop (i + 1) (vals a)) (drop (j + 1) (vals b))"
        using above 2 T by (intro merge2_above) simp
      ultimately show ?thesis using "1.IH"(2) True 2 wf ord push A T by (simp add: len)
    next
      case 3
      then have "arr_merge_loop a b i j out = arr_merge_loop a b i (j + 1) (arr_push b j out)"
        using True by (subst arr_merge_loop.simps) (simp add: len)
      then show ?thesis using "1.IH"(3) True 3 wf ord push A T by (simp add: len)
    qed
  next
    case False
    have nil: "merge2 c [] = c" for c by (cases c) simp_all
    show ?thesis
      using False wf vals_rest [OF wf(1,3), of i] vals_rest [OF wf(2,3), of j]
      by (subst (1 2) arr_merge_loop.simps) (auto simp: len nil)
  qed
qed

text \<open>\<open>Merge\<close> of ascending arrays is \<open>Merge\<close> of the slices.\<close>

lemma arr_Merge_eq:
  assumes wf: "arr_wf a" "arr_wf b" and ord: "ordered (vals a)" "ordered (vals b)"
  shows "arr_wf (arr_Merge a b)" and "vals (arr_Merge a b) = Merge (vals a) (vals b)"
proof -
  have len: "length (ar_ts a) = arr_Len a" "length (ar_ts b) = arr_Len b" by (simp_all add: arr_Len_def)
  have dd: "Deduplicate (vals a) = vals a" "Deduplicate (vals b) = vals b" using ord by (simp_all add: Deduplicate_cases)
  have e: "arr_wf \<lparr>ar_ts = [], ar_vs = []\<rparr>" "vals \<lparr>ar_ts = [], ar_vs = []\<rparr> = []" by (simp_all add: arr_wf_def arr_values_def)
  have "arr_wf (arr_Merge a b) \<and> vals (arr_Merge a b) = Merge (vals a) (vals b)"
  proof (cases "arr_Len a = 0 \<or> arr_Len b = 0")
    case True
    then show ?thesis using wf by (auto simp: arr_Merge_def Merge_def)
  next
    case False
    then have t: "arr_MaxTime a = UnixNano (vals a ! (length (vals a) - 1))" "arr_MinTime a = UnixNano (vals a ! 0)"
      "arr_MaxTime b = UnixNano (vals b ! (length (vals b) - 1))" "arr_MinTime b = UnixNano (vals b ! 0)"
      using wf by (simp_all add: arr_MaxTime_def arr_MinTime_def len)
    have app: "arr_wf \<lparr>ar_ts = ar_ts a @ ar_ts b, ar_vs = ar_vs a @ ar_vs b\<rparr>" "arr_wf \<lparr>ar_ts = ar_ts b @ ar_ts a, ar_vs = ar_vs b @ ar_vs a\<rparr>"
      using wf by (simp_all add: arr_wf_def)
    show ?thesis
      using False arr_merge_loop_eq [OF wf ord e(1), of 0 0] app wf
      by (simp add: arr_Merge_def Merge_def dd t e(2) vals_append merge_loop_merge2)
  qed
  then show "arr_wf (arr_Merge a b)" "vals (arr_Merge a b) = Merge (vals a) (vals b)" by simp_all
qed

end

interpretation float_array: array_type FloatValue by unfold_locales simp_all
interpretation integer_array: array_type IntegerValue by unfold_locales simp_all
interpretation unsigned_array: array_type UnsignedValue by unfold_locales simp_all
interpretation boolean_array: array_type BooleanValue by unfold_locales simp_all
interpretation string_array: array_type StringValue by unfold_locales simp_all

text \<open>
  C33: The methods of the five kinds of arrays do on the array what the methods of the slices of values do on the slice of
  values it stands for, and keep the two slices of an array equally long.
\<close>

theorem array_methods_refine_values:
  assumes "array_type mk" and "arr_wf a" and "arr_wf b" and "ordered (arr_values mk a)" and "ordered (arr_values mk b)"
  shows "arr_FindRange a mn mx = FindRange (arr_values mk a) mn mx \<and>
    arr_wf (arr_Exclude a mn mx) \<and> arr_values mk (arr_Exclude a mn mx) = Exclude (arr_values mk a) mn mx \<and>
    arr_wf (arr_Include a mn mx) \<and> arr_values mk (arr_Include a mn mx) = Include (arr_values mk a) mn mx \<and>
    arr_wf (arr_Merge a b) \<and> arr_values mk (arr_Merge a b) = Merge (arr_values mk a) (arr_values mk b)"
  using array_type.arr_FindRange_eq [OF assms(1,2)] array_type.arr_Exclude_eq [OF assms(1,2)]
    array_type.arr_Include_eq [OF assms(1,2)] array_type.arr_Merge_eq [OF assms]
  by blast

theorem array_methods_refine_values_witness:
  "arr_values FloatValue (arr_Merge \<lparr>ar_ts = [1, 3], ar_vs = [10, 30]\<rparr> \<lparr>ar_ts = [2, 3], ar_vs = [20, 31]\<rparr>) =
     Merge [FloatValue 1 10, FloatValue 3 30] [FloatValue 2 20, FloatValue 3 31]"
proof -
  let ?a = "\<lparr>ar_ts = [1, 3], ar_vs = [10, 30]\<rparr> :: FloatArray" and ?b = "\<lparr>ar_ts = [2, 3], ar_vs = [20, 31]\<rparr> :: FloatArray"
  have "arr_wf ?a" "arr_wf ?b" "ordered (arr_values FloatValue ?a)" "ordered (arr_values FloatValue ?b)"
    by (simp_all add: arr_wf_def arr_values_def UnixNano_def)
  from array_methods_refine_values [OF float_array.array_type_axioms this] show ?thesis by (simp add: arr_values_def)
qed

end
