(* ===== verification/KeyCursor.thy ===== *)
theory KeyCursor
  imports Arrays SstRead
begin

text \<open>
  The cursor over the blocks of a series in the SST files, \<open>storage/store/sst_file_key_cursor.go\<close> with its
  generated readers in \<open>sst_file_key_cursor_array.gen.go\<close> and \<open>sst_file_key_cursor_value.gen.go\<close>, and
  \<open>FileStore.locations\<close> of \<open>sst_file.go\<close>. The readers are generated for five types of values and two
  containers, arrays and slices; the model is one function with the methods of the container as its parameter.
  The slices \<open>seeks\<close> and \<open>current\<close> share the locations they point to: \<open>seeks\<close> is the store of the locations and
  \<open>current\<close> holds indices into it. An SST file is the record of the methods the cursor calls. Reference counts are
  left out, and so is the state of the cursor after a read has failed.
\<close>

section \<open>The cursor\<close>

definition i64 :: "int \<Rightarrow> int" where
  "i64 x = sint (word_of_int x :: u64)"

definition min_i64 :: int where "min_i64 = - (2 ^ 63)"
definition max_i64 :: int where "max_i64 = 2 ^ 63 - 1"

record 'c container =
  co_empty :: 'c
  co_Len :: "'c \<Rightarrow> nat"
  co_MinTime :: "'c \<Rightarrow> int"
  co_MaxTime :: "'c \<Rightarrow> int"
  co_Exclude :: "'c \<Rightarrow> int \<Rightarrow> int \<Rightarrow> 'c"
  co_Include :: "'c \<Rightarrow> int \<Rightarrow> int \<Rightarrow> 'c"
  co_Merge :: "'c \<Rightarrow> 'c \<Rightarrow> 'c"

record 'c SSTFile =
  sf_Path :: bytes
  sf_TimeRange :: "int \<times> int"
  sf_ReadEntries :: "bytes \<Rightarrow> IndexEntry list"
  sf_TombstoneRange :: "bytes \<Rightarrow> (int \<times> int) list"
  sf_ReadAt :: "IndexEntry \<Rightarrow> 'c result"

record 'c location =
  lo_r :: "'c SSTFile"
  lo_entry :: IndexEntry
  lo_readMin :: int
  lo_readMax :: int

abbreviation lo_min :: "'c location \<Rightarrow> int" where "lo_min l \<equiv> sint (ix_MinTime (lo_entry l))"
abbreviation lo_max :: "'c location \<Rightarrow> int" where "lo_max l \<equiv> sint (ix_MaxTime (lo_entry l))"

definition lo_read :: "'c location \<Rightarrow> bool" where
  "lo_read l \<longleftrightarrow> lo_readMin l \<le> lo_min l \<and> lo_readMax l \<ge> lo_max l"

definition markRead :: "int \<Rightarrow> int \<Rightarrow> 'c location \<Rightarrow> 'c location" where
  "markRead mn mx l =
     l\<lparr>lo_readMin := (if mn < lo_readMin l then mn else lo_readMin l),
       lo_readMax := (if mx > lo_readMax l then mx else lo_readMax l)\<rparr>"

definition lo_overlaps :: "'c location \<Rightarrow> int \<Rightarrow> int \<Rightarrow> bool" where
  "lo_overlaps l mn mx \<longleftrightarrow> lo_min l \<le> mx \<and> lo_max l \<ge> mn"

definition lo_contains :: "'c location \<Rightarrow> int \<Rightarrow> bool" where
  "lo_contains l t \<longleftrightarrow> lo_min l \<le> t \<and> t \<le> lo_max l"

definition asc_Less :: "'c location \<Rightarrow> 'c location \<Rightarrow> bool" where
  "asc_Less a b =
     (if lo_overlaps a (lo_min b) (lo_max b) then bytes_Compare (sf_Path (lo_r a)) (sf_Path (lo_r b)) < 0
      else lo_min a < lo_min b)"

definition desc_Less :: "'c location \<Rightarrow> 'c location \<Rightarrow> bool" where
  "desc_Less a b =
     (if lo_overlaps a (lo_min b) (lo_max b) then bytes_Compare (sf_Path (lo_r a)) (sf_Path (lo_r b)) < 0
      else lo_max a < lo_max b)"

record 'c KeyCursor =
  kc_key :: bytes
  kc_seeks :: "'c location list"
  kc_current :: "nat list"
  kc_pos :: int
  kc_ascending :: bool

text \<open>\<open>FileStore.locations\<close>: the blocks of the key that may hold values from \<open>t\<close> on, or up to \<open>t\<close>.\<close>

definition new_location :: "bool \<Rightarrow> int \<Rightarrow> 'c SSTFile \<Rightarrow> IndexEntry \<Rightarrow> 'c location" where
  "new_location ascending t fd ie =
     (if ascending then \<lparr>lo_r = fd, lo_entry = ie, lo_readMin = min_i64, lo_readMax = i64 (t - 1)\<rparr>
      else \<lparr>lo_r = fd, lo_entry = ie, lo_readMin = i64 (t + 1), lo_readMax = max_i64\<rparr>)"

definition entry_wanted :: "bool \<Rightarrow> int \<Rightarrow> (int \<times> int) list \<Rightarrow> IndexEntry \<Rightarrow> bool" where
  "entry_wanted ascending t tombstones ie \<longleftrightarrow>
     \<not> list_ex (\<lambda>(mn, mx). mn \<le> sint (ix_MinTime ie) \<and> mx \<ge> sint (ix_MaxTime ie)) tombstones \<and>
     \<not> (if ascending then sint (ix_MaxTime ie) < t else sint (ix_MinTime ie) > t)"

definition fs_locations :: "'c SSTFile list \<Rightarrow> bytes \<Rightarrow> int \<Rightarrow> bool \<Rightarrow> 'c location list" where
  "fs_locations files key t ascending =
     concat (map (\<lambda>fd.
       let (minTime, maxTime) = sf_TimeRange fd
       in if ascending \<and> maxTime < t then []
          else if \<not> ascending \<and> minTime > t then []
          else map (new_location ascending t fd)
                 (filter (entry_wanted ascending t (sf_TombstoneRange fd key)) (sf_ReadEntries fd key))) files)"

definition seek_step :: "nat \<Rightarrow> bool \<Rightarrow> 'c KeyCursor \<Rightarrow> 'c KeyCursor" where
  "seek_step i wanted c =
     (if wanted then c\<lparr>kc_pos := (if kc_current c = [] then int i else kc_pos c), kc_current := kc_current c @ [i]\<rparr>
      else c)"

definition seekAscending :: "int \<Rightarrow> 'c KeyCursor \<Rightarrow> 'c KeyCursor" where
  "seekAscending t c =
     fold (\<lambda>i c. seek_step i (let e = kc_seeks c ! i in t < lo_min e \<or> lo_contains e t) c) [0..<length (kc_seeks c)] c"

definition seekDescending :: "int \<Rightarrow> 'c KeyCursor \<Rightarrow> 'c KeyCursor" where
  "seekDescending t c =
     fold (\<lambda>i c. seek_step i (let e = kc_seeks c ! i in t > lo_max e \<or> lo_contains e t) c) (rev [0..<length (kc_seeks c)]) c"

definition kc_seek :: "int \<Rightarrow> 'c KeyCursor \<Rightarrow> 'c KeyCursor" where
  "kc_seek t c =
     (if kc_seeks c = [] then c
      else if kc_ascending c then seekAscending t (c\<lparr>kc_current := []\<rparr>)
      else seekDescending t (c\<lparr>kc_current := []\<rparr>))"

text \<open>\<open>srt\<close> is \<open>sort.Sort\<close>, given the order to sort by.\<close>

definition newKeyCursor ::
  "(('c location \<Rightarrow> 'c location \<Rightarrow> bool) \<Rightarrow> 'c location list \<Rightarrow> 'c location list) \<Rightarrow>
   'c SSTFile list \<Rightarrow> bytes \<Rightarrow> int \<Rightarrow> bool \<Rightarrow> 'c KeyCursor" where
  "newKeyCursor srt files key t ascending =
     kc_seek t \<lparr>kc_key = key, kc_seeks = srt (if ascending then asc_Less else desc_Less) (fs_locations files key t ascending),
       kc_current = [], kc_pos = 0, kc_ascending = ascending\<rparr>"

definition unread :: "'c KeyCursor \<Rightarrow> nat \<Rightarrow> bool" where
  "unread c i \<longleftrightarrow> \<not> lo_read (kc_seeks c ! i)"

definition nextAscending :: "'c KeyCursor \<Rightarrow> 'c KeyCursor" where
  "nextAscending c =
     (let n = length (kc_seeks c)
      in case filter (unread c) [nat (kc_pos c + 1)..<n] of
           [] \<Rightarrow> c\<lparr>kc_pos := max (int n) (kc_pos c + 1)\<rparr>
         | p # _ \<Rightarrow> c\<lparr>kc_pos := int p, kc_current := p # filter (unread c) [p + 1..<n]\<rparr>)"

definition nextDescending :: "'c KeyCursor \<Rightarrow> 'c KeyCursor" where
  "nextDescending c =
     (case filter (unread c) (rev [0..<nat (kc_pos c)]) of
        [] \<Rightarrow> c\<lparr>kc_pos := min (-1) (kc_pos c - 1)\<rparr>
      | p # _ \<Rightarrow> c\<lparr>kc_pos := int p, kc_current := p # filter (unread c) (rev [0..<p + 1])\<rparr>)"

definition kc_Next :: "'c KeyCursor \<Rightarrow> 'c KeyCursor" where
  "kc_Next c =
     (case kc_current c of
        [] \<Rightarrow> c
      | i # _ \<Rightarrow>
          if unread c i then c
          else if kc_ascending c then nextAscending (c\<lparr>kc_current := []\<rparr>)
          else nextDescending (c\<lparr>kc_current := []\<rparr>))"

section \<open>Reading a block\<close>

definition excludeTombstones :: "'c container \<Rightarrow> (int \<times> int) list \<Rightarrow> 'c \<Rightarrow> 'c" where
  "excludeTombstones ops t values = fold (\<lambda>(mn, mx) v. co_Exclude ops v mn mx) t values"

text \<open>The jump back to \<open>LOOP\<close>: blocks with nothing left to read are dropped from the front of \<open>current\<close>.\<close>

fun read_first :: "'c container \<Rightarrow> bytes \<Rightarrow> 'c location list \<Rightarrow> nat list \<Rightarrow> (nat list \<times> 'c) result" where
  "read_first ops key seeks [] = Inr ([], co_empty ops)"
| "read_first ops key seeks (i # current) =
     (let first = seeks ! i
      in bind_result (sf_ReadAt (lo_r first) (lo_entry first)) (\<lambda>v.
         let v1 = co_Exclude ops v (lo_readMin first) (lo_readMax first);
             values = excludeTombstones ops (sf_TombstoneRange (lo_r first) key) v1
         in if co_Len ops values = 0 then read_first ops key seeks current
            else Inr (i # current, values)))"

definition widen :: "bool \<Rightarrow> 'c location list \<Rightarrow> nat list \<Rightarrow> int \<times> int \<Rightarrow> int \<times> int" where
  "widen ascending seeks rest w =
     fold (\<lambda>i (minT, maxT).
       let cur = seeks ! i
       in if ascending then (if lo_min cur < minT \<and> \<not> lo_read cur then (lo_min cur, maxT) else (minT, maxT))
          else (if lo_max cur > maxT \<and> \<not> lo_read cur then (minT, lo_max cur) else (minT, maxT))) rest w"

text \<open>The first block that overlaps the window extends it to the other side, and the values are cut to it.\<close>

definition extend :: "bool \<Rightarrow> 'c container \<Rightarrow> 'c location list \<Rightarrow> nat list \<Rightarrow> int \<times> int \<Rightarrow> 'c \<Rightarrow> (int \<times> int) \<times> 'c" where
  "extend ascending ops seeks rest w values =
     (let (minT, maxT) = w
      in case filter (\<lambda>i. lo_overlaps (seeks ! i) minT maxT \<and> \<not> lo_read (seeks ! i)) rest of
           [] \<Rightarrow> (w, values)
         | i # _ \<Rightarrow>
             (let cur = seeks ! i;
                  (minT', maxT') =
                    (if ascending then (minT, if lo_max cur > maxT then lo_max cur else maxT)
                     else (if lo_min cur < minT then lo_min cur else minT, maxT))
              in ((minT', maxT'), co_Include ops values minT' maxT')))"

fun merge_rest ::
  "bool \<Rightarrow> 'c container \<Rightarrow> bytes \<Rightarrow> int \<Rightarrow> int \<Rightarrow> nat list \<Rightarrow> 'c location list \<Rightarrow> 'c \<Rightarrow> ('c location list \<times> 'c) result" where
  "merge_rest ascending ops key minT maxT [] seeks values = Inr (seeks, values)"
| "merge_rest ascending ops key minT maxT (i # rest) seeks values =
     (let cur = seeks ! i; seeks' = seeks[i := markRead minT maxT cur]
      in if \<not> lo_overlaps cur minT maxT \<or> lo_read cur
         then merge_rest ascending ops key minT maxT rest seeks' values
         else bind_result (sf_ReadAt (lo_r cur) (lo_entry cur)) (\<lambda>v.
              let v1 = excludeTombstones ops (sf_TombstoneRange (lo_r cur) key) v;
                  v2 = co_Exclude ops v1 (lo_readMin cur) (lo_readMax cur);
                  values' =
                    (if co_Len ops v2 > 0 then
                       (let v3 = co_Include ops v2 minT maxT
                        in if ascending then co_Merge ops values v3 else co_Merge ops v3 values)
                     else values)
              in merge_rest ascending ops key minT maxT rest seeks' values'))"

definition read_block :: "'c container \<Rightarrow> 'c KeyCursor \<Rightarrow> ('c \<times> 'c KeyCursor) result" where
  "read_block ops c =
     bind_result (read_first ops (kc_key c) (kc_seeks c) (kc_current c)) (\<lambda>(current, values).
       case current of
         [] \<Rightarrow> Inr (co_empty ops, c\<lparr>kc_current := []\<rparr>)
       | i # rest \<Rightarrow>
           (let seeks = kc_seeks c; first = seeks ! i
            in if rest = [] then
                 Inr (values, c\<lparr>kc_current := current,
                   kc_seeks := (if co_Len ops values > 0
                     then seeks[i := markRead (co_MinTime ops values) (co_MaxTime ops values) first] else seeks)\<rparr>)
               else
                 let w0 = (if co_Len ops values > 0 then (co_MinTime ops values, co_MaxTime ops values)
                           else (lo_readMin first, lo_readMax first));
                     w1 = widen (kc_ascending c) seeks rest w0;
                     ((minT, maxT), values1) = extend (kc_ascending c) ops seeks rest w1 values
                 in bind_result (merge_rest (kc_ascending c) ops (kc_key c) minT maxT rest seeks values1) (\<lambda>(seeks', values2).
                      Inr (values2, c\<lparr>kc_current := current, kc_seeks := seeks'[i := markRead minT maxT (seeks' ! i)]\<rparr>))))"

text \<open>A consumer that reads blocks until one is empty, as the array cursors do.\<close>

fun drain :: "nat \<Rightarrow> 'c container \<Rightarrow> 'c KeyCursor \<Rightarrow> 'c list result" where
  "drain 0 ops c = Inl Diverged"
| "drain (Suc n) ops c =
     bind_result (read_block ops c) (\<lambda>(v, c').
       if co_Len ops v = 0 then Inr [] else bind_result (drain n ops (kc_Next c')) (\<lambda>vs. Inr (v # vs)))"

section \<open>What a location still has to deliver\<close>

definition in_range :: "int \<Rightarrow> int \<Rightarrow> Value \<Rightarrow> bool" where
  "in_range mn mx x \<longleftrightarrow> mn \<le> UnixNano x \<and> UnixNano x \<le> mx"

definition stored :: "('c \<Rightarrow> Values) \<Rightarrow> 'c location \<Rightarrow> Values" where
  "stored absv l = (case sf_ReadAt (lo_r l) (lo_entry l) of Inl e \<Rightarrow> [] | Inr v \<Rightarrow> absv v)"

definition live :: "('c \<Rightarrow> Values) \<Rightarrow> bytes \<Rightarrow> 'c location \<Rightarrow> Values" where
  "live absv key l = filter (\<lambda>x. \<not> list_ex (\<lambda>(mn, mx). in_range mn mx x) (sf_TombstoneRange (lo_r l) key)) (stored absv l)"

definition unseen :: "('c \<Rightarrow> Values) \<Rightarrow> bytes \<Rightarrow> 'c location \<Rightarrow> Values" where
  "unseen absv key l = filter (\<lambda>x. \<not> in_range (lo_readMin l) (lo_readMax l) x) (live absv key l)"

definition block_ok :: "('c \<Rightarrow> bool) \<Rightarrow> ('c \<Rightarrow> Values) \<Rightarrow> 'c location \<Rightarrow> bool" where
  "block_ok cwf absv l \<longleftrightarrow>
     (\<exists>v. sf_ReadAt (lo_r l) (lo_entry l) = Inr v \<and> cwf v \<and> ordered (absv v) \<and> (\<forall>x \<in> set (absv v). in_range (lo_min l) (lo_max l) x))"

text \<open>Behind an ascending cursor everything before some time is read, behind a descending one everything after.\<close>

definition edge :: "bool \<Rightarrow> 'c location \<Rightarrow> bool" where
  "edge ascending l \<longleftrightarrow> (if ascending then lo_readMin l \<le> min_i64 else lo_readMax l \<ge> max_i64)"

lemma value_bounds: "min_i64 \<le> UnixNano x" "UnixNano x \<le> max_i64"
  using UnixNano_bounds [of x] by (simp_all add: min_i64_def max_i64_def)

lemma markRead_fields [simp]:
  "lo_r (markRead mn mx l) = lo_r l" "lo_entry (markRead mn mx l) = lo_entry l"
  "markRead mn mx (markRead mn mx l) = markRead mn mx l"
  by (simp_all add: markRead_def)

lemma markRead_same [simp]:
  "stored absv (markRead mn mx l) = stored absv l" "live absv key (markRead mn mx l) = live absv key l"
  "block_ok cwf absv (markRead mn mx l) = block_ok cwf absv l"
  by (simp_all add: stored_def live_def block_ok_def)

lemma edge_markRead: "edge ascending l \<Longrightarrow> edge ascending (markRead mn mx l)"
  by (auto simp: edge_def markRead_def)

text \<open>The side of a window that nothing unseen lies beyond.\<close>

definition bounded :: "bool \<Rightarrow> int \<Rightarrow> int \<Rightarrow> Values \<Rightarrow> bool" where
  "bounded ascending mn mx vs \<longleftrightarrow> (\<forall>x \<in> set vs. if ascending then mn \<le> UnixNano x else UnixNano x \<le> mx)"

lemma unseen_markRead:
  assumes "edge ascending l" and "bounded ascending mn mx (unseen absv key l)"
  shows "unseen absv key (markRead mn mx l) = filter (\<lambda>x. \<not> in_range mn mx x) (unseen absv key l)"
proof -
  have "\<not> in_range (lo_readMin (markRead mn mx l)) (lo_readMax (markRead mn mx l)) x \<longleftrightarrow>
      \<not> in_range (lo_readMin l) (lo_readMax l) x \<and> \<not> in_range mn mx x" if "x \<in> set (live absv key l)" for x
  proof -
    have "\<not> in_range (lo_readMin l) (lo_readMax l) x \<Longrightarrow> if ascending then mn \<le> UnixNano x else UnixNano x \<le> mx"
      using assms(2) that by (simp add: bounded_def unseen_def)
    then show ?thesis
      using assms(1) value_bounds [of x] by (cases ascending) (auto simp: in_range_def markRead_def edge_def)
  qed
  then show ?thesis by (simp add: unseen_def cong: filter_cong)
qed

lemma live_in_range: "block_ok cwf absv l \<Longrightarrow> x \<in> set (live absv key l) \<Longrightarrow> in_range (lo_min l) (lo_max l) x"
  by (auto simp: live_def stored_def block_ok_def)

lemma unseen_in_range: "block_ok cwf absv l \<Longrightarrow> x \<in> set (unseen absv key l) \<Longrightarrow> in_range (lo_min l) (lo_max l) x"
  by (rule live_in_range) (auto simp: unseen_def)

lemma unseen_read: "block_ok cwf absv l \<Longrightarrow> lo_read l \<Longrightarrow> unseen absv key l = []"
  using unseen_in_range [of cwf absv l _ key]
  by (fastforce simp: lo_read_def in_range_def unseen_def filter_empty_conv)

lemma ordered_unseen: "block_ok cwf absv l \<Longrightarrow> ordered (unseen absv key l)"
  by (auto simp: unseen_def live_def stored_def block_ok_def intro!: ordered_filter)

section \<open>The values of the last location count\<close>

lemma latest_filter_time: "latest t (filter (\<lambda>x. P (UnixNano x)) a) = (if P t then latest t a else None)"
proof -
  have "filter (\<lambda>v. UnixNano v = t) (filter (\<lambda>x. P (UnixNano x)) a) = (if P t then filter (\<lambda>v. UnixNano v = t) a else [])"
    by (induction a) auto
  then show ?thesis by (simp add: latest_def)
qed

lemma latest_in_range: "latest t (filter (in_range mn mx) a) = (if mn \<le> t \<and> t \<le> mx then latest t a else None)"
  and latest_not_in_range: "latest t (filter (\<lambda>x. \<not> in_range mn mx x) a) = (if mn \<le> t \<and> t \<le> mx then None else latest t a)"
  using latest_filter_time [where P = "\<lambda>u. mn \<le> u \<and> u \<le> mx"] latest_filter_time [where P = "\<lambda>u. \<not> (mn \<le> u \<and> u \<le> mx)"]
  unfolding in_range_def by simp_all

text \<open>\<open>newest F js t\<close>: the value at \<open>t\<close> of the greatest index that has one.\<close>

definition newest :: "(nat \<Rightarrow> Values) \<Rightarrow> nat set \<Rightarrow> int \<Rightarrow> Value option" where
  "newest F J t = (let K = {j \<in> J. latest t (F j) \<noteq> None} in if K = {} then None else latest t (F (Max K)))"

lemma latest_concat_sorted: "sorted js \<Longrightarrow> latest t (concat (map F js)) = newest F (set js) t"
proof (induction js rule: rev_induct)
  case (snoc j js)
  let ?K = "{i \<in> set js. latest t (F i) \<noteq> None}"
  have le: "i \<le> j" if "i \<in> ?K" for i using that snoc.prems by (auto simp: sorted_append)
  show ?case
  proof (cases "latest t (F j)")
    case None
    then have "{i \<in> set (js @ [j]). latest t (F i) \<noteq> None} = ?K" by auto
    then show ?thesis using None snoc by (simp add: latest_append newest_def sorted_append)
  next
    case (Some v)
    then have eq: "{i \<in> set (js @ [j]). latest t (F i) \<noteq> None} = insert j ?K" by auto
    have "Max (insert j ?K) = j" using le by (intro Max_eqI) auto
    then show ?thesis using Some eq by (simp add: latest_append newest_def Let_def)
  qed
qed (simp add: newest_def)

lemma newest_cong:
  assumes "\<And>j. latest t (F j) \<noteq> None \<Longrightarrow> j \<in> J \<longleftrightarrow> j \<in> K"
  shows "newest F J t = newest F K t"
proof -
  have "{j \<in> J. latest t (F j) \<noteq> None} = {j \<in> K. latest t (F j) \<noteq> None}" using assms by blast
  then show ?thesis by (simp add: newest_def)
qed

text \<open>A location before the first read: everything before \<open>t\<close> (behind \<open>t\<close>, descending) counts as read.\<close>

definition fresh_at :: "bool \<Rightarrow> int \<Rightarrow> 'c location \<Rightarrow> bool" where
  "fresh_at asc t l \<longleftrightarrow> edge asc l \<and> (if asc then lo_readMax l = t - 1 else lo_readMin l = t + 1)"

section \<open>The contract of a container\<close>

locale series_container =
  fixes ops :: "'c container" and absv :: "'c \<Rightarrow> Values" and cwf :: "'c \<Rightarrow> bool"
  assumes empty: "cwf (co_empty ops)" "absv (co_empty ops) = []"
    and Len: "cwf v \<Longrightarrow> co_Len ops v = length (absv v)"
    and MinTime: "cwf v \<Longrightarrow> absv v \<noteq> [] \<Longrightarrow> co_MinTime ops v = UnixNano (hd (absv v))"
    and MaxTime: "cwf v \<Longrightarrow> absv v \<noteq> [] \<Longrightarrow> co_MaxTime ops v = UnixNano (last (absv v))"
    and Exclude: "cwf v \<Longrightarrow> ordered (absv v) \<Longrightarrow>
      cwf (co_Exclude ops v mn mx) \<and> absv (co_Exclude ops v mn mx) = filter (\<lambda>x. \<not> in_range mn mx x) (absv v)"
    and Include: "cwf v \<Longrightarrow> ordered (absv v) \<Longrightarrow>
      cwf (co_Include ops v mn mx) \<and> absv (co_Include ops v mn mx) = filter (in_range mn mx) (absv v)"
    and Merge: "cwf v \<Longrightarrow> cwf w \<Longrightarrow> ordered (absv v) \<Longrightarrow> ordered (absv w) \<Longrightarrow>
      cwf (co_Merge ops v w) \<and> ordered (absv (co_Merge ops v w)) \<and>
      (\<forall>t. latest t (absv (co_Merge ops v w)) = latest t (absv v @ absv w))"
begin

lemma excludeTombstones_eq:
  "cwf v \<Longrightarrow> ordered (absv v) \<Longrightarrow>
   cwf (excludeTombstones ops ts v) \<and>
   absv (excludeTombstones ops ts v) = filter (\<lambda>x. \<not> list_ex (\<lambda>(mn, mx). in_range mn mx x) ts) (absv v)"
proof (induction ts arbitrary: v)
  case (Cons r ts)
  obtain mn mx where r: "r = (mn, mx)" by force
  have "cwf (co_Exclude ops v mn mx)" "absv (co_Exclude ops v mn mx) = filter (\<lambda>x. \<not> in_range mn mx x) (absv v)"
    using Exclude [OF Cons.prems] by auto
  moreover from this have "ordered (absv (co_Exclude ops v mn mx))" using Cons.prems(2) by (simp add: ordered_filter)
  ultimately show ?case
    using Cons.IH [of "co_Exclude ops v mn mx"] r by (simp add: excludeTombstones_def conj_commute)
qed (simp add: excludeTombstones_def)

text \<open>Both orders of removing tombstones and what was read before leave what is unseen.\<close>

lemma read_unseen:
  assumes "block_ok cwf absv l"
  obtains v where "sf_ReadAt (lo_r l) (lo_entry l) = Inr v"
    "cwf (excludeTombstones ops (sf_TombstoneRange (lo_r l) key) (co_Exclude ops v (lo_readMin l) (lo_readMax l)))"
    "absv (excludeTombstones ops (sf_TombstoneRange (lo_r l) key) (co_Exclude ops v (lo_readMin l) (lo_readMax l))) = unseen absv key l"
    "cwf (co_Exclude ops (excludeTombstones ops (sf_TombstoneRange (lo_r l) key) v) (lo_readMin l) (lo_readMax l))"
    "absv (co_Exclude ops (excludeTombstones ops (sf_TombstoneRange (lo_r l) key) v) (lo_readMin l) (lo_readMax l)) = unseen absv key l"
proof -
  obtain v where v: "sf_ReadAt (lo_r l) (lo_entry l) = Inr v" "cwf v" "ordered (absv v)" using assms by (auto simp: block_ok_def)
  have e: "cwf (co_Exclude ops v mn mx)" "absv (co_Exclude ops v mn mx) = filter (\<lambda>x. \<not> in_range mn mx x) (absv v)"
    "ordered (absv (co_Exclude ops v mn mx))" for mn mx
    using Exclude [OF v(2,3)] v(3) by (auto simp: ordered_filter)
  note t = excludeTombstones_eq [OF v(2,3)]
  then have t3: "ordered (absv (excludeTombstones ops ts v))" for ts using v(3) by (simp add: ordered_filter)
  show thesis
    using that [OF v(1)] e excludeTombstones_eq [OF e(1,3)] t Exclude [OF _ t3]
    by (simp add: unseen_def live_def stored_def v(1) conj_commute)
qed

lemma read_first_eq:
  assumes "\<And>i. i \<in> set current \<Longrightarrow> block_ok cwf absv (seeks ! i)"
  shows "\<exists>values. read_first ops key seeks current = Inr (dropWhile (\<lambda>i. unseen absv key (seeks ! i) = []) current, values) \<and>
    cwf values \<and> absv values = (case dropWhile (\<lambda>i. unseen absv key (seeks ! i) = []) current of
      [] \<Rightarrow> [] | i # _ \<Rightarrow> unseen absv key (seeks ! i))"
  using assms
proof (induction current)
  case (Cons i current)
  then have "block_ok cwf absv (seeks ! i)" by simp
  from read_unseen [OF this, of key] obtain v where v: "sf_ReadAt (lo_r (seeks ! i)) (lo_entry (seeks ! i)) = Inr v"
    and w: "cwf (excludeTombstones ops (sf_TombstoneRange (lo_r (seeks ! i)) key) (co_Exclude ops v (lo_readMin (seeks ! i)) (lo_readMax (seeks ! i))))"
    "absv (excludeTombstones ops (sf_TombstoneRange (lo_r (seeks ! i)) key) (co_Exclude ops v (lo_readMin (seeks ! i)) (lo_readMax (seeks ! i)))) = unseen absv key (seeks ! i)"
    by metis
  show ?case using Cons v w Len [OF w(1)] by (auto simp: Let_def)
qed (simp add: empty)

lemma merge_rest_eq:
  assumes "distinct rest" and "\<And>i. i \<in> set rest \<Longrightarrow> i < length seeks \<and> block_ok cwf absv (seeks ! i) \<and>
      bounded asc mn mx (unseen absv key (seeks ! i))"
    and "cwf vs" "ordered (absv vs)"
  shows "\<exists>vs'. merge_rest asc ops key mn mx rest seeks vs =
      Inr (map (\<lambda>i. if i \<in> set rest then markRead mn mx (seeks ! i) else seeks ! i) [0..<length seeks], vs') \<and>
    cwf vs' \<and> ordered (absv vs') \<and>
    (\<forall>t. latest t (absv vs') = latest t
      (if asc then absv vs @ concat (map (\<lambda>i. filter (in_range mn mx) (unseen absv key (seeks ! i))) rest)
       else concat (map (\<lambda>i. filter (in_range mn mx) (unseen absv key (seeks ! i))) (rev rest)) @ absv vs))"
  using assms
proof (induction rest arbitrary: seeks vs)
  case (Cons i rest)
  let ?l = "seeks ! i" let ?seeks = "seeks[i := markRead mn mx ?l]" let ?X = "filter (in_range mn mx) (unseen absv key ?l)"
  have i: "i < length seeks" "block_ok cwf absv ?l" "i \<notin> set rest" "distinct rest" using Cons.prems(1,2) by simp_all
  have same: "?seeks ! j = seeks ! j" if "j \<in> set rest" for j using that i by (metis nth_list_update_neq)
  have map_eq: "map (\<lambda>j. if j \<in> set rest then markRead mn mx (?seeks ! j) else ?seeks ! j) [0..<length ?seeks] =
      map (\<lambda>j. if j \<in> set (i # rest) then markRead mn mx (seeks ! j) else seeks ! j) [0..<length seeks]"
    using i(1,3) by (intro nth_equalityI) (auto simp: nth_list_update)
  have conc: "map (\<lambda>j. filter (in_range mn mx) (unseen absv key (?seeks ! j))) rest = map (\<lambda>j. filter (in_range mn mx) (unseen absv key (seeks ! j))) rest"
    using same by simp
  have step: "\<exists>vs'. merge_rest asc ops key mn mx rest ?seeks w =
      Inr (map (\<lambda>j. if j \<in> set (i # rest) then markRead mn mx (seeks ! j) else seeks ! j) [0..<length seeks], vs') \<and>
    cwf vs' \<and> ordered (absv vs') \<and>
    (\<forall>t. latest t (absv vs') = latest t
      (if asc then absv w @ concat (map (\<lambda>i. filter (in_range mn mx) (unseen absv key (seeks ! i))) rest)
       else concat (map (\<lambda>i. filter (in_range mn mx) (unseen absv key (seeks ! i))) (rev rest)) @ absv w))"
    if "cwf w" "ordered (absv w)" for w
    using Cons.IH [OF i(4) _ that, of ?seeks] Cons.prems(2) same unfolding map_eq rev_map [symmetric] conc by simp
  show ?case
  proof (cases "\<not> lo_overlaps ?l mn mx \<or> lo_read ?l")
    case True
    have "?X = []"
    proof (cases "lo_read ?l")
      case True
      then show ?thesis using unseen_read [OF i(2)] by simp
    next
      case False
      then have "lo_min ?l > mx \<or> lo_max ?l < mn" using True by (auto simp: lo_overlaps_def)
      then show ?thesis using unseen_in_range [OF i(2)] by (fastforce simp: in_range_def filter_empty_conv)
    qed
    then show ?thesis using True step [OF Cons.prems(3,4)] by (cases asc) (simp_all add: Let_def)
  next
    case False
    from read_unseen [OF i(2), of key] obtain v where v: "sf_ReadAt (lo_r ?l) (lo_entry ?l) = Inr v"
      "cwf (co_Exclude ops (excludeTombstones ops (sf_TombstoneRange (lo_r ?l) key) v) (lo_readMin ?l) (lo_readMax ?l))"
      "absv (co_Exclude ops (excludeTombstones ops (sf_TombstoneRange (lo_r ?l) key) v) (lo_readMin ?l) (lo_readMax ?l)) = unseen absv key ?l"
      by metis
    define v2 where "v2 = co_Exclude ops (excludeTombstones ops (sf_TombstoneRange (lo_r ?l) key) v) (lo_readMin ?l) (lo_readMax ?l)"
    have v2: "cwf v2" "absv v2 = unseen absv key ?l" "ordered (absv v2)"
      using v ordered_unseen [OF i(2)] by (simp_all add: v2_def)
    have inc: "cwf (co_Include ops v2 mn mx)" "absv (co_Include ops v2 mn mx) = ?X" "ordered ?X"
      using Include [OF v2(1,3)] v2(2,3) by (auto simp: ordered_filter)
    define w where "w = (if co_Len ops v2 > 0 then
        (if asc then co_Merge ops vs (co_Include ops v2 mn mx) else co_Merge ops (co_Include ops v2 mn mx) vs) else vs)"
    have w: "cwf w" "ordered (absv w)" "latest t (absv w) = latest t (if asc then absv vs @ ?X else ?X @ absv vs)" for t
      using Merge [OF Cons.prems(3) inc(1) Cons.prems(4)] Merge [OF inc(1) Cons.prems(3) _ Cons.prems(4)] inc Cons.prems(3,4) Len [OF v2(1)] v2(2)
      by (auto simp: w_def)
    have "merge_rest asc ops key mn mx (i # rest) seeks vs = merge_rest asc ops key mn mx rest ?seeks w"
      using False v(1) by (simp add: Let_def v2_def w_def)
    moreover have "latest t (absv w @ c) = latest t (absv vs @ ?X @ c)" if asc for t c
      using that w(3) [of t] by (simp add: latest_append split: option.splits)
    moreover have "latest t (c @ absv w) = latest t (c @ ?X @ absv vs)" if "\<not> asc" for t c
      using that w(3) [of t] by (simp add: latest_append split: option.splits)
    ultimately show ?thesis using step [OF w(1,2)] by (cases asc) auto
  qed
qed (auto simp: map_nth)

text \<open>
  The state between two reads: every location is readable and is read up to its edge, \<open>current\<close> runs through
  \<open>seeks\<close> in the direction of the cursor (its first element may be repeated) from \<open>pos\<close> on, and what is not in
  \<open>current\<close> has nothing left.
\<close>

definition kc_inv :: "'c KeyCursor \<Rightarrow> bool" where
  "kc_inv c \<longleftrightarrow>
     (\<forall>l \<in> set (kc_seeks c). block_ok cwf absv l \<and> edge (kc_ascending c) l) \<and>
     (\<forall>i \<in> set (kc_current c). i < length (kc_seeks c)) \<and>
     (\<not> kc_ascending c \<longrightarrow> kc_pos c \<le> int (length (kc_seeks c))) \<and>
     sorted_wrt (if kc_ascending c then (<) else (>)) (tl (kc_current c)) \<and>
     (\<forall>i \<in> set (kc_current c). if kc_ascending c then kc_pos c \<le> int i \<and> hd (kc_current c) \<le> i
        else int i \<le> kc_pos c \<and> i \<le> hd (kc_current c)) \<and>
     (\<forall>i < length (kc_seeks c). i \<notin> set (kc_current c) \<longrightarrow> unseen absv (kc_key c) (kc_seeks c ! i) = [])"

definition remaining :: "'c KeyCursor \<Rightarrow> Values" where
  "remaining c = concat (map (unseen absv (kc_key c)) (kc_seeks c))"

lemma remaining_newest:
  assumes "kc_inv c"
  shows "latest t (remaining c) = newest (\<lambda>i. unseen absv (kc_key c) (kc_seeks c ! i)) (set (kc_current c)) t"
proof -
  let ?F = "\<lambda>i. unseen absv (kc_key c) (kc_seeks c ! i)"
  have "remaining c = concat (map ?F [0..<length (kc_seeks c)])"
    unfolding remaining_def by (subst (1) map_nth [of "kc_seeks c", symmetric]) (simp only: map_map comp_def)
  then have "latest t (remaining c) = newest ?F (set [0..<length (kc_seeks c)]) t" by (simp only: latest_concat_sorted sorted_upt)
  also have "\<dots> = newest ?F (set (kc_current c)) t"
  proof (rule newest_cong)
    fix j assume "latest t (?F j) \<noteq> None"
    then have "?F j \<noteq> []" by (cases "?F j") auto
    then show "j \<in> set [0..<length (kc_seeks c)] \<longleftrightarrow> j \<in> set (kc_current c)" using assms by (auto simp: kc_inv_def)
  qed
  finally show ?thesis .
qed

text \<open>The order in which the blocks of \<open>current\<close> are merged.\<close>

lemma kc_inv_sorted:
  assumes "kc_inv c" and "kc_current c = i # rest"
  shows "distinct rest" and "sorted (if kc_ascending c then i # rest else rev rest @ [i])"
proof -
  have s: "sorted_wrt (if kc_ascending c then (<) else (>)) rest"
    and h: "\<forall>j \<in> set rest. if kc_ascending c then i \<le> j else j \<le> i"
    using assms by (auto simp: kc_inv_def split: if_splits)
  show "distinct rest"
    using s by (cases "kc_ascending c") (auto simp: strict_sorted_iff distinct_conv_nth sorted_wrt_iff_nth_less neq_iff)
  have "\<not> kc_ascending c \<Longrightarrow> sorted_wrt (<) (rev rest)" using s by (simp add: sorted_wrt_rev)
  then show "sorted (if kc_ascending c then i # rest else rev rest @ [i])"
    using s h by (auto simp: sorted_append strict_sorted_iff)
qed

lemma kc_inv_drop:
  assumes inv: "kc_inv c" and cur: "kc_current c = ds @ cur" and ds: "\<And>d. d \<in> set ds \<Longrightarrow> unseen absv (kc_key c) (kc_seeks c ! d) = []"
  shows "kc_inv (c\<lparr>kc_current := cur\<rparr>)"
proof (cases cur)
  case Nil
  then show ?thesis using inv cur ds by (auto simp: kc_inv_def)
next
  case (Cons j cs)
  then have "kc_current c \<noteq> []" using cur by simp
  then obtain i rest where ir: "kc_current c = i # rest" by (metis neq_Nil_conv)
  have "sorted (if kc_ascending c then ds @ cur else rev (ds @ cur))"
    using kc_inv_sorted(2) [OF inv ir] unfolding cur [symmetric] ir rev.simps .
  then have "\<forall>k \<in> set cur. if kc_ascending c then hd cur \<le> k else k \<le> hd cur"
    using Cons by (auto simp: sorted_append split: if_splits)
  moreover have "sorted_wrt (if kc_ascending c then (<) else (>)) (tl cur)"
  proof (cases ds)
    case Nil
    then show ?thesis using inv cur by (simp add: kc_inv_def)
  next
    case (Cons d ds')
    then have "sorted_wrt (if kc_ascending c then (<) else (>)) (ds' @ cur)" using inv cur by (simp add: kc_inv_def)
    then show ?thesis using \<open>cur = j # cs\<close> by (simp add: sorted_wrt_append)
  qed
  ultimately show ?thesis
    using inv ds unfolding kc_inv_def cur by (auto split: if_splits)
qed

definition marked :: "int \<Rightarrow> int \<Rightarrow> 'c KeyCursor \<Rightarrow> 'c KeyCursor" where
  "marked mn mx c = c\<lparr>kc_seeks := map (\<lambda>i. if i \<in> set (kc_current c) then markRead mn mx (kc_seeks c ! i) else kc_seeks c ! i) [0..<length (kc_seeks c)]\<rparr>"

lemma marked_inv:
  assumes inv: "kc_inv c" and bd: "\<And>i. i \<in> set (kc_current c) \<Longrightarrow> bounded (kc_ascending c) mn mx (unseen absv (kc_key c) (kc_seeks c ! i))"
  shows "kc_inv (marked mn mx c)" and "remaining (marked mn mx c) = filter (\<lambda>x. \<not> in_range mn mx x) (remaining c)"
proof -
  let ?s = "kc_seeks c" and ?s' = "kc_seeks (marked mn mx c)" and ?u = "unseen absv (kc_key c)"
  have ok: "block_ok cwf absv (?s ! i)" "edge (kc_ascending c) (?s ! i)" if "i < length ?s" for i using inv that by (auto simp: kc_inv_def)
  have len: "length ?s' = length ?s" by (simp add: marked_def)
  have nth: "?s' ! i = (if i \<in> set (kc_current c) then markRead mn mx (?s ! i) else ?s ! i)" if "i < length ?s" for i
    using that by (simp add: marked_def)
  have u: "?u (?s' ! i) = filter (\<lambda>x. \<not> in_range mn mx x) (?u (?s ! i))" if "i < length ?s" for i
    using that nth [OF that] unseen_markRead [OF ok(2) [OF that] bd] inv by (auto simp: kc_inv_def)
  have "\<forall>l \<in> set ?s'. block_ok cwf absv l \<and> edge (kc_ascending c) l"
  proof
    fix l assume "l \<in> set ?s'"
    then obtain i where "i < length ?s" "l = ?s' ! i" using len by (metis in_set_conv_nth)
    then show "block_ok cwf absv l \<and> edge (kc_ascending c) l" using ok nth by (auto intro: edge_markRead)
  qed
  then show "kc_inv (marked mn mx c)"
    using inv u len unfolding kc_inv_def by (auto simp: marked_def)
  have "map ?u ?s' = map (\<lambda>l. filter (\<lambda>x. \<not> in_range mn mx x) (?u l)) ?s"
    using u len by (intro nth_equalityI) auto
  then show "remaining (marked mn mx c) = filter (\<lambda>x. \<not> in_range mn mx x) (remaining c)"
    by (simp add: remaining_def filter_concat comp_def marked_def)
qed

lemma widen_eq:
  assumes "widen asc seeks rest (mn0, mx0) = (mn, mx)"
  shows "if asc then mx = mx0 \<and> mn \<le> mn0 \<and> (\<forall>i \<in> set rest. \<not> lo_read (seeks ! i) \<longrightarrow> mn \<le> lo_min (seeks ! i))
    else mn = mn0 \<and> mx0 \<le> mx \<and> (\<forall>i \<in> set rest. \<not> lo_read (seeks ! i) \<longrightarrow> lo_max (seeks ! i) \<le> mx)"
  using assms
proof (induction rest arbitrary: mn0 mx0)
  case (Cons i rest)
  obtain mn1 mx1 where w: "(mn1, mx1) = (if asc then (if lo_min (seeks ! i) < mn0 \<and> \<not> lo_read (seeks ! i) then (lo_min (seeks ! i), mx0) else (mn0, mx0))
          else (if lo_max (seeks ! i) > mx0 \<and> \<not> lo_read (seeks ! i) then (mn0, lo_max (seeks ! i)) else (mn0, mx0)))"
    by (metis surj_pair)
  then have "widen asc seeks rest (mn1, mx1) = (mn, mx)" using Cons.prems by (simp add: widen_def Let_def)
  from Cons.IH [OF this] w show ?case by (auto split: if_splits)
qed (simp add: widen_def)

lemma extend_eq:
  assumes "extend asc ops seeks rest (mn0, mx0) v = ((mn, mx), w)" and "cwf v" "ordered (absv v)"
    and "\<And>x. x \<in> set (absv v) \<Longrightarrow> in_range mn0 mx0 x"
  shows "cwf w" and "absv w = filter (in_range mn mx) (absv v)" and "if asc then mn = mn0 \<and> mx0 \<le> mx else mx = mx0 \<and> mn \<le> mn0"
proof -
  have all: "filter (in_range mn0 mx0) (absv v) = absv v" using assms(4) by (simp add: filter_id_conv)
  have "cwf w \<and> absv w = filter (in_range mn mx) (absv v) \<and> (if asc then mn = mn0 \<and> mx0 \<le> mx else mx = mx0 \<and> mn \<le> mn0)"
  proof (cases "filter (\<lambda>i. lo_overlaps (seeks ! i) mn0 mx0 \<and> \<not> lo_read (seeks ! i)) rest")
    case Nil
    then show ?thesis using assms(1,2) all by (auto simp: extend_def)
  next
    case (Cons i js)
    then show ?thesis
      using assms(1) Include [OF assms(2,3), of mn mx] by (auto simp: extend_def Let_def split: if_splits)
  qed
  then show "cwf w" and "absv w = filter (in_range mn mx) (absv v)" and "if asc then mn = mn0 \<and> mx0 \<le> mx else mx = mx0 \<and> mn \<le> mn0"
    by simp_all
qed

text \<open>
  One read delivers exactly what is left in some window: with the newest value for each time, in ascending order,
  and so that nothing is left before the window (behind it, for a descending cursor).
\<close>

definition delivers :: "'c KeyCursor \<Rightarrow> 'c \<Rightarrow> 'c KeyCursor \<Rightarrow> int \<Rightarrow> int \<Rightarrow> bool" where
  "delivers c v c' mn mx \<longleftrightarrow>
     cwf v \<and> ordered (absv v) \<and> kc_inv c' \<and> kc_ascending c' = kc_ascending c \<and>
     (\<forall>t. latest t (absv v) = (if mn \<le> t \<and> t \<le> mx then latest t (remaining c) else None)) \<and>
     remaining c' = filter (\<lambda>x. \<not> in_range mn mx x) (remaining c) \<and> bounded (kc_ascending c) mn mx (remaining c) \<and>
     (absv v = [] \<longrightarrow> remaining c = [])"

lemma bounded_remaining:
  assumes "kc_inv c" and "\<And>i. i \<in> set (kc_current c) \<Longrightarrow> bounded asc mn mx (unseen absv (kc_key c) (kc_seeks c ! i))"
  shows "bounded asc mn mx (remaining c)"
proof -
  have "bounded asc mn mx (unseen absv (kc_key c) (kc_seeks c ! i))" if "i < length (kc_seeks c)" for i
    using assms that by (cases "i \<in> set (kc_current c)") (simp_all add: kc_inv_def bounded_def)
  then show ?thesis by (fastforce simp: bounded_def remaining_def in_set_conv_nth)
qed

lemma delivers_marked:
  assumes inv: "kc_inv c" and cur: "kc_current c = i # rest"
    and bd: "\<And>i. i \<in> set (kc_current c) \<Longrightarrow> bounded (kc_ascending c) mn mx (unseen absv (kc_key c) (kc_seeks c ! i))"
    and v: "cwf v" "ordered (absv v)" "absv v \<noteq> []"
    and lt: "\<And>t. latest t (absv v) = latest t (concat (map (\<lambda>i. filter (in_range mn mx) (unseen absv (kc_key c) (kc_seeks c ! i)))
      (if kc_ascending c then i # rest else rev rest @ [i])))"
  shows "delivers c v (marked mn mx c) mn mx"
proof -
  let ?o = "if kc_ascending c then i # rest else rev rest @ [i]" and ?F = "\<lambda>i. unseen absv (kc_key c) (kc_seeks c ! i)"
  have "concat (map (\<lambda>i. filter (in_range mn mx) (?F i)) ?o) = filter (in_range mn mx) (concat (map ?F ?o))"
    by (simp only: filter_concat map_map comp_def)
  moreover have "latest t (concat (map ?F ?o)) = latest t (remaining c)" for t
    unfolding latest_concat_sorted [OF kc_inv_sorted(2) [OF inv cur]] remaining_newest [OF inv] cur by simp
  ultimately have "latest t (absv v) = (if mn \<le> t \<and> t \<le> mx then latest t (remaining c) else None)" for t
    unfolding lt by (simp only: latest_in_range)
  then show ?thesis
    using v marked_inv [OF inv bd] bounded_remaining [OF inv bd] by (simp add: delivers_def marked_def)
qed

lemma ordered_ends: "ordered a \<Longrightarrow> x \<in> set a \<Longrightarrow> UnixNano (hd a) \<le> UnixNano x \<and> UnixNano x \<le> UnixNano (last a)"
proof (induction a rule: rev_induct)
  case (snoc y a)
  then show ?case by (cases a) (auto simp: ordered_append ordered_Cons)
qed simp

lemma list_update_map:
  "i < length xs \<Longrightarrow> xs[i := f (xs ! i)] = map (\<lambda>j. if j = i then f (xs ! j) else xs ! j) [0..<length xs]"
  by (rule nth_equalityI) (auto simp: nth_list_update)

lemma read_block_delivers:
  assumes inv: "kc_inv c"
  shows "\<exists>v c' mn mx. read_block ops c = Inr (v, c') \<and> delivers c v c' mn mx"
proof -
  let ?F = "\<lambda>i. unseen absv (kc_key c) (kc_seeks c ! i)" and ?a = "kc_ascending c" and ?s = "kc_seeks c"
  have ok: "block_ok cwf absv (?s ! i)" "edge ?a (?s ! i)" if "i < length ?s" for i using inv that by (auto simp: kc_inv_def)
  have lt: "i < length ?s" if "i \<in> set (kc_current c)" for i using inv that by (auto simp: kc_inv_def)
  define cur where "cur = dropWhile (\<lambda>i. ?F i = []) (kc_current c)"
  have cur: "kc_current c = takeWhile (\<lambda>i. ?F i = []) (kc_current c) @ cur" by (simp add: cur_def)
  let ?c = "c\<lparr>kc_current := cur\<rparr>"
  have inv1: "kc_inv ?c" by (rule kc_inv_drop [OF inv cur]) (auto dest: set_takeWhileD)
  have sub: "set cur \<subseteq> set (kc_current c)" by (auto simp: cur_def dest: set_dropWhileD)
  have rem: "remaining ?c = remaining c" by (simp add: remaining_def)
  obtain vs where vs: "read_first ops (kc_key c) ?s (kc_current c) = Inr (cur, vs)" "cwf vs"
    "absv vs = (case cur of [] \<Rightarrow> [] | i # _ \<Rightarrow> ?F i)"
    using read_first_eq [of "kc_current c" ?s "kc_key c"] ok lt unfolding cur_def by metis
  have "\<exists>v c' mn mx. read_block ops c = Inr (v, c') \<and> delivers ?c v c' mn mx"
  proof (cases cur)
    case Nil
    then have "remaining ?c = []"
      using inv1 unfolding kc_inv_def remaining_def concat_eq_Nil_conv by (simp del: rem) (metis in_set_conv_nth)
    then have "delivers ?c (co_empty ops) ?c 1 0" using inv1 by (simp add: delivers_def empty bounded_def)
    moreover have "read_block ops c = Inr (co_empty ops, ?c)" using vs(1) Nil by (simp add: read_block_def)
    ultimately show ?thesis by blast
  next
    case (Cons i rest)
    have i: "i \<in> set (kc_current c)" "set rest \<subseteq> set (kc_current c)" using sub Cons by auto
    have ne: "?F i \<noteq> []" using hd_dropWhile [of "\<lambda>i. ?F i = []" "kc_current c"] Cons unfolding cur_def by fastforce
    have X: "absv vs = ?F i" "ordered (?F i)" using vs(3) Cons ordered_unseen [OF ok(1) [OF lt [OF i(1)]]] by simp_all
    define mn0 mx0 where "mn0 = UnixNano (hd (?F i))" and "mx0 = UnixNano (last (?F i))"
    have mm: "co_Len ops vs > 0" "co_MinTime ops vs = mn0" "co_MaxTime ops vs = mx0"
      using Len [OF vs(2)] MinTime [OF vs(2)] MaxTime [OF vs(2)] X(1) ne by (simp_all add: mn0_def mx0_def)
    have rng: "in_range mn0 mx0 x" if "x \<in> set (?F i)" for x using ordered_ends [OF X(2) that] by (simp add: in_range_def mn0_def mx0_def)
    have curc: "kc_current ?c = i # rest" using Cons by simp
    show ?thesis
    proof (cases "rest = []")
      case True
      have "read_block ops c = Inr (vs, marked mn0 mx0 ?c)"
        using vs(1) Cons True mm lt [OF i(1)] by (simp add: read_block_def marked_def list_update_map Let_def)
      moreover have "delivers ?c vs (marked mn0 mx0 ?c) mn0 mx0"
        using curc True X ne vs(2) rng
        by (intro delivers_marked [OF inv1 curc]) (auto simp: bounded_def in_range_def filter_id_conv)
      ultimately show ?thesis by blast
    next
      case False
      obtain mn1 mx1 where w1: "widen ?a ?s rest (mn0, mx0) = (mn1, mx1)" by force
      obtain mn mx vs1 where w2: "extend ?a ops ?s rest (mn1, mx1) vs = ((mn, mx), vs1)" by (metis surj_pair)
      note W1 = widen_eq [OF w1]
      have r1: "in_range mn1 mx1 x" if "x \<in> set (absv vs)" for x
        using W1 rng [of x] that X(1) by (auto simp: in_range_def split: if_splits)
      note W2 = extend_eq [OF w2 vs(2) _ r1, unfolded X(1), OF X(2)]
      have rst: "j < length ?s \<and> block_ok cwf absv (?s ! j) \<and> bounded ?a mn mx (?F j)" if "j \<in> set rest" for j
      proof -
        have j: "j < length ?s" using that i(2) lt by auto
        have "bounded ?a mn mx (?F j)"
        proof (cases "lo_read (?s ! j)")
          case True
          then show ?thesis using unseen_read [OF ok(1) [OF j]] by (simp add: bounded_def)
        next
          case False
          then show ?thesis
            using that W1 W2(3) unseen_in_range [OF ok(1) [OF j]] by (fastforce simp: bounded_def in_range_def split: if_splits)
        qed
        then show ?thesis using j ok by simp
      qed
      have bdi: "bounded ?a mn mx (?F i)" and inr: "in_range mn mx x" if "x \<in> set (?F i)" for x
        using r1 W2(3) that unfolding X(1) by (force simp: bounded_def in_range_def split: if_splits)+
      have "ordered (absv vs1)" using W2(2) X(2) by (simp add: ordered_filter)
      from merge_rest_eq [OF kc_inv_sorted(1) [OF inv1 curc] rst W2(1) this]
      obtain vs2 where m: "merge_rest ?a ops (kc_key c) mn mx rest ?s vs1 =
          Inr (map (\<lambda>j. if j \<in> set rest then markRead mn mx (?s ! j) else ?s ! j) [0..<length ?s], vs2)"
        "cwf vs2" "ordered (absv vs2)"
        "\<And>t. latest t (absv vs2) = latest t
          (if ?a then absv vs1 @ concat (map (\<lambda>i. filter (in_range mn mx) (?F i)) rest)
           else concat (map (\<lambda>i. filter (in_range mn mx) (?F i)) (rev rest)) @ absv vs1)" by blast
      have "(map (\<lambda>j. if j \<in> set rest then markRead mn mx (?s ! j) else ?s ! j) [0..<length ?s])
          [i := markRead mn mx (map (\<lambda>j. if j \<in> set rest then markRead mn mx (?s ! j) else ?s ! j) [0..<length ?s] ! i)] =
          map (\<lambda>j. if j \<in> set (i # rest) then markRead mn mx (?s ! j) else ?s ! j) [0..<length ?s]"
        using lt [OF i(1)] by (intro nth_equalityI) (auto simp: nth_list_update)
      then have rb: "read_block ops c = Inr (vs2, marked mn mx ?c)"
        using vs(1) Cons False mm w1 w2 m(1) by (simp add: read_block_def marked_def Let_def)
      have f: "absv vs1 = filter (in_range mn mx) (?F i)" using W2(2) by simp
      have lat: "latest t (absv vs2) = latest t (concat (map (\<lambda>j. filter (in_range mn mx) (?F j)) (if ?a then i # rest else rev rest @ [i])))" for t
        unfolding m(4) f by simp
      obtain x where x: "x \<in> set (?F i)" using ne by (cases "?F i") auto
      have "latest (UnixNano x) (absv vs2) \<noteq> None"
        unfolding lat latest_None using x inr by fastforce
      then have "absv vs2 \<noteq> []" by auto
      then have "delivers ?c vs2 (marked mn mx ?c) mn mx"
        using m(2,3) lat bdi [OF x] rst Cons by (intro delivers_marked [OF inv1 curc]) auto
      then show ?thesis using rb by blast
    qed
  qed
  moreover have "delivers ?c v c' mn mx = delivers c v c' mn mx" for v c' mn mx unfolding delivers_def rem by simp
  ultimately show ?thesis by simp
qed

lemma filter_upt_Cons:
  assumes f: "filter P [a..<n] = p # ps"
  shows "a \<le> p \<and> p < n \<and> P p \<and> (\<forall>i. a \<le> i \<longrightarrow> i < p \<longrightarrow> \<not> P i)"
proof -
  have "sorted_wrt (<) (p # ps)" using f sorted_wrt_filter [of "(<)" "[a..<n]" P] by simp
  then have lt: "\<forall>q \<in> set ps. p < q" by simp
  have s: "set (p # ps) = {i. a \<le> i \<and> i < n \<and> P i}" by (subst f [symmetric]) auto
  then have p: "a \<le> p" "p < n" "P p" by auto
  have "\<not> P i" if "a \<le> i" "i < p" for i
  proof
    assume "P i"
    then have "i \<in> set (p # ps)" using that p(2) unfolding s by simp
    then show False using lt that(2) by fastforce
  qed
  then show ?thesis using p by blast
qed

lemma filter_rev_upt_Cons:
  assumes f: "filter P (rev [a..<n]) = p # ps"
  shows "a \<le> p \<and> p < n \<and> P p \<and> (\<forall>i. p < i \<longrightarrow> i < n \<longrightarrow> \<not> P i)"
proof -
  have "sorted_wrt (>) (p # ps)" using f sorted_wrt_filter [of "(>)" "rev [a..<n]" P] by (simp add: sorted_wrt_rev)
  then have lt: "\<forall>q \<in> set ps. q < p" by simp
  have s: "set (p # ps) = {i. a \<le> i \<and> i < n \<and> P i}" by (subst f [symmetric]) auto
  then have p: "a \<le> p" "p < n" "P p" by auto
  have "\<not> P i" if "p < i" "i < n" for i
  proof
    assume "P i"
    then have "i \<in> set (p # ps)" using that p(1) unfolding s by simp
    then show False using lt that(1) by fastforce
  qed
  then show ?thesis using p by blast
qed

lemma kc_Next_inv:
  assumes inv: "kc_inv c"
  shows "kc_inv (kc_Next c)" and "remaining (kc_Next c) = remaining c" and "kc_ascending (kc_Next c) = kc_ascending c"
proof -
  let ?F = "\<lambda>i. unseen absv (kc_key c) (kc_seeks c ! i)" and ?n = "length (kc_seeks c)"
  show "remaining (kc_Next c) = remaining c" "kc_ascending (kc_Next c) = kc_ascending c"
    by (simp_all add: kc_Next_def nextAscending_def nextDescending_def remaining_def Let_def split: list.splits)
  have ok: "block_ok cwf absv (kc_seeks c ! i)" if "i < ?n" for i using inv that by (auto simp: kc_inv_def)
  have rd: "?F i = []" if "i < ?n" "\<not> unread c i" for i using that unseen_read [OF ok] by (simp add: unread_def)
  show "kc_inv (kc_Next c)"
  proof (cases "kc_current c")
    case Nil
    then show ?thesis using inv by (simp add: kc_Next_def)
  next
    case (Cons h rest)
    show ?thesis
    proof (cases "unread c h")
      case True
      then show ?thesis using inv Cons by (simp add: kc_Next_def)
    next
      case False
      have "h < ?n" using inv Cons by (simp add: kc_inv_def)
      then have Fh: "?F h = []" using rd False by blast
      have gone: "?F i = []" if "i < ?n" "if kc_ascending c then int i \<le> kc_pos c else kc_pos c \<le> int i" for i
      proof (cases "i \<in> set (kc_current c)")
        case True
        then have "i = h" using inv Cons that by (fastforce simp: kc_inv_def split: if_splits)
        then show ?thesis using Fh by simp
      qed (use inv that in \<open>simp add: kc_inv_def\<close>)
      have seeks: "\<forall>l \<in> set (kc_seeks c). block_ok cwf absv l \<and> edge (kc_ascending c) l" using inv by (simp add: kc_inv_def)
      show ?thesis
      proof (cases "kc_ascending c")
        case True
        let ?L = "filter (unread c) [nat (kc_pos c + 1)..<?n]"
        have nx: "kc_Next c = nextAscending (c\<lparr>kc_current := []\<rparr>)" using Cons False True by (simp add: kc_Next_def)
        have un: "unread (c\<lparr>kc_current := []\<rparr>) = unread c" by (intro ext) (simp add: unread_def)
        show ?thesis
        proof (cases ?L)
          case Nil
          have "?F i = []" if "i < ?n" for i
          proof (cases "int i \<le> kc_pos c")
            case False
            then have "\<not> unread c i" using Nil that by (auto simp: filter_empty_conv)
            then show ?thesis using rd that by blast
          qed (use gone that True in simp)
          then show ?thesis using seeks Nil True by (simp add: nx nextAscending_def un kc_inv_def)
        next
          case (Cons p ps)
          note P = filter_upt_Cons [OF Cons]
          have "?F i = []" if "i < ?n" "i \<noteq> p" "i \<notin> set (filter (unread c) [p + 1..<?n])" for i
          proof (cases "int i \<le> kc_pos c")
            case False
            then have "\<not> unread c i" using P that by (cases "i < p") auto
            then show ?thesis using rd that by blast
          qed (use gone that True in simp)
          then show ?thesis
            using seeks Cons True P by (auto simp: nx nextAscending_def un kc_inv_def sorted_wrt_filter)
        qed
      next
        case desc: False
        let ?L = "filter (unread c) (rev [0..<nat (kc_pos c)])"
        have nx: "kc_Next c = nextDescending (c\<lparr>kc_current := []\<rparr>)" using Cons False desc by (simp add: kc_Next_def)
        have un: "unread (c\<lparr>kc_current := []\<rparr>) = unread c" by (intro ext) (simp add: unread_def)
        show ?thesis
        proof (cases ?L)
          case Nil
          have "?F i = []" if "i < ?n" for i
          proof (cases "kc_pos c \<le> int i")
            case False
            then have "\<not> unread c i" using Nil that by (auto simp: filter_empty_conv)
            then show ?thesis using rd that by blast
          qed (use gone that desc in simp)
          then show ?thesis using seeks Nil desc by (simp add: nx nextDescending_def un kc_inv_def)
        next
          case L: (Cons p ps)
          note P = filter_rev_upt_Cons [OF L]
          have "kc_pos c \<le> int ?n" using inv desc by (simp add: kc_inv_def)
          then have pn: "p < ?n" using P by linarith
          have "?F i = []" if "i < ?n" "i \<noteq> p" "i \<notin> set (filter (unread c) (rev [0..<p + 1]))" for i
          proof (cases "kc_pos c \<le> int i")
            case False
            then have "\<not> unread c i" using P that by (cases "i < p") auto
            then show ?thesis using rd that by blast
          qed (use gone that desc in simp)
          moreover have "kc_Next c = c\<lparr>kc_pos := int p, kc_current := p # filter (unread c) (rev [0..<p + 1])\<rparr>"
            using L by (simp add: nx nextDescending_def un del: upt_Suc)
          moreover have "sorted_wrt (>) (filter (unread c) (rev [0..<p + 1]))"
            by (intro sorted_wrt_filter) (simp add: sorted_wrt_rev del: upt_Suc)
          ultimately show ?thesis
            using seeks desc pn unfolding kc_inv_def by (intro conjI) (auto simp del: upt_Suc)
        qed
      qed
    qed
  qed
qed

text \<open>Draining the cursor: the blocks, put together in ascending order, are the deduplicated remaining values.\<close>

lemma drain_eq:
  "kc_inv c \<Longrightarrow> length (remaining c) < n \<Longrightarrow>
   \<exists>bs. drain n ops c = Inr bs \<and> (\<forall>b \<in> set bs. cwf b) \<and>
     concat (map absv (if kc_ascending c then bs else rev bs)) = Deduplicate (remaining c)"
proof (induction n arbitrary: c)
  case (Suc n)
  obtain v c' mn mx where v: "read_block ops c = Inr (v, c')" "delivers c v c' mn mx" using read_block_delivers [OF Suc.prems(1)] by blast
  then have d: "cwf v" "ordered (absv v)" "kc_inv c'" "kc_ascending c' = kc_ascending c"
    "\<And>t. latest t (absv v) = (if mn \<le> t \<and> t \<le> mx then latest t (remaining c) else None)"
    "remaining c' = filter (\<lambda>x. \<not> in_range mn mx x) (remaining c)" "bounded (kc_ascending c) mn mx (remaining c)"
    "absv v = [] \<longrightarrow> remaining c = []"
    unfolding delivers_def by blast+
  show ?case
  proof (cases "absv v = []")
    case True
    then show ?thesis using v(1) Len [OF d(1)] d(8) by (simp add: Deduplicate_def)
  next
    case False
    then obtain x where x: "x \<in> set (absv v)" by (cases "absv v") auto
    have inw: "mn \<le> UnixNano y \<and> UnixNano y \<le> mx" if "y \<in> set (absv v)" for y
    proof -
      have "latest (UnixNano y) (absv v) \<noteq> None" using that latest_None by blast
      then show ?thesis using d(5) by metis
    qed
    have "latest (UnixNano x) (remaining c) \<noteq> None"
      using d(5) [of "UnixNano x"] inw [OF x] x latest_None [of "UnixNano x" "absv v"] by auto
    then obtain y where "y \<in> set (remaining c)" "UnixNano y = UnixNano x" by (auto simp: latest_None)
    then have "length (remaining c') < length (remaining c)"
      unfolding d(6) using inw [OF x] by (intro length_filter_less [of y]) (auto simp: in_range_def)
    then obtain bs where bs: "drain n ops (kc_Next c') = Inr bs" "\<forall>b \<in> set bs. cwf b"
      "concat (map absv (if kc_ascending c then bs else rev bs)) = Deduplicate (remaining c')"
      using Suc.IH [OF kc_Next_inv(1) [OF d(3)]] Suc.prems(2) kc_Next_inv(2,3) [OF d(3)] d(4) by auto
    let ?R = "Deduplicate (remaining c')"
    have out: "\<not> in_range mn mx y \<and> (if kc_ascending c then mn \<le> UnixNano y else UnixNano y \<le> mx)" if "y \<in> set ?R" for y
    proof -
      have "latest (UnixNano y) (remaining c') \<noteq> None" using that latest_None [of _ ?R] latest_Deduplicate by metis
      then obtain z where "z \<in> set (remaining c')" "UnixNano z = UnixNano y" by (auto simp: latest_None)
      then show ?thesis using d(6,7) by (auto simp: in_range_def bounded_def)
    qed
    let ?all = "if kc_ascending c then absv v @ ?R else ?R @ absv v"
    have "ordered ?all"
      using d(2) ordered_Deduplicate inw out by (fastforce simp: ordered_append in_range_def)
    moreover have "latest t ?all = latest t (remaining c)" for t
      using d(5) [of t] latest_not_in_range [of t mn mx "remaining c"] unfolding d(6) [symmetric]
      by (auto simp: latest_append split: option.splits if_splits)
    ultimately have "?all = Deduplicate (remaining c)" by (intro ordered_ext ordered_Deduplicate) simp_all
    moreover have "concat (map absv (if kc_ascending c then v # bs else rev (v # bs))) = ?all" using bs(3) by auto
    ultimately show ?thesis using v(1) bs(1,2) d(1) Len [OF d(1)] False by auto
  qed
qed simp

section \<open>A new cursor\<close>

lemma seek_fold:
  "fold (\<lambda>i c. seek_step i (W (kc_seeks c ! i)) c) js c =
   c\<lparr>kc_current := kc_current c @ filter (\<lambda>i. W (kc_seeks c ! i)) js,
     kc_pos := (if kc_current c = [] then (case filter (\<lambda>i. W (kc_seeks c ! i)) js of [] \<Rightarrow> kc_pos c | j # _ \<Rightarrow> int j) else kc_pos c)\<rparr>"
  by (induction js arbitrary: c) (auto simp: seek_step_def split: list.splits)

lemma kc_seek_eq:
  assumes "kc_current c = []"
  shows "kc_seek t c =
    (let cur = filter (\<lambda>i. if kc_ascending c then t \<le> lo_max (kc_seeks c ! i) \<or> t < lo_min (kc_seeks c ! i)
                else t \<ge> lo_min (kc_seeks c ! i) \<or> t > lo_max (kc_seeks c ! i))
          (if kc_ascending c then [0..<length (kc_seeks c)] else rev [0..<length (kc_seeks c)])
     in c\<lparr>kc_current := cur, kc_pos := (case cur of [] \<Rightarrow> kc_pos c | j # _ \<Rightarrow> int j)\<rparr>)"
proof -
  have a: "(t < lo_min e \<or> lo_contains e t) = (t \<le> lo_max e \<or> t < lo_min e)" for e by (auto simp: lo_contains_def)
  have b: "(t > lo_max e \<or> lo_contains e t) = (t \<ge> lo_min e \<or> t > lo_max e)" for e by (auto simp: lo_contains_def)
  have c: "c\<lparr>kc_current := []\<rparr> = c" using assms by (cases c) simp
  show ?thesis
    using assms seek_fold [of "\<lambda>e. t \<le> lo_max e \<or> t < lo_min e" "[0..<length (kc_seeks c)]" c]
      seek_fold [of "\<lambda>e. t \<ge> lo_min e \<or> t > lo_max e" "rev [0..<length (kc_seeks c)]" c]
    by (auto simp: kc_seek_def seekAscending_def seekDescending_def Let_def a b c)
qed

lemma kc_seek_inv:
  assumes "kc_current c = []" "kc_pos c = 0" and fresh: "\<And>l. l \<in> set (kc_seeks c) \<Longrightarrow> block_ok cwf absv l \<and> fresh_at (kc_ascending c) t l"
  shows "kc_inv (kc_seek t c)"
proof -
  let ?W = "\<lambda>i. if kc_ascending c then t \<le> lo_max (kc_seeks c ! i) \<or> t < lo_min (kc_seeks c ! i)
      else t \<ge> lo_min (kc_seeks c ! i) \<or> t > lo_max (kc_seeks c ! i)"
  let ?n = "length (kc_seeks c)"
  let ?J = "if kc_ascending c then [0..<?n] else rev [0..<?n]"
  define cur where "cur = filter ?W ?J"
  have eq: "kc_seek t c = c\<lparr>kc_current := cur, kc_pos := (case cur of [] \<Rightarrow> kc_pos c | j # _ \<Rightarrow> int j)\<rparr>"
    using kc_seek_eq [OF assms(1), of t] by (simp add: cur_def Let_def)
  have gone: "unseen absv (kc_key c) (kc_seeks c ! i) = []" if "i < ?n" "\<not> ?W i" for i
  proof -
    let ?l = "kc_seeks c ! i"
    have l: "block_ok cwf absv ?l" "fresh_at (kc_ascending c) t ?l" using fresh that(1) by auto
    have False if x: "x \<in> set (unseen absv (kc_key c) ?l)" for x
    proof -
      have "in_range (lo_min ?l) (lo_max ?l) x" using unseen_in_range [OF l(1) x] .
      moreover have "\<not> in_range (lo_readMin ?l) (lo_readMax ?l) x" using x by (simp add: unseen_def)
      ultimately show False
        using l(2) \<open>\<not> ?W i\<close> value_bounds [of x] by (auto simp: in_range_def fresh_at_def edge_def split: if_splits)
    qed
    then show ?thesis by (cases "unseen absv (kc_key c) ?l") auto
  qed
  have s: "sorted_wrt (if kc_ascending c then (<) else (>)) cur"
    unfolding cur_def by (intro sorted_wrt_filter) (simp add: sorted_wrt_rev)
  have m: "set cur = {i. i < ?n \<and> ?W i}" by (auto simp: cur_def)
  have hd: "\<forall>i \<in> set cur. if kc_ascending c then hd cur \<le> i else i \<le> hd cur" using s by (cases cur) (auto split: if_splits)
  show ?thesis
  proof (cases cur)
    case Nil
    then show ?thesis unfolding eq using fresh gone m assms(2) by (auto simp: kc_inv_def fresh_at_def)
  next
    case (Cons j js)
    have "sorted_wrt (if kc_ascending c then (<) else (>)) js" using s Cons by simp
    moreover have "j < ?n" using m Cons by auto
    ultimately show ?thesis
      unfolding eq kc_inv_def using fresh gone m hd Cons by (auto simp: fresh_at_def)
  qed
qed

lemma drain_new:
  assumes fresh: "\<And>l. l \<in> set (fs_locations files key t asc) \<Longrightarrow> block_ok cwf absv l \<and> fresh_at asc t l"
    and perm: "mset (srt (if asc then asc_Less else desc_Less) (fs_locations files key t asc)) = mset (fs_locations files key t asc)"
    and seeks: "seeks = srt (if asc then asc_Less else desc_Less) (fs_locations files key t asc)"
    and n: "length (concat (map (unseen absv key) seeks)) < n"
  shows "\<exists>bs. drain n ops (newKeyCursor srt files key t asc) = Inr bs \<and> (\<forall>b \<in> set bs. cwf b) \<and>
    concat (map absv (if asc then bs else rev bs)) = Deduplicate (concat (map (unseen absv key) seeks))"
proof -
  let ?c = "\<lparr>kc_key = key, kc_seeks = seeks, kc_current = [], kc_pos = 0, kc_ascending = asc\<rparr>"
  have new: "newKeyCursor srt files key t asc = kc_seek t ?c" unfolding newKeyCursor_def seeks ..
  have "set seeks = set (fs_locations files key t asc)" using perm unfolding seeks by (rule mset_eq_setD)
  then have inv: "kc_inv (kc_seek t ?c)" using fresh by (intro kc_seek_inv) auto
  have "remaining (kc_seek t ?c) = concat (map (unseen absv key) seeks)" "kc_ascending (kc_seek t ?c) = asc"
    by (simp_all add: kc_seek_eq remaining_def Let_def)
  then show ?thesis using drain_eq [OF inv, of n] n unfolding new by simp
qed

end

end
