(* ===== verification/KeyCursorFiles.thy ===== *)
theory KeyCursorFiles
  imports KeyCursor
begin

text \<open>
  The key cursor over a store of SST files: which value counts when several files hold one for the same time,
  that the locations left out hold nothing that is wanted, and the readers of the two containers.
\<close>

section \<open>Which value counts\<close>

lemma latest_concat_filter:
  "latest x (concat (map G ls)) = latest x (concat (map G (filter (\<lambda>l. latest x (G l) \<noteq> None) ls)))"
  by (induction ls) (auto simp: latest_append split: option.splits)

lemma sorted_wrt_concat:
  "sorted_wrt P (concat xss) \<longleftrightarrow> (\<forall>xs \<in> set xss. sorted_wrt P xs) \<and> sorted_wrt (\<lambda>xs ys. \<forall>x \<in> set xs. \<forall>y \<in> set ys. P x y) xss"
  by (induction xss) (auto simp: sorted_wrt_append)

text \<open>
  If the locations that hold a value at \<open>x\<close> are ordered by their keys in both lists, the same value counts in both.
\<close>

lemma latest_permuted:
  fixes key :: "'l \<Rightarrow> 'k::linorder"
  assumes "mset ls = mset ms"
    and "sorted_wrt (\<lambda>a b. latest x (G a) \<noteq> None \<longrightarrow> latest x (G b) \<noteq> None \<longrightarrow> key a < key b) ls"
    and "sorted_wrt (\<lambda>a b. latest x (G a) \<noteq> None \<longrightarrow> latest x (G b) \<noteq> None \<longrightarrow> key a \<le> key b) ms"
  shows "latest x (concat (map G ms)) = latest x (concat (map G ls))"
proof -
  let ?K = "\<lambda>l. latest x (G l) \<noteq> None"
  have "sorted_wrt (\<lambda>a b. ?K a \<longrightarrow> ?K b \<longrightarrow> key a < key b) (filter ?K ls)" using assms(2) by (rule sorted_wrt_filter)
  then have "sorted_wrt (\<lambda>a b. key a < key b) (filter ?K ls)" by (rule sorted_wrt_mono_rel [rotated]) auto
  then have "sorted_wrt (<) (map key (filter ?K ls))" by (simp only: sorted_wrt_map)
  then have L: "sorted (map key (filter ?K ls))" "distinct (map key (filter ?K ls))" unfolding strict_sorted_iff by blast+
  have "sorted_wrt (\<lambda>a b. ?K a \<longrightarrow> ?K b \<longrightarrow> key a \<le> key b) (filter ?K ms)" using assms(3) by (rule sorted_wrt_filter)
  then have "sorted_wrt (\<lambda>a b. key a \<le> key b) (filter ?K ms)" by (rule sorted_wrt_mono_rel [rotated]) auto
  then have M: "sorted (map key (filter ?K ms))" by (simp add: sorted_wrt_map)
  have eq: "mset (filter ?K ls) = mset (filter ?K ms)" using assms(1) by (simp only: mset_filter)
  then have "mset (map key (filter ?K ls)) = mset (map key (filter ?K ms))" by (simp only: mset_map)
  then have M2: "distinct (map key (filter ?K ms))" using L(2) by (metis mset_eq_imp_distinct_iff)
  have "set (filter ?K ls) = set (filter ?K ms)" using eq by (rule mset_eq_setD)
  moreover from this have "inj_on key (set (filter ?K ls) \<union> set (filter ?K ms))" using L(2) by (simp add: distinct_map)
  ultimately have "filter ?K ls = filter ?K ms" using map_sorted_distinct_set_unique [OF _ L M M2] by blast
  then show ?thesis by (simp only: latest_concat_filter [of x G ls] latest_concat_filter [of x G ms])
qed

section \<open>Files\<close>

text \<open>The values of a series in a file that no tombstone covers.\<close>

definition file_values :: "('c \<Rightarrow> Values) \<Rightarrow> bytes \<Rightarrow> 'c SSTFile \<Rightarrow> Values" where
  "file_values absv key fd = concat (map (\<lambda>ie. live absv key (new_location True 0 fd ie)) (sf_ReadEntries fd key))"

text \<open>
  What a store of SST files keeps: the files are in the order of their paths; the blocks of a series in one file
  can be read, do not overlap and lie in the times the index gives them.
\<close>

definition files_ok :: "('c \<Rightarrow> bool) \<Rightarrow> ('c \<Rightarrow> Values) \<Rightarrow> bytes \<Rightarrow> 'c SSTFile list \<Rightarrow> bool" where
  "files_ok cwf absv key files \<longleftrightarrow>
     sorted_wrt (\<lambda>a b. sf_Path a < sf_Path b) files \<and>
     (\<forall>fd \<in> set files.
        sorted_wrt (\<lambda>a b. sint (ix_MaxTime a) < sint (ix_MinTime b)) (sf_ReadEntries fd key) \<and>
        (\<forall>ie \<in> set (sf_ReadEntries fd key). block_ok cwf absv (new_location True 0 fd ie) \<and>
           fst (sf_TimeRange fd) \<le> sint (ix_MinTime ie) \<and> sint (ix_MaxTime ie) \<le> snd (sf_TimeRange fd)))"

text \<open>\<open>sort.Sort\<close> with an order under which the locations can be sorted.\<close>

definition sorts_by :: "('l \<Rightarrow> 'l \<Rightarrow> bool) \<Rightarrow> ('l list \<Rightarrow> 'l list) \<Rightarrow> 'l list \<Rightarrow> bool" where
  "sorts_by lt srt ls \<longleftrightarrow> mset (srt ls) = mset ls \<and> sorted_wrt (\<lambda>a b. \<not> lt b a) (srt ls)"

definition seek_ok :: "bool \<Rightarrow> int \<Rightarrow> bool" where
  "seek_ok asc t \<longleftrightarrow> (if asc then min_i64 < t \<and> t \<le> max_i64 else min_i64 \<le> t \<and> t < max_i64)"

definition wanted :: "bool \<Rightarrow> int \<Rightarrow> Value \<Rightarrow> bool" where
  "wanted asc t x \<longleftrightarrow> (if asc then t \<le> UnixNano x else UnixNano x \<le> t)"

lemma i64_id: "min_i64 \<le> x \<Longrightarrow> x \<le> max_i64 \<Longrightarrow> i64 x = x"
  by (simp add: i64_def min_i64_def max_i64_def sint_sbintrunc' signed_take_bit_int_eq_self)

lemma new_location_same:
  "live absv key (new_location asc t fd ie) = live absv key (new_location True 0 fd ie)"
  "block_ok cwf absv (new_location asc t fd ie) = block_ok cwf absv (new_location True 0 fd ie)"
  "lo_r (new_location asc t fd ie) = fd" "lo_entry (new_location asc t fd ie) = ie"
  by (simp_all add: live_def stored_def block_ok_def new_location_def)

lemma fresh_new_location: "seek_ok asc t \<Longrightarrow> fresh_at asc t (new_location asc t fd ie)"
  by (cases asc) (simp_all add: fresh_at_def new_location_def edge_def seek_ok_def i64_id)

lemma unseen_fresh: "fresh_at asc t l \<Longrightarrow> unseen absv key l = filter (wanted asc t) (live absv key l)"
  unfolding unseen_def
proof (rule filter_cong [OF refl])
  fix x assume "fresh_at asc t l"
  then show "(\<not> in_range (lo_readMin l) (lo_readMax l) x) = wanted asc t x"
    using value_bounds [of x] by (cases asc) (auto simp: fresh_at_def edge_def in_range_def wanted_def)
qed

lemma in_locations:
  "l \<in> set (fs_locations files key t asc) \<Longrightarrow> \<exists>fd ie. fd \<in> set files \<and> ie \<in> set (sf_ReadEntries fd key) \<and> l = new_location asc t fd ie"
  by (auto simp: fs_locations_def Let_def split: prod.splits if_splits)

lemma file_block_ok:
  assumes "files_ok cwf absv key files" "fd \<in> set files" "ie \<in> set (sf_ReadEntries fd key)"
  shows "block_ok cwf absv (new_location asc t fd ie)"
proof -
  have "block_ok cwf absv (new_location True 0 fd ie)" using assms by (simp add: files_ok_def)
  then show ?thesis using new_location_same(2) by metis
qed

text \<open>The blocks and files that \<open>locations\<close> leaves out hold nothing that is wanted.\<close>

lemma locations_values:
  assumes ok: "files_ok cwf absv key files" and "seek_ok asc t"
  shows "concat (map (unseen absv key) (fs_locations files key t asc)) = filter (wanted asc t) (concat (map (file_values absv key) files))"
proof -
  have un: "unseen absv key (new_location asc t fd ie) = filter (wanted asc t) (live absv key (new_location True 0 fd ie))" for fd ie
    using unseen_fresh [OF fresh_new_location [OF assms(2)]] new_location_same(1) by metis
  have rng: "in_range (sint (ix_MinTime ie)) (sint (ix_MaxTime ie)) x"
    if "fd \<in> set files" "ie \<in> set (sf_ReadEntries fd key)" "x \<in> set (live absv key (new_location True 0 fd ie))" for fd ie x
  proof -
    from live_in_range [OF file_block_ok [OF ok that(1,2)] that(3)] show ?thesis by (simp add: new_location_same(4))
  qed
  have skip: "filter (wanted asc t) (live absv key (new_location True 0 fd ie)) = []"
    if "fd \<in> set files" "ie \<in> set (sf_ReadEntries fd key)" "\<not> entry_wanted asc t (sf_TombstoneRange fd key) ie" for fd ie
  proof -
    note p = that
    have "\<not> wanted asc t x" if x: "x \<in> set (live absv key (new_location True 0 fd ie))" for x
    proof -
      have "\<not> list_ex (\<lambda>(mn, mx). in_range mn mx x) (sf_TombstoneRange fd key)"
        using x by (simp add: live_def new_location_same(3))
      moreover have "in_range (sint (ix_MinTime ie)) (sint (ix_MaxTime ie)) x" using rng [OF p(1,2) x] .
      ultimately show ?thesis
        using p(3) by (cases asc) (force simp: entry_wanted_def wanted_def in_range_def list_ex_iff)+
    qed
    then show ?thesis by (simp add: filter_empty_conv)
  qed
  have per_file: "concat (map (unseen absv key) (map (new_location asc t fd) (filter (entry_wanted asc t (sf_TombstoneRange fd key)) es))) =
      filter (wanted asc t) (concat (map (\<lambda>ie. live absv key (new_location True 0 fd ie)) es))"
    if "fd \<in> set files" "set es \<subseteq> set (sf_ReadEntries fd key)" for fd es
    using that by (induction es) (auto simp: un skip)
  have gone: "filter (wanted asc t) (file_values absv key fd) = []"
    if "fd \<in> set files" "asc \<and> snd (sf_TimeRange fd) < t \<or> \<not> asc \<and> fst (sf_TimeRange fd) > t" for fd
  proof -
    note p = that
    have "\<not> wanted asc t x" if x: "ie \<in> set (sf_ReadEntries fd key)" "x \<in> set (live absv key (new_location True 0 fd ie))" for ie x
    proof -
      have "fst (sf_TimeRange fd) \<le> sint (ix_MinTime ie)" "sint (ix_MaxTime ie) \<le> snd (sf_TimeRange fd)"
        using ok p(1) x(1) by (simp_all add: files_ok_def)
      then show ?thesis using rng [OF p(1) x] p(2) by (auto simp: wanted_def in_range_def)
    qed
    then show ?thesis by (auto simp: file_values_def filter_empty_conv)
  qed
  have "concat (map (unseen absv key) (concat (map (\<lambda>fd.
       let (minTime, maxTime) = sf_TimeRange fd
       in if asc \<and> maxTime < t then []
          else if \<not> asc \<and> minTime > t then []
          else map (new_location asc t fd)
                 (filter (entry_wanted asc t (sf_TombstoneRange fd key)) (sf_ReadEntries fd key))) fs))) =
      filter (wanted asc t) (concat (map (file_values absv key) fs))" if "set fs \<subseteq> set files" for fs
    using that
  proof (induction fs)
    case (Cons fd fs)
    then show ?case
      using gone [of fd] per_file [of fd "sf_ReadEntries fd key"]
      by (cases asc; cases "sf_TimeRange fd") (simp_all add: Let_def flip: file_values_def)
  qed simp
  then show ?thesis unfolding fs_locations_def by blast
qed

lemma locations_sorted:
  fixes files :: "'c SSTFile list"
  assumes ok: "files_ok cwf absv key files" and "seek_ok asc t"
  shows "sorted_wrt (\<lambda>a b. latest x (unseen absv key a) \<noteq> None \<longrightarrow> latest x (unseen absv key b) \<noteq> None \<longrightarrow>
      sf_Path (lo_r a) < sf_Path (lo_r b)) (fs_locations files key t asc)"
proof -
  let ?P = "\<lambda>a b. latest x (unseen absv key a) \<noteq> None \<longrightarrow> latest x (unseen absv key b) \<noteq> None \<longrightarrow> sf_Path (lo_r a) < sf_Path (lo_r b)"
  have has: "sint (ix_MinTime ie) \<le> x \<and> x \<le> sint (ix_MaxTime ie)"
    if "fd \<in> set files" "ie \<in> set (sf_ReadEntries fd key)" "latest x (unseen absv key (new_location asc t fd ie)) \<noteq> None" for fd ie
  proof -
    note p = that
    obtain v where v: "v \<in> set (unseen absv key (new_location asc t fd ie))" "UnixNano v = x" using p(3) unfolding latest_None by blast
    from unseen_in_range [OF file_block_ok [OF ok p(1,2)] v(1)] show ?thesis using v(2) by (simp add: in_range_def new_location_same(4))
  qed
  have one: "sorted_wrt ?P (map (new_location asc t fd) (filter Q (sf_ReadEntries fd key)))" if "fd \<in> set files" for fd Q
  proof -
    have "sorted_wrt (\<lambda>a b. sint (ix_MaxTime a) < sint (ix_MinTime b)) (filter Q (sf_ReadEntries fd key))"
      using ok that by (intro sorted_wrt_filter) (auto simp: files_ok_def)
    then have "sorted_wrt (\<lambda>a b. ?P (new_location asc t fd a) (new_location asc t fd b)) (filter Q (sf_ReadEntries fd key))"
    proof (rule sorted_wrt_mono_rel [rotated], intro impI)
      fix a b assume ab: "a \<in> set (filter Q (sf_ReadEntries fd key))" "b \<in> set (filter Q (sf_ReadEntries fd key))"
        "sint (ix_MaxTime a) < sint (ix_MinTime b)" "latest x (unseen absv key (new_location asc t fd a)) \<noteq> None"
        "latest x (unseen absv key (new_location asc t fd b)) \<noteq> None"
      then show "sf_Path (lo_r (new_location asc t fd a)) < sf_Path (lo_r (new_location asc t fd b))"
        using has [OF that _ ab(4)] has [OF that _ ab(5)] by auto
    qed
    then show ?thesis by (simp only: sorted_wrt_map)
  qed
  define h where "h = (\<lambda>fd :: 'c SSTFile. let (minTime, maxTime) = sf_TimeRange fd
       in if asc \<and> maxTime < t then []
          else if \<not> asc \<and> minTime > t then []
          else map (new_location asc t fd) (filter (entry_wanted asc t (sf_TombstoneRange fd key)) (sf_ReadEntries fd key)))"
  have h: "sorted_wrt ?P (h fd)" "\<forall>l \<in> set (h fd). lo_r l = fd" if "fd \<in> set files" for fd
    using one [OF that] by (auto simp: h_def Let_def new_location_same(3) split: prod.splits)
  have "sorted_wrt (\<lambda>a b. sf_Path a < sf_Path b) files" using ok by (simp add: files_ok_def)
  then have "sorted_wrt (\<lambda>a b. \<forall>x \<in> set (h a). \<forall>y \<in> set (h b). ?P x y) files"
    by (rule sorted_wrt_mono_rel [rotated]) (use h(2) in auto)
  then have "sorted_wrt ?P (concat (map h files))" using h(1) by (auto simp: sorted_wrt_concat sorted_wrt_map)
  then show ?thesis by (simp only: fs_locations_def h_def)
qed

text \<open>Locations that both hold a value at \<open>x\<close> overlap, so they are sorted by the paths of their files.\<close>

lemma seeks_sorted:
  assumes "files_ok cwf absv key files" "seek_ok asc t"
    and s: "sorts_by (if asc then asc_Less else desc_Less) srt (fs_locations files key t asc)"
  shows "sorted_wrt (\<lambda>a b. latest x (unseen absv key a) \<noteq> None \<longrightarrow> latest x (unseen absv key b) \<noteq> None \<longrightarrow>
      sf_Path (lo_r a) \<le> sf_Path (lo_r b)) (srt (fs_locations files key t asc))"
proof -
  let ?S = "srt (fs_locations files key t asc)"
  have set: "set ?S = set (fs_locations files key t asc)" using s by (metis sorts_by_def mset_eq_setD)
  have has: "lo_min l \<le> x \<and> x \<le> lo_max l" if l: "l \<in> set ?S" "latest x (unseen absv key l) \<noteq> None" for l
  proof -
    obtain fd ie where "fd \<in> set files" "ie \<in> set (sf_ReadEntries fd key)" "l = new_location asc t fd ie"
      using in_locations l(1) set by metis
    then have "block_ok cwf absv l" using file_block_ok [OF assms(1)] by blast
    moreover obtain v where "v \<in> set (unseen absv key l)" "UnixNano v = x" using l(2) unfolding latest_None by blast
    ultimately show ?thesis using unseen_in_range by (fastforce simp: in_range_def)
  qed
  have "sorted_wrt (\<lambda>a b. \<not> (if asc then asc_Less else desc_Less) b a) ?S" using s by (simp add: sorts_by_def)
  then show ?thesis
  proof (rule sorted_wrt_mono_rel [rotated])
    fix a b assume ab: "a \<in> set ?S" "b \<in> set ?S" and n: "\<not> (if asc then asc_Less else desc_Less) b a"
    show "latest x (unseen absv key a) \<noteq> None \<longrightarrow> latest x (unseen absv key b) \<noteq> None \<longrightarrow> sf_Path (lo_r a) \<le> sf_Path (lo_r b)"
    proof (intro impI)
      assume "latest x (unseen absv key a) \<noteq> None" "latest x (unseen absv key b) \<noteq> None"
      from has [OF ab(1) this(1)] has [OF ab(2) this(2)] have "lo_overlaps b (lo_min a) (lo_max a)"
        by (simp add: lo_overlaps_def)
      then show "sf_Path (lo_r a) \<le> sf_Path (lo_r b)" using n by (auto simp: asc_Less_def desc_Less_def split: if_splits)
    qed
  qed
qed

context series_container
begin

lemma drain_files:
  assumes ok: "files_ok cwf absv key files" and t: "seek_ok asc t"
    and s: "sorts_by (if asc then asc_Less else desc_Less) (srt (if asc then asc_Less else desc_Less)) (fs_locations files key t asc)"
    and n: "length (concat (map (file_values absv key) files)) < n"
  shows "\<exists>bs. drain n ops (newKeyCursor srt files key t asc) = Inr bs \<and> (\<forall>b \<in> set bs. cwf b) \<and>
    concat (map absv (if asc then bs else rev bs)) = filter (wanted asc t) (Deduplicate (concat (map (file_values absv key) files)))"
proof -
  let ?L = "fs_locations files key t asc" let ?S = "srt (if asc then asc_Less else desc_Less) ?L" and ?u = "unseen absv key"
  let ?V = "concat (map (file_values absv key) files)"
  have perm: "mset ?S = mset ?L" using s by (simp add: sorts_by_def)
  have fresh: "block_ok cwf absv l \<and> fresh_at asc t l" if "l \<in> set ?L" for l
    using in_locations [OF that] file_block_ok [OF ok] fresh_new_location [OF t] by blast
  have lat: "latest x (concat (map ?u ?S)) = latest x (concat (map ?u ?L))" for x
    using latest_permuted [OF perm [symmetric] locations_sorted [OF ok t] seeks_sorted [OF ok t s]] .
  have "length (concat (map ?u ?S)) = sum_mset (image_mset (\<lambda>l. length (?u l)) (mset ?S))"
    by (simp add: length_concat comp_def flip: sum_mset_sum_list)
  also have "\<dots> = length (concat (map ?u ?L))"
    unfolding perm by (simp add: length_concat comp_def flip: sum_mset_sum_list)
  also have "\<dots> \<le> length ?V" unfolding locations_values [OF ok t] by (rule length_filter_le)
  finally have "length (concat (map ?u ?S)) < n" using n by simp
  then have "\<exists>bs. drain n ops (newKeyCursor srt files key t asc) = Inr bs \<and> (\<forall>b \<in> set bs. cwf b) \<and>
      concat (map absv (if asc then bs else rev bs)) = Deduplicate (concat (map ?u ?S))"
    using drain_new [of files key t asc srt ?S n] fresh perm by blast
  then obtain bs where bs: "drain n ops (newKeyCursor srt files key t asc) = Inr bs" "\<forall>b \<in> set bs. cwf b"
    "concat (map absv (if asc then bs else rev bs)) = Deduplicate (concat (map ?u ?S))" by blast
  have "Deduplicate (concat (map ?u ?S)) = filter (wanted asc t) (Deduplicate ?V)"
  proof (rule ordered_ext)
    fix x
    have "latest x (filter (wanted asc t) a) = (if (if asc then t \<le> x else x \<le> t) then latest x a else None)" for a
      using latest_filter_time [where P = "\<lambda>u. if asc then t \<le> u else u \<le> t"] unfolding wanted_def .
    then show "latest x (Deduplicate (concat (map ?u ?S))) = latest x (filter (wanted asc t) (Deduplicate ?V))"
      unfolding latest_Deduplicate lat locations_values [OF ok t] by simp
  qed (simp_all add: ordered_Deduplicate ordered_filter)
  then show ?thesis using bs by auto
qed

end

section \<open>The two containers\<close>

definition values_ops :: "Values container" where
  "values_ops = \<lparr>co_empty = [], co_Len = length, co_MinTime = (\<lambda>a. UnixNano (a ! 0)), co_MaxTime = (\<lambda>a. UnixNano (a ! (length a - 1))),
     co_Exclude = Exclude, co_Include = Include, co_Merge = Merge\<rparr>"

definition array_ops :: "'v array container" where
  "array_ops = \<lparr>co_empty = \<lparr>ar_ts = [], ar_vs = []\<rparr>, co_Len = arr_Len, co_MinTime = arr_MinTime, co_MaxTime = arr_MaxTime,
     co_Exclude = arr_Exclude, co_Include = arr_Include, co_Merge = arr_Merge\<rparr>"

lemma Merge_ordered:
  assumes "ordered a" "ordered b"
  shows "ordered (Merge a b)" "latest t (Merge a b) = latest t (a @ b)"
proof -
  have "ordered (Merge a b) \<and> latest t (Merge a b) = latest t (a @ b)"
  proof (cases "a = [] \<or> b = []")
    case True
    then show ?thesis using assms by (auto simp: Merge_def)
  next
    case False
    then show ?thesis using Merge_props by blast
  qed
  then show "ordered (Merge a b)" "latest t (Merge a b) = latest t (a @ b)" by simp_all
qed

interpretation value_container: series_container values_ops "\<lambda>v. v" "\<lambda>v. True"
  by unfold_locales
    (simp_all add: values_ops_def hd_conv_nth last_conv_nth Exclude_filter Include_filter in_range_def [abs_def] Merge_ordered)

lemma array_container:
  assumes "array_type mk"
  shows "series_container array_ops (arr_values mk) arr_wf"
proof -
  note A = array_type.arr_Exclude_eq [OF assms] array_type.arr_Include_eq [OF assms] array_type.arr_Merge_eq [OF assms]
    array_type.length_vals [OF assms] array_type.UnixNano_vals [OF assms] array_type.vals_Nil_iff [OF assms]
  show ?thesis
  proof
    show "arr_wf (co_empty array_ops)" "arr_values mk (co_empty array_ops) = []"
      by (simp_all add: array_ops_def arr_wf_def arr_values_def)
  next
    fix v :: "'a array" and mn mx
    assume w: "arr_wf v"
    show "co_Len array_ops v = length (arr_values mk v)" using w by (simp add: array_ops_def A)
    assume "arr_values mk v \<noteq> []"
    then have "arr_Len v > 0" using w by (simp add: A)
    then show "co_MinTime array_ops v = UnixNano (hd (arr_values mk v))" "co_MaxTime array_ops v = UnixNano (last (arr_values mk v))"
      using w by (simp_all add: array_ops_def A hd_conv_nth last_conv_nth arr_MinTime_def arr_MaxTime_def flip: arr_Len_def)
  next
    fix v :: "'a array" and mn mx
    assume w: "arr_wf v" "ordered (arr_values mk v)"
    show "arr_wf (co_Exclude array_ops v mn mx) \<and>
        arr_values mk (co_Exclude array_ops v mn mx) = filter (\<lambda>x. \<not> in_range mn mx x) (arr_values mk v)"
      using w by (simp add: array_ops_def A Exclude_filter in_range_def [abs_def])
    show "arr_wf (co_Include array_ops v mn mx) \<and>
        arr_values mk (co_Include array_ops v mn mx) = filter (in_range mn mx) (arr_values mk v)"
      using w by (simp add: array_ops_def A Include_filter in_range_def [abs_def])
  next
    fix v w :: "'a array"
    assume "arr_wf v" "arr_wf w" "ordered (arr_values mk v)" "ordered (arr_values mk w)"
    then show "arr_wf (co_Merge array_ops v w) \<and> ordered (arr_values mk (co_Merge array_ops v w)) \<and>
        (\<forall>t. latest t (arr_values mk (co_Merge array_ops v w)) = latest t (arr_values mk v @ arr_values mk w))"
      by (simp add: array_ops_def A Merge_ordered)
  qed
qed

interpretation float_container: series_container array_ops "arr_values FloatValue" arr_wf
  by (rule array_container) (rule float_array.array_type_axioms)
interpretation integer_container: series_container array_ops "arr_values IntegerValue" arr_wf
  by (rule array_container) (rule integer_array.array_type_axioms)
interpretation unsigned_container: series_container array_ops "arr_values UnsignedValue" arr_wf
  by (rule array_container) (rule unsigned_array.array_type_axioms)
interpretation boolean_container: series_container array_ops "arr_values BooleanValue" arr_wf
  by (rule array_container) (rule boolean_array.array_type_axioms)
interpretation string_container: series_container array_ops "arr_values StringValue" arr_wf
  by (rule array_container) (rule string_array.array_type_axioms)

section \<open>The generated readers\<close>

definition ReadFloatArrayBlock :: "FloatArray KeyCursor \<Rightarrow> (FloatArray \<times> FloatArray KeyCursor) result" where
  "ReadFloatArrayBlock = read_block array_ops"
definition ReadIntegerArrayBlock :: "IntegerArray KeyCursor \<Rightarrow> (IntegerArray \<times> IntegerArray KeyCursor) result" where
  "ReadIntegerArrayBlock = read_block array_ops"
definition ReadUnsignedArrayBlock :: "UnsignedArray KeyCursor \<Rightarrow> (UnsignedArray \<times> UnsignedArray KeyCursor) result" where
  "ReadUnsignedArrayBlock = read_block array_ops"
definition ReadStringArrayBlock :: "StringArray KeyCursor \<Rightarrow> (StringArray \<times> StringArray KeyCursor) result" where
  "ReadStringArrayBlock = read_block array_ops"
definition ReadBooleanArrayBlock :: "BooleanArray KeyCursor \<Rightarrow> (BooleanArray \<times> BooleanArray KeyCursor) result" where
  "ReadBooleanArrayBlock = read_block array_ops"

definition ReadFloatBlock :: "Values KeyCursor \<Rightarrow> (Values \<times> Values KeyCursor) result" where
  "ReadFloatBlock = read_block values_ops"
definition ReadIntegerBlock :: "Values KeyCursor \<Rightarrow> (Values \<times> Values KeyCursor) result" where
  "ReadIntegerBlock = read_block values_ops"
definition ReadUnsignedBlock :: "Values KeyCursor \<Rightarrow> (Values \<times> Values KeyCursor) result" where
  "ReadUnsignedBlock = read_block values_ops"
definition ReadStringBlock :: "Values KeyCursor \<Rightarrow> (Values \<times> Values KeyCursor) result" where
  "ReadStringBlock = read_block values_ops"
definition ReadBooleanBlock :: "Values KeyCursor \<Rightarrow> (Values \<times> Values KeyCursor) result" where
  "ReadBooleanBlock = read_block values_ops"

section \<open>What the cursor delivers\<close>

text \<open>
  C32: Reading a series with a key cursor, in either direction, never fails and ends; the blocks hold every live value of the
  series from the start time on exactly once, in the order of their times, and where several files have a value
  for one time it is that of the last file.
\<close>

theorem key_cursor_reads_series:
  assumes "array_type mk" and "files_ok arr_wf (arr_values mk) key files" and "seek_ok asc t"
    and "sorts_by (if asc then asc_Less else desc_Less) (srt (if asc then asc_Less else desc_Less)) (fs_locations files key t asc)"
    and "length (concat (map (file_values (arr_values mk) key) files)) < n"
  shows "\<exists>bs. drain n array_ops (newKeyCursor srt files key t asc) = Inr bs \<and> (\<forall>b \<in> set bs. arr_wf b) \<and>
    concat (map (arr_values mk) (if asc then bs else rev bs)) =
      filter (wanted asc t) (Deduplicate (concat (map (file_values (arr_values mk) key) files)))"
  using series_container.drain_files [OF array_container [OF assms(1)]] assms(2-5) .

text \<open>The same for the readers of slices of values.\<close>

lemma key_cursor_reads_values:
  assumes "files_ok (\<lambda>v. True) (\<lambda>v. v) key files" and "seek_ok asc t"
    and "sorts_by (if asc then asc_Less else desc_Less) (srt (if asc then asc_Less else desc_Less)) (fs_locations files key t asc)"
    and "length (concat (map (file_values (\<lambda>v. v) key) files)) < n"
  shows "\<exists>bs. drain n values_ops (newKeyCursor srt files key t asc) = Inr bs \<and>
    concat (if asc then bs else rev bs) = filter (wanted asc t) (Deduplicate (concat (map (file_values (\<lambda>v. v) key) files)))"
  using value_container.drain_files [of key files asc t srt n] assms by simp

text \<open>A store of two files that overlap: the second one has a newer value for time 3, and time 1 of the first is deleted.\<close>

definition insertion_sort :: "('l \<Rightarrow> 'l \<Rightarrow> bool) \<Rightarrow> 'l list \<Rightarrow> 'l list" where
  "insertion_sort lt ls = foldl (\<lambda>acc x. let (hi, lo) = (takeWhile (lt x) (rev acc), dropWhile (lt x) (rev acc))
     in rev lo @ [x] @ rev hi) [] ls"

definition example_file :: "bytes \<Rightarrow> (u64 list \<times> u64 list) \<Rightarrow> (int \<times> int) list \<Rightarrow> FloatArray SSTFile" where
  "example_file path tv tombs =
     \<lparr>sf_Path = path, sf_TimeRange = (sint (hd (fst tv)), sint (last (fst tv))),
      sf_ReadEntries = (\<lambda>key. [\<lparr>ix_MinTime = hd (fst tv), ix_MaxTime = last (fst tv), ix_Offset = 5, ix_Size = 64\<rparr>]),
      sf_TombstoneRange = (\<lambda>key. tombs), sf_ReadAt = (\<lambda>ie. Inr \<lparr>ar_ts = fst tv, ar_vs = snd tv\<rparr>)\<rparr>"

definition example_store :: "FloatArray SSTFile list" where
  "example_store = [example_file [1] ([1, 3], [10, 30]) [(1, 1)], example_file [2] ([2, 3, 5], [20, 31, 50]) []]"


lemmas example_simps = example_store_def example_file_def arr_wf_def arr_values_def
  UnixNano_def files_ok_def file_values_def live_def stored_def block_ok_def in_range_def new_location_def

lemma example_files_ok: "files_ok arr_wf (arr_values FloatValue) [7] example_store"
  by (simp add: example_simps)

lemma example_sorts:
  "sorts_by asc_Less (insertion_sort asc_Less) (fs_locations example_store [7] 2 True)"
  by (simp add: sorts_by_def insertion_sort_def fs_locations_def entry_wanted_def asc_Less_def lo_overlaps_def example_simps)

lemma example_file_values:
  "map (file_values (arr_values FloatValue) [7]) example_store =
     [[FloatValue 3 30], [FloatValue 2 20, FloatValue 3 31, FloatValue 5 50]]"
  by (simp add: example_simps)

lemma example_Deduplicate:
  "filter (wanted True 2) (Deduplicate [FloatValue 3 30, FloatValue 2 20, FloatValue 3 31, FloatValue 5 50]) =
     [FloatValue 2 20, FloatValue 3 31, FloatValue 5 50]"
  by code_simp

theorem key_cursor_reads_series_witness:
  "\<exists>bs. drain 9 array_ops (newKeyCursor insertion_sort example_store [7] 2 True) = Inr bs \<and>
     concat (map (arr_values FloatValue) bs) = [FloatValue 2 20, FloatValue 3 31, FloatValue 5 50]"
proof -
  have "\<exists>bs. drain 9 array_ops (newKeyCursor insertion_sort example_store [7] 2 True) = Inr bs \<and> (\<forall>b \<in> set bs. arr_wf b) \<and>
      concat (map (arr_values FloatValue) bs) = [FloatValue 2 20, FloatValue 3 31, FloatValue 5 50]"
    using key_cursor_reads_series [OF float_array.array_type_axioms example_files_ok, of True 2 insertion_sort 9]
      example_sorts example_Deduplicate
    by (simp add: example_file_values seek_ok_def min_i64_def max_i64_def)
  then show ?thesis by blast
qed

end
