(* ===== verification/ArrayCursor.thy ===== *)
theory ArrayCursor
  imports KeyCursorFiles
begin

text \<open>
  The cursors that queries read, \<open>storage/cursor/array_cursor.gen.go\<close>: they merge the values of the memory tables
  with the blocks of a key cursor, ascending or descending, and return them in arrays of bounded length. The code
  is generated for five types of values; the model takes the type assertion on a cached value and the source of the
  blocks as parameters. The array \<open>res\<close> that \<open>Next\<close> fills is a list of pairs whose length is \<open>pos\<close>; its capacity is
  kept. A read that fails leaves a nil pointer, which is \<open>None\<close>.
\<close>

section \<open>The cursors\<close>

record ('v, 's) block_source =
  so_Read :: "'s \<Rightarrow> ('v array \<times> 's) result"
  so_Next :: "'s \<Rightarrow> 's"

record ('v, 's) ArrayCursor =
  ac_cvals :: Values
  ac_cpos :: int
  ac_tvals :: "'v array option"
  ac_tpos :: int
  ac_keyCursor :: 's
  ac_end :: int
  ac_cap :: nat

definition DefaultMaxPointsPerBlock :: nat where
  "DefaultMaxPointsPerBlock = 2000"

text \<open>\<open>sort.Search\<close>.\<close>

function sort_Search :: "(nat \<Rightarrow> bool) \<Rightarrow> nat \<Rightarrow> nat \<Rightarrow> nat" where
  "sort_Search f i j =
     (if i < j then (let h = (i + j) div 2 in if \<not> f h then sort_Search f (h + 1) j else sort_Search f i h) else i)"
  by pat_completeness auto
termination by (relation "measure (\<lambda>(f, i, j). j - i)") auto

declare sort_Search.simps [simp del]

text \<open>\<open>cvals[c.cache.pos].(types.FloatValue).RawValue()\<close> with its time; \<open>raw\<close> is the type assertion.\<close>

definition cache_value :: "(Value \<Rightarrow> 'v option) \<Rightarrow> ('v, 's) ArrayCursor \<Rightarrow> (u64 \<times> 'v) result" where
  "cache_value raw c =
     (let v = ac_cvals c ! nat (ac_cpos c)
      in case raw v of None \<Rightarrow> Inl Panic | Some x \<Rightarrow> Inr (unixNano v, x))"

definition block_value :: "'v array \<Rightarrow> ('v, 's) ArrayCursor \<Rightarrow> u64 \<times> 'v" where
  "block_value tv c = (ar_ts tv ! nat (ac_tpos c), ar_vs tv ! nat (ac_tpos c))"

definition to_array :: "(u64 \<times> 'v) list \<Rightarrow> 'v array" where
  "to_array out = \<lparr>ar_ts = map fst out, ar_vs = map snd out\<rparr>"

text \<open>The values at the end that lie beyond the end time are cut off.\<close>

definition strip :: "(int \<Rightarrow> bool) \<Rightarrow> (u64 \<times> 'v) list \<Rightarrow> (u64 \<times> 'v) list" where
  "strip beyond out = rev (dropWhile (\<lambda>p. beyond (sint (fst p))) (rev out))"

subsection \<open>Ascending\<close>

definition asc_Reset :: "('v, 's) block_source \<Rightarrow> nat \<Rightarrow> int \<Rightarrow> int \<Rightarrow> Values \<Rightarrow> 's \<Rightarrow> ('v, 's) ArrayCursor" where
  "asc_Reset src cap seek ende cacheValues kc =
     (let c = \<lparr>ac_cvals = cacheValues, ac_cpos = int (sort_Search (\<lambda>i. UnixNano (cacheValues ! i) \<ge> seek) 0 (length cacheValues)),
                ac_tvals = None, ac_tpos = 0, ac_keyCursor = kc, ac_end = ende, ac_cap = cap\<rparr>
      in case so_Read src kc of
           Inl e \<Rightarrow> c
         | Inr (v, s) \<Rightarrow> c\<lparr>ac_tvals := Some v, ac_keyCursor := s,
             ac_tpos := int (sort_Search (\<lambda>i. sint (ar_ts v ! i) \<ge> seek) 0 (arr_Len v))\<rparr>)"

definition asc_nextSST :: "('v, 's) block_source \<Rightarrow> ('v, 's) ArrayCursor \<Rightarrow> ('v, 's) ArrayCursor" where
  "asc_nextSST src c =
     (case so_Read src (so_Next src (ac_keyCursor c)) of
        Inl e \<Rightarrow> c\<lparr>ac_tvals := None, ac_tpos := 0\<rparr>
      | Inr (v, s) \<Rightarrow> c\<lparr>ac_tvals := Some v, ac_tpos := 0, ac_keyCursor := s\<rparr>)"

definition asc_step :: "(Value \<Rightarrow> 'v option) \<Rightarrow> 'v array \<Rightarrow> ('v, 's) ArrayCursor \<Rightarrow> ((u64 \<times> 'v) \<times> ('v, 's) ArrayCursor) result" where
  "asc_step raw tv c =
     (let ckey = UnixNano (ac_cvals c ! nat (ac_cpos c)); tkey = sint (ar_ts tv ! nat (ac_tpos c))
      in if ckey = tkey
         then bind_result (cache_value raw c) (\<lambda>p. Inr (p, c\<lparr>ac_cpos := ac_cpos c + 1, ac_tpos := ac_tpos c + 1\<rparr>))
         else if ckey < tkey then bind_result (cache_value raw c) (\<lambda>p. Inr (p, c\<lparr>ac_cpos := ac_cpos c + 1\<rparr>))
         else Inr (block_value tv c, c\<lparr>ac_tpos := ac_tpos c + 1\<rparr>))"

function asc_loop ::
  "(Value \<Rightarrow> 'v option) \<Rightarrow> ('v, 's) block_source \<Rightarrow> nat \<Rightarrow> ('v, 's) ArrayCursor \<Rightarrow> (u64 \<times> 'v) list \<Rightarrow>
   (('v, 's) ArrayCursor \<times> (u64 \<times> 'v) list) result" where
  "asc_loop raw src n c out =
     (if length out < n then
        (case ac_tvals c of
           None \<Rightarrow> Inl Panic
         | Some tv \<Rightarrow>
             if ac_tpos c < int (arr_Len tv) \<and> ac_cpos c < int (length (ac_cvals c)) then
               bind_result (asc_step raw tv c) (\<lambda>(p, c1).
                 asc_loop raw src n (if ac_tpos c1 \<ge> int (arr_Len tv) then asc_nextSST src c1 else c1) (out @ [p]))
             else Inr (c, out))
      else Inr (c, out))"
  by pat_completeness auto
termination by (relation "measure (\<lambda>(raw, src, n, c, out). n - length out)") auto

declare asc_loop.simps [simp del]

text \<open>When the cached values are used up, as much of the block as there is room for; a whole block in one go.\<close>

definition asc_copy ::
  "('v, 's) block_source \<Rightarrow> nat \<Rightarrow> ('v, 's) ArrayCursor \<Rightarrow> (u64 \<times> 'v) list \<Rightarrow>
   (('v, 's) ArrayCursor \<times> (u64 \<times> 'v) list) result" where
  "asc_copy src n c out =
     (case ac_tvals c of
        None \<Rightarrow> Inl Panic
      | Some tv \<Rightarrow>
          if ac_tpos c < int (arr_Len tv) then
            if out = [] \<and> n \<ge> arr_Len tv then Inr (asc_nextSST src c, zip (ar_ts tv) (ar_vs tv))
            else
              let p = nat (ac_tpos c);
                  m = min (n - length out) (arr_Len tv - p);
                  c1 = c\<lparr>ac_tpos := ac_tpos c + int m\<rparr>
              in Inr (if ac_tpos c1 \<ge> int (arr_Len tv) then asc_nextSST src c1 else c1,
                      out @ zip (take m (drop p (ar_ts tv))) (take m (drop p (ar_vs tv))))
          else Inr (c, out))"

function asc_cache_loop ::
  "(Value \<Rightarrow> 'v option) \<Rightarrow> nat \<Rightarrow> ('v, 's) ArrayCursor \<Rightarrow> (u64 \<times> 'v) list \<Rightarrow>
   (('v, 's) ArrayCursor \<times> (u64 \<times> 'v) list) result" where
  "asc_cache_loop raw n c out =
     (if length out < n \<and> ac_cpos c < int (length (ac_cvals c))
      then bind_result (cache_value raw c) (\<lambda>p. asc_cache_loop raw n (c\<lparr>ac_cpos := ac_cpos c + 1\<rparr>) (out @ [p]))
      else Inr (c, out))"
  by pat_completeness auto
termination by (relation "measure (\<lambda>(raw, n, c, out). n - length out)") auto

declare asc_cache_loop.simps [simp del]

definition asc_Next ::
  "(Value \<Rightarrow> 'v option) \<Rightarrow> ('v, 's) block_source \<Rightarrow> ('v, 's) ArrayCursor \<Rightarrow> ('v array \<times> ('v, 's) ArrayCursor) result" where
  "asc_Next raw src c =
     (let n = ac_cap c
      in bind_result (asc_loop raw src n c []) (\<lambda>(c1, out1).
         bind_result
           (if length out1 < n then bind_result (asc_copy src n c1 out1) (\<lambda>(c2, out2). asc_cache_loop raw n c2 out2)
            else Inr (c1, out1)) (\<lambda>(c3, out3).
         Inr (to_array (strip (\<lambda>t. t > ac_end c) out3), c3))))"

subsection \<open>Descending\<close>

definition desc_Reset :: "('v, 's) block_source \<Rightarrow> nat \<Rightarrow> int \<Rightarrow> int \<Rightarrow> Values \<Rightarrow> 's \<Rightarrow> ('v, 's) ArrayCursor" where
  "desc_Reset src cap seek ende cacheValues kc =
     (let c = \<lparr>ac_cvals = cacheValues, ac_cpos = int (sort_Search (\<lambda>i. UnixNano (cacheValues ! i) > seek) 0 (length cacheValues)) - 1,
                ac_tvals = None, ac_tpos = -1, ac_keyCursor = kc, ac_end = ende, ac_cap = cap\<rparr>
      in case so_Read src kc of
           Inl e \<Rightarrow> c
         | Inr (v, s) \<Rightarrow> c\<lparr>ac_tvals := Some v, ac_keyCursor := s,
             ac_tpos := int (sort_Search (\<lambda>i. sint (ar_ts v ! i) > seek) 0 (arr_Len v)) - 1\<rparr>)"

text \<open>The length of the new block is taken at once, which panics where the read has failed.\<close>

definition desc_nextSST :: "('v, 's) block_source \<Rightarrow> ('v, 's) ArrayCursor \<Rightarrow> ('v, 's) ArrayCursor result" where
  "desc_nextSST src c =
     (case so_Read src (so_Next src (ac_keyCursor c)) of
        Inl e \<Rightarrow> Inl Panic
      | Inr (v, s) \<Rightarrow> Inr (c\<lparr>ac_tvals := Some v, ac_tpos := int (arr_Len v) - 1, ac_keyCursor := s\<rparr>))"

definition desc_step :: "(Value \<Rightarrow> 'v option) \<Rightarrow> ('v, 's) ArrayCursor \<Rightarrow> ((u64 \<times> 'v) \<times> ('v, 's) ArrayCursor) result" where
  "desc_step raw c =
     (case ac_tvals c of
        None \<Rightarrow> Inl Panic
      | Some tv \<Rightarrow>
          (let ckey = UnixNano (ac_cvals c ! nat (ac_cpos c)); tkey = sint (ar_ts tv ! nat (ac_tpos c))
           in if ckey = tkey
              then bind_result (cache_value raw c) (\<lambda>p. Inr (p, c\<lparr>ac_cpos := ac_cpos c - 1, ac_tpos := ac_tpos c - 1\<rparr>))
              else if ckey > tkey then bind_result (cache_value raw c) (\<lambda>p. Inr (p, c\<lparr>ac_cpos := ac_cpos c - 1\<rparr>))
              else Inr (block_value tv c, c\<lparr>ac_tpos := ac_tpos c - 1\<rparr>)))"

function desc_loop ::
  "(Value \<Rightarrow> 'v option) \<Rightarrow> ('v, 's) block_source \<Rightarrow> nat \<Rightarrow> ('v, 's) ArrayCursor \<Rightarrow> (u64 \<times> 'v) list \<Rightarrow>
   (('v, 's) ArrayCursor \<times> (u64 \<times> 'v) list) result" where
  "desc_loop raw src n c out =
     (if length out < n \<and> ac_tpos c \<ge> 0 \<and> ac_cpos c \<ge> 0 then
        bind_result (desc_step raw c) (\<lambda>(p, c1).
        bind_result (if ac_tpos c1 < 0 then desc_nextSST src c1 else Inr c1) (\<lambda>c2.
        desc_loop raw src n c2 (out @ [p])))
      else Inr (c, out))"
  by pat_completeness auto
termination by (relation "measure (\<lambda>(raw, src, n, c, out). n - length out)") auto

declare desc_loop.simps [simp del]

function desc_block_loop ::
  "('v, 's) block_source \<Rightarrow> nat \<Rightarrow> ('v, 's) ArrayCursor \<Rightarrow> (u64 \<times> 'v) list \<Rightarrow>
   (('v, 's) ArrayCursor \<times> (u64 \<times> 'v) list) result" where
  "desc_block_loop src n c out =
     (if length out < n \<and> ac_tpos c \<ge> 0 then
        (case ac_tvals c of
           None \<Rightarrow> Inl Panic
         | Some tv \<Rightarrow>
             (let c1 = c\<lparr>ac_tpos := ac_tpos c - 1\<rparr>
              in bind_result (if ac_tpos c1 < 0 then desc_nextSST src c1 else Inr c1) (\<lambda>c2.
                 desc_block_loop src n c2 (out @ [block_value tv c]))))
      else Inr (c, out))"
  by pat_completeness auto
termination by (relation "measure (\<lambda>(src, n, c, out). n - length out)") auto

declare desc_block_loop.simps [simp del]

function desc_cache_loop ::
  "(Value \<Rightarrow> 'v option) \<Rightarrow> nat \<Rightarrow> ('v, 's) ArrayCursor \<Rightarrow> (u64 \<times> 'v) list \<Rightarrow>
   (('v, 's) ArrayCursor \<times> (u64 \<times> 'v) list) result" where
  "desc_cache_loop raw n c out =
     (if length out < n \<and> ac_cpos c \<ge> 0
      then bind_result (cache_value raw c) (\<lambda>p. desc_cache_loop raw n (c\<lparr>ac_cpos := ac_cpos c - 1\<rparr>) (out @ [p]))
      else Inr (c, out))"
  by pat_completeness auto
termination by (relation "measure (\<lambda>(raw, n, c, out). n - length out)") auto

declare desc_cache_loop.simps [simp del]

definition desc_Next ::
  "(Value \<Rightarrow> 'v option) \<Rightarrow> ('v, 's) block_source \<Rightarrow> ('v, 's) ArrayCursor \<Rightarrow> ('v array \<times> ('v, 's) ArrayCursor) result" where
  "desc_Next raw src c =
     (let n = ac_cap c
      in bind_result (desc_loop raw src n c []) (\<lambda>(c1, out1).
         bind_result
           (if length out1 < n then bind_result (desc_block_loop src n c1 out1) (\<lambda>(c2, out2). desc_cache_loop raw n c2 out2)
            else Inr (c1, out1)) (\<lambda>(c3, out3).
         Inr (to_array (strip (\<lambda>t. t < ac_end c) out3), c3))))"

text \<open>A consumer that calls \<open>Next\<close> until it returns an empty array, as \<open>generateSelectResult\<close> does.\<close>

fun read_all :: "nat \<Rightarrow> ('c \<Rightarrow> ('v array \<times> 'c) result) \<Rightarrow> 'c \<Rightarrow> 'v array list result" where
  "read_all 0 next c = Inl Diverged"
| "read_all (Suc n) next c =
     bind_result (next c) (\<lambda>(a, c'). if arr_Len a = 0 then Inr [] else bind_result (read_all n next c') (\<lambda>as. Inr (a # as)))"

section \<open>Merging in the order of delivery\<close>

text \<open>
  \<open>k\<close> is the time of a value for an ascending and its negation for a descending cursor; of two values for one time
  the cached one counts.
\<close>

fun pick :: "(Value \<Rightarrow> int) \<Rightarrow> Values \<Rightarrow> Values \<Rightarrow> Values" where
  "pick k [] c = c"
| "pick k s [] = s"
| "pick k (x # s) (y # c) =
     (if k y = k x then y # pick k s c
      else if k y < k x then y # pick k (x # s) c
      else x # pick k s (y # c))"

lemma pick_Nil [simp]: "pick k s [] = s"
  by (cases s) simp_all

lemma pick_eq_Nil [simp]: "pick k s c = [] \<longleftrightarrow> s = [] \<and> c = []"
  by (cases s; cases c) auto

abbreviation sorted_key :: "(Value \<Rightarrow> int) \<Rightarrow> Values \<Rightarrow> bool" where
  "sorted_key k \<equiv> sorted_wrt (\<lambda>a b. k a < k b)"

lemma set_pick: "set (pick k s c) \<subseteq> set s \<union> set c"
  by (induction k s c rule: pick.induct) auto

lemma sorted_pick: "sorted_key k s \<Longrightarrow> sorted_key k c \<Longrightarrow> sorted_key k (pick k s c)"
proof (induction k s c rule: pick.induct)
  case (3 k x s y c)
  consider "k y = k x" | "k y < k x" | "k x < k y" by linarith
  then show ?case
  proof cases
    case 1
    have "k y < k z" if "z \<in> set (pick k s c)" for z using that set_pick [of k s c] "3.prems" 1 by auto
    then show ?thesis using "3.IH"(1) 1 "3.prems" by simp
  next
    case 2
    have "k y < k z" if "z \<in> set (pick k (x # s) c)" for z using that set_pick [of k "x # s" c] "3.prems" 2 by fastforce
    then show ?thesis using "3.IH"(2) 2 "3.prems" by simp
  next
    case 3
    have "k x < k z" if "z \<in> set (pick k s (y # c))" for z using that set_pick [of k s "y # c"] "3.prems" 3 by fastforce
    then show ?thesis using "3.IH"(3) 3 "3.prems" by simp
  qed
qed simp_all

lemma mem_pick:
  "sorted_key k s \<Longrightarrow> sorted_key k c \<Longrightarrow> v \<in> set (pick k s c) \<longleftrightarrow> v \<in> set c \<or> v \<in> set s \<and> (\<forall>w \<in> set c. k w \<noteq> k v)"
proof (induction k s c rule: pick.induct)
  case (3 k x s y c)
  consider "k y = k x" | "k y < k x" | "k x < k y" by linarith
  then show ?case
  proof cases
    case 1
    then have "\<forall>w \<in> set s. k w \<noteq> k y" "\<forall>w \<in> set c. k w \<noteq> k x" using "3.prems" by fastforce+
    then show ?thesis using "3.IH"(1) 1 "3.prems" by (auto dest: spec)
  next
    case 2
    then have "\<forall>w \<in> set s. k w \<noteq> k y" using "3.prems" by fastforce
    then show ?thesis using "3.IH"(2) 2 "3.prems" by auto
  next
    case 3
    then have "\<forall>w \<in> set c. k w \<noteq> k x" using "3.prems" by fastforce
    then show ?thesis using "3.IH"(3) 3 "3.prems" by auto
  qed
qed auto

text \<open>In the order of time this is the deduplication of both, with the cached values behind the others.\<close>

lemma pick_eq_Deduplicate:
  assumes "sorted_key k s" "sorted_key k c" and "k = UnixNano \<and> dir = (\<lambda>a. a) \<or> k = (\<lambda>v. - UnixNano v) \<and> dir = rev"
  shows "dir (pick k s c) = Deduplicate (dir s @ dir c)"
proof (rule ordered_ext)
  have o: "ordered (dir a)" if "sorted_key k a" for a
    using assms(3) that by (auto simp: ordered_iff sorted_wrt_rev)
  have d: "set (dir a) = set a" for a using assms(3) by auto
  show "ordered (dir (pick k s c))" using o sorted_pick [OF assms(1,2)] by blast
  fix t
  have "latest t (dir (pick k s c)) = Some v \<longleftrightarrow> latest t (dir s @ dir c) = Some v" for v
  proof -
    have "latest t (dir (pick k s c)) = Some v \<longleftrightarrow> v \<in> set (pick k s c) \<and> UnixNano v = t"
      by (simp add: latest_ordered o sorted_pick assms(1,2) d)
    also have "\<dots> \<longleftrightarrow> (v \<in> set c \<or> v \<in> set s \<and> (\<forall>w \<in> set c. UnixNano w \<noteq> t)) \<and> UnixNano v = t"
      using mem_pick [OF assms(1,2), of v] assms(3) by auto
    also have "\<dots> \<longleftrightarrow> latest t (dir s @ dir c) = Some v"
    proof (cases "latest t (dir c)")
      case None
      then have "\<forall>w \<in> set c. UnixNano w \<noteq> t" by (simp add: latest_None d)
      then show ?thesis using None by (auto simp: latest_append latest_ordered o assms(1) d)
    next
      case (Some w)
      then have "w \<in> set c \<and> UnixNano w = t" using latest_SomeD [OF Some] by (simp add: d)
      moreover have "Some w = Some v \<longleftrightarrow> v \<in> set c \<and> UnixNano v = t"
        using latest_ordered [OF o [OF assms(2)], of t v] Some by (simp add: d)
      ultimately show ?thesis using Some by (auto simp: latest_append)
    qed
    finally show ?thesis .
  qed
  then show "latest t (dir (pick k s c)) = latest t (Deduplicate (dir s @ dir c))"
    by (metis latest_Deduplicate not_None_eq)
qed (rule ordered_Deduplicate)

section \<open>Readers that deliver in chunks\<close>

text \<open>
  The contract of \<open>Next\<close>: \<open>R c M\<close> relates a cursor to the values it still has to deliver, in order. A call cuts a
  non-empty piece off the front and returns those values of it that are within the range of the query.
\<close>

locale chunk_reader =
  fixes nextv :: "'c \<Rightarrow> ('v array \<times> 'c) result" and absv :: "'v array \<Rightarrow> Values"
    and R :: "'c \<Rightarrow> Values \<Rightarrow> bool" and within :: "Value \<Rightarrow> bool"
  assumes step: "R c M \<Longrightarrow> \<exists>a c' p M'. nextv c = Inr (a, c') \<and> arr_Len a = length (absv a) \<and> absv a = filter within p \<and>
      M = p @ M' \<and> R c' M' \<and> (M \<noteq> [] \<longrightarrow> p \<noteq> [])"
    and leaves: "R c M \<Longrightarrow> sorted_wrt (\<lambda>x y. within y \<longrightarrow> within x) M"
begin

lemma read_all_eq: "R c M \<Longrightarrow> length M < n \<Longrightarrow> \<exists>as. read_all n nextv c = Inr as \<and> concat (map absv as) = filter within M"
proof (induction n arbitrary: c M)
  case (Suc n)
  obtain a c' p M' where s: "nextv c = Inr (a, c')" "arr_Len a = length (absv a)" "absv a = filter within p" "M = p @ M'" "R c' M'"
    "M \<noteq> [] \<longrightarrow> p \<noteq> []" using step [OF Suc.prems(1)] by blast
  show ?case
  proof (cases "filter within p = []")
    case True
    have "filter within M = []"
    proof (cases p)
      case (Cons x p')
      then have "\<not> within x" using True by auto
      then have "\<not> within y" if "y \<in> set M" for y using leaves [OF Suc.prems(1)] that Cons s(4) by auto
      then show ?thesis by simp
    qed (use s(6) in simp)
    then show ?thesis using s(1-3) True by simp
  next
    case False
    then have "p \<noteq> []" by auto
    then have "length M' < n" using Suc.prems(2) s(4) by (cases p) auto
    from Suc.IH [OF s(5) this] show ?thesis using s(1-4) False by fastforce
  qed
qed simp

end

end
