(* ===== verification/CursorRuns.thy ===== *)
theory CursorRuns
  imports ArrayCursor
begin

text \<open>
  The runs of the array cursors: what a cursor still has to deliver, and that each call of \<open>Next\<close> takes a piece
  off its front, ascending (with the exception the code makes for blocks it has begun) and descending.
\<close>

section \<open>What a cursor still has to deliver\<close>

text \<open>The blocks a source delivers before its first empty one.\<close>

fun feeds :: "('v, 's) block_source \<Rightarrow> 'v array list \<Rightarrow> 's \<Rightarrow> bool" where
  "feeds src [] s \<longleftrightarrow> (\<exists>v s'. so_Read src s = Inr (v, s') \<and> arr_Len v = 0)"
| "feeds src (b # bs) s \<longleftrightarrow> (\<exists>s'. so_Read src s = Inr (b, s') \<and> 0 < arr_Len b \<and> arr_wf b \<and> feeds src bs (so_Next src s'))"

definition pairs :: "(u64 \<Rightarrow> 'v \<Rightarrow> Value) \<Rightarrow> (u64 \<times> 'v) list \<Rightarrow> Values" where
  "pairs mk ps = map (\<lambda>(t, x). mk t x) ps"

lemma pairs_simps [simp]:
  "pairs mk [] = []" "pairs mk (p # ps) = mk (fst p) (snd p) # pairs mk ps" "pairs mk (ps @ qs) = pairs mk ps @ pairs mk qs"
  "length (pairs mk ps) = length ps" "pairs mk ps = [] \<longleftrightarrow> ps = []"
  by (simp_all add: pairs_def split: prod.split)

lemma pairs_zip: "pairs mk (zip ts vs) = map2 mk ts vs"
  by (simp add: pairs_def)

lemma to_array_simps [simp]: "arr_Len (to_array ps) = length ps" "arr_values mk (to_array ps) = pairs mk ps"
  by (simp_all add: arr_Len_def to_array_def arr_values_def pairs_def zip_map_fst_snd)

lemma rev_dropWhile_rev: "sorted_wrt (\<lambda>a b. P a \<longrightarrow> P b) xs \<Longrightarrow> rev (dropWhile P (rev xs)) = filter (\<lambda>x. \<not> P x) xs"
proof (induction xs rule: rev_induct)
  case (snoc x xs)
  show ?case
  proof (cases "P x")
    case False
    then have "filter (\<lambda>x. \<not> P x) xs = xs" using snoc.prems by (auto simp: sorted_wrt_append)
    then show ?thesis using False by simp
  qed (use snoc in \<open>simp add: sorted_wrt_append\<close>)
qed simp

definition cached :: "(u64 \<Rightarrow> 'v \<Rightarrow> Value) \<Rightarrow> ('v, 's) ArrayCursor \<Rightarrow> bool" where
  "cached mk c \<longleftrightarrow> (\<forall>v \<in> set (ac_cvals c). \<exists>x. v = mk (unixNano v) x)"

text \<open>An ascending cursor with the blocks \<open>bs\<close> to come: \<open>S\<close> is left of the files and \<open>C\<close> of the cached values.\<close>

definition asc_state ::
  "(u64 \<Rightarrow> 'v \<Rightarrow> Value) \<Rightarrow> ('v, 's) block_source \<Rightarrow> ('v, 's) ArrayCursor \<Rightarrow> 'v array list \<Rightarrow> Values \<Rightarrow> Values \<Rightarrow> bool" where
  "asc_state mk src c bs S C \<longleftrightarrow>
     (\<exists>tv. ac_tvals c = Some tv \<and> 0 \<le> ac_tpos c \<and> ac_tpos c \<le> int (arr_Len tv) \<and>
        (if ac_tpos c < int (arr_Len tv) then arr_wf tv \<and> feeds src bs (so_Next src (ac_keyCursor c)) else bs = []) \<and>
        S = drop (nat (ac_tpos c)) (arr_values mk tv) @ concat (map (arr_values mk) bs)) \<and>
     0 \<le> ac_cpos c \<and> C = drop (nat (ac_cpos c)) (ac_cvals c) \<and> cached mk c"

text \<open>The cursors for which \<open>asc_copy\<close> never meets a block it has begun and that would fit as a whole.\<close>

definition asc_safe :: "('v, 's) ArrayCursor \<Rightarrow> Values \<Rightarrow> Values \<Rightarrow> bool" where
  "asc_safe c S C \<longleftrightarrow>
     (if C = [] then ac_tpos c = 0 \<or> S = [] \<or> (\<exists>tv. ac_tvals c = Some tv \<and> ac_cap c < arr_Len tv)
      else length (pick UnixNano S C) \<le> ac_cap c)"

definition same_params :: "('v, 's) ArrayCursor \<Rightarrow> ('v, 's) ArrayCursor \<Rightarrow> bool" where
  "same_params c c' \<longleftrightarrow> ac_end c' = ac_end c \<and> ac_cap c' = ac_cap c"

lemma same_params_simps [simp]:
  "same_params c c" "same_params c (c'\<lparr>ac_tpos := i\<rparr>) = same_params c c'" "same_params c (c'\<lparr>ac_cpos := j\<rparr>) = same_params c c'"
  "same_params c (asc_nextSST src c') = same_params c c'"
  by (simp_all add: same_params_def asc_nextSST_def split: sum.split)

lemma same_params_trans: "same_params c c' \<Longrightarrow> same_params c' c'' \<Longrightarrow> same_params c c''"
  by (simp add: same_params_def)

definition asc_R ::
  "(u64 \<Rightarrow> 'v \<Rightarrow> Value) \<Rightarrow> ('v, 's) block_source \<Rightarrow> int \<Rightarrow> ('v, 's) ArrayCursor \<Rightarrow> Values \<Rightarrow> bool" where
  "asc_R mk src e c M \<longleftrightarrow>
     (\<exists>bs S C. asc_state mk src c bs S C \<and> M = pick UnixNano S C \<and> asc_safe c S C) \<and>
     sorted_key UnixNano M \<and> ac_end c = e \<and> 0 < ac_cap c"

text \<open>The same for a descending cursor.\<close>

abbreviation back_time :: "Value \<Rightarrow> int" where
  "back_time v \<equiv> - UnixNano v"

definition desc_state ::
  "(u64 \<Rightarrow> 'v \<Rightarrow> Value) \<Rightarrow> ('v, 's) block_source \<Rightarrow> ('v, 's) ArrayCursor \<Rightarrow> 'v array list \<Rightarrow> Values \<Rightarrow> Values \<Rightarrow> bool" where
  "desc_state mk src c bs S C \<longleftrightarrow>
     (\<exists>tv. ac_tvals c = Some tv \<and> -1 \<le> ac_tpos c \<and> ac_tpos c < int (arr_Len tv) \<and>
        (if 0 \<le> ac_tpos c then arr_wf tv \<and> feeds src bs (so_Next src (ac_keyCursor c)) else bs = []) \<and>
        S = rev (take (nat (ac_tpos c + 1)) (arr_values mk tv)) @ concat (map (rev \<circ> arr_values mk) bs)) \<and>
     -1 \<le> ac_cpos c \<and> ac_cpos c < int (length (ac_cvals c)) \<and> C = rev (take (nat (ac_cpos c + 1)) (ac_cvals c)) \<and> cached mk c"

definition desc_R ::
  "(u64 \<Rightarrow> 'v \<Rightarrow> Value) \<Rightarrow> ('v, 's) block_source \<Rightarrow> int \<Rightarrow> ('v, 's) ArrayCursor \<Rightarrow> Values \<Rightarrow> bool" where
  "desc_R mk src e c M \<longleftrightarrow>
     (\<exists>bs S C. desc_state mk src c bs S C \<and> M = pick back_time S C) \<and>
     sorted_key back_time M \<and> ac_end c = e \<and> 0 < ac_cap c"

lemma sort_Search_ok:
  "\<forall>a b. a \<le> b \<longrightarrow> b < n \<longrightarrow> f a \<longrightarrow> f b \<Longrightarrow> \<forall>a < i. \<not> f a \<Longrightarrow> \<forall>a. j \<le> a \<longrightarrow> a < n \<longrightarrow> f a \<Longrightarrow> i \<le> j \<Longrightarrow> j \<le> n \<Longrightarrow>
   sort_Search f i j \<le> n \<and> (\<forall>a < sort_Search f i j. \<not> f a) \<and> (\<forall>a. sort_Search f i j \<le> a \<longrightarrow> a < n \<longrightarrow> f a)"
proof (induction f i j rule: sort_Search.induct)
  case (1 f i j)
  show ?case
  proof (cases "i < j")
    case True
    define h where "h = (i + j) div 2"
    have h: "i \<le> h" "h < j" "h + 1 \<le> j" "h \<le> n" "h < n" using True "1.prems"(5) by (simp_all add: h_def)
    have eq: "sort_Search f i j = (if \<not> f h then sort_Search f (h + 1) j else sort_Search f i h)"
      using True by (subst sort_Search.simps) (simp add: Let_def h_def)
    show ?thesis
    proof (cases "f h")
      case f: True
      then have nn: "\<not> \<not> f h" and hi: "\<forall>a. h \<le> a \<longrightarrow> a < n \<longrightarrow> f a" using "1.prems"(1) by blast+
      have e: "sort_Search f i j = sort_Search f i h" using f eq by (simp only: not_True_eq_False if_False)
      show ?thesis unfolding e by (rule "1.IH"(2) [OF True h_def nn "1.prems"(1,2) hi h(1,4)])
    next
      case f: False
      then have lo: "\<forall>a < h + 1. \<not> f a" using "1.prems"(1) h(5) by (metis Suc_eq_plus1 less_Suc_eq_le)
      have e: "sort_Search f i j = sort_Search f (h + 1) j" using f eq by (simp only: not_False_eq_True if_True)
      show ?thesis unfolding e by (rule "1.IH"(1) [OF True h_def f "1.prems"(1) lo "1.prems"(3) h(3) "1.prems"(5)])
    qed
  next
    case False
    then have "sort_Search f i j = i" by (subst sort_Search.simps) simp
    then show ?thesis using False "1.prems" by auto
  qed
qed

text \<open>Searching an ascending slice for the first value that satisfies a condition which all later ones satisfy.\<close>

lemma sort_Search_filter:
  assumes "\<And>a b. a \<le> b \<Longrightarrow> b < length xs \<Longrightarrow> P (xs ! a) \<Longrightarrow> P (xs ! b)"
  shows "drop (sort_Search (\<lambda>i. P (xs ! i)) 0 (length xs)) xs = filter P xs"
    and "take (sort_Search (\<lambda>i. P (xs ! i)) 0 (length xs)) xs = filter (\<lambda>x. \<not> P x) xs"
    and "sort_Search (\<lambda>i. P (xs ! i)) 0 (length xs) \<le> length xs"
proof -
  let ?r = "sort_Search (\<lambda>i. P (xs ! i)) 0 (length xs)"
  have r: "?r \<le> length xs \<and> (\<forall>a < ?r. \<not> P (xs ! a)) \<and> (\<forall>a. ?r \<le> a \<longrightarrow> a < length xs \<longrightarrow> P (xs ! a))"
    using assms by (intro sort_Search_ok) simp_all
  then show "?r \<le> length xs" by blast
  have "\<forall>x \<in> set (take ?r xs). \<not> P x"
  proof
    fix x assume "x \<in> set (take ?r xs)"
    then obtain a where "a < ?r" "x = xs ! a" by (auto simp: in_set_conv_nth)
    then show "\<not> P x" using r by blast
  qed
  moreover have "\<forall>x \<in> set (drop ?r xs). P x"
  proof
    fix x assume "x \<in> set (drop ?r xs)"
    then obtain a where "a < length xs - ?r" "x = xs ! (?r + a)" by (auto simp: in_set_conv_nth)
    then show "P x" using r by (metis le_add1 less_diff_conv add.commute)
  qed
  ultimately have "filter P (take ?r xs) = []" "filter P (drop ?r xs) = drop ?r xs" "filter (\<lambda>x. \<not> P x) (take ?r xs) = take ?r xs"
    "filter (\<lambda>x. \<not> P x) (drop ?r xs) = []" unfolding filter_empty_conv filter_id_conv by blast+
  moreover have "filter Q xs = filter Q (take ?r xs) @ filter Q (drop ?r xs)" for Q by (metis append_take_drop_id filter_append)
  ultimately show "drop ?r xs = filter P xs" "take ?r xs = filter (\<lambda>x. \<not> P x) xs" by simp_all
qed

locale cursor_type = array_type mk for mk :: "u64 \<Rightarrow> 'v \<Rightarrow> Value" +
  fixes raw :: "Value \<Rightarrow> 'v option"
  assumes raw_mk [simp]: "raw (mk t x) = Some x"
begin

lemma vals_empty: "arr_Len v = 0 \<Longrightarrow> vals v = []"
  by (simp add: arr_values_def arr_Len_def)

lemma cache_value_ok:
  assumes "cached mk c" "0 \<le> ac_cpos c" "ac_cpos c < int (length (ac_cvals c))"
  shows "\<exists>p. cache_value raw c = Inr p \<and> drop (nat (ac_cpos c)) (ac_cvals c) = mk (fst p) (snd p) # drop (nat (ac_cpos c + 1)) (ac_cvals c)"
proof -
  let ?v = "ac_cvals c ! nat (ac_cpos c)"
  have lt: "nat (ac_cpos c) < length (ac_cvals c)" using assms(2,3) by linarith
  then obtain x where x: "?v = mk (unixNano ?v) x" using assms(1) nth_mem unfolding cached_def by blast
  then have "raw ?v = Some x" by (metis raw_mk)
  then have "cache_value raw c = Inr (unixNano ?v, x)" by (simp add: cache_value_def)
  moreover have "drop (nat (ac_cpos c)) (ac_cvals c) = ?v # drop (nat (ac_cpos c + 1)) (ac_cvals c)"
    using lt assms(2) by (simp add: Cons_nth_drop_Suc nat_add_distrib)
  ultimately show ?thesis using x by (metis fst_conv snd_conv)
qed

lemma block_value_ok:
  assumes "arr_wf tv" "0 \<le> ac_tpos c" "ac_tpos c < int (arr_Len tv)"
  shows "drop (nat (ac_tpos c)) (vals tv) = mk (fst (block_value tv c)) (snd (block_value tv c)) # drop (nat (ac_tpos c + 1)) (vals tv)"
    and "sint (ar_ts tv ! nat (ac_tpos c)) = UnixNano (mk (fst (block_value tv c)) (snd (block_value tv c)))"
proof -
  have lt: "nat (ac_tpos c) < arr_Len tv" using assms(2,3) by linarith
  have "vals tv ! nat (ac_tpos c) = mk (fst (block_value tv c)) (snd (block_value tv c))"
    using lt assms(1) by (simp add: arr_values_def block_value_def arr_wf_def arr_Len_def)
  then show "drop (nat (ac_tpos c)) (vals tv) = mk (fst (block_value tv c)) (snd (block_value tv c)) # drop (nat (ac_tpos c + 1)) (vals tv)"
    using lt assms(1,2) by (simp add: nat_add_distrib flip: Cons_nth_drop_Suc)
  show "sint (ar_ts tv ! nat (ac_tpos c)) = UnixNano (mk (fst (block_value tv c)) (snd (block_value tv c)))"
    by (simp add: block_value_def UnixNano_def)
qed

subsection \<open>Ascending\<close>

lemma asc_nextSST_ok:
  assumes "feeds src bs (so_Next src (ac_keyCursor c))" "0 \<le> ac_cpos c" "cached mk c"
  shows "\<exists>bs'. asc_state mk src (asc_nextSST src c) bs' (concat (map vals bs)) (drop (nat (ac_cpos c)) (ac_cvals c)) \<and>
    ac_tpos (asc_nextSST src c) = 0"
proof (cases bs)
  case Nil
  then show ?thesis using assms by (intro exI [of _ "[]"]) (auto simp: asc_nextSST_def asc_state_def vals_empty cached_def)
next
  case (Cons b bs')
  then show ?thesis using assms by (intro exI [of _ bs']) (auto simp: asc_nextSST_def asc_state_def cached_def)
qed

text \<open>Moving on by \<open>m\<close> values in the block, to the next block at its end.\<close>

lemma asc_advance:
  assumes "ac_tvals c = Some tv" "arr_wf tv" "feeds src bs (so_Next src (ac_keyCursor c))" "0 \<le> ac_tpos c"
    and "ac_tpos c + int m \<le> int (arr_Len tv)" and "0 \<le> ac_cpos c" "cached mk c"
    and "c' = c\<lparr>ac_tpos := ac_tpos c + int m\<rparr>"
  shows "\<exists>bs'. asc_state mk src (if ac_tpos c' \<ge> int (arr_Len tv) then asc_nextSST src c' else c') bs'
      (drop (nat (ac_tpos c + int m)) (vals tv) @ concat (map vals bs)) (drop (nat (ac_cpos c)) (ac_cvals c)) \<and>
    (ac_tpos c' \<ge> int (arr_Len tv) \<longrightarrow> ac_tpos (asc_nextSST src c') = 0)"
proof (cases "ac_tpos c' \<ge> int (arr_Len tv)")
  case True
  then have "drop (nat (ac_tpos c + int m)) (vals tv) = []" using assms by simp
  then show ?thesis using asc_nextSST_ok [of src bs c'] assms True by (simp add: cached_def)
next
  case False
  then show ?thesis using assms by (intro exI [of _ bs]) (auto simp: asc_state_def cached_def)
qed

lemma asc_step_ok:
  assumes st: "asc_state mk src c bs S C" and tv: "ac_tvals c = Some tv" "ac_tpos c < int (arr_Len tv)"
    and cp: "ac_cpos c < int (length (ac_cvals c))"
  shows "\<exists>p c1 c2 bs' S' C'. asc_step raw tv c = Inr (p, c1) \<and>
    c2 = (if ac_tpos c1 \<ge> int (arr_Len tv) then asc_nextSST src c1 else c1) \<and>
    asc_state mk src c2 bs' S' C' \<and> same_params c c2 \<and> pick UnixNano S C = mk (fst p) (snd p) # pick UnixNano S' C'"
proof -
  from st tv have s: "arr_wf tv" "feeds src bs (so_Next src (ac_keyCursor c))" "0 \<le> ac_tpos c" "0 \<le> ac_cpos c" "cached mk c"
    "S = drop (nat (ac_tpos c)) (vals tv) @ concat (map vals bs)" "C = drop (nat (ac_cpos c)) (ac_cvals c)"
    by (auto simp: asc_state_def)
  obtain p where p: "cache_value raw c = Inr p" "C = mk (fst p) (snd p) # drop (nat (ac_cpos c + 1)) (ac_cvals c)"
    using cache_value_ok [OF s(5,4) cp] s(7) by auto
  let ?x = "block_value tv c"
  note x = block_value_ok [OF s(1,3) tv(2)]
  have S: "S = mk (fst ?x) (snd ?x) # drop (nat (ac_tpos c + 1)) (vals tv) @ concat (map vals bs)" using s(6) x(1) by simp
  have y: "UnixNano (ac_cvals c ! nat (ac_cpos c)) = UnixNano (mk (fst p) (snd p))"
    using p(2) s(4,7) cp by (metis hd_drop_conv_nth list.sel(1) nat_less_iff)
  let ?d = "c\<lparr>ac_cpos := ac_cpos c + 1\<rparr>"
  consider "UnixNano (mk (fst p) (snd p)) = UnixNano (mk (fst ?x) (snd ?x))" | "UnixNano (mk (fst p) (snd p)) < UnixNano (mk (fst ?x) (snd ?x))"
    | "UnixNano (mk (fst ?x) (snd ?x)) < UnixNano (mk (fst p) (snd p))" by linarith
  then show ?thesis
  proof cases
    case 1
    let ?e = "?d\<lparr>ac_tpos := ac_tpos ?d + int 1\<rparr>"
    have "asc_step raw tv c = Inr (p, ?e)" using 1 x(2) y p(1) by (simp add: asc_step_def Let_def)
    moreover have "pick UnixNano S C = mk (fst p) (snd p) #
        pick UnixNano (drop (nat (ac_tpos c + 1)) (vals tv) @ concat (map vals bs)) (drop (nat (ac_cpos c + 1)) (ac_cvals c))"
      using 1 unfolding S p(2) by simp
    ultimately show ?thesis
      using asc_advance [of ?d tv src bs 1 ?e] s tv by (fastforce simp: cached_def)
  next
    case 2
    have "asc_step raw tv c = Inr (p, ?d)" using 2 x(2) y p(1) by (simp add: asc_step_def Let_def)
    moreover have "pick UnixNano S C = mk (fst p) (snd p) # pick UnixNano S (drop (nat (ac_cpos c + 1)) (ac_cvals c))"
      using 2 unfolding S p(2) by simp
    moreover have "asc_state mk src ?d bs S (drop (nat (ac_cpos c + 1)) (ac_cvals c))"
      using st tv s(4) by (auto simp: asc_state_def cached_def)
    ultimately show ?thesis using tv(2) by fastforce
  next
    case 3
    let ?e = "c\<lparr>ac_tpos := ac_tpos c + int 1\<rparr>"
    have "asc_step raw tv c = Inr (?x, ?e)" using 3 x(2) y by (simp add: asc_step_def Let_def)
    moreover have "pick UnixNano S C = mk (fst ?x) (snd ?x) # pick UnixNano (drop (nat (ac_tpos c + 1)) (vals tv) @ concat (map vals bs)) C"
      using 3 unfolding S p(2) by simp
    ultimately show ?thesis
      using asc_advance [of c tv src bs 1 ?e] s tv by fastforce
  qed
qed

lemma asc_loop_ok:
  "asc_state mk src c bs S C \<Longrightarrow> length out \<le> n \<Longrightarrow>
   \<exists>c' bs' S' C' ps. asc_loop raw src n c out = Inr (c', out @ ps) \<and> asc_state mk src c' bs' S' C' \<and> same_params c c' \<and>
     pick UnixNano S C = pairs mk ps @ pick UnixNano S' C' \<and> length (out @ ps) \<le> n \<and>
     (length (out @ ps) = n \<or> S' = [] \<or> C' = []) \<and> (C = [] \<longrightarrow> ps = []) \<and> (ps = [] \<longrightarrow> c' = c \<and> S' = S \<and> C' = C)"
proof (induction "n - length out" arbitrary: c out bs S C)
  case 0
  then show ?case by (intro exI [of _ c] exI [of _ bs] exI [of _ S] exI [of _ C] exI [of _ "[]"]) (simp add: asc_loop.simps)
next
  case (Suc m)
  then obtain tv where tv: "ac_tvals c = Some tv" by (auto simp: asc_state_def)
  have lt: "length out < n" using Suc.hyps(2) by linarith
  show ?case
  proof (cases "ac_tpos c < int (arr_Len tv) \<and> ac_cpos c < int (length (ac_cvals c))")
    case True
    obtain p c1 c2 bs' S' C' where st: "asc_step raw tv c = Inr (p, c1)"
      "c2 = (if ac_tpos c1 \<ge> int (arr_Len tv) then asc_nextSST src c1 else c1)" "asc_state mk src c2 bs' S' C'" "same_params c c2"
      "pick UnixNano S C = mk (fst p) (snd p) # pick UnixNano S' C'"
      using asc_step_ok [OF Suc.prems(1) tv] True by blast
    have len: "m = n - length (out @ [p])" "length (out @ [p]) \<le> n" using Suc.hyps(2) lt by simp_all
    have "asc_loop raw src n c out = asc_loop raw src n c2 (out @ [p])"
      using lt tv True st(1,2) by (subst asc_loop.simps) simp
    moreover obtain c' bs'' S'' C'' ps where "asc_loop raw src n c2 (out @ [p]) = Inr (c', (out @ [p]) @ ps)" "asc_state mk src c' bs'' S'' C''"
      "same_params c2 c'" "pick UnixNano S' C' = pairs mk ps @ pick UnixNano S'' C''" "length ((out @ [p]) @ ps) \<le> n"
      "length ((out @ [p]) @ ps) = n \<or> S'' = [] \<or> C'' = []"
      using Suc.hyps(1) [OF len(1) st(3) len(2)] by blast
    moreover have "C \<noteq> []" using True Suc.prems(1) by (auto simp: asc_state_def)
    ultimately show ?thesis
      using st(4,5) same_params_trans
      by (intro exI [of _ c'] exI [of _ bs''] exI [of _ S''] exI [of _ C''] exI [of _ "p # ps"]) auto
  next
    case False
    then have "asc_loop raw src n c out = Inr (c, out)" using lt tv by (subst asc_loop.simps) auto
    moreover have "S = [] \<or> C = []" using False Suc.prems(1) tv by (auto simp: asc_state_def arr_values_def arr_Len_def split: if_splits)
    ultimately show ?thesis
      using Suc.prems by (intro exI [of _ c] exI [of _ bs] exI [of _ S] exI [of _ C] exI [of _ "[]"]) auto
  qed
qed

lemma asc_cache_loop_ok:
  "asc_state mk src c bs S C \<Longrightarrow> length out \<le> n \<Longrightarrow>
   \<exists>c' ps. asc_cache_loop raw n c out = Inr (c', out @ ps) \<and> asc_state mk src c' bs S (drop (length ps) C) \<and> same_params c c' \<and>
     pairs mk ps = take (n - length out) C \<and> ac_tpos c' = ac_tpos c \<and> ac_tvals c' = ac_tvals c"
proof (induction "n - length out" arbitrary: c out C)
  case 0
  then show ?case by (intro exI [of _ c] exI [of _ "[]"]) (simp add: asc_cache_loop.simps)
next
  case (Suc m)
  have lt: "length out < n" using Suc.hyps(2) by linarith
  from Suc.prems have s: "0 \<le> ac_cpos c" "cached mk c" "C = drop (nat (ac_cpos c)) (ac_cvals c)" by (auto simp: asc_state_def)
  show ?case
  proof (cases "ac_cpos c < int (length (ac_cvals c))")
    case True
    obtain p where p: "cache_value raw c = Inr p" "C = mk (fst p) (snd p) # drop (nat (ac_cpos c + 1)) (ac_cvals c)"
      using cache_value_ok [OF s(2,1) True] s(3) by auto
    let ?d = "c\<lparr>ac_cpos := ac_cpos c + 1\<rparr>" and ?C = "drop (nat (ac_cpos c + 1)) (ac_cvals c)"
    have len: "m = n - length (out @ [p])" "length (out @ [p]) \<le> n" using Suc.hyps(2) lt by simp_all
    have "asc_state mk src ?d bs S ?C" using Suc.prems(1) by (auto simp: asc_state_def cached_def)
    then obtain c' ps where "asc_cache_loop raw n ?d (out @ [p]) = Inr (c', (out @ [p]) @ ps)" "asc_state mk src c' bs S (drop (length ps) ?C)"
      "same_params ?d c'" "pairs mk ps = take (n - length (out @ [p])) ?C" "ac_tpos c' = ac_tpos ?d" "ac_tvals c' = ac_tvals ?d"
      using Suc.hyps(1) [OF len(1) _ len(2)] by blast
    moreover have "asc_cache_loop raw n c out = asc_cache_loop raw n ?d (out @ [p])"
      using lt True p(1) by (subst asc_cache_loop.simps) simp
    moreover have "n - length out = Suc (n - length (out @ [p]))" using lt by simp
    ultimately show ?thesis
      using p(2) by (intro exI [of _ c'] exI [of _ "p # ps"]) (auto simp: same_params_def)
  next
    case False
    then have "C = []" using s by simp
    then show ?thesis
      using False lt Suc.prems(1) by (intro exI [of _ c] exI [of _ "[]"]) (subst asc_cache_loop.simps, simp)
  qed
qed

text \<open>
  \<open>asc_copy\<close> copies a whole block without looking at the position in it, which is right only at its start.
\<close>

lemma asc_copy_ok:
  assumes st: "asc_state mk src c bs S []" and tv: "ac_tvals c = Some tv"
    and fast: "out = [] \<longrightarrow> ac_tpos c = 0 \<or> n < arr_Len tv \<or> S = []" and n: "length out < n"
  shows "\<exists>c' bs' S' ps. asc_copy src n c out = Inr (c', out @ ps) \<and> asc_state mk src c' bs' S' [] \<and> same_params c c' \<and>
    S = pairs mk ps @ S' \<and> length (out @ ps) \<le> n \<and> (S \<noteq> [] \<longrightarrow> ps \<noteq> []) \<and>
    (ac_tpos c' = 0 \<or> length (out @ ps) = n \<and> S' \<noteq> [] \<and> (out = [] \<longrightarrow> n < arr_Len tv \<and> ac_tvals c' = Some tv) \<or> S' = [])"
proof (cases "ac_tpos c < int (arr_Len tv)")
  case True
  from st tv True have s: "arr_wf tv" "feeds src bs (so_Next src (ac_keyCursor c))" "0 \<le> ac_tpos c" "0 \<le> ac_cpos c" "cached mk c"
    "S = drop (nat (ac_tpos c)) (vals tv) @ concat (map vals bs)" "drop (nat (ac_cpos c)) (ac_cvals c) = []"
    by (auto simp: asc_state_def)
  show ?thesis
  proof (cases "out = [] \<and> n \<ge> arr_Len tv")
    case f: True
    have "S \<noteq> []" using s(1,3,6) True by auto
    then have "asc_copy src n c out = Inr (asc_nextSST src c, out @ zip (ar_ts tv) (ar_vs tv))" and "ac_tpos c = 0"
      using f tv True fast by (auto simp: asc_copy_def)
    moreover have "pairs mk (zip (ar_ts tv) (ar_vs tv)) = vals tv" by (simp add: pairs_zip arr_values_def)
    moreover have "length (zip (ar_ts tv) (ar_vs tv)) = arr_Len tv" using s(1) by (simp add: arr_wf_def arr_Len_def)
    moreover obtain bs' where "asc_state mk src (asc_nextSST src c) bs' (concat (map vals bs)) []" "ac_tpos (asc_nextSST src c) = 0"
      using asc_nextSST_ok [OF s(2,4,5)] s(7) by auto
    moreover have "zip (ar_ts tv) (ar_vs tv) \<noteq> []" "length (out @ zip (ar_ts tv) (ar_vs tv)) \<le> n"
      using f s(3) True calculation(4) by auto
    moreover have "S = pairs mk (zip (ar_ts tv) (ar_vs tv)) @ concat (map vals bs)" using s(6) calculation(2,3) by simp
    moreover have "same_params c (asc_nextSST src c)" by simp
    ultimately show ?thesis by blast
  next
    case f: False
    define p where "p = nat (ac_tpos c)"
    define m where "m = min (n - length out) (arr_Len tv - p)"
    define ps where "ps = zip (take m (drop p (ar_ts tv))) (take m (drop p (ar_vs tv)))"
    let ?c1 = "c\<lparr>ac_tpos := ac_tpos c + int m\<rparr>" and ?S = "drop (nat (ac_tpos c + int m)) (vals tv) @ concat (map vals bs)"
    let ?c2 = "if ac_tpos ?c1 \<ge> int (arr_Len tv) then asc_nextSST src ?c1 else ?c1"
    have p: "int p = ac_tpos c" "p < arr_Len tv" using s(3) True by (simp_all add: p_def)
    have m: "0 < m" "p + m \<le> arr_Len tv" "m \<le> n - length out" using p(2) n by (auto simp: m_def)
    have eq: "asc_copy src n c out = Inr (?c2, out @ ps)"
      unfolding asc_copy_def tv option.case p_def [symmetric] Let_def m_def [symmetric] ps_def [symmetric]
      using True f by (simp only: if_True if_False)
    have ps: "pairs mk ps = take m (drop p (vals tv))" "length ps = m"
      using s(1) m p by (simp_all add: ps_def pairs_zip arr_values_def take_map drop_map take_zip drop_zip arr_wf_def arr_Len_def)
    have S: "S = pairs mk ps @ ?S"
    proof -
      have "drop p (vals tv) = take m (drop p (vals tv)) @ drop (p + m) (vals tv)"
        by (metis add.commute append_take_drop_id drop_drop)
      moreover have "nat (ac_tpos c + int m) = p + m" using p(1) by linarith
      ultimately show ?thesis using s(6) ps(1) by (simp add: p_def)
    qed
    obtain bs' where bs': "asc_state mk src ?c2 bs' ?S []" "ac_tpos ?c1 \<ge> int (arr_Len tv) \<longrightarrow> ac_tpos (asc_nextSST src ?c1) = 0"
      using asc_advance [OF tv s(1-3) _ s(4,5) refl, of m] s(7) m(2) p(1) by auto
    have z: "ac_tpos ?c2 = 0 \<or> length (out @ ps) = n \<and> ?S \<noteq> [] \<and> (out = [] \<longrightarrow> n < arr_Len tv \<and> ac_tvals ?c2 = Some tv)"
    proof (cases "ac_tpos ?c1 \<ge> int (arr_Len tv)")
      case False
      then have "p + m < arr_Len tv" using p(1) by simp
      then have "m = n - length out" "drop (p + m) (vals tv) \<noteq> []" using s(1) unfolding m_def by auto
      moreover have "nat (ac_tpos c + int m) = p + m" using p(1) by linarith
      ultimately show ?thesis using False f n ps(2) tv by auto
    qed (use bs'(2) in simp)
    have "same_params c ?c2" "length (out @ ps) \<le> n" "ps \<noteq> []" using m n ps(2) by auto
    then show ?thesis using eq bs'(1) S z by blast
  qed
next
  case False
  then have "asc_copy src n c out = Inr (c, out)" "S = []" using tv st by (auto simp: asc_copy_def asc_state_def arr_values_def arr_Len_def)
  then show ?thesis using st n by (intro exI [of _ c] exI [of _ bs] exI [of _ S] exI [of _ "[]"]) auto
qed


lemma asc_state_S_Nil: "asc_state mk src c bs [] C \<Longrightarrow> ac_tvals c = Some tv \<Longrightarrow> int (arr_Len tv) \<le> ac_tpos c"
  by (auto simp: asc_state_def split: if_splits)

lemma asc_Next_ok:
  assumes st: "asc_state mk src c bs S C" and cap: "0 < ac_cap c" and safe: "asc_safe c S C"
  shows "\<exists>c' bs' S' C' p. asc_Next raw src c = Inr (to_array (strip (\<lambda>t. t > ac_end c) p), c') \<and>
    asc_state mk src c' bs' S' C' \<and> same_params c c' \<and> asc_safe c' S' C' \<and>
    pick UnixNano S C = pairs mk p @ pick UnixNano S' C' \<and> (pick UnixNano S C \<noteq> [] \<longrightarrow> p \<noteq> [])"
proof -
  let ?n = "ac_cap c"
  obtain c1 bs1 S1 C1 ps where l: "asc_loop raw src ?n c [] = Inr (c1, ps)" "asc_state mk src c1 bs1 S1 C1" "same_params c c1"
    "pick UnixNano S C = pairs mk ps @ pick UnixNano S1 C1" "length ps \<le> ?n" "length ps = ?n \<or> S1 = [] \<or> C1 = []"
    "C = [] \<longrightarrow> ps = []" "ps = [] \<longrightarrow> c1 = c \<and> S1 = S \<and> C1 = C"
    using asc_loop_ok [OF st, of "[]" ?n] unfolding append_Nil list.size by blast
  obtain tv1 where tv1: "ac_tvals c1 = Some tv1" using l(2) by (auto simp: asc_state_def)
  have fits: "length ps + length (pick UnixNano S1 C1) \<le> ?n" if "C \<noteq> []"
    using safe that l(4) by (simp add: asc_safe_def)
  have cap1: "ac_cap c1 = ?n" using l(3) by (simp add: same_params_def)
  consider "length ps = ?n" | "length ps < ?n" "C1 = []" | "length ps < ?n" "S1 = []" "C1 \<noteq> []" using l(5,6) by fastforce
  then show ?thesis
  proof cases
    case 1
    then have "C \<noteq> []" using l(7) cap by auto
    then have "S1 = []" "C1 = []" using fits 1 by auto
    then show ?thesis
      using 1 l(1-4) cap by (intro exI [of _ c1] exI [of _ bs1] exI [of _ S1] exI [of _ C1] exI [of _ ps]) (auto simp: asc_Next_def asc_safe_def)
  next
    case 2
    have "ps = [] \<longrightarrow> ac_tpos c1 = 0 \<or> ?n < arr_Len tv1 \<or> S1 = []"
      using safe l(8) tv1 2 by (auto simp: asc_safe_def)
    then obtain c2 bs2 S2 qs where k: "asc_copy src ?n c1 ps = Inr (c2, ps @ qs)" "asc_state mk src c2 bs2 S2 []" "same_params c1 c2"
      "S1 = pairs mk qs @ S2" "length (ps @ qs) \<le> ?n" "S1 \<noteq> [] \<longrightarrow> qs \<noteq> []"
      "ac_tpos c2 = 0 \<or> length (ps @ qs) = ?n \<and> S2 \<noteq> [] \<and> (ps = [] \<longrightarrow> ?n < arr_Len tv1 \<and> ac_tvals c2 = Some tv1) \<or> S2 = []"
      using asc_copy_ok [OF l(2) [unfolded 2(2)] tv1 _ 2(1)] by blast
    obtain c3 rs where r: "asc_cache_loop raw ?n c2 (ps @ qs) = Inr (c3, (ps @ qs) @ rs)" "asc_state mk src c3 bs2 S2 (drop (length rs) [])"
      "same_params c2 c3" "pairs mk rs = []" "ac_tpos c3 = ac_tpos c2" "ac_tvals c3 = ac_tvals c2"
      using asc_cache_loop_ok [OF k(2,5)] by auto
    have sp: "same_params c c3" using l(3) k(3) r(3) same_params_trans by blast
    have "asc_safe c3 S2 []"
    proof (cases "ac_tpos c2 = 0 \<or> S2 = []")
      case False
      then have f: "length (ps @ qs) = ?n" "ps = [] \<longrightarrow> ?n < arr_Len tv1 \<and> ac_tvals c2 = Some tv1" using k(7) by auto
      have "ps = []"
      proof (rule ccontr)
        assume "ps \<noteq> []"
        then have "length ps + length (pick UnixNano S1 C1) \<le> ?n" using fits l(7) by blast
        then show False using f(1) k(4) 2(2) False by (cases S2) auto
      qed
      then show ?thesis using f(2) r(6) sp by (simp add: asc_safe_def same_params_def)
    qed (use r(5) in \<open>auto simp: asc_safe_def\<close>)
    moreover have "asc_Next raw src c = Inr (to_array (strip (\<lambda>t. t > ac_end c) (ps @ qs)), c3)"
      using l(1) 2(1) k(1) r(1,4) by (simp add: asc_Next_def)
    moreover have "pick UnixNano S C = pairs mk (ps @ qs) @ pick UnixNano S2 []" using l(4) k(4) 2(2) by simp
    moreover have "ps @ qs \<noteq> []" if "pick UnixNano S C \<noteq> []" using that l(4) k(6) 2(2) by auto
    moreover have "asc_state mk src c3 bs2 S2 []" using r(2) by simp
    ultimately show ?thesis using sp by blast
  next
    case 3
    have "C \<noteq> []" using 3 l(7,8) by auto
    have "asc_copy src ?n c1 ps = Inr (c1, ps)" using tv1 asc_state_S_Nil [OF l(2) [unfolded 3(2)] tv1] by (simp add: asc_copy_def)
    moreover obtain c3 rs where r: "asc_cache_loop raw ?n c1 ps = Inr (c3, ps @ rs)" "asc_state mk src c3 bs1 S1 (drop (length rs) C1)"
      "same_params c1 c3" "pairs mk rs = take (?n - length ps) C1"
      using asc_cache_loop_ok [OF l(2,5)] by blast
    ultimately have "asc_Next raw src c = Inr (to_array (strip (\<lambda>t. t > ac_end c) (ps @ rs)), c3)"
      using l(1) 3(1) by (simp add: asc_Next_def)
    moreover have len: "length rs = min (length C1) (?n - length ps)"
      using arg_cong [OF r(4), of length] by simp
    moreover have "drop (length rs) C1 = []" using fits [OF \<open>C \<noteq> []\<close>] 3(2) len by simp
    moreover have "pairs mk rs = C1" using r(4) len calculation(3) by simp
    moreover have "same_params c c3" using l(3) r(3) same_params_trans by blast
    ultimately show ?thesis
      using r(2) l(4) 3
      by (intro exI [of _ c3] exI [of _ bs1] exI [of _ S1] exI [of _ "[]"] exI [of _ "ps @ rs"]) (auto simp: asc_safe_def)
  qed
qed

lemma strip_filter:
  assumes "sorted_wrt (\<lambda>a b. P (UnixNano a) \<longrightarrow> P (UnixNano b)) (pairs mk p)"
  shows "pairs mk (strip P p) = filter (\<lambda>x. \<not> P (UnixNano x)) (pairs mk p)"
proof -
  have u: "UnixNano (case q of (t, x) \<Rightarrow> mk t x) = sint (fst q)" for q by (simp add: UnixNano_def split: prod.split)
  have "sorted_wrt (\<lambda>a b. P (sint (fst a)) \<longrightarrow> P (sint (fst b))) p" using assms by (simp add: pairs_def sorted_wrt_map u)
  then show ?thesis unfolding strip_def rev_dropWhile_rev by (simp add: rev_dropWhile_rev pairs_def filter_map comp_def u)
qed

sublocale ascending: chunk_reader "asc_Next raw src" vals "asc_R mk src e" "\<lambda>x. UnixNano x \<le> e"
  for src :: "('v, 's) block_source" and e :: int
proof unfold_locales
  fix c :: "('v, 's) ArrayCursor" and M
  assume "asc_R mk src e c M"
  then obtain bs S C where r: "asc_state mk src c bs S C" "asc_safe c S C" "M = pick UnixNano S C" "sorted_key UnixNano M" "ac_end c = e" "0 < ac_cap c"
    by (auto simp: asc_R_def)
  obtain c' bs' S' C' p where n: "asc_Next raw src c = Inr (to_array (strip (\<lambda>t. t > ac_end c) p), c')"
    "asc_state mk src c' bs' S' C'" "same_params c c'" "asc_safe c' S' C'" "M = pairs mk p @ pick UnixNano S' C'" "M \<noteq> [] \<longrightarrow> p \<noteq> []"
    using asc_Next_ok [OF r(1,6,2)] unfolding r(3) [symmetric] by blast
  have "asc_R mk src e c' (pick UnixNano S' C')"
    using n(2-4) r(4-6) unfolding n(5) asc_R_def by (auto simp: sorted_wrt_append same_params_def)
  moreover have "vals (to_array (strip (\<lambda>t. t > e) p)) = filter (\<lambda>x. UnixNano x \<le> e) (pairs mk p)"
  proof -
    have "sorted_key UnixNano (pairs mk p)" using r(4) unfolding n(5) by (simp add: sorted_wrt_append)
    then have "sorted_wrt (\<lambda>a b. UnixNano a > e \<longrightarrow> UnixNano b > e) (pairs mk p)" by (rule sorted_wrt_mono_rel [rotated]) auto
    from strip_filter [where P = "\<lambda>t. t > e", OF this] show ?thesis by (simp add: not_less)
  qed
  moreover have "arr_Len (to_array q) = length (vals (to_array q))" for q :: "(u64 \<times> 'v) list" by simp
  ultimately show "\<exists>a c' p M'. asc_Next raw src c = Inr (a, c') \<and> arr_Len a = length (vals a) \<and>
      vals a = filter (\<lambda>x. UnixNano x \<le> e) p \<and> M = p @ M' \<and> asc_R mk src e c' M' \<and> (M \<noteq> [] \<longrightarrow> p \<noteq> [])"
    using n(1,5,6) unfolding r(5) by (metis pairs_simps(5))
next
  fix c :: "('v, 's) ArrayCursor" and M
  assume "asc_R mk src e c M"
  then have "sorted_key UnixNano M" by (simp add: asc_R_def)
  then show "sorted_wrt (\<lambda>x y. UnixNano y \<le> e \<longrightarrow> UnixNano x \<le> e) M" by (rule sorted_wrt_mono_rel [rotated]) auto
qed

subsection \<open>Descending\<close>

lemma cache_value_back:
  assumes "cached mk c" "0 \<le> ac_cpos c" "ac_cpos c < int (length (ac_cvals c))"
  shows "\<exists>p. cache_value raw c = Inr p \<and>
    rev (take (nat (ac_cpos c + 1)) (ac_cvals c)) = mk (fst p) (snd p) # rev (take (nat (ac_cpos c)) (ac_cvals c))"
proof -
  obtain p where p: "cache_value raw c = Inr p"
    "drop (nat (ac_cpos c)) (ac_cvals c) = mk (fst p) (snd p) # drop (nat (ac_cpos c + 1)) (ac_cvals c)"
    using cache_value_ok [OF assms] by blast
  have lt: "nat (ac_cpos c) < length (ac_cvals c)" "nat (ac_cpos c + 1) = Suc (nat (ac_cpos c))" using assms(2,3) by linarith+
  moreover have "ac_cvals c ! nat (ac_cpos c) = mk (fst p) (snd p)" using p(2) lt(1) by (metis hd_drop_conv_nth list.sel(1))
  ultimately show ?thesis using p(1) by (simp add: take_Suc_conv_app_nth)
qed

lemma block_value_back:
  assumes "arr_wf tv" "0 \<le> ac_tpos c" "ac_tpos c < int (arr_Len tv)"
  shows "rev (take (nat (ac_tpos c + 1)) (vals tv)) = mk (fst (block_value tv c)) (snd (block_value tv c)) # rev (take (nat (ac_tpos c)) (vals tv))"
proof -
  have lt: "nat (ac_tpos c) < length (vals tv)" "nat (ac_tpos c + 1) = Suc (nat (ac_tpos c))" using assms by simp_all
  moreover have "vals tv ! nat (ac_tpos c) = mk (fst (block_value tv c)) (snd (block_value tv c))"
    using block_value_ok(1) [OF assms] lt(1) by (metis hd_drop_conv_nth list.sel(1))
  ultimately show ?thesis by (simp add: take_Suc_conv_app_nth)
qed

text \<open>Moving back by one value in the block, to the next block at its start.\<close>

lemma desc_advance:
  assumes "ac_tvals c = Some tv" "arr_wf tv" "feeds src bs (so_Next src (ac_keyCursor c))" "0 \<le> ac_tpos c" "ac_tpos c < int (arr_Len tv)"
    and "-1 \<le> ac_cpos c" "ac_cpos c < int (length (ac_cvals c))" "cached mk c" and c': "c' = c\<lparr>ac_tpos := ac_tpos c - 1\<rparr>"
  shows "\<exists>c2 bs'. (if ac_tpos c' < 0 then desc_nextSST src c' else Inr c') = Inr c2 \<and> same_params c c2 \<and>
    desc_state mk src c2 bs' (rev (take (nat (ac_tpos c)) (vals tv)) @ concat (map (rev \<circ> vals) bs)) (rev (take (nat (ac_cpos c + 1)) (ac_cvals c)))"
proof (cases "ac_tpos c = 0")
  case True
  show ?thesis
  proof (cases bs)
    case Nil
    then obtain v s' where "so_Read src (so_Next src (ac_keyCursor c)) = Inr (v, s')" "arr_Len v = 0" using assms(3) by auto
    then show ?thesis
      using assms Nil True
      by (intro exI [of _ "c'\<lparr>ac_tvals := Some v, ac_tpos := int (arr_Len v) - 1, ac_keyCursor := s'\<rparr>"] exI [of _ "[]"])
        (simp add: desc_nextSST_def desc_state_def cached_def same_params_def)
  next
    case (Cons b bs')
    then obtain s' where "so_Read src (so_Next src (ac_keyCursor c)) = Inr (b, s')" "0 < arr_Len b" "arr_wf b" "feeds src bs' (so_Next src s')"
      using assms(3) by auto
    then show ?thesis
      using assms Cons True
      by (intro exI [of _ "c'\<lparr>ac_tvals := Some b, ac_tpos := int (arr_Len b) - 1, ac_keyCursor := s'\<rparr>"] exI [of _ bs'])
        (simp add: desc_nextSST_def desc_state_def cached_def same_params_def)
  qed
next
  case False
  then show ?thesis using assms by (intro exI [of _ c'] exI [of _ bs]) (simp add: desc_state_def cached_def same_params_def)
qed

lemma desc_stateD:
  assumes "desc_state mk src c bs S C" "0 \<le> ac_tpos c"
  shows "\<exists>tv. ac_tvals c = Some tv \<and> arr_wf tv \<and> feeds src bs (so_Next src (ac_keyCursor c)) \<and> ac_tpos c < int (arr_Len tv) \<and>
    S = rev (take (nat (ac_tpos c + 1)) (vals tv)) @ concat (map (rev \<circ> vals) bs)"
  using assms by (auto simp: desc_state_def)

lemma desc_step_ok:
  assumes st: "desc_state mk src c bs S C" and t: "0 \<le> ac_tpos c" and cp: "0 \<le> ac_cpos c"
  shows "\<exists>p c1 c2 bs' S' C'. desc_step raw c = Inr (p, c1) \<and> (if ac_tpos c1 < 0 then desc_nextSST src c1 else Inr c1) = Inr c2 \<and>
    desc_state mk src c2 bs' S' C' \<and> same_params c c2 \<and> pick back_time S C = mk (fst p) (snd p) # pick back_time S' C'"
proof -
  obtain tv where s: "ac_tvals c = Some tv" "arr_wf tv" "feeds src bs (so_Next src (ac_keyCursor c))" "ac_tpos c < int (arr_Len tv)"
    "S = rev (take (nat (ac_tpos c + 1)) (vals tv)) @ concat (map (rev \<circ> vals) bs)"
    using desc_stateD [OF st t] by blast
  have c: "ac_cpos c < int (length (ac_cvals c))" "C = rev (take (nat (ac_cpos c + 1)) (ac_cvals c))" "cached mk c"
    using st by (auto simp: desc_state_def)
  obtain p where p: "cache_value raw c = Inr p" "C = mk (fst p) (snd p) # rev (take (nat (ac_cpos c)) (ac_cvals c))"
    using cache_value_back [OF c(3) cp c(1)] c(2) by auto
  let ?x = "block_value tv c"
  have S: "S = mk (fst ?x) (snd ?x) # rev (take (nat (ac_tpos c)) (vals tv)) @ concat (map (rev \<circ> vals) bs)"
    using s(5) block_value_back [OF s(2) t s(4)] by simp
  note x = block_value_ok(2) [OF s(2) t s(4)]
  have y: "UnixNano (ac_cvals c ! nat (ac_cpos c)) = UnixNano (mk (fst p) (snd p))"
    using p(1) unfolding cache_value_def by (auto simp: Let_def UnixNano_def split: option.splits)
  let ?d = "c\<lparr>ac_cpos := ac_cpos c - 1\<rparr>"
  consider "UnixNano (mk (fst p) (snd p)) = UnixNano (mk (fst ?x) (snd ?x))" | "UnixNano (mk (fst p) (snd p)) > UnixNano (mk (fst ?x) (snd ?x))"
    | "UnixNano (mk (fst ?x) (snd ?x)) > UnixNano (mk (fst p) (snd p))" by linarith
  then show ?thesis
  proof cases
    case 1
    let ?e = "?d\<lparr>ac_tpos := ac_tpos ?d - 1\<rparr>"
    have "desc_step raw c = Inr (p, ?e)" using 1 x y p(1) s(1) by (simp add: desc_step_def Let_def)
    moreover have "pick back_time S C = mk (fst p) (snd p) #
        pick back_time (rev (take (nat (ac_tpos c)) (vals tv)) @ concat (map (rev \<circ> vals) bs)) (rev (take (nat (ac_cpos c)) (ac_cvals c)))"
      using 1 unfolding S p(2) by simp
    ultimately show ?thesis
      using desc_advance [of ?d tv src bs ?e] s t cp c by (fastforce simp: cached_def same_params_def)
  next
    case 2
    have "desc_step raw c = Inr (p, ?d)" using 2 x y p(1) s(1) by (simp add: desc_step_def Let_def)
    moreover have "pick back_time S C = mk (fst p) (snd p) # pick back_time S (rev (take (nat (ac_cpos c)) (ac_cvals c)))"
      using 2 unfolding S p(2) by simp
    moreover have "desc_state mk src ?d bs S (rev (take (nat (ac_cpos c)) (ac_cvals c)))"
      using st cp by (auto simp: desc_state_def cached_def)
    ultimately show ?thesis using t by fastforce
  next
    case 3
    let ?e = "c\<lparr>ac_tpos := ac_tpos c - 1\<rparr>"
    have "desc_step raw c = Inr (?x, ?e)" using 3 x y s(1) by (simp add: desc_step_def Let_def)
    moreover have "pick back_time S C = mk (fst ?x) (snd ?x) #
        pick back_time (rev (take (nat (ac_tpos c)) (vals tv)) @ concat (map (rev \<circ> vals) bs)) C"
      using 3 unfolding S p(2) by simp
    ultimately show ?thesis
      using desc_advance [of c tv src bs ?e] s t cp c by fastforce
  qed
qed

lemma desc_state_Nil:
  assumes "desc_state mk src c bs S C"
  shows "S = [] \<longleftrightarrow> ac_tpos c < 0" and "C = [] \<longleftrightarrow> ac_cpos c < 0"
  using assms by (auto simp: desc_state_def split: if_splits)

lemma desc_loop_ok:
  "desc_state mk src c bs S C \<Longrightarrow> length out \<le> n \<Longrightarrow>
   \<exists>c' bs' S' C' ps. desc_loop raw src n c out = Inr (c', out @ ps) \<and> desc_state mk src c' bs' S' C' \<and> same_params c c' \<and>
     pick back_time S C = pairs mk ps @ pick back_time S' C' \<and> length (out @ ps) \<le> n \<and> (length (out @ ps) = n \<or> S' = [] \<or> C' = [])"
proof (induction "n - length out" arbitrary: c out bs S C)
  case 0
  then show ?case by (intro exI [of _ c] exI [of _ bs] exI [of _ S] exI [of _ C] exI [of _ "[]"]) (simp add: desc_loop.simps)
next
  case (Suc m)
  have lt: "length out < n" using Suc.hyps(2) by linarith
  show ?case
  proof (cases "ac_tpos c \<ge> 0 \<and> ac_cpos c \<ge> 0")
    case True
    obtain p c1 c2 bs' S' C' where st: "desc_step raw c = Inr (p, c1)" "(if ac_tpos c1 < 0 then desc_nextSST src c1 else Inr c1) = Inr c2"
      "desc_state mk src c2 bs' S' C'" "same_params c c2" "pick back_time S C = mk (fst p) (snd p) # pick back_time S' C'"
      using desc_step_ok [OF Suc.prems(1)] True by blast
    have len: "m = n - length (out @ [p])" "length (out @ [p]) \<le> n" using Suc.hyps(2) lt by simp_all
    have "desc_loop raw src n c out = desc_loop raw src n c2 (out @ [p])"
      using lt True st(1,2) by (subst desc_loop.simps) simp
    moreover obtain c' bs'' S'' C'' ps where "desc_loop raw src n c2 (out @ [p]) = Inr (c', (out @ [p]) @ ps)" "desc_state mk src c' bs'' S'' C''"
      "same_params c2 c'" "pick back_time S' C' = pairs mk ps @ pick back_time S'' C''" "length ((out @ [p]) @ ps) \<le> n"
      "length ((out @ [p]) @ ps) = n \<or> S'' = [] \<or> C'' = []"
      using Suc.hyps(1) [OF len(1) st(3) len(2)] by blast
    ultimately show ?thesis
      using st(4,5) same_params_trans
      by (intro exI [of _ c'] exI [of _ bs''] exI [of _ S''] exI [of _ C''] exI [of _ "p # ps"]) auto
  next
    case False
    then have "desc_loop raw src n c out = Inr (c, out)" by (subst desc_loop.simps) auto
    moreover have "S = [] \<or> C = []" using False desc_state_Nil [OF Suc.prems(1)] by linarith
    ultimately show ?thesis
      using Suc.prems by (intro exI [of _ c] exI [of _ bs] exI [of _ S] exI [of _ C] exI [of _ "[]"]) auto
  qed
qed

lemma desc_block_loop_ok:
  "desc_state mk src c bs S C \<Longrightarrow> length out \<le> n \<Longrightarrow>
   \<exists>c' bs' S' ps. desc_block_loop src n c out = Inr (c', out @ ps) \<and> desc_state mk src c' bs' S' C \<and> same_params c c' \<and>
     S = pairs mk ps @ S' \<and> length (out @ ps) \<le> n \<and> (length (out @ ps) = n \<or> S' = [])"
proof (induction "n - length out" arbitrary: c out bs S)
  case 0
  then show ?case by (intro exI [of _ c] exI [of _ bs] exI [of _ S] exI [of _ "[]"]) (simp add: desc_block_loop.simps)
next
  case (Suc m)
  have lt: "length out < n" using Suc.hyps(2) by linarith
  show ?case
  proof (cases "ac_tpos c \<ge> 0")
    case True
    obtain tv where s: "ac_tvals c = Some tv" "arr_wf tv" "feeds src bs (so_Next src (ac_keyCursor c))" "ac_tpos c < int (arr_Len tv)"
      "S = rev (take (nat (ac_tpos c + 1)) (vals tv)) @ concat (map (rev \<circ> vals) bs)"
      using desc_stateD [OF Suc.prems(1) True] by blast
    have c: "-1 \<le> ac_cpos c" "ac_cpos c < int (length (ac_cvals c))" "cached mk c" "C = rev (take (nat (ac_cpos c + 1)) (ac_cvals c))"
      using Suc.prems(1) by (auto simp: desc_state_def)
    let ?p = "block_value tv c" and ?c1 = "c\<lparr>ac_tpos := ac_tpos c - 1\<rparr>"
    let ?S = "rev (take (nat (ac_tpos c)) (vals tv)) @ concat (map (rev \<circ> vals) bs)"
    have S: "S = mk (fst ?p) (snd ?p) # ?S" using s(5) block_value_back [OF s(2) True s(4)] by simp
    obtain c2 bs' where c2: "(if ac_tpos ?c1 < 0 then desc_nextSST src ?c1 else Inr ?c1) = Inr c2" "same_params c c2" "desc_state mk src c2 bs' ?S C"
      using desc_advance [OF s(1-3) True s(4) c(1-3) refl] c(4) by blast
    have len: "m = n - length (out @ [?p])" "length (out @ [?p]) \<le> n" using Suc.hyps(2) lt by simp_all
    have "desc_block_loop src n c out = desc_block_loop src n c2 (out @ [?p])"
      using lt True s(1) c2(1) by (subst desc_block_loop.simps) (simp add: Let_def)
    moreover obtain c' bs'' S' ps where "desc_block_loop src n c2 (out @ [?p]) = Inr (c', (out @ [?p]) @ ps)" "desc_state mk src c' bs'' S' C"
      "same_params c2 c'" "?S = pairs mk ps @ S'" "length ((out @ [?p]) @ ps) \<le> n" "length ((out @ [?p]) @ ps) = n \<or> S' = []"
      using Suc.hyps(1) [OF len(1) c2(3) len(2)] by blast
    ultimately show ?thesis
      using c2(2) S same_params_trans by (intro exI [of _ c'] exI [of _ bs''] exI [of _ S'] exI [of _ "?p # ps"]) auto
  next
    case False
    then have "desc_block_loop src n c out = Inr (c, out)" by (subst desc_block_loop.simps) simp
    then show ?thesis
      using Suc.prems False desc_state_Nil [OF Suc.prems(1)] by (intro exI [of _ c] exI [of _ bs] exI [of _ S] exI [of _ "[]"]) auto
  qed
qed

lemma desc_cache_loop_ok:
  "desc_state mk src c bs S C \<Longrightarrow> length out \<le> n \<Longrightarrow>
   \<exists>c' C' ps. desc_cache_loop raw n c out = Inr (c', out @ ps) \<and> desc_state mk src c' bs S C' \<and> same_params c c' \<and>
     C = pairs mk ps @ C' \<and> length (out @ ps) \<le> n \<and> (length (out @ ps) = n \<or> C' = [])"
proof (induction "n - length out" arbitrary: c out C)
  case 0
  then show ?case by (intro exI [of _ c] exI [of _ C] exI [of _ "[]"]) (simp add: desc_cache_loop.simps)
next
  case (Suc m)
  have lt: "length out < n" using Suc.hyps(2) by linarith
  show ?case
  proof (cases "ac_cpos c \<ge> 0")
    case True
    have c: "ac_cpos c < int (length (ac_cvals c))" "cached mk c" "C = rev (take (nat (ac_cpos c + 1)) (ac_cvals c))"
      using Suc.prems(1) by (auto simp: desc_state_def)
    obtain p where p: "cache_value raw c = Inr p" "C = mk (fst p) (snd p) # rev (take (nat (ac_cpos c)) (ac_cvals c))"
      using cache_value_back [OF c(2) True c(1)] c(3) by auto
    let ?d = "c\<lparr>ac_cpos := ac_cpos c - 1\<rparr>" and ?C = "rev (take (nat (ac_cpos c)) (ac_cvals c))"
    have st: "desc_state mk src ?d bs S ?C" using Suc.prems(1) True by (auto simp: desc_state_def cached_def)
    have len: "m = n - length (out @ [p])" "length (out @ [p]) \<le> n" using Suc.hyps(2) lt by simp_all
    have "desc_cache_loop raw n c out = desc_cache_loop raw n ?d (out @ [p])"
      using lt True p(1) by (subst desc_cache_loop.simps) simp
    moreover obtain c' C' ps where "desc_cache_loop raw n ?d (out @ [p]) = Inr (c', (out @ [p]) @ ps)" "desc_state mk src c' bs S C'"
      "same_params ?d c'" "?C = pairs mk ps @ C'" "length ((out @ [p]) @ ps) \<le> n" "length ((out @ [p]) @ ps) = n \<or> C' = []"
      using Suc.hyps(1) [OF len(1) st len(2)] by blast
    ultimately show ?thesis
      using p(2) by (intro exI [of _ c'] exI [of _ C'] exI [of _ "p # ps"]) (auto simp: same_params_def)
  next
    case False
    then have "desc_cache_loop raw n c out = Inr (c, out)" by (subst desc_cache_loop.simps) simp
    then show ?thesis
      using Suc.prems False desc_state_Nil [OF Suc.prems(1)] by (intro exI [of _ c] exI [of _ C] exI [of _ "[]"]) auto
  qed
qed

lemma desc_Next_ok:
  assumes st: "desc_state mk src c bs S C" and cap: "0 < ac_cap c"
  shows "\<exists>c' bs' S' C' p. desc_Next raw src c = Inr (to_array (strip (\<lambda>t. t < ac_end c) p), c') \<and>
    desc_state mk src c' bs' S' C' \<and> same_params c c' \<and>
    pick back_time S C = pairs mk p @ pick back_time S' C' \<and> (pick back_time S C \<noteq> [] \<longrightarrow> p \<noteq> [])"
proof -
  let ?n = "ac_cap c"
  obtain c1 bs1 S1 C1 ps where l: "desc_loop raw src ?n c [] = Inr (c1, ps)" "desc_state mk src c1 bs1 S1 C1" "same_params c c1"
    "pick back_time S C = pairs mk ps @ pick back_time S1 C1" "length ps \<le> ?n" "length ps = ?n \<or> S1 = [] \<or> C1 = []"
    using desc_loop_ok [OF st, of "[]" ?n] unfolding append_Nil list.size by blast
  show ?thesis
  proof (cases "length ps = ?n")
    case True
    then show ?thesis using l(1-4) cap by (intro exI [of _ c1] exI [of _ bs1] exI [of _ S1] exI [of _ C1] exI [of _ ps]) (auto simp: desc_Next_def)
  next
    case False
    obtain c2 bs2 S2 qs where k: "desc_block_loop src ?n c1 ps = Inr (c2, ps @ qs)" "desc_state mk src c2 bs2 S2 C1" "same_params c1 c2"
      "S1 = pairs mk qs @ S2" "length (ps @ qs) \<le> ?n" "length (ps @ qs) = ?n \<or> S2 = []"
      using desc_block_loop_ok [OF l(2,5)] by blast
    obtain c3 C3 rs where r: "desc_cache_loop raw ?n c2 (ps @ qs) = Inr (c3, (ps @ qs) @ rs)" "desc_state mk src c3 bs2 S2 C3"
      "same_params c2 c3" "C1 = pairs mk rs @ C3" "length ((ps @ qs) @ rs) \<le> ?n" "length ((ps @ qs) @ rs) = ?n \<or> C3 = []"
      using desc_cache_loop_ok [OF k(2,5)] by blast
    have "desc_Next raw src c = Inr (to_array (strip (\<lambda>t. t < ac_end c) (ps @ qs @ rs)), c3)"
      using l(1,5) False k(1) r(1) by (simp add: desc_Next_def)
    moreover have "same_params c c3" using l(3) k(3) r(3) same_params_trans by blast
    moreover have "pick back_time S C = pairs mk (ps @ qs @ rs) @ pick back_time S2 C3"
      using l(4,6) False k(4,6) r(4,5) by auto
    moreover have "ps @ qs @ rs \<noteq> []" if "pick back_time S C \<noteq> []"
      using that l(4) k(4,6) r(4,6) cap by auto
    ultimately show ?thesis using r(2) by blast
  qed
qed

sublocale descending: chunk_reader "desc_Next raw src" vals "desc_R mk src e" "\<lambda>x. UnixNano x \<ge> e"
  for src :: "('v, 's) block_source" and e :: int
proof unfold_locales
  fix c :: "('v, 's) ArrayCursor" and M
  assume "desc_R mk src e c M"
  then obtain bs S C where r: "desc_state mk src c bs S C" "M = pick back_time S C" "sorted_key back_time M" "ac_end c = e" "0 < ac_cap c"
    by (auto simp: desc_R_def)
  obtain c' bs' S' C' p where n: "desc_Next raw src c = Inr (to_array (strip (\<lambda>t. t < ac_end c) p), c')"
    "desc_state mk src c' bs' S' C'" "same_params c c'" "M = pairs mk p @ pick back_time S' C'" "M \<noteq> [] \<longrightarrow> p \<noteq> []"
    using desc_Next_ok [OF r(1,5)] unfolding r(2) [symmetric] by blast
  have "desc_R mk src e c' (pick back_time S' C')"
    using n(2,3) r(3-5) unfolding n(4) desc_R_def by (auto simp: sorted_wrt_append same_params_def)
  moreover have "vals (to_array (strip (\<lambda>t. t < e) p)) = filter (\<lambda>x. UnixNano x \<ge> e) (pairs mk p)"
  proof -
    have "sorted_key back_time (pairs mk p)" using r(3) unfolding n(4) by (simp add: sorted_wrt_append)
    then have "sorted_wrt (\<lambda>a b. UnixNano a < e \<longrightarrow> UnixNano b < e) (pairs mk p)" by (rule sorted_wrt_mono_rel [rotated]) auto
    from strip_filter [where P = "\<lambda>t. t < e", OF this] show ?thesis by (simp add: not_less)
  qed
  moreover have "arr_Len (to_array q) = length (vals (to_array q))" for q :: "(u64 \<times> 'v) list" by simp
  ultimately show "\<exists>a c' p M'. desc_Next raw src c = Inr (a, c') \<and> arr_Len a = length (vals a) \<and>
      vals a = filter (\<lambda>x. UnixNano x \<ge> e) p \<and> M = p @ M' \<and> desc_R mk src e c' M' \<and> (M \<noteq> [] \<longrightarrow> p \<noteq> [])"
    using n(1,4,5) unfolding r(4) by (metis pairs_simps(5))
next
  fix c :: "('v, 's) ArrayCursor" and M
  assume "desc_R mk src e c M"
  then have "sorted_key back_time M" by (simp add: desc_R_def)
  then show "sorted_wrt (\<lambda>x y. UnixNano y \<ge> e \<longrightarrow> UnixNano x \<ge> e) M" by (rule sorted_wrt_mono_rel [rotated]) auto
qed

end

end
