(* ===== verification/Query.thy ===== *)
theory Query
  imports CursorRuns MemManager
begin

text \<open>
  Queries: the cursors of \<open>storage/engine_cursor_build.gen.go\<close> and \<open>Engine.Get\<close> of \<open>storage/engine.go\<close>, which
  put the memory tables, the key cursor over the SST files and the array cursors together.
\<close>

section \<open>From \<open>Reset\<close> to the last call of \<open>Next\<close>\<close>

lemma search_all:
  assumes "\<forall>a < n. f a"
  shows "sort_Search f 0 n = 0"
proof -
  have "sort_Search f 0 n \<le> n" "\<forall>a < sort_Search f 0 n. \<not> f a" using sort_Search_ok [of n f 0 n] assms by blast+
  then show ?thesis using assms by (meson gr0I less_le_trans)
qed

lemma search_none:
  assumes "\<forall>a < n. \<not> f a"
  shows "sort_Search f 0 n = n"
proof -
  have z: "\<forall>a < (0::nat). \<not> f a" "\<forall>a. n \<le> a \<longrightarrow> a < n \<longrightarrow> f a" by simp_all
  have "\<forall>a b. a \<le> b \<longrightarrow> b < n \<longrightarrow> f a \<longrightarrow> f b" using assms by (meson le_less_trans)
  from sort_Search_ok [OF this z le0 order_refl]
  have "sort_Search f 0 n \<le> n" "\<forall>a. sort_Search f 0 n \<le> a \<longrightarrow> a < n \<longrightarrow> f a" by blast+
  then show ?thesis using assms by (meson le_neq_implies_less order_refl)
qed

lemma length_pick_le: "length (pick k s c) \<le> length s + length c"
  by (induction k s c rule: pick.induct) auto

lemma ordered_keys: "ordered a \<Longrightarrow> sorted_key UnixNano a" "ordered a \<Longrightarrow> sorted_key back_time (rev a)"
  by (simp_all add: ordered_iff sorted_wrt_rev)

context cursor_type
begin

lemma ts_vals: "arr_wf b \<Longrightarrow> a < arr_Len b \<Longrightarrow> \<exists>x \<in> set (vals b). UnixNano x = sint (ar_ts b ! a)"
  by (metis UnixNano_vals length_vals nth_mem)

lemma asc_query:
  assumes f: "feeds src bs kc" and ord: "ordered (concat (map vals bs))" "ordered cv"
    and seek: "\<forall>x \<in> set (concat (map vals bs)). seek \<le> UnixNano x" and cv: "\<forall>v \<in> set cv. \<exists>x. v = mk (unixNano v) x" and cap: "0 < n"
    and safe: "filter (\<lambda>x. seek \<le> UnixNano x) cv = [] \<or>
      length (Deduplicate (concat (map vals bs) @ filter (\<lambda>x. seek \<le> UnixNano x) cv)) \<le> n"
    and fuel: "length (concat (map vals bs) @ cv) < m"
  shows "\<exists>as. read_all m (asc_Next raw src) (asc_Reset src n seek e cv kc) = Inr as \<and>
    concat (map vals as) = filter (\<lambda>x. UnixNano x \<le> e) (Deduplicate (concat (map vals bs) @ filter (\<lambda>x. seek \<le> UnixNano x) cv))"
proof -
  let ?c = "asc_Reset src n seek e cv kc" and ?S = "concat (map vals bs)" and ?C = "filter (\<lambda>x. seek \<le> UnixNano x) cv"
  have C: "drop (sort_Search (\<lambda>i. seek \<le> UnixNano (cv ! i)) 0 (length cv)) cv = ?C"
    by (rule sort_Search_filter) (use ordered_nth_le [OF ord(2)] in fastforce)
  have ca: "cached mk ?c" using cv unfolding cached_def asc_Reset_def by (auto simp: Let_def split: sum.split prod.split)
  have st: "\<exists>bs'. asc_state mk src ?c bs' ?S ?C" and c: "ac_tpos ?c = 0" "ac_end ?c = e" "ac_cap ?c = n"
  proof -
    have "(\<exists>bs'. asc_state mk src ?c bs' ?S ?C) \<and> ac_tpos ?c = 0 \<and> ac_end ?c = e \<and> ac_cap ?c = n"
    proof (cases bs)
      case Nil
      then obtain v s' where "so_Read src kc = Inr (v, s')" "arr_Len v = 0" using f by auto
      moreover have "sort_Search g 0 0 = 0" for g by (rule search_all) simp
      ultimately show ?thesis
        using Nil ca C by (intro conjI exI [of _ "[]"]) (simp_all add: asc_Reset_def asc_state_def vals_empty)
    next
      case (Cons b bs')
      then obtain s' where r: "so_Read src kc = Inr (b, s')" "0 < arr_Len b" "arr_wf b" "feeds src bs' (so_Next src s')"
        using f by auto
      have "\<forall>a < arr_Len b. seek \<le> sint (ar_ts b ! a)"
      proof (intro allI impI)
        fix a assume "a < arr_Len b"
        then obtain x where "x \<in> set (vals b)" "UnixNano x = sint (ar_ts b ! a)" using ts_vals [OF r(3)] by blast
        moreover from this(1) have "x \<in> set (concat (map vals bs))" using Cons by simp
        ultimately show "seek \<le> sint (ar_ts b ! a)" using seek by fastforce
      qed
      then have "sort_Search (\<lambda>i. seek \<le> sint (ar_ts b ! i)) 0 (arr_Len b) = 0" by (rule search_all)
      then show ?thesis
        using Cons r(2-4) ca C unfolding asc_Reset_def r(1) asc_state_def Let_def sum.case prod.case
        by (intro conjI exI [of _ bs'] exI [of _ b]) simp_all
    qed
    then show "\<exists>bs'. asc_state mk src ?c bs' ?S ?C" "ac_tpos ?c = 0" "ac_end ?c = e" "ac_cap ?c = n" by blast+
  qed
  note k = ordered_keys(1) [OF ord(1)] ordered_keys(1) [OF ordered_filter [OF ord(2)]]
  have D: "pick UnixNano ?S ?C = Deduplicate (?S @ ?C)"
    using pick_eq_Deduplicate [OF k, where dir = "\<lambda>a. a"] by simp
  have "asc_safe ?c ?S ?C" using safe c D by (auto simp: asc_safe_def)
  then have "asc_R mk src e ?c (pick UnixNano ?S ?C)" using st c cap sorted_pick [OF k] unfolding asc_R_def by metis
  moreover have "length (pick UnixNano ?S ?C) < m"
    using length_pick_le [of UnixNano ?S ?C] fuel length_filter_le [of "\<lambda>x. seek \<le> UnixNano x" cv] unfolding length_append by linarith
  ultimately show ?thesis using ascending.read_all_eq D by metis
qed

lemma desc_query:
  assumes f: "feeds src bs kc" and ord: "ordered (concat (map vals (rev bs)))" "ordered cv"
    and seek: "\<forall>x \<in> set (concat (map vals bs)). UnixNano x \<le> seek" and cv: "\<forall>v \<in> set cv. \<exists>x. v = mk (unixNano v) x" and cap: "0 < n"
    and fuel: "length (concat (map vals bs) @ cv) < m"
  shows "\<exists>as. read_all m (desc_Next raw src) (desc_Reset src n seek e cv kc) = Inr as \<and>
    rev (concat (map vals as)) = filter (\<lambda>x. e \<le> UnixNano x)
      (Deduplicate (concat (map vals (rev bs)) @ filter (\<lambda>x. UnixNano x \<le> seek) cv))"
proof -
  let ?c = "desc_Reset src n seek e cv kc" and ?S = "concat (map (rev \<circ> vals) bs)" and ?C = "rev (filter (\<lambda>x. UnixNano x \<le> seek) cv)"
  have S: "rev ?S = concat (map vals (rev bs))" by (simp add: rev_concat rev_map comp_def)
  have mono: "UnixNano (cv ! a) > seek \<Longrightarrow> a \<le> b \<Longrightarrow> b < length cv \<Longrightarrow> UnixNano (cv ! b) > seek" for a b
    using ordered_nth_le [OF ord(2)] by fastforce
  have C: "take (sort_Search (\<lambda>i. seek < UnixNano (cv ! i)) 0 (length cv)) cv = filter (\<lambda>x. UnixNano x \<le> seek) cv"
    "sort_Search (\<lambda>i. seek < UnixNano (cv ! i)) 0 (length cv) \<le> length cv"
    using sort_Search_filter(2,3) [of cv "\<lambda>x. seek < UnixNano x"] mono by (auto simp: not_less)
  have ca: "cached mk ?c" using cv unfolding cached_def desc_Reset_def by (auto simp: Let_def split: sum.split prod.split)
  have st: "(\<exists>bs'. desc_state mk src ?c bs' ?S ?C) \<and> ac_end ?c = e \<and> ac_cap ?c = n"
  proof (cases bs)
    case Nil
    then obtain v s' where "so_Read src kc = Inr (v, s')" "arr_Len v = 0" using f by auto
    moreover have "sort_Search g 0 0 = 0" for g by (rule search_all) simp
    ultimately show ?thesis
      using Nil ca C by (intro conjI exI [of _ "[]"]) (simp_all add: desc_Reset_def desc_state_def)
  next
    case (Cons b bs')
    then obtain s' where r: "so_Read src kc = Inr (b, s')" "0 < arr_Len b" "arr_wf b" "feeds src bs' (so_Next src s')"
      using f by auto
    have "\<forall>a < arr_Len b. \<not> seek < sint (ar_ts b ! a)"
    proof (intro allI impI)
      fix a assume "a < arr_Len b"
      then obtain x where "x \<in> set (vals b)" "UnixNano x = sint (ar_ts b ! a)" using ts_vals [OF r(3)] by blast
      moreover from this(1) have "x \<in> set (concat (map vals bs))" using Cons by simp
      ultimately show "\<not> seek < sint (ar_ts b ! a)" using seek by fastforce
    qed
    then have "sort_Search (\<lambda>i. seek < sint (ar_ts b ! i)) 0 (arr_Len b) = arr_Len b" by (rule search_none)
    then show ?thesis
      using Cons r(2-4) ca C unfolding desc_Reset_def r(1) desc_state_def Let_def sum.case prod.case
      by (intro conjI exI [of _ bs'] exI [of _ b]) simp_all
  qed
  have k: "sorted_key back_time ?S" "sorted_key back_time ?C"
    using ordered_keys(2) [OF ord(1)] ordered_keys(2) [OF ordered_filter [OF ord(2)]] unfolding S [symmetric] by simp_all
  have D: "rev (pick back_time ?S ?C) = Deduplicate (concat (map vals (rev bs)) @ filter (\<lambda>x. UnixNano x \<le> seek) cv)"
    using pick_eq_Deduplicate [OF k, where dir = rev] S by simp
  have "desc_R mk src e ?c (pick back_time ?S ?C)" using st cap sorted_pick [OF k] unfolding desc_R_def by metis
  moreover have "length (pick back_time ?S ?C) < m"
  proof -
    have "length ?S = length (concat (map vals bs))" by (simp add: length_concat comp_def)
    then show ?thesis
      using length_pick_le [of back_time ?S ?C] fuel length_filter_le [of "\<lambda>x. UnixNano x \<le> seek" cv]
      unfolding length_append length_rev by linarith
  qed
  ultimately obtain as where "read_all m (desc_Next raw src) ?c = Inr as" "concat (map vals as) = filter (\<lambda>x. e \<le> UnixNano x) (pick back_time ?S ?C)"
    using descending.read_all_eq by blast
  then show ?thesis using D by (metis rev_filter)
qed

end

section \<open>The five types\<close>

text \<open>The type assertion \<open>v.(types.FloatValue)\<close> with \<open>RawValue\<close>, and its four siblings; \<open>None\<close> where the assertion panics.\<close>

fun FloatValue_RawValue :: "Value \<Rightarrow> u64 option" where
  "FloatValue_RawValue (FloatValue t x) = Some x"
| "FloatValue_RawValue _ = None"

fun IntegerValue_RawValue :: "Value \<Rightarrow> u64 option" where
  "IntegerValue_RawValue (IntegerValue t x) = Some x"
| "IntegerValue_RawValue _ = None"

fun UnsignedValue_RawValue :: "Value \<Rightarrow> u64 option" where
  "UnsignedValue_RawValue (UnsignedValue t x) = Some x"
| "UnsignedValue_RawValue _ = None"

fun BooleanValue_RawValue :: "Value \<Rightarrow> bool option" where
  "BooleanValue_RawValue (BooleanValue t x) = Some x"
| "BooleanValue_RawValue _ = None"

fun StringValue_RawValue :: "Value \<Rightarrow> bytes option" where
  "StringValue_RawValue (StringValue t x) = Some x"
| "StringValue_RawValue _ = None"

interpretation float_cursor: cursor_type FloatValue FloatValue_RawValue by unfold_locales simp
interpretation unsigned_cursor: cursor_type UnsignedValue UnsignedValue_RawValue by unfold_locales simp
interpretation boolean_cursor: cursor_type BooleanValue BooleanValue_RawValue by unfold_locales simp
interpretation string_cursor: cursor_type StringValue StringValue_RawValue by unfold_locales simp

text \<open>The cursors read their blocks from a key cursor.\<close>

definition key_source :: "('v, 'v array KeyCursor) block_source" where
  "key_source = \<lparr>so_Read = read_block array_ops, so_Next = kc_Next\<rparr>"

lemma drain_feeds: "drain n array_ops c = Inr bs \<Longrightarrow> \<forall>b \<in> set bs. arr_wf b \<Longrightarrow> feeds key_source bs c"
proof (induction n arbitrary: c bs)
  case (Suc n)
  then obtain v c' where r: "read_block array_ops c = Inr (v, c')"
    "(if co_Len array_ops v = 0 then Inr [] else bind_result (drain n array_ops (kc_Next c')) (\<lambda>vs. Inr (v # vs))) = Inr bs"
    by (auto elim: bind_result_InrE)
  show ?case
  proof (cases "arr_Len v = 0")
    case True
    then show ?thesis using r by (auto simp: array_ops_def key_source_def)
  next
    case False
    then obtain vs where "drain n array_ops (kc_Next c') = Inr vs" "bs = v # vs"
      using r(2) by (auto simp: array_ops_def elim: bind_result_InrE)
    then show ?thesis using Suc.IH [of "kc_Next c'" vs] Suc.prems(2) False r(1) by (auto simp: key_source_def)
  qed
qed simp

definition FloatArrayAscendingCursor_Next where "FloatArrayAscendingCursor_Next = asc_Next FloatValue_RawValue key_source"
definition FloatArrayDescendingCursor_Next where "FloatArrayDescendingCursor_Next = desc_Next FloatValue_RawValue key_source"
definition IntegerArrayAscendingCursor_Next where "IntegerArrayAscendingCursor_Next = asc_Next IntegerValue_RawValue key_source"
definition IntegerArrayDescendingCursor_Next where "IntegerArrayDescendingCursor_Next = desc_Next IntegerValue_RawValue key_source"
definition UnsignedArrayAscendingCursor_Next where "UnsignedArrayAscendingCursor_Next = asc_Next UnsignedValue_RawValue key_source"
definition UnsignedArrayDescendingCursor_Next where "UnsignedArrayDescendingCursor_Next = desc_Next UnsignedValue_RawValue key_source"
definition StringArrayAscendingCursor_Next where "StringArrayAscendingCursor_Next = asc_Next StringValue_RawValue key_source"
definition StringArrayDescendingCursor_Next where "StringArrayDescendingCursor_Next = desc_Next StringValue_RawValue key_source"
definition BooleanArrayAscendingCursor_Next where "BooleanArrayAscendingCursor_Next = asc_Next BooleanValue_RawValue key_source"
definition BooleanArrayDescendingCursor_Next where "BooleanArrayDescendingCursor_Next = desc_Next BooleanValue_RawValue key_source"

section \<open>The engine\<close>

text \<open>
  \<open>buildFloatArrayCursor\<close> and its siblings: the values of the memory tables, a key cursor from the near end of the range
  and an array cursor to its far end. \<open>srt\<close> is \<open>sort.Sort\<close>.
\<close>

type_synonym 'v sorter = "('v array location \<Rightarrow> 'v array location \<Rightarrow> bool) \<Rightarrow> 'v array location list \<Rightarrow> 'v array location list"
type_synonym 'v query_cursor = "('v, 'v array KeyCursor) ArrayCursor"

definition build_array_cursor ::
  "'v sorter \<Rightarrow> 'v array SSTFile list \<Rightarrow> bytes \<Rightarrow> int \<Rightarrow> int \<Rightarrow> bool \<Rightarrow> MemManager \<Rightarrow> ('v query_cursor \<times> MemManager) result" where
  "build_array_cursor srt files key mn mx asc mm =
     bind_result (mm_Values key mm) (\<lambda>(cacheValues, mm').
       if asc
       then Inr (asc_Reset key_source DefaultMaxPointsPerBlock mn mx cacheValues (newKeyCursor srt files key mn asc), mm')
       else Inr (desc_Reset key_source DefaultMaxPointsPerBlock mx mn cacheValues (newKeyCursor srt files key mx asc), mm'))"

definition buildFloatArrayCursor :: "u64 sorter \<Rightarrow> FloatArray SSTFile list \<Rightarrow> bytes \<Rightarrow> int \<Rightarrow> int \<Rightarrow> bool \<Rightarrow> MemManager \<Rightarrow> (u64 query_cursor \<times> MemManager) result" where
  "buildFloatArrayCursor = build_array_cursor"
definition buildIntegerArrayCursor :: "u64 sorter \<Rightarrow> IntegerArray SSTFile list \<Rightarrow> bytes \<Rightarrow> int \<Rightarrow> int \<Rightarrow> bool \<Rightarrow> MemManager \<Rightarrow> (u64 query_cursor \<times> MemManager) result" where
  "buildIntegerArrayCursor = build_array_cursor"
definition buildUnsignedArrayCursor :: "u64 sorter \<Rightarrow> UnsignedArray SSTFile list \<Rightarrow> bytes \<Rightarrow> int \<Rightarrow> int \<Rightarrow> bool \<Rightarrow> MemManager \<Rightarrow> (u64 query_cursor \<times> MemManager) result" where
  "buildUnsignedArrayCursor = build_array_cursor"
definition buildStringArrayCursor :: "bytes sorter \<Rightarrow> StringArray SSTFile list \<Rightarrow> bytes \<Rightarrow> int \<Rightarrow> int \<Rightarrow> bool \<Rightarrow> MemManager \<Rightarrow> (bytes query_cursor \<times> MemManager) result" where
  "buildStringArrayCursor = build_array_cursor"
definition buildBooleanArrayCursor :: "bool sorter \<Rightarrow> BooleanArray SSTFile list \<Rightarrow> bytes \<Rightarrow> int \<Rightarrow> int \<Rightarrow> bool \<Rightarrow> MemManager \<Rightarrow> (bool query_cursor \<times> MemManager) result" where
  "buildBooleanArrayCursor = build_array_cursor"

datatype FieldType = Integer | Float | Boolean | String | Empty | Unsigned

datatype Cursor =
    FloatArrayCursor "u64 query_cursor" | IntegerArrayCursor "u64 query_cursor" | UnsignedArrayCursor "u64 query_cursor"
  | StringArrayCursor "bytes query_cursor" | BooleanArrayCursor "bool query_cursor"

text \<open>The files as the readers of each type see them.\<close>

record FileStoreView =
  fv_Float :: "FloatArray SSTFile list"
  fv_Integer :: "IntegerArray SSTFile list"
  fv_Unsigned :: "UnsignedArray SSTFile list"
  fv_String :: "StringArray SSTFile list"
  fv_Boolean :: "BooleanArray SSTFile list"
  fv_sort_word :: "u64 sorter"
  fv_sort_string :: "bytes sorter"
  fv_sort_bool :: "bool sorter"

definition keyFieldSeparator :: bytes where
  "keyFieldSeparator = [35, 33, 126, 35]"

definition engine_Get ::
  "FileStoreView \<Rightarrow> MemManager \<Rightarrow> bytes \<Rightarrow> bytes \<Rightarrow> FieldType \<Rightarrow> int \<Rightarrow> int \<Rightarrow> bool \<Rightarrow> (Cursor \<times> MemManager) result" where
  "engine_Get fv mm key field fieldType startTime endTime asc =
     (let realKey = key @ keyFieldSeparator @ field
      in case fieldType of
           Boolean \<Rightarrow> bind_result (buildBooleanArrayCursor (fv_sort_bool fv) (fv_Boolean fv) realKey startTime endTime asc mm)
             (\<lambda>(c, mm'). Inr (BooleanArrayCursor c, mm'))
         | Float \<Rightarrow> bind_result (buildFloatArrayCursor (fv_sort_word fv) (fv_Float fv) realKey startTime endTime asc mm)
             (\<lambda>(c, mm'). Inr (FloatArrayCursor c, mm'))
         | Integer \<Rightarrow> bind_result (buildIntegerArrayCursor (fv_sort_word fv) (fv_Integer fv) realKey startTime endTime asc mm)
             (\<lambda>(c, mm'). Inr (IntegerArrayCursor c, mm'))
         | String \<Rightarrow> bind_result (buildStringArrayCursor (fv_sort_string fv) (fv_String fv) realKey startTime endTime asc mm)
             (\<lambda>(c, mm'). Inr (StringArrayCursor c, mm'))
         | Unsigned \<Rightarrow> bind_result (buildUnsignedArrayCursor (fv_sort_word fv) (fv_Unsigned fv) realKey startTime endTime asc mm)
             (\<lambda>(c, mm'). Inr (UnsignedArrayCursor c, mm'))
         | Empty \<Rightarrow> Inl ErrUnknownFieldType)"

section \<open>What a query returns\<close>


lemma length_Deduplicate_le: "length (Deduplicate a) \<le> length a"
proof -
  have "distinct (Deduplicate a)"
    unfolding distinct_conv_nth using ordered_nth_less [OF ordered_Deduplicate, of _ _ a] by (metis less_irrefl linorder_neqE_nat)
  moreover have "v \<in> set a" if "v \<in> set (Deduplicate a)" for v
    using that latest_ordered [OF ordered_Deduplicate, of "UnixNano v" a v] latest_SomeD [of "UnixNano v" a v] by simp
  ultimately show ?thesis by (metis card_length card_mono distinct_card finite_set order.trans subsetI)
qed

lemma filter_Deduplicate_append:
  "filter (\<lambda>x. Q (UnixNano x)) (Deduplicate (filter (\<lambda>x. P (UnixNano x)) (Deduplicate a) @ filter (\<lambda>x. P (UnixNano x)) b)) =
   filter (\<lambda>x. P (UnixNano x) \<and> Q (UnixNano x)) (Deduplicate (a @ b))"
  by (rule ordered_ext)
    (auto simp: ordered_filter ordered_Deduplicate latest_filter_time latest_filter_time [where P = "\<lambda>t. P t \<and> Q t"] latest_append split: option.splits)

context cursor_type
begin

lemma asc_range:
  assumes "files_ok arr_wf vals key files" and "seek_ok True mn"
    and "sorts_by asc_Less (srt asc_Less) (fs_locations files key mn True)"
    and "ordered cv" and cv: "\<forall>v \<in> set cv. \<exists>x. v = mk (unixNano v) x" and "0 < N"
    and V: "V = Deduplicate (concat (map (file_values vals key) files) @ cv)"
    and safe: "(\<forall>v \<in> set cv. UnixNano v < mn) \<or> length V \<le> N"
    and n: "length (concat (map (file_values vals key) files) @ cv) < n"
  shows "\<exists>as. read_all n (asc_Next raw key_source) (asc_Reset key_source N mn mx cv (newKeyCursor srt files key mn True)) = Inr as \<and>
    concat (map vals as) = filter (\<lambda>x. mn \<le> UnixNano x \<and> UnixNano x \<le> mx) V"
proof -
  let ?F = "concat (map (file_values vals key) files)" and ?w = "\<lambda>x. mn \<le> UnixNano x"
  obtain bs where bs: "drain n array_ops (newKeyCursor srt files key mn True) = Inr bs" "\<forall>b \<in> set bs. arr_wf b"
    "concat (map vals bs) = filter ?w (Deduplicate ?F)"
    using series_container.drain_files [OF array_container [OF array_type_axioms] assms(1,2), of srt n] assms(3) n
    by (auto simp: wanted_def [abs_def])
  have "filter (\<lambda>x. True) (Deduplicate (filter ?w (Deduplicate ?F) @ filter ?w cv)) = filter (\<lambda>x. mn \<le> UnixNano x \<and> True) V"
    unfolding V by (rule filter_Deduplicate_append)
  then have fit: "filter ?w cv = [] \<or> length (Deduplicate (concat (map vals bs) @ filter ?w cv)) \<le> N"
    using safe le_trans [OF length_filter_le [of ?w V]] bs(3) by (auto simp: filter_empty_conv)
  have len: "length (concat (map vals bs) @ cv) < n"
    using n bs(3) length_filter_le [of ?w "Deduplicate ?F"] length_Deduplicate_le [of ?F] unfolding length_append bs(3) by linarith
  have ord: "ordered (concat (map vals bs))" and sk: "\<forall>x \<in> set (concat (map vals bs)). mn \<le> UnixNano x"
    unfolding bs(3) by (simp_all add: ordered_filter ordered_Deduplicate)
  obtain as where "read_all n (asc_Next raw key_source) (asc_Reset key_source N mn mx cv (newKeyCursor srt files key mn True)) = Inr as"
    "concat (map vals as) = filter (\<lambda>x. UnixNano x \<le> mx) (Deduplicate (concat (map vals bs) @ filter ?w cv))"
    using asc_query [OF drain_feeds [OF bs(1,2)] ord assms(4) sk cv assms(6) fit len] by blast
  moreover have "filter (\<lambda>x. UnixNano x \<le> mx) (Deduplicate (concat (map vals bs) @ filter ?w cv)) =
      filter (\<lambda>x. mn \<le> UnixNano x \<and> UnixNano x \<le> mx) V"
    unfolding V bs(3) by (rule filter_Deduplicate_append)
  ultimately show ?thesis by metis
qed

lemma desc_range:
  assumes "files_ok arr_wf vals key files" and "seek_ok False mx"
    and "sorts_by desc_Less (srt desc_Less) (fs_locations files key mx False)"
    and "ordered cv" and cv: "\<forall>v \<in> set cv. \<exists>x. v = mk (unixNano v) x" and "0 < N"
    and V: "V = Deduplicate (concat (map (file_values vals key) files) @ cv)"
    and n: "length (concat (map (file_values vals key) files) @ cv) < n"
  shows "\<exists>as. read_all n (desc_Next raw key_source) (desc_Reset key_source N mx mn cv (newKeyCursor srt files key mx False)) = Inr as \<and>
    concat (map vals as) = rev (filter (\<lambda>x. mn \<le> UnixNano x \<and> UnixNano x \<le> mx) V)"
proof -
  let ?F = "concat (map (file_values vals key) files)" and ?w = "\<lambda>x. UnixNano x \<le> mx"
  obtain bs where bs: "drain n array_ops (newKeyCursor srt files key mx False) = Inr bs" "\<forall>b \<in> set bs. arr_wf b"
    "concat (map vals (rev bs)) = filter ?w (Deduplicate ?F)"
    using series_container.drain_files [OF array_container [OF array_type_axioms] assms(1,2), of srt n] assms(3) n
    by (auto simp: wanted_def [abs_def])
  have len: "length (concat (map vals (rev bs))) = length (concat (map vals bs))" by (simp add: length_concat rev_map [symmetric])
  have mem: "set (concat (map vals bs)) = set (concat (map vals (rev bs)))" by simp
  have fuel: "length (concat (map vals bs) @ cv) < n"
    using n len [unfolded bs(3)] length_filter_le [of ?w "Deduplicate ?F"] length_Deduplicate_le [of ?F] unfolding length_append by linarith
  have ord: "ordered (concat (map vals (rev bs)))" and sk: "\<forall>x \<in> set (concat (map vals bs)). UnixNano x \<le> mx"
    unfolding mem bs(3) by (simp_all add: ordered_filter ordered_Deduplicate)
  obtain as where "read_all n (desc_Next raw key_source) (desc_Reset key_source N mx mn cv (newKeyCursor srt files key mx False)) = Inr as"
    "rev (concat (map vals as)) = filter (\<lambda>x. mn \<le> UnixNano x) (Deduplicate (concat (map vals (rev bs)) @ filter ?w cv))"
    using desc_query [OF drain_feeds [OF bs(1,2)] ord assms(4) sk cv assms(6) fuel] by blast
  then have "concat (map vals as) = rev (filter (\<lambda>x. mn \<le> UnixNano x) (Deduplicate (filter ?w (Deduplicate ?F) @ filter ?w cv)))"
    unfolding bs(3) by (metis rev_rev_ident)
  moreover have "filter (\<lambda>x. mn \<le> UnixNano x) (Deduplicate (filter ?w (Deduplicate ?F) @ filter ?w cv)) =
      filter (\<lambda>x. mn \<le> UnixNano x \<and> UnixNano x \<le> mx) V"
    unfolding V using filter_Deduplicate_append [where P = "\<lambda>t. t \<le> mx" and Q = "\<lambda>t. mn \<le> t"] by (simp add: conj_commute)
  ultimately show ?thesis using \<open>read_all n _ _ = Inr as\<close> by metis
qed

end






lemma strip_id: "(\<And>q. q \<in> set p \<Longrightarrow> \<not> P (sint (fst q))) \<Longrightarrow> strip P p = p"
  unfolding strip_def by (cases "rev p") (auto simp: rev_swap)

context cursor_type
begin

lemma redelivers:
  assumes b: "arr_wf b" "arr_Len b = n" "1 < n" "so_Read src kc = Inr (b, s)"
    and t: "\<forall>y \<in> set (ar_ts b). sint t < sint y \<and> sint y \<le> e" and sk: "seek \<le> sint t"
  shows "\<exists>c1 c2 a1 a2. asc_Next raw src (asc_Reset src n seek e [mk t x] kc) = Inr (a1, c1) \<and> asc_Next raw src c1 = Inr (a2, c2) \<and>
    vals a1 = mk t x # take (n - 1) (vals b) \<and> vals a2 = vals b"
proof -
  define c0 where "c0 = \<lparr>ac_cvals = [mk t x], ac_cpos = 0, ac_tvals = Some b, ac_tpos = 0, ac_keyCursor = s, ac_end = e, ac_cap = n\<rparr>"
  define c1 where "c1 = c0\<lparr>ac_cpos := 1, ac_tpos := int (n - 1)\<rparr>"
  let ?z = "zip (ar_ts b) (ar_vs b)"
  have len: "length (ar_ts b) = n" "length (ar_vs b) = n" using b(1,2) by (simp_all add: arr_wf_def arr_Len_def)
  have y: "sint t < sint (ar_ts b ! i) \<and> sint (ar_ts b ! i) \<le> e" if "i < n" for i
    using t that len(1) nth_mem [of i "ar_ts b"] by auto
  have "asc_Reset src n seek e [mk t x] kc = c0"
  proof -
    have "sort_Search (\<lambda>i. seek \<le> UnixNano ([mk t x] ! i)) 0 1 = 0" using sk by (intro search_all) (simp add: UnixNano_def)
    moreover have "sort_Search (\<lambda>i. seek \<le> sint (ar_ts b ! i)) 0 n = 0" using y sk by (intro search_all) force
    ultimately show ?thesis using b(2,4) by (simp add: asc_Reset_def c0_def)
  qed
  moreover have "asc_Next raw src c0 = Inr (to_array ((t, x) # take (n - 1) ?z), c1)"
  proof -
    have "asc_loop raw src n c0 [] = asc_loop raw src n (c0\<lparr>ac_cpos := 1\<rparr>) [(t, x)]"
      using b(2,3) y [of 0] by (subst asc_loop.simps) (simp add: c0_def asc_step_def cache_value_def UnixNano_def)
    also have "\<dots> = Inr (c0\<lparr>ac_cpos := 1\<rparr>, [(t, x)])" by (subst asc_loop.simps) (simp add: c0_def)
    finally have "asc_loop raw src n c0 [] = Inr (c0\<lparr>ac_cpos := 1\<rparr>, [(t, x)])" .
    moreover have "asc_copy src n (c0\<lparr>ac_cpos := 1\<rparr>) [(t, x)] = Inr (c1, (t, x) # take (n - 1) ?z)"
      using b(2,3) by (simp add: asc_copy_def c0_def c1_def Let_def take_zip)
    moreover have "asc_cache_loop raw n c1 out = Inr (c1, out)" for out by (subst asc_cache_loop.simps) (simp add: c1_def c0_def)
    moreover have "strip (\<lambda>t. t > e) ((t, x) # take (n - 1) ?z) = (t, x) # take (n - 1) ?z"
    proof (rule strip_id)
      fix q assume "q \<in> set ((t, x) # take (n - 1) ?z)"
      then have "q = (t, x) \<or> q \<in> set ?z" by (auto dest: in_set_takeD)
      then have "fst q = t \<or> fst q \<in> set (ar_ts b)" by (cases q) (auto dest: set_zip_leftD)
      then show "\<not> sint (fst q) > e" using t y [of 0] b(3) by auto
    qed
    ultimately show ?thesis using b(3) by (simp add: asc_Next_def c0_def)
  qed
  moreover have "asc_Next raw src c1 = Inr (to_array ?z, asc_nextSST src c1)"
  proof -
    have "asc_loop raw src n c1 [] = Inr (c1, [])" using b(2,3) by (subst asc_loop.simps) (simp add: c1_def c0_def)
    moreover have "asc_copy src n c1 [] = Inr (asc_nextSST src c1, ?z)" using b(2,3) by (simp add: asc_copy_def c1_def c0_def)
    moreover have "asc_cache_loop raw n (asc_nextSST src c1) ?z = Inr (asc_nextSST src c1, ?z)" using len by (subst asc_cache_loop.simps) simp
    moreover have "strip (\<lambda>t. t > e) ?z = ?z" by (rule strip_id) (use t in \<open>fastforce dest: set_zip_leftD\<close>)
    ultimately show ?thesis using b(3) by (simp add: asc_Next_def c1_def c0_def)
  qed
  moreover have "pairs mk ?z = vals b" "pairs mk (take (n - 1) ?z) = take (n - 1) (vals b)"
    by (simp_all add: pairs_def arr_values_def take_map)
  ultimately show ?thesis
    by (intro exI [of _ c1] exI [of _ "asc_nextSST src c1"] exI [of _ "to_array ((t, x) # take (n - 1) ?z)"] exI [of _ "to_array ?z"]) simp
qed

end

text \<open>
  C35: An ascending cursor delivers values twice. A cached value before a block that just fits the array leaves the last
  value of the block for the second call, which copies the whole block again.
\<close>

theorem ascending_cursor_redelivers:
  assumes "cursor_type mk raw" and "arr_wf b" and "arr_Len b = n" and "1 < n" and "so_Read src kc = Inr (b, s)"
    and "\<forall>y \<in> set (ar_ts b). sint t < sint y \<and> sint y \<le> e" and "seek \<le> sint t"
  shows "\<exists>c1 c2 a1 a2. asc_Next raw src (asc_Reset src n seek e [mk t x] kc) = Inr (a1, c1) \<and> asc_Next raw src c1 = Inr (a2, c2) \<and>
    arr_values mk a1 = mk t x # take (n - 1) (arr_values mk b) \<and> arr_values mk a2 = arr_values mk b"
  using cursor_type.redelivers [OF assms] .

theorem ascending_cursor_redelivers_witness:
  "\<exists>c1 c2 a1 a2. asc_Next FloatValue_RawValue key_source
       (asc_Reset key_source 2 0 9 [FloatValue 1 10] (newKeyCursor insertion_sort [example_file [1] ([2, 3], [20, 30]) []] [7] 1 True)) = Inr (a1, c1) \<and>
     asc_Next FloatValue_RawValue key_source c1 = Inr (a2, c2) \<and>
     arr_values FloatValue a1 = [FloatValue 1 10, FloatValue 2 20] \<and> arr_values FloatValue a2 = [FloatValue 2 20, FloatValue 3 30]"
proof -
  let ?b = "\<lparr>ar_ts = [2, 3], ar_vs = [20, 30]\<rparr> :: FloatArray"
  let ?kc = "newKeyCursor insertion_sort [example_file [1] ([2, 3], [20, 30]) []] [7] 1 True"
  obtain s where s: "so_Read key_source ?kc = Inr (?b, s)"
    by (simp add: key_source_def newKeyCursor_def kc_seek_def seekAscending_def seek_step_def lo_contains_def read_block_def array_ops_def
      excludeTombstones_def arr_Exclude_def arr_FindRange_def arr_MinTime_def arr_MaxTime_def arr_Len_def insertion_sort_def fs_locations_def
      entry_wanted_def new_location_def example_file_def Let_def i64_def min_i64_def)
  have "arr_wf ?b" "arr_Len ?b = 2" by (simp_all add: arr_wf_def arr_Len_def)
  from ascending_cursor_redelivers [OF float_cursor.cursor_type_axioms this _ s, where seek = 0 and t = 1 and e = 9 and x = 10]
  show ?thesis by (simp add: arr_values_def)
qed

end
