(* ===== verification/Tombstone.thy ===== *)
theory Tombstone
  imports SstDelete
begin

text \<open>
  Deletions in an SST file: the tombstone file of \<open>storage/store/tombstone.go\<close>, the batches of deletions of
  \<open>sst_batch_deleter.go\<close> and the deleting methods of \<open>SSTReader\<close> in \<open>sst_reader.go\<close>, over the index of \<open>SstRead\<close>.
  A tombstone file is its contents, \<open>None\<close> where there is none. The methods of gzip are the parameters \<open>gz\<close> and
  \<open>gunzip\<close>, and \<open>None\<close> is data gzip refuses; the calls to the file system are taken to succeed.
\<close>

section \<open>The tombstone file\<close>

record Tombstone =
  ts_Key :: bytes
  ts_Min :: u64
  ts_Max :: u64

record Tombstoner =
  tb_Path :: bytes
  tb_tombstones :: "Tombstone list"
  tb_file :: "bytes option"

definition tombHeader :: u32 where
  "tombHeader = 0x1503"

definition headerSize :: nat where
  "headerSize = 4"

definition doWriteTombstone :: "Tombstone \<Rightarrow> bytes" where
  "doWriteTombstone ts = put_u32 (of_nat (length (ts_Key ts))) @ ts_Key ts @ put_u64 (ts_Min ts) @ put_u64 (ts_Max ts)"

text \<open>\<open>writeTombstone\<close> with the commit at its end: a new file that takes the place of the old one.\<close>

definition writeTombstone :: "(bytes \<Rightarrow> bytes) \<Rightarrow> Tombstone list \<Rightarrow> Tombstoner \<Rightarrow> Tombstoner" where
  "writeTombstone gz tombstones t =
     t\<lparr>tb_file := Some (put_u32 tombHeader @ gz (concat (map doWriteTombstone tombstones))), tb_tombstones := []\<rparr>"

definition tb_AddRange :: "(bytes \<Rightarrow> bytes) \<Rightarrow> (bytes \<Rightarrow> bool) \<Rightarrow> bytes list \<Rightarrow> u64 \<Rightarrow> u64 \<Rightarrow> Tombstoner \<Rightarrow> Tombstoner" where
  "tb_AddRange gz FilterFn keys mn mx t =
     (let keys' = dropWhile (\<lambda>k. \<not> FilterFn k) keys
      in if keys' = [] then t
         else if tb_Path t = [] then t
         else let tombstones = tb_tombstones t @ map (\<lambda>k. \<lparr>ts_Key = k, ts_Min = mn, ts_Max = mx\<rparr>) (filter FilterFn keys')
              in writeTombstone gz tombstones (t\<lparr>tb_tombstones := tombstones\<rparr>))"

definition tb_Add :: "(bytes \<Rightarrow> bytes) \<Rightarrow> (bytes \<Rightarrow> bool) \<Rightarrow> bytes list \<Rightarrow> Tombstoner \<Rightarrow> Tombstoner" where
  "tb_Add gz FilterFn keys t = tb_AddRange gz FilterFn keys (word_of_int (- (2 ^ 63))) (word_of_int (2 ^ 63 - 1)) t"

definition tb_Delete :: "Tombstoner \<Rightarrow> Tombstoner" where
  "tb_Delete t = t\<lparr>tb_file := None\<rparr>"

definition tb_HasTombstones :: "Tombstoner \<Rightarrow> bool" where
  "tb_HasTombstones t \<longleftrightarrow> tb_tombstones t \<noteq> []"

text \<open>\<open>io.ReadFull\<close> from what gzip has left.\<close>

definition read_full :: "nat \<Rightarrow> bytes \<Rightarrow> (bytes \<times> bytes) result" where
  "read_full n b = (if length b < n then Inl ErrEOF else Inr (take n b, drop n b))"

function read_tombs :: "bytes \<Rightarrow> Tombstone list result" where
  "read_tombs b =
     (if length b < 4 then Inr []
      else bind_result (read_full (unat (get_u32 (take 4 b))) (drop 4 b)) (\<lambda>(key, b1).
           if length b1 < 8 then Inl ErrEOF
           else if length (drop 8 b1) < 8 then Inl ErrEOF
           else if length (drop 16 b1) < length b
           then bind_result (read_tombs (drop 16 b1)) (\<lambda>ts.
             Inr (\<lparr>ts_Key = key, ts_Min = get_u64 (take 8 b1), ts_Max = get_u64 (take 8 (drop 8 b1))\<rparr> # ts))
           else Inl Diverged))"
  by pat_completeness auto
termination by (relation "measure length") auto

declare read_tombs.simps [simp del]

text \<open>\<open>Walk\<close>, with the tombstones it calls \<open>fn\<close> for as its result.\<close>

definition tb_Walk :: "(bytes \<Rightarrow> bytes option) \<Rightarrow> Tombstoner \<Rightarrow> Tombstone list result" where
  "tb_Walk gunzip t =
     (case tb_file t of
        None \<Rightarrow> Inr []
      | Some f \<Rightarrow>
          (case gunzip (drop headerSize f) of
             None \<Rightarrow> Inl ErrBadTombstone
           | Some b \<Rightarrow> bind_result (read_tombs b) (\<lambda>ts. Inr (ts @ tb_tombstones t))))"

section \<open>Deletions through the reader\<close>

record SSTReader =
  sr_index :: indirectIndex
  sr_tombstoner :: Tombstoner

definition maxBatch :: nat where
  "maxBatch = 4096"

text \<open>The callback of \<open>applyTombstones\<close>, and the rest of the batch behind it.\<close>

fun apply_walk :: "Tombstone list \<Rightarrow> bytes list \<Rightarrow> Tombstone \<Rightarrow> indirectIndex \<Rightarrow> indirectIndex result" where
  "apply_walk [] batch cur d = (if batch \<noteq> [] then xi_DeleteRange batch (ts_Min cur) (ts_Max cur) d else Inr d)"
| "apply_walk (ts # rest) batch prev d =
     bind_result
       (if batch \<noteq> [] \<and> (ts_Min prev \<noteq> ts_Min ts \<or> ts_Max prev \<noteq> ts_Max ts)
        then bind_result (xi_DeleteRange batch (ts_Min prev) (ts_Max prev) d) (\<lambda>d'. Inr ([], d')) else Inr (batch, d)) (\<lambda>(batch1, d1).
     let batch2 = batch1 @ [ts_Key ts]
     in bind_result
       (if length batch2 \<ge> maxBatch
        then bind_result (xi_DeleteRange batch2 (ts_Min prev) (ts_Max prev) d1) (\<lambda>d'. Inr ([], d')) else Inr (batch2, d1)) (\<lambda>(batch3, d2).
     apply_walk rest batch3 ts d2))"

definition applyTombstones :: "(bytes \<Rightarrow> bytes option) \<Rightarrow> SSTReader \<Rightarrow> SSTReader result" where
  "applyTombstones gunzip r =
     bind_result (tb_Walk gunzip (sr_tombstoner r)) (\<lambda>ts.
     bind_result (apply_walk ts [] \<lparr>ts_Key = [], ts_Min = 0, ts_Max = 0\<rparr> (sr_index r)) (\<lambda>d. Inr (r\<lparr>sr_index := d\<rparr>)))"

definition batch_DeleteRange :: "(bytes \<Rightarrow> bytes) \<Rightarrow> bytes list \<Rightarrow> u64 \<Rightarrow> u64 \<Rightarrow> SSTReader \<Rightarrow> SSTReader" where
  "batch_DeleteRange gz keys minTime maxTime r =
     (if keys = [] then r
      else if \<not> xi_OverlapsKeyRange (keys ! 0) (keys ! (length keys - 1)) (sr_index r) then r
      else if \<not> xi_OverlapsTimeRange minTime maxTime (sr_index r) then r
      else r\<lparr>sr_tombstoner := tb_AddRange gz (\<lambda>k. xi_ContainsKey k (sr_index r)) keys minTime maxTime (sr_tombstoner r)\<rparr>)"

text \<open>\<open>Flush\<close> has nothing left to write.\<close>

definition batch_Commit :: "(bytes \<Rightarrow> bytes option) \<Rightarrow> SSTReader \<Rightarrow> SSTReader result" where
  "batch_Commit gunzip r = applyTombstones gunzip r"

definition sr_DeleteRange :: "(bytes \<Rightarrow> bytes) \<Rightarrow> (bytes \<Rightarrow> bytes option) \<Rightarrow> bytes list \<Rightarrow> u64 \<Rightarrow> u64 \<Rightarrow> SSTReader \<Rightarrow> SSTReader result" where
  "sr_DeleteRange gz gunzip keys minTime maxTime r =
     (if keys = [] then Inr r else batch_Commit gunzip (batch_DeleteRange gz keys minTime maxTime r))"

definition sr_Delete :: "(bytes \<Rightarrow> bytes) \<Rightarrow> bytes list \<Rightarrow> SSTReader \<Rightarrow> SSTReader result" where
  "sr_Delete gz keys r =
     bind_result (xi_Delete keys (sr_index r)) (\<lambda>d.
       Inr (r\<lparr>sr_tombstoner := tb_Add gz (\<lambda>k. xi_ContainsKey k (sr_index r)) keys (sr_tombstoner r), sr_index := d\<rparr>))"

text \<open>Opening a file whose index is \<open>d\<close> and whose tombstone file has the contents \<open>f\<close>.\<close>

definition NewSSTReader :: "(bytes \<Rightarrow> bytes option) \<Rightarrow> bytes \<Rightarrow> indirectIndex \<Rightarrow> bytes option \<Rightarrow> SSTReader result" where
  "NewSSTReader gunzip path d f =
     applyTombstones gunzip \<lparr>sr_index = d, sr_tombstoner = \<lparr>tb_Path = path, tb_tombstones = [], tb_file = f\<rparr>\<rparr>"

text \<open>A batch, as \<open>Engine.DeleteRange\<close> uses it: calls of \<open>DeleteRange\<close> and one \<open>Commit\<close>.\<close>

definition run_batch ::
  "(bytes \<Rightarrow> bytes) \<Rightarrow> (bytes \<Rightarrow> bytes option) \<Rightarrow> (bytes list \<times> u64 \<times> u64) list \<Rightarrow> SSTReader \<Rightarrow> SSTReader result" where
  "run_batch gz gunzip ops r = batch_Commit gunzip (fold (\<lambda>(keys, mn, mx). batch_DeleteRange gz keys mn mx) ops r)"

section \<open>What the file holds\<close>

definition small_keys :: "Tombstone list \<Rightarrow> bool" where
  "small_keys ts \<longleftrightarrow> (\<forall>u \<in> set ts. length (ts_Key u) < 2 ^ 32)"

lemma read_tombs_written: "small_keys ts \<Longrightarrow> read_tombs (concat (map doWriteTombstone ts)) = Inr ts"
proof (induction ts)
  case Nil
  show ?case by (subst read_tombs.simps) simp
next
  case (Cons u ts)
  have n: "unat (of_nat (length (ts_Key u)) :: u32) = length (ts_Key u)"
    using Cons.prems by (simp add: small_keys_def unat_of_nat take_bit_nat_eq_self)
  have IH: "read_tombs (concat (map doWriteTombstone ts)) = Inr ts" using Cons by (simp add: small_keys_def)
  show ?case
    by (subst read_tombs.simps) (simp add: doWriteTombstone_def n read_full_def IH)
qed

text \<open>Whatever the file held, after \<open>AddRange\<close> it holds the tombstones of that call only.\<close>

lemma Walk_AddRange:
  assumes gz: "\<And>x. gunzip (gz x) = Some x" and "tb_tombstones t = []" and "tb_Path t \<noteq> []" and "\<forall>k \<in> set keys. length k < 2 ^ 32"
    and "\<exists>k \<in> set keys. F k"
  shows "tb_Walk gunzip (tb_AddRange gz F keys mn mx t) = Inr (map (\<lambda>k. \<lparr>ts_Key = k, ts_Min = mn, ts_Max = mx\<rparr>) (filter F keys)) \<and>
    tb_tombstones (tb_AddRange gz F keys mn mx t) = [] \<and> tb_Path (tb_AddRange gz F keys mn mx t) = tb_Path t"
proof -
  let ?ts = "map (\<lambda>k. \<lparr>ts_Key = k, ts_Min = mn, ts_Max = mx\<rparr>) (filter F keys)"
  have d: "dropWhile (\<lambda>k. \<not> F k) keys \<noteq> []" using assms(5) by (auto simp: dropWhile_eq_Nil_conv)
  have f: "filter F (dropWhile (\<lambda>k. \<not> F k) keys) = filter F keys"
    by (induction keys) auto
  have "small_keys ?ts" using assms(4) by (auto simp: small_keys_def)
  note r = read_tombs_written [OF this]
  have eq: "tb_AddRange gz F keys mn mx t = writeTombstone gz ?ts (t\<lparr>tb_tombstones := ?ts\<rparr>)"
    unfolding tb_AddRange_def Let_def f assms(2) append_Nil using d assms(3) by (simp only: if_False)
  show ?thesis unfolding eq using r by (simp add: writeTombstone_def tb_Walk_def headerSize_def gz)
qed

section \<open>Applying the tombstones\<close>

definition ts_deletes :: "bytes \<Rightarrow> u64 \<Rightarrow> Tombstone \<Rightarrow> bool" where
  "ts_deletes k t u \<longleftrightarrow> k = ts_Key u \<and> sint (ts_Min u) \<le> sint t \<and> sint t \<le> sint (ts_Max u)"

text \<open>The calls of \<open>DeleteRange\<close> that \<open>applyTombstones\<close> makes delete together what the tombstones delete.\<close>

lemma delete_ranges_append:
  "delete_ranges (xs @ ys) d = bind_result (delete_ranges xs d) (delete_ranges ys)"
  by (induction xs arbitrary: d) (auto simp: bind_result_def split: sum.split prod.split)

lemma op_deletes_snoc:
  "op_deletes k t (batch @ [ts_Key u], ts_Min u, ts_Max u) \<longleftrightarrow> op_deletes k t (batch, ts_Min u, ts_Max u) \<or> ts_deletes k t u"
  by (auto simp: op_deletes_def ts_deletes_def)

lemma apply_walk_calls:
  "length batch < maxBatch \<Longrightarrow>
   \<exists>calls. (\<forall>d. apply_walk ts batch prev d = delete_ranges calls d) \<and>
     (\<forall>k t. list_ex (op_deletes k t) calls \<longleftrightarrow> op_deletes k t (batch, ts_Min prev, ts_Max prev) \<or> list_ex (ts_deletes k t) ts)"
proof (induction ts arbitrary: batch prev)
  case Nil
  show ?case
  proof (cases "batch = []")
    case True
    then show ?thesis by (intro exI [of _ "[]"]) (simp add: op_deletes_def)
  next
    case False
    then show ?thesis by (intro exI [of _ "[(batch, ts_Min prev, ts_Max prev)]"]) (simp add: bind_result_def split: sum.split)
  qed
next
  case (Cons u ts)
  define flush where "flush \<longleftrightarrow> batch \<noteq> [] \<and> (ts_Min prev \<noteq> ts_Min u \<or> ts_Max prev \<noteq> ts_Max u)"
  define c1 where "c1 = (if flush then [(batch, ts_Min prev, ts_Max prev)] else [])"
  define b2 where "b2 = (if flush then [] else batch) @ [ts_Key u]"
  define full where "full \<longleftrightarrow> length b2 \<ge> maxBatch"
  define c2 where "c2 = (if full then [(b2, ts_Min prev, ts_Max prev)] else [])"
  define b3 where "b3 = (if full then [] else b2)"
  have same: "ts_Min prev = ts_Min u \<and> ts_Max prev = ts_Max u" if full
    using that by (auto simp: full_def b2_def flush_def maxBatch_def split: if_splits)
  have "length b3 < maxBatch" by (auto simp: b3_def full_def maxBatch_def)
  from Cons.IH [OF this, of u] obtain calls where calls: "\<And>d. apply_walk ts b3 u d = delete_ranges calls d"
    "\<And>k t. list_ex (op_deletes k t) calls \<longleftrightarrow> op_deletes k t (b3, ts_Min u, ts_Max u) \<or> list_ex (ts_deletes k t) ts" by blast
  have "apply_walk (u # ts) batch prev d = delete_ranges (c1 @ c2 @ calls) d" for d
    by (auto simp: delete_ranges_append c1_def c2_def b2_def b3_def flush_def full_def Let_def calls(1) [symmetric] bind_result_def split: sum.split)
  moreover have "list_ex (op_deletes k t) (c1 @ c2 @ calls) \<longleftrightarrow>
      op_deletes k t (batch, ts_Min prev, ts_Max prev) \<or> list_ex (ts_deletes k t) (u # ts)" for k t
  proof -
    have e: "op_deletes k t ([], mn, mx) = False" for mn mx by (simp add: op_deletes_def)
    have two: "list_ex (op_deletes k t) c2 \<or> op_deletes k t (b3, ts_Min u, ts_Max u) \<longleftrightarrow> op_deletes k t (b2, ts_Min u, ts_Max u)"
      using same e by (auto simp: c2_def b3_def)
    have "op_deletes k t (b2, ts_Min u, ts_Max u) \<longleftrightarrow> \<not> flush \<and> op_deletes k t (batch, ts_Min u, ts_Max u) \<or> ts_deletes k t u"
      unfolding b2_def op_deletes_snoc using e by auto
    moreover have "\<not> flush \<Longrightarrow> op_deletes k t (batch, ts_Min u, ts_Max u) = op_deletes k t (batch, ts_Min prev, ts_Max prev)"
      using e by (auto simp: flush_def)
    ultimately show ?thesis using two calls(2) [of k t] by (auto simp: c1_def)
  qed
  ultimately show ?case by blast
qed

text \<open>The tombstones a reader finds in its file.\<close>

definition holds_tombs :: "(bytes \<Rightarrow> bytes option) \<Rightarrow> Tombstoner \<Rightarrow> Tombstone list \<Rightarrow> bool" where
  "holds_tombs gunzip t ts \<longleftrightarrow> tb_Walk gunzip t = Inr ts \<and> tb_tombstones t = [] \<and> tb_Path t \<noteq> []"

lemma Walk_cong:
  assumes "tb_file t = tb_file u" and "tb_tombstones t = tb_tombstones u"
  shows "tb_Walk gunzip t = tb_Walk gunzip u"
  unfolding tb_Walk_def assms ..

lemma applyTombstones_exact:
  assumes "index_inv (sr_index r) ls" and "holds_tombs gunzip (sr_tombstoner r) ts"
  shows "\<exists>r'. applyTombstones gunzip r = Inr r' \<and> sr_tombstoner r' = sr_tombstoner r \<and>
    (\<exists>ls'. index_inv (sr_index r') ls') \<and>
    (\<forall>k t. xi_ContainsValue k t (sr_index r') = Inr (xi_ContainsValue k t (sr_index r) = Inr True \<and> \<not> list_ex (ts_deletes k t) ts))"
proof -
  obtain calls where calls: "\<And>d. apply_walk ts [] \<lparr>ts_Key = [], ts_Min = 0, ts_Max = 0\<rparr> d = delete_ranges calls d"
    "\<And>k t. list_ex (op_deletes k t) calls \<longleftrightarrow> list_ex (ts_deletes k t) ts"
    using apply_walk_calls [of "[]" ts "\<lparr>ts_Key = [], ts_Min = 0, ts_Max = 0\<rparr>"] by (auto simp: maxBatch_def op_deletes_def)
  obtain d' ls' where d': "delete_ranges calls (sr_index r) = Inr d'" "index_inv d' ls'"
    "\<And>k t. holds_time ls' k t \<and> \<not> deleted_at d' k t \<longleftrightarrow>
      holds_time ls k t \<and> \<not> deleted_at (sr_index r) k t \<and> \<not> list_ex (op_deletes k t) calls"
    using delete_ranges_inv [OF assms(1), of calls] by blast
  have "xi_ContainsValue k t d' = Inr (xi_ContainsValue k t (sr_index r) = Inr True \<and> \<not> list_ex (ts_deletes k t) ts)" for k t
    using ContainsValue_eq [of d' ls' k t] ContainsValue_eq [of "sr_index r" ls k t] d'(2) d'(3) [of k t] assms(1) calls(2)
    by (simp add: index_inv_def)
  then show ?thesis
    using assms(2) d'(1,2) calls(1) by (auto simp: applyTombstones_def holds_tombs_def)
qed

section \<open>What a batch deletes\<close>

text \<open>A call of a batch that writes tombstones.\<close>

definition writes_tombs :: "indirectIndex \<Rightarrow> bytes list \<times> u64 \<times> u64 \<Rightarrow> bool" where
  "writes_tombs d = (\<lambda>(keys, mn, mx). keys \<noteq> [] \<and> xi_OverlapsKeyRange (keys ! 0) (keys ! (length keys - 1)) d \<and>
     xi_OverlapsTimeRange mn mx d \<and> list_ex (\<lambda>k. xi_ContainsKey k d) keys)"

definition tombs_of :: "indirectIndex \<Rightarrow> bytes list \<times> u64 \<times> u64 \<Rightarrow> Tombstone list" where
  "tombs_of d = (\<lambda>(keys, mn, mx). map (\<lambda>k. \<lparr>ts_Key = k, ts_Min = mn, ts_Max = mx\<rparr>) (filter (\<lambda>k. xi_ContainsKey k d) keys))"

lemma batch_step:
  assumes "\<And>x. gunzip (gz x) = Some x" and "holds_tombs gunzip (sr_tombstoner r) ts" and "\<forall>k \<in> set keys. length k < 2 ^ 32"
  shows "holds_tombs gunzip (sr_tombstoner (batch_DeleteRange gz keys mn mx r))
      (if writes_tombs (sr_index r) (keys, mn, mx) then tombs_of (sr_index r) (keys, mn, mx) else ts) \<and>
    sr_index (batch_DeleteRange gz keys mn mx r) = sr_index r"
proof (cases "writes_tombs (sr_index r) (keys, mn, mx)")
  case True
  have h: "tb_tombstones (sr_tombstoner r) = []" "tb_Path (sr_tombstoner r) \<noteq> []" using assms(2) by (simp_all add: holds_tombs_def)
  have "\<exists>k \<in> set keys. xi_ContainsKey k (sr_index r)" using True by (simp add: writes_tombs_def list_ex_iff)
  from Walk_AddRange [where gunzip = gunzip and gz = gz, OF assms(1) h assms(3) this, of mn mx] h(2) True
  show ?thesis by (simp add: batch_DeleteRange_def writes_tombs_def tombs_of_def holds_tombs_def)
next
  case False
  have "tb_AddRange gz (\<lambda>k. xi_ContainsKey k (sr_index r)) keys mn mx (sr_tombstoner r) = sr_tombstoner r"
    if "\<not> list_ex (\<lambda>k. xi_ContainsKey k (sr_index r)) keys"
    using that by (simp add: tb_AddRange_def list_ex_iff dropWhile_eq_Nil_conv)
  then show ?thesis using False assms(2) by (auto simp: batch_DeleteRange_def writes_tombs_def)
qed

lemma batch_steps:
  assumes "\<And>x. gunzip (gz x) = Some x" and "\<forall>(keys, mn, mx) \<in> set ops. \<forall>k \<in> set keys. length k < 2 ^ 32"
    and "holds_tombs gunzip (sr_tombstoner r) ts"
  shows "\<exists>r'. fold (\<lambda>(keys, mn, mx). batch_DeleteRange gz keys mn mx) ops r = r' \<and> sr_index r' = sr_index r \<and>
    holds_tombs gunzip (sr_tombstoner r') (case rev (filter (writes_tombs (sr_index r)) ops) of [] \<Rightarrow> ts | p # _ \<Rightarrow> tombs_of (sr_index r) p)"
  using assms(2)
proof (induction ops rule: rev_induct)
  case (snoc p ops)
  obtain keys mn mx where p: "p = (keys, mn, mx)" by (cases p)
  let ?r = "fold (\<lambda>(keys, mn, mx). batch_DeleteRange gz keys mn mx) ops r"
  have h: "sr_index ?r = sr_index r" "holds_tombs gunzip (sr_tombstoner ?r)
      (case rev (filter (writes_tombs (sr_index r)) ops) of [] \<Rightarrow> ts | p # _ \<Rightarrow> tombs_of (sr_index r) p)"
    using snoc by auto
  have "\<forall>k \<in> set keys. length k < 2 ^ 32" using snoc.prems by (simp add: p)
  from batch_step [where gunzip = gunzip and gz = gz, OF assms(1) h(2) this, of mn mx, unfolded h(1)] show ?case
    by (cases "writes_tombs (sr_index r) p") (simp_all add: p)
qed (use assms(3) in simp)

lemma deletes_tombs_of: "list_ex (ts_deletes k t) (tombs_of d p) \<longleftrightarrow> xi_ContainsKey k d \<and> op_deletes k t p"
  by (auto simp: tombs_of_def ts_deletes_def op_deletes_def list_ex_iff split: prod.split)

text \<open>
  C36: A batch of deletions deletes what its last call asks for and nothing else. Each call that finds keys of the file
  replaces the tombstones that the calls before it wrote, and the commit applies what is then in the tombstone file.
  When the file is opened again, the deletions of all earlier batches are gone too.
\<close>

theorem batch_deletes_last_call:
  assumes "\<forall>x. gunzip (gz x) = Some x" and "index_inv (sr_index r) ls" and "holds_tombs gunzip (sr_tombstoner r) ts"
    and "\<forall>(keys, mn, mx) \<in> set ops. \<forall>k \<in> set keys. length k < 2 ^ 32"
    and "filter (writes_tombs (sr_index r)) ops = before @ [p]" and "index_inv d0 ls0"
  shows "\<exists>r' r''. run_batch gz gunzip ops r = Inr r' \<and>
    (\<forall>k t. xi_ContainsValue k t (sr_index r') =
       Inr (xi_ContainsValue k t (sr_index r) = Inr True \<and> \<not> (xi_ContainsKey k (sr_index r) \<and> op_deletes k t p))) \<and>
    NewSSTReader gunzip (tb_Path (sr_tombstoner r)) d0 (tb_file (sr_tombstoner r')) = Inr r'' \<and>
    (\<forall>k t. xi_ContainsValue k t (sr_index r'') =
       Inr (xi_ContainsValue k t d0 = Inr True \<and> \<not> (xi_ContainsKey k (sr_index r) \<and> op_deletes k t p)))"
proof -
  have gz: "\<And>x. gunzip (gz x) = Some x" using assms(1) by blast
  let ?r1 = "fold (\<lambda>(keys, mn, mx). batch_DeleteRange gz keys mn mx) ops r"
  have r1: "sr_index ?r1 = sr_index r" "holds_tombs gunzip (sr_tombstoner ?r1) (tombs_of (sr_index r) p)"
    using batch_steps [where gunzip = gunzip and gz = gz, OF gz assms(4,3)] assms(5) by auto
  obtain r' where r': "applyTombstones gunzip ?r1 = Inr r'" "sr_tombstoner r' = sr_tombstoner ?r1"
    "\<And>k t. xi_ContainsValue k t (sr_index r') =
      Inr (xi_ContainsValue k t (sr_index r) = Inr True \<and> \<not> (xi_ContainsKey k (sr_index r) \<and> op_deletes k t p))"
    using applyTombstones_exact [of ?r1 ls, OF _ r1(2)] assms(2) unfolding r1(1) deletes_tombs_of by blast
  let ?n = "\<lparr>sr_index = d0, sr_tombstoner = \<lparr>tb_Path = tb_Path (sr_tombstoner r), tb_tombstones = [], tb_file = tb_file (sr_tombstoner r')\<rparr>\<rparr>"
  have N: "holds_tombs gunzip (sr_tombstoner ?n) (tombs_of (sr_index r) p)"
    using r1(2) assms(3) Walk_cong [of "sr_tombstoner ?n" "sr_tombstoner ?r1" gunzip] unfolding r'(2) by (simp add: holds_tombs_def)
  have "index_inv (sr_index ?n) ls0" using assms(6) by simp
  from applyTombstones_exact [OF this N] obtain r'' where "applyTombstones gunzip ?n = Inr r''"
    "\<And>k t. xi_ContainsValue k t (sr_index r'') =
      Inr (xi_ContainsValue k t d0 = Inr True \<and> \<not> (xi_ContainsKey k (sr_index r) \<and> op_deletes k t p))"
    unfolding deletes_tombs_of by auto
  then show ?thesis using r'(1,3) by (auto simp: run_batch_def batch_Commit_def NewSSTReader_def)
qed

text \<open>Of the two keys of a file only the second is deleted.\<close>

definition two_keys :: "sect list" where
  "two_keys = [([97], 1, [\<lparr>ix_MinTime = 1, ix_MaxTime = 5, ix_Offset = 5, ix_Size = 40\<rparr>]),
     ([98], 1, [\<lparr>ix_MinTime = 2, ix_MaxTime = 3, ix_Offset = 45, ix_Size = 40\<rparr>])]"

definition two_keys_reader :: SSTReader where
  "two_keys_reader = \<lparr>sr_index = loaded two_keys, sr_tombstoner = \<lparr>tb_Path = [49], tb_tombstones = [], tb_file = None\<rparr>\<rparr>"

lemma two_keys_inv: "index_inv (loaded two_keys) (layout 0 two_keys)"
  by (rule loaded_inv) (simp_all add: two_keys_def wf_index_def wf_sect_def sst_sizes index_bytes_def length_sect_bytes wf_times_def)

theorem batch_deletes_last_call_witness:
  "\<exists>r'. run_batch (\<lambda>b. b) Some [([[97]], 0, 9), ([[98]], 0, 9)] two_keys_reader = Inr r' \<and>
     xi_ContainsValue [97] 2 (sr_index r') = Inr True \<and> xi_ContainsValue [98] 2 (sr_index r') = Inr False"
proof -
  let ?r = two_keys_reader
  have at: "xi_ContainsValue k t (loaded two_keys) = Inr (\<exists>s \<in> set two_keys. sect_key s = k \<and> (\<exists>e \<in> set (sect_entries s). ix_Contains e t))" for k t
    using ContainsValue_eq [of "loaded two_keys" "layout 0 two_keys" k t] two_keys_inv look_layout [of two_keys k t]
    by (simp add: index_inv_def deleted_at_def xi_TombstoneRange_def loaded_def two_keys_def)
  have f: "filter (writes_tombs (sr_index ?r)) [([[97]], 0, 9), ([[98]], 0, 9)] = [([[97]], 0, 9)] @ [([[98]], 0, 9)]"
    by (simp add: writes_tombs_def two_keys_reader_def two_keys_def loaded_def xi_OverlapsKeyRange_def xi_OverlapsTimeRange_def xi_ContainsKey_def
      lower_time_def upper_time_def max_int64_def)
  have h: "holds_tombs Some (sr_tombstoner ?r) []" by (simp add: holds_tombs_def tb_Walk_def two_keys_reader_def)
  have i: "index_inv (sr_index ?r) (layout 0 two_keys)" using two_keys_inv by (simp add: two_keys_reader_def)
  have small: "\<forall>(keys, mn, mx) \<in> set [([[97]], 0, 9), ([[98]], 0, 9)]. \<forall>k \<in> set (keys :: bytes list). length k < 2 ^ 32" by simp
  obtain r' where "run_batch (\<lambda>b. b) Some [([[97]], 0, 9), ([[98]], 0, 9)] ?r = Inr r'"
    "\<And>k t. xi_ContainsValue k t (sr_index r') =
       Inr (xi_ContainsValue k t (sr_index ?r) = Inr True \<and> \<not> (xi_ContainsKey k (sr_index ?r) \<and> op_deletes k t ([[98]], 0, 9)))"
    using batch_deletes_last_call [of Some "\<lambda>b. b", OF _ i h small f i] by auto
  moreover have "xi_ContainsKey [98] (sr_index ?r)" by (simp add: two_keys_reader_def two_keys_def loaded_def xi_ContainsKey_def)
  ultimately show ?thesis
    using at by (simp add: two_keys_reader_def op_deletes_def) (simp add: two_keys_def ix_Contains_def)
qed

end
