(* ===== verification/GoSort.thy ===== *)
theory GoSort
  imports Prelude
begin

text \<open>
  \<open>sort.Stable\<close> of the Go library on a slice and the \<open>Less\<close> of its elements: runs of 20 elements are sorted by insertion and
  then merged in place, pairs of runs first, with the recursive \<open>symMerge\<close>. On elements whose \<open>Less\<close> is not a weak
  order the result depends on these steps, so they are those of the library; exchanging two adjacent parts of the slice, which the library does by
  rotating them, is one step here.
\<close>

section \<open>Insertion sort\<close>

text \<open>\<open>insert_back\<close> works on the sorted prefix, last element first.\<close>

fun insert_back :: "('a \<Rightarrow> 'a \<Rightarrow> bool) \<Rightarrow> 'a \<Rightarrow> 'a list \<Rightarrow> 'a list" where
  "insert_back ls x [] = [x]"
| "insert_back ls x (y # ys) = (if ls x y then y # insert_back ls x ys else x # y # ys)"

definition insertionSort :: "('a \<Rightarrow> 'a \<Rightarrow> bool) \<Rightarrow> 'a list \<Rightarrow> 'a list" where
  "insertionSort ls xs = rev (foldl (\<lambda>ys x. insert_back ls x ys) [] xs)"

definition blockSize :: nat where
  "blockSize = 20"

function sort_runs :: "('a \<Rightarrow> 'a \<Rightarrow> bool) \<Rightarrow> 'a list \<Rightarrow> 'a list" where
  "sort_runs ls xs =
     (if blockSize \<le> length xs then insertionSort ls (take blockSize xs) @ sort_runs ls (drop blockSize xs) else insertionSort ls xs)"
  by pat_completeness auto
termination by (relation "measure (\<lambda>(ls, xs). length xs)") (auto simp: blockSize_def)

declare sort_runs.simps [simp del]

section \<open>Merging\<close>

text \<open>The binary searches: the least index of \<open>[i, j)\<close> at which the test fails, if the test is monotone.\<close>

function bsearch :: "(nat \<Rightarrow> bool) \<Rightarrow> nat \<Rightarrow> nat \<Rightarrow> nat" where
  "bsearch test i j = (if i < j then let h = (i + j) div 2 in if test h then bsearch test (h + 1) j else bsearch test i h else i)"
  by pat_completeness auto
termination by (relation "measure (\<lambda>(test, i, j). j - i)") auto

declare bsearch.simps [simp del]

text \<open>The parts \<open>[a, m)\<close> and \<open>[m, b)\<close> change places.\<close>

definition rotate_parts :: "nat \<Rightarrow> nat \<Rightarrow> nat \<Rightarrow> 'a list \<Rightarrow> 'a list" where
  "rotate_parts a m b xs = take a xs @ drop m (take b xs) @ drop a (take m xs) @ drop b xs"

text \<open>Where the two halves of the slice that is to be sorted are split.\<close>

definition sym_start :: "('a \<Rightarrow> 'a \<Rightarrow> bool) \<Rightarrow> nat \<Rightarrow> nat \<Rightarrow> nat \<Rightarrow> 'a list \<Rightarrow> nat" where
  "sym_start ls a m b xs =
     (let mid = (a + b) div 2; n = mid + m;
          start = (if m > mid then n - b else a);
          r = (if m > mid then mid else m);
          p = n - 1
      in bsearch (\<lambda>c. \<not> ls (xs ! (p - c)) (xs ! c)) start r)"

definition sym_rotate :: "nat \<Rightarrow> nat \<Rightarrow> nat \<Rightarrow> 'a list \<Rightarrow> 'a list" where
  "sym_rotate start m end' xs = (if start < m \<and> m < end' then rotate_parts start m end' xs else xs)"

function symMerge :: "('a \<Rightarrow> 'a \<Rightarrow> bool) \<Rightarrow> nat \<Rightarrow> nat \<Rightarrow> nat \<Rightarrow> 'a list \<Rightarrow> 'a list" where
  "symMerge ls a m b xs =
     (if m - a = 1 then
        (let i = bsearch (\<lambda>h. ls (xs ! h) (xs ! a)) m b in rotate_parts a m i xs)
      else if b - m = 1 then
        (let i = bsearch (\<lambda>h. \<not> ls (xs ! m) (xs ! h)) a m in rotate_parts i m b xs)
      else
        let start = sym_start ls a m b xs; end' = (a + b) div 2 + m - start;
            xs1 = sym_rotate start m end' xs;
            xs2 = (if a < start \<and> start < (a + b) div 2 then symMerge ls a start ((a + b) div 2) xs1 else xs1)
        in if (a + b) div 2 < end' \<and> end' < b then symMerge ls ((a + b) div 2) end' b xs2 else xs2)"
  by pat_completeness auto
termination
proof (relation "measure (\<lambda>(ls, a, m, b, xs). b - a)", goal_cases)
  case 1
  show ?case by (rule wf_measure)
next
  case (2 ls a m b xs start end' xs1)
  have "a < (a + b) div 2" using 2(6) by linarith
  then have "(a + b) div 2 - a < b - a" by linarith
  then show ?case by (simp only: in_measure prod.case)
next
  case (3 ls a m b xs start end' xs1 xs2)
  have "(a + b) div 2 + 1 < b" using 3(7) by linarith
  then have "b - (a + b) div 2 < b - a" by linarith
  then show ?case by (simp only: in_measure prod.case)
qed

declare symMerge.simps [simp del]

text \<open>One pass over the runs of length \<open>bs\<close>, from index \<open>a\<close> on, and the passes.\<close>

function merge_pass :: "('a \<Rightarrow> 'a \<Rightarrow> bool) \<Rightarrow> nat \<Rightarrow> nat \<Rightarrow> nat \<Rightarrow> 'a list \<Rightarrow> 'a list" where
  "merge_pass ls bs n a xs =
     (if 0 < bs \<and> a + 2 * bs \<le> n then merge_pass ls bs n (a + 2 * bs) (symMerge ls a (a + bs) (a + 2 * bs) xs)
      else if a + bs < n then symMerge ls a (a + bs) n xs
      else xs)"
  by pat_completeness auto
termination by (relation "measure (\<lambda>(ls, bs, n, a, xs). n - a)") auto

declare merge_pass.simps [simp del]

function merge_runs :: "('a \<Rightarrow> 'a \<Rightarrow> bool) \<Rightarrow> nat \<Rightarrow> nat \<Rightarrow> 'a list \<Rightarrow> 'a list" where
  "merge_runs ls bs n xs = (if 0 < bs \<and> bs < n then merge_runs ls (2 * bs) n (merge_pass ls bs n 0 xs) else xs)"
  by pat_completeness auto
termination by (relation "measure (\<lambda>(ls, bs, n, xs). n - bs)") auto

declare merge_runs.simps [simp del]

definition sort_Stable :: "('a \<Rightarrow> 'a \<Rightarrow> bool) \<Rightarrow> 'a list \<Rightarrow> 'a list" where
  "sort_Stable ls xs = merge_runs ls blockSize (length xs) (sort_runs ls xs)"

lemma insertionSort_Nil [simp]: "insertionSort ls [] = []"
  by (simp add: insertionSort_def)

text \<open>A slice of at most one run is sorted by insertion.\<close>

lemma sort_Stable_short: "length xs \<le> 20 \<Longrightarrow> sort_Stable ls xs = insertionSort ls xs"
proof -
  assume l: "length xs \<le> 20"
  have "sort_runs ls xs = insertionSort ls xs"
  proof (cases "blockSize \<le> length xs")
    case True
    then have "take blockSize xs = xs" "drop blockSize xs = []" using l by (simp_all add: blockSize_def)
    moreover have "sort_runs ls [] = []" by (simp add: sort_runs.simps blockSize_def)
    ultimately show ?thesis using True by (subst sort_runs.simps) simp
  qed (simp add: sort_runs.simps)
  then show ?thesis using l by (simp add: sort_Stable_def merge_runs.simps blockSize_def)
qed

end
