(* ===== verification/Compact.thy ===== *)
theory Compact
  imports GoSort KeyCursor Codecs "HOL-Library.Sublist"
begin

text \<open>
  The merging of the blocks of a series in a compaction, \<open>storage/compactor/compact.gen.go\<close>, with the blocks of
  \<open>compactor.go\<close> and the fields of \<open>sstBatchKeyIterator\<close> (\<open>iterator_batch_key.go\<close>) that it works on. The file is
  generated once for each of the five types of values; the model is one set of functions with the codec of the
  type as its parameter, from which the five versions are made. They take and return the array of merged values of
  their type beside the iterator. The text around the error in an \<open>ErrBlockRead\<close> is left out. The slice \<open>blocks\<close>
  holds pointers, but each block is in it once, and a block that is passed on to \<open>merged\<close> is not changed any more.
\<close>

section \<open>Blocks\<close>

record block =
  bk_key :: bytes
  bk_minTime :: int
  bk_maxTime :: int
  bk_typ :: byte
  bk_b :: bytes
  bk_tombstones :: "TimeRange list"
  bk_readMin :: int
  bk_readMax :: int

definition bk_overlapsTimeRange :: "block \<Rightarrow> int \<Rightarrow> int \<Rightarrow> bool" where
  "bk_overlapsTimeRange b mn mx \<longleftrightarrow> bk_minTime b \<le> mx \<and> bk_maxTime b \<ge> mn"

definition bk_read :: "block \<Rightarrow> bool" where
  "bk_read b \<longleftrightarrow> bk_readMin b \<le> bk_minTime b \<and> bk_readMax b \<ge> bk_maxTime b"

definition bk_markRead :: "int \<Rightarrow> int \<Rightarrow> block \<Rightarrow> block" where
  "bk_markRead mn mx b =
     b\<lparr>bk_readMin := (if mn < bk_readMin b then mn else bk_readMin b),
       bk_readMax := (if mx > bk_readMax b then mx else bk_readMax b)\<rparr>"

definition bk_partiallyRead :: "block \<Rightarrow> bool" where
  "bk_partiallyRead b =
     (if bk_readMin b = max_i64 \<and> bk_readMax b = min_i64 then False
      else bk_readMin b \<noteq> bk_minTime b \<or> bk_readMax b \<noteq> bk_maxTime b)"

definition bk_Less :: "block \<Rightarrow> block \<Rightarrow> bool" where
  "bk_Less a b =
     (let cmp = bytes_Compare (bk_key a) (bk_key b)
      in if cmp = 0 then bk_minTime a < bk_minTime b \<and> bk_maxTime a < bk_minTime b else cmp < 0)"

section \<open>The iterator\<close>

text \<open>
  What the merging calls: decoding into an empty array and encoding of an array, \<open>ReadDataBlocks\<close>, and the fuel of
  the loop that combines overlapping blocks.
\<close>

record 'v merge_env =
  me_Decode :: "bytes \<Rightarrow> 'v array result"
  me_Encode :: "'v array \<Rightarrow> bytes result"
  me_ReadDataBlocks :: "bytes \<Rightarrow> bytes \<Rightarrow> bytes list result"
  me_fuel :: nat

record sstBatchKeyIterator =
  it_errs :: "error list"
  it_fast :: bool
  it_size :: nat
  it_key :: bytes
  it_typ :: byte
  it_blocks :: "block list"
  it_merged :: "block list"
  it_mergedFloatValues :: FloatArray
  it_mergedIntegerValues :: IntegerArray
  it_mergedUnsignedValues :: UnsignedArray
  it_mergedBooleanValues :: BooleanArray
  it_mergedStringValues :: StringArray
  it_maxErrors :: nat
  it_overflowErrors :: nat
  it_separateThreshold :: int

definition AppendError :: "error \<Rightarrow> sstBatchKeyIterator \<Rightarrow> sstBatchKeyIterator" where
  "AppendError err it =
     (if it_maxErrors it > length (it_errs it) then it\<lparr>it_errs := it_errs it @ [err]\<rparr>
      else it\<lparr>it_overflowErrors := it_overflowErrors it + 1\<rparr>)"

definition empty_array :: "'v array" where
  "empty_array = \<lparr>ar_ts = [], ar_vs = []\<rparr>"

text \<open>An error is returned to the caller to handle; a panic ends the run.\<close>

definition try_result :: "'a result \<Rightarrow> (error + 'a) result" where
  "try_result r =
     (case r of
        Inl e \<Rightarrow> if e = Panic \<or> e = Diverged then Inl e else Inr (Inl e)
      | Inr x \<Rightarrow> Inr (Inr x))"

section \<open>Combining blocks\<close>

definition chunk_block :: "bytes \<Rightarrow> 'v array \<Rightarrow> bytes \<Rightarrow> block" where
  "chunk_block key values cb =
     \<lparr>bk_key = key, bk_minTime = arr_MinTime values, bk_maxTime = arr_MaxTime values, bk_typ = 0, bk_b = cb,
      bk_tombstones = [], bk_readMin = 0, bk_readMax = 0\<rparr>"

definition chunk ::
  "'v merge_env \<Rightarrow> block list \<Rightarrow> sstBatchKeyIterator \<Rightarrow> 'v array \<Rightarrow> (block list \<times> sstBatchKeyIterator \<times> 'v array) result" where
  "chunk ev dst it merged =
     (if arr_Len merged > it_size it then
        (if it_size it = 0 then Inl Panic
         else let values = \<lparr>ar_ts = take (it_size it) (ar_ts merged), ar_vs = take (it_size it) (ar_vs merged)\<rparr>
              in bind_result (try_result (me_Encode ev values)) (\<lambda>r.
                 case r of
                   Inl err \<Rightarrow> Inr ([], AppendError err it, merged)
                 | Inr cb \<Rightarrow> Inr (dst @ [chunk_block (it_key it) values cb], it,
                     \<lparr>ar_ts = drop (it_size it) (ar_ts merged), ar_vs = drop (it_size it) (ar_vs merged)\<rparr>)))
      else if arr_Len merged > 0 then
        bind_result (try_result (me_Encode ev merged)) (\<lambda>r.
          case r of
            Inl err \<Rightarrow> Inr ([], AppendError err it, merged)
          | Inr cb \<Rightarrow> Inr (dst @ [chunk_block (it_key it) merged cb], it, empty_array))
      else Inr (dst, it, merged))"

definition exclude_tombstones :: "TimeRange list \<Rightarrow> 'v array \<Rightarrow> 'v array" where
  "exclude_tombstones tombs v = fold (\<lambda>ts v. arr_Exclude v (sint (tr_Min ts)) (sint (tr_Max ts))) tombs v"

text \<open>The window: the first block, lowered to the start of the blocks that overlap it and cut at the first end of one.\<close>

definition dedup_window :: "block list \<Rightarrow> int \<times> int" where
  "dedup_window bs =
     fold (\<lambda>b (minTime, maxTime).
       if bk_overlapsTimeRange b minTime maxTime \<and> \<not> bk_read b then
         (let minTime' = (if bk_minTime b < minTime then bk_minTime b else minTime)
          in (minTime', if bk_maxTime b > minTime' \<and> bk_maxTime b < maxTime then bk_maxTime b else maxTime))
       else (minTime, maxTime)) bs (bk_minTime (hd bs), bk_maxTime (hd bs))"

fun decode_blocks :: "'v merge_env \<Rightarrow> bytes list \<Rightarrow> 'v array \<Rightarrow> 'v array result" where
  "decode_blocks ev [] v = Inr v"
| "decode_blocks ev (b # dataBlocks) v =
     (if b = [] then decode_blocks ev dataBlocks v
      else bind_result (me_Decode ev b) (\<lambda>v2. decode_blocks ev dataBlocks (arr_Merge v v2)))"

text \<open>The values of the window are taken from each block; an error stops the loop with what was merged so far.\<close>

fun merge_overlapping ::
  "'v merge_env \<Rightarrow> bytes \<Rightarrow> int \<Rightarrow> int \<Rightarrow> block list \<Rightarrow> 'v array \<Rightarrow> (block list \<times> 'v array \<times> error option) result" where
  "merge_overlapping ev key minTime maxTime [] merged = Inr ([], merged, None)"
| "merge_overlapping ev key minTime maxTime (b # bs) merged =
     (if \<not> bk_overlapsTimeRange b minTime maxTime \<or> bk_read b then
        bind_result (merge_overlapping ev key minTime maxTime bs merged) (\<lambda>(bs', m, e). Inr (b # bs', m, e))
      else bind_result (try_result (bind_result (me_ReadDataBlocks ev (bk_b b) key) (\<lambda>ds. decode_blocks ev ds empty_array))) (\<lambda>r.
        case r of
          Inl err \<Rightarrow> Inr (b # bs, merged, Some err)
        | Inr v \<Rightarrow>
            if arr_Len v = 0 then Inl Panic
            else
              let maxTime' = (if bk_maxTime b \<noteq> arr_MaxTime v \<and> maxTime = bk_maxTime b then arr_MaxTime v else maxTime);
                  b1 = b\<lparr>bk_maxTime := arr_MaxTime v\<rparr>;
                  v1 = arr_Include (arr_Exclude v (bk_readMin b) (bk_readMax b)) minTime maxTime';
                  b2 = (if arr_Len v1 > 0 then bk_markRead (arr_MinTime v1) (arr_MaxTime v1) b1 else b1);
                  v2 = exclude_tombstones (bk_tombstones b) v1
              in bind_result (merge_overlapping ev key minTime maxTime' bs (arr_Merge merged v2)) (\<lambda>(bs', m, e). Inr (b2 # bs', m, e))))"

fun dedup_rounds ::
  "nat \<Rightarrow> 'v merge_env \<Rightarrow> bytes \<Rightarrow> nat \<Rightarrow> block list \<Rightarrow> 'v array \<Rightarrow> (block list \<times> 'v array \<times> error option) result" where
  "dedup_rounds 0 ev key sz bs merged = Inl Diverged"
| "dedup_rounds (Suc fuel) ev key sz bs merged =
     (if arr_Len merged < sz \<and> bs \<noteq> [] then
        (let bs1 = dropWhile bk_read bs
         in if bs1 = [] then Inr ([], merged, None)
            else let (minTime, maxTime) = dedup_window bs1
                 in bind_result (merge_overlapping ev key minTime maxTime bs1 merged) (\<lambda>(bs2, merged', e).
                    case e of
                      Some _ \<Rightarrow> Inr (bs2, merged', e)
                    | None \<Rightarrow> dedup_rounds fuel ev key sz bs2 merged'))
      else Inr (bs, merged, None))"

text \<open>Blocks that are full, or hold pointers, are passed on as they are.\<close>

fun full_blocks ::
  "block list \<Rightarrow> sstBatchKeyIterator \<Rightarrow> block list \<Rightarrow> (sstBatchKeyIterator \<times> block list \<times> block list) result" where
  "full_blocks [] it merged = Inr (it, merged, [])"
| "full_blocks (b # bs) it merged =
     (if bk_read b then full_blocks bs it merged
      else bind_result (IsPtrBlock (bk_b b)) (\<lambda>ptr.
        if ptr then full_blocks bs it (merged @ [b])
        else bind_result (try_result (BlockCount (bk_b b))) (\<lambda>r.
          case r of
            Inl err \<Rightarrow> full_blocks bs (AppendError err it) merged
          | Inr n \<Rightarrow> if n < int (it_size it) then Inr (it, merged, b # bs) else full_blocks bs it (merged @ [b]))))"

text \<open>
  The last loop, with the blocks it has passed, the rest, the values and an error. A block of pointers is appended to
  \<open>merged\<close> without advancing the index, so that the loop never ends.
\<close>

fun small_blocks ::
  "'v merge_env \<Rightarrow> nat \<Rightarrow> block list \<Rightarrow> block list \<Rightarrow> 'v array \<Rightarrow> (block list \<times> block list \<times> 'v array \<times> error option) result" where
  "small_blocks ev sz passed [] values = Inr (passed, [], values, None)"
| "small_blocks ev sz passed (b # bs) values =
     (if \<not> arr_Len values < sz then Inr (passed, b # bs, values, None)
      else if bk_read b then small_blocks ev sz (passed @ [b]) bs values
      else bind_result (IsPtrBlock (bk_b b)) (\<lambda>ptr.
        if ptr then Inl Diverged
        else bind_result (try_result (me_Decode ev (bk_b b))) (\<lambda>r.
          case r of
            Inl err \<Rightarrow> Inr (passed, b # bs, values, Some err)
          | Inr v \<Rightarrow>
              if arr_Len v = 0 then Inl Panic
              else let b1 = b\<lparr>bk_maxTime := arr_MaxTime v\<rparr>;
                       v1 = exclude_tombstones (bk_tombstones b) v;
                       b2 = bk_markRead (bk_minTime b1) (bk_maxTime b1) b1
                   in small_blocks ev sz (passed @ [b2]) bs (arr_Merge values v1))))"

definition combine ::
  "'v merge_env \<Rightarrow> bool \<Rightarrow> sstBatchKeyIterator \<Rightarrow> 'v array \<Rightarrow> (block list \<times> sstBatchKeyIterator \<times> 'v array) result" where
  "combine ev dedup it values =
     (if dedup then
        bind_result (dedup_rounds (me_fuel ev) ev (it_key it) (it_size it) (it_blocks it) values) (\<lambda>(bs, values', e).
          let it' = it\<lparr>it_blocks := bs\<rparr>
          in case e of Some err \<Rightarrow> Inr ([], AppendError err it', values') | None \<Rightarrow> chunk ev [] it' values')
      else
        bind_result (full_blocks (it_blocks it) it (it_merged it)) (\<lambda>(it1, merged, rest).
          let (merged2, rest2) = (if it_fast it then (merged @ filter (\<lambda>b. \<not> bk_read b) rest, []) else (merged, rest));
              (merged3, rest3) = (case rest2 of [b] \<Rightarrow> (if bk_read b then merged2 else merged2 @ [b], []) | _ \<Rightarrow> (merged2, rest2))
          in bind_result (small_blocks ev (it_size it) [] rest3 values) (\<lambda>(passed, rest4, values', e).
             case e of
               Some err \<Rightarrow>
                 Inr ([], AppendError err (it1\<lparr>it_blocks := take (length (it_blocks it) - length rest3) (it_blocks it) @ passed @ rest4\<rparr>), values')
             | None \<Rightarrow> chunk ev merged3 (it1\<lparr>it_blocks := rest4\<rparr>) values')))"

text \<open>The scan that decides if the blocks have to be decoded; each block is compared with the one before it.\<close>

fun scan_overlap :: "int \<Rightarrow> block \<Rightarrow> block list \<Rightarrow> bool result" where
  "scan_overlap threshold prev [] = Inr False"
| "scan_overlap threshold prev (b # bs) =
     (if bk_partiallyRead b \<or> bk_overlapsTimeRange b (bk_minTime prev) (bk_maxTime prev) \<or> bk_tombstones b \<noteq> [] then Inr True
      else bind_result (IsPtrBlock (bk_b b)) (\<lambda>ptr.
        if ptr then bind_result (PtrBlockCount (bk_b b)) (\<lambda>n. if int n > threshold then Inr True else scan_overlap threshold b bs)
        else scan_overlap threshold b bs))"

definition needs_dedup :: "int \<Rightarrow> block list \<Rightarrow> 'v array \<Rightarrow> bool result" where
  "needs_dedup threshold bs values =
     (if arr_Len values \<noteq> 0 then Inr True
      else case bs of
        [] \<Rightarrow> Inr False
      | b # rest \<Rightarrow> if bk_tombstones b \<noteq> [] \<or> bk_partiallyRead b then Inr True else scan_overlap threshold b rest)"

definition merge_values ::
  "'v merge_env \<Rightarrow> sstBatchKeyIterator \<Rightarrow> 'v array \<Rightarrow> (sstBatchKeyIterator \<times> 'v array) result" where
  "merge_values ev it values =
     (if it_blocks it = [] \<and> it_merged it = [] \<and> arr_Len values = 0 then Inr (it, values)
      else let it1 = it\<lparr>it_blocks := sort_Stable bk_Less (it_blocks it)\<rparr>
           in bind_result (needs_dedup (it_separateThreshold it) (it_blocks it1) values) (\<lambda>dedup.
              bind_result (combine ev dedup it1 values) (\<lambda>(bs, it2, values'). Inr (it2\<lparr>it_merged := bs\<rparr>, values'))))"


section \<open>Sorting\<close>

lemma insert_back_Cons: "insert_back ls x ys = takeWhile (ls x) ys @ x # dropWhile (ls x) ys"
  by (induction ys) simp_all

lemma mset_insertionSort [simp]: "mset (insertionSort ls xs) = mset xs"
proof -
  have "mset (foldl (\<lambda>ys x. insert_back ls x ys) ys xs) = mset ys + mset xs" for ys
  proof (induction xs arbitrary: ys)
    case (Cons x xs)
    have "mset (insert_back ls x ys) = add_mset x (mset ys)" by (induction ys) auto
    then show ?case using Cons.IH by simp
  qed simp
  then show ?thesis by (simp add: insertionSort_def)
qed

lemma set_insertionSort [simp]: "set (insertionSort ls xs) = set xs"
  using mset_insertionSort set_mset_mset by metis

text \<open>Neighbours are in order for any asymmetric \<open>Less\<close>, transitive or not.\<close>

lemma successively_insert_back:
  assumes "\<And>a b. a \<in> set (x # ys) \<Longrightarrow> b \<in> set (x # ys) \<Longrightarrow> ls a b \<Longrightarrow> \<not> ls b a" and "successively (\<lambda>a b. \<not> ls a b) ys"
  shows "successively (\<lambda>a b. \<not> ls a b) (insert_back ls x ys)"
  using assms
proof (induction ys)
  case (Cons y ys)
  have IH: "successively (\<lambda>a b. \<not> ls a b) (insert_back ls x ys)"
    using Cons.prems by (intro Cons.IH) (auto simp: successively_Cons)
  show ?case
  proof (cases "ls x y")
    case True
    then have "\<not> ls y x" using Cons.prems(1) by simp
    moreover have "hd (insert_back ls x ys) = x \<or> ys \<noteq> [] \<and> hd (insert_back ls x ys) = hd ys"
      by (cases ys) auto
    ultimately show ?thesis using True IH Cons.prems(2) by (auto simp: successively_Cons)
  qed (use Cons.prems(2) in simp)
qed simp

lemma successively_insertionSort:
  assumes "\<And>a b. a \<in> set xs \<Longrightarrow> b \<in> set xs \<Longrightarrow> ls a b \<Longrightarrow> \<not> ls b a"
  shows "successively (\<lambda>a b. \<not> ls b a) (insertionSort ls xs)"
proof -
  have "successively (\<lambda>a b. \<not> ls a b) (foldl (\<lambda>ys x. insert_back ls x ys) [] xs) \<and>
      set (foldl (\<lambda>ys x. insert_back ls x ys) [] xs) = set xs"
    using assms
  proof (induction xs rule: rev_induct)
    case (snoc x xs)
    let ?f = "foldl (\<lambda>ys x. insert_back ls x ys) [] xs"
    have IH: "successively (\<lambda>a b. \<not> ls a b) ?f" "set ?f = set xs" using snoc by auto
    have "set (insert_back ls x ?f) = insert x (set xs)"
      by (simp add: insert_back_Cons IH(2) [symmetric]) (metis set_append takeWhile_dropWhile_id)
    moreover have "successively (\<lambda>a b. \<not> ls a b) (insert_back ls x ?f)"
      using snoc.prems IH by (intro successively_insert_back) auto
    ultimately show ?case by simp
  qed simp
  then show ?thesis by (simp add: insertionSort_def successively_rev)
qed

lemma insertionSort_sorted:
  assumes "successively (\<lambda>a b. \<not> ls b a) xs"
  shows "insertionSort ls xs = xs"
proof -
  have "foldl (\<lambda>ys x. insert_back ls x ys) [] xs = rev xs"
    using assms
  proof (induction xs rule: rev_induct)
    case (snoc x xs)
    then have "foldl (\<lambda>ys x. insert_back ls x ys) [] xs = rev xs" "xs = [] \<or> \<not> ls x (last xs)"
      by (auto simp: successively_append_iff)
    then show ?case by (cases xs rule: rev_cases) simp_all
  qed simp
  then show ?thesis by (simp add: insertionSort_def)
qed

text \<open>Only elements with disjoint times change places, so that sorting keeps which value counts for a time.\<close>

lemma latest_insertionSort:
  assumes "\<And>a b. a \<in> set xs \<Longrightarrow> b \<in> set xs \<Longrightarrow> ls a b \<Longrightarrow> latest t (f a) = None \<or> latest t (f b) = None"
  shows "latest t (concat (map f (insertionSort ls xs))) = latest t (concat (map f xs))"
proof -
  have ins: "latest t (concat (map f (rev (insert_back ls x ys)))) = latest t (concat (map f (rev ys)) @ f x)"
    if "\<And>y. y \<in> set ys \<Longrightarrow> ls x y \<Longrightarrow> latest t (f x) = None \<or> latest t (f y) = None" for x ys
    using that
  proof (induction ys)
    case (Cons y ys)
    then have "latest t (concat (map f (rev (insert_back ls x ys)))) = latest t (concat (map f (rev ys)) @ f x)" by simp
    then show ?case using Cons.prems [of y] by (auto simp: latest_append split: option.splits)
  qed simp
  have "latest t (concat (map f (rev (foldl (\<lambda>ys x. insert_back ls x ys) [] xs)))) = latest t (concat (map f xs)) \<and>
      set (foldl (\<lambda>ys x. insert_back ls x ys) [] xs) = set xs"
    using assms
  proof (induction xs rule: rev_induct)
    case (snoc x xs)
    let ?f = "foldl (\<lambda>ys x. insert_back ls x ys) [] xs"
    have IH: "latest t (concat (map f (rev ?f))) = latest t (concat (map f xs))" "set ?f = set xs" using snoc by auto
    have "set (insert_back ls x ?f) = insert x (set xs)"
      by (simp add: insert_back_Cons IH(2) [symmetric]) (metis set_append takeWhile_dropWhile_id)
    moreover have "latest t (concat (map f (rev (insert_back ls x ?f)))) = latest t (concat (map f (rev ?f)) @ f x)"
      using snoc.prems IH(2) by (intro ins) auto
    ultimately show ?case using IH(1) by (simp add: latest_append split: option.splits)
  qed simp
  then show ?thesis by (simp add: insertionSort_def)
qed

text \<open>
  Beyond one run the sort is not stable for blocks, because \<open>bk_Less\<close> is no weak order: of these blocks of three files, each in time
  order, the last block of the third file comes to stand before a block of the second that it overlaps.
\<close>

definition plain_block :: "int \<times> int \<Rightarrow> block" where
  "plain_block p = \<lparr>bk_key = [97], bk_minTime = fst p, bk_maxTime = snd p, bk_typ = 1, bk_b = [], bk_tombstones = [], bk_readMin = max_i64, bk_readMax = min_i64\<rparr>"

definition three_files :: "(int \<times> int) list" where
  "three_files =
     [(12, 17), (18, 19), (20, 20), (24, 24), (25, 25), (27, 29)] @
     [(8, 8), (10, 12), (16, 16), (17, 17), (19, 29), (31, 31), (32, 33), (37, 37), (38, 40), (41, 51), (55, 56), (58, 63), (65, 75)] @
     [(7, 7), (9, 10)]"

lemma sort_Stable_reorders_overlap:
  "map (\<lambda>b. (bk_minTime b, bk_maxTime b)) (take 5 (sort_Stable bk_Less (map plain_block three_files))) =
     [(7, 7), (8, 8), (9, 10), (12, 17), (10, 12)]"
  by code_simp

section \<open>The window\<close>

definition in_sequence :: "block list \<Rightarrow> bool" where
  "in_sequence bs \<longleftrightarrow> successively (\<lambda>a b. bk_minTime a \<le> bk_maxTime b) bs"

lemma fold_window:
  fixes T :: int
  defines "step \<equiv> \<lambda>b (minTime, maxTime).
       if bk_overlapsTimeRange b minTime maxTime \<and> \<not> bk_read b then
         (let minTime' = (if bk_minTime b < minTime then bk_minTime b else minTime)
          in (minTime', if bk_maxTime b > minTime' \<and> bk_maxTime b < maxTime then bk_maxTime b else maxTime))
       else (minTime, maxTime)"
  assumes "\<And>b. b \<in> set bs \<Longrightarrow> bk_read b \<longleftrightarrow> bk_maxTime b \<le> T" and "in_sequence bs"
    and "bs = [] \<or> mn \<le> T \<or> mn \<le> bk_maxTime (hd bs)" and "mn \<le> mx" and "T < mx"
    and "fold step bs (mn, mx) = (mn', mx')"
  shows "mn' \<le> mn \<and> mn' \<le> mx' \<and> T < mx' \<and> (mx' = mx \<or> (\<exists>b \<in> set bs. mx' = bk_maxTime b)) \<and>
    (\<forall>b \<in> set bs. mn' \<le> bk_minTime b \<or> mn' \<le> T)"
  using assms(2-)
proof (induction bs arbitrary: mn mx)
  case (Cons b bs)
  obtain mn1 mx1 where st: "step b (mn, mx) = (mn1, mx1)" by fastforce
  have rd: "bk_read b \<longleftrightarrow> bk_maxTime b \<le> T" using Cons.prems(1) by simp
  have s1: "mn1 \<le> mn \<and> mn1 \<le> mx1 \<and> T < mx1 \<and> (mx1 = mx \<or> mx1 = bk_maxTime b) \<and> (mn1 \<le> bk_minTime b \<or> mn1 \<le> T)"
    using st Cons.prems(3-5) rd by (auto simp: step_def bk_overlapsTimeRange_def Let_def split: if_splits)
  have "bs = [] \<or> mn1 \<le> T \<or> mn1 \<le> bk_maxTime (hd bs)"
    using s1 Cons.prems(2) by (auto simp: in_sequence_def successively_Cons)
  then have "mn' \<le> mn1 \<and> mn' \<le> mx' \<and> T < mx' \<and> (mx' = mx1 \<or> (\<exists>b \<in> set bs. mx' = bk_maxTime b)) \<and>
    (\<forall>b \<in> set bs. mn' \<le> bk_minTime b \<or> mn' \<le> T)"
    using Cons.prems st s1 by (intro Cons.IH [of mn1 mx1]) (auto simp: in_sequence_def successively_Cons)
  then show ?case using s1 by fastforce
qed simp

text \<open>
  When everything up to \<open>T\<close> is read, nothing that is not read starts below the window, and the window ends with the
  end of a block that is not read.
\<close>

lemma dedup_window_spec:
  assumes "\<And>b. b \<in> set bs \<Longrightarrow> bk_read b \<longleftrightarrow> bk_maxTime b \<le> T" and "in_sequence bs"
    and "bs \<noteq> []" and "\<not> bk_read (hd bs)" and "bk_minTime (hd bs) \<le> bk_maxTime (hd bs)"
    and "dedup_window bs = (mn, mx)"
  shows "T < mx \<and> (\<exists>b \<in> set bs. bk_maxTime b = mx) \<and> (\<forall>b \<in> set bs. mn \<le> bk_minTime b \<or> mn \<le> T)"
  using fold_window [OF assms(1,2), of "bk_minTime (hd bs)" "bk_maxTime (hd bs)" mn mx] assms(1,3-) hd_in_set [OF assms(3)]
  unfolding dedup_window_def by (auto simp: not_le)


section \<open>Reading up to a time\<close>

text \<open>
  What the iterator knows of a block: its bytes decode to the array, whose first and last time the index has. The
  block of the index and its array are a pair; all marks on the blocks follow from the time up to which values were taken.
\<close>

definition block_holds :: "'v merge_env \<Rightarrow> (u64 \<Rightarrow> 'v \<Rightarrow> Value) \<Rightarrow> bytes \<Rightarrow> block \<Rightarrow> 'v array \<Rightarrow> bool" where
  "block_holds ev mk key b a \<longleftrightarrow>
     arr_wf a \<and> arr_Len a > 0 \<and> ordered (arr_values mk a) \<and> bk_key b = key \<and>
     bk_minTime b = arr_MinTime a \<and> bk_maxTime b = arr_MaxTime a \<and>
     bind_result (me_ReadDataBlocks ev (bk_b b) key) (\<lambda>ds. decode_blocks ev ds empty_array) = Inr a \<and>
     (case IsPtrBlock (bk_b b) of
        Inl _ \<Rightarrow> False
      | Inr ptr \<Rightarrow> ptr \<or> me_Decode ev (bk_b b) = Inr a \<and> BlockCount (bk_b b) = Inr (int (arr_Len a)))"

definition tombstoned :: "block \<Rightarrow> int \<Rightarrow> bool" where
  "tombstoned b t \<longleftrightarrow> list_ex (\<lambda>ts. sint (tr_Min ts) \<le> t \<and> t \<le> sint (tr_Max ts)) (bk_tombstones b)"

definition live_values :: "(u64 \<Rightarrow> 'v \<Rightarrow> Value) \<Rightarrow> block \<times> 'v array \<Rightarrow> Values" where
  "live_values mk p = filter (\<lambda>v. \<not> tombstoned (fst p) (UnixNano v)) (arr_values mk (snd p))"

definition read_to :: "(u64 \<Rightarrow> 'v \<Rightarrow> Value) \<Rightarrow> int \<Rightarrow> block \<times> 'v array \<Rightarrow> block" where
  "read_to mk T p =
     (let taken = filter (\<lambda>v. UnixNano v \<le> T) (arr_values mk (snd p))
      in if taken = [] then (fst p)\<lparr>bk_readMin := max_i64, bk_readMax := min_i64\<rparr>
         else (fst p)\<lparr>bk_readMin := bk_minTime (fst p), bk_readMax := UnixNano (last taken)\<rparr>)"

lemma read_to_simps [simp]:
  "bk_key (read_to mk T p) = bk_key (fst p)" "bk_minTime (read_to mk T p) = bk_minTime (fst p)"
  "bk_maxTime (read_to mk T p) = bk_maxTime (fst p)" "bk_typ (read_to mk T p) = bk_typ (fst p)"
  "bk_b (read_to mk T p) = bk_b (fst p)" "bk_tombstones (read_to mk T p) = bk_tombstones (fst p)"
  by (simp_all add: read_to_def Let_def)

lemma sint_i64: "min_i64 \<le> sint (x :: u64) \<and> sint x \<le> max_i64"
  using sint_greater_eq [of x] sint_less [of x] by (simp add: min_i64_def max_i64_def)

lemma UnixNano_i64: "min_i64 \<le> UnixNano v \<and> UnixNano v \<le> max_i64"
  by (simp add: UnixNano_def sint_i64)

lemma ordered_hd_last:
  assumes "ordered a" and "v \<in> set a"
  shows "UnixNano (hd a) \<le> UnixNano v \<and> UnixNano v \<le> UnixNano (last a)"
proof -
  obtain i where i: "i < length a" "v = a ! i" using assms(2) by (auto simp: in_set_conv_nth)
  then have "a \<noteq> []" by auto
  then show ?thesis
    using i ordered_nth_le [OF assms(1), of 0 i] ordered_nth_le [OF assms(1), of i "length a - 1"]
    by (simp add: hd_conv_nth last_conv_nth)
qed

context array_type
begin

lemma MinTime_vals: "arr_wf a \<Longrightarrow> arr_Len a > 0 \<Longrightarrow> arr_MinTime a = UnixNano (hd (vals a))"
  by (simp add: arr_MinTime_def hd_conv_nth)

lemma MaxTime_vals: "arr_wf a \<Longrightarrow> arr_Len a > 0 \<Longrightarrow> arr_MaxTime a = UnixNano (last (vals a))"
  by (simp add: arr_MaxTime_def last_conv_nth arr_Len_def [symmetric])

lemma Exclude_eq: "arr_wf a \<Longrightarrow> ordered (vals a) \<Longrightarrow> arr_wf (arr_Exclude a mn mx) \<and>
  vals (arr_Exclude a mn mx) = filter (\<lambda>v. \<not> (mn \<le> UnixNano v \<and> UnixNano v \<le> mx)) (vals a)"
  by (simp add: arr_Exclude_eq Exclude_filter)

lemma Include_eq: "arr_wf a \<Longrightarrow> ordered (vals a) \<Longrightarrow> arr_wf (arr_Include a mn mx) \<and>
  vals (arr_Include a mn mx) = filter (\<lambda>v. mn \<le> UnixNano v \<and> UnixNano v \<le> mx) (vals a)"
  by (simp add: arr_Include_eq Include_filter)

lemma exclude_tombstones_eq:
  "arr_wf a \<Longrightarrow> ordered (vals a) \<Longrightarrow> arr_wf (exclude_tombstones ts a) \<and>
   vals (exclude_tombstones ts a) = filter (\<lambda>v. \<not> list_ex (\<lambda>ts. sint (tr_Min ts) \<le> UnixNano v \<and> UnixNano v \<le> sint (tr_Max ts)) ts) (vals a)"
proof (induction ts arbitrary: a)
  case (Cons t ts)
  have E: "arr_wf (arr_Exclude a (sint (tr_Min t)) (sint (tr_Max t)))" "ordered (vals (arr_Exclude a (sint (tr_Min t)) (sint (tr_Max t))))"
    using Exclude_eq [OF Cons.prems] Cons.prems(2) by (simp_all add: ordered_filter)
  show ?case
    using Cons.IH [OF E] Exclude_eq [OF Cons.prems] by (simp add: exclude_tombstones_def conj_commute)
qed (simp add: exclude_tombstones_def)

lemma Merge_latest:
  assumes "arr_wf a" "arr_wf b" "ordered (vals a)" "ordered (vals b)"
  shows "arr_wf (arr_Merge a b) \<and> ordered (vals (arr_Merge a b)) \<and> (\<forall>t. latest t (vals (arr_Merge a b)) = latest t (vals a @ vals b))"
proof -
  consider "vals a = []" | "vals a \<noteq> []" "vals b = []" | "vals a \<noteq> []" "vals b \<noteq> []" by blast
  then show ?thesis
  proof cases
    case 1
    then have "arr_Merge a b = b" using assms by (simp add: arr_Merge_def)
    then show ?thesis using 1 assms by (simp del: vals_Nil_iff)
  next
    case 2
    then have "arr_Merge a b = a" using assms by (simp add: arr_Merge_def)
    then show ?thesis using 2 assms by (simp del: vals_Nil_iff)
  next
    case 3
    then show ?thesis using arr_Merge_eq [OF assms] Merge_props [OF 3] by simp
  qed
qed

end

text \<open>The law of the codec: the block of an array of at most \<open>cap\<close> values that all satisfy \<open>fits\<close> holds that array.\<close>

locale block_merge = array_type mk for mk :: "u64 \<Rightarrow> 'v \<Rightarrow> Value" +
  fixes ev :: "'v merge_env" and fits :: "Value \<Rightarrow> bool" and cap :: nat
  assumes encode: "arr_wf a \<Longrightarrow> 0 < arr_Len a \<Longrightarrow> arr_Len a \<le> cap \<Longrightarrow> ordered (arr_values mk a) \<Longrightarrow>
      \<forall>v \<in> set (arr_values mk a). fits v \<Longrightarrow> \<exists>cb. me_Encode ev a = Inr cb \<and> block_holds ev mk key (chunk_block key a cb) a"
begin

abbreviation holds :: "bytes \<Rightarrow> block \<times> 'v array \<Rightarrow> bool" where
  "holds key p \<equiv> block_holds ev mk key (fst p) (snd p)"

abbreviation contents :: "block \<times> 'v array \<Rightarrow> Values" where
  "contents p \<equiv> vals (snd p)"

lemma holds_simps:
  assumes "holds key p"
  shows "arr_wf (snd p)" and "ordered (contents p)" and "contents p \<noteq> []" and "arr_Len (snd p) > 0"
    and "bk_minTime (fst p) = UnixNano (hd (contents p))" and "bk_maxTime (fst p) = UnixNano (last (contents p))"
    and "bind_result (me_ReadDataBlocks ev (bk_b (fst p)) key) (\<lambda>ds. decode_blocks ev ds empty_array) = Inr (snd p)"
    and "bk_key (fst p) = key"
  using assms MinTime_vals [of "snd p"] MaxTime_vals [of "snd p"] by (simp_all add: block_holds_def)

lemma holds_times:
  assumes "holds key p" and "v \<in> set (contents p)"
  shows "bk_minTime (fst p) \<le> UnixNano v \<and> UnixNano v \<le> bk_maxTime (fst p)"
  using ordered_hd_last [OF holds_simps(2) assms(2)] holds_simps(5,6) assms(1) by simp

lemma last_filter_le: "ordered a \<Longrightarrow> filter (\<lambda>v. UnixNano v \<le> T) a \<noteq> [] \<Longrightarrow> v \<in> set a \<Longrightarrow>
  UnixNano v \<le> UnixNano (last (filter (\<lambda>v. UnixNano v \<le> T) a)) \<longleftrightarrow> UnixNano v \<le> T"
proof -
  assume a: "ordered a" "filter (\<lambda>v. UnixNano v \<le> T) a \<noteq> []" "v \<in> set a"
  then have "last (filter (\<lambda>v. UnixNano v \<le> T) a) \<in> set (filter (\<lambda>v. UnixNano v \<le> T) a)" by (intro last_in_set)
  then have "UnixNano (last (filter (\<lambda>v. UnixNano v \<le> T) a)) \<le> T" by simp
  moreover have "UnixNano v \<le> UnixNano (last (filter (\<lambda>v. UnixNano v \<le> T) a))" if "UnixNano v \<le> T"
    using ordered_hd_last [OF ordered_filter [OF a(1)], of v "\<lambda>v. UnixNano v \<le> T"] that a(3) by simp
  ultimately show ?thesis by linarith
qed

lemma read_to_range:
  assumes "holds key p" and "v \<in> set (contents p)"
  shows "bk_readMin (read_to mk T p) \<le> UnixNano v \<and> UnixNano v \<le> bk_readMax (read_to mk T p) \<longleftrightarrow> UnixNano v \<le> T"
proof (cases "filter (\<lambda>v. UnixNano v \<le> T) (contents p) = []")
  case True
  moreover have "\<not> max_i64 \<le> min_i64" by (simp add: min_i64_def max_i64_def)
  ultimately show ?thesis using assms(2) by (auto simp: read_to_def filter_empty_conv)
next
  case False
  then show ?thesis
    using last_filter_le [OF holds_simps(2) [OF assms(1)] False assms(2)] holds_times [OF assms]
    by (simp add: read_to_def)
qed

lemma bk_read_to: "holds key p \<Longrightarrow> bk_read (read_to mk T p) \<longleftrightarrow> bk_maxTime (fst p) \<le> T"
proof -
  assume h: "holds key p"
  note s = holds_simps [OF h]
  have l: "last (contents p) \<in> set (contents p)" and f: "hd (contents p) \<in> set (contents p)" using s(3) by simp_all
  have min_le: "bk_minTime (fst p) \<le> bk_maxTime (fst p)" using holds_times [OF h l] by simp
  have R: "bk_readMin (read_to mk T p) \<le> UnixNano (last (contents p)) \<and> UnixNano (last (contents p)) \<le> bk_readMax (read_to mk T p) \<longleftrightarrow>
    UnixNano (last (contents p)) \<le> T" by (rule read_to_range [OF h l])
  show ?thesis
  proof (cases "filter (\<lambda>v. UnixNano v \<le> T) (contents p) = []")
    case True
    then have "\<not> UnixNano (last (contents p)) \<le> T" using l by (auto simp: filter_empty_conv)
    moreover have "\<not> bk_read (read_to mk T p)"
      using True min_le by (auto simp: bk_read_def read_to_def min_i64_def max_i64_def)
    ultimately show ?thesis using s(6) by simp
  next
    case False
    then have "bk_readMin (read_to mk T p) = bk_minTime (fst p)" by (simp add: read_to_def)
    then show ?thesis using R s(6) min_le by (auto simp: bk_read_def)
  qed
qed

lemma filter_le_split:
  "ordered a \<Longrightarrow> T \<le> mx \<Longrightarrow> filter (\<lambda>v. UnixNano v \<le> mx) a =
     filter (\<lambda>v. UnixNano v \<le> T) a @ filter (\<lambda>v. T < UnixNano v \<and> UnixNano v \<le> mx) a"
proof (induction a)
  case (Cons v a)
  have "filter (\<lambda>v. UnixNano v \<le> T) a = []" if "\<not> UnixNano v \<le> T"
    using Cons.prems that by (fastforce simp: ordered_Cons filter_empty_conv)
  then show ?case using Cons by (auto simp: ordered_Cons)
qed simp

lemma hd_filter_le: "ordered a \<Longrightarrow> filter (\<lambda>v. UnixNano v \<le> T) a \<noteq> [] \<Longrightarrow> hd (filter (\<lambda>v. UnixNano v \<le> T) a) = hd a"
proof (cases a)
  case (Cons v b)
  assume "ordered a" "filter (\<lambda>v. UnixNano v \<le> T) a \<noteq> []"
  then have "UnixNano v \<le> T" using Cons by (fastforce simp: ordered_Cons filter_empty_conv split: if_splits)
  then show ?thesis using Cons by simp
qed simp

lemma read_to_same:
  "filter (\<lambda>v. T < UnixNano v \<and> UnixNano v \<le> mx) (contents p) = [] \<Longrightarrow> holds key p \<Longrightarrow> T \<le> mx \<Longrightarrow>
   read_to mk T p = read_to mk mx p"
  using filter_le_split [OF holds_simps(2), of key p T mx] by (simp add: read_to_def)

lemma markRead_read_to:
  assumes h: "holds key p" and le: "T \<le> mx" and ne: "filter (\<lambda>v. T < UnixNano v \<and> UnixNano v \<le> mx) (contents p) \<noteq> []"
  shows "bk_markRead (UnixNano (hd (filter (\<lambda>v. T < UnixNano v \<and> UnixNano v \<le> mx) (contents p))))
      (UnixNano (last (filter (\<lambda>v. T < UnixNano v \<and> UnixNano v \<le> mx) (contents p)))) (read_to mk T p) = read_to mk mx p"
proof -
  let ?c = "contents p" and ?v = "filter (\<lambda>v. T < UnixNano v \<and> UnixNano v \<le> mx) (contents p)"
  note s = holds_simps [OF h]
  have sp: "filter (\<lambda>v. UnixNano v \<le> mx) ?c = filter (\<lambda>v. UnixNano v \<le> T) ?c @ ?v" by (rule filter_le_split [OF s(2) le])
  have hv: "hd ?v \<in> set ?v" "last ?v \<in> set ?v" using hd_in_set [OF ne] last_in_set [OF ne] by blast+
  then have up: "T < UnixNano (last ?v)" and lo: "bk_minTime (fst p) \<le> UnixNano (hd ?v)"
    using holds_times [OF h, of "hd ?v"] by auto
  show ?thesis
  proof (cases "filter (\<lambda>v. UnixNano v \<le> T) ?c = []")
    case True
    then have "UnixNano (hd ?v) = bk_minTime (fst p)" using sp ne hd_filter_le [OF s(2), of mx] s(5) by simp
    then show ?thesis
      using True sp ne UnixNano_i64 [of "last ?v"] UnixNano_i64 [of "hd ?v"]
      by (auto simp: bk_markRead_def read_to_def)
  next
    case False
    have "UnixNano (last (filter (\<lambda>v. UnixNano v \<le> T) ?c)) \<le> T" using last_in_set [OF False] by simp
    then show ?thesis using False sp ne up lo by (simp add: bk_markRead_def read_to_def)
  qed
qed

lemma nothing_between:
  assumes "holds key p" and "mn \<le> bk_minTime (fst p) \<or> mn \<le> T"
    and "\<not> bk_overlapsTimeRange (read_to mk T p) mn mx \<or> bk_read (read_to mk T p)"
  shows "filter (\<lambda>v. T < UnixNano v \<and> UnixNano v \<le> mx) (contents p) = []"
proof -
  have "\<not> (T < UnixNano v \<and> UnixNano v \<le> mx)" if "v \<in> set (contents p)" for v
    using holds_times [OF assms(1) that] assms(2,3) bk_read_to [OF assms(1), of T] by (auto simp: bk_overlapsTimeRange_def)
  then show ?thesis by (simp add: filter_empty_conv)
qed

lemma window_values:
  assumes h: "holds key p" and "mn \<le> bk_minTime (fst p) \<or> mn \<le> T"
  shows "arr_wf (arr_Include (arr_Exclude (snd p) (bk_readMin (read_to mk T p)) (bk_readMax (read_to mk T p))) mn mx) \<and>
    vals (arr_Include (arr_Exclude (snd p) (bk_readMin (read_to mk T p)) (bk_readMax (read_to mk T p))) mn mx) =
      filter (\<lambda>v. T < UnixNano v \<and> UnixNano v \<le> mx) (contents p)"
proof -
  let ?e = "arr_Exclude (snd p) (bk_readMin (read_to mk T p)) (bk_readMax (read_to mk T p))"
  note s = holds_simps [OF h]
  have "(\<not> (bk_readMin (read_to mk T p) \<le> UnixNano v \<and> UnixNano v \<le> bk_readMax (read_to mk T p))) = (T < UnixNano v)"
    if "v \<in> set (contents p)" for v using read_to_range [OF h that, of T] by linarith
  then have "vals ?e = filter (\<lambda>v. T < UnixNano v) (contents p)"
    using Exclude_eq [OF s(1,2)] by (simp cong: filter_cong)
  moreover have "arr_wf ?e" using Exclude_eq [OF s(1,2)] by blast
  ultimately have "arr_wf (arr_Include ?e mn mx) \<and>
      vals (arr_Include ?e mn mx) = filter (\<lambda>v. mn \<le> UnixNano v \<and> UnixNano v \<le> mx) (filter (\<lambda>v. T < UnixNano v) (contents p))"
    using Include_eq [of ?e mn mx] s(2) by (simp add: ordered_filter)
  moreover have "filter (\<lambda>v. mn \<le> UnixNano v \<and> UnixNano v \<le> mx) (filter (\<lambda>v. T < UnixNano v) (contents p)) =
      filter (\<lambda>v. T < UnixNano v \<and> UnixNano v \<le> mx) (contents p)"
    unfolding filter_filter using holds_times [OF h] assms(2) by (intro filter_cong) fastforce+
  ultimately show ?thesis by simp
qed

abbreviation live :: "block \<times> 'v array \<Rightarrow> Values" where
  "live p \<equiv> live_values mk p"

text \<open>One pass over the blocks takes what they have between the time reached before and the end of the window.\<close>

lemma merge_overlapping_spec:
  assumes "\<And>p. p \<in> set ps \<Longrightarrow> holds key p" and "T < mx" and "\<And>p. p \<in> set ps \<Longrightarrow> mn \<le> bk_minTime (fst p) \<or> mn \<le> T"
    and "arr_wf m" and "ordered (vals m)"
  shows "\<exists>m'. merge_overlapping ev key mn mx (map (read_to mk T) ps) m = Inr (map (read_to mk mx) ps, m', None) \<and>
    arr_wf m' \<and> ordered (vals m') \<and>
    (\<forall>t. latest t (vals m') = latest t (vals m @ concat (map (\<lambda>p. filter (\<lambda>v. T < UnixNano v \<and> UnixNano v \<le> mx) (live p)) ps)))"
  using assms
proof (induction ps arbitrary: m)
  case (Cons p ps)
  let ?b = "read_to mk T p" and ?v = "filter (\<lambda>v. T < UnixNano v \<and> UnixNano v \<le> mx) (contents p)"
    and ?l = "filter (\<lambda>v. T < UnixNano v \<and> UnixNano v \<le> mx) (live p)"
  have h: "holds key p" and lo: "mn \<le> bk_minTime (fst p) \<or> mn \<le> T" using Cons.prems by simp_all
  note s = holds_simps [OF h]
  have IH: "\<exists>m''. merge_overlapping ev key mn mx (map (read_to mk T) ps) m' = Inr (map (read_to mk mx) ps, m'', None) \<and>
      arr_wf m'' \<and> ordered (vals m'') \<and>
      (\<forall>t. latest t (vals m'') = latest t (vals m' @ concat (map (\<lambda>p. filter (\<lambda>v. T < UnixNano v \<and> UnixNano v \<le> mx) (live p)) ps)))"
    if "arr_wf m'" "ordered (vals m')" for m'
    using Cons that by (intro Cons.IH) auto
  show ?case
  proof (cases "\<not> bk_overlapsTimeRange ?b mn mx \<or> bk_read ?b")
    case True
    then have e: "?v = []" by (rule nothing_between [OF h lo])
    then have "?l = []" by (auto simp: filter_empty_conv live_values_def)
    moreover have "?b = read_to mk mx p" using read_to_same [OF e h] Cons.prems(2) by simp
    ultimately show ?thesis using True IH [OF Cons.prems(4,5)] by auto
  next
    case False
    let ?a = "arr_Include (arr_Exclude (snd p) (bk_readMin ?b) (bk_readMax ?b)) mn mx"
    let ?x = "exclude_tombstones (bk_tombstones (fst p)) ?a"
    have a: "arr_wf ?a" "vals ?a = ?v" using window_values [OF h lo] by simp_all
    have oa: "ordered (vals ?a)" using a(2) s(2) by (simp add: ordered_filter)
    have "vals ?x = ?l"
      using exclude_tombstones_eq [OF a(1) oa, of "bk_tombstones (fst p)"] a(2)
      by (auto simp: live_values_def tombstoned_def intro!: filter_cong)
    then have x: "arr_wf ?x" "vals ?x = ?l" "ordered (vals ?x)"
      using exclude_tombstones_eq [OF a(1) oa, of "bk_tombstones (fst p)"] s(2) by (simp_all add: live_values_def ordered_filter)
    have mark: "(if arr_Len ?a > 0 then bk_markRead (arr_MinTime ?a) (arr_MaxTime ?a) ?b else ?b) = read_to mk mx p"
    proof (cases "?v = []")
      case True
      then have "arr_Len ?a = 0" using a vals_Nil_iff [OF a(1)] by simp
      then show ?thesis using read_to_same [OF True h] Cons.prems(2) by simp
    next
      case F: False
      then have L: "arr_Len ?a > 0" using a vals_Nil_iff [OF a(1)] by simp
      then show ?thesis
        using markRead_read_to [OF h _ F] MinTime_vals [OF a(1) L] MaxTime_vals [OF a(1) L] Cons.prems(2) by (simp add: a(2))
    qed
    have mx: "bk_maxTime ?b = arr_MaxTime (snd p)" using h by (simp add: block_holds_def)
    have same: "?b\<lparr>bk_maxTime := arr_MaxTime (snd p)\<rparr> = ?b" using mx by (metis block.surjective block.update_convs(3) read_to_simps(3))
    have M: "arr_wf (arr_Merge m ?x)" "ordered (vals (arr_Merge m ?x))" "\<And>t. latest t (vals (arr_Merge m ?x)) = latest t (vals m @ ?l)"
      using Merge_latest [OF Cons.prems(4) x(1) Cons.prems(5) x(3)] x(2) by simp_all
    obtain m'' where m'': "merge_overlapping ev key mn mx (map (read_to mk T) ps) (arr_Merge m ?x) = Inr (map (read_to mk mx) ps, m'', None)"
      "arr_wf m''" "ordered (vals m'')"
      "\<And>t. latest t (vals m'') = latest t (vals (arr_Merge m ?x) @ concat (map (\<lambda>p. filter (\<lambda>v. T < UnixNano v \<and> UnixNano v \<le> mx) (live p)) ps))"
      using IH [OF M(1,2)] by blast
    have "merge_overlapping ev key mn mx (map (read_to mk T) (p # ps)) m = Inr (map (read_to mk mx) (p # ps), m'', None)"
      using False s(4,7) mark m''(1) mx by (simp add: try_result_def Let_def same)
    moreover have "latest t (vals m'') =
        latest t (vals m @ concat (map (\<lambda>p. filter (\<lambda>v. T < UnixNano v \<and> UnixNano v \<le> mx) (live p)) (p # ps)))" for t
      using m''(4) [of t] M(3) [of t] by (simp add: latest_append split: option.splits)
    ultimately show ?thesis using m''(2,3) by blast
  qed
qed simp

section \<open>The loop over overlapping blocks\<close>

text \<open>
  What has been emitted and what is merged are the values up to \<open>T\<close> of the series, in order; all others are still in
  the blocks.
\<close>

definition merge_inv :: "bytes \<Rightarrow> Values \<Rightarrow> Values \<Rightarrow> 'v array \<Rightarrow> int \<Rightarrow> (block \<times> 'v array) list \<Rightarrow> bool" where
  "merge_inv key series out m T ps \<longleftrightarrow>
     arr_wf m \<and> ordered (out @ vals m) \<and> (\<forall>v \<in> set (out @ vals m). UnixNano v \<le> T \<and> fits v) \<and>
     (\<forall>t. latest t series = (if t \<le> T then latest t (out @ vals m) else latest t (concat (map live ps)))) \<and>
     (\<forall>p \<in> set ps. holds key p \<and> (\<forall>v \<in> set (contents p). fits v)) \<and> in_sequence (map fst ps)"

lemma latest_filter: "(\<And>v. UnixNano v = t \<Longrightarrow> P v) \<Longrightarrow> latest t (filter P a) = latest t a"
  by (simp add: latest_def) (metis (no_types, lifting) filter_cong)

lemma latest_NoneI: "(\<And>v. v \<in> set a \<Longrightarrow> UnixNano v \<noteq> t) \<Longrightarrow> latest t a = None"
  by (simp add: latest_None)

lemma merge_inv_ordered: "merge_inv key series out m T ps \<Longrightarrow> ordered (vals m)"
  by (simp add: merge_inv_def ordered_append)

lemma merge_inv_prefix:
  assumes "merge_inv key series out m T ps"
  shows "Deduplicate series = out @ vals m @ Deduplicate (filter (\<lambda>v. T < UnixNano v) (concat (map live ps)))"
proof (rule ordered_ext)
  let ?d = "Deduplicate (filter (\<lambda>v. T < UnixNano v) (concat (map live ps)))"
  have d: "T < UnixNano v" if "v \<in> set ?d" for v
  proof -
    have "latest (UnixNano v) ?d = Some v" using that latest_ordered [OF ordered_Deduplicate] by blast
    then have "latest (UnixNano v) (filter (\<lambda>v. T < UnixNano v) (concat (map live ps))) = Some v" by simp
    from latest_SomeD [OF this] show ?thesis by simp
  qed
  have i: "ordered (out @ vals m)" "\<And>v. v \<in> set (out @ vals m) \<Longrightarrow> UnixNano v \<le> T"
    "\<And>t. latest t series = (if t \<le> T then latest t (out @ vals m) else latest t (concat (map live ps)))"
    using assms by (auto simp: merge_inv_def)
  have "UnixNano v < UnixNano w" if "v \<in> set (out @ vals m)" "w \<in> set ?d" for v w
    using i(2) [OF that(1)] d [OF that(2)] by simp
  then have "ordered ((out @ vals m) @ ?d)" using i(1) ordered_Deduplicate by (simp only: ordered_append [of "out @ vals m"]) blast
  then show "ordered (out @ vals m @ ?d)" by simp
  fix t
  show "latest t (Deduplicate series) = latest t (out @ vals m @ ?d)"
  proof (cases "t \<le> T")
    case True
    have "UnixNano v \<noteq> t" if "v \<in> set ?d" for v using d [OF that] True by simp
    then have "latest t ?d = None" by (rule latest_NoneI)
    then show ?thesis using i(3) [of t] True by (simp add: latest_append)
  next
    case False
    have "UnixNano v \<noteq> t" if "v \<in> set (out @ vals m)" for v using i(2) [OF that] False by simp
    then have "latest t (out @ vals m) = None" by (rule latest_NoneI)
    moreover have "latest t (filter (\<lambda>v. T < UnixNano v) (concat (map live ps))) = latest t (concat (map live ps))"
      using False by (intro latest_filter) simp
    ultimately show ?thesis using i(3) [of t] False by (simp add: latest_append split: option.splits)
  qed
qed (rule ordered_Deduplicate)

lemma live_none: "holds key p \<Longrightarrow> bk_maxTime (fst p) < t \<Longrightarrow> latest t (live p) = None"
  using holds_times [of key p] unfolding latest_None by (fastforce simp: live_values_def)

text \<open>Blocks that are read to the end can be left out.\<close>

lemma merge_inv_drop:
  assumes "merge_inv key series out m T (ps @ qs)" and "\<And>p. p \<in> set ps \<Longrightarrow> bk_maxTime (fst p) \<le> T"
  shows "merge_inv key series out m T qs"
proof -
  have none: "latest t (concat (map live ps)) = None" if "T < t" for t
  proof -
    have "latest t (live p) = None" if "p \<in> set ps" for p
      using assms(1) assms(2) [OF that] that \<open>T < t\<close> live_none [of key p t] by (simp add: merge_inv_def)
    then show ?thesis by (auto simp: latest_None)
  qed
  have "latest t (concat (map live (ps @ qs))) = latest t (concat (map live qs))" if "T < t" for t
    using none [OF that] by (simp add: latest_append split: option.splits)
  then show ?thesis
    using assms(1) by (simp add: merge_inv_def in_sequence_def successively_append_iff not_le ball_Un)
qed

lemma length_filter_less: "x \<in> set xs \<Longrightarrow> \<not> P x \<Longrightarrow> Q x \<Longrightarrow> (\<And>y. P y \<Longrightarrow> Q y) \<Longrightarrow> length (filter P xs) < length (filter Q xs)"
proof (induction xs)
  case (Cons y xs)
  have "length (filter P xs) \<le> length (filter Q xs)" using Cons.prems(4) by (induction xs) auto
  then show ?case using Cons by auto
qed simp

lemma length_filter_drop_le: "length (filter P (drop n xs)) \<le> length (filter P xs)"
  by (metis append_take_drop_id filter_append le_add2 length_append)

lemma merge_inv_round:
  assumes inv: "merge_inv key series out m T ps" and lt: "T < mx" and m': "arr_wf m'" "ordered (vals m')"
    and l: "\<And>t. latest t (vals m') = latest t (vals m @ concat (map (\<lambda>p. filter (\<lambda>v. T < UnixNano v \<and> UnixNano v \<le> mx) (live p)) ps))"
  shows "merge_inv key series out m' mx ps"
proof -
  let ?new = "filter (\<lambda>v. T < UnixNano v \<and> UnixNano v \<le> mx) (concat (map live ps))"
  have new: "concat (map (\<lambda>p. filter (\<lambda>v. T < UnixNano v \<and> UnixNano v \<le> mx) (live p)) ps) = ?new"
    by (simp add: filter_concat comp_def)
  have i: "ordered (out @ vals m)" "\<And>v. v \<in> set (out @ vals m) \<Longrightarrow> UnixNano v \<le> T \<and> fits v"
    "\<And>t. latest t series = (if t \<le> T then latest t (out @ vals m) else latest t (concat (map live ps)))"
    "\<And>p. p \<in> set ps \<Longrightarrow> holds key p \<and> (\<forall>v \<in> set (contents p). fits v)" "in_sequence (map fst ps)"
    using inv by (auto simp: merge_inv_def)
  have mem: "v \<in> set (vals m) \<or> v \<in> set ?new" if "v \<in> set (vals m')" for v
  proof -
    have "latest (UnixNano v) (vals m') = Some v" using that latest_ordered [OF m'(2)] by blast
    then have "latest (UnixNano v) (vals m @ ?new) = Some v" using l new by simp
    from latest_SomeD [OF this] show ?thesis by auto
  qed
  have fits_new: "fits v" if "v \<in> set ?new" for v using that i(4) by (fastforce simp: live_values_def)
  have up: "UnixNano v \<le> mx \<and> fits v" if "v \<in> set (out @ vals m')" for v
    using that mem [of v] i(2) [of v] lt fits_new [of v] by auto
  have "UnixNano v < UnixNano w" if "v \<in> set out" "w \<in> set (vals m')" for v w
    using mem [OF that(2)] i(1) i(2) [of v] that(1) by (auto simp: ordered_append)
  then have o': "ordered (out @ vals m')" using i(1) m'(2) by (simp add: ordered_append)
  have "latest t series = (if t \<le> mx then latest t (out @ vals m') else latest t (concat (map live ps)))" for t
  proof -
    have lm: "latest t (vals m') = latest t (vals m @ ?new)" using l new by simp
    consider "t \<le> T" | "T < t" "t \<le> mx" | "mx < t" by linarith
    then show ?thesis
    proof cases
      case 1
      then have "latest t ?new = None" by (intro latest_NoneI) auto
      then show ?thesis using i(3) [of t] lm 1 lt by (simp add: latest_append split: option.splits)
    next
      case 2
      have "latest t (out @ vals m) = None" using i(2) 2(1) by (intro latest_NoneI) fastforce
      then have "latest t out = None" "latest t (vals m) = None" by (simp_all add: latest_append split: option.splits)
      moreover have "latest t ?new = latest t (concat (map live ps))" using 2 by (intro latest_filter) simp
      ultimately show ?thesis using i(3) [of t] lm 2 by (simp add: latest_append split: option.splits)
    qed (use i(3) [of t] lt in simp)
  qed
  then show ?thesis using m'(1) o' up i(4,5) by (simp add: merge_inv_def)
qed

lemma dropWhile_read:
  "(\<And>p. p \<in> set ps \<Longrightarrow> holds key p) \<Longrightarrow>
   dropWhile bk_read (map (read_to mk T) ps) = map (read_to mk T) (dropWhile (\<lambda>p. bk_maxTime (fst p) \<le> T) ps)"
  using bk_read_to [of key] by (auto simp: dropWhile_map comp_def intro!: arg_cong [where f = "map _"] dropWhile_cong)

lemma dedup_round:
  assumes inv: "merge_inv key series out m T ps" and ne: "ps \<noteq> []" and hd: "T < bk_maxTime (fst (hd ps))"
    and w: "dedup_window (map (read_to mk T) ps) = (mn, mx)"
  shows "\<exists>m'. merge_overlapping ev key mn mx (map (read_to mk T) ps) m = Inr (map (read_to mk mx) ps, m', None) \<and>
    merge_inv key series out m' mx ps \<and>
    length (filter (\<lambda>p. mx < bk_maxTime (fst p)) ps) < length (filter (\<lambda>p. T < bk_maxTime (fst p)) ps)"
proof -
  have h: "\<And>p. p \<in> set ps \<Longrightarrow> holds key p" using inv by (simp add: merge_inv_def)
  then have hh: "holds key (hd ps)" using ne by simp
  have sq: "in_sequence (map (read_to mk T) ps)" using inv by (simp add: merge_inv_def in_sequence_def successively_map)
  have rd: "bk_read b \<longleftrightarrow> bk_maxTime b \<le> T" if b: "b \<in> set (map (read_to mk T) ps)" for b
  proof -
    obtain p where "p \<in> set ps" "b = read_to mk T p" using b by auto
    then show ?thesis using bk_read_to [OF h] by simp
  qed
  have W: "T < mx" "\<exists>p \<in> set ps. bk_maxTime (fst p) = mx" "\<And>p. p \<in> set ps \<Longrightarrow> mn \<le> bk_minTime (fst p) \<or> mn \<le> T"
    using dedup_window_spec [OF rd sq _ _ _ w] bk_read_to [OF hh, of T] ne hd
      holds_times [OF hh last_in_set [OF holds_simps(3) [OF hh]]] by (auto simp: hd_map)
  obtain m' where m': "merge_overlapping ev key mn mx (map (read_to mk T) ps) m = Inr (map (read_to mk mx) ps, m', None)"
    "arr_wf m'" "ordered (vals m')"
    "\<And>t. latest t (vals m') = latest t (vals m @ concat (map (\<lambda>p. filter (\<lambda>v. T < UnixNano v \<and> UnixNano v \<le> mx) (live p)) ps))"
    using merge_overlapping_spec [where ps = ps and m = m, OF h W(1) W(3) _ merge_inv_ordered [OF inv]] inv unfolding merge_inv_def by blast
  moreover have "length (filter (\<lambda>p. mx < bk_maxTime (fst p)) ps) < length (filter (\<lambda>p. T < bk_maxTime (fst p)) ps)"
    using W(1,2) by (auto intro: length_filter_less)
  ultimately show ?thesis using merge_inv_round [OF inv W(1)] by blast
qed

text \<open>Each round reads at least one block to its end, so that the number of blocks bounds the number of rounds.\<close>

lemma dedup_rounds_spec:
  assumes "merge_inv key series out m T ps" and "length (filter (\<lambda>p. T < bk_maxTime (fst p)) ps) \<le> n"
  shows "\<exists>T' ps' m'. dedup_rounds (Suc n) ev key sz (map (read_to mk T) ps) m = Inr (map (read_to mk T') ps', m', None) \<and>
    merge_inv key series out m' T' ps' \<and> suffix ps' ps \<and> (sz \<le> arr_Len m' \<or> ps' = [])"
  using assms
proof (induction n arbitrary: T ps m rule: less_induct)
  case (less n)
  let ?qs = "dropWhile (\<lambda>p. bk_maxTime (fst p) \<le> T) ps"
  have h: "\<And>p. p \<in> set ps \<Longrightarrow> holds key p" using less.prems(1) by (simp add: merge_inv_def)
  have inv: "merge_inv key series out m T ?qs"
    using merge_inv_drop [of key series out m T "takeWhile (\<lambda>p. bk_maxTime (fst p) \<le> T) ps" ?qs] less.prems(1) by (auto dest: set_takeWhileD)
  have dr: "dropWhile bk_read (map (read_to mk T) ps) = map (read_to mk T) ?qs" by (rule dropWhile_read [OF h])
  consider "\<not> (arr_Len m < sz \<and> ps \<noteq> [])" | "arr_Len m < sz" "ps \<noteq> []" "?qs = []" | "arr_Len m < sz" "ps \<noteq> []" "?qs \<noteq> []" by blast
  then show ?case
  proof cases
    case 1
    then show ?thesis using less.prems(1) by (intro exI [of _ T] exI [of _ ps] exI [of _ m]) auto
  next
    case 2
    have "merge_inv key series out m T []" using inv unfolding 2(3) .
    then show ?thesis using 2 dr by (intro exI [of _ T] exI [of _ "[]"] exI [of _ m]) simp
  next
    case 3
    obtain mn mx where w: "dedup_window (map (read_to mk T) ?qs) = (mn, mx)" by fastforce
    have hd: "T < bk_maxTime (fst (hd ?qs))" using hd_dropWhile [OF 3(3)] by simp
    obtain m' where m': "merge_overlapping ev key mn mx (map (read_to mk T) ?qs) m = Inr (map (read_to mk mx) ?qs, m', None)"
      "merge_inv key series out m' mx ?qs"
      "length (filter (\<lambda>p. mx < bk_maxTime (fst p)) ?qs) < length (filter (\<lambda>p. T < bk_maxTime (fst p)) ?qs)"
      using dedup_round [OF inv 3(3) hd w] by blast
    have "length (filter (\<lambda>p. T < bk_maxTime (fst p)) ?qs) \<le> length (filter (\<lambda>p. T < bk_maxTime (fst p)) ps)"
      by (metis (no_types, lifting) dropWhile_eq_drop length_filter_drop_le)
    then obtain k where k: "n = Suc k" "length (filter (\<lambda>p. mx < bk_maxTime (fst p)) ?qs) \<le> k"
      using m'(3) less.prems(2) by (cases n) auto
    obtain T'' ps' m'' where
      r: "dedup_rounds (Suc k) ev key sz (map (read_to mk mx) ?qs) m' = Inr (map (read_to mk T'') ps', m'', None)"
      "merge_inv key series out m'' T'' ps'" "suffix ps' ?qs" "sz \<le> arr_Len m'' \<or> ps' = []"
      using less.IH [of k, OF _ m'(2) k(2)] k(1) by blast
    have "dedup_rounds (Suc n) ev key sz (map (read_to mk T) ps) m = Inr (map (read_to mk T'') ps', m'', None)"
      using 3 w m'(1) dr r(1) unfolding k(1) by (subst dedup_rounds.simps(2)) (simp del: dedup_rounds.simps dropWhile_eq_Nil_conv add: Let_def)
    then show ?thesis using r(2,4) suffix_order.trans [OF r(3) suffix_dropWhile] by blast
  qed
qed

section \<open>One call of combine\<close>

text \<open>A pair of an emitted block and the array it holds: a chunk of at most \<open>size\<close> values, or a block that was passed on.\<close>

definition emitted :: "bytes \<Rightarrow> nat \<Rightarrow> (block \<times> 'v array) list \<Rightarrow> block \<times> 'v array \<Rightarrow> bool" where
  "emitted key sz ps q \<longleftrightarrow> holds key q \<and> bk_tombstones (fst q) = [] \<and>
     (arr_Len (snd q) \<le> sz \<or> (\<exists>p \<in> set ps. bk_b (fst q) = bk_b (fst p) \<and> snd q = snd p))"

lemma merge_inv_shift:
  assumes "merge_inv key series out m T ps" and "vals m = x @ vals m'" and "arr_wf m'"
  shows "merge_inv key series (out @ x) m' T ps"
  using assms unfolding merge_inv_def by (simp add: assms(2))

lemma vals_drop: "vals \<lparr>ar_ts = drop n (ar_ts a), ar_vs = drop n (ar_vs a)\<rparr> = drop n (vals a)"
  by (simp add: arr_values_def drop_map drop_zip)

lemma vals_take: "vals \<lparr>ar_ts = take n (ar_ts a), ar_vs = take n (ar_vs a)\<rparr> = take n (vals a)"
  by (simp add: arr_values_def take_map take_zip)

lemma empty_array_simps [simp]: "vals empty_array = []" "arr_wf empty_array" "arr_Len empty_array = 0"
  by (simp_all add: empty_array_def arr_values_def arr_wf_def arr_Len_def)

lemma encode_part:
  assumes "merge_inv key series out m T ps" and "arr_wf a" and "vals m = vals a @ rest" and "0 < arr_Len a" and "arr_Len a \<le> cap"
  shows "\<exists>cb. me_Encode ev a = Inr cb \<and> holds key (chunk_block key a cb, a)"
proof -
  have "ordered (vals a)" "\<forall>v \<in> set (vals a). fits v"
    using assms(1,3) by (simp_all add: merge_inv_def ordered_append)
  then show ?thesis using encode [OF assms(2,4,5)] by simp
qed

lemma chunk_spec:
  assumes inv: "merge_inv key series out m T ps" and sz: "0 < it_size it" "it_size it \<le> cap" and key: "it_key it = key"
  shows "\<exists>qs m'. chunk ev dst it m = Inr (dst @ map fst qs, it, m') \<and> (\<forall>q \<in> set qs. emitted key (it_size it) inputs q) \<and>
    merge_inv key series (out @ concat (map contents qs)) m' T ps \<and> (qs = [] \<longrightarrow> m' = m \<and> arr_Len m = 0)"
proof -
  have wf: "arr_wf m" using inv by (simp add: merge_inv_def)
  consider "it_size it < arr_Len m" | "0 < arr_Len m" "arr_Len m \<le> it_size it" | "arr_Len m = 0" by linarith
  then show ?thesis
  proof cases
    case 1
    let ?a = "\<lparr>ar_ts = take (it_size it) (ar_ts m), ar_vs = take (it_size it) (ar_vs m)\<rparr>"
      and ?r = "\<lparr>ar_ts = drop (it_size it) (ar_ts m), ar_vs = drop (it_size it) (ar_vs m)\<rparr>"
    have a: "arr_wf ?a" "arr_Len ?a = it_size it" "arr_wf ?r" using 1 wf by (simp_all add: arr_wf_def arr_Len_def)
    have v: "vals m = vals ?a @ vals ?r" by (simp add: vals_take vals_drop)
    obtain cb where cb: "me_Encode ev ?a = Inr cb" "holds key (chunk_block key ?a cb, ?a)"
      using encode_part [OF inv a(1) v, unfolded a(2), OF sz] by blast
    let ?q = "(chunk_block key ?a cb, ?a)"
    have "chunk ev dst it m = Inr (dst @ map fst [?q], it, ?r)"
      using 1 sz(1) key cb(1) by (simp add: chunk_def try_result_def)
    moreover have "emitted key (it_size it) inputs ?q" using cb(2) a(2) by (simp add: emitted_def chunk_block_def)
    moreover have "merge_inv key series (out @ concat (map contents [?q])) ?r T ps" using merge_inv_shift [OF inv v a(3)] by simp
    ultimately show ?thesis by (intro exI [of _ "[?q]"] exI [of _ ?r]) simp
  next
    case 2
    have v: "vals m = vals m @ vals empty_array" by simp
    obtain cb where cb: "me_Encode ev m = Inr cb" "holds key (chunk_block key m cb, m)"
      using encode_part [OF inv wf v 2(1)] le_trans [OF 2(2) sz(2)] by blast
    let ?q = "(chunk_block key m cb, m)"
    have "chunk ev dst it m = Inr (dst @ map fst [?q], it, empty_array)"
      using 2 key cb(1) by (simp add: chunk_def try_result_def)
    moreover have "emitted key (it_size it) inputs ?q" using cb(2) 2 by (simp add: emitted_def chunk_block_def)
    moreover have "merge_inv key series (out @ concat (map contents [?q])) empty_array T ps" using merge_inv_shift [OF inv v] by simp
    ultimately show ?thesis by (intro exI [of _ "[?q]"] exI [of _ empty_array]) simp
  next
    case 3
    then show ?thesis using inv by (intro exI [of _ "[]"] exI [of _ m]) (simp add: chunk_def)
  qed
qed

lemma combine_dedup_spec:
  assumes inv: "merge_inv key series out m T ps" and sz: "0 < it_size it" "it_size it \<le> cap" and key: "it_key it = key"
    and bs: "it_blocks it = map (read_to mk T) ps" and fuel: "length ps < me_fuel ev"
  shows "\<exists>T' ps' m' qs. combine ev True it m = Inr (map fst qs, it\<lparr>it_blocks := map (read_to mk T') ps'\<rparr>, m') \<and>
    (\<forall>q \<in> set qs. emitted key (it_size it) inputs q) \<and> merge_inv key series (out @ concat (map contents qs)) m' T' ps' \<and>
    suffix ps' ps \<and> (qs = [] \<longrightarrow> arr_Len m' = 0 \<and> ps' = [])"
proof -
  obtain n where n: "me_fuel ev = Suc n" "length ps \<le> n" using fuel by (cases "me_fuel ev") auto
  have "length (filter (\<lambda>p. T < bk_maxTime (fst p)) ps) \<le> n" using n(2) length_filter_le le_trans by blast
  from dedup_rounds_spec [OF inv this, where sz = "it_size it"] obtain T' ps' m1 where
    r: "dedup_rounds (me_fuel ev) ev key (it_size it) (map (read_to mk T) ps) m = Inr (map (read_to mk T') ps', m1, None)"
    "merge_inv key series out m1 T' ps'" "suffix ps' ps" "it_size it \<le> arr_Len m1 \<or> ps' = []"
    unfolding n(1) by blast
  let ?it = "it\<lparr>it_blocks := map (read_to mk T') ps'\<rparr>"
  obtain qs m' where c: "chunk ev [] ?it m1 = Inr (map fst qs, ?it, m')" "\<forall>q \<in> set qs. emitted key (it_size it) inputs q"
    "merge_inv key series (out @ concat (map contents qs)) m' T' ps'" "qs = [] \<longrightarrow> m' = m1 \<and> arr_Len m1 = 0"
    using chunk_spec [OF r(2), of ?it "[]" inputs] sz key by auto
  have "combine ev True it m = Inr (map fst qs, ?it, m')"
    using r(1) c(1) key bs by (simp add: combine_def)
  then show ?thesis using c(2-4) r(3,4) sz(1) by (intro exI [of _ T'] exI [of _ ps'] exI [of _ m'] exI [of _ qs]) auto
qed

text \<open>Blocks that need no decoding: one after the other in time, without tombstones, each read to its end or not at all.\<close>

definition ready :: "int \<Rightarrow> (block \<times> 'v array) list \<Rightarrow> bool" where
  "ready T ps \<longleftrightarrow> sorted_wrt (\<lambda>p q. bk_maxTime (fst p) < bk_minTime (fst q)) ps \<and>
     (\<forall>p \<in> set ps. bk_tombstones (fst p) = [] \<and> (bk_maxTime (fst p) \<le> T \<or> T < bk_minTime (fst p)))"

lemma live_no_tombstones: "bk_tombstones (fst p) = [] \<Longrightarrow> live p = contents p"
  by (simp add: live_values_def tombstoned_def)

lemma untouched:
  assumes "holds key p" and "T < bk_minTime (fst p)"
  shows "read_to mk T p = (fst p)\<lparr>bk_readMin := max_i64, bk_readMax := min_i64\<rparr>" and "filter (\<lambda>v. UnixNano v \<le> T) (contents p) = []"
proof -
  show e: "filter (\<lambda>v. UnixNano v \<le> T) (contents p) = []"
    using holds_times [OF assms(1)] assms(2) by (fastforce simp: filter_empty_conv)
  show "read_to mk T p = (fst p)\<lparr>bk_readMin := max_i64, bk_readMax := min_i64\<rparr>" using e by (simp add: read_to_def)
qed

text \<open>The first block, if it is not read, goes behind the merged values.\<close>

lemma ready_pass:
  assumes inv: "merge_inv key series out m T (p # ps)" and rd: "ready T (p # ps)" and un: "T < bk_maxTime (fst p)"
    and m': "arr_wf m'" "vals m' = vals m @ contents p"
  shows "merge_inv key series out m' (bk_maxTime (fst p)) ps \<and> ready (bk_maxTime (fst p)) ps \<and>
    map (read_to mk (bk_maxTime (fst p))) ps = map (read_to mk T) ps"
proof -
  have h: "\<And>q. q \<in> set (p # ps) \<Longrightarrow> holds key q \<and> (\<forall>v \<in> set (contents q). fits v)" using inv by (auto simp: merge_inv_def)
  have hp: "holds key p" using h by simp
  have T: "T < bk_minTime (fst p)" using rd un by (auto simp: ready_def)
  have later: "bk_maxTime (fst p) < bk_minTime (fst q)" "T < bk_minTime (fst q)" if "q \<in> set ps" for q
    using rd that un by (auto simp: ready_def)
  have rd': "ready (bk_maxTime (fst p)) ps" using rd later by (auto simp: ready_def)
  have same: "map (read_to mk (bk_maxTime (fst p))) ps = map (read_to mk T) ps"
  proof (rule map_cong [OF refl])
    fix q assume "q \<in> set ps"
    then show "read_to mk (bk_maxTime (fst p)) q = read_to mk T q"
      using h [of q] later [of q] untouched(1) [of key q T] untouched(1) [of key q "bk_maxTime (fst p)"] by simp
  qed
  have i: "ordered (out @ vals m)" "\<And>v. v \<in> set (out @ vals m) \<Longrightarrow> UnixNano v \<le> T \<and> fits v"
    "\<And>t. latest t series = (if t \<le> T then latest t (out @ vals m) else latest t (concat (map live (p # ps))))"
    "in_sequence (map fst ps)"
    using inv by (auto simp: merge_inv_def in_sequence_def successively_Cons)
  have tp: "T < UnixNano v \<and> UnixNano v \<le> bk_maxTime (fst p)" if "v \<in> set (contents p)" for v
    using holds_times [OF hp that] T by simp
  have "UnixNano v < UnixNano w" if "v \<in> set (out @ vals m)" "w \<in> set (contents p)" for v w
    using i(2) [OF that(1)] tp [OF that(2)] by simp
  then have "ordered ((out @ vals m) @ contents p)"
    using i(1) holds_simps(2) [OF hp] by (simp only: ordered_append [of "out @ vals m"]) blast
  moreover have "UnixNano v \<le> bk_maxTime (fst p) \<and> fits v" if "v \<in> set (out @ vals m')" for v
    using that i(2) [of v] tp [of v] h [of p] un by (auto simp: m'(2))
  moreover have "latest t series = (if t \<le> bk_maxTime (fst p) then latest t (out @ vals m') else latest t (concat (map live ps)))" for t
  proof -
    have lv: "live p = contents p" using rd live_no_tombstones by (simp add: ready_def)
    have after: "latest t (concat (map live ps)) = None" if "t \<le> bk_maxTime (fst p)"
    proof (rule latest_NoneI)
      fix v assume "v \<in> set (concat (map live ps))"
      then obtain q where q: "q \<in> set ps" "v \<in> set (contents q)" by (auto simp: live_values_def)
      then show "UnixNano v \<noteq> t" using holds_times [of key q v] h [of q] later(1) [OF q(1)] that by auto
    qed
    consider "t \<le> T" | "T < t" "t \<le> bk_maxTime (fst p)" | "bk_maxTime (fst p) < t" by linarith
    then show ?thesis
    proof cases
      case 1
      then have "latest t (contents p) = None" using tp by (intro latest_NoneI) fastforce
      then show ?thesis using i(3) [of t] 1 un by (simp add: m'(2) latest_append split: option.splits)
    next
      case 2
      have "latest t (out @ vals m) = None" using i(2) 2(1) by (intro latest_NoneI) fastforce
      then show ?thesis using i(3) [of t] 2 after by (simp add: m'(2) lv latest_append split: option.splits)
    next
      case 3
      then have "latest t (contents p) = None" using tp by (intro latest_NoneI) fastforce
      then show ?thesis using i(3) [of t] 3 un by (simp add: lv latest_append split: option.splits)
    qed
  qed
  moreover have "\<forall>q \<in> set ps. holds key q \<and> (\<forall>v \<in> set (contents q). fits v)" using inv by (simp add: merge_inv_def)
  ultimately have "merge_inv key series out m' (bk_maxTime (fst p)) ps" using m' i(4) by (simp add: merge_inv_def)
  then show ?thesis using rd' same by blast
qed

lemma ready_drop:
  assumes "merge_inv key series out m T (p # ps)" and "ready T (p # ps)" and "bk_maxTime (fst p) \<le> T"
  shows "merge_inv key series out m T ps \<and> ready T ps"
  using assms merge_inv_drop [of key series out m T "[p]" ps] by (simp add: ready_def)

lemma holds_read_to: "holds key p \<Longrightarrow> holds key (read_to mk T p, snd p)"
  by (cases "IsPtrBlock (bk_b (fst p))") (simp_all add: block_holds_def)

text \<open>Blocks passed on as they are.\<close>

lemma pass_blocks:
  assumes "merge_inv key series out m T (xs @ ys)" and "arr_Len m = 0" and "ready T (xs @ ys)"
    and "\<And>p. p \<in> set xs \<Longrightarrow> \<exists>p' \<in> set inputs. bk_b (fst p) = bk_b (fst p') \<and> snd p = snd p'"
  shows "\<exists>T' qs. map fst qs = filter (\<lambda>b. \<not> bk_read b) (map (read_to mk T) xs) \<and> (\<forall>q \<in> set qs. emitted key sz inputs q) \<and>
    merge_inv key series (out @ concat (map contents qs)) m T' ys \<and> ready T' ys \<and> map (read_to mk T') ys = map (read_to mk T) ys"
  using assms
proof (induction xs arbitrary: out T)
  case Nil
  then show ?case by (intro exI [of _ T] exI [of _ "[]"]) simp
next
  case (Cons p xs)
  have h: "holds key p" using Cons.prems(1) by (simp add: merge_inv_def)
  show ?case
  proof (cases "bk_maxTime (fst p) \<le> T")
    case True
    then have "bk_read (read_to mk T p)" using bk_read_to [OF h] by simp
    then show ?thesis using Cons.IH [of out T] ready_drop [of key series out m T p "xs @ ys"] Cons.prems True by simp
  next
    case False
    let ?T = "bk_maxTime (fst p)" and ?q = "(read_to mk T p, snd p)"
    have wf: "arr_wf m" "vals m = []" using Cons.prems(1,2) vals_Nil_iff [of m] by (simp_all add: merge_inv_def)
    have P: "merge_inv key series out (snd p) ?T (xs @ ys) \<and> ready ?T (xs @ ys) \<and> map (read_to mk ?T) (xs @ ys) = map (read_to mk T) (xs @ ys)"
      using ready_pass [of key series out m T p "xs @ ys" "snd p"] Cons.prems False holds_simps(1) [OF h] wf(2) by simp
    have "merge_inv key series (out @ contents p) m ?T (xs @ ys)"
      using merge_inv_shift [of key series out "snd p" ?T "xs @ ys" "contents p" m] P wf by simp
    then obtain T' qs where qs: "map fst qs = filter (\<lambda>b. \<not> bk_read b) (map (read_to mk ?T) xs)" "\<forall>q \<in> set qs. emitted key sz inputs q"
      "merge_inv key series ((out @ contents p) @ concat (map contents qs)) m T' ys" "ready T' ys" "map (read_to mk T') ys = map (read_to mk ?T) ys"
      using Cons.IH [of "out @ contents p" ?T] Cons.prems(2,4) P by auto
    have "emitted key sz inputs ?q"
      using holds_read_to [OF h, of T] Cons.prems(3) Cons.prems(4) [of p] by (simp add: emitted_def ready_def)
    moreover have "\<not> bk_read (read_to mk T p)" using bk_read_to [OF h] False by simp
    moreover have "map (read_to mk ?T) xs = map (read_to mk T) xs" "map (read_to mk ?T) ys = map (read_to mk T) ys" using P by simp_all
    ultimately show ?thesis
      using qs(2-4) qs(1,5) [symmetric] by (intro exI [of _ T'] exI [of _ "?q # qs"]) (simp del: map_eq_conv)
  qed
qed

lemma full_blocks_split:
  assumes "\<And>p. p \<in> set ps \<Longrightarrow> holds key p"
  shows "\<exists>xs ys. ps = xs @ ys \<and>
    full_blocks (map (read_to mk T) ps) it mg = Inr (it, mg @ filter (\<lambda>b. \<not> bk_read b) (map (read_to mk T) xs), map (read_to mk T) ys)"
  using assms
proof (induction ps arbitrary: mg)
  case (Cons p ps)
  let ?b = "read_to mk T p"
  have IH: "\<exists>xs ys. p # ps = (p # xs) @ ys \<and> full_blocks (map (read_to mk T) ps) it mg' =
      Inr (it, mg' @ filter (\<lambda>b. \<not> bk_read b) (map (read_to mk T) xs), map (read_to mk T) ys)" for mg'
    using Cons.IH [of mg'] Cons.prems by simp
  have h: "holds key p" using Cons.prems by simp
  then obtain ptr where ptr: "IsPtrBlock (bk_b (fst p)) = Inr ptr" "ptr \<or> BlockCount (bk_b (fst p)) = Inr (int (arr_Len (snd p)))"
    by (auto simp: block_holds_def split: sum.splits)
  consider "bk_read ?b" | "\<not> bk_read ?b" "\<not> ptr" "arr_Len (snd p) < it_size it" | "\<not> bk_read ?b" "ptr \<or> \<not> arr_Len (snd p) < it_size it" by blast
  then show ?case
  proof cases
    case 1
    obtain xs ys where "p # ps = (p # xs) @ ys" "full_blocks (map (read_to mk T) ps) it mg =
        Inr (it, mg @ filter (\<lambda>b. \<not> bk_read b) (map (read_to mk T) xs), map (read_to mk T) ys)"
      using IH [of mg] by blast
    then show ?thesis using 1 by (intro exI [of _ "p # xs"] exI [of _ ys]) simp
  next
    case 2
    then show ?thesis using ptr by (intro exI [of _ "[]"] exI [of _ "p # ps"]) (simp add: try_result_def)
  next
    case 3
    obtain xs ys where xs: "p # ps = (p # xs) @ ys" "full_blocks (map (read_to mk T) ps) it (mg @ [?b]) =
        Inr (it, (mg @ [?b]) @ filter (\<lambda>b. \<not> bk_read b) (map (read_to mk T) xs), map (read_to mk T) ys)"
      using IH [of "mg @ [?b]"] by blast
    then show ?thesis using 3 ptr by (intro exI [of _ "p # xs"] exI [of _ ys]) (auto simp: try_result_def)
  qed
qed simp

lemma Merge_behind:
  assumes "arr_wf a" "arr_wf b" "ordered (vals a @ vals b)"
  shows "arr_wf (arr_Merge a b) \<and> vals (arr_Merge a b) = vals a @ vals b"
proof -
  have o: "ordered (vals a)" "ordered (vals b)" using assms(3) by (simp_all add: ordered_append)
  have M: "arr_wf (arr_Merge a b)" "ordered (vals (arr_Merge a b))" "\<And>t. latest t (vals (arr_Merge a b)) = latest t (vals a @ vals b)"
    using Merge_latest [OF assms(1,2) o] by blast+
  show ?thesis using M(1) ordered_ext [OF M(2) assms(3) M(3)] by blast
qed

lemma small_blocks_spec:
  assumes "merge_inv key series out m T ps" and "ready T ps" and "\<And>p. p \<in> set ps \<Longrightarrow> IsPtrBlock (bk_b (fst p)) = Inr False"
  shows "\<exists>T' ys m' passed'. small_blocks ev sz passed (map (read_to mk T) ps) m = Inr (passed', map (read_to mk T') ys, m', None) \<and>
    merge_inv key series out m' T' ys \<and> suffix ys ps \<and> (sz \<le> arr_Len m' \<or> ys = [])"
  using assms
proof (induction ps arbitrary: m T passed)
  case Nil
  then show ?case by (intro exI [of _ T] exI [of _ "[]"] exI [of _ m] exI [of _ passed]) simp
next
  case (Cons p ps)
  let ?b = "read_to mk T p"
  have h: "holds key p" using Cons.prems(1) by (simp add: merge_inv_def)
  note s = holds_simps [OF h]
  consider "\<not> arr_Len m < sz" | "arr_Len m < sz" "bk_maxTime (fst p) \<le> T" | "arr_Len m < sz" "T < bk_maxTime (fst p)" by linarith
  then show ?case
  proof cases
    case 1
    then show ?thesis
      using Cons.prems(1) by (intro exI [of _ T] exI [of _ "p # ps"] exI [of _ m] exI [of _ passed]) simp
  next
    case 2
    then obtain T' ys m' passed' where "small_blocks ev sz (passed @ [?b]) (map (read_to mk T) ps) m = Inr (passed', map (read_to mk T') ys, m', None)"
      "merge_inv key series out m' T' ys" "suffix ys ps" "sz \<le> arr_Len m' \<or> ys = []"
      using Cons.IH [of m T "passed @ [?b]"] ready_drop [OF Cons.prems(1,2)] Cons.prems(3) by auto
    then show ?thesis
      using 2 bk_read_to [OF h, of T] by (intro exI [of _ T'] exI [of _ ys] exI [of _ m'] exI [of _ passed']) (simp add: suffix_ConsI)
  next
    case 3
    let ?T = "bk_maxTime (fst p)" and ?m = "arr_Merge m (snd p)"
    let ?b2 = "bk_markRead (bk_minTime ?b) (bk_maxTime ?b) ?b"
    have T: "T < bk_minTime (fst p)" using Cons.prems(2) 3 by (auto simp: ready_def)
    have o: "ordered (vals m @ contents p)"
    proof -
      have "UnixNano v < UnixNano w" if "v \<in> set (vals m)" "w \<in> set (contents p)" for v w
      proof -
        have "UnixNano v \<le> T" using that(1) Cons.prems(1) by (simp add: merge_inv_def)
        then show ?thesis using holds_times [OF h that(2)] T by simp
      qed
      then show ?thesis using merge_inv_ordered [OF Cons.prems(1)] s(2) by (simp add: ordered_append)
    qed
    have M: "arr_wf ?m" "vals ?m = vals m @ contents p"
      using Merge_behind [OF _ s(1) o] Cons.prems(1) by (simp_all add: merge_inv_def)
    have P: "merge_inv key series out ?m ?T ps" "ready ?T ps" "map (read_to mk ?T) ps = map (read_to mk T) ps"
      using ready_pass [OF Cons.prems(1,2) 3(2) M] by blast+
    obtain T' ys m' passed' where r: "small_blocks ev sz (passed @ [?b2]) (map (read_to mk ?T) ps) ?m = Inr (passed', map (read_to mk T') ys, m', None)"
      "merge_inv key series out m' T' ys" "suffix ys ps" "sz \<le> arr_Len m' \<or> ys = []"
      using Cons.IH [OF P(1,2), of "passed @ [?b2]"] Cons.prems(3) by auto
    have d: "me_Decode ev (bk_b (fst p)) = Inr (snd p)" "bk_maxTime ?b = arr_MaxTime (snd p)" using h Cons.prems(3) [of p] by (simp_all add: block_holds_def)
    then have same: "?b\<lparr>bk_maxTime := arr_MaxTime (snd p)\<rparr> = ?b" by (metis block.surjective block.update_convs(3) read_to_simps(3))
    have "exclude_tombstones (bk_tombstones (fst p)) (snd p) = snd p" using Cons.prems(2) by (simp add: ready_def exclude_tombstones_def)
    then have "small_blocks ev sz passed (map (read_to mk T) (p # ps)) m = Inr (passed', map (read_to mk T') ys, m', None)"
      using 3 bk_read_to [OF h, of T] Cons.prems(3) [of p] s(4) r(1) [unfolded P(3)] d by (simp add: try_result_def Let_def same)
    then show ?thesis using r(2,4) suffix_ConsI [OF r(3), of p] by blast
  qed
qed

lemma combine_pass_spec:
  assumes inv: "merge_inv key series out m T ps" and rd: "ready T ps" and m: "arr_Len m = 0"
    and sz: "0 < it_size it" "it_size it \<le> cap" and key: "it_key it = key"
    and bs: "it_blocks it = map (read_to mk T) ps" and mg: "it_merged it = []"
    and ptr: "it_fast it \<or> (\<forall>p \<in> set ps. IsPtrBlock (bk_b (fst p)) = Inr False)"
    and inp: "\<And>p. p \<in> set ps \<Longrightarrow> \<exists>p' \<in> set inputs. bk_b (fst p) = bk_b (fst p') \<and> snd p = snd p'"
  shows "\<exists>T' ps' m' qs. combine ev False it m = Inr (map fst qs, it\<lparr>it_blocks := map (read_to mk T') ps'\<rparr>, m') \<and>
    (\<forall>q \<in> set qs. emitted key (it_size it) inputs q) \<and> merge_inv key series (out @ concat (map contents qs)) m' T' ps' \<and>
    suffix ps' ps \<and> (qs = [] \<longrightarrow> arr_Len m' = 0 \<and> ps' = [])"
proof -
  let ?u = "filter (\<lambda>b. \<not> bk_read b)"
  have h: "\<And>p. p \<in> set ps \<Longrightarrow> holds key p" using inv by (simp add: merge_inv_def)
  obtain xs ys where f: "ps = xs @ ys" "full_blocks (map (read_to mk T) ps) it [] = Inr (it, ?u (map (read_to mk T) xs), map (read_to mk T) ys)"
    using full_blocks_split [where ps = ps and mg = "[]" and T = T and it = it, OF h] by (simp only: append_Nil) blast
  define rest where "rest = (if it_fast it \<or> length ys = 1 then [] else ys)"
  define front where "front = (if it_fast it \<or> length ys = 1 then ps else xs)"
  have fr: "ps = front @ rest" using f(1) by (simp add: front_def rest_def)
  obtain T1 qs1 where q1: "map fst qs1 = ?u (map (read_to mk T) front)" "\<forall>q \<in> set qs1. emitted key (it_size it) inputs q"
    "merge_inv key series (out @ concat (map contents qs1)) m T1 rest" "ready T1 rest" "map (read_to mk T1) rest = map (read_to mk T) rest"
    using pass_blocks [where xs = front and ys = rest and inputs = inputs, OF _ m] inv rd inp unfolding fr by (metis UnI1 set_append)
  have np: "\<And>p. p \<in> set rest \<Longrightarrow> IsPtrBlock (bk_b (fst p)) = Inr False" using ptr f(1) by (auto simp: rest_def split: if_splits)
  obtain T' ps' m1 passed where s: "small_blocks ev (it_size it) [] (map (read_to mk T1) rest) m = Inr (passed, map (read_to mk T') ps', m1, None)"
    "merge_inv key series (out @ concat (map contents qs1)) m1 T' ps'" "suffix ps' rest" "it_size it \<le> arr_Len m1 \<or> ps' = []"
    using small_blocks_spec [OF q1(3,4) np] by blast
  let ?it = "it\<lparr>it_blocks := map (read_to mk T') ps'\<rparr>"
  obtain qs2 m' where c: "chunk ev (map fst qs1) ?it m1 = Inr (map fst qs1 @ map fst qs2, ?it, m')" "\<forall>q \<in> set qs2. emitted key (it_size it) inputs q"
    "merge_inv key series ((out @ concat (map contents qs1)) @ concat (map contents qs2)) m' T' ps'" "qs2 = [] \<longrightarrow> m' = m1 \<and> arr_Len m1 = 0"
    using chunk_spec [OF s(2), of ?it "map fst qs1" inputs] sz key by auto
  have "combine ev False it m = Inr (map fst (qs1 @ qs2), ?it, m')"
  proof (cases "it_fast it")
    case True
    then have "rest = []" "front = ps" by (simp_all add: rest_def front_def)
    then show ?thesis using True f c(1) s(1) q1(1) bs mg by (simp add: combine_def)
  next
    case False
    show ?thesis
    proof (cases "\<exists>p. ys = [p]")
      case True
      then obtain p where p: "ys = [p]" by blast
      then have "rest = []" "front = ps" by (simp_all add: rest_def front_def)
      then show ?thesis
        using p False f c(1) s(1) q1(1) bs mg by (cases "bk_read (read_to mk T p)") (simp_all add: combine_def)
    next
      case n1: False
      then have "rest = ys" "front = xs" using False by (auto simp: rest_def front_def length_Suc_conv)
      then show ?thesis
        using n1 False f(2) c(1) s(1) [unfolded q1(5)] q1(1) bs mg by (cases ys rule: remdups_adj.cases) (simp_all add: combine_def)
    qed
  qed
  moreover have "suffix ps' ps" using s(3) fr suffix_appendI by blast
  moreover have "qs1 @ qs2 = [] \<longrightarrow> arr_Len m' = 0 \<and> ps' = []" using c(4) s(4) sz(1) by auto
  ultimately show ?thesis
    using c(2,3) q1(2) by (intro exI [of _ T'] exI [of _ ps'] exI [of _ m'] exI [of _ "qs1 @ qs2"]) auto
qed

section \<open>One call of merge\<close>

lemma not_partiallyRead:
  assumes h: "holds key p" and "\<not> bk_partiallyRead (read_to mk T p)"
  shows "bk_maxTime (fst p) \<le> T \<or> T < bk_minTime (fst p)"
proof (cases "filter (\<lambda>v. UnixNano v \<le> T) (contents p) = []")
  case True
  then show ?thesis using hd_in_set [OF holds_simps(3) [OF h]] holds_simps(5) [OF h] by (auto simp: filter_empty_conv)
next
  case False
  let ?l = "last (filter (\<lambda>v. UnixNano v \<le> T) (contents p))"
  have l: "?l \<in> set (contents p)" "UnixNano ?l \<le> T" using last_in_set [OF False] by auto
  have "\<not> (bk_minTime (fst p) = max_i64 \<and> UnixNano ?l = min_i64)"
    using holds_times [OF h l(1)] by (auto simp: min_i64_def max_i64_def)
  then have "UnixNano ?l = bk_maxTime (fst p)" using assms(2) False by (auto simp: bk_partiallyRead_def read_to_def split: if_splits)
  then show ?thesis using l(2) by simp
qed

lemma scan_overlap_spec:
  assumes "\<And>q. q \<in> set (p # ps) \<Longrightarrow> holds key q" and "in_sequence (map fst (p # ps))"
  shows "\<exists>d. scan_overlap thr (read_to mk T p) (map (read_to mk T) ps) = Inr d \<and>
    (\<not> d \<longrightarrow> successively (\<lambda>p q. bk_maxTime (fst p) < bk_minTime (fst q)) (p # ps) \<and>
      (\<forall>q \<in> set ps. bk_tombstones (fst q) = [] \<and> \<not> bk_partiallyRead (read_to mk T q)))"
  using assms
proof (induction ps arbitrary: p)
  case (Cons q ps)
  have q: "holds key q" "bk_minTime (fst p) \<le> bk_maxTime (fst q)" using Cons.prems by (simp_all add: in_sequence_def)
  then obtain ptr where ptr: "IsPtrBlock (bk_b (fst q)) = Inr ptr" by (auto simp: block_holds_def split: sum.splits)
  obtain d where d: "scan_overlap thr (read_to mk T q) (map (read_to mk T) ps) = Inr d"
    "\<not> d \<longrightarrow> successively (\<lambda>p q. bk_maxTime (fst p) < bk_minTime (fst q)) (q # ps) \<and>
      (\<forall>q \<in> set ps. bk_tombstones (fst q) = [] \<and> \<not> bk_partiallyRead (read_to mk T q))"
    using Cons.IH [of q] Cons.prems by (auto simp: in_sequence_def)
  obtain n where "ptr \<longrightarrow> PtrBlockCount (bk_b (fst q)) = Inr n" using ptr by (auto simp: IsPtrBlock_def PtrBlockCount_def split: list.splits)
  then show ?case using d ptr q(2) by (auto simp: bk_overlapsTimeRange_def)
qed auto

lemma needs_dedup_spec:
  assumes inv: "merge_inv key series out m T ps"
  shows "\<exists>d. needs_dedup thr (map (read_to mk T) ps) m = Inr d \<and> (\<not> d \<longrightarrow> arr_Len m = 0 \<and> ready T ps)"
proof (cases ps)
  case Nil
  then show ?thesis by (auto simp: needs_dedup_def ready_def)
next
  case (Cons p qs)
  have h: "\<And>q. q \<in> set (p # qs) \<Longrightarrow> holds key q" and sq: "in_sequence (map fst (p # qs))"
    using inv unfolding Cons by (auto simp: merge_inv_def)
  obtain d where d: "scan_overlap thr (read_to mk T p) (map (read_to mk T) qs) = Inr d"
    "\<not> d \<longrightarrow> successively (\<lambda>p q. bk_maxTime (fst p) < bk_minTime (fst q)) (p # qs) \<and>
      (\<forall>q \<in> set qs. bk_tombstones (fst q) = [] \<and> \<not> bk_partiallyRead (read_to mk T q))"
    using scan_overlap_spec [OF h sq] by blast
  have le: "bk_minTime (fst q) \<le> bk_maxTime (fst q)" if "q \<in> set (p # qs)" for q
    using holds_times [OF h [OF that] hd_in_set [OF holds_simps(3) [OF h [OF that]]]] by simp
  have tr: "bk_maxTime (fst x) < bk_minTime (fst z)"
    if "y \<in> set (p # qs)" "bk_maxTime (fst x) < bk_minTime (fst y)" "bk_maxTime (fst y) < bk_minTime (fst z)" for x y z
    using le [OF that(1)] that(2,3) by simp
  have "ready T ps" if nd: "\<not> d" "bk_tombstones (fst p) = []" "\<not> bk_partiallyRead (read_to mk T p)"
  proof -
    have "sorted_wrt (\<lambda>p q. bk_maxTime (fst p) < bk_minTime (fst q)) (p # qs)"
      using d(2) nd(1) tr successively_iff_sorted_wrt_strong [of "p # qs" "\<lambda>p q. bk_maxTime (fst p) < bk_minTime (fst q)"] by blast
    then show ?thesis using d(2) nd not_partiallyRead [OF h] unfolding ready_def Cons by auto
  qed
  then show ?thesis using d(1) by (auto simp: needs_dedup_def Cons)
qed

lemma sorted_already:
  assumes "\<And>p. p \<in> set ps \<Longrightarrow> holds key p" and "in_sequence (map fst ps)"
  shows "insertionSort bk_Less (map (read_to mk T) ps) = map (read_to mk T) ps"
proof (rule insertionSort_sorted)
  have "\<not> bk_Less (read_to mk T q) (read_to mk T p)" if "p \<in> set ps" "q \<in> set ps" "bk_minTime (fst p) \<le> bk_maxTime (fst q)" for p q
    using that holds_simps(8) [OF assms(1)] by (simp add: bk_Less_def Let_def)
  then show "successively (\<lambda>a b. \<not> bk_Less b a) (map (read_to mk T) ps)"
    using assms(2) by (auto simp: in_sequence_def successively_map intro: successively_mono)
qed

lemma merge_values_spec:
  assumes inv: "merge_inv key series out m T ps" and sz: "0 < it_size it" "it_size it \<le> cap" and key: "it_key it = key"
    and bs: "it_blocks it = map (read_to mk T) ps" and mg: "it_merged it = []" and fuel: "length ps < min (me_fuel ev) 21"
    and ptr: "it_fast it \<or> (\<forall>p \<in> set ps. IsPtrBlock (bk_b (fst p)) = Inr False)"
    and inp: "\<And>p. p \<in> set ps \<Longrightarrow> \<exists>p' \<in> set inputs. bk_b (fst p) = bk_b (fst p') \<and> snd p = snd p'"
  shows "\<exists>T' ps' m' qs. merge_values ev it m = Inr (it\<lparr>it_blocks := map (read_to mk T') ps', it_merged := map fst qs\<rparr>, m') \<and>
    (\<forall>q \<in> set qs. emitted key (it_size it) inputs q) \<and> merge_inv key series (out @ concat (map contents qs)) m' T' ps' \<and>
    suffix ps' ps \<and> (qs = [] \<longrightarrow> arr_Len m' = 0 \<and> ps' = [])"
proof (cases "ps = [] \<and> arr_Len m = 0")
  case True
  then have "merge_values ev it m = Inr (it\<lparr>it_blocks := map (read_to mk T) [], it_merged := map fst []\<rparr>, m)"
    using bs mg by (cases it) (simp add: merge_values_def)
  then show ?thesis using True inv by (intro exI [of _ T] exI [of _ "[]"] exI [of _ m] exI [of _ "[]"]) simp
next
  case False
  have h: "\<And>p. p \<in> set ps \<Longrightarrow> holds key p" "in_sequence (map fst ps)" using inv by (simp_all add: merge_inv_def)
  have so: "sort_Stable bk_Less (it_blocks it) = map (read_to mk T) ps" using sorted_already [OF h] bs fuel by (simp add: sort_Stable_short)
  let ?it = "it\<lparr>it_blocks := map (read_to mk T) ps\<rparr>"
  obtain d where d: "needs_dedup (it_separateThreshold it) (map (read_to mk T) ps) m = Inr d" "\<not> d \<longrightarrow> arr_Len m = 0 \<and> ready T ps"
    using needs_dedup_spec [OF inv] by blast
  have "\<exists>T' ps' m' qs. combine ev d ?it m = Inr (map fst qs, ?it\<lparr>it_blocks := map (read_to mk T') ps'\<rparr>, m') \<and>
    (\<forall>q \<in> set qs. emitted key (it_size it) inputs q) \<and> merge_inv key series (out @ concat (map contents qs)) m' T' ps' \<and>
    suffix ps' ps \<and> (qs = [] \<longrightarrow> arr_Len m' = 0 \<and> ps' = [])"
  proof (cases d)
    case True
    then show ?thesis using combine_dedup_spec [OF inv, of ?it inputs] sz key fuel by simp
  next
    case nd: False
    then show ?thesis using combine_pass_spec [OF inv, of ?it inputs] d(2) sz key mg ptr inp by simp
  qed
  then obtain T' ps' m' qs where c: "combine ev d ?it m = Inr (map fst qs, ?it\<lparr>it_blocks := map (read_to mk T') ps'\<rparr>, m')"
    "(\<forall>q \<in> set qs. emitted key (it_size it) inputs q) \<and> merge_inv key series (out @ concat (map contents qs)) m' T' ps' \<and>
     suffix ps' ps \<and> (qs = [] \<longrightarrow> arr_Len m' = 0 \<and> ps' = [])" by blast
  have "merge_values ev it m = Inr (it\<lparr>it_blocks := map (read_to mk T') ps', it_merged := map fst qs\<rparr>, m')"
    using False so d(1) c(1) bs by (auto simp: merge_values_def)
  then show ?thesis using c(2) by blast
qed

end

end
