(* ===== verification/CompactKey.thy ===== *)
theory CompactKey
  imports Compact IntCodec BoolCodec StringCodec
begin

text \<open>
  How a compaction goes through the blocks of one key: the calls of \<open>Next\<close> and \<open>Read\<close> of \<open>sstBatchKeyIterator\<close>
  (\<open>iterator_batch_key.go\<close>) between the one that loads the blocks of a key and the one that loads the next key,
  and the five versions of \<open>merge\<close> with the codecs of their types. What they deliver is shown once, in a
  locale, and holds for each type whose codec has the law of \<open>block_merge\<close>.
\<close>

section \<open>The five versions of merge\<close>

text \<open>
  \<open>ReadDataBlocks\<close> reads the blocks that a block of pointers names from the value files, which are the parameter
  \<open>read_ptrs\<close>; any other block stands for itself.
\<close>

definition ReadDataBlocks :: "(bytes \<Rightarrow> bytes \<Rightarrow> bytes list result) \<Rightarrow> bytes \<Rightarrow> bytes \<Rightarrow> bytes list result" where
  "ReadDataBlocks read_ptrs block key = bind_result (IsPtrBlock block) (\<lambda>ptr. if ptr then read_ptrs block key else Inr [block])"

definition array_env ::
  "(u64 list \<times> 'v list \<Rightarrow> bytes result) \<Rightarrow> (bytes \<Rightarrow> u64 list \<times> 'v list \<Rightarrow> (u64 list \<times> 'v list) result) \<Rightarrow>
   (bytes \<Rightarrow> bytes \<Rightarrow> bytes list result) \<Rightarrow> nat \<Rightarrow> 'v merge_env" where
  "array_env enc dec read_ptrs fuel =
     \<lparr>me_Decode = (\<lambda>b. bind_result (dec b ([], [])) (\<lambda>(ts, vs). Inr \<lparr>ar_ts = ts, ar_vs = vs\<rparr>)),
      me_Encode = (\<lambda>a. enc (ar_ts a, ar_vs a)), me_ReadDataBlocks = ReadDataBlocks read_ptrs, me_fuel = fuel\<rparr>"

text \<open>What the iterator is given: the value files, the codec of float arrays, snappy, and the fuel.\<close>

record iterator_env =
  iv_read_ptrs :: "bytes \<Rightarrow> bytes \<Rightarrow> bytes list result"
  iv_EncodeFloatArrayBlock :: "u64 list \<times> u64 list \<Rightarrow> bytes result"
  iv_DecodeFloatArrayBlock :: "bytes \<Rightarrow> u64 list \<times> u64 list \<Rightarrow> (u64 list \<times> u64 list) result"
  iv_snappy_Encode :: "bytes \<Rightarrow> bytes"
  iv_snappy_Decode :: "bytes \<Rightarrow> bytes option"
  iv_snappy_MaxEncodedLen :: "nat \<Rightarrow> int"
  iv_fuel :: nat

definition float_env :: "iterator_env \<Rightarrow> u64 merge_env" where
  "float_env e = array_env (iv_EncodeFloatArrayBlock e) (iv_DecodeFloatArrayBlock e) (iv_read_ptrs e) (iv_fuel e)"

definition integer_env :: "iterator_env \<Rightarrow> u64 merge_env" where
  "integer_env e = array_env EncodeIntegerArrayBlock DecodeIntegerArrayBlock (iv_read_ptrs e) (iv_fuel e)"

definition unsigned_env :: "iterator_env \<Rightarrow> u64 merge_env" where
  "unsigned_env e = array_env EncodeUnsignedArrayBlock DecodeUnsignedArrayBlock (iv_read_ptrs e) (iv_fuel e)"

definition boolean_env :: "iterator_env \<Rightarrow> bool merge_env" where
  "boolean_env e = array_env EncodeBooleanArrayBlock DecodeBooleanArrayBlock (iv_read_ptrs e) (iv_fuel e)"

definition string_env :: "iterator_env \<Rightarrow> bytes merge_env" where
  "string_env e =
     array_env (EncodeStringArrayBlock (iv_snappy_Encode e) (iv_snappy_MaxEncodedLen e)) (DecodeStringArrayBlock (iv_snappy_Decode e))
       (iv_read_ptrs e) (iv_fuel e)"

text \<open>
  The generated copies of \<open>combine\<close> and \<open>chunk\<close>; \<open>merge_values\<close> below calls them through the environment of the type.
\<close>

definition combineFloat :: "iterator_env \<Rightarrow> bool \<Rightarrow> sstBatchKeyIterator \<Rightarrow> u64 array \<Rightarrow> (block list \<times> sstBatchKeyIterator \<times> u64 array) result" where
  "combineFloat e = combine (float_env e)"

definition chunkFloat :: "iterator_env \<Rightarrow> block list \<Rightarrow> sstBatchKeyIterator \<Rightarrow> u64 array \<Rightarrow> (block list \<times> sstBatchKeyIterator \<times> u64 array) result" where
  "chunkFloat e = chunk (float_env e)"

definition combineInteger :: "iterator_env \<Rightarrow> bool \<Rightarrow> sstBatchKeyIterator \<Rightarrow> u64 array \<Rightarrow> (block list \<times> sstBatchKeyIterator \<times> u64 array) result" where
  "combineInteger e = combine (integer_env e)"

definition chunkInteger :: "iterator_env \<Rightarrow> block list \<Rightarrow> sstBatchKeyIterator \<Rightarrow> u64 array \<Rightarrow> (block list \<times> sstBatchKeyIterator \<times> u64 array) result" where
  "chunkInteger e = chunk (integer_env e)"

definition combineUnsigned :: "iterator_env \<Rightarrow> bool \<Rightarrow> sstBatchKeyIterator \<Rightarrow> u64 array \<Rightarrow> (block list \<times> sstBatchKeyIterator \<times> u64 array) result" where
  "combineUnsigned e = combine (unsigned_env e)"

definition chunkUnsigned :: "iterator_env \<Rightarrow> block list \<Rightarrow> sstBatchKeyIterator \<Rightarrow> u64 array \<Rightarrow> (block list \<times> sstBatchKeyIterator \<times> u64 array) result" where
  "chunkUnsigned e = chunk (unsigned_env e)"

definition combineBoolean :: "iterator_env \<Rightarrow> bool \<Rightarrow> sstBatchKeyIterator \<Rightarrow> bool array \<Rightarrow> (block list \<times> sstBatchKeyIterator \<times> bool array) result" where
  "combineBoolean e = combine (boolean_env e)"

definition chunkBoolean :: "iterator_env \<Rightarrow> block list \<Rightarrow> sstBatchKeyIterator \<Rightarrow> bool array \<Rightarrow> (block list \<times> sstBatchKeyIterator \<times> bool array) result" where
  "chunkBoolean e = chunk (boolean_env e)"

definition combineString :: "iterator_env \<Rightarrow> bool \<Rightarrow> sstBatchKeyIterator \<Rightarrow> bytes array \<Rightarrow> (block list \<times> sstBatchKeyIterator \<times> bytes array) result" where
  "combineString e = combine (string_env e)"

definition chunkString :: "iterator_env \<Rightarrow> block list \<Rightarrow> sstBatchKeyIterator \<Rightarrow> bytes array \<Rightarrow> (block list \<times> sstBatchKeyIterator \<times> bytes array) result" where
  "chunkString e = chunk (string_env e)"

definition mergeFloat :: "iterator_env \<Rightarrow> sstBatchKeyIterator \<Rightarrow> sstBatchKeyIterator result" where
  "mergeFloat e it = bind_result (merge_values (float_env e) it (it_mergedFloatValues it)) (\<lambda>(it', v). Inr (it'\<lparr>it_mergedFloatValues := v\<rparr>))"

definition mergeInteger :: "iterator_env \<Rightarrow> sstBatchKeyIterator \<Rightarrow> sstBatchKeyIterator result" where
  "mergeInteger e it = bind_result (merge_values (integer_env e) it (it_mergedIntegerValues it)) (\<lambda>(it', v). Inr (it'\<lparr>it_mergedIntegerValues := v\<rparr>))"

definition mergeUnsigned :: "iterator_env \<Rightarrow> sstBatchKeyIterator \<Rightarrow> sstBatchKeyIterator result" where
  "mergeUnsigned e it = bind_result (merge_values (unsigned_env e) it (it_mergedUnsignedValues it)) (\<lambda>(it', v). Inr (it'\<lparr>it_mergedUnsignedValues := v\<rparr>))"

definition mergeBoolean :: "iterator_env \<Rightarrow> sstBatchKeyIterator \<Rightarrow> sstBatchKeyIterator result" where
  "mergeBoolean e it = bind_result (merge_values (boolean_env e) it (it_mergedBooleanValues it)) (\<lambda>(it', v). Inr (it'\<lparr>it_mergedBooleanValues := v\<rparr>))"

definition mergeString :: "iterator_env \<Rightarrow> sstBatchKeyIterator \<Rightarrow> sstBatchKeyIterator result" where
  "mergeString e it = bind_result (merge_values (string_env e) it (it_mergedStringValues it)) (\<lambda>(it', v). Inr (it'\<lparr>it_mergedStringValues := v\<rparr>))"

definition it_merge :: "iterator_env \<Rightarrow> sstBatchKeyIterator \<Rightarrow> sstBatchKeyIterator result" where
  "it_merge e it =
     (let t = GetBaseType (it_typ it)
      in if t = BlockFloat64 then mergeFloat e it
         else if t = BlockInteger then mergeInteger e it
         else if t = BlockUnsigned then mergeUnsigned e it
         else if t = BlockBoolean then mergeBoolean e it
         else if t = BlockString then mergeString e it
         else Inr (AppendError ErrUnknownBlockType it))"

definition hasMergedValues :: "sstBatchKeyIterator \<Rightarrow> bool" where
  "hasMergedValues it \<longleftrightarrow>
     arr_Len (it_mergedFloatValues it) > 0 \<or> arr_Len (it_mergedIntegerValues it) > 0 \<or> arr_Len (it_mergedUnsignedValues it) > 0 \<or>
     arr_Len (it_mergedStringValues it) > 0 \<or> arr_Len (it_mergedBooleanValues it) > 0"

section \<open>The calls of Next for one key\<close>

definition merge_more :: "(sstBatchKeyIterator \<Rightarrow> sstBatchKeyIterator result) \<Rightarrow> sstBatchKeyIterator \<Rightarrow> (bool \<times> sstBatchKeyIterator) result" where
  "merge_more mrg it = bind_result (mrg it) (\<lambda>it'. Inr (it_merged it' \<noteq> [] \<or> hasMergedValues it', it'))"

text \<open>\<open>Next\<close> up to the point where it reads the blocks of the next key, which it does if this returns false.\<close>

definition next_pending :: "(sstBatchKeyIterator \<Rightarrow> sstBatchKeyIterator result) \<Rightarrow> sstBatchKeyIterator \<Rightarrow> (bool \<times> sstBatchKeyIterator) result" where
  "next_pending mrg it =
     (let it1 = it\<lparr>it_merged := tl (it_merged it)\<rparr>
      in if it_merged it1 \<noteq> [] then Inr (True, it1)
         else bind_result (if hasMergedValues it1 then merge_more mrg it1 else Inr (False, it1)) (\<lambda>(more, it2).
              if more then Inr (True, it2)
              else if it_blocks it2 \<noteq> [] then merge_more mrg it2
              else Inr (False, it2)))"

text \<open>The blocks that \<open>Read\<close> returns between the calls of \<open>Next\<close>, from the merge of the blocks of a key on.\<close>

fun emit_rest :: "nat \<Rightarrow> (sstBatchKeyIterator \<Rightarrow> sstBatchKeyIterator result) \<Rightarrow> sstBatchKeyIterator \<Rightarrow> (block list \<times> sstBatchKeyIterator) result" where
  "emit_rest 0 mrg it = Inl Diverged"
| "emit_rest (Suc n) mrg it =
     bind_result (next_pending mrg it) (\<lambda>(more, it').
       if more then bind_result (emit_rest n mrg it') (\<lambda>(bs, it''). Inr (take 1 (it_merged it) @ bs, it''))
       else Inr (take 1 (it_merged it), it'))"

definition emit_key :: "nat \<Rightarrow> iterator_env \<Rightarrow> sstBatchKeyIterator \<Rightarrow> (block list \<times> sstBatchKeyIterator) result" where
  "emit_key n e it = bind_result (it_merge e it) (emit_rest n (it_merge e))"

section \<open>What is delivered for a key\<close>

lemma length_concat_ge: "(\<And>x. x \<in> set xs \<Longrightarrow> f x \<noteq> []) \<Longrightarrow> length xs \<le> length (concat (map f xs))"
proof (induction xs)
  case (Cons x xs)
  then have "0 < length (f x)" "length xs \<le> length (concat (map f xs))" by simp_all
  then show ?case unfolding list.map concat.simps length_append list.size by linarith
qed simp

locale typed_merge = block_merge mk ev fits cap
  for mk :: "u64 \<Rightarrow> 'v \<Rightarrow> Value" and ev :: "'v merge_env" and fits cap +
  fixes get :: "sstBatchKeyIterator \<Rightarrow> 'v array" and put :: "'v array \<Rightarrow> sstBatchKeyIterator \<Rightarrow> sstBatchKeyIterator"
    and mrg :: "sstBatchKeyIterator \<Rightarrow> sstBatchKeyIterator result" and mine :: "sstBatchKeyIterator \<Rightarrow> bool"
  assumes get_put: "get (put v it) = v" and get_set: "get (it\<lparr>it_blocks := bs, it_merged := ms\<rparr>) = get it"
    and put_fields: "it_blocks (put v it) = it_blocks it \<and> it_merged (put v it) = it_merged it \<and> it_size (put v it) = it_size it \<and>
      it_key (put v it) = it_key it \<and> it_fast (put v it) = it_fast it \<and> it_errs (put v it) = it_errs it"
    and mine: "mine (put v it) = mine it \<and> mine (it\<lparr>it_blocks := bs, it_merged := ms\<rparr>) = mine it"
    and mrg: "mine it \<Longrightarrow> mrg it = bind_result (merge_values ev it (get it)) (\<lambda>(it', v). Inr (put v it'))"
    and has: "mine it \<Longrightarrow> hasMergedValues it \<longleftrightarrow> arr_Len (get it) > 0"
begin

text \<open>The state of the iterator: \<open>out\<close> was delivered, \<open>qs\<close> is waiting in \<open>merged\<close>.\<close>

definition key_state ::
  "bytes \<Rightarrow> nat \<Rightarrow> Values \<Rightarrow> (block \<times> 'v array) list \<Rightarrow> Values \<Rightarrow> (block \<times> 'v array) list \<Rightarrow> int \<Rightarrow> (block \<times> 'v array) list \<Rightarrow>
   sstBatchKeyIterator \<Rightarrow> bool" where
  "key_state key sz series inputs out qs T ps it \<longleftrightarrow>
     merge_inv key series (out @ concat (map contents qs)) (get it) T ps \<and> (\<forall>q \<in> set qs. emitted key sz inputs q) \<and>
     it_blocks it = map (read_to mk T) ps \<and> it_merged it = map fst qs \<and> it_size it = sz \<and> it_key it = key \<and> mine it \<and> it_errs it = [] \<and>
     (it_fast it \<or> (\<forall>p \<in> set ps. IsPtrBlock (bk_b (fst p)) = Inr False)) \<and> set ps \<subseteq> set inputs \<and> length ps < min (me_fuel ev) 21"

definition drained :: "(block \<times> 'v array) list \<Rightarrow> (block \<times> 'v array) list \<Rightarrow> sstBatchKeyIterator \<Rightarrow> bool" where
  "drained qs ps it \<longleftrightarrow> qs = [] \<longrightarrow> arr_Len (get it) = 0 \<and> ps = []"

lemma key_state_merge:
  assumes st: "key_state key sz series inputs out [] T ps it" and sz: "0 < sz" "sz \<le> cap"
  shows "\<exists>it' qs T' ps'. mrg it = Inr it' \<and> key_state key sz series inputs out qs T' ps' it' \<and> drained qs ps' it'"
proof -
  have s: "merge_inv key series out (get it) T ps" "it_blocks it = map (read_to mk T) ps" "it_merged it = []" "it_size it = sz"
    "it_key it = key" "mine it" "it_fast it \<or> (\<forall>p \<in> set ps. IsPtrBlock (bk_b (fst p)) = Inr False)" "set ps \<subseteq> set inputs" "length ps < min (me_fuel ev) 21" "it_errs it = []"
    using st by (simp_all add: key_state_def)
  have inp: "\<exists>p' \<in> set inputs. bk_b (fst p) = bk_b (fst p') \<and> snd p = snd p'" if "p \<in> set ps" for p using s(8) that by blast
  obtain T' ps' m' qs where m: "merge_values ev it (get it) = Inr (it\<lparr>it_blocks := map (read_to mk T') ps', it_merged := map fst qs\<rparr>, m')"
    "\<forall>q \<in> set qs. emitted key (it_size it) inputs q" "merge_inv key series (out @ concat (map contents qs)) m' T' ps'"
    "suffix ps' ps" "qs = [] \<longrightarrow> arr_Len m' = 0 \<and> ps' = []"
    using merge_values_spec [OF s(1) sz [folded s(4)] s(5) s(2,3) s(9) s(7) inp] by blast
  let ?it = "put m' (it\<lparr>it_blocks := map (read_to mk T') ps', it_merged := map fst qs\<rparr>)"
  have sub: "set ps' \<subseteq> set ps" "length ps' \<le> length ps" using m(4) set_mono_suffix suffix_length_le by blast+
  have "mrg it = Inr ?it" using mrg [OF s(6)] m(1) by simp
  moreover have "key_state key sz series inputs out qs T' ps' ?it"
    using m(2,3) s sub unfolding key_state_def by (auto simp: get_put put_fields mine)
  moreover have "drained qs ps' ?it" using m(5) by (simp add: drained_def get_put)
  ultimately show ?thesis by blast
qed

lemma merged_fields [simp]: "get (it\<lparr>it_merged := ms\<rparr>) = get it" "mine (it\<lparr>it_merged := ms\<rparr>) = mine it"
  using get_set [where it = it and bs = "it_blocks it" and ms = ms] mine [where it = it and bs = "it_blocks it" and ms = ms] by simp_all

lemma key_state_pop:
  "key_state key sz series inputs out (q # qs) T ps it \<Longrightarrow>
   key_state key sz series inputs (out @ contents q) qs T ps (it\<lparr>it_merged := tl (it_merged it)\<rparr>)"
  by (simp add: key_state_def)

text \<open>What \<open>Next\<close> finds when the last block of \<open>merged\<close> is delivered: all is done, or new blocks are waiting.\<close>

lemma key_state_next:
  assumes st: "key_state key sz series inputs out [] T ps it" and sz: "0 < sz" "sz \<le> cap"
  shows "\<exists>more it' qs T' ps'. next_pending mrg it = Inr (more, it') \<and> key_state key sz series inputs out qs T' ps' it' \<and>
    (more \<longleftrightarrow> qs \<noteq> []) \<and> drained qs ps' it'"
proof -
  have it1: "it\<lparr>it_merged := tl (it_merged it)\<rparr> = it" and mi: "mine it" using st by (simp_all add: key_state_def)
  show ?thesis
  proof (cases "arr_Len (get it) > 0 \<or> it_blocks it \<noteq> []")
    case True
    obtain it' qs T' ps' where m: "mrg it = Inr it'" "key_state key sz series inputs out qs T' ps' it'" "drained qs ps' it'"
      using key_state_merge [OF st sz] by blast
    have mi': "mine it'" "it_merged it' = map fst qs" "it_blocks it' = map (read_to mk T') ps'" using m(2) by (simp_all add: key_state_def)
    have more: "(it_merged it' \<noteq> [] \<or> hasMergedValues it') \<longleftrightarrow> qs \<noteq> []" using m(3) mi' has [OF mi'(1)] by (auto simp: drained_def)
    have mm: "merge_more mrg it = Inr (qs \<noteq> [], it')" using m(1) more by (simp add: merge_more_def)
    have "qs = [] \<longrightarrow> it_blocks it' = []" using m(3) mi'(3) by (simp add: drained_def)
    then have "next_pending mrg it = Inr (qs \<noteq> [], it')"
      using True st mm has [OF mi] unfolding next_pending_def it1 by (auto simp: key_state_def)
    then show ?thesis using m(2,3) by blast
  next
    case False
    then have "next_pending mrg it = Inr (False, it)" "ps = []"
      using st has [OF mi] unfolding next_pending_def it1 by (simp_all add: key_state_def)
    then show ?thesis using st False by (intro exI [of _ False] exI [of _ it] exI [of _ "[]"] exI [of _ T] exI [of _ ps]) (simp add: drained_def)
  qed
qed

lemma key_state_done:
  assumes "key_state key sz series inputs out [] T [] it" and "arr_Len (get it) = 0"
  shows "Deduplicate series = out"
  using merge_inv_prefix [of key series out "get it" T "[]"] assms vals_Nil_iff [of "get it"] by (simp add: key_state_def merge_inv_def)

lemma key_state_length:
  "key_state key sz series inputs out qs T ps it \<Longrightarrow> length out + length qs \<le> length (Deduplicate series)"
proof -
  assume st: "key_state key sz series inputs out qs T ps it"
  have "contents q \<noteq> []" if "q \<in> set qs" for q using st that holds_simps(3) [of key q] by (simp add: key_state_def emitted_def del: vals_Nil_iff)
  then have "length qs \<le> length (concat (map contents qs))" by (intro length_concat_ge) blast
  then show ?thesis using st merge_inv_prefix by (fastforce simp: key_state_def)
qed

lemma emit_rest_spec:
  assumes "key_state key sz series inputs out qs T ps it" and "drained qs ps it" and sz: "0 < sz" "sz \<le> cap"
    and "length (Deduplicate series) < length out + n"
  shows "\<exists>es it'. emit_rest n mrg it = Inr (map fst es, it') \<and> (\<forall>q \<in> set es. emitted key sz inputs q) \<and>
    out @ concat (map contents es) = Deduplicate series \<and>
    it_blocks it' = [] \<and> it_merged it' = [] \<and> arr_Len (get it') = 0 \<and> it_errs it' = []"
  using assms(1,2,5)
proof (induction n arbitrary: out qs T ps it)
  case 0
  then show ?case using key_state_length [of key sz series inputs out qs T ps it] by simp
next
  case (Suc n)
  let ?it = "it\<lparr>it_merged := tl (it_merged it)\<rparr>"
  have np: "next_pending mrg it = next_pending mrg ?it" if "length qs \<le> 1"
    using that Suc.prems(1) by (cases qs) (simp_all add: next_pending_def key_state_def)
  have em: "take 1 (it_merged it) = map fst (take 1 qs)" using Suc.prems(1) by (simp add: key_state_def take_map)
  have st1: "key_state key sz series inputs (out @ concat (map contents (take 1 qs))) (tl qs) T ps ?it" (is "key_state _ _ _ _ ?out _ _ _ _")
    using Suc.prems(1) key_state_pop [of key sz series inputs out _ _ T ps it] by (cases qs) (simp_all add: key_state_def)
  have emq: "\<forall>q \<in> set (take 1 qs). emitted key sz inputs q" using Suc.prems(1) by (auto simp: key_state_def dest: in_set_takeD)
  have go: "?case" if r: "next_pending mrg it = Inr (True, it2)" and st2: "key_state key sz series inputs ?out qs2 T2 ps2 it2"
    "drained qs2 ps2 it2" "qs \<noteq> []" for it2 qs2 T2 ps2
  proof -
    have "length out < length ?out" using Suc.prems(1) st2(3) holds_simps(4) [of key "hd qs"]
      by (cases qs) (auto simp: key_state_def emitted_def length_greater_0_conv [symmetric] simp del: length_greater_0_conv dest: holds_simps)
    then have "length (Deduplicate series) < length ?out + n" using Suc.prems(3) by linarith
    from Suc.IH [OF st2(1,2) this] obtain es it' where e: "emit_rest n mrg it2 = Inr (map fst es, it')" "\<forall>q \<in> set es. emitted key sz inputs q"
      "?out @ concat (map contents es) = Deduplicate series" "it_blocks it' = [] \<and> it_merged it' = [] \<and> arr_Len (get it') = 0 \<and> it_errs it' = []" by blast
    then show ?thesis using r em emq by (intro exI [of _ "take 1 qs @ es"] exI [of _ it']) auto
  qed
  show ?case
  proof (cases "length qs \<le> 1")
    case False
    then have "next_pending mrg it = Inr (True, ?it)" using Suc.prems(1) by (cases qs) (auto simp: next_pending_def key_state_def)
    moreover have "drained (tl qs) ps ?it" using False by (cases qs) (auto simp: drained_def)
    moreover have "qs \<noteq> []" using False by auto
    ultimately show ?thesis by (rule go [OF _ st1])
  next
    case True
    then have tl: "tl qs = []" by (cases qs) simp_all
    obtain more it2 qs2 T2 ps2 where n: "next_pending mrg ?it = Inr (more, it2)" "key_state key sz series inputs ?out qs2 T2 ps2 it2"
      "more \<longleftrightarrow> qs2 \<noteq> []" "drained qs2 ps2 it2"
      using key_state_next [OF st1 [unfolded tl] sz] by blast
    show ?thesis
    proof (cases more)
      case m: True
      have "qs \<noteq> []"
      proof
        assume "qs = []"
        then have "hasMergedValues ?it = False" "it_blocks ?it = []" "it_merged ?it = []"
          using Suc.prems(1,2) has [of ?it] by (simp_all add: drained_def key_state_def)
        then show False using n(1) m by (simp add: next_pending_def)
      qed
      then show ?thesis using go [OF _ n(2,4)] n(1) m np [OF True] by simp
    next
      case False
      then have e: "qs2 = []" "ps2 = []" "arr_Len (get it2) = 0" using n(3,4) by (auto simp: drained_def)
      then have "?out = Deduplicate series" using key_state_done [of key sz series inputs ?out T2 it2] n(2) by simp
      moreover have "emit_rest (Suc n) mrg it = Inr (map fst (take 1 qs), it2)" using n(1) np [OF True] False em by simp
      moreover have "it_blocks it2 = []" "it_merged it2 = []" "it_errs it2 = []" using n(2) e by (simp_all add: key_state_def)
      ultimately show ?thesis using emq e(3) by blast
    qed
  qed
qed

lemma insertionSort_map: "insertionSort ls (map f xs) = map f (insertionSort (\<lambda>a b. ls (f a) (f b)) xs)"
proof -
  have "insert_back ls (f x) (map f ys) = map f (insert_back (\<lambda>a b. ls (f a) (f b)) x ys)" for x ys by (induction ys) simp_all
  then have "foldl (\<lambda>ys x. insert_back ls x ys) (map f ys) (map f xs) =
      map f (foldl (\<lambda>ys x. insert_back (\<lambda>a b. ls (f a) (f b)) x ys) ys xs)" for ys
    by (induction xs arbitrary: ys) simp_all
  from this [of "[]"] show ?thesis by (simp add: insertionSort_def rev_map)
qed

lemma holds_Less:
  assumes "holds key p" and "holds key q" and "bk_Less (fst p) (fst q)"
  shows "bk_maxTime (fst p) < bk_minTime (fst q)" and "\<not> bk_Less (fst q) (fst p)"
  using assms holds_simps(8) by (auto simp: bk_Less_def Let_def)

text \<open>The state after the blocks have been loaded and sorted for the first time.\<close>

lemma loaded_inv_merge:
  assumes h: "\<And>p. p \<in> set ps \<Longrightarrow> holds key p \<and> (\<forall>v \<in> set (contents p). fits v)"
    and qs: "qs = insertionSort (\<lambda>a b. bk_Less (fst a) (fst b)) ps"
  shows "merge_inv key (concat (map live ps)) [] empty_array (min_i64 - 1) qs"
proof -
  have "in_sequence (map fst qs)"
  proof -
    have "successively (\<lambda>a b. \<not> bk_Less (fst b) (fst a)) qs"
      unfolding qs using h holds_Less(2) by (intro successively_insertionSort) blast
    moreover have "bk_minTime (fst a) \<le> bk_maxTime (fst b)" if "a \<in> set qs" "b \<in> set qs" "\<not> bk_Less (fst b) (fst a)" for a b
      using that h [of a] h [of b] holds_simps(8) [of key] holds_times [of key b "hd (contents b)"] holds_simps(3) [of key b]
      by (auto simp: qs bk_Less_def Let_def)
    ultimately show ?thesis unfolding in_sequence_def successively_map by (rule successively_mono)
  qed
  moreover have "latest t (concat (map live qs)) = latest t (concat (map live ps))" for t
    unfolding qs
  proof (rule latest_insertionSort)
    fix a b assume ab: "a \<in> set ps" "b \<in> set ps" "bk_Less (fst a) (fst b)"
    then have l: "bk_maxTime (fst a) < bk_minTime (fst b)" using h holds_Less(1) by blast
    show "latest t (live a) = None \<or> latest t (live b) = None"
    proof (cases "bk_maxTime (fst a) < t")
      case False
      then have "latest t (live b) = None"
        using holds_times [of key b] h ab(2) l by (intro latest_NoneI) (fastforce simp: live_values_def)
      then show ?thesis ..
    qed (use live_none [of key a t] h ab(1) in blast)
  qed
  moreover have "latest t (concat (map live ps)) = None" if "t \<le> min_i64 - 1" for t
  proof (rule latest_NoneI)
    show "UnixNano v \<noteq> t" for v using UnixNano_i64 [of v] that by simp
  qed
  ultimately show ?thesis using h by (simp add: merge_inv_def qs)
qed

lemma merge_values_sort:
  assumes "insertionSort bk_Less (insertionSort bk_Less (it_blocks it)) = insertionSort bk_Less (it_blocks it)" and "length (it_blocks it) \<le> 20"
  shows "merge_values ev it m = merge_values ev (it\<lparr>it_blocks := insertionSort bk_Less (it_blocks it)\<rparr>) m \<or>
    it_blocks it = [] \<and> it_merged it = [] \<and> arr_Len m = 0"
proof -
  have "length (insertionSort bk_Less (it_blocks it)) = length (it_blocks it)" using mset_insertionSort by (metis size_mset)
  moreover have "insertionSort bk_Less (it_blocks it) = [] \<longleftrightarrow> it_blocks it = []" by (metis set_empty set_insertionSort)
  ultimately show ?thesis using assms by (auto simp: merge_values_def sort_Stable_short)
qed

text \<open>The first merge of the blocks of a key, in the order in which they were loaded.\<close>

lemma key_start:
  assumes h: "\<And>p. p \<in> set ps \<Longrightarrow> holds key p \<and> (\<forall>v \<in> set (contents p). fits v) \<and> bk_readMin (fst p) = max_i64 \<and> bk_readMax (fst p) = min_i64"
    and it: "it_blocks it = map fst ps" "it_merged it = []" "get it = empty_array" "it_key it = key" "mine it" "it_errs it = []"
    and sz: "0 < it_size it" "it_size it \<le> cap" and ptr: "it_fast it \<or> (\<forall>p \<in> set ps. IsPtrBlock (bk_b (fst p)) = Inr False)"
    and fuel: "length ps < min (me_fuel ev) 21"
  shows "\<exists>it' qs T' ps'. mrg it = Inr it' \<and> key_state key (it_size it) (concat (map live ps)) ps [] qs T' ps' it' \<and> drained qs ps' it'"
proof -
  let ?qs = "insertionSort (\<lambda>a b. bk_Less (fst a) (fst b)) ps" and ?T = "min_i64 - 1"
  have inv: "merge_inv key (concat (map live ps)) [] empty_array ?T ?qs" using loaded_inv_merge [OF _ refl] h by blast
  have fresh: "read_to mk ?T p = fst p" if "p \<in> set ps" for p
    using untouched(1) [of key p ?T] UnixNano_i64 [of "hd (contents p)"] holds_simps(5) [of key p] h [OF that] by simp
  have so: "insertionSort bk_Less (it_blocks it) = map (read_to mk ?T) ?qs"
    using fresh by (simp add: it(1) insertionSort_map)
  have idem: "insertionSort bk_Less (insertionSort bk_Less (it_blocks it)) = insertionSort bk_Less (it_blocks it)"
    unfolding so using inv by (intro sorted_already [of _ key]) (auto simp: merge_inv_def)
  have few: "length (it_blocks it) \<le> 20" using fuel by (simp add: it(1))
  let ?it = "it\<lparr>it_blocks := insertionSort bk_Less (it_blocks it), it_merged := []\<rparr>"
  have len: "length ?qs = length ps" using mset_insertionSort by (metis size_mset)
  have st: "key_state key (it_size it) (concat (map live ps)) ps [] [] ?T ?qs ?it"
    using inv it so ptr fuel get_set [where it = it] mine [where it = it] unfolding key_state_def by (simp add: len)
  have e: "?it = it\<lparr>it_blocks := insertionSort bk_Less (it_blocks it)\<rparr>" using it(2) by (cases it) simp
  have "mrg it = mrg ?it"
  proof (cases "it_blocks it = []")
    case True
    then show ?thesis using it(2) e by (cases it) (simp add: insertionSort_def)
  next
    case False
    have "mine ?it" using mine [where it = it] it(5) by simp
    then show ?thesis
      using mrg [OF it(5)] mrg [of ?it] merge_values_sort [OF idem few, of "get it"] False get_set [where it = it] e by simp
  qed
  then show ?thesis using key_state_merge [OF st sz] by simp
qed

lemma emit_key_spec:
  assumes h: "\<And>p. p \<in> set ps \<Longrightarrow> holds key p \<and> (\<forall>v \<in> set (contents p). fits v) \<and> bk_readMin (fst p) = max_i64 \<and> bk_readMax (fst p) = min_i64"
    and it: "it_blocks it = map fst ps" "it_merged it = []" "get it = empty_array" "it_key it = key" "mine it" "it_errs it = []"
    and sz: "0 < it_size it" "it_size it \<le> cap" and ptr: "it_fast it \<or> (\<forall>p \<in> set ps. IsPtrBlock (bk_b (fst p)) = Inr False)"
    and fuel: "length ps < min (me_fuel ev) 21" and n: "length (Deduplicate (concat (map live ps))) < n"
  shows "\<exists>es it'. bind_result (mrg it) (emit_rest n mrg) = Inr (map fst es, it') \<and> (\<forall>q \<in> set es. emitted key (it_size it) ps q) \<and>
    concat (map contents es) = Deduplicate (concat (map live ps)) \<and>
    it_blocks it' = [] \<and> it_merged it' = [] \<and> arr_Len (get it') = 0 \<and> it_errs it' = []"
proof -
  obtain it' qs' T' ps' where m: "mrg it = Inr it'" "key_state key (it_size it) (concat (map live ps)) ps [] qs' T' ps' it'" "drained qs' ps' it'"
    using key_start [OF h it sz ptr fuel] by blast
  then show ?thesis using emit_rest_spec [OF m(2,3) sz, of n] n by simp
qed

end

end
