(* ===== verification/CompactTypes.thy ===== *)
theory CompactTypes
  imports CompactKey
begin

text \<open>
  The locales of \<open>Compact\<close> and \<open>CompactKey\<close> on the array codecs of the integer, unsigned and boolean blocks, and
  what a compaction delivers for a key of these types.
\<close>

section \<open>Blocks of arrays\<close>

text \<open>Timestamps in a window of \<open>2 ^ 60\<close> nanoseconds have differences that the timestamp codec packs.\<close>

definition time_near :: "int \<Rightarrow> Value \<Rightarrow> bool" where
  "time_near lo v \<longleftrightarrow> lo \<le> UnixNano v \<and> UnixNano v < lo + 2 ^ 60"

lemma diff_word_small:
  fixes x y :: u64
  assumes "sint x < sint y" and "sint y < sint x + 2 ^ 60"
  shows "y - x \<le> MaxValue"
proof -
  have e: "y - x = word_of_int (sint y - sint x)" by simp
  have "uint (y - x) = sint y - sint x" using assms unfolding e by (subst uint_word_of_int_eq) (simp add: take_bit_int_eq_self_iff)
  then have "uint (y - x) < 2 ^ 60" using assms by simp
  then show ?thesis by (simp add: MaxValue_def word_le_def)
qed

lemma fold_larger_le: "(\<And>x. x \<in> set vs \<Longrightarrow> x \<le> B) \<Longrightarrow> m \<le> B \<Longrightarrow> fold larger vs m \<le> B"
  by (induction vs arbitrary: m) auto

lemma time_near_deltas:
  assumes "ordered vs" and "\<And>v. v \<in> set vs \<Longrightarrow> time_near lo v"
  shows "max_delta (map unixNano vs) \<le> MaxValue"
proof -
  have "d \<le> MaxValue" if d: "d \<in> set (tl (deltas_of (map unixNano vs)))" for d
  proof -
    obtain i where i: "i < length (tl (deltas_of (map unixNano vs)))" "d = tl (deltas_of (map unixNano vs)) ! i"
      using d by (auto simp: in_set_conv_nth)
    then have d': "Suc i < length vs" "d = unixNano (vs ! Suc i) - unixNano (vs ! i)"
      by (simp_all add: nth_tl nth_deltas_of)
    have "time_near lo (vs ! i)" "time_near lo (vs ! Suc i)" "UnixNano (vs ! i) < UnixNano (vs ! Suc i)"
      using assms(2) ordered_nth_less [OF assms(1), of i "Suc i"] d'(1) by simp_all
    then show ?thesis unfolding d'(2) by (intro diff_word_small) (simp_all add: time_near_def UnixNano_def)
  qed
  then show ?thesis unfolding max_delta_def by (intro fold_larger_le) simp_all
qed

lemma array_block_facts:
  assumes "length ts < 2 ^ 58" and "ts \<noteq> []" and "venc xs = Inr vb" and "\<And>dst. vdec vb dst = Inr xs"
    and "max_delta ts \<le> MaxValue" and "bt AND BlockValuePtrMask = 0"
  shows "\<exists>cb. encode_array_block bt venc (ts, xs) = Inr cb \<and> decode_array_block bt vdec cb ([], []) = Inr (ts, xs) \<and>
    IsPtrBlock cb = Inr False \<and> cb \<noteq> [] \<and> BlockCount cb = Inr (int (length ts))"
proof -
  obtain tb where tb: "TimeArrayEncodeAll ts = Inr tb" "time_format ts tb" using TimeArrayEncodeAll_format [of ts] assms(1) by auto
  obtain cb where cb: "encode_array_block bt venc (ts, xs) = Inr cb" "decode_array_block bt vdec cb ([], []) = Inr (ts, xs)"
    using array_block_roundtrip [of ts venc xs vb vdec bt "([], [])"] assms leD [OF assms(5)] by auto
  then have p: "cb = packBlock bt tb vb" using tb(1) assms(2,3) by (simp add: encode_array_block_def)
  have "length tb < 2 ^ 62" using length_time_format [OF tb(2)] assms(1) by simp
  then have "unpackBlock (tl cb) = Inr (tb, vb)" unfolding p by (rule unpackBlock_packBlock)
  moreover have "put_uvarint (of_nat (length tb)) \<noteq> []" by (subst put_uvarint.simps) simp
  ultimately have "BlockCount cb = Inr (int (length ts))"
    using CountTimestamps_format [OF tb(2)] p by (simp add: BlockCount_def packBlock_def encodedBlockHeaderSize_def Suc_le_eq)
  then show ?thesis using cb p assms(6) by (simp add: packBlock_def IsPtrBlock_def)
qed

text \<open>The law of \<open>block_merge\<close>, for a codec of values that reads back every array of less than \<open>2 ^ 56\<close> values.\<close>

lemma array_env_law:
  assumes mk: "array_type mk" and a: "arr_wf a" "0 < arr_Len a" "arr_Len a < 2 ^ 56" "ordered (arr_values mk a)" "\<forall>v \<in> set (arr_values mk a). time_near lo v"
    and codec: "venc (ar_vs a) = Inr vb" "\<And>dst. vdec vb dst = Inr (ar_vs a)" and tyb: "bt AND BlockValuePtrMask = 0"
  shows "\<exists>cb. me_Encode (array_env (encode_array_block bt venc) (decode_array_block bt vdec) rp fuel) a = Inr cb \<and>
    block_holds (array_env (encode_array_block bt venc) (decode_array_block bt vdec) rp fuel) mk key (chunk_block key a cb) a"
proof -
  have ts: "map unixNano (arr_values mk a) = ar_ts a"
    using a(1) array_type.unixNano_mk [OF mk] by (auto simp: arr_values_def arr_wf_def intro: nth_equalityI)
  have "max_delta (ar_ts a) \<le> MaxValue" using time_near_deltas [OF a(4), of lo] a(5) ts by simp
  moreover have "length (ar_ts a) < 2 ^ 58" "ar_ts a \<noteq> []" using a(2,3) by (auto simp: arr_Len_def)
  ultimately obtain cb where cb: "encode_array_block bt venc (ar_ts a, ar_vs a) = Inr cb"
    "decode_array_block bt vdec cb ([], []) = Inr (ar_ts a, ar_vs a)" "IsPtrBlock cb = Inr False" "cb \<noteq> []" "BlockCount cb = Inr (int (length (ar_ts a)))"
    using array_block_facts [of "ar_ts a" venc "ar_vs a" vb vdec bt] codec tyb by blast
  have "arr_Merge empty_array \<lparr>ar_ts = ar_ts a, ar_vs = ar_vs a\<rparr> = a" by (cases a) (simp add: arr_Merge_def empty_array_def arr_Len_def)
  then have "block_holds (array_env (encode_array_block bt venc) (decode_array_block bt vdec) rp fuel) mk key (chunk_block key a cb) a"
    using a cb by (simp add: block_holds_def chunk_block_def array_env_def ReadDataBlocks_def arr_Len_def)
  then show ?thesis using cb(1) by (auto simp: array_env_def)
qed

definition max_size :: nat where
  "max_size = 2 ^ 56 - 1"


interpretation unsigned_merge: block_merge UnsignedValue "unsigned_env e" "time_near lo" max_size for e lo
proof unfold_locales
  fix a :: "u64 array" and key
  assume a: "arr_wf a" "0 < arr_Len a" "arr_Len a \<le> max_size" "ordered (arr_values UnsignedValue a)" "\<forall>v \<in> set (arr_values UnsignedValue a). time_near lo v"
  have len: "arr_Len a < 2 ^ 56" "length (ar_vs a) < 2 ^ 63" using a(1,3) by (simp_all add: max_size_def arr_wf_def arr_Len_def)
  obtain vb where "UnsignedArrayEncodeAll (ar_vs a) [] = Inr vb" "int_format (ar_vs a) vb"
    using IntegerArrayEncodeAll_format [OF len(2), of "[]"] by (auto simp: UnsignedArrayEncodeAll_def)
  then show "\<exists>cb. me_Encode (unsigned_env e) a = Inr cb \<and> block_holds (unsigned_env e) UnsignedValue key (chunk_block key a cb) a"
    unfolding unsigned_env_def EncodeUnsignedArrayBlock_def [abs_def] DecodeUnsignedArrayBlock_def [abs_def]
    using array_env_law [OF unsigned_array.array_type_axioms a(1,2) len(1) a(4,5), of "\<lambda>xs. UnsignedArrayEncodeAll xs []" vb UnsignedArrayDecodeAll BlockUnsigned]
      IntegerArrayDecodeAll_format by (simp add: block_type_defs UnsignedArrayDecodeAll_def)
qed

interpretation boolean_merge: block_merge BooleanValue "boolean_env e" "time_near lo" max_size for e lo
proof unfold_locales
  fix a :: "bool array" and key
  assume a: "arr_wf a" "0 < arr_Len a" "arr_Len a \<le> max_size" "ordered (arr_values BooleanValue a)" "\<forall>v \<in> set (arr_values BooleanValue a). time_near lo v"
  have len: "arr_Len a < 2 ^ 56" "length (ar_vs a) < 2 ^ 56" using a(1,3) by (simp_all add: max_size_def arr_wf_def arr_Len_def)
  obtain vb where "BooleanArrayEncodeAll (ar_vs a) [] = Inr vb" "bool_format (ar_vs a) vb"
    using BooleanArrayEncodeAll_format [OF len(2), of "[]"] by auto
  then show "\<exists>cb. me_Encode (boolean_env e) a = Inr cb \<and> block_holds (boolean_env e) BooleanValue key (chunk_block key a cb) a"
    unfolding boolean_env_def EncodeBooleanArrayBlock_def [abs_def] DecodeBooleanArrayBlock_def [abs_def]
    using array_env_law [OF boolean_array.array_type_axioms a(1,2) len(1) a(4,5), of "\<lambda>xs. BooleanArrayEncodeAll xs []" vb "\<lambda>b dst. BooleanArrayDecodeAll b" BlockBoolean]
      BooleanArrayDecodeAll_format by (simp add: block_type_defs)
qed

section \<open>Keys of one type\<close>


interpretation unsigned_key: typed_merge UnsignedValue "unsigned_env e" "time_near lo" max_size it_mergedUnsignedValues
  "\<lambda>v it. it\<lparr>it_mergedUnsignedValues := v\<rparr>" "it_merge e"
  "\<lambda>it. GetBaseType (it_typ it) = BlockUnsigned \<and> arr_Len (it_mergedFloatValues it) = 0 \<and> arr_Len (it_mergedIntegerValues it) = 0 \<and>
     arr_Len (it_mergedStringValues it) = 0 \<and> arr_Len (it_mergedBooleanValues it) = 0" for e lo
  by unfold_locales (auto simp: it_merge_def mergeUnsigned_def hasMergedValues_def block_type_defs)

interpretation boolean_key: typed_merge BooleanValue "boolean_env e" "time_near lo" max_size it_mergedBooleanValues
  "\<lambda>v it. it\<lparr>it_mergedBooleanValues := v\<rparr>" "it_merge e"
  "\<lambda>it. GetBaseType (it_typ it) = BlockBoolean \<and> arr_Len (it_mergedFloatValues it) = 0 \<and> arr_Len (it_mergedIntegerValues it) = 0 \<and>
     arr_Len (it_mergedUnsignedValues it) = 0 \<and> arr_Len (it_mergedStringValues it) = 0" for e lo
  by unfold_locales (auto simp: it_merge_def mergeBoolean_def hasMergedValues_def block_type_defs)











end
