(* ===== verification/CompactIter.thy ===== *)
theory CompactIter
  imports CompactKey SstRead
begin

text \<open>
  The iteration over the blocks of SST files in a compaction: \<open>BlockIterator\<close> of \<open>storage/store/sst_reader.go\<close>, and
  \<open>sstBatchKeyIterator\<close> of \<open>storage/compactor/iterator_batch_key.go\<close> with the loading of the next key. The block
  objects that \<open>buf\<close> keeps for reuse are free when they are used again, so that \<open>buf\<close> is a list of blocks here.
\<close>

section \<open>The blocks of a file\<close>

record BlockIterator =
  bi_index :: indirectIndex
  bi_file :: bytes
  bi_i :: int
  bi_n :: int
  bi_key :: bytes
  bi_entries :: "IndexEntry list"
  bi_err :: "error option"
  bi_typ :: byte

definition sr_BlockIterator :: "indirectIndex \<Rightarrow> bytes \<Rightarrow> BlockIterator" where
  "sr_BlockIterator d f = \<lparr>bi_index = d, bi_file = f, bi_i = 0, bi_n = int (xi_KeyCount d), bi_key = [], bi_entries = [], bi_err = None, bi_typ = 0\<rparr>"

definition bi_PeekNext :: "BlockIterator \<Rightarrow> bytes result" where
  "bi_PeekNext b =
     (if length (bi_entries b) > 1 then Inr (bi_key b)
      else if bi_n b - bi_i b > 1 then bind_result (xi_KeyAt (bi_i b + 1) (bi_index b)) (\<lambda>(key, _). Inr key)
      else Inr [])"

definition bi_Next :: "BlockIterator \<Rightarrow> (bool \<times> BlockIterator) result" where
  "bi_Next b =
     (if bi_err b \<noteq> None then Inr (False, b)
      else if bi_n b - bi_i b = 0 \<and> bi_entries b = [] then Inr (False, b)
      else let b1 = b\<lparr>bi_entries := tl (bi_entries b)\<rparr>
           in if bi_entries b1 \<noteq> [] then Inr (True, b1)
              else if bi_n b1 - bi_i b1 > 0 then
                bind_result (xi_Key (bi_i b1) (bi_index b1)) (\<lambda>(key, t, es).
                  let b2 = b1\<lparr>bi_key := key, bi_typ := t, bi_entries := es, bi_i := bi_i b1 + 1\<rparr>
                  in if bi_n b2 \<noteq> int (xi_KeyCount (bi_index b2)) then Inr (False, b2\<lparr>bi_err := Some ErrDeleteDuringIteration\<rparr>)
                     else Inr (es \<noteq> [], b2))
              else Inr (False, b1))"

text \<open>\<open>Read\<close> returns the key, the times, the type and the bytes, all empty with an error.\<close>

definition bi_Read :: "BlockIterator \<Rightarrow> ((bytes \<times> int \<times> int \<times> byte \<times> bytes) \<times> error option \<times> BlockIterator) result" where
  "bi_Read b =
     (case bi_err b of
        Some err \<Rightarrow> Inr (([], 0, 0, 0, []), Some err, b)
      | None \<Rightarrow>
          (case bi_entries b of
             [] \<Rightarrow> Inl Panic
           | e # _ \<Rightarrow>
               bind_result (try_result (acc_readBytes (bi_file b) e)) (\<lambda>r.
                 case r of
                   Inl err \<Rightarrow> Inr (([], 0, 0, 0, []), Some err, b\<lparr>bi_err := Some err\<rparr>)
                 | Inr (_, buf) \<Rightarrow> Inr ((bi_key b, sint (ix_MinTime e), sint (ix_MaxTime e), bi_typ b, buf), None, b))))"

section \<open>The iterator over several files\<close>

record sstKeyIterator =
  ki_it :: sstBatchKeyIterator
  ki_iterators :: "BlockIterator list"
  ki_buf :: "block list list"

definition NewSSTBatchKeyIterator :: "nat \<Rightarrow> bool \<Rightarrow> nat \<Rightarrow> int \<Rightarrow> (indirectIndex \<times> bytes) list \<Rightarrow> sstKeyIterator" where
  "NewSSTBatchKeyIterator sz fast maxErrors separateThreshold readers =
     \<lparr>ki_it = \<lparr>it_errs = [], it_fast = fast, it_size = sz, it_key = [], it_typ = 0, it_blocks = [], it_merged = [],
        it_mergedFloatValues = empty_array, it_mergedIntegerValues = empty_array, it_mergedUnsignedValues = empty_array,
        it_mergedBooleanValues = empty_array, it_mergedStringValues = empty_array, it_maxErrors = maxErrors, it_overflowErrors = 0,
        it_separateThreshold = separateThreshold\<rparr>,
      ki_iterators = map (\<lambda>(d, f). sr_BlockIterator d f) readers, ki_buf = replicate (length readers) []\<rparr>"

definition append_error :: "error option \<Rightarrow> sstBatchKeyIterator \<Rightarrow> sstBatchKeyIterator" where
  "append_error e it = (case e of None \<Rightarrow> it | Some err \<Rightarrow> AppendError err it)"

text \<open>Reading one block into the buffer of its file.\<close>

definition load_block :: "sstBatchKeyIterator \<Rightarrow> BlockIterator \<Rightarrow> block list \<Rightarrow> (sstBatchKeyIterator \<times> BlockIterator \<times> block list \<times> bytes) result" where
  "load_block it b buf =
     bind_result (bi_Read b) (\<lambda>((key, minTime, maxTime, t, bs), e, b').
       Inr (append_error e it, b',
         buf @ [\<lparr>bk_key = key, bk_minTime = minTime, bk_maxTime = maxTime, bk_typ = t, bk_b = bs,
                 bk_tombstones = xi_TombstoneRange key (bi_index b'), bk_readMin = max_i64, bk_readMax = min_i64\<rparr>], key))"

fun load_same_key :: "nat \<Rightarrow> bytes \<Rightarrow> sstBatchKeyIterator \<Rightarrow> BlockIterator \<Rightarrow> block list \<Rightarrow> (sstBatchKeyIterator \<times> BlockIterator \<times> block list) result" where
  "load_same_key 0 blockKey it b buf = Inl Diverged"
| "load_same_key (Suc n) blockKey it b buf =
     bind_result (bi_PeekNext b) (\<lambda>nxt.
       if nxt = blockKey
       then bind_result (bi_Next b) (\<lambda>(_, b1).
            bind_result (load_block it b1 buf) (\<lambda>(it', b2, buf', _). load_same_key n blockKey it' b2 buf'))
       else Inr (it, b, buf))"

definition load_file :: "nat \<Rightarrow> sstBatchKeyIterator \<Rightarrow> BlockIterator \<Rightarrow> block list \<Rightarrow> (sstBatchKeyIterator \<times> BlockIterator \<times> block list) result" where
  "load_file n it b buf =
     (if buf \<noteq> [] then Inr (it, b, buf)
      else bind_result (bi_Next b) (\<lambda>(more, b1).
           bind_result
             (if more then bind_result (load_block it b1 buf) (\<lambda>(it', b2, buf', key). load_same_key n key it' b2 buf')
              else Inr (it, b1, buf)) (\<lambda>(it2, b3, buf2).
           Inr (append_error (bi_err b3) it2, b3, buf2))))"

fun load_files :: "nat \<Rightarrow> sstBatchKeyIterator \<Rightarrow> BlockIterator list \<Rightarrow> block list list \<Rightarrow>
    (sstBatchKeyIterator \<times> BlockIterator list \<times> block list list) result" where
  "load_files n it (b # bs) (buf # bufs) =
     bind_result (load_file n it b buf) (\<lambda>(it1, b', buf').
     bind_result (load_files n it1 bs bufs) (\<lambda>(it2, bs', bufs'). Inr (it2, b' # bs', buf' # bufs')))"
| "load_files n it bs bufs = Inr (it, bs, bufs)"

text \<open>The least key of the buffers with its type, and the blocks that have it.\<close>

definition min_key :: "block list list \<Rightarrow> bytes \<times> byte" where
  "min_key bufs =
     fold (\<lambda>b (minKey, minType).
       case b of
         [] \<Rightarrow> (minKey, minType)
       | blk # _ \<Rightarrow> if length minKey = 0 \<or> bytes_Compare (bk_key blk) minKey < 0 then (bk_key blk, bk_typ blk) else (minKey, minType))
       bufs ([], 0)"

definition has_key :: "bytes \<Rightarrow> block list \<Rightarrow> bool" where
  "has_key key buf \<longleftrightarrow> buf \<noteq> [] \<and> bk_key (hd buf) = key"

definition take_key :: "sstBatchKeyIterator \<Rightarrow> block list list \<Rightarrow> sstBatchKeyIterator \<times> block list list" where
  "take_key it bufs =
     (let (key, t) = min_key bufs
      in (it\<lparr>it_key := key, it_typ := t, it_blocks := it_blocks it @ concat (filter (has_key key) bufs)\<rparr>,
          map (\<lambda>buf. if has_key key buf then [] else buf) bufs))"

text \<open>\<open>Next\<close>; the jump to \<open>RETRY\<close> is the recursive call.\<close>

fun ki_Next :: "nat \<Rightarrow> iterator_env \<Rightarrow> sstKeyIterator \<Rightarrow> (bool \<times> sstKeyIterator) result" where
  "ki_Next 0 e k = Inl Diverged"
| "ki_Next (Suc n) e k =
     bind_result (next_pending (it_merge e) (ki_it k)) (\<lambda>(more, it1).
       if more then Inr (True, k\<lparr>ki_it := it1\<rparr>)
       else bind_result (load_files (iv_fuel e) it1 (ki_iterators k) (ki_buf k)) (\<lambda>(it2, bs, bufs).
         let (it3, bufs') = take_key it2 bufs; k3 = \<lparr>ki_it = it3, ki_iterators = bs, ki_buf = bufs'\<rparr>
         in if it_blocks it3 = [] then Inr (False, k3)
            else bind_result (it_merge e it3) (\<lambda>it4.
                 if it_merged it4 = [] then ki_Next n e (k3\<lparr>ki_it := it4\<rparr>) else Inr (True, k3\<lparr>ki_it := it4\<rparr>))))"

text \<open>\<open>Read\<close>, when the compaction has not been interrupted, and \<open>Err\<close>.\<close>

definition it_Err :: "sstBatchKeyIterator \<Rightarrow> (error list \<times> nat) option" where
  "it_Err it = (if it_errs it = [] then None else Some (it_errs it, it_overflowErrors it))"

definition ki_Read :: "sstKeyIterator \<Rightarrow> (bytes \<times> int \<times> int \<times> bytes) \<times> (error list \<times> nat) option" where
  "ki_Read k =
     (case it_merged (ki_it k) of
        [] \<Rightarrow> (([], 0, 0, []), it_Err (ki_it k))
      | b # _ \<Rightarrow> ((bk_key b, bk_minTime b, bk_maxTime b, bk_b b), it_Err (ki_it k)))"

definition EstimatedIndexSize :: "sstKeyIterator \<Rightarrow> int result" where
  "EstimatedIndexSize k =
     (if ki_iterators k = [] then Inl Panic
      else Inr (uint (fold (\<lambda>b s. s + xi_Size (bi_index b)) (ki_iterators k) (0 :: u32)) div int (length (ki_iterators k))))"

end
