(* ===== verification/CompactFiles.thy ===== *)
theory CompactFiles
  imports SstFile SstDelete CompactIter CompactTypes
begin

text \<open>
  A compaction of SST files as a whole: what the calls of \<open>Next\<close> and \<open>Read\<close> of \<open>sstBatchKeyIterator\<close> deliver for a list of files.
  The lemmas on loading say what a block iterator reads from a file with an intact index; together with the lemmas on
  the blocks of one key they give the values of the compacted file.
\<close>

section \<open>Loading the blocks of a key\<close>

definition block_of :: "indirectIndex \<Rightarrow> bytes \<Rightarrow> sect \<Rightarrow> IndexEntry \<Rightarrow> block" where
  "block_of d f s e =
     \<lparr>bk_key = sect_key s, bk_minTime = sint (ix_MinTime e), bk_maxTime = sint (ix_MaxTime e), bk_typ = sect_type s,
      bk_b = (case acc_readBytes f e of Inl _ \<Rightarrow> [] | Inr (_, b) \<Rightarrow> b), bk_tombstones = xi_TombstoneRange (sect_key s) d,
      bk_readMin = max_i64, bk_readMax = min_i64\<rparr>"

definition blocks_of :: "indirectIndex \<Rightarrow> bytes \<Rightarrow> sect \<Rightarrow> block list" where
  "blocks_of d f s = map (block_of d f s) (sect_entries s)"

definition readable :: "bytes \<Rightarrow> sect \<Rightarrow> bool" where
  "readable f s \<longleftrightarrow> sect_key s \<noteq> [] \<and> (\<forall>e \<in> set (sect_entries s). \<exists>c b. acc_readBytes f e = Inr (c, b))"

text \<open>The iterator of the file \<open>f\<close>, whose next key is the one with number \<open>i\<close>.\<close>

definition bi_at :: "indirectIndex \<Rightarrow> bytes \<Rightarrow> (nat \<times> sect) list \<Rightarrow> nat \<Rightarrow> BlockIterator \<Rightarrow> bool" where
  "bi_at d f ls i b \<longleftrightarrow> index_of d ls \<and> (\<forall>x \<in> set ls. readable f (snd x)) \<and> i \<le> length ls \<and>
     bi_index b = d \<and> bi_file b = f \<and> bi_i b = int i \<and> bi_n b = int (length ls) \<and> bi_err b = None \<and> length (bi_entries b) \<le> 1"

lemma sect_at:
  assumes "index_of d ls" and "i < length ls"
  shows "sect_entries (snd (ls ! i)) \<noteq> []" and "\<And>j. i < j \<Longrightarrow> j < length ls \<Longrightarrow> sect_key (snd (ls ! i)) < sect_key (snd (ls ! j))"
proof -
  have "ls ! i \<in> set ls" using assms(2) by simp
  then show "sect_entries (snd (ls ! i)) \<noteq> []" using assms(1) by (auto simp: index_of_def placed_def wf_sect_def)
  show "\<And>j. i < j \<Longrightarrow> j < length ls \<Longrightarrow> sect_key (snd (ls ! i)) < sect_key (snd (ls ! j))"
    using assms(1) by (auto simp: index_of_def placed_def sorted_wrt_iff_nth_less)
qed

lemma load_block_at:
  assumes "bi_err b = None" and "bi_entries b = x # xs" and "readable (bi_file b) s" and "x \<in> set (sect_entries s)"
    and "bi_key b = sect_key s" and "bi_typ b = sect_type s"
  shows "load_block it b buf = Inr (it, b, buf @ [block_of (bi_index b) (bi_file b) s x], sect_key s)"
proof -
  obtain c bs where "acc_readBytes (bi_file b) x = Inr (c, bs)" using assms(3,4) by (auto simp: readable_def)
  then show ?thesis using assms by (simp add: load_block_def bi_Read_def try_result_def append_error_def block_of_def)
qed

lemma load_same_key_at:
  assumes d: "index_of (bi_index b) ls" and i: "i < length ls" and rd: "readable (bi_file b) (snd (ls ! i))"
    and b: "bi_err b = None" "bi_i b = int i + 1" "bi_n b = int (length ls)" "bi_key b = sect_key (snd (ls ! i))" "bi_typ b = sect_type (snd (ls ! i))"
      "bi_entries b = x # xs" "set xs \<subseteq> set (sect_entries (snd (ls ! i)))" and n: "length xs < n"
  shows "load_same_key n (sect_key (snd (ls ! i))) it b buf =
    Inr (it, b\<lparr>bi_entries := [last (x # xs)]\<rparr>, buf @ map (block_of (bi_index b) (bi_file b) (snd (ls ! i))) xs)"
  using assms
proof (induction xs arbitrary: n b x buf)
  case Nil
  obtain m where m: "n = Suc m" using Nil.prems(11) by (cases n) auto
  have "\<exists>k. bi_PeekNext b = Inr k \<and> k \<noteq> sect_key (snd (ls ! i))"
  proof (cases "bi_n b - bi_i b > 1")
    case True
    then have j: "i + 2 < length ls" using Nil.prems by simp
    then have "bi_PeekNext b = Inr (sect_key (snd (ls ! (i + 2))))"
      using True Nil.prems Key_eq(2) [OF Nil.prems(1) j] by (simp add: bi_PeekNext_def add.commute)
    then show ?thesis using sect_at(2) [OF Nil.prems(1) i, of "i + 2"] j by auto
  next
    case False
    then show ?thesis using Nil.prems by (auto simp: bi_PeekNext_def readable_def)
  qed
  then show ?case using m Nil.prems(9) by auto
next
  case (Cons y xs)
  obtain m where m: "n = Suc m" "length xs < m" using Cons.prems(11) by (cases n) auto
  let ?b = "b\<lparr>bi_entries := y # xs\<rparr>"
  have "bi_PeekNext b = Inr (sect_key (snd (ls ! i)))" "bi_Next b = Inr (True, ?b)"
    using Cons.prems by (simp_all add: bi_PeekNext_def bi_Next_def)
  moreover have "load_block it ?b buf = Inr (it, ?b, buf @ [block_of (bi_index b) (bi_file b) (snd (ls ! i)) y], sect_key (snd (ls ! i)))"
    using load_block_at [of ?b y xs "snd (ls ! i)" it buf] Cons.prems by simp
  moreover have "load_same_key m (sect_key (snd (ls ! i))) it ?b (buf @ [block_of (bi_index b) (bi_file b) (snd (ls ! i)) y]) =
      Inr (it, ?b\<lparr>bi_entries := [last (y # xs)]\<rparr>,
        (buf @ [block_of (bi_index b) (bi_file b) (snd (ls ! i)) y]) @ map (block_of (bi_index b) (bi_file b) (snd (ls ! i))) xs)"
    using Cons.IH [of ?b y m "buf @ [block_of (bi_index b) (bi_file b) (snd (ls ! i)) y]"] Cons.prems m(2) by simp
  ultimately show ?case using m(1) by simp
qed

lemma load_file_at:
  assumes b: "bi_at d f ls i b" and i: "i < length ls" and n: "length (sect_entries (snd (ls ! i))) \<le> n"
  shows "\<exists>b'. load_file n it b [] = Inr (it, b', blocks_of d f (snd (ls ! i))) \<and> bi_at d f ls (Suc i) b'"
proof -
  let ?s = "snd (ls ! i)"
  have d: "index_of d ls" "readable f ?s" using b i by (simp_all add: bi_at_def)
  obtain x xs where es: "sect_entries ?s = x # xs" using sect_at(1) [OF d(1) i] by (cases "sect_entries ?s") auto
  let ?b = "b\<lparr>bi_key := sect_key ?s, bi_typ := sect_type ?s, bi_entries := x # xs, bi_i := int i + 1\<rparr>"
  have K: "xi_Key (int i) d = Inr (sect_key ?s, sect_type ?s, x # xs)" using Key_eq(1) [OF d(1) i] es by (metis prod.collapse)
  have "tl (bi_entries b) = []" using b by (cases "bi_entries b") (auto simp: bi_at_def)
  then have nx: "bi_Next b = Inr (True, ?b)"
    using b i K by (simp add: bi_Next_def bi_at_def Let_def KeyCount_eq [OF d(1)])
  have lb: "load_block it ?b [] = Inr (it, ?b, [block_of d f ?s x], sect_key ?s)"
    using load_block_at [of ?b x xs ?s it "[]"] b d(2) es by (simp add: bi_at_def)
  have "load_same_key n (sect_key ?s) it ?b [block_of d f ?s x] =
      Inr (it, ?b\<lparr>bi_entries := [last (x # xs)]\<rparr>, [block_of d f ?s x] @ map (block_of d f ?s) xs)"
    using load_same_key_at [of ?b ls i x xs n it "[block_of d f ?s x]"] b d i es n by (simp add: bi_at_def subset_insertI)
  moreover have "bi_at d f ls (Suc i) (?b\<lparr>bi_entries := [last (x # xs)]\<rparr>)" using b i by (simp add: bi_at_def)
  ultimately show ?thesis using nx lb b es by (simp add: load_file_def append_error_def blocks_of_def bi_at_def)
qed

lemma load_file_end:
  assumes b: "bi_at d f ls (length ls) b"
  shows "\<exists>b'. load_file n it b [] = Inr (it, b', []) \<and> bi_at d f ls (length ls) b'"
proof -
  have "tl (bi_entries b) = []" using b by (cases "bi_entries b") (auto simp: bi_at_def)
  then have "bi_Next b = Inr (False, if bi_entries b = [] then b else b\<lparr>bi_entries := []\<rparr>)" using b by (simp add: bi_Next_def bi_at_def)
  then show ?thesis using b by (auto simp: load_file_def append_error_def bi_at_def)
qed

text \<open>
  A file of the compaction with the number of its keys that are done: the key that follows is not loaded yet, or its
  blocks are in the buffer.
\<close>

type_synonym sst_state = "(indirectIndex \<times> bytes \<times> (nat \<times> sect) list) \<times> nat \<times> BlockIterator \<times> block list"

abbreviation iter_of :: "sst_state \<Rightarrow> BlockIterator" where "iter_of x \<equiv> fst (snd (snd x))"
abbreviation buf_of :: "sst_state \<Rightarrow> block list" where "buf_of x \<equiv> snd (snd (snd x))"

definition left :: "sst_state \<Rightarrow> sect list" where
  "left x = map snd (drop (fst (snd x)) (snd (snd (fst x))))"

fun at_file :: "sst_state \<Rightarrow> bool" where
  "at_file ((d, f, ls), j, b, buf) \<longleftrightarrow>
     buf = [] \<and> bi_at d f ls j b \<or> j < length ls \<and> buf = blocks_of d f (snd (ls ! j)) \<and> bi_at d f ls (Suc j) b"

definition filled :: "sst_state \<Rightarrow> bool" where
  "filled x \<longleftrightarrow> at_file x \<and>
     (case left x of [] \<Rightarrow> buf_of x = [] | s # _ \<Rightarrow> buf_of x = blocks_of (fst (fst x)) (fst (snd (fst x))) s \<and> buf_of x \<noteq> [])"

definition small_sects :: "nat \<Rightarrow> sst_state \<Rightarrow> bool" where
  "small_sects n x \<longleftrightarrow> (\<forall>s \<in> set (left x). length (sect_entries s) \<le> n)"

lemma left_Cons: "j < length ls \<Longrightarrow> left ((d, f, ls), j, b, buf) = snd (ls ! j) # left ((d, f, ls), Suc j, b', buf')"
  by (simp add: left_def Cons_nth_drop_Suc [symmetric])

lemma load_file_filled:
  assumes "at_file ((d, f, ls), j, b, buf)" and "small_sects n ((d, f, ls), j, b, buf)"
  shows "\<exists>b' buf'. load_file n it b buf = Inr (it, b', buf') \<and> filled ((d, f, ls), j, b', buf')"
proof -
  have ne: "blocks_of d f (snd (ls ! j)) \<noteq> []" if "index_of d ls" "j < length ls"
    using sect_at(1) [OF that] by (simp add: blocks_of_def)
  consider "buf \<noteq> []" | "buf = []" "bi_at d f ls j b" "j < length ls" | "buf = []" "bi_at d f ls j b" "j = length ls"
    using assms(1) ne by (auto simp: bi_at_def dest: le_imp_less_or_eq)
  then show ?thesis
  proof cases
    case 1
    then have "load_file n it b buf = Inr (it, b, buf)" by (simp add: load_file_def)
    then show ?thesis using 1 assms(1) left_Cons [of j ls d f b buf b buf] by (auto simp: filled_def)
  next
    case 2
    have "length (sect_entries (snd (ls ! j))) \<le> n" using assms(2) left_Cons [OF 2(3), of d f b buf b buf] by (simp add: small_sects_def)
    then obtain b' where b': "load_file n it b [] = Inr (it, b', blocks_of d f (snd (ls ! j)))" "bi_at d f ls (Suc j) b'"
      using load_file_at [OF 2(2,3)] by blast
    moreover have "filled ((d, f, ls), j, b', blocks_of d f (snd (ls ! j)))"
      using b'(2) 2 ne left_Cons [OF 2(3), of d f b' "blocks_of d f (snd (ls ! j))" b' "[]"] by (simp add: filled_def bi_at_def)
    ultimately show ?thesis using 2(1) by blast
  next
    case 3
    then obtain b' where "load_file n it b [] = Inr (it, b', [])" "bi_at d f ls j b'" using load_file_end [of d f ls b n it] by blast
    then show ?thesis using 3 by (intro exI [of _ b'] exI [of _ "[]"]) (simp add: filled_def left_def)
  qed
qed

lemma load_files_filled:
  assumes "\<forall>x \<in> set S. at_file x \<and> small_sects n x"
  shows "\<exists>S'. load_files n it (map iter_of S) (map buf_of S) = Inr (it, map iter_of S', map buf_of S') \<and>
    (\<forall>x \<in> set S'. filled x) \<and> map (\<lambda>x. (fst x, left x)) S' = map (\<lambda>x. (fst x, left x)) S"
  using assms
proof (induction S)
  case Nil
  then show ?case by (intro exI [of _ "[]"]) simp
next
  case (Cons x S)
  obtain d f ls j b buf where x: "x = ((d, f, ls), j, b, buf)" by (metis surj_pair)
  obtain b' buf' where l: "load_file n it b buf = Inr (it, b', buf')" "filled ((d, f, ls), j, b', buf')"
    using load_file_filled [of d f ls j b buf n it] Cons.prems by (auto simp: x)
  obtain S' where S: "load_files n it (map iter_of S) (map buf_of S) = Inr (it, map iter_of S', map buf_of S')"
    "\<forall>x \<in> set S'. filled x" "map (\<lambda>x. (fst x, left x)) S' = map (\<lambda>x. (fst x, left x)) S"
    using Cons.IH Cons.prems by auto
  then show ?case using l by (intro exI [of _ "((d, f, ls), j, b', buf') # S'"]) (simp add: x left_def)
qed

section \<open>The least key\<close>

lemma fold_min_key:
  fixes mk0 :: bytes
  defines "step \<equiv> \<lambda>b (minKey, minType).
       case b of
         [] \<Rightarrow> (minKey, minType)
       | blk # _ \<Rightarrow> if length minKey = 0 \<or> bytes_Compare (bk_key blk) minKey < 0 then (bk_key blk, bk_typ blk) else (minKey, minType)"
  assumes "\<And>buf. buf \<in> set bufs \<Longrightarrow> buf \<noteq> [] \<Longrightarrow> bk_key (hd buf) \<noteq> []" and "fold step bufs (mk0, t0) = (k, t)"
  shows "(\<forall>buf \<in> set bufs. buf \<noteq> [] \<longrightarrow> k \<noteq> [] \<and> k \<le> bk_key (hd buf)) \<and> (mk0 \<noteq> [] \<longrightarrow> k \<noteq> [] \<and> k \<le> mk0) \<and>
    (k = mk0 \<and> t = t0 \<or> (\<exists>buf \<in> set bufs. buf \<noteq> [] \<and> k = bk_key (hd buf) \<and> t = bk_typ (hd buf)))"
  using assms(2-)
proof (induction bufs arbitrary: mk0 t0)
  case (Cons buf bufs)
  obtain mk1 t1 where st: "step buf (mk0, t0) = (mk1, t1)" by fastforce
  have IH: "(\<forall>buf \<in> set bufs. buf \<noteq> [] \<longrightarrow> k \<noteq> [] \<and> k \<le> bk_key (hd buf)) \<and> (mk1 \<noteq> [] \<longrightarrow> k \<noteq> [] \<and> k \<le> mk1) \<and>
    (k = mk1 \<and> t = t1 \<or> (\<exists>buf \<in> set bufs. buf \<noteq> [] \<and> k = bk_key (hd buf) \<and> t = bk_typ (hd buf)))"
    using Cons.prems st by (intro Cons.IH [of mk1 t1]) auto
  have m: "(mk0 \<noteq> [] \<longrightarrow> mk1 \<noteq> [] \<and> mk1 \<le> mk0) \<and> (buf \<noteq> [] \<longrightarrow> mk1 \<noteq> [] \<and> mk1 \<le> bk_key (hd buf)) \<and>
    (mk1 = mk0 \<and> t1 = t0 \<or> buf \<noteq> [] \<and> mk1 = bk_key (hd buf) \<and> t1 = bk_typ (hd buf))"
    using st Cons.prems(1) [of buf] by (cases buf) (auto simp: step_def not_less split: if_splits)
  show ?case using IH m by (auto intro: order_trans)
qed simp

definition keys_left :: "sst_state list \<Rightarrow> bytes set" where
  "keys_left S = (\<Union>x \<in> set S. sect_key ` set (left x))"

text \<open>The blocks of a key in a file, and in all files from the first to the last.\<close>

definition key_blocks1 :: "bytes \<Rightarrow> sst_state \<Rightarrow> block list" where
  "key_blocks1 k x = concat (map (blocks_of (fst (fst x)) (fst (snd (fst x)))) (filter (\<lambda>s. sect_key s = k) (left x)))"

definition key_blocks :: "bytes \<Rightarrow> sst_state list \<Rightarrow> block list" where
  "key_blocks k S = concat (map (key_blocks1 k) S)"

definition advance :: "bytes \<Rightarrow> sst_state \<Rightarrow> sst_state" where
  "advance k x = (if has_key k (buf_of x) then (fst x, Suc (fst (snd x)), iter_of x, []) else x)"

lemma at_file_left:
  assumes "at_file x"
  shows "sorted_wrt (<) (map sect_key (left x))" and "\<And>s. s \<in> set (left x) \<Longrightarrow> sect_key s \<noteq> []"
proof -
  obtain d f ls j b buf where x: "x = ((d, f, ls), j, b, buf)" by (metis surj_pair)
  obtain i where b: "bi_at d f ls i b" using assms by (auto simp: x)
  have "sorted_wrt (<) (map (\<lambda>x. sect_key (snd x)) ls)" using b by (simp add: bi_at_def index_of_def placed_def)
  then show "sorted_wrt (<) (map sect_key (left x))" by (simp add: left_def x drop_map [symmetric] sorted_wrt_drop comp_def)
  show "sect_key s \<noteq> []" if "s \<in> set (left x)" for s
    using that b by (auto simp: left_def x bi_at_def readable_def dest: in_set_dropD)
qed

lemma filled_buf:
  assumes "filled x"
  shows "buf_of x \<noteq> [] \<longleftrightarrow> left x \<noteq> []" and "left x = s # ss \<Longrightarrow> bk_key (hd (buf_of x)) = sect_key s \<and> bk_typ (hd (buf_of x)) = sect_type s"
    and "at_file x"
proof -
  show "buf_of x \<noteq> [] \<longleftrightarrow> left x \<noteq> []" "at_file x" using assms by (auto simp: filled_def split: list.splits)
  assume "left x = s # ss"
  then have b: "buf_of x = blocks_of (fst (fst x)) (fst (snd (fst x))) s" "buf_of x \<noteq> []" using assms by (auto simp: filled_def)
  then obtain e es where "sect_entries s = e # es" by (cases "sect_entries s") (auto simp: blocks_of_def)
  then show "bk_key (hd (buf_of x)) = sect_key s \<and> bk_typ (hd (buf_of x)) = sect_type s" using b(1) by (simp add: blocks_of_def block_of_def)
qed

lemma advance_filled:
  assumes f: "filled x" and k: "\<And>s. s \<in> set (left x) \<Longrightarrow> k \<le> sect_key s"
  shows "at_file (advance k x)" and "left (advance k x) = filter (\<lambda>s. sect_key s \<noteq> k) (left x)"
    and "(if has_key k (buf_of x) then buf_of x else []) = key_blocks1 k x"
    and "buf_of (advance k x) = (if has_key k (buf_of x) then [] else buf_of x)" and "iter_of (advance k x) = iter_of x"
proof -
  obtain d f ls j b buf where x: "x = ((d, f, ls), j, b, buf)" by (metis surj_pair)
  note F = filled_buf [OF f]
  have at: "sorted_wrt (<) (map sect_key (left x))" by (rule at_file_left(1) [OF F(3)])
  show "buf_of (advance k x) = (if has_key k (buf_of x) then [] else buf_of x)" "iter_of (advance k x) = iter_of x"
    by (simp_all add: advance_def)
  have "at_file (advance k x) \<and> left (advance k x) = filter (\<lambda>s. sect_key s \<noteq> k) (left x) \<and>
      (if has_key k (buf_of x) then buf_of x else []) = key_blocks1 k x"
  proof (cases "left x")
    case Nil
    then show ?thesis using F f by (simp add: advance_def has_key_def key_blocks1_def)
  next
    case (Cons s ss)
    have hk: "has_key k (buf_of x) \<longleftrightarrow> sect_key s = k" using F(1) F(2) [OF Cons] Cons by (simp add: has_key_def)
    have gt: "\<And>s'. s' \<in> set ss \<Longrightarrow> sect_key s < sect_key s'" using at Cons by auto
    have "drop j ls \<noteq> []" using Cons by (auto simp: x left_def)
    then have j: "j < length ls" by simp
    have buf: "buf = blocks_of d f s" "buf \<noteq> []" using f Cons by (auto simp: filled_def x)
    show ?thesis
    proof (cases "sect_key s = k")
      case True
      have "sect_key s' \<noteq> k" if "s' \<in> set ss" for s' using gt [OF that] True by simp
      then have "filter (\<lambda>s. sect_key s = k) ss = []" "filter (\<lambda>s. sect_key s \<noteq> k) ss = ss"
        by (simp_all only: filter_empty_conv filter_id_conv) blast+
      moreover have "at_file ((d, f, ls), Suc j, b, [])" using F(3) buf(2) j by (auto simp: x)
      moreover have "left ((d, f, ls), Suc j, b, []) = ss" using Cons left_Cons [OF j, of d f b buf b "[]"] by (simp add: x)
      ultimately show ?thesis using hk True Cons buf(1) by (simp add: x advance_def key_blocks1_def)
    next
      case False
      then have "k < sect_key s" using k [of s] Cons by simp
      then have k_ne: "sect_key s' \<noteq> k" if "s' \<in> set (left x)" for s' using that gt [of s'] Cons False by (cases "s' = s") simp_all
      then have "filter (\<lambda>s. sect_key s = k) (left x) = []" "filter (\<lambda>s. sect_key s \<noteq> k) (left x) = left x"
        using k_ne by (simp_all only: filter_empty_conv filter_id_conv) blast+
      then show ?thesis using hk False F(3) by (simp add: advance_def key_blocks1_def)
    qed
  qed
  then show "at_file (advance k x)" "left (advance k x) = filter (\<lambda>s. sect_key s \<noteq> k) (left x)"
    "(if has_key k (buf_of x) then buf_of x else []) = key_blocks1 k x" by simp_all
qed

lemma concat_filter_map: "concat (filter P (map g xs)) = concat (map (\<lambda>x. if P (g x) then g x else []) xs)"
  by (induction xs) simp_all

lemma keys_left_empty: "\<forall>x \<in> set S. filled x \<Longrightarrow> keys_left S = {} \<Longrightarrow> map buf_of S = replicate (length S) []"
  using filled_buf(1) by (induction S) (auto simp: keys_left_def)

lemma take_key_filled:
  assumes S: "\<forall>x \<in> set S. filled x" and ne: "keys_left S \<noteq> {}"
  shows "\<exists>k t. k \<in> keys_left S \<and> (\<forall>k' \<in> keys_left S. k \<le> k') \<and> (\<exists>x \<in> set S. \<exists>s \<in> set (left x). sect_key s = k \<and> t = sect_type s) \<and>
    take_key it (map buf_of S) =
      (it\<lparr>it_key := k, it_typ := t, it_blocks := it_blocks it @ key_blocks k S\<rparr>, map buf_of (map (advance k) S)) \<and>
    map iter_of (map (advance k) S) = map iter_of S \<and> (\<forall>x \<in> set (map (advance k) S). at_file x) \<and>
    (\<forall>x \<in> set S. left (advance k x) = filter (\<lambda>s. sect_key s \<noteq> k) (left x))"
proof -
  obtain k t where kt: "min_key (map buf_of S) = (k, t)" by fastforce
  have hd: "\<exists>s ss. left x = s # ss \<and> bk_key (hd (buf_of x)) = sect_key s \<and> bk_typ (hd (buf_of x)) = sect_type s \<and> sect_key s \<noteq> []"
    if "x \<in> set S" "buf_of x \<noteq> []" for x
    using that S filled_buf [of x] at_file_left(2) [of x] by (cases "left x") auto
  have keys: "\<And>buf. buf \<in> set (map buf_of S) \<Longrightarrow> buf \<noteq> [] \<Longrightarrow> bk_key (hd buf) \<noteq> []"
    using hd by fastforce
  have M: "(\<forall>buf \<in> set (map buf_of S). buf \<noteq> [] \<longrightarrow> k \<noteq> [] \<and> k \<le> bk_key (hd buf)) \<and>
    (k = [] \<and> t = 0 \<or> (\<exists>buf \<in> set (map buf_of S). buf \<noteq> [] \<and> k = bk_key (hd buf) \<and> t = bk_typ (hd buf)))"
    using fold_min_key [OF keys kt [unfolded min_key_def]] by blast
  have le: "k \<le> sect_key s" if x: "x \<in> set S" and s: "s \<in> set (left x)" for x s
  proof -
    obtain s' ss where l: "left x = s' # ss" using s by (cases "left x") auto
    have "buf_of x \<noteq> []" "bk_key (hd (buf_of x)) = sect_key s'" using filled_buf(1) [of x] filled_buf(2) [OF _ l] l S x by auto
    then have "k \<le> sect_key s'" using M x by force
    moreover have "sect_key s' \<le> sect_key s" using at_file_left(1) [of x] filled_buf(3) [of x] S x s l by auto
    ultimately show ?thesis by (rule order_trans)
  qed
  obtain x0 s0 where "x0 \<in> set S" "s0 \<in> set (left x0)" using ne unfolding keys_left_def by blast
  then have "\<exists>buf \<in> set (map buf_of S). buf \<noteq> []" using filled_buf(1) [of x0] S by auto
  then obtain x where x: "x \<in> set S" "buf_of x \<noteq> []" "k = bk_key (hd (buf_of x))" "t = bk_typ (hd (buf_of x))" using M by auto
  then obtain s ss where s: "left x = s # ss" "k = sect_key s" "t = sect_type s" using hd [OF x(1,2)] by auto
  have adv: "filled x \<and> (\<forall>s \<in> set (left x). k \<le> sect_key s)" if "x \<in> set S" for x using S le that by blast
  have "concat (filter (has_key k) (map buf_of S)) = key_blocks k S"
    using adv advance_filled(3) [of _ k] unfolding key_blocks_def concat_filter_map by (intro arg_cong [where f = concat] map_cong) simp_all
  moreover have "map (\<lambda>buf. if has_key k buf then [] else buf) (map buf_of S) = map buf_of (map (advance k) S)"
    by (simp add: advance_def)
  ultimately have "take_key it (map buf_of S) =
      (it\<lparr>it_key := k, it_typ := t, it_blocks := it_blocks it @ key_blocks k S\<rparr>, map buf_of (map (advance k) S))"
    by (simp add: take_key_def kt)
  moreover have "map iter_of (map (advance k) S) = map iter_of S" by (simp add: advance_def)
  moreover have "\<forall>x \<in> set S. at_file (advance k x) \<and> left (advance k x) = filter (\<lambda>s. sect_key s \<noteq> k) (left x)"
    using adv advance_filled(1,2) [of _ k] by blast
  moreover have "k \<in> keys_left S" unfolding keys_left_def using s x(1) by (intro UN_I [of x]) simp_all
  moreover have "\<forall>k' \<in> keys_left S. k \<le> k'" using le unfolding keys_left_def by blast
  moreover have "\<exists>x \<in> set S. \<exists>s \<in> set (left x). sect_key s = k \<and> t = sect_type s" using s x(1) by (intro bexI [of _ x] bexI [of _ s]) simp_all
  ultimately show ?thesis by (intro exI [of _ k] exI [of _ t]) simp
qed

section \<open>Runs of the iterator\<close>

text \<open>What \<open>Read\<close> returns after each call of \<open>Next\<close> that returns true, until one returns false.\<close>

inductive delivers :: "nat \<Rightarrow> iterator_env \<Rightarrow> sstKeyIterator \<Rightarrow> ((bytes \<times> int \<times> int \<times> bytes) \<times> (error list \<times> nat) option) list \<Rightarrow> bool"
  for n e where
  at_end: "ki_Next n e k = Inr (False, k') \<Longrightarrow> delivers n e k []"
| one_more: "ki_Next n e k = Inr (True, k') \<Longrightarrow> delivers n e k' rs \<Longrightarrow> delivers n e k (ki_Read k' # rs)"

lemma delivers_same: "delivers n e k rs \<Longrightarrow> ki_Next n e k1 = ki_Next n e k \<Longrightarrow> delivers n e k1 rs"
  by (cases rule: delivers.cases) (auto intro: delivers.intros)

lemma ki_Next_mono: "ki_Next n e k = Inr r \<Longrightarrow> ki_Next (Suc n) e k = Inr r"
proof (induction n arbitrary: k)
  case (Suc n)
  obtain more it1 where 1: "next_pending (it_merge e) (ki_it k) = Inr (more, it1)"
    using Suc.prems by (cases "next_pending (it_merge e) (ki_it k)") auto
  show ?case
  proof (cases more)
    case False
    obtain it2 bs bufs where 2: "load_files (iv_fuel e) it1 (ki_iterators k) (ki_buf k) = Inr (it2, bs, bufs)"
      using Suc.prems 1 False by (cases "load_files (iv_fuel e) it1 (ki_iterators k) (ki_buf k)") auto
    obtain it3 bufs' where 3: "take_key it2 bufs = (it3, bufs')" by fastforce
    show ?thesis
    proof (cases "it_blocks it3 = []")
      case ne: False
      obtain it4 where 4: "it_merge e it3 = Inr it4" using Suc.prems 1 2 3 False ne by (cases "it_merge e it3") auto
      show ?thesis
      proof (cases "it_merged it4 = []")
        case True
        let ?k = "\<lparr>ki_it = it4, ki_iterators = bs, ki_buf = bufs'\<rparr>"
        have "ki_Next n e ?k = Inr r" using Suc.prems 1 2 3 4 False ne True by simp
        then have "ki_Next (Suc n) e ?k = Inr r" by (rule Suc.IH)
        then show ?thesis using 1 2 3 4 False ne True by (subst ki_Next.simps(2)) (simp del: ki_Next.simps)
      qed (use Suc.prems 1 2 3 4 False ne in simp)
    qed (use Suc.prems 1 2 3 False in simp)
  qed (use Suc.prems 1 in simp)
qed simp

lemma delivers_mono: "delivers n e k rs \<Longrightarrow> delivers (Suc n) e k rs"
  by (induction rule: delivers.induct) (auto intro: delivers.intros ki_Next_mono)

definition read_result :: "block \<Rightarrow> (bytes \<times> int \<times> int \<times> bytes) \<times> (error list \<times> nat) option" where
  "read_result b = ((bk_key b, bk_minTime b, bk_maxTime b, bk_b b), None)"

text \<open>An input of the compaction: the index and the bytes of an SST file, and the sections of the index. All blocks of a key, file after file.\<close>

type_synonym sst_input = "indirectIndex \<times> bytes \<times> (nat \<times> sect) list"

definition input_file :: "sst_input \<Rightarrow> bool" where
  "input_file F \<longleftrightarrow> index_of (fst F) (snd (snd F)) \<and> (\<forall>x \<in> set (snd (snd F)). readable (fst (snd F)) (snd x))"

definition input_keys :: "sst_input list \<Rightarrow> bytes set" where
  "input_keys fs = (\<Union>F \<in> set fs. (\<lambda>x. sect_key (snd x)) ` set (snd (snd F)))"

definition input_blocks :: "bytes \<Rightarrow> sst_input list \<Rightarrow> block list" where
  "input_blocks key fs =
     concat (map (\<lambda>F. concat (map (blocks_of (fst F) (fst (snd F))) (filter (\<lambda>s. sect_key s = key) (map snd (snd (snd F)))))) fs)"

definition opened_file :: "sst_input \<Rightarrow> sst_state" where
  "opened_file F = (F, 0, sr_BlockIterator (fst F) (fst (snd F)), [])"

lemma left_opened [simp]: "left (opened_file F) = map snd (snd (snd F))" by (simp add: left_def opened_file_def)

lemma fst_opened [simp]: "fst (opened_file F) = F" by (simp add: opened_file_def)

lemma opened_keys: "keys_left (map opened_file fs) = input_keys fs"
  unfolding keys_left_def input_keys_def by (simp add: image_image)

lemma opened_blocks: "key_blocks key (map opened_file fs) = input_blocks key fs"
  by (simp add: key_blocks_def key_blocks1_def [abs_def] input_blocks_def comp_def)

lemma opened_at: "input_file F \<Longrightarrow> at_file (opened_file F)"
  by (cases F) (auto simp: opened_file_def input_file_def bi_at_def sr_BlockIterator_def)

lemma opened_input:
  "ki_iterators (NewSSTBatchKeyIterator sz fast me th (map (\<lambda>F. (fst F, fst (snd F))) fs)) = map iter_of (map opened_file fs)"
  "ki_buf (NewSSTBatchKeyIterator sz fast me th (map (\<lambda>F. (fst F, fst (snd F))) fs)) = map buf_of (map opened_file fs)"
  by (simp_all add: NewSSTBatchKeyIterator_def opened_file_def comp_def map_replicate_const)

lemma input_block_from:
  assumes "F \<in> set fs" and "x \<in> set (snd (snd F))"
  shows "set (blocks_of (fst F) (fst (snd F)) (snd x)) \<subseteq> set (input_blocks (sect_key (snd x)) fs)"
    and "length (sect_entries (snd x)) \<le> length (input_blocks (sect_key (snd x)) fs)"
proof -
  let ?g = "\<lambda>F. concat (map (blocks_of (fst F) (fst (snd F))) (filter (\<lambda>s. sect_key s = sect_key (snd x)) (map snd (snd (snd F)))))"
  obtain xs ys where fs: "fs = xs @ F # ys" using assms(1) by (auto simp: in_set_conv_decomp)
  obtain us vs where ls: "snd (snd F) = us @ x # vs" using assms(2) by (auto simp: in_set_conv_decomp)
  obtain ps qs where "?g F = ps @ blocks_of (fst F) (fst (snd F)) (snd x) @ qs" unfolding ls by simp
  then have b: "input_blocks (sect_key (snd x)) fs = (concat (map ?g xs) @ ps) @ blocks_of (fst F) (fst (snd F)) (snd x) @ (qs @ concat (map ?g ys))"
    by (simp add: input_blocks_def fs)
  then show "set (blocks_of (fst F) (fst (snd F)) (snd x)) \<subseteq> set (input_blocks (sect_key (snd x)) fs)" by auto
  show "length (sect_entries (snd x)) \<le> length (input_blocks (sect_key (snd x)) fs)" unfolding b by (simp add: blocks_of_def)
qed

locale file_merge = typed_merge mk ev fits cap get put "it_merge e" mine
  for mk :: "u64 \<Rightarrow> 'v \<Rightarrow> Value" and ev :: "'v merge_env" and fits cap get put e mine +
  fixes bt :: byte and idle :: "sstBatchKeyIterator \<Rightarrow> bool"
  assumes mine_iff: "mine it \<longleftrightarrow> GetBaseType (it_typ it) = bt \<and> idle it"
    and idle_load: "idle (it\<lparr>it_key := k, it_typ := t, it_blocks := bs\<rparr>) = idle it"
    and get_load: "get (it\<lparr>it_key := k, it_typ := t, it_blocks := bs\<rparr>) = get it"
    and idle_has: "idle it \<Longrightarrow> hasMergedValues it \<longleftrightarrow> arr_Len (get it) > 0"
begin

lemma ki_Read_head: "key_state key sz series inputs out (q # qs) T ps it \<Longrightarrow> ki_Read (k\<lparr>ki_it := it\<rparr>) = read_result (fst q)"
  by (simp add: key_state_def ki_Read_def it_Err_def read_result_def)

text \<open>From the first block of a key that is delivered to the last one.\<close>

lemma run_key:
  assumes "key_state key sz series inputs out (q # qs) T ps it" and sz: "0 < sz" "sz \<le> cap" and n: "0 < n"
  shows "\<exists>es it' T'. (\<forall>rs. delivers n e (k\<lparr>ki_it := it'\<rparr>) rs \<longrightarrow> delivers n e (k\<lparr>ki_it := it\<rparr>) (map (\<lambda>q. read_result (fst q)) es @ rs)) \<and>
    (\<forall>q' \<in> set (q # es). emitted key sz inputs q') \<and> out @ concat (map contents (q # es)) = Deduplicate series \<and>
    key_state key sz series inputs (Deduplicate series) [] T' [] it' \<and> arr_Len (get it') = 0"
  using assms(1)
proof (induction "length (Deduplicate series) - length out" arbitrary: out q qs T ps it rule: less_induct)
  case less
  let ?it = "it\<lparr>it_merged := tl (it_merged it)\<rparr>" and ?out = "out @ contents q"
  have pop: "key_state key sz series inputs ?out qs T ps ?it" by (rule key_state_pop [OF less.prems])
  have q: "emitted key sz inputs q" "contents q \<noteq> []"
    using less.prems holds_simps(3) [of key q] by (simp_all add: key_state_def emitted_def del: vals_Nil_iff)
  have shorter: "length (Deduplicate series) - length ?out < length (Deduplicate series) - length out"
  proof -
    have "length ?out \<le> length (Deduplicate series)" using key_state_length [OF pop] by simp
    moreover have "0 < length (contents q)" using q(2) by (simp del: length_vals)
    ultimately show ?thesis unfolding length_append by linarith
  qed
  obtain m where m: "n = Suc m" using n by (cases n) auto
  have go: "?case" if nx: "next_pending (it_merge e) it = Inr (True, it2)" and st: "key_state key sz series inputs ?out (q2 # qs2) T2 ps2 it2" for it2 q2 qs2 T2 ps2
  proof -
    obtain es it' T' where r: "\<forall>rs. delivers n e (k\<lparr>ki_it := it'\<rparr>) rs \<longrightarrow> delivers n e (k\<lparr>ki_it := it2\<rparr>) (map (\<lambda>q. read_result (fst q)) es @ rs)"
      "\<forall>q' \<in> set (q2 # es). emitted key sz inputs q'" "?out @ concat (map contents (q2 # es)) = Deduplicate series"
      "key_state key sz series inputs (Deduplicate series) [] T' [] it'" "arr_Len (get it') = 0"
      using less.hyps [OF shorter st] by blast
    have "ki_Next n e (k\<lparr>ki_it := it\<rparr>) = Inr (True, k\<lparr>ki_it := it2\<rparr>)" using nx m by simp
    then have "\<forall>rs. delivers n e (k\<lparr>ki_it := it'\<rparr>) rs \<longrightarrow> delivers n e (k\<lparr>ki_it := it\<rparr>) (map (\<lambda>q. read_result (fst q)) (q2 # es) @ rs)"
      using r(1) one_more [of n e "k\<lparr>ki_it := it\<rparr>" "k\<lparr>ki_it := it2\<rparr>"] ki_Read_head [OF st, of k] by auto
    then show ?thesis using r(2-5) q(1) by (intro exI [of _ "q2 # es"] exI [of _ it'] exI [of _ T']) simp
  qed
  show ?case
  proof (cases qs)
    case (Cons q2 qs2)
    then have "next_pending (it_merge e) it = Inr (True, ?it)" using less.prems by (simp add: next_pending_def key_state_def)
    then show ?thesis using go pop Cons by blast
  next
    case Nil
    have same: "next_pending (it_merge e) it = next_pending (it_merge e) ?it" using less.prems Nil by (simp add: next_pending_def key_state_def)
    obtain more it2 qs2 T2 ps2 where nx: "next_pending (it_merge e) ?it = Inr (more, it2)" "key_state key sz series inputs ?out qs2 T2 ps2 it2"
      "more \<longleftrightarrow> qs2 \<noteq> []" "drained qs2 ps2 it2"
      using key_state_next [OF pop [unfolded Nil] sz] by blast
    show ?thesis
    proof (cases more)
      case True
      then show ?thesis using go [of it2] nx same by (cases qs2) auto
    next
      case False
      then have e2: "qs2 = []" "ps2 = []" "arr_Len (get it2) = 0" using nx(3,4) by (auto simp: drained_def)
      have out: "?out = Deduplicate series" using key_state_done [of key sz series inputs ?out T2 it2] nx(2) e2 by simp
      have "next_pending (it_merge e) it2 = Inr (False, it2)"
        using nx(2) e2 has [of it2] by (cases it2) (simp add: next_pending_def key_state_def)
      then have "ki_Next n e (k\<lparr>ki_it := it\<rparr>) = ki_Next n e (k\<lparr>ki_it := it2\<rparr>)" using nx(1) same False m by simp
      then show ?thesis
        using delivers_same nx(2) e2 out q(1) by (intro exI [of _ "[]"] exI [of _ it2] exI [of _ T2]) auto
    qed
  qed
qed

text \<open>Between two keys nothing is pending.\<close>

definition quiet :: "nat \<Rightarrow> sstBatchKeyIterator \<Rightarrow> bool" where
  "quiet sz it \<longleftrightarrow> it_blocks it = [] \<and> it_merged it = [] \<and> get it = empty_array \<and> idle it \<and> it_errs it = [] \<and> it_size it = sz"

text \<open>The sections of a file, where \<open>arr\<close> gives the array of values that a block holds.\<close>

definition good_file :: "(block \<Rightarrow> 'v array) \<Rightarrow> sst_state \<Rightarrow> bool" where
  "good_file arr x \<longleftrightarrow> (\<forall>s \<in> set (left x). GetBaseType (sect_type s) = bt \<and>
     (\<forall>b \<in> set (blocks_of (fst (fst x)) (fst (snd (fst x))) s). block_holds ev mk (sect_key s) b (arr b) \<and>
        (\<forall>v \<in> set (vals (arr b)). fits v) \<and> IsPtrBlock (bk_b b) = Inr False))"

abbreviation key_pairs :: "(block \<Rightarrow> 'v array) \<Rightarrow> bytes \<Rightarrow> sst_state list \<Rightarrow> (block \<times> 'v array) list" where
  "key_pairs arr k S \<equiv> map (\<lambda>b. (b, arr b)) (key_blocks k S)"

lemma quiet_next: "quiet sz it \<Longrightarrow> next_pending (it_merge e) it = Inr (False, it)"
  using idle_has [of it] by (cases it) (simp add: quiet_def next_pending_def)

lemma quiet_done:
  assumes "key_state key sz series inputs out [] T [] it" and "arr_Len (get it) = 0"
  shows "quiet sz it"
proof -
  have "arr_wf (get it)" using assms(1) by (simp add: key_state_def merge_inv_def)
  then have "get it = empty_array" using assms(2) by (cases "get it") (simp add: arr_wf_def arr_Len_def empty_array_def)
  then show ?thesis using assms(1) mine_iff [of it] by (simp add: quiet_def key_state_def)
qed

lemma key_blocks_cong: "map (\<lambda>x. (fst x, left x)) S' = map (\<lambda>x. (fst x, left x)) S \<Longrightarrow> key_blocks k S' = key_blocks k S"
proof -
  assume m: "map (\<lambda>x. (fst x, left x)) S' = map (\<lambda>x. (fst x, left x)) S"
  have "key_blocks k T = concat (map (\<lambda>(F, l). concat (map (blocks_of (fst F) (fst (snd F))) (filter (\<lambda>s. sect_key s = k) l))) (map (\<lambda>x. (fst x, left x)) T))" for T
    by (simp add: key_blocks_def key_blocks1_def [abs_def] comp_def)
  from this [of S'] this [of S] show ?thesis unfolding m by simp
qed

lemma left_cong:
  assumes "map (\<lambda>x. (fst x, left x)) S' = map (\<lambda>x. (fst x, left x)) S"
  shows "keys_left S' = keys_left S" and "\<forall>x \<in> set S. good_file arr x \<Longrightarrow> \<forall>x \<in> set S'. good_file arr x"
    and "\<forall>x \<in> set S. small_sects m x \<Longrightarrow> \<forall>x \<in> set S'. small_sects m x"
proof -
  have img: "(\<lambda>x. (fst x, left x)) ` set S' = (\<lambda>x. (fst x, left x)) ` set S"
    using arg_cong [OF assms, of set] unfolding set_map .
  have ex: "\<exists>y \<in> set S. fst x = fst y \<and> left x = left y" if "x \<in> set S'" for x
  proof -
    have "(fst x, left x) \<in> (\<lambda>x. (fst x, left x)) ` set S" unfolding img [symmetric] using that by (rule imageI)
    then obtain y where "(fst x, left x) = (fst y, left y)" "y \<in> set S" by (rule imageE)
    then show ?thesis by (intro bexI [of _ y]) simp_all
  qed
  have "keys_left T = (\<Union>p \<in> (\<lambda>x. (fst x, left x)) ` set T. sect_key ` set (snd p))" for T by (simp add: keys_left_def)
  from this [of S'] this [of S] show "keys_left S' = keys_left S" unfolding img by simp
  show "\<forall>x \<in> set S'. good_file arr x" if "\<forall>x \<in> set S. good_file arr x" using that ex by (metis good_file_def)
  show "\<forall>x \<in> set S'. small_sects m x" if "\<forall>x \<in> set S. small_sects m x" using that ex by (metis small_sects_def)
qed

lemma pairs_good:
  assumes "\<forall>x \<in> set S. good_file arr x" and "p \<in> set (key_pairs arr k S)"
  shows "holds k p \<and> (\<forall>v \<in> set (contents p). fits v) \<and> bk_readMin (fst p) = max_i64 \<and> bk_readMax (fst p) = min_i64 \<and> IsPtrBlock (bk_b (fst p)) = Inr False"
proof -
  obtain x s where x: "x \<in> set S" "s \<in> set (left x)" "sect_key s = k" and b: "fst p \<in> set (blocks_of (fst (fst x)) (fst (snd (fst x))) s)" "snd p = arr (fst p)"
    using assms(2) unfolding key_blocks_def key_blocks1_def by auto
  then show ?thesis using assms(1) by (auto simp: good_file_def blocks_of_def block_of_def)
qed

text \<open>The call of \<open>Next\<close> that loads the next key.\<close>

lemma load_next_key:
  assumes S: "\<forall>x \<in> set S. at_file x \<and> small_sects (iv_fuel e) x \<and> good_file arr x" and k: "ki_iterators k = map iter_of S" "ki_buf k = map buf_of S"
    and q: "quiet sz (ki_it k)" and sz: "0 < sz" "sz \<le> cap" and fuel: "\<And>key. length (key_blocks key S) < min (me_fuel ev) 21"
    and ne: "keys_left S \<noteq> {}"
  shows "\<exists>key S1 it4 qs T ps. key \<in> keys_left S \<and> (\<forall>k' \<in> keys_left S. key \<le> k') \<and> keys_left S1 = keys_left S - {key} \<and>
    (\<forall>k'. k' \<noteq> key \<longrightarrow> key_blocks k' S1 = key_blocks k' S) \<and> (\<forall>x \<in> set S1. at_file x \<and> small_sects (iv_fuel e) x \<and> good_file arr x) \<and>
    key_state key sz (concat (map live (key_pairs arr key S))) (key_pairs arr key S) [] qs T ps it4 \<and> drained qs ps it4 \<and>
    (\<forall>n. ki_Next (Suc n) e k =
      (if qs = [] then ki_Next n e \<lparr>ki_it = it4, ki_iterators = map iter_of S1, ki_buf = map buf_of S1\<rparr>
       else Inr (True, \<lparr>ki_it = it4, ki_iterators = map iter_of S1, ki_buf = map buf_of S1\<rparr>)))"
proof -
  let ?it = "ki_it k"
  obtain S' where S': "load_files (iv_fuel e) ?it (map iter_of S) (map buf_of S) = Inr (?it, map iter_of S', map buf_of S')"
    "\<forall>x \<in> set S'. filled x" "map (\<lambda>x. (fst x, left x)) S' = map (\<lambda>x. (fst x, left x)) S"
    using load_files_filled [of S "iv_fuel e" ?it] S by blast
  note L = left_cong [OF S'(3)] key_blocks_cong [OF S'(3)]
  have g: "\<forall>x \<in> set S'. good_file arr x" "\<forall>x \<in> set S'. small_sects (iv_fuel e) x" using L(2,3) S by blast+
  obtain key t where t: "key \<in> keys_left S'" "\<forall>k' \<in> keys_left S'. key \<le> k'" "\<exists>x \<in> set S'. \<exists>s \<in> set (left x). sect_key s = key \<and> t = sect_type s"
    "take_key ?it (map buf_of S') = (?it\<lparr>it_key := key, it_typ := t, it_blocks := it_blocks ?it @ key_blocks key S'\<rparr>, map buf_of (map (advance key) S'))"
    "map iter_of (map (advance key) S') = map iter_of S'" "\<forall>x \<in> set (map (advance key) S'). at_file x"
    "\<forall>x \<in> set S'. left (advance key x) = filter (\<lambda>s. sect_key s \<noteq> key) (left x)"
    using take_key_filled [OF S'(2), of ?it] ne L(1) by metis
  let ?S1 = "map (advance key) S'" and ?it3 = "?it\<lparr>it_key := key, it_typ := t, it_blocks := key_blocks key S\<rparr>"
  have fst_adv: "fst (advance key x) = fst x" for x by (simp add: advance_def)
  have "keys_left ?S1 = (\<Union>x \<in> set S'. sect_key ` set (filter (\<lambda>s. sect_key s \<noteq> key) (left x)))"
    using t(7) unfolding keys_left_def set_map image_image by (intro SUP_cong) simp_all
  also have "\<dots> = keys_left S' - {key}" unfolding keys_left_def set_filter by blast
  finally have keys1: "keys_left ?S1 = keys_left S - {key}" using L(1) by simp
  have blocks1: "key_blocks k' ?S1 = key_blocks k' S" if "k' \<noteq> key" for k'
  proof -
    have "key_blocks1 k' (advance key x) = key_blocks1 k' x" if "x \<in> set S'" for x
      using t(7) that \<open>k' \<noteq> key\<close> by (auto simp: key_blocks1_def fst_adv intro!: arg_cong [where f = concat] arg_cong [where f = "map _"] filter_cong)
    then show ?thesis using L(4) [of k'] by (simp add: key_blocks_def cong: map_cong)
  qed
  have good1: "\<forall>x \<in> set ?S1. at_file x \<and> small_sects (iv_fuel e) x \<and> good_file arr x"
    using t(6,7) g by (auto simp: good_file_def small_sects_def fst_adv)
  have "GetBaseType t = bt" using t(3) g(1) by (auto simp: good_file_def)
  then have "mine ?it3" using q mine_iff [of ?it3] idle_load [where it = ?it and k = key and t = t] by (simp add: quiet_def)
  then obtain it4 qs T ps where m: "it_merge e ?it3 = Inr it4"
    "key_state key sz (concat (map live (key_pairs arr key S))) (key_pairs arr key S) [] qs T ps it4" "drained qs ps it4"
    using key_start [of "key_pairs arr key S" key ?it3] pairs_good [of S arr _ key] S q sz fuel get_load [where it = ?it and k = key and t = t]
    by (auto simp: quiet_def comp_def)
  have mg: "it_merged it4 = [] \<longleftrightarrow> qs = []" using m(2) by (simp add: key_state_def)
  have bne: "key_blocks key S \<noteq> []"
  proof -
    obtain x s where x: "x \<in> set S'" "s \<in> set (left x)" "sect_key s = key" using t(1) by (auto simp: keys_left_def)
    obtain d f ls j b buf where xe: "x = ((d, f, ls), j, b, buf)" by (metis surj_pair)
    obtain i where "bi_at d f ls i b" using S'(2) x(1) filled_buf(3) [of x] by (auto simp: xe)
    then have "sect_entries s \<noteq> []" using x(2) by (auto simp: xe left_def bi_at_def index_of_def placed_def wf_sect_def dest!: in_set_dropD)
    then have "set (blocks_of d f s) \<noteq> {}" by (simp add: blocks_of_def)
    moreover have "set (blocks_of d f s) \<subseteq> set (key_blocks1 key x)"
      unfolding key_blocks1_def set_concat set_map set_filter using x(2,3) unfolding xe fst_conv snd_conv by blast
    ultimately have "key_blocks1 key x \<noteq> []" by (cases "key_blocks1 key x") simp_all
    then show ?thesis using x(1) unfolding L(4) [of key, symmetric] by (auto simp: key_blocks_def)
  qed
  have "ki_Next (Suc n) e k =
      (if qs = [] then ki_Next n e \<lparr>ki_it = it4, ki_iterators = map iter_of ?S1, ki_buf = map buf_of ?S1\<rparr>
       else Inr (True, \<lparr>ki_it = it4, ki_iterators = map iter_of ?S1, ki_buf = map buf_of ?S1\<rparr>))" for n
    using quiet_next [OF q] k S'(1) t(4) m(1) mg bne q L(4) [of key] unfolding t(5) by (simp add: quiet_def)
  then show ?thesis using t(1,2) L(1) keys1 blocks1 good1 m(2,3) by blast
qed

lemma keys_left_facts: "finite (keys_left S)" "key \<notin> keys_left S \<Longrightarrow> key_blocks key S = []"
proof -
  show "finite (keys_left S)" by (simp add: keys_left_def)
  assume no: "key \<notin> keys_left S"
  have "key_blocks1 key x = []" if "x \<in> set S" for x
  proof -
    have "sect_key s \<noteq> key" if "s \<in> set (left x)" for s using no that \<open>x \<in> set S\<close> unfolding keys_left_def by blast
    then have "filter (\<lambda>s. sect_key s = key) (left x) = []" by (simp only: filter_empty_conv) blast
    then show ?thesis by (simp add: key_blocks1_def)
  qed
  then show "key_blocks key S = []" by (simp add: key_blocks_def)
qed

lemma delivers_later:
  assumes "delivers n e k1 rs" and "ki_Next (Suc n) e k = ki_Next n e k1"
  shows "delivers (Suc n) e k rs"
  using assms(1)
proof (cases rule: delivers.cases)
  case (at_end k')
  then show ?thesis using assms(2) by (auto intro: delivers.at_end)
next
  case (one_more k' rs')
  then show ?thesis using assms(2) delivers_mono by (auto intro: delivers.one_more)
qed

text \<open>The blocks \<open>es key\<close> of each of the keys hold the values that the files have for it.\<close>

definition merged_keys :: "(block \<Rightarrow> 'v array) \<Rightarrow> nat \<Rightarrow> sst_state list \<Rightarrow> (bytes \<Rightarrow> (block \<times> 'v array) list) \<Rightarrow> bool" where
  "merged_keys arr sz S es \<longleftrightarrow> (\<forall>key \<in> keys_left S. (\<forall>q \<in> set (es key). emitted key sz (key_pairs arr key S) q) \<and>
     concat (map contents (es key)) = Deduplicate (concat (map live (key_pairs arr key S))))"

definition results :: "(bytes \<Rightarrow> (block \<times> 'v array) list) \<Rightarrow> bytes list \<Rightarrow> ((bytes \<times> int \<times> int \<times> bytes) \<times> (error list \<times> nat) option) list" where
  "results es ks = concat (map (\<lambda>key. map (\<lambda>q. read_result (fst q)) (es key)) ks)"

lemma results_upd:
  assumes "key \<notin> set ks"
  shows "results (es(key := qs)) (key # ks) = map (\<lambda>q. read_result (fst q)) qs @ results es ks"
proof -
  have "map (\<lambda>k. map (\<lambda>q. read_result (fst q)) ((es(key := qs)) k)) ks = map (\<lambda>k. map (\<lambda>q. read_result (fst q)) (es k)) ks"
  proof (rule map_cong [OF refl])
    fix k assume "k \<in> set ks"
    then have "k \<noteq> key" using assms by blast
    then show "map (\<lambda>q. read_result (fst q)) ((es(key := qs)) k) = map (\<lambda>q. read_result (fst q)) (es k)" by (simp only: fun_upd_other [OF \<open>k \<noteq> key\<close>])
  qed
  then show ?thesis unfolding results_def list.map concat.simps fun_upd_same by (simp only:)
qed

lemma run_files:
  assumes "\<forall>x \<in> set S. at_file x \<and> small_sects (iv_fuel e) x \<and> good_file arr x" and "ki_iterators k = map iter_of S" and "ki_buf k = map buf_of S"
    and "quiet sz (ki_it k)" and sz: "0 < sz" "sz \<le> cap" and "\<And>key. length (key_blocks key S) < min (me_fuel ev) 21" and "card (keys_left S) < n"
  shows "\<exists>es. delivers n e k (results es (sorted_list_of_set (keys_left S))) \<and> merged_keys arr sz S es"
  using assms(1-4,7,8)
proof (induction "card (keys_left S)" arbitrary: S k n rule: less_induct)
  case less
  note S = less.prems(1) and k = less.prems(2,3) and q = less.prems(4) and fuel = less.prems(5) and n = less.prems(6)
  obtain m where m: "n = Suc m" using n by (cases n) auto
  show ?case
  proof (cases "keys_left S = {}")
    case True
    obtain S' where S': "load_files (iv_fuel e) (ki_it k) (map iter_of S) (map buf_of S) = Inr (ki_it k, map iter_of S', map buf_of S')"
      "\<forall>x \<in> set S'. filled x" "map (\<lambda>x. (fst x, left x)) S' = map (\<lambda>x. (fst x, left x)) S"
      using load_files_filled [of S "iv_fuel e" "ki_it k"] S by blast
    have "map buf_of S' = replicate (length S') []" using keys_left_empty [OF S'(2)] left_cong(1) [OF S'(3)] True by simp
    then have "it_blocks (fst (take_key (ki_it k) (map buf_of S'))) = []"
      using q by (simp add: take_key_def quiet_def has_key_def split_beta)
    then have "\<exists>k'. ki_Next n e k = Inr (False, k')"
      using quiet_next [OF q] k S'(1) m by (simp add: split_beta)
    then show ?thesis using True by (auto simp: results_def merged_keys_def intro: delivers.at_end)
  next
    case False
    obtain key S1 it4 qs T ps where nx: "key \<in> keys_left S" "\<forall>k' \<in> keys_left S. key \<le> k'" "keys_left S1 = keys_left S - {key}"
      "\<forall>k'. k' \<noteq> key \<longrightarrow> key_blocks k' S1 = key_blocks k' S" "\<forall>x \<in> set S1. at_file x \<and> small_sects (iv_fuel e) x \<and> good_file arr x"
      "key_state key sz (concat (map live (key_pairs arr key S))) (key_pairs arr key S) [] qs T ps it4" "drained qs ps it4"
      "\<forall>n. ki_Next (Suc n) e k =
      (if qs = [] then ki_Next n e \<lparr>ki_it = it4, ki_iterators = map iter_of S1, ki_buf = map buf_of S1\<rparr>
       else Inr (True, \<lparr>ki_it = it4, ki_iterators = map iter_of S1, ki_buf = map buf_of S1\<rparr>))"
      using load_next_key [OF S k q sz fuel False] by - (elim exE conjE, rule that)
    let ?k = "\<lambda>it. \<lparr>ki_it = it, ki_iterators = map iter_of S1, ki_buf = map buf_of S1\<rparr>" and ?ks = "sorted_list_of_set (keys_left S1)"
    have fuel1: "length (key_blocks key' S1) < min (me_fuel ev) 21" for key'
      using nx(3,4) fuel [of key'] keys_left_facts(2) [of key S1] by (cases "key' = key") auto
    have card1: "card (keys_left S1) < card (keys_left S)" "card (keys_left S1) < m"
      using nx(1,3) keys_left_facts(1) [of S] card_Diff1_less [of "keys_left S" key] n m by auto
    have "Min (keys_left S) = key" using nx(1,2) by (intro Min_eqI [OF keys_left_facts(1)]) blast+
    then have ks: "sorted_list_of_set (keys_left S) = key # ?ks"
      unfolding nx(3) using sorted_list_of_set_nonempty [OF keys_left_facts(1) False] by (simp only:)
    have key1: "key \<notin> set ?ks" using nx(3) keys_left_facts(1) [of S1] by simp
    have upd: "merged_keys arr sz S (es(key := qs'))"
      if "merged_keys arr sz S1 es" "\<forall>q \<in> set qs'. emitted key sz (key_pairs arr key S) q"
        "concat (map contents qs') = Deduplicate (concat (map live (key_pairs arr key S)))" for es qs'
      using that nx(3,4) by (auto simp: merged_keys_def)
    show ?thesis
    proof (cases qs)
      case Nil
      then have st: "key_state key sz (concat (map live (key_pairs arr key S))) (key_pairs arr key S) [] [] T [] it4" "arr_Len (get it4) = 0"
        using nx(6,7) by (auto simp: drained_def)
      obtain es where es: "delivers m e (?k it4) (results es ?ks)" "merged_keys arr sz S1 es"
        using less.hyps [OF card1(1) nx(5), where k = "?k it4" and n = m] quiet_done [OF st] fuel1 card1(2) by auto
      have "delivers n e k (results es ?ks)" using delivers_later [OF es(1)] nx(8) Nil m by simp
      moreover have "merged_keys arr sz S (es(key := []))"
        by (rule upd [OF es(2)], simp, unfold list.map concat.simps, rule key_state_done [OF st, symmetric])
      ultimately show ?thesis using results_upd [OF key1, of es "[]"] by (intro exI [of _ "es(key := [])"]) (simp add: ks)
    next
      case (Cons q1 qs1)
      obtain rs it' T' where r: "\<forall>r. delivers n e (?k it') r \<longrightarrow> delivers n e (?k it4) (map (\<lambda>q. read_result (fst q)) rs @ r)"
        "\<forall>q \<in> set (q1 # rs). emitted key sz (key_pairs arr key S) q"
        "concat (map contents (q1 # rs)) = Deduplicate (concat (map live (key_pairs arr key S)))"
        "key_state key sz (concat (map live (key_pairs arr key S))) (key_pairs arr key S) (Deduplicate (concat (map live (key_pairs arr key S)))) [] T' [] it'"
        "arr_Len (get it') = 0"
        using run_key [OF nx(6) [unfolded Cons] sz, of n "?k it4"] m by auto
      obtain es where es: "delivers n e (?k it') (results es ?ks)" "merged_keys arr sz S1 es"
        using less.hyps [OF card1(1) nx(5), where k = "?k it'" and n = n] quiet_done [OF r(4,5)] fuel1 card1(2) m by auto
      have "ki_Next n e k = Inr (True, ?k it4)" using nx(8) Cons m by simp
      moreover have "ki_Read (?k it4) = read_result (fst q1)" using ki_Read_head [OF nx(6) [unfolded Cons], of "?k it4"] by simp
      ultimately have "delivers n e k (map (\<lambda>q. read_result (fst q)) (q1 # rs) @ results es ?ks)"
        using r(1) es(1) delivers.one_more [of n e k "?k it4"] by auto
      then show ?thesis using upd [OF es(2) r(2,3)] results_upd [OF key1, of es "q1 # rs"] by (intro exI [of _ "es(key := q1 # rs)"]) (simp add: ks)
    qed
  qed
qed

text \<open>A compaction of SST files that have only keys of the type.\<close>

lemma run_inputs:
  assumes F: "\<forall>F \<in> set fs. input_file F \<and> (\<forall>x \<in> set (snd (snd F)). GetBaseType (sect_type (snd x)) = bt)"
    and B: "\<forall>key. \<forall>b \<in> set (input_blocks key fs). holds key (b, arr b) \<and> (\<forall>v \<in> set (vals (arr b)). fits v) \<and> IsPtrBlock (bk_b b) = Inr False"
    and sz: "0 < sz" "sz \<le> cap" and fuel: "\<forall>key. length (input_blocks key fs) < iv_fuel e" and few: "\<forall>key. length (input_blocks key fs) \<le> 20" and ef: "iv_fuel e = me_fuel ev"
    and it: "\<And>fast me th fs. quiet sz (ki_it (NewSSTBatchKeyIterator sz fast me th fs))" and n: "card (input_keys fs) < n"
  shows "\<exists>es. delivers n e (NewSSTBatchKeyIterator sz fast me th (map (\<lambda>F. (fst F, fst (snd F))) fs)) (results es (sorted_list_of_set (input_keys fs))) \<and>
    (\<forall>key \<in> input_keys fs. (\<forall>q \<in> set (es key). emitted key sz (map (\<lambda>b. (b, arr b)) (input_blocks key fs)) q) \<and>
      concat (map contents (es key)) = Deduplicate (concat (map (\<lambda>b. live (b, arr b)) (input_blocks key fs))))"
proof -
  let ?k = "NewSSTBatchKeyIterator sz fast me th (map (\<lambda>F. (fst F, fst (snd F))) fs)" and ?S = "map opened_file fs"
  have ok: "at_file x \<and> small_sects (iv_fuel e) x \<and> good_file arr x" if "x \<in> set ?S" for x
  proof -
    obtain F where x: "x = opened_file F" "F \<in> set fs" using \<open>x \<in> set ?S\<close> unfolding set_map by (rule imageE)
    have "length (sect_entries (snd y)) \<le> iv_fuel e" if "y \<in> set (snd (snd F))" for y
      using input_block_from(2) [OF x(2) that] fuel by (simp add: order.strict_implies_order order.strict_trans1)
    then have "small_sects (iv_fuel e) x" unfolding small_sects_def x(1) left_opened set_map by blast
    moreover have "good_file arr x"
      using F x(2) B input_block_from(1) [OF x(2)] unfolding good_file_def x(1) left_opened fst_opened set_map by fastforce
    ultimately show ?thesis using F x opened_at by blast
  qed
  have "\<forall>key. length (input_blocks key fs) < min (me_fuel ev) 21" 
  proof (rule allI)
    fix key
    show "length (input_blocks key fs) < min (me_fuel ev) 21" using fuel [rule_format, of key] few [rule_format, of key] by (simp add: ef)
  qed
  then obtain es where "delivers n e ?k (results es (sorted_list_of_set (keys_left ?S)))" "merged_keys arr sz ?S es"
    using run_files [of ?S arr ?k sz n] ok opened_input [of sz fast me th fs] it [of fast me th] sz n
    unfolding opened_keys opened_blocks by blast
  then show ?thesis unfolding merged_keys_def opened_keys opened_blocks by (auto simp: comp_def)
qed

end

section \<open>Files of one type\<close>


interpretation unsigned_files: file_merge UnsignedValue "unsigned_env e" "time_near lo" max_size it_mergedUnsignedValues
  "\<lambda>v it. it\<lparr>it_mergedUnsignedValues := v\<rparr>" e
  "\<lambda>it. GetBaseType (it_typ it) = BlockUnsigned \<and> arr_Len (it_mergedFloatValues it) = 0 \<and> arr_Len (it_mergedIntegerValues it) = 0 \<and>
     arr_Len (it_mergedStringValues it) = 0 \<and> arr_Len (it_mergedBooleanValues it) = 0"
  BlockUnsigned "\<lambda>it. arr_Len (it_mergedFloatValues it) = 0 \<and> arr_Len (it_mergedIntegerValues it) = 0 \<and>
     arr_Len (it_mergedStringValues it) = 0 \<and> arr_Len (it_mergedBooleanValues it) = 0" for e lo
  by unfold_locales (auto simp: hasMergedValues_def)

interpretation boolean_files: file_merge BooleanValue "boolean_env e" "time_near lo" max_size it_mergedBooleanValues
  "\<lambda>v it. it\<lparr>it_mergedBooleanValues := v\<rparr>" e
  "\<lambda>it. GetBaseType (it_typ it) = BlockBoolean \<and> arr_Len (it_mergedFloatValues it) = 0 \<and> arr_Len (it_mergedIntegerValues it) = 0 \<and>
     arr_Len (it_mergedUnsignedValues it) = 0 \<and> arr_Len (it_mergedStringValues it) = 0"
  BlockBoolean "\<lambda>it. arr_Len (it_mergedFloatValues it) = 0 \<and> arr_Len (it_mergedIntegerValues it) = 0 \<and>
     arr_Len (it_mergedUnsignedValues it) = 0 \<and> arr_Len (it_mergedStringValues it) = 0" for e lo
  by unfold_locales (auto simp: hasMergedValues_def)











end
