(* ===== verification/Planner.thy ===== *)
theory Planner
  imports ArrayCursor SstIndex "HOL-Library.Sublist"
begin

text \<open>
  The planner of compactions (\<open>storage/compactor/planner.go\<close>, \<open>type_generation.go\<close>): the generations of the SST files and
  the three strategies that choose the files to compact together, with the set of the files that are in a plan.

  The file store is an argument, as the planner sees it through its interface at the time of the call. Instants of time are
  nanoseconds since the zero value of \<open>time.Time\<close>, and those that a call reads from the clock are arguments. The locks of the
  planner make the reading of \<open>forceFull\<close>, \<open>findGenerations\<close> and \<open>acquire\<close> atomic; a call is their composition.
\<close>

section \<open>Generations\<close>

record FileStat =
  fs_Path :: bytes
  fs_HasTombstone :: bool
  fs_Size :: u32

record FileStore =
  st_Stats :: "FileStat list"
  st_LastModified :: int
  st_BlockCount :: "bytes \<Rightarrow> int \<Rightarrow> int"
  st_ParseFileName :: "bytes \<Rightarrow> int \<times> int \<times> error option"

record sstGeneration =
  sg_id :: int
  sg_files :: "FileStat list"

type_synonym SstGenerations = "sstGeneration list"
type_synonym CompactionGroup = "bytes list"

definition maxSSTFileSize :: u32 where
  "maxSSTFileSize = 2048 * 1024 * 1024"

definition sg_size :: "sstGeneration \<Rightarrow> u64" where
  "sg_size t = fold (\<lambda>f n. n + ucast (fs_Size f)) (sg_files t) 0"

text \<open>
  \<open>level\<close> reads the first file. A generation is made with its first file, so that the branch without one, where the code
  would panic, is never taken (\<open>findGenerations_files\<close>).
\<close>

definition sg_level :: "FileStore \<Rightarrow> sstGeneration \<Rightarrow> int" where
  "sg_level fs t =
     (case sg_files t of
        [] \<Rightarrow> 0
      | f # _ \<Rightarrow> let (_, seq, _) = st_ParseFileName fs (fs_Path f) in if seq < 4 then seq else 4)"

definition sg_count :: "sstGeneration \<Rightarrow> nat" where
  "sg_count t = length (sg_files t)"

definition sg_hasTombstones :: "sstGeneration \<Rightarrow> bool" where
  "sg_hasTombstones t \<longleftrightarrow> list_ex fs_HasTombstone (sg_files t)"

definition gens_hasTombstones :: "SstGenerations \<Rightarrow> bool" where
  "gens_hasTombstones a \<longleftrightarrow> list_ex sg_hasTombstones a"

definition gens_level :: "FileStore \<Rightarrow> SstGenerations \<Rightarrow> int" where
  "gens_level fs a = fold (\<lambda>g level. let lev = sg_level fs g in if lev > level then lev else level) a 0"

text \<open>\<open>chunk\<close> is called with sizes of at least four; it would not end for the size zero.\<close>

function gens_chunk :: "nat \<Rightarrow> 'a list \<Rightarrow> 'a list list" where
  "gens_chunk n a =
     (if a = [] \<or> n = 0 then []
      else if length a \<ge> n then take n a # gens_chunk n (drop n a)
      else [a])"
  by pat_completeness auto
termination by (relation "measure (\<lambda>(n, a). length a)") auto

declare gens_chunk.simps [simp del]

section \<open>The planner\<close>

record DefaultPlanner =
  dp_compactFullWriteColdDuration :: int
  dp_lastPlanCheck :: int
  dp_lastFindGenerations :: int
  dp_lastGenerations :: SstGenerations
  dp_forceFull :: bool
  dp_filesInUse :: "bytes set"

definition NewDefaultPlanner :: "int \<Rightarrow> DefaultPlanner" where
  "NewDefaultPlanner writeColdDuration =
     \<lparr>dp_compactFullWriteColdDuration = writeColdDuration, dp_lastPlanCheck = 0, dp_lastFindGenerations = 0,
      dp_lastGenerations = [], dp_forceFull = False, dp_filesInUse = {}\<rparr>"

text \<open>
  \<open>findGenerations\<close>. The generations are collected in a map by number and then sorted; the numbers are distinct, so that
  the order in which the map is read does not matter.
\<close>

definition group_files :: "FileStore \<Rightarrow> FileStat list \<Rightarrow> SstGenerations" where
  "group_files fs stats =
     (let gen = (\<lambda>f. fst (st_ParseFileName fs (fs_Path f)))
      in map (\<lambda>i. \<lparr>sg_id = i, sg_files = filter (\<lambda>f. gen f = i) stats\<rparr>) (sort (remdups (map gen stats))))"

definition findGenerations :: "FileStore \<Rightarrow> bool \<Rightarrow> DefaultPlanner \<Rightarrow> SstGenerations \<times> DefaultPlanner" where
  "findGenerations fs skipInUse c =
     (if dp_lastFindGenerations c \<noteq> 0 \<and> st_LastModified fs = dp_lastFindGenerations c then (dp_lastGenerations c, c)
      else
        let gens = group_files fs (filter (\<lambda>f. \<not> (skipInUse \<and> fs_Path f \<in> dp_filesInUse c)) (st_Stats fs))
        in (gens, c\<lparr>dp_lastFindGenerations := st_LastModified fs, dp_lastGenerations := gens\<rparr>))"

definition acquire :: "CompactionGroup list \<Rightarrow> DefaultPlanner \<Rightarrow> bool \<times> DefaultPlanner" where
  "acquire groups c =
     (if list_ex (list_ex (\<lambda>f. f \<in> dp_filesInUse c)) groups then (False, c)
      else (True, c\<lparr>dp_filesInUse := dp_filesInUse c \<union> set (concat groups)\<rparr>))"

definition Release :: "CompactionGroup list \<Rightarrow> DefaultPlanner \<Rightarrow> DefaultPlanner" where
  "Release groups c = c\<lparr>dp_filesInUse := dp_filesInUse c - set (concat groups)\<rparr>"

definition ForceFull :: "DefaultPlanner \<Rightarrow> DefaultPlanner" where
  "ForceFull c = c\<lparr>dp_forceFull := True\<rparr>"

definition FullyCompacted :: "FileStore \<Rightarrow> DefaultPlanner \<Rightarrow> (bool \<times> string) \<times> DefaultPlanner" where
  "FullyCompacted fs c =
     (let (gens, c1) = findGenerations fs False c
      in (if length gens > 1 then (False, ''not fully compacted and not idle because of more than one generation'')
          else if gens_hasTombstones gens then (False, ''not fully compacted and not idle because of tombstones'')
          else (True, ''''), c1))"

section \<open>Level plans\<close>

text \<open>
  The grouping of adjacent generations by level. \<open>PlanLevel\<close> and \<open>PlanOptimize\<close> have the same loop, the second with a test by
  which it leaves out a generation; \<open>currentGen\<close> is the grp that is being collected.
\<close>

fun group_levels :: "FileStore \<Rightarrow> (sstGeneration \<Rightarrow> bool) \<Rightarrow> SstGenerations \<Rightarrow> SstGenerations list \<Rightarrow> SstGenerations \<Rightarrow> SstGenerations list" where
  "group_levels fs skip currentGen groups [] = (if length currentGen > 0 then groups @ [currentGen] else groups)"
| "group_levels fs skip currentGen groups (g # gs) =
     (if skip g then group_levels fs skip currentGen groups gs
      else if (case gs of [] \<Rightarrow> False | nxt # _ \<Rightarrow> sg_level fs g < sg_level fs nxt) then group_levels fs skip (currentGen @ [g]) groups gs
      else if length currentGen = 0 \<or> gens_level fs currentGen = sg_level fs g then group_levels fs skip (currentGen @ [g]) groups gs
      else group_levels fs skip [g] (groups @ [currentGen]) gs)"

definition gen_paths :: "SstGenerations \<Rightarrow> CompactionGroup" where
  "gen_paths gens = concat (map (\<lambda>g. map fs_Path (sg_files g)) gens)"

definition return_plan :: "CompactionGroup list \<Rightarrow> DefaultPlanner \<Rightarrow> (CompactionGroup list \<times> nat) \<times> DefaultPlanner" where
  "return_plan groups c =
     (let (ok, c1) = acquire groups c in if \<not> ok then (([], length groups), c1) else ((groups, length groups), c1))"

definition PlanLevel :: "FileStore \<Rightarrow> int \<Rightarrow> DefaultPlanner \<Rightarrow> (CompactionGroup list \<times> nat) \<times> DefaultPlanner" where
  "PlanLevel fs level c =
     (if dp_forceFull c then (([], 0), c)
      else
        let (generations, c1) = findGenerations fs True c
        in if length generations \<le> 1 \<and> \<not> gens_hasTombstones generations then (([], 0), c1)
           else
             let groups = group_levels fs (\<lambda>_. False) [] [] generations;
                 levelGroups = filter (\<lambda>cur. gens_level fs cur = level) groups;
                 minGenerations = (if level = 1 then 8 else 4);
                 chunks = concat (map (gens_chunk minGenerations) levelGroups);
                 cGroups = map gen_paths (filter (\<lambda>chunk. \<not> (length chunk < minGenerations \<and> \<not> gens_hasTombstones chunk)) chunks)
             in return_plan cGroups c1)"

text \<open>The test for a generation of full size that is left as it is.\<close>

definition full_first_block :: "FileStore \<Rightarrow> sstGeneration \<Rightarrow> bool" where
  "full_first_block fs g \<longleftrightarrow>
     (case sg_files g of [] \<Rightarrow> False | f # _ \<Rightarrow> st_BlockCount fs (fs_Path f) 1 = int DefaultMaxPointsPerBlock)"

definition optimize_skips :: "FileStore \<Rightarrow> sstGeneration \<Rightarrow> bool" where
  "optimize_skips fs cur \<longleftrightarrow> sg_count cur > 2 \<and> sg_size cur > ucast maxSSTFileSize \<and> full_first_block fs cur \<and> \<not> sg_hasTombstones cur"

definition PlanOptimize :: "FileStore \<Rightarrow> DefaultPlanner \<Rightarrow> (CompactionGroup list \<times> nat) \<times> DefaultPlanner" where
  "PlanOptimize fs c =
     (if dp_forceFull c then (([], 0), c)
      else
        let (generations, c1) = findGenerations fs True c
        in if length generations \<le> 1 \<and> \<not> gens_hasTombstones generations then (([], 0), c1)
           else
             let groups = group_levels fs (optimize_skips fs) [] [] generations;
                 levelGroups = filter (\<lambda>cur. gens_level fs cur = 4) groups;
                 cGroups = map gen_paths (filter (\<lambda>grp. \<not> (length grp < 4 \<and> \<not> gens_hasTombstones grp)) levelGroups)
             in return_plan cGroups c1)"

section \<open>Full plans\<close>

text \<open>The generations of a full compaction; \<open>n\<close> is the number of all generations.\<close>

fun full_generations :: "FileStore \<Rightarrow> nat \<Rightarrow> SstGenerations \<Rightarrow> SstGenerations" where
  "full_generations fs n [] = []"
| "full_generations fs n (grp # gs) =
     (let skip = (n > 2 \<and> sg_size grp > ucast maxSSTFileSize \<and> full_first_block fs grp \<and> \<not> sg_hasTombstones grp);
          skip' = (case gs of [] \<Rightarrow> skip | nxt # _ \<Rightarrow> if sg_level fs nxt \<le> 3 then False else skip)
      in if skip' then full_generations fs n gs else grp # full_generations fs n gs)"

text \<open>The end of the level 4 files, and the first of them that is compacted.\<close>

fun plan_end :: "FileStore \<Rightarrow> nat \<Rightarrow> nat \<Rightarrow> SstGenerations \<Rightarrow> nat" where
  "plan_end fs i e [] = e"
| "plan_end fs i e (g # gs) = (if sg_level fs g \<le> 3 then e else plan_end fs (i + 1) (i + 1) gs)"

fun plan_start :: "FileStore \<Rightarrow> sstGeneration option \<Rightarrow> nat \<Rightarrow> bool \<Rightarrow> nat \<Rightarrow> SstGenerations \<Rightarrow> nat" where
  "plan_start fs prev i hasTombstones start [] = start"
| "plan_start fs prev i hasTombstones start (g # gs) =
     (let hasTombstones' = (hasTombstones \<or> sg_hasTombstones g)
      in if hasTombstones' then plan_start fs (Some g) (i + 1) hasTombstones' start gs
         else
           let start' = (if sg_size g > ucast maxSSTFileSize \<and> full_first_block fs g then i + 1 else start)
           in case prev of
                None \<Rightarrow> plan_start fs (Some g) (i + 1) hasTombstones' start' gs
              | Some p \<Rightarrow> if sg_size g * 2 < sg_size p then i else plan_start fs (Some g) (i + 1) hasTombstones' start' gs)"

text \<open>
  The scan of the generations of one step: nothing if one of a lower level is among them, otherwise how far the start of the
  grp moves, which is by one for each generation of full size, wherever it is.
\<close>

fun scan_group :: "FileStore \<Rightarrow> nat \<Rightarrow> SstGenerations \<Rightarrow> nat option" where
  "scan_group fs moved [] = Some moved"
| "scan_group fs moved (gen # gs) =
     (if sg_level fs gen \<le> 3 then None
      else if sg_size gen \<ge> ucast maxSSTFileSize \<and> full_first_block fs gen \<and> \<not> sg_hasTombstones gen then scan_group fs (moved + 1) gs
      else scan_group fs moved gs)"

definition step_group :: "FileStore \<Rightarrow> SstGenerations \<Rightarrow> SstGenerations list" where
  "step_group fs gens =
     (case scan_group fs 0 gens of None \<Rightarrow> [] | Some moved \<Rightarrow> if length gens - moved > 0 then [drop moved gens] else [])"

definition time_Sub :: "int \<Rightarrow> int \<Rightarrow> int" where
  "time_Sub t u = max (- (2 ^ 63)) (min (2 ^ 63 - 1) (t - u))"

definition Plan :: "FileStore \<Rightarrow> int \<Rightarrow> int \<Rightarrow> int \<Rightarrow> DefaultPlanner \<Rightarrow> (CompactionGroup list \<times> nat) \<times> DefaultPlanner" where
  "Plan fs lastWrite now1 now2 c =
     (let (generations, c1) = findGenerations fs True c; forceFull = dp_forceFull c1
      in if forceFull \<or> dp_compactFullWriteColdDuration c1 > 0 \<and> time_Sub now1 lastWrite > dp_compactFullWriteColdDuration c1 \<and> length generations > 1
         then
           let c2 = (if forceFull then c1\<lparr>dp_forceFull := False\<rparr> else c1);
               chosen = full_generations fs (length generations) generations;
               sstFiles = sort (gen_paths chosen)
           in if length sstFiles \<le> 1 \<or> length chosen \<le> 1 then (([], 0), c2) else return_plan [sstFiles] c2
         else if dp_lastPlanCheck c1 > st_LastModified fs \<and> \<not> gens_hasTombstones generations then (([], 0), c1)
         else
           let c2 = c1\<lparr>dp_lastPlanCheck := now2\<rparr>
           in if length generations \<le> 1 \<and> \<not> gens_hasTombstones generations then (([], 0), c2)
              else
                let e = plan_end fs 0 0 generations;
                    start = plan_start fs None 0 False 0 (take e generations);
                    step = (if 4 > e then e else 4);
                    gens = drop start (take e generations);
                    groups = concat (map (step_group fs) (gens_chunk step gens))
                in if length groups = 0 then (([], 0), c2)
                   else
                     let compactable = filter (\<lambda>grp. \<not> (length grp < 4 \<and> \<not> gens_hasTombstones grp)) groups
                     in return_plan (map (\<lambda>grp. sort (gen_paths grp)) compactable) c2)"

section \<open>The groups of a plan\<close>

lemma concat_gens_chunk: "0 < n \<Longrightarrow> concat (gens_chunk n a) = a"
  by (induction n a rule: gens_chunk.induct) (subst gens_chunk.simps, auto)

lemma sublist_gens_chunk: "x \<in> set (gens_chunk n a) \<Longrightarrow> sublist x a"
proof (induction n a rule: gens_chunk.induct)
  case (1 n a)
  then have "a \<noteq> []" "n \<noteq> 0" by (subst (asm) gens_chunk.simps, auto split: if_splits)+
  then consider "x = take n a" | "length a \<ge> n" "x \<in> set (gens_chunk n (drop n a))" | "x = a"
    using "1.prems" by (subst (asm) gens_chunk.simps) (auto split: if_splits)
  then show ?case
  proof cases
    case 1
    then show ?thesis by simp
  next
    case 2
    then have "sublist x (drop n a)" using "1.IH" \<open>a \<noteq> []\<close> \<open>n \<noteq> 0\<close> by simp
    then show ?thesis using sublist_drop sublist_order.order_trans by blast
  qed simp
qed

lemma subseq_concat_filter: "subseq (concat (filter P xss)) (concat xss)"
  by (induction xss) (auto intro: list_emb_append_mono list_emb_append2)

lemma concat_group_levels:
  "concat (group_levels fs skip currentGen groups gens) = concat groups @ currentGen @ filter (\<lambda>g. \<not> skip g) gens"
  by (induction fs skip currentGen groups gens rule: group_levels.induct) auto

text \<open>Without a test every group is a run of adjacent generations.\<close>

lemma sublist_in_concat: "x \<in> set xss \<Longrightarrow> sublist x (concat xss)"
  by (auto simp: in_set_conv_decomp sublist_def) blast

lemma distinct_gen_paths_subseq: "subseq gens gens' \<Longrightarrow> distinct (gen_paths gens') \<Longrightarrow> distinct (gen_paths gens)"
proof (induction rule: list_emb.induct)
  case (list_emb_Cons xs ys y)
  then show ?case by (simp add: gen_paths_def)
next
  case (list_emb_Cons2 x y xs ys)
  have "set xs \<subseteq> set ys"
  proof
    fix z assume "z \<in> set xs"
    then show "z \<in> set ys" using list_emb_set [OF list_emb_Cons2.hyps(2), of z] by blast
  qed
  then have "set (gen_paths xs) \<subseteq> set (gen_paths ys)" by (auto simp: gen_paths_def)
  then show ?case using list_emb_Cons2 by (auto simp: gen_paths_def)
qed (simp add: gen_paths_def)

lemma concat_map_gen_paths: "concat (map gen_paths gss) = gen_paths (concat gss)"
  by (induction gss) (simp_all add: gen_paths_def)

section \<open>Generations found\<close>

definition good_gens :: "SstGenerations \<Rightarrow> bool" where
  "good_gens gens \<longleftrightarrow> distinct (gen_paths gens) \<and> sorted_wrt (<) (map sg_id gens) \<and> (\<forall>g \<in> set gens. sg_files g \<noteq> [])"

lemma distinct_concat_classes:
  assumes "distinct is" and "distinct (map p xs)"
  shows "distinct (concat (map (\<lambda>i. map p (filter (\<lambda>x. c x = i) xs)) is))"
  using assms(1)
proof (induction "is")
  case (Cons i js)
  have inj: "inj_on p (set xs)" using assms(2) by (simp add: distinct_map)
  have "p x \<noteq> p y" if "x \<in> set xs" "c x = i" "y \<in> set xs" "c y \<in> set js" for x y
    using that Cons.prems inj by (auto dest: inj_onD)
  then show ?case using Cons assms(2) by (force simp: distinct_map_filter)
qed simp

lemma good_group_files: "distinct (map fs_Path stats) \<Longrightarrow> good_gens (group_files fs stats)"
proof -
  assume d: "distinct (map fs_Path stats)"
  let ?gen = "\<lambda>f. fst (st_ParseFileName fs (fs_Path f))" and ?is = "sort (remdups (map (\<lambda>f. fst (st_ParseFileName fs (fs_Path f))) stats))"
  have "distinct (gen_paths (group_files fs stats))"
    using distinct_concat_classes [of ?is fs_Path stats ?gen] d by (simp add: gen_paths_def group_files_def Let_def comp_def)
  moreover have "sorted_wrt (<) (map sg_id (group_files fs stats))"
    by (simp add: group_files_def Let_def comp_def strict_sorted_iff)
  moreover have "\<forall>g \<in> set (group_files fs stats). sg_files g \<noteq> []"
    by (auto simp: group_files_def Let_def filter_empty_conv)
  ultimately show ?thesis by (simp add: good_gens_def)
qed

lemma findGenerations_files:
  assumes "distinct (map fs_Path (st_Stats fs))" and "good_gens (dp_lastGenerations c)" and "findGenerations fs skipInUse c = (gens, c')"
  shows "good_gens gens" and "good_gens (dp_lastGenerations c')" and "dp_filesInUse c' = dp_filesInUse c" and "dp_forceFull c' = dp_forceFull c"
  using assms good_group_files [of "filter (\<lambda>f. \<not> (skipInUse \<and> fs_Path f \<in> dp_filesInUse c)) (st_Stats fs)" fs]
  by (auto simp: findGenerations_def Let_def distinct_map_filter split: if_splits)

section \<open>Runs of the planner\<close>

datatype planner_call =
  CallPlanLevel int | CallPlanOptimize | CallPlan int int int | CallRelease nat | CallForceFull | CallFullyCompacted

text \<open>
  One call of the planner, with the groups that were planned and are not released: a plan adds its groups, and the caller
  releases a group when its compaction is over.
\<close>

fun planner_step :: "FileStore \<times> planner_call \<Rightarrow> DefaultPlanner \<times> CompactionGroup list \<Rightarrow> DefaultPlanner \<times> CompactionGroup list" where
  "planner_step (fs, CallPlanLevel level) (c, ps) = (let ((groups, _), c') = PlanLevel fs level c in (c', ps @ groups))"
| "planner_step (fs, CallPlanOptimize) (c, ps) = (let ((groups, _), c') = PlanOptimize fs c in (c', ps @ groups))"
| "planner_step (fs, CallPlan lastWrite now1 now2) (c, ps) = (let ((groups, _), c') = Plan fs lastWrite now1 now2 c in (c', ps @ groups))"
| "planner_step (fs, CallRelease i) (c, ps) =
     (if i < length ps then (Release [ps ! i] c, take i ps @ drop (Suc i) ps) else (c, ps))"
| "planner_step (fs, CallForceFull) (c, ps) = (ForceFull c, ps)"
| "planner_step (fs, CallFullyCompacted) (c, ps) = (snd (FullyCompacted fs c), ps)"

definition planner_inv :: "DefaultPlanner \<times> CompactionGroup list \<Rightarrow> bool" where
  "planner_inv s \<longleftrightarrow> distinct (concat (snd s)) \<and> dp_filesInUse (fst s) = set (concat (snd s)) \<and> good_gens (dp_lastGenerations (fst s))"

lemma return_plan_inv:
  assumes "planner_inv (c, ps)" and "distinct (concat groups)" and "return_plan groups c = ((gs, n), c')"
  shows "planner_inv (c', ps @ gs)"
  using assms by (fastforce simp: return_plan_def acquire_def planner_inv_def list_ex_iff split: if_splits)

lemma planner_inv_find:
  assumes "planner_inv (c, ps)" and "distinct (map fs_Path (st_Stats fs))" and "findGenerations fs skipInUse c = (gens, c')"
  shows "planner_inv (c', ps)" and "good_gens gens"
  using findGenerations_files [OF assms(2) _ assms(3)] assms(1) by (simp_all add: planner_inv_def)

lemma PlanLevel_groups_distinct:
  assumes "good_gens gens" and "0 < n"
  shows "distinct (concat (map gen_paths (filter P (concat (map (gens_chunk n) (filter Q (group_levels fs (\<lambda>_. False) [] [] gens)))))))"
proof -
  let ?groups = "group_levels fs (\<lambda>_. False) [] [] gens"
  have c: "concat (concat (map (gens_chunk n) xss)) = concat xss" for xss :: "SstGenerations list"
    by (induction xss) (simp_all add: concat_gens_chunk [OF assms(2)])
  have "subseq (concat (filter P (concat (map (gens_chunk n) (filter Q ?groups))))) (concat (filter Q ?groups))"
    using subseq_concat_filter [of P "concat (map (gens_chunk n) (filter Q ?groups))"] by (simp add: c)
  also have "subseq (concat (filter Q ?groups)) gens" using subseq_concat_filter [of Q ?groups] by (simp add: concat_group_levels)
  finally show ?thesis using assms(1) distinct_gen_paths_subseq unfolding concat_map_gen_paths good_gens_def by blast
qed

lemma PlanOptimize_groups_distinct:
  assumes "good_gens gens"
  shows "distinct (concat (map gen_paths (filter P (filter Q (group_levels fs skip [] [] gens)))))"
proof -
  have "subseq (concat (filter P (filter Q (group_levels fs skip [] [] gens)))) (concat (group_levels fs skip [] [] gens))"
    using subseq_concat_filter subseq_order.order_trans by blast
  also have "subseq \<dots> gens" by (simp add: concat_group_levels)
  finally show ?thesis using assms distinct_gen_paths_subseq unfolding concat_map_gen_paths good_gens_def by blast
qed

lemma subseq_full_generations: "subseq (full_generations fs n gens) gens"
  by (induction fs n gens rule: full_generations.induct) (auto simp: Let_def)

lemma subseq_step_groups: "subseq (concat (concat (map (step_group fs) xss))) (concat xss)"
proof (induction xss)
  case (Cons xs xss)
  have "subseq (concat (step_group fs xs)) xs" by (auto simp: step_group_def split: option.splits)
  then show ?case using Cons by (simp add: list_emb_append_mono)
qed simp

lemma distinct_sorted_groups: "distinct (concat (map gen_paths gss)) \<Longrightarrow> distinct (concat (map (\<lambda>g. sort (gen_paths g)) gss))"
  by (induction gss) auto

lemma PlanLevel_inv:
  assumes inv: "planner_inv (c, ps)" and fs: "distinct (map fs_Path (st_Stats fs))" and p: "PlanLevel fs level c = ((gs, n), c')"
  shows "planner_inv (c', ps @ gs)"
proof -
  obtain gens c1 where f: "findGenerations fs True c = (gens, c1)" by fastforce
  note i = planner_inv_find [OF inv fs f]
  consider "gs = []" "c' = c" | "gs = []" "c' = c1" | "dp_forceFull c = False" "\<not> (length gens \<le> 1 \<and> \<not> gens_hasTombstones gens)"
    using p f by (auto simp: PlanLevel_def split: if_splits)
  then show ?thesis
  proof cases
    case 3
    then have r: "return_plan (map gen_paths (filter (\<lambda>chunk. \<not> (length chunk < (if level = 1 then 8 else 4) \<and> \<not> gens_hasTombstones chunk))
        (concat (map (gens_chunk (if level = 1 then 8 else 4))
          (filter (\<lambda>cur. gens_level fs cur = level) (group_levels fs (\<lambda>_. False) [] [] gens)))))) c1 = ((gs, n), c')"
      using p unfolding PlanLevel_def f Let_def split_conv by (simp only: if_False if_True simp_thms)
    show ?thesis by (rule return_plan_inv [OF i(1) PlanLevel_groups_distinct [OF i(2)] r]) simp
  qed (use inv i in simp_all)
qed

lemma PlanOptimize_inv:
  assumes inv: "planner_inv (c, ps)" and fs: "distinct (map fs_Path (st_Stats fs))" and p: "PlanOptimize fs c = ((gs, n), c')"
  shows "planner_inv (c', ps @ gs)"
proof -
  obtain gens c1 where f: "findGenerations fs True c = (gens, c1)" by fastforce
  note i = planner_inv_find [OF inv fs f]
  show ?thesis
    using p f inv i(1) return_plan_inv [OF i(1) PlanOptimize_groups_distinct [OF i(2)]]
    by (auto simp: PlanOptimize_def Let_def simp del: filter_filter split: if_splits)
qed

lemma Plan_inv:
  assumes inv: "planner_inv (c, ps)" and fs: "distinct (map fs_Path (st_Stats fs))" and p: "Plan fs lastWrite now1 now2 c = ((gs, n), c')"
  shows "planner_inv (c', ps @ gs)"
proof -
  obtain gens c1 where f: "findGenerations fs True c = (gens, c1)" by fastforce
  note i = planner_inv_find [OF inv fs f]
  have same: "planner_inv (c1\<lparr>dp_forceFull := b\<rparr>, ps)" "planner_inv (c1\<lparr>dp_lastPlanCheck := t\<rparr>, ps)" for b t
    using i(1) by (simp_all add: planner_inv_def)
  have full: "distinct (concat [sort (gen_paths (full_generations fs m gens))])" for m
    using i(2) distinct_gen_paths_subseq [OF subseq_full_generations [of fs m gens]] by (simp add: good_gens_def)
  have part: "distinct (concat (map (\<lambda>g. sort (gen_paths g)) (filter P (concat (map (step_group fs) (gens_chunk k (drop a (take b gens))))))))" for P k a b
  proof -
    let ?xss = "gens_chunk k (drop a (take b gens))"
    have "subseq (concat (filter P (concat (map (step_group fs) ?xss)))) (concat ?xss)"
      using subseq_concat_filter subseq_step_groups subseq_order.order_trans by blast
    also have "subseq (concat ?xss) (drop a (take b gens))"
      by (cases "k = 0") (simp_all add: concat_gens_chunk gens_chunk.simps [of 0])
    also have "subseq \<dots> gens" using sublist_imp_subseq sublist_drop sublist_take sublist_order.order_trans by blast
    finally show ?thesis
      using i(2) distinct_gen_paths_subseq distinct_sorted_groups unfolding concat_map_gen_paths good_gens_def by blast
  qed
  show ?thesis
    using p i(1) unfolding Plan_def f
    by (auto simp only: Let_def split_conv case_prod_conv append_Nil2 Pair_inject split: if_splits
        intro: same i(1) return_plan_inv [OF same(1) full] return_plan_inv [OF i(1) full] return_plan_inv [OF same(2) part])
qed

lemma planner_step_inv:
  assumes inv: "planner_inv (c, ps)" and fs: "distinct (map fs_Path (st_Stats fs))"
  shows "planner_inv (planner_step (fs, call) (c, ps))"
proof (cases call)
  case (CallPlanLevel level)
  obtain gs n c' where p: "PlanLevel fs level c = ((gs, n), c')" by (metis surj_pair)
  then show ?thesis using CallPlanLevel PlanLevel_inv [OF inv fs p] by simp
next
  case CallPlanOptimize
  obtain gs n c' where p: "PlanOptimize fs c = ((gs, n), c')" by (metis surj_pair)
  then show ?thesis using CallPlanOptimize PlanOptimize_inv [OF inv fs p] by simp
next
  case (CallPlan lastWrite now1 now2)
  obtain gs n c' where p: "Plan fs lastWrite now1 now2 c = ((gs, n), c')" by (metis surj_pair)
  then show ?thesis using CallPlan Plan_inv [OF inv fs p] by simp
next
  case (CallRelease i)
  show ?thesis
  proof (cases "i < length ps")
    case True
    then have "concat ps = concat (take i ps) @ ps ! i @ concat (drop (Suc i) ps)" by (metis concat.simps(2) concat_append id_take_nth_drop)
    then show ?thesis using CallRelease True inv by (auto simp: planner_inv_def Release_def)
  qed (use CallRelease inv in simp)
next
  case CallForceFull
  then show ?thesis using inv by (simp add: planner_inv_def ForceFull_def)
next
  case CallFullyCompacted
  obtain gens c1 where f: "findGenerations fs False c = (gens, c1)" by fastforce
  then show ?thesis using CallFullyCompacted planner_inv_find(1) [OF inv fs f] by (simp add: FullyCompacted_def)
qed

lemma planner_run_inv:
  assumes "\<forall>x \<in> set calls. distinct (map fs_Path (st_Stats (fst x)))" and "planner_inv s"
  shows "planner_inv (fold planner_step calls s)"
  using assms
proof (induction calls arbitrary: s)
  case (Cons x calls)
  then show ?case using planner_step_inv [of "fst s" "snd s" "fst x" "snd x"] by simp
qed simp

lemma planner_inv_new: "planner_inv (NewDefaultPlanner d, [])"
  by (simp add: planner_inv_def NewDefaultPlanner_def good_gens_def gen_paths_def)

text \<open>
  C39: No file is in two plans at a time: after any sequence of calls, whatever the file store holds at each of them, the groups
  that were planned and not released have no file in common and none twice, and the planner has exactly their files in use.
\<close>

theorem plans_disjoint:
  assumes "\<forall>x \<in> set calls. distinct (map fs_Path (st_Stats (fst x)))"
    and "fold planner_step calls (NewDefaultPlanner d, []) = (c, ps)"
  shows "distinct (concat ps) \<and> dp_filesInUse c = set (concat ps)"
  using planner_run_inv [OF assms(1) planner_inv_new, of d] unfolding assms(2) planner_inv_def by simp

definition numbered_stat :: "nat \<Rightarrow> nat \<Rightarrow> u32 \<Rightarrow> FileStat" where
  "numbered_stat gen seq sz = \<lparr>fs_Path = [of_nat gen, of_nat seq], fs_HasTombstone = False, fs_Size = sz\<rparr>"

text \<open>A file store whose file names are the two bytes of generation and sequence, and whose files start with a full block.\<close>

definition numbered_store :: "FileStat list \<Rightarrow> FileStore" where
  "numbered_store stats =
     \<lparr>st_Stats = stats, st_LastModified = 1, st_BlockCount = (\<lambda>p i. 2000),
      st_ParseFileName = (\<lambda>p. case p of [g, q] \<Rightarrow> (uint g, uint q, None) | _ \<Rightarrow> (0, 0, Some ErrFileNotFound))\<rparr>"

theorem plans_disjoint_witness:
  "let fs = numbered_store (map (\<lambda>g. numbered_stat g 1 100) [1..<17]);
       s = fold planner_step [(fs, CallPlanLevel 1), (fs, CallPlanLevel 1), (fs, CallRelease 0)] (NewDefaultPlanner 0, [])
   in snd s = [map (\<lambda>g. [of_nat g, 1]) [9..<17]] \<and> distinct (concat (snd s)) \<and> dp_filesInUse (fst s) = set (concat (snd s))"
proof -
  let ?fs = "numbered_store (map (\<lambda>g. numbered_stat g 1 100) [1..<17])"
  let ?s = "fold planner_step [(?fs, CallPlanLevel 1), (?fs, CallPlanLevel 1), (?fs, CallRelease 0)] (NewDefaultPlanner 0, [])"
  have "snd ?s = [map (\<lambda>g. [of_nat g, 1]) [9..<17]]" by code_simp
  moreover have 1: "\<forall>x \<in> set [(?fs, CallPlanLevel 1), (?fs, CallPlanLevel 1), (?fs, CallRelease 0)]. distinct (map fs_Path (st_Stats (fst x)))"
    by code_simp
  moreover have "distinct (concat (snd ?s)) \<and> dp_filesInUse (fst ?s) = set (concat (snd ?s))"
    by (rule plans_disjoint [OF 1 prod.collapse [symmetric]])
  ultimately show ?thesis unfolding Let_def by blast
qed

lemma gens_level_ge:
  assumes "g \<in> set gens"
  shows "sg_level fs g \<le> gens_level fs gens"
proof -
  have "gens_level fs gens = fold max (map (sg_level fs) gens) 0"
    unfolding gens_level_def fold_map by (intro fold_cong refl ext) (simp add: max_def Let_def)
  also have "\<dots> = Max (set (0 # map (sg_level fs) gens))" unfolding Max.set_eq_fold ..
  finally show ?thesis using assms by simp
qed

text \<open>A run of the generations that were found leaves out no file of the store between them that is free.\<close>

lemma group_files_gap:
  assumes "sublist run (group_files fs stats)" and "f \<in> set stats" and "g \<in> set run" and "h \<in> set run"
    and "sg_id g \<le> fst (st_ParseFileName fs (fs_Path f))" and "fst (st_ParseFileName fs (fs_Path f)) \<le> sg_id h"
  shows "fs_Path f \<in> set (gen_paths run)"
proof -
  let ?gen = "\<lambda>f. fst (st_ParseFileName fs (fs_Path f))" and ?gens = "group_files fs stats"
  define gg where "gg = \<lparr>sg_id = ?gen f, sg_files = filter (\<lambda>x. ?gen x = ?gen f) stats\<rparr>"
  have mem: "gg \<in> set ?gens" using assms(2) unfolding gg_def group_files_def Let_def set_map by (intro image_eqI [where x = "?gen f"]) simp_all
  have "map sg_id ?gens = sort (remdups (map ?gen stats))" by (simp add: group_files_def Let_def comp_def)
  then have srt: "sorted_wrt (<) (map sg_id ?gens)" by (simp add: strict_sorted_iff)
  obtain A B where AB: "?gens = A @ run @ B" using assms(1) by (auto simp: sublist_def)
  have "gg \<in> set run"
  proof (rule ccontr)
    assume "gg \<notin> set run"
    then have "gg \<in> set A \<or> gg \<in> set B" using mem AB by auto
    then have "sg_id gg < sg_id g \<or> sg_id h < sg_id gg" using srt assms(3,4) unfolding AB sorted_wrt_map sorted_wrt_append by auto
    moreover have "sg_id gg = ?gen f" by (simp add: gg_def)
    ultimately show False using assms(5,6) by simp
  qed
  then show ?thesis using assms(2) by (auto simp: gen_paths_def gg_def intro!: bexI [of _ gg])
qed

text \<open>
  C40: A level plan takes runs of generations: each of its groups holds all the files of a run of the generations that were found, in ascending
  order of their numbers. None of them is above the level, and the run has as many generations as the level asks for unless there are
  deletions to apply. When the call reads the file store, and does not return the generations of an earlier call, a file
  of the store whose number lies between those of the run is in the group, or it is in use by another plan at that time: the plan
  may span generations that are being compacted, and no others.
\<close>

theorem PlanLevel_adjacent:
  assumes "\<forall>x \<in> set calls. distinct (map fs_Path (st_Stats (fst x)))"
    and "fold planner_step calls (NewDefaultPlanner d, []) = (c, ps)" and "distinct (map fs_Path (st_Stats fs))"
    and "PlanLevel fs level c = ((groups, n), c')" and "findGenerations fs True c = (gens, c1)"
  shows "sorted_wrt (<) (map sg_id gens) \<and> (\<forall>grp \<in> set groups. \<exists>run. grp = gen_paths run \<and> sublist run gens \<and>
    (\<forall>g \<in> set run. sg_files g \<noteq> [] \<and> sg_level fs g \<le> level) \<and> ((if level = 1 then 8 else 4) \<le> length run \<or> gens_hasTombstones run) \<and>
    (dp_lastFindGenerations c = 0 \<or> st_LastModified fs \<noteq> dp_lastFindGenerations c \<longrightarrow>
       (\<forall>f \<in> set (st_Stats fs). \<forall>g \<in> set run. \<forall>h \<in> set run.
          sg_id g \<le> fst (st_ParseFileName fs (fs_Path f)) \<and> fst (st_ParseFileName fs (fs_Path f)) \<le> sg_id h \<longrightarrow>
          fs_Path f \<in> set grp \<or> fs_Path f \<in> dp_filesInUse c)))"
proof -
  have inv: "planner_inv (c, ps)" using planner_run_inv [OF assms(1) planner_inv_new, of d] unfolding assms(2) .
  have good: "good_gens gens" by (rule planner_inv_find(2) [OF inv assms(3,5)])
  have fresh: "gens = group_files fs (filter (\<lambda>f. fs_Path f \<notin> dp_filesInUse c) (st_Stats fs))"
    if "dp_lastFindGenerations c = 0 \<or> st_LastModified fs \<noteq> dp_lastFindGenerations c"
    using that assms(5) by (auto simp: findGenerations_def Let_def split: if_splits)
  let ?n = "if level = 1 then 8 else (4 :: nat)"
  let ?groups = "group_levels fs (\<lambda>_. False) [] [] gens"
  let ?lg = "filter (\<lambda>cur. gens_level fs cur = level) ?groups"
  let ?P = "\<lambda>chunk. \<not> (length chunk < ?n \<and> \<not> gens_hasTombstones chunk)"
  have g: "groups = [] \<or> groups = map gen_paths (filter ?P (concat (map (gens_chunk ?n) ?lg)))"
    using assms(4) unfolding PlanLevel_def assms(5) Let_def split_conv return_plan_def acquire_def by (auto split: if_splits)
  have "\<exists>run. grp = gen_paths run \<and> sublist run gens \<and> (\<forall>g \<in> set run. sg_files g \<noteq> [] \<and> sg_level fs g \<le> level) \<and>
      (?n \<le> length run \<or> gens_hasTombstones run)" if "grp \<in> set groups" for grp
  proof -
    have "grp \<in> set (map gen_paths (filter ?P (concat (map (gens_chunk ?n) ?lg))))" using g that by auto
    then obtain run where run: "grp = gen_paths run" "run \<in> set (concat (map (gens_chunk ?n) ?lg))" "?P run"
      unfolding set_map set_filter by blast
    then obtain cur where cur: "cur \<in> set ?groups" "gens_level fs cur = level" "run \<in> set (gens_chunk ?n cur)"
      unfolding set_concat set_map set_filter by blast
    have "sublist run cur" by (rule sublist_gens_chunk [OF cur(3)])
    moreover have "sublist cur gens" using sublist_in_concat [OF cur(1)] by (simp add: concat_group_levels)
    ultimately have sub: "sublist run gens" "set run \<subseteq> set cur" "set run \<subseteq> set gens"
      using sublist_order.order_trans set_mono_sublist by blast+
    have "sg_level fs g \<le> level" if "g \<in> set run" for g using gens_level_ge [of g cur fs] sub(2) that cur(2) by blast
    moreover have "sg_files g \<noteq> []" if "g \<in> set run" for g using good sub(3) that by (auto simp: good_gens_def)
    ultimately show ?thesis using run(1,3) sub(1) not_less by blast
  qed
  moreover have "fs_Path f \<in> set (gen_paths run) \<or> fs_Path f \<in> dp_filesInUse c"
    if "dp_lastFindGenerations c = 0 \<or> st_LastModified fs \<noteq> dp_lastFindGenerations c" "sublist run gens" "f \<in> set (st_Stats fs)" "g \<in> set run" "h \<in> set run"
      "sg_id g \<le> fst (st_ParseFileName fs (fs_Path f))" "fst (st_ParseFileName fs (fs_Path f)) \<le> sg_id h" for run f g h
    using group_files_gap [OF that(2) [unfolded fresh [OF that(1)]] _ that(4-7)] that(3) by auto
  ultimately show ?thesis using good unfolding good_gens_def by blast
qed

text \<open>
  Eight generations of the first level are planned while four between them are in use by a plan of the second level: everything
  between the first and the last file of the group is in the group or in use.
\<close>

definition span_stats :: "FileStat list" where
  "span_stats = map (\<lambda>g. numbered_stat g (if 4 \<le> g \<and> g \<le> 7 then 2 else 1) 100) [1..<13]"

definition span_store :: FileStore where
  "span_store = (numbered_store span_stats)\<lparr>st_LastModified := 9\<rparr>"

definition span_planner :: DefaultPlanner where
  "span_planner = snd (PlanLevel (numbered_store span_stats) 2 (NewDefaultPlanner 0))"

definition span_group :: CompactionGroup where
  "span_group = map (\<lambda>g. [of_nat g, 1]) ([1..<4] @ [8..<13])"

lemma span_plans:
  "fst (PlanLevel (numbered_store span_stats) 2 (NewDefaultPlanner 0)) = ([map (\<lambda>g. [of_nat g, 2]) [4..<8]], 1)"
  "fst (PlanLevel span_store 1 span_planner) = ([span_group], 1)" "dp_filesInUse span_planner = {[4, 2], [5, 2], [6, 2], [7, 2]}"
  by code_simp+

theorem PlanLevel_adjacent_witness:
  "fst (PlanLevel span_store 1 span_planner) = ([span_group], 1) \<and>
   (\<exists>run. span_group = gen_paths run \<and> sublist run (fst (findGenerations span_store True span_planner)) \<and>
     (\<forall>f \<in> set (st_Stats span_store). \<forall>g \<in> set run. \<forall>h \<in> set run.
        sg_id g \<le> fst (st_ParseFileName span_store (fs_Path f)) \<and> fst (st_ParseFileName span_store (fs_Path f)) \<le> sg_id h \<longrightarrow>
        fs_Path f \<in> set span_group \<or> fs_Path f \<in> {[4, 2], [5, 2], [6, 2], [7, 2]}))"
proof -
  let ?calls = "[(numbered_store span_stats, CallPlanLevel 2)]"
  have 1: "distinct (map fs_Path (st_Stats span_store))" "distinct (map fs_Path (st_Stats (numbered_store span_stats)))" by code_simp+
  have run: "\<exists>ps. fold planner_step ?calls (NewDefaultPlanner 0, []) = (span_planner, ps)"
    by (simp add: span_planner_def split_beta)
  have pl: "PlanLevel span_store 1 span_planner = (([span_group], 1), snd (PlanLevel span_store 1 span_planner))"
    unfolding span_plans(2) [symmetric] by (rule prod.collapse [symmetric])
  have lm: "st_LastModified span_store \<noteq> dp_lastFindGenerations span_planner" by code_simp
  obtain ps where ps: "fold planner_step ?calls (NewDefaultPlanner 0, []) = (span_planner, ps)" using run by blast
  have calls: "\<forall>x \<in> set ?calls. distinct (map fs_Path (st_Stats (fst x)))" using 1(2) by simp
  show ?thesis
    using PlanLevel_adjacent [OF calls ps 1(1) pl prod.collapse [symmetric]] span_plans lm by auto
qed

text \<open>
  The plan to optimize leaves gaps of another kind, with files that nobody uses. Of five generations of level 4 the second is large and starts with a full block; it is
  left out and the plan has one group of the first and the last three. The compacted file is then named after the last, so
  that values of the first generation come to be newer than those of the second.
\<close>

definition gap_stats :: "FileStat list" where
  "gap_stats = [numbered_stat 1 5 100, numbered_stat 2 5 (2 ^ 30), numbered_stat 2 6 (2 ^ 30), numbered_stat 2 7 (2 ^ 30),
     numbered_stat 3 5 100, numbered_stat 4 5 100, numbered_stat 5 5 100]"

lemma PlanOptimize_leaves_gap:
  "fst (PlanOptimize (numbered_store gap_stats) (NewDefaultPlanner 0)) = ([[[1, 5], [3, 5], [4, 5], [5, 5]]], 1)"
  by code_simp

end
