(* ===== verification/Compactor.thy ===== *)
theory Compactor
  imports SstFile Planner
begin

text \<open>
  The compactor (\<open>storage/compactor/compactor.go\<close>): the loops that write what a key iterator delivers into new SST files,
  the choice of their names, and the state that keeps two compactions from using a file at the same time.

  An iterator is given by its methods \<open>Next\<close>, \<open>Read\<close> and \<open>Err\<close>, as the interface \<open>KeyIterator\<close> has them. The directory is a map
  from the paths of the files to their contents; opening, writing and removing do not fail except that a new file must
  not exist. The loops over an iterator have fuel.
\<close>

section \<open>State of the compactor\<close>

text \<open>A channel is \<open>None\<close> where the code has nil, and the boolean says whether it is closed.\<close>

record Compactor =
  co_Size :: int
  co_snapshotsEnabled :: bool
  co_compactionsEnabled :: bool
  co_snapshotsInterrupt :: "bool option"
  co_compactionsInterrupt :: "bool option"
  co_files :: "bytes set"

definition compactor_Open :: "Compactor \<Rightarrow> Compactor" where
  "compactor_Open c =
     (if co_snapshotsEnabled c \<or> co_compactionsEnabled c then c
      else c\<lparr>co_snapshotsEnabled := True, co_compactionsEnabled := True, co_snapshotsInterrupt := Some False,
             co_compactionsInterrupt := Some False, co_files := {}\<rparr>)"

text \<open>Closing a channel twice is a panic.\<close>

definition close_chan :: "bool option \<Rightarrow> bool option result" where
  "close_chan ch = (case ch of None \<Rightarrow> Inr None | Some closed \<Rightarrow> if closed then Inl Panic else Inr (Some True))"

definition compactor_Close :: "Compactor \<Rightarrow> Compactor result" where
  "compactor_Close c =
     (if \<not> (co_snapshotsEnabled c \<or> co_compactionsEnabled c) then Inr c
      else bind_result (close_chan (co_compactionsInterrupt c)) (\<lambda>ci.
           bind_result (close_chan (co_snapshotsInterrupt c)) (\<lambda>si.
             Inr (c\<lparr>co_snapshotsEnabled := False, co_compactionsEnabled := False, co_compactionsInterrupt := ci, co_snapshotsInterrupt := si\<rparr>))))"

definition DisableSnapshots :: "Compactor \<Rightarrow> Compactor result" where
  "DisableSnapshots c =
     bind_result (close_chan (co_snapshotsInterrupt c)) (\<lambda>_. Inr (c\<lparr>co_snapshotsEnabled := False, co_snapshotsInterrupt := None\<rparr>))"

definition EnableSnapshots :: "Compactor \<Rightarrow> Compactor" where
  "EnableSnapshots c =
     c\<lparr>co_snapshotsEnabled := True,
       co_snapshotsInterrupt := (case co_snapshotsInterrupt c of None \<Rightarrow> Some False | Some b \<Rightarrow> Some b)\<rparr>"

definition DisableCompactions :: "Compactor \<Rightarrow> Compactor result" where
  "DisableCompactions c =
     bind_result (close_chan (co_compactionsInterrupt c)) (\<lambda>_. Inr (c\<lparr>co_compactionsEnabled := False, co_compactionsInterrupt := None\<rparr>))"

definition EnableCompactions :: "Compactor \<Rightarrow> Compactor" where
  "EnableCompactions c =
     c\<lparr>co_compactionsEnabled := True,
       co_compactionsInterrupt := (case co_compactionsInterrupt c of None \<Rightarrow> Some False | Some b \<Rightarrow> Some b)\<rparr>"

definition compactor_add :: "bytes list \<Rightarrow> Compactor \<Rightarrow> bool \<times> Compactor" where
  "compactor_add files c =
     (if list_ex (\<lambda>f. f \<in> co_files c) files then (False, c) else (True, c\<lparr>co_files := co_files c \<union> set files\<rparr>))"

definition compactor_remove :: "bytes list \<Rightarrow> Compactor \<Rightarrow> Compactor" where
  "compactor_remove files c = c\<lparr>co_files := co_files c - set files\<rparr>"

section \<open>Writing a file\<close>

text \<open>
  The loop of \<open>write\<close>. \<open>enabled\<close> is whether snapshots or compactions are enabled when the iterator has come to a state.
\<close>

fun write_loop ::
  "sorter \<Rightarrow> (bytes \<Rightarrow> u32) \<Rightarrow> ('s \<Rightarrow> (bool \<times> 's) result) \<Rightarrow> ('s \<Rightarrow> ((bytes \<times> u64 \<times> u64 \<times> bytes) \<times> error option) result) \<Rightarrow>
   ('s \<Rightarrow> error option) \<Rightarrow> ('s \<Rightarrow> bool) \<Rightarrow> nat \<Rightarrow> 's \<Rightarrow> sstWriter \<Rightarrow> (error option \<times> 's \<times> sstWriter) result" where
  "write_loop srt crc nx rd er enabled 0 s w = Inl Diverged"
| "write_loop srt crc nx rd er enabled (Suc n) s w =
     bind_result (nx s) (\<lambda>(more, s1).
       if more then
         if \<not> enabled s1 then Inr (Some ErrCompactionAborted, s1, w)
         else bind_result (rd s1) (\<lambda>((key, minTime, maxTime, block), err).
           case err of
             Some e \<Rightarrow> Inr (Some e, s1, w)
           | None \<Rightarrow>
               if sint minTime > sint maxTime then Inr (Some ErrInvalidIndexEntry, s1, w)
               else bind_result (sw_WriteBlock srt crc key minTime maxTime block w) (\<lambda>(err, w1).
                 case err of
                   Some e \<Rightarrow>
                     if e = ErrMaxBlocks
                     then let (err', w2) = sw_WriteIndex srt w1 in Inr (case err' of Some e' \<Rightarrow> Some e' | None \<Rightarrow> Some e, s1, w2)
                     else Inr (Some e, s1, w1)
                 | None \<Rightarrow>
                     if sw_Size w1 > maxSSTFileSize
                     then let (err', w2) = sw_WriteIndex srt w1 in Inr (case err' of Some e' \<Rightarrow> Some e' | None \<Rightarrow> Some ErrMaxFileExceeded, s1, w2)
                     else write_loop srt crc nx rd er enabled n s1 w1))
       else
         case er s1 of
           Some e \<Rightarrow> Inr (Some e, s1, w)
         | None \<Rightarrow> let (err, w1) = sw_WriteIndex srt w in Inr (err, s1, w1))"

type_synonym dir = "bytes \<rightharpoonup> bytes"

definition keeps_file :: "error option \<Rightarrow> bool" where
  "keeps_file err \<longleftrightarrow> err \<in> {None, Some ErrCompactionInProgress, Some ErrMaxBlocks, Some ErrMaxFileExceeded}"

definition compactor_write ::
  "sorter \<Rightarrow> (bytes \<Rightarrow> u32) \<Rightarrow> ('s \<Rightarrow> (bool \<times> 's) result) \<Rightarrow> ('s \<Rightarrow> ((bytes \<times> u64 \<times> u64 \<times> bytes) \<times> error option) result) \<Rightarrow>
   ('s \<Rightarrow> error option) \<Rightarrow> ('s \<Rightarrow> bool) \<Rightarrow> nat \<Rightarrow> bytes \<Rightarrow> 's \<Rightarrow> dir \<Rightarrow> (error option \<times> 's \<times> dir) result" where
  "compactor_write srt crc nx rd er enabled n path s d =
     (if d path \<noteq> None then Inr (Some ErrCompactionInProgress, s, d)
      else bind_result (write_loop srt crc nx rd er enabled n s NewSSTWriter) (\<lambda>(err, s1, w).
        Inr (err, s1, if keeps_file err then d(path \<mapsto> sw_w w) else d)))"

text \<open>\<open>name gen seq\<close> is the path of the temporary file with the numbers.\<close>

fun writeNewFiles ::
  "sorter \<Rightarrow> (bytes \<Rightarrow> u32) \<Rightarrow> ('s \<Rightarrow> (bool \<times> 's) result) \<Rightarrow> ('s \<Rightarrow> ((bytes \<times> u64 \<times> u64 \<times> bytes) \<times> error option) result) \<Rightarrow>
   ('s \<Rightarrow> error option) \<Rightarrow> ('s \<Rightarrow> bool) \<Rightarrow> (int \<Rightarrow> int \<Rightarrow> bytes) \<Rightarrow> nat \<Rightarrow> int \<Rightarrow> int \<Rightarrow> bytes list \<Rightarrow> 's \<Rightarrow> dir \<Rightarrow>
   (bytes list \<times> error option \<times> 's \<times> dir) result" where
  "writeNewFiles srt crc nx rd er enabled name 0 generation sequence files s d = Inl Diverged"
| "writeNewFiles srt crc nx rd er enabled name (Suc n) generation sequence files s d =
     (let fileName = name generation (sequence + 1)
      in bind_result (compactor_write srt crc nx rd er enabled (Suc n) fileName s d) (\<lambda>(err, s1, d1).
        case err of
          None \<Rightarrow> Inr (files @ [fileName], None, s1, d1)
        | Some e \<Rightarrow>
            if e = ErrMaxFileExceeded \<or> e = ErrMaxBlocks
            then writeNewFiles srt crc nx rd er enabled name n generation (sequence + 1) (files @ [fileName]) s1 d1
            else if e = ErrNoValues then Inr (files, None, s1, d1(fileName := None))
            else if e = ErrCompactionInProgress then Inr ([], Some e, s1, d1)
            else Inr ([], Some e, s1, d1 |` (- set (fileName # files)))))"

section \<open>Compactions\<close>

text \<open>The generation and the sequence of the first new file are found from the names of the old files.\<close>

fun max_generation :: "(bytes \<Rightarrow> int \<times> int \<times> error option) \<Rightarrow> bytes list \<Rightarrow> int \<Rightarrow> int \<Rightarrow> (int \<times> int) result" where
  "max_generation parse [] maxGeneration maxSequence = Inr (maxGeneration, maxSequence)"
| "max_generation parse (f # fs) maxGeneration maxSequence =
     (let (gen, seq, err) = parse f
      in case err of
           Some e \<Rightarrow> Inl e
         | None \<Rightarrow>
             let (mg, ms) = (if gen > maxGeneration then (gen, seq) else (maxGeneration, maxSequence));
                 ms' = (if gen = mg \<and> seq > ms then seq else ms)
             in max_generation parse fs mg ms')"

section \<open>Snapshots\<close>

text \<open>The number of parts that a snapshot of \<open>n\<close> series is written in, and whether it is throttled; \<open>avg\<close> is the average time of the last ones.\<close>

definition snapshot_parts :: "int \<Rightarrow> int \<Rightarrow> int \<times> bool" where
  "snapshot_parts n avg =
     (let throttle = (n < 3000000 \<and> avg < 15 * 1000000000);
          concurrency = n div 2000000;
          concurrency' = (if concurrency < 1 then 1 else concurrency)
      in if n \<ge> 3000000 then (4, False) else (concurrency', throttle))"

record latencies =
  la_i :: nat
  la_values :: "int list"

definition latencies_add :: "int \<Rightarrow> latencies \<Rightarrow> latencies" where
  "latencies_add t l = \<lparr>la_i = la_i l + 1, la_values = (la_values l)[la_i l mod length (la_values l) := t]\<rparr>"

definition latencies_avg :: "latencies \<Rightarrow> int" where
  "latencies_avg l =
     (let vs = filter (\<lambda>v. v \<noteq> 0) (la_values l)
      in if vs \<noteq> [] then (sum_list vs) div int (length vs) else 0)"

section \<open>The size of a file\<close>

lemma unat_add_le: "unat (a + b) \<le> unat a + unat b" for a b :: "'a :: len word"
  by (simp add: unat_word_ariths)

lemma unat_of_nat_le: "unat (of_nat n :: 'a :: len word) \<le> n"
  by (simp add: unat_of_nat)

lemma di_flush_size [simp]: "di_size (snd (di_flush srt d)) = di_size d"
  by (simp add: di_flush_def Let_def)

lemma di_Add_size:
  assumes "di_Add srt key t e d = Inr d'"
  shows "unat (di_size d') \<le> unat (di_size d) + (33 + length key)"
proof -
  have new: "unat (x + of_nat (2 + length key) + of_nat indexCountSize + of_nat indexEntrySize) \<le> unat x + (33 + length key)" for x :: u32
  proof -
    have "unat (x + of_nat (2 + length key) + of_nat indexCountSize + of_nat indexEntrySize) \<le>
        unat x + (2 + length key) + indexCountSize + indexEntrySize"
      by (meson add_mono order.trans order.refl unat_add_le unat_of_nat_le)
    then show ?thesis by (simp add: sst_sizes)
  qed
  have more: "unat (x + of_nat indexEntrySize) \<le> unat x + (33 + length key)" for x :: u32
  proof -
    have "unat (x + of_nat indexEntrySize) \<le> unat x + indexEntrySize" by (meson add_mono order.trans order.refl unat_add_le unat_of_nat_le)
    then show ?thesis by (simp add: sst_sizes)
  qed
  show ?thesis using assms new [of "di_size d"] more [of "di_size d"] by (auto simp: di_Add_def Let_def split: if_splits)
qed

lemma WriteBlock_size:
  assumes "sw_WriteBlock srt crc key mn mx b t = Inr (err, t')"
  shows "unat (di_size (sw_index t')) \<le> unat (di_size (sw_index t)) + (33 + length key)"
  using assms di_Add_size
  by (auto simp: sw_WriteBlock_def Let_def bind_result_eq_Inr sw_writeHeader_def split: if_splits sum.splits)

lemma sw_Size_le:
  assumes "sw_n t = of_nat m"
  shows "unat (sw_Size t) \<le> m + unat (di_size (sw_index t))"
proof -
  have "unat (ucast (sw_n t) :: u32) \<le> unat (sw_n t)"
    by (simp add: unsigned_ucast_eq)
  also have "\<dots> \<le> m" using assms unat_of_nat_le by simp
  finally show ?thesis using unat_add_le [of "ucast (sw_n t) :: u32" "di_size (sw_index t)"] by (simp add: sw_Size_def)
qed

lemma wf_blocks_prefix: "wf_blocks (bs @ cs) \<Longrightarrow> wf_blocks bs"
  by (induction cs rule: rev_induct) (auto simp flip: append_assoc dest: wf_blocks_snocD)

section \<open>What an iterator delivers is written\<close>

text \<open>
  The contract of a \<open>KeyIterator\<close>: \<open>run s bs\<close> says that from the state \<open>s\<close> the calls of \<open>Next\<close> and \<open>Read\<close> give the blocks \<open>bs\<close>, and then
  the iteration ends without an error.
\<close>

locale key_iterator =
  fixes nx :: "'s \<Rightarrow> (bool \<times> 's) result" and rd :: "'s \<Rightarrow> ((bytes \<times> u64 \<times> u64 \<times> bytes) \<times> error option) result"
    and er :: "'s \<Rightarrow> error option" and run :: "'s \<Rightarrow> (bytes \<times> u64 \<times> u64 \<times> bytes) list \<Rightarrow> bool"
  assumes run_end: "run s [] \<Longrightarrow> \<exists>s'. nx s = Inr (False, s') \<and> er s' = None"
    and run_more: "run s (b # bs) \<Longrightarrow> \<exists>s'. nx s = Inr (True, s') \<and> rd s' = Inr (b, None) \<and> run s' bs"
begin

lemma write_run:
  assumes "run s bs" and "sw_rep srt crc cs w" and "wf_blocks (cs @ bs)" and "cs @ bs \<noteq> []" and srt: "sorts (\<lambda>e. sint (ix_MinTime e)) srt"
    and "\<forall>(k, mn, mx, b) \<in> set bs. sint mn \<le> sint mx" and en: "\<And>s. enabled s" and "length bs < n"
    and "5 + length (data_bytes crc (cs @ bs)) + index_size (cs @ bs) \<le> 2 ^ 31" and "unat (di_size (sw_index w)) \<le> index_size cs"
  shows "\<exists>s' w'. write_loop srt crc nx rd er enabled n s w = Inr (None, s', w') \<and> sw_w w' = file_bytes srt crc (cs @ bs)"
  using assms(1-4,6,8-)
proof (induction bs arbitrary: s cs w n)
  case Nil
  obtain m where m: "n = Suc m" using Nil.prems(6) by (cases n) auto
  obtain s' where s': "nx s = Inr (False, s')" "er s' = None" using run_end [OF Nil.prems(1)] by blast
  obtain w' where w': "sw_WriteIndex srt w = (None, w')" "sw_w w' = file_bytes srt crc cs"
    by (rule WriteIndex_rep [OF Nil.prems(2) _ _ srt]) (use Nil.prems(3,4) in simp_all)
  then show ?case using m s' by simp
next
  case (Cons x bs)
  obtain m where m: "n = Suc m" using Cons.prems(6) by (cases n) auto
  obtain k mn mx b where x: "x = (k, mn, mx, b)" by (cases x)
  obtain s' where s': "nx s = Inr (True, s')" "rd s' = Inr (x, None)" "run s' bs" using run_more [OF Cons.prems(1)] by blast
  let ?cs = "cs @ [(k, mn, mx, b)]"
  have app: "cs @ x # bs = ?cs @ bs" by (simp add: x)
  have wf: "wf_blocks ?cs" using Cons.prems(3) unfolding app by (rule wf_blocks_prefix)
  have small: "5 + length (data_bytes crc cs) < 2 ^ 64" using Cons.prems(7) by (simp add: data_bytes_def x)
  obtain w' where w': "sw_WriteBlock srt crc k mn mx b w = Inr (None, w')" "sw_rep srt crc ?cs w'"
    by (rule WriteBlock_rep [OF Cons.prems(2) wf srt small])
  have ds: "unat (di_size (sw_index w')) \<le> index_size ?cs"
    using WriteBlock_size [OF w'(1)] Cons.prems(8) by (simp add: index_size_def)
  have "sw_n w' = of_nat (5 + length (data_bytes crc ?cs))" using w'(2) by (simp add: sw_rep_def)
  then have "unat (sw_Size w') \<le> 5 + length (data_bytes crc ?cs) + index_size ?cs" using sw_Size_le ds by (meson add_left_mono order.trans)
  also have "\<dots> \<le> 2 ^ 31" using Cons.prems(7) by (simp add: x data_bytes_def index_size_def)
  finally have le: "\<not> sw_Size w' > maxSSTFileSize" by (simp add: word_less_nat_alt maxSSTFileSize_def)
  obtain s'' w'' where "write_loop srt crc nx rd er enabled m s' w' = Inr (None, s'', w'')" "sw_w w'' = file_bytes srt crc (?cs @ bs)"
    using Cons.IH [OF s'(3) w'(2), of m] Cons.prems(3,5-7) m ds unfolding app by auto
  moreover have "\<not> sint mn > sint mx" using Cons.prems(5) x by auto
  ultimately show ?case using m s' w'(1) le en [of s'] unfolding app by (simp add: x)
qed

text \<open>What \<open>write\<close> leaves in the directory, and that \<open>writeNewFiles\<close> writes one file.\<close>

lemma writeNewFiles_run:
  assumes "run s bs" and "wf_blocks bs" and "bs \<noteq> []" and "sorts (\<lambda>e. sint (ix_MinTime e)) srt"
    and "\<forall>(k, mn, mx, b) \<in> set bs. sint mn \<le> sint mx" and "\<And>s. enabled s" and "length bs < n"
    and "5 + length (data_bytes crc bs) + index_size bs \<le> 2 ^ 31" and "d (name gen (seq + 1)) = None"
  shows "\<exists>s'. writeNewFiles srt crc nx rd er enabled name n gen seq files s d =
    Inr (files @ [name gen (seq + 1)], None, s', d(name gen (seq + 1) \<mapsto> file_bytes srt crc bs))"
proof -
  have "sw_rep srt crc [] NewSSTWriter" by (simp add: sw_rep_def di_rep_def NewSSTWriter_def NewIndexWriter_def)
  then obtain s' w where w: "write_loop srt crc nx rd er enabled n s NewSSTWriter = Inr (None, s', w)" "sw_w w = file_bytes srt crc bs"
    using write_run [where cs = "[]" and w = NewSSTWriter and s = s and bs = bs and n = n and srt = srt and crc = crc and enabled = enabled] assms
    by (auto simp: NewSSTWriter_def NewIndexWriter_def)
  moreover obtain m where "n = Suc m" using assms(7) by (cases n) auto
  ultimately show ?thesis using assms(9) by (simp add: compactor_write_def keeps_file_def Let_def)
qed

end

end
