(* ===== verification/Snapshot.thy ===== *)
theory Snapshot
  imports Compact Compactor Cache Codecs ArrayCursor
begin

text \<open>
  Writing a memory table to a file: the iterator \<open>cacheKeyIterator\<close> over the nodes of a cache
  (\<open>storage/compactor/iterator_cache_key.go\<close>), which encodes the values of each series in blocks, and what the compactor
  makes of it.

  The nodes are encoded by several goroutines that take their numbers from a shared counter. A node is encoded by one of them and
  into its own slot, so that the slots do not depend on the interleaving; which goroutine encodes a block decides only the
  state of the encoders it finds, and that is an argument.
\<close>

section \<open>Encoding the values of a series\<close>

record 'w block_encoders =
  be_t :: time_encoder
  be_f :: "'w FloatEncoder"
  be_b :: BooleanEncoder
  be_u :: IntegerEncoder
  be_s :: StringEncoder
  be_i :: IntegerEncoder

record cacheBlock =
  cb_k :: bytes
  cb_minTime :: u64
  cb_maxTime :: u64
  cb_b :: bytes
  cb_err :: "error option"

text \<open>
  What the iterator is given: the encoders that block \<open>j\<close> of node \<open>i\<close> is encoded with, the switches of the separation of values, and
  the value files, with the outcome of the call of \<open>WriteBlock\<close> for that block.
\<close>

record 'w snapshot_env =
  sv_ops :: "'w BitWriter"
  sv_encoders :: "nat \<Rightarrow> nat \<Rightarrow> 'w block_encoders"
  sv_k :: int
  sv_separateEnabled :: bool
  sv_NeedSeparate :: "(nat \<Rightarrow> int \<Rightarrow> nat \<Rightarrow> nat \<Rightarrow> bool) option"
  sv_GetOrCreateVFileManager :: "int \<Rightarrow> error option"
  sv_WriteBlock :: "nat \<Rightarrow> nat \<Rightarrow> int \<Rightarrow> bytes \<Rightarrow> u64 \<Rightarrow> u64 \<Rightarrow> bytes \<Rightarrow> bytes \<times> error option"

definition SeparateDefaultK :: int where
  "SeparateDefaultK = 30000"

definition is_ptr :: "Value \<Rightarrow> bool" where
  "is_ptr v = (case v of PtrValue _ _ _ _ \<Rightarrow> True | _ \<Rightarrow> False)"

definition encode_chunk :: "'w BitWriter \<Rightarrow> 'w block_encoders \<Rightarrow> Values \<Rightarrow> bytes result" where
  "encode_chunk ops be values =
     (case values of
        [] \<Rightarrow> Inl Panic
      | v # _ \<Rightarrow>
          (case v of
             FloatValue _ _ \<Rightarrow> EncodeFloatBlockUsing ops values (be_t be) (be_f be)
           | IntegerValue _ _ \<Rightarrow> EncodeIntegerBlockUsing values (be_t be) (be_i be)
           | UnsignedValue _ _ \<Rightarrow> EncodeUnsignedBlockUsing values (be_t be) (be_u be)
           | BooleanValue _ _ \<Rightarrow> EncodeBooleanBlockUsing values (be_t be) (be_b be)
           | StringValue _ _ \<Rightarrow> EncodeRawStringBlockUsing values (be_t be) (be_s be)
           | PtrValue _ _ _ _ \<Rightarrow> Inl ErrUnsupportedValue))"

definition needSeparate :: "'w snapshot_env \<Rightarrow> nat \<Rightarrow> bytes \<Rightarrow> Value \<Rightarrow> bool" where
  "needSeparate e n key v =
     (case sv_NeedSeparate e of
        None \<Rightarrow> sv_separateEnabled e
      | Some decide \<Rightarrow>
          if sv_separateEnabled e \<and> sv_k e \<ge> SeparateDefaultK then decide n SeparateDefaultK (length key) (value_Size v)
          else sv_separateEnabled e)"

text \<open>
  The loop over the values of a node. The inner loop counts the values up to the next pointer, but its \<open>break\<close> leaves only the
  \<open>switch\<close>: with a pointer behind the first value it runs forever. A block of a pointer has no bytes. With
  separation the error of the encoding is replaced by that of the value file.
\<close>

function encode_node :: "'w snapshot_env \<Rightarrow> nat \<Rightarrow> nat \<Rightarrow> bytes \<Rightarrow> int \<Rightarrow> nat \<Rightarrow> Values \<Rightarrow> cacheBlock list result" where
  "encode_node e sz i key lifeCycle j values =
     (case values of
        [] \<Rightarrow> Inr []
      | v # vs \<Rightarrow>
          (case v of
             PtrValue _ _ mn mx \<Rightarrow>
               bind_result (encode_node e sz i key lifeCycle (j + 1) vs) (\<lambda>bs.
                 Inr (\<lparr>cb_k = key, cb_minTime = mn, cb_maxTime = mx, cb_b = [], cb_err = None\<rparr> # bs))
           | _ \<Rightarrow>
               if list_ex is_ptr vs then Inl Diverged
               else
                 let n = (if length values > sz then sz else length values)
                 in if n = 0 then Inl Panic
                    else
                      let minTime = unixNano v; maxTime = unixNano (values ! (n - 1))
                      in bind_result (try_result (encode_chunk (sv_ops e) (sv_encoders e i j) (take n values))) (\<lambda>r.
                           let (b, err) = (case r of Inl er \<Rightarrow> ([], Some er) | Inr b \<Rightarrow> (b, None));
                               (b', err') =
                                 (if needSeparate e n key v then
                                    case sv_GetOrCreateVFileManager e lifeCycle of
                                      Some er \<Rightarrow> (b, Some er)
                                    | None \<Rightarrow> sv_WriteBlock e i j lifeCycle key minTime maxTime b
                                  else (b, err))
                           in bind_result (encode_node e sz i key lifeCycle (j + 1) (drop n values)) (\<lambda>bs.
                                Inr (\<lparr>cb_k = key, cb_minTime = minTime, cb_maxTime = maxTime, cb_b = b', cb_err = err'\<rparr> # bs)))))"
  by pat_completeness auto
termination
  by (relation "measure (\<lambda>(e, sz, i, key, lc, j, values). length values)") (auto split: if_splits)

declare encode_node.simps [simp del]

section \<open>The iterator\<close>

text \<open>\<open>ci_blocks\<close> has the slot of each node; taking from the channel \<open>ready\<close> waits until it is filled.\<close>

record cacheKeyIterator =
  ci_i :: int
  ci_blocks :: "cacheBlock list result list"
  ci_err :: "error option"

definition encode_slot :: "'w snapshot_env \<Rightarrow> nat \<times> Node \<Rightarrow> cacheBlock list result" where
  "encode_slot e = (\<lambda>(i, node).
     case nd_entry node of
       None \<Rightarrow> Inl Panic
     | Some en \<Rightarrow> encode_node e DefaultMaxPointsPerBlock i (nd_key node) (nd_lifeCycle node) 0 (en_values en))"

text \<open>Each goroutine stores the errors of its blocks in \<open>err\<close>; here the last in the order of the nodes remains.\<close>

definition slot_errors :: "cacheBlock list result list \<Rightarrow> error list" where
  "slot_errors slots = concat (map (\<lambda>r. case r of Inl _ \<Rightarrow> [] | Inr bs \<Rightarrow> List.map_filter cb_err bs) slots)"

definition NewCacheKeyIterator :: "'w snapshot_env \<Rightarrow> Node list \<Rightarrow> cacheKeyIterator result" where
  "NewCacheKeyIterator e nodes =
     (case nodes of
        [] \<Rightarrow> Inl Panic
      | node # _ \<Rightarrow>
          (case nd_entry node of
             None \<Rightarrow> Inl Panic
           | Some _ \<Rightarrow>
               let slots = map (encode_slot e) (enumerate 0 nodes)
               in Inr \<lparr>ci_i = -1, ci_blocks = slots,
                       ci_err = (if slot_errors slots = [] then None else Some (last (slot_errors slots)))\<rparr>))"

definition ci_step :: "cacheKeyIterator \<Rightarrow> (bool \<times> cacheKeyIterator) result" where
  "ci_step it =
     (let it1 = it\<lparr>ci_i := ci_i it + 1\<rparr>
      in if ci_i it1 \<ge> int (length (ci_blocks it1)) then Inr (False, it1)
         else bind_result (ci_blocks it1 ! nat (ci_i it1)) (\<lambda>_. Inr (True, it1)))"

definition ci_Next :: "cacheKeyIterator \<Rightarrow> (bool \<times> cacheKeyIterator) result" where
  "ci_Next it =
     (if ci_i it \<ge> 0 \<and> ci_i it < int (length (ci_blocks it)) then
        bind_result (ci_blocks it ! nat (ci_i it)) (\<lambda>bs.
          if length bs > 0 then
            let it1 = it\<lparr>ci_blocks := (ci_blocks it)[nat (ci_i it) := Inr (tl bs)]\<rparr>
            in if length (tl bs) > 0 then Inr (True, it1) else ci_step it1
          else ci_step it)
      else ci_step it)"

text \<open>\<open>Read\<close>, when the snapshot is not interrupted.\<close>

definition ci_Read :: "cacheKeyIterator \<Rightarrow> ((bytes \<times> u64 \<times> u64 \<times> bytes) \<times> error option) result" where
  "ci_Read it =
     (if ci_i it < 0 \<or> ci_i it \<ge> int (length (ci_blocks it)) then Inl Panic
      else bind_result (ci_blocks it ! nat (ci_i it)) (\<lambda>bs.
        case bs of
          [] \<Rightarrow> Inl Panic
        | blk # _ \<Rightarrow> Inr ((cb_k blk, cb_minTime blk, cb_maxTime blk, cb_b blk), cb_err blk)))"


section \<open>What a snapshot delivers\<close>






section \<open>Encoded series\<close>



text \<open>The values of one type, none a pointer and no float a NaN, that fit the formats.\<close>

definition flushable :: "Values \<Rightarrow> bool" where
  "flushable vs \<longleftrightarrow> length vs < 2 ^ 58 \<and> (\<forall>v \<in> set vs. valueType v \<noteq> valueTypeUndefined \<and> valueType v = valueType (hd vs) \<and>
     (case v of FloatValue _ x \<Rightarrow> \<not> IsNaN x | _ \<Rightarrow> True)) \<and> length (enc_strings (map string_payload vs)) < 2 ^ 63"







section \<open>The blocks of a snapshot\<close>

definition node_values :: "Node \<Rightarrow> Values" where
  "node_values node = (case nd_entry node of None \<Rightarrow> [] | Some en \<Rightarrow> en_values en)"


text \<open>A series that can be written: there is at least one value, and they fit; \<open>flush_ok\<close> also has them in order, as \<open>Deduplicate\<close> leaves them.\<close>

definition flush_fits :: "Node \<Rightarrow> bool" where
  "flush_fits node \<longleftrightarrow> node_values node \<noteq> [] \<and> flushable (node_values node) \<and> nd_key node \<noteq> [] \<and>
     length (nd_key node) \<le> maxKeyLength \<and> length (gens_chunk DefaultMaxPointsPerBlock (node_values node)) < maxIndexEntries"

definition flush_ok :: "Node \<Rightarrow> bool" where
  "flush_ok node \<longleftrightarrow> flush_fits node \<and> ordered (node_values node)"

lemma flush_okD:
  assumes "flush_ok node"
  shows "node_values node \<noteq> []" "flushable (node_values node)" "ordered (node_values node)" "nd_key node \<noteq> []"
    "length (nd_key node) \<le> maxKeyLength" "length (gens_chunk DefaultMaxPointsPerBlock (node_values node)) < maxIndexEntries"
  using assms by (simp_all add: flush_ok_def flush_fits_def)
















section \<open>Deduplicating the cache\<close>




section \<open>Property\<close>


text \<open>A series whose values were all deleted has no block, and reading it panics.\<close>

lemma empty_series_panics:
  assumes "nd_entry node = Some en" and "en_values en = []"
  shows "\<exists>it it1. NewCacheKeyIterator e (node # nodes) = Inr it \<and> ci_Next it = Inr (True, it1) \<and> ci_Read it1 = Inl Panic"
proof -
  let ?slots = "map (encode_slot e) (enumerate 0 (node # nodes))"
  have 0: "?slots = Inr [] # map (encode_slot e) (enumerate 1 nodes)" using assms by (simp add: encode_slot_def encode_node.simps)
  obtain er where er: "NewCacheKeyIterator e (node # nodes) = Inr \<lparr>ci_i = -1, ci_blocks = ?slots, ci_err = er\<rparr>"
    using assms(1) by (simp add: NewCacheKeyIterator_def Let_def)
  let ?it = "\<lparr>ci_i = -1, ci_blocks = ?slots, ci_err = er\<rparr>"
  have "ci_Next ?it = Inr (True, ?it\<lparr>ci_i := 0\<rparr>)" unfolding 0 by (simp add: ci_Next_def ci_step_def Let_def)
  moreover have "ci_Read (?it\<lparr>ci_i := 0\<rparr>) = Inl Panic" unfolding 0 by (simp add: ci_Read_def)
  ultimately show ?thesis using er by blast
qed




end
