(* ===== verification/Spec2Isabelle.thy ===== *)
theory Spec2Isabelle
  imports Prelude GoBinary Simple8b Simple8bStream CodecUtils TimeCodec ValueTypes BlockCodec IntCodec BoolCodec StringCodec FloatCodec Codecs Values Cache Wal WalStream MemTable MemManager GoSlices StoreUtil SstIndex SstRead SstLayout SstDelete SstFile Arrays KeyCursor KeyCursorFiles ArrayCursor CursorRuns Query Tombstone GoSort Compact CompactKey CompactTypes CompactIter CompactFiles Planner Compactor Snapshot
begin

text \<open>
  EquinoxDB is a storage engine for time series written in Go. A write is appended to a write-ahead
  log and put into an in-memory cache; full memory tables are queued, encoded block by block and
  written as immutable SST files; queries merge the memory tables with the SST files, and deletions
  leave tombstones. This development models the engine from the bits of the block formats up to the
  files, and proves what the parts promise each other.

  \<^bold>\<open>Reading guide.\<close> Paths are relative to \<open>src/\<close>.

  \<^item> \<open>Prelude\<close>: machine types, errors and results, shared lemmas. \<open>GoBinary\<close>, \<open>GoSlices\<close> and \<open>GoSort\<close>: what
    the code uses of Go's \<open>encoding/binary\<close>, \<open>bytes\<close>, slices and \<open>sort\<close>. \<open>sort.Stable\<close> is modelled as the library has it,
    runs of 20 sorted by insertion and merged in place, because one of the orders it is called with is no weak order.
  \<^item> \<open>Simple8b\<close>, \<open>Simple8bStream\<close>: \<open>pkg/encoding/simple8b/encoding.go\<close>. The packing of up to 240
    integers into a word, the batch functions and the streaming encoder and decoder. C1 to C4: both
    kinds of encoder are inverted by the decoders, the batch encoder fails exactly for values of more
    than 60 bits, and any sequence of calls on an encoder represents the sequence of written values.
  \<^item> \<open>CodecUtils\<close>, \<open>TimeCodec\<close>, \<open>BlockCodec\<close>, \<open>IntCodec\<close>, \<open>BoolCodec\<close>, \<open>StringCodec\<close>, \<open>FloatCodec\<close>, \<open>Codecs\<close>:
    \<open>storage/codec\<close>. Timestamps, the typed values of a block, and the choice of the codec. The locale \<open>value_codec\<close> states what a
    block needs of a value encoder and decoder, and proves the round trip of blocks once; each typed
    codec interprets it. C5 to C11 and C13: round trips of the streaming codecs and of blocks of all five types, exactly what the batch
    functions return, and that streaming and batch codecs read each other's bytes.
  \<^item> \<open>ValueTypes\<close>, \<open>Values\<close>, \<open>Arrays\<close>: \<open>storage/types\<close>. Values, the algorithms on slices of values (sorting, deduplication,
    merge, range search), the entry of a series, and the arrays with the same algorithms. C14 to C17 and C33: each algorithm is the
    operation on maps from timestamps to values it stands for, and the arrays refine the slices (locale \<open>array_type\<close>).
  \<^item> \<open>Cache\<close>: \<open>storage/memory/cache.go\<close>, a skip list in an explicit heap of nodes. The locale
    \<open>series_store\<close> is the contract of a store of series; C18 and C19 show that the skip list meets it and
    what \<open>Get\<close> returns.
  \<^item> \<open>Wal\<close>, \<open>WalStream\<close>: \<open>storage/store/wal_file.go\<close>, \<open>wal_reader.go\<close> and the reader of \<open>mmap_file.go\<close>. \<open>Wal\<close> has the log and
    its reader on bytes that stay as they are, \<open>WalStream\<close> the reader on a mapped file that changes between the calls, through the
    buffer of \<open>bufio\<close>. C20 and C21: recovery after a complete and after a torn write.
  \<^item> \<open>MemTable\<close>, \<open>MemManager\<close>: \<open>storage/memory/memtable.go\<close>, \<open>memtable_manager.go\<close> and the flusher in
    \<open>storage/engine_compact_snap.go\<close>. C22 to C28: a table rebuilt from its log, while the replay writes to the log it reads; the queue
    of immutable tables as a step relation; reads across tables and range deletion.
  \<^item> \<open>Snapshot\<close>, \<open>Compactor\<close>: \<open>storage/compactor/iterator_cache_key.go\<close> and \<open>compactor.go\<close>. The iterator that encodes a memory table, and the
    loops that write what an iterator delivers to files; the locale \<open>key_iterator\<close> is what these loops need of an iterator. C12: flushing
    a table keeps its series.
  \<^item> \<open>StoreUtil\<close>, \<open>SstIndex\<close>, \<open>SstRead\<close>, \<open>SstLayout\<close>, \<open>SstDelete\<close>, \<open>SstFile\<close>, \<open>Tombstone\<close>: \<open>storage/store/util.go\<close>,
    \<open>sst_writer.go\<close>, \<open>sst_index.go\<close>, \<open>sst_block_accessor.go\<close>, \<open>tombstone.go\<close>, \<open>sst_reader.go\<close>, \<open>sst_batch_deleter.go\<close>. C29 to C31 and C36:
    deletions in an index are exact, a written file is read back, loading an index ends on every input, and what a batch of deletions leaves.
  \<^item> \<open>KeyCursor\<close>, \<open>KeyCursorFiles\<close>, \<open>ArrayCursor\<close>, \<open>CursorRuns\<close>, \<open>Query\<close>: \<open>sst_file_key_cursor*.go\<close>, \<open>storage/cursor\<close>,
    \<open>storage/engine_cursor_build.gen.go\<close> and \<open>Get\<close> of \<open>storage/engine.go\<close>. The cursor over the blocks of a key in several files, the cursors that merge it with
    the cached values, and queries. C32, C34 and C35: what cursors and queries deliver, and where an ascending query delivers values twice.
    The locales \<open>series_container\<close>, \<open>cursor_type\<close> and \<open>chunk_reader\<close> carry the proofs for all the generated types.
  \<^item> \<open>Compact\<close>, \<open>CompactKey\<close>, \<open>CompactTypes\<close>, \<open>CompactIter\<close>, \<open>CompactFiles\<close>: \<open>storage/compactor/compact.gen.go\<close> and
    \<open>iterator_batch_key.go\<close>. The merging of the blocks of a key and the iteration over files; the locales \<open>block_merge\<close>, \<open>typed_merge\<close> and
    \<open>file_merge\<close> build on each other. C37 and C38: a compaction keeps the live values, the later file counting, for at most 20 blocks for each
    key; the lemma \<open>sort_Stable_reorders_overlap\<close> shows why not for more.
  \<^item> \<open>Planner\<close>: \<open>storage/compactor/planner.go\<close>, \<open>type_generation.go\<close>. C39 and C40: plans in force have no file in common, and which files the groups
    of a level plan have; the lemmas \<open>span_plans\<close> and \<open>PlanOptimize_leaves_gap\<close> show the gaps that remain.

  \<^bold>\<open>How the code is modelled.\<close> A struct is a record, a method a function from the receiver to the
  updated receiver, and an error a value of \<open>error\<close>; a Go panic is the error \<open>Panic\<close> and a loop that does not end is \<open>Diverged\<close>, so that a theorem
  about a result also says that nothing panics and that the code ends. Machine integers keep their width. A slice that is
  overwritten in place is returned updated. The skip list lives in a heap of nodes because nodes are
  shared; elsewhere no alias is observable. Goroutines appear as interleavings of whole calls under
  the locks the code takes; the order in which a map is iterated, where it shows, is an argument. Packages outside the repository (snappy, gzip, the checksum, the bit writer,
  unstable sorting) are parameters with their documented behaviour as hypotheses.

  \<^bold>\<open>Bounds and fuel.\<close> Sequences are assumed shorter than \<open>2 ^ 58\<close> and byte slices shorter than
  \<open>2 ^ 63\<close>, so that lengths fit an \<open>int\<close>; logs and their entries are shorter than \<open>2 ^ 32\<close> and indexes
  shorter than \<open>2 ^ 31\<close>, as their length fields require. Loops that follow pointers in the skip list
  have the number of nodes plus the number of levels as fuel, and C18 shows that it is never used up.
  The loop of \<open>UnmarshalBinary\<close> has two more than the number of bytes, which C31 shows to be enough
  for every input. The rounds of deduplication of a compaction are bounded by the number of blocks of the key, the calls of \<open>Next\<close> of a cursor by
  the number of values, those of a compaction by the number of values and keys, and the loop that writes a file by the number of blocks; the theorems show that
  these are enough. The replay of a log ends because each entry takes bytes of the file. All other loops end by a measure.

  \<^bold>\<open>Not modelled.\<close> System calls (memory mapping, files, directories) succeed and are the bytes they
  transfer. The files of separated values with their garbage collection and the decision to separate are parameters where blocks are written or read; the batch
  codec of floats is a parameter of the compaction. The opening and closing of the engine, its timers and the scheduling of levels, the bookkeeping of the file
  store, the text form of points, metrics, logging, the web interface and the benchmarks are left out.
\<close>

end
